(* ===== verification/Prelude.thy ===== *)
theory Prelude
  imports Main "HOL-Library.Word" "HOL-Library.Monad_Syntax"
begin

unbundle bit_operations_syntax

text \<open>
  The shared base of the development: the machine integer types of the kernel's C, calls that
  may not return, byte-addressed memory with little-endian words, and the generic facts on
  lists, options and words that the component theories use.
\<close>

section \<open>Machine integers\<close>

type_synonym u8 = "8 word"
type_synonym u16 = "16 word"
type_synonym u32 = "32 word"
type_synonym u64 = "64 word"

text \<open>The pid of a process and the index of a slot of one of the kernel's fixed tables.\<close>

type_synonym pid = int
type_synonym slot = nat

section \<open>Calls that may not return\<close>

text \<open>
  A kernel function is a partial computation: \<open>Some (r, s)\<close> is a call that returns \<open>r\<close> in the
  state \<open>s\<close>, and \<open>None\<close> is a call that never returns, because it panics (\<open>panic\<close> of
  \<^verbatim>\<open>printf.c\<close> prints its message and loops forever) or because it sleeps and no other process
  runs to wake it up.  The message is kept in the text of the model only.
\<close>

definition panic :: "string \<Rightarrow> 'a option" where
  "panic msg = None"

lemma panic_not_Some [simp]: "panic msg \<noteq> Some x" "Some x \<noteq> panic msg"
  by (simp_all add: panic_def)

lemma panic_eq_None [simp]: "panic msg = None" "None = panic msg"
  by (simp_all add: panic_def)

text \<open>Inversion of a call that returned, one collection for every layer.\<close>

named_theorems returns

lemma bind_returns [returns]:
  "(m \<bind> f = Some y) \<longleftrightarrow> (\<exists>x. m = Some x \<and> f x = Some y)"
  by (cases m) auto

lemma panic_returns [returns]: "(panic msg = Some y) \<longleftrightarrow> False"
  by simp

lemma if_panic_returns [returns]:
  "((if b then panic msg else m) = Some y) \<longleftrightarrow> (\<not> b \<and> m = Some y)"
  by simp

section \<open>Little-endian words in byte lists\<close>

text \<open>\<open>le_bytes n w\<close> is the first \<open>n\<close> bytes of the object representation of \<open>w\<close> on RISC-V.\<close>

definition le_bytes :: "nat \<Rightarrow> 'a::len word \<Rightarrow> u8 list" where
  "le_bytes n w = map (\<lambda>i. ucast (drop_bit (8 * i) w)) [0..<n]"

primrec le_word :: "u8 list \<Rightarrow> 'a::len word" where
  "le_word [] = 0"
| "le_word (b # bs) = ucast b OR push_bit 8 (le_word bs)"

lemma length_le_bytes [simp]: "length (le_bytes n w) = n"
  by (simp add: le_bytes_def)

lemma nth_le_bytes [simp]: "i < n \<Longrightarrow> le_bytes n w ! i = ucast (drop_bit (8 * i) w)"
  by (simp add: le_bytes_def)

lemma bit_le_word:
  "bit (le_word bs :: 'a::len word) k \<longleftrightarrow>
     k < LENGTH('a) \<and> k < 8 * length bs \<and> bit (bs ! (k div 8)) (k mod 8)"
proof (induction bs arbitrary: k)
  case Nil
  then show ?case by simp
next
  case (Cons b bs)
  show ?case
  proof (cases "k < 8")
    case True
    then show ?thesis by (auto simp: bit_simps)
  next
    case False
    then obtain j where j: "k = 8 + j"
      by (metis le_Suc_ex not_less)
    have nb: "\<not> bit b k"
      using bit_imp_le_length [of b k] False by auto
    have "(8 + j) div 8 = Suc (j div 8)" and "(8 + j) mod 8 = j mod 8"
      by simp_all
    with nb False j Cons.IH [of j] show ?thesis
      by (auto simp: bit_simps)
  qed
qed

lemma bit_nth_le_bytes:
  "i < n \<Longrightarrow> bit (le_bytes n w ! i) j \<longleftrightarrow> j < 8 \<and> bit (w :: 'a::len word) (8 * i + j)"
  using bit_imp_le_length [of w "8 * i + j"] by (auto simp: bit_simps ac_simps)

text \<open>Storing a word and loading it back gives the word.\<close>

lemma le_word_le_bytes [simp]:
  assumes "8 * n = LENGTH('a)"
  shows "le_word (le_bytes n (w :: 'a::len word)) = w"
proof (rule bit_word_eqI)
  fix k assume k: "k < LENGTH('a)"
  then have "k div 8 < n" using assms by auto
  then show "bit (le_word (le_bytes n w) :: 'a word) k = bit w k"
    using k assms by (simp add: bit_le_word bit_nth_le_bytes del: nth_le_bytes)
qed

lemma le_bytes_le_word:
  assumes "8 * n = LENGTH('a)" and "length bs = n"
  shows "le_bytes n (le_word bs :: 'a::len word) = bs"
proof (rule nth_equalityI)
  fix i assume i: "i < length (le_bytes n (le_word bs :: 'a word))"
  then have i': "i < n" by simp
  show "le_bytes n (le_word bs :: 'a word) ! i = bs ! i"
  proof (rule bit_word_eqI)
    fix j assume j: "j < LENGTH(8)"
    have "8 * i + j < LENGTH('a)" using i' j assms(1) by simp
    then show "bit (le_bytes n (le_word bs :: 'a word) ! i) j = bit (bs ! i) j"
      using i' j assms by (simp add: bit_nth_le_bytes bit_le_word del: nth_le_bytes)
  qed
qed (use assms in simp)


section \<open>Words as natural numbers\<close>

lemma uint_eq_uint_iff [simp]: "uint a = uint b \<longleftrightarrow> a = b"
  by (metis word_uint_eq_iff)

lemma unat_drop_bit: "unat (drop_bit n w) = unat w div 2 ^ n"
  by (simp only: unat_drop_bit_eq) (simp only: drop_bit_eq_div)

lemma unat_take_bit: "unat (take_bit n w) = unat w mod 2 ^ n"
  by (simp only: unsigned_take_bit_eq) (simp only: take_bit_eq_mod)

lemma unat_push_bit:
  "unat w * 2 ^ n < 2 ^ LENGTH('a) \<Longrightarrow> unat (push_bit n (w :: 'a::len word)) = unat w * 2 ^ n"
  by (simp only: unsigned_push_bit_eq) (simp only: push_bit_eq_mult take_bit_nat_eq_self)

lemma take_bit_small: "unat w < 2 ^ n \<Longrightarrow> take_bit n w = w"
  by (rule unsigned_word_eqI [where 'a = nat]) (simp only: unat_take_bit mod_less)

lemma bit_small: "unat w < 2 ^ n \<Longrightarrow> n \<le> k \<Longrightarrow> \<not> bit w k"
  by (metis take_bit_small bit_take_bit_iff not_less)

lemma unat_ucast_up:
  "LENGTH('a) \<le> LENGTH('b) \<Longrightarrow> unat (ucast (w :: 'a::len word) :: 'b::len word) = unat w"
  by (simp add: unsigned_ucast_eq take_bit_nat_eq_self_iff)
    (metis unsigned_less order_less_le_trans power_increasing_iff one_less_numeral_iff semiring_norm(76))

lemma unat_plus_no_wrap:
  "unat a + unat b < 2 ^ LENGTH('a) \<Longrightarrow> unat (a + b :: 'a::len word) = unat a + unat b"
  by (simp add: unat_word_ariths)

lemma mod_0_div_mult: "n mod d = 0 \<Longrightarrow> n div d * d = n" for n d :: nat
  by (metis add.right_neutral div_mult_mod_eq)

lemma unat_of_nat_small: "n < 2 ^ LENGTH('a) \<Longrightarrow> unat (of_nat n :: 'a::len word) = n"
  by (simp add: unat_of_nat)

lemma sint_u32: "sint (i :: u32) = (if uint i < 2 ^ 31 then uint i else uint i - 2 ^ 32)"
proof -
  have r: "0 \<le> uint i" "uint i < 2 ^ 32" using unsigned_less [of i, where ?'a = int] by simp_all
  have s: "sint i = (uint i + 2 ^ 31) mod 2 ^ 32 - 2 ^ 31"
    by (simp add: sint_uint signed_take_bit_eq_take_bit_shift take_bit_eq_mod)
  show ?thesis
  proof (cases "uint i < 2 ^ 31")
    case True
    then have "(uint i + 2 ^ 31) mod 2 ^ 32 = uint i + 2 ^ 31" using r by (intro mod_pos_pos_trivial) simp_all
    then show ?thesis using s True by simp
  next
    case False
    then have "(uint i + 2 ^ 31 - 2 ^ 32) mod 2 ^ 32 = uint i + 2 ^ 31 - 2 ^ 32" using r by (intro mod_pos_pos_trivial) simp_all
    then have "(uint i + 2 ^ 31) mod 2 ^ 32 = uint i + 2 ^ 31 - 2 ^ 32"
      using mod_add_self2 [of "uint i + 2 ^ 31 - 2 ^ 32" "2 ^ 32"] by (simp add: add.commute)
    then show ?thesis using s False by simp
  qed
qed

section \<open>Lists\<close>

text \<open>A list with one value stored at several positions.\<close>

definition marked :: "nat list \<Rightarrow> 'x \<Rightarrow> 'x list \<Rightarrow> 'x list" where
  "marked is v xs = fold (\<lambda>i xs. xs[i := v]) is xs"

lemma marked_simps [simp]: "marked [] v xs = xs" "marked (i # is) v xs = marked is v (xs[i := v])"
  by (simp_all add: marked_def)

lemma length_marked [simp]: "length (marked is v xs) = length xs"
  by (induction "is" arbitrary: xs) simp_all

lemma nth_marked: "n < length xs \<Longrightarrow> marked is v xs ! n = (if n \<in> set is then v else xs ! n)"
  by (induction "is" arbitrary: xs) (auto simp: nth_list_update)

end
