(* ===== verification/Layout.thy ===== *)
theory Layout
  imports Prelude
begin

unbundle bit_operations_syntax

text \<open>
  The constants and address macros of the kernel's headers: the table sizes of
  \<^verbatim>\<open>kernel/param.h\<close>, the Sv39 page-table macros of \<^verbatim>\<open>kernel/riscv.h\<close> and the memory map of
  \<^verbatim>\<open>kernel/memlayout.h\<close>.  Addresses are 64-bit words, so every macro wraps as the C does.
\<close>

section \<open>Table sizes (param.h)\<close>

abbreviation (input) NPROC :: nat where "NPROC \<equiv> 64"
abbreviation (input) NCPU :: nat where "NCPU \<equiv> 8"
abbreviation (input) NOFILE :: nat where "NOFILE \<equiv> 16"
abbreviation (input) NFILE :: nat where "NFILE \<equiv> 100"
abbreviation (input) NINODE :: nat where "NINODE \<equiv> 50"
abbreviation (input) NDEV :: nat where "NDEV \<equiv> 10"
abbreviation (input) ROOTDEV :: u32 where "ROOTDEV \<equiv> 1"
abbreviation (input) MAXARG :: nat where "MAXARG \<equiv> 32"
abbreviation (input) MAXOPBLOCKS :: nat where "MAXOPBLOCKS \<equiv> 10"
abbreviation (input) LOGSIZE :: nat where "LOGSIZE \<equiv> 30"
abbreviation (input) NBUF :: nat where "NBUF \<equiv> 30"
abbreviation (input) FSSIZE :: nat where "FSSIZE \<equiv> 2000"
abbreviation (input) MAXPATH :: nat where "MAXPATH \<equiv> 128"

section \<open>Pages and page-table entries (riscv.h)\<close>

abbreviation (input) PGSIZE :: u64 where "PGSIZE \<equiv> 4096"
abbreviation (input) PGSHIFT :: nat where "PGSHIFT \<equiv> 12"

definition PGROUNDUP :: "u64 \<Rightarrow> u64" where
  "PGROUNDUP sz = (sz + PGSIZE - 1) AND NOT (PGSIZE - 1)"

definition PGROUNDDOWN :: "u64 \<Rightarrow> u64" where
  "PGROUNDDOWN a = a AND NOT (PGSIZE - 1)"

abbreviation (input) PTE_V :: u64 where "PTE_V \<equiv> 1"
abbreviation (input) PTE_R :: u64 where "PTE_R \<equiv> 2"
abbreviation (input) PTE_W :: u64 where "PTE_W \<equiv> 4"
abbreviation (input) PTE_X :: u64 where "PTE_X \<equiv> 8"
abbreviation (input) PTE_U :: u64 where "PTE_U \<equiv> 16"

definition PA2PTE :: "u64 \<Rightarrow> u64" where
  "PA2PTE pa = push_bit 10 (drop_bit 12 pa)"

definition PTE2PA :: "u64 \<Rightarrow> u64" where
  "PTE2PA pte = push_bit 12 (drop_bit 10 pte)"

definition PTE_FLAGS :: "u64 \<Rightarrow> u64" where
  "PTE_FLAGS pte = pte AND 0x3FF"

definition PX :: "nat \<Rightarrow> u64 \<Rightarrow> u64" where
  "PX level va = drop_bit (PGSHIFT + 9 * level) va AND 0x1FF"

abbreviation (input) MAXVA :: u64 where "MAXVA \<equiv> 0x4000000000"

definition MAKE_SATP :: "u64 \<Rightarrow> u64" where
  "MAKE_SATP pagetable = 0x8000000000000000 OR drop_bit 12 pagetable"

section \<open>The memory map (memlayout.h)\<close>

abbreviation (input) UART0 :: u64 where "UART0 \<equiv> 0x10000000"
abbreviation (input) UART0_IRQ :: u32 where "UART0_IRQ \<equiv> 10"
abbreviation (input) VIRTIO0 :: u64 where "VIRTIO0 \<equiv> 0x10001000"
abbreviation (input) VIRTIO0_IRQ :: u32 where "VIRTIO0_IRQ \<equiv> 1"
abbreviation (input) PLIC :: u64 where "PLIC \<equiv> 0x0c000000"
abbreviation (input) KERNBASE :: u64 where "KERNBASE \<equiv> 0x80000000"
abbreviation (input) PHYSTOP :: u64 where "PHYSTOP \<equiv> 0x88000000"

definition TRAMPOLINE :: u64 where
  "TRAMPOLINE = MAXVA - PGSIZE"

definition KSTACK :: "nat \<Rightarrow> u64" where
  "KSTACK p = TRAMPOLINE - (of_nat p + 1) * 2 * PGSIZE"

definition TRAPFRAME :: u64 where
  "TRAPFRAME = TRAMPOLINE - PGSIZE"

section \<open>Facts about the macros\<close>

named_theorems layout

text \<open>Page alignment, and the page-aligned part of an address as a multiple of the page size.\<close>

definition page_aligned :: "u64 \<Rightarrow> bool" where
  "page_aligned a \<longleftrightarrow> a AND 0xFFF = 0"

lemma mask_12_eq: "(0xFFF :: u64) = mask 12"
  by (simp add: mask_eq_exp_minus_1)

lemma page_aligned_unat: "page_aligned a \<longleftrightarrow> unat a mod 4096 = 0"
proof -
  have "unat (a AND 0xFFF) = unat a mod 2 ^ 12"
    by (simp only: mask_12_eq unat_take_bit flip: take_bit_eq_mask)
  then show ?thesis
    by (simp add: page_aligned_def flip: unat_eq_0)
qed

lemma PGROUNDDOWN_eq: "PGROUNDDOWN a = push_bit 12 (drop_bit 12 a)"
proof (rule bit_word_eqI)
  fix k assume "k < LENGTH(64)"
  have "(4096 - 1 :: u64) = mask 12" by (simp add: mask_eq_exp_minus_1)
  then have "PGROUNDDOWN a = a AND NOT (mask 12)" by (simp only: PGROUNDDOWN_def)
  with \<open>k < LENGTH(64)\<close> show "bit (PGROUNDDOWN a) k = bit (push_bit 12 (drop_bit 12 a)) k"
    by (auto simp: bit_simps)
qed

lemma unat_PGROUNDDOWN [layout]: "unat (PGROUNDDOWN a) = unat a div 4096 * 4096"
proof -
  have "unat a div 2 ^ 12 * 2 ^ 12 < 2 ^ LENGTH(64)"
    using unsigned_less [of a, where 'a = nat]
    by (simp add: order.strict_trans1 [OF div_times_less_eq_dividend])
  then have "unat (push_bit 12 (drop_bit 12 a)) = unat a div 2 ^ 12 * 2 ^ 12"
    by (subst unat_push_bit) (simp_all only: unat_drop_bit)
  then show ?thesis by (simp add: PGROUNDDOWN_eq)
qed

lemma PGROUNDDOWN_aligned [simp]: "page_aligned (PGROUNDDOWN a)"
  by (simp add: page_aligned_unat unat_PGROUNDDOWN)

lemma PGROUNDDOWN_le: "PGROUNDDOWN a \<le> a"
  by (simp add: word_le_nat_alt unat_PGROUNDDOWN)

lemma PGROUNDUP_eq: "PGROUNDUP sz = PGROUNDDOWN (sz + 4095)"
  by (simp add: PGROUNDUP_def PGROUNDDOWN_def add.commute)

lemma unat_PGROUNDUP [layout]:
  assumes "unat sz + 4095 < 2 ^ 64"
  shows "unat (PGROUNDUP sz) = (unat sz + 4095) div 4096 * 4096"
proof -
  have "unat (sz + 4095) = unat sz + 4095"
    using assms by (simp add: unat_word_ariths)
  then show ?thesis by (simp add: PGROUNDUP_eq unat_PGROUNDDOWN)
qed

lemma PGROUNDUP_aligned [simp]: "page_aligned (PGROUNDUP a)"
  by (simp add: PGROUNDUP_eq)


lemma PGROUNDDOWN_id [simp]: "page_aligned a \<Longrightarrow> PGROUNDDOWN a = a"
  by (rule unsigned_word_eqI [where 'a = nat]) (auto simp: unat_PGROUNDDOWN page_aligned_unat)

lemma page_aligned_add [simp]: "page_aligned a \<Longrightarrow> page_aligned (a + PGSIZE)"
proof -
  assume "page_aligned a"
  moreover have "(unat a + 4096) mod 2 ^ 64 mod 4096 = (unat a + 4096) mod 4096"
    by (rule mod_mod_cancel) (simp add: dvd_def)
  ultimately show ?thesis
    by (simp add: page_aligned_unat unat_word_ariths)
qed

text \<open>An entry keeps the physical page and the flags it was made from.\<close>

lemma PTE2PA_PA2PTE [layout]:
  assumes "page_aligned pa" and "pa < 2 ^ 56" and "flags < 1024"
  shows "PTE2PA (PA2PTE pa OR flags) = pa"
proof (rule bit_word_eqI)
  fix k assume "k < LENGTH(64)"
  have pa_lo: "\<not> bit pa k" if "k < 12"
  proof -
    have "bit (pa AND mask 12) k = bit (0 :: u64) k"
      using assms(1) by (simp add: page_aligned_def mask_12_eq)
    with that show ?thesis by (simp add: bit_simps)
  qed
  have pa_hi: "\<not> bit pa k" if "56 \<le> k"
    using assms(2) that bit_small [of pa 56 k] by (simp add: word_less_nat_alt)
  have fl: "\<not> bit flags j" if "10 \<le> j" for j
    using assms(3) that bit_small [of flags 10 j] by (simp add: word_less_nat_alt)
  show "bit (PTE2PA (PA2PTE pa OR flags)) k = bit pa k"
    using pa_lo pa_hi fl [of "k - 2"]
    by (cases "k < 12"; cases "56 \<le> k") (auto simp: PTE2PA_def PA2PTE_def bit_simps)
qed

lemma PTE_FLAGS_PA2PTE [layout]:
  assumes "flags < 1024"
  shows "PTE_FLAGS (PA2PTE pa OR flags) = flags"
proof -
  have m: "(0x3FF :: u64) = mask 10" by (simp add: mask_eq_exp_minus_1)
  have "take_bit 10 flags = flags"
    using assms by (intro take_bit_small) (simp add: word_less_nat_alt)
  moreover have "take_bit 10 (PA2PTE pa) = 0"
    by (simp add: bit_eq_iff PA2PTE_def bit_simps)
  ultimately show ?thesis
    by (simp add: PTE_FLAGS_def m flip: take_bit_eq_mask)
qed

text \<open>Page-table indices are in range, and the three of them determine the page.\<close>

lemma unat_PX [layout]: "unat (PX level va) = unat va div 2 ^ (12 + 9 * level) mod 512"
proof -
  have "(0x1FF :: u64) = mask 9" by (simp add: mask_eq_exp_minus_1)
  then have "unat (PX level va) = unat va div 2 ^ (12 + 9 * level) mod 2 ^ 9"
    by (simp only: PX_def unat_take_bit unat_drop_bit flip: take_bit_eq_mask)
  then show ?thesis by simp
qed

lemma PX_less [layout]: "unat (PX level va) < 512"
  by (simp add: unat_PX)

lemma PX_inject:
  assumes "va < MAXVA" and "va' < MAXVA"
    and "PX 2 va = PX 2 va'" and "PX 1 va = PX 1 va'" and "PX 0 va = PX 0 va'"
  shows "PGROUNDDOWN va = PGROUNDDOWN va'"
proof -
  have split: "n div 4096 = n div 4096 mod 512 + 512 * (n div 2097152 mod 512)
      + 262144 * (n div 1073741824 mod 512)" if "n < 0x4000000000" for n :: nat
  proof -
    define q where "q = n div 4096"
    have d: "n div 2097152 = q div 512" "n div 1073741824 = q div 512 div 512"
      by (simp_all add: q_def flip: div_mult2_eq)
    have "q div 512 div 512 < 512"
      using that by (simp add: q_def div_less_iff_less_mult flip: div_mult2_eq)
    then have "q div 512 = q div 512 mod 512 + 512 * (q div 512 div 512 mod 512)"
      by simp
    moreover have "q = q mod 512 + 512 * (q div 512)" by simp
    ultimately show ?thesis unfolding d q_def [symmetric] by linarith
  qed
  have "unat va < 0x4000000000" "unat va' < 0x4000000000"
    using assms(1,2) by (simp_all add: word_less_nat_alt)
  note bounds = this
  have "unat va div 4096 mod 512 = unat va' div 4096 mod 512"
    using arg_cong [OF assms(5), of unat] unfolding unat_PX by simp
  moreover have "unat va div 2097152 mod 512 = unat va' div 2097152 mod 512"
    using arg_cong [OF assms(4), of unat] unfolding unat_PX by simp
  moreover have "unat va div 1073741824 mod 512 = unat va' div 1073741824 mod 512"
    using arg_cong [OF assms(3), of unat] unfolding unat_PX by simp
  ultimately have "unat va div 4096 = unat va' div 4096"
    using split [OF bounds(1)] split [OF bounds(2)] by (simp only:)
  then show ?thesis
    by (metis unat_PGROUNDDOWN unsigned_word_eqI)
qed

end
