(* ===== verification/Memory.thy ===== *)
theory Memory
  imports Layout
begin

unbundle bit_operations_syntax

text \<open>
  Byte-addressed physical memory, which the kernel reaches through its direct map, and the
  byte and string routines of \<^verbatim>\<open>kernel/string.c\<close> on it.  The routines that read or fill a single
  object are polymorphic in the pointer type, so that one definition serves memory (pointers are
  \<^typ>\<open>u64\<close>) and a local array of the source (pointers are offsets).
\<close>

type_synonym mem = "u64 \<Rightarrow> u8"

section \<open>Objects in memory\<close>

definition ld_bytes :: "mem \<Rightarrow> u64 \<Rightarrow> nat \<Rightarrow> u8 list" where
  "ld_bytes m a n = map (\<lambda>i. m (a + of_nat i)) [0..<n]"

definition st_bytes :: "u64 \<Rightarrow> u8 list \<Rightarrow> mem \<Rightarrow> mem" where
  "st_bytes a bs m = (\<lambda>x. if unat (x - a) < length bs then bs ! unat (x - a) else m x)"

definition ld64 :: "mem \<Rightarrow> u64 \<Rightarrow> u64" where
  "ld64 m a = le_word (ld_bytes m a 8)"

definition st64 :: "u64 \<Rightarrow> u64 \<Rightarrow> mem \<Rightarrow> mem" where
  "st64 a v m = st_bytes a (le_bytes 8 v) m"

named_theorems mem_simps

lemma length_ld_bytes [simp]: "length (ld_bytes m a n) = n"
  by (simp add: ld_bytes_def)

lemma nth_ld_bytes [simp]: "i < n \<Longrightarrow> ld_bytes m a n ! i = m (a + of_nat i)"
  by (simp add: ld_bytes_def)

lemma ld_bytes_cong:
  "(\<And>i. i < n \<Longrightarrow> m (a + of_nat i) = m' (a + of_nat i)) \<Longrightarrow> ld_bytes m a n = ld_bytes m' a n"
  by (simp add: ld_bytes_def)

lemma st_bytes_inside [mem_simps]:
  "i < length bs \<Longrightarrow> i < 2 ^ 64 \<Longrightarrow> st_bytes a bs m (a + of_nat i) = bs ! i"
  by (simp add: st_bytes_def unat_of_nat_small)

lemma st_bytes_outside [mem_simps]:
  "length bs \<le> unat (x - a) \<Longrightarrow> st_bytes a bs m x = m x"
  by (simp add: st_bytes_def)

lemma ld_st_bytes [mem_simps]:
  "length bs = n \<Longrightarrow> n < 2 ^ 64 \<Longrightarrow> ld_bytes (st_bytes a bs m) a n = bs"
  by (rule nth_equalityI) (auto simp: st_bytes_inside)

lemma st_ld_bytes [simp]: "st_bytes a (ld_bytes m a n) m = m"
  by (rule ext) (auto simp: st_bytes_def)

lemma ld64_st64 [simp]: "ld64 (st64 a v m) a = v"
  by (simp add: ld64_def st64_def ld_st_bytes)

text \<open>Two objects of the same power-of-two size at multiples of that size are equal or disjoint.\<close>

lemma aligned_disjoint:
  fixes a b :: u64
  assumes "unat a mod 2 ^ k = 0" and "unat b mod 2 ^ k = 0" and "a \<noteq> b" and "i < 2 ^ k" and "k < 64"
  shows "2 ^ k \<le> unat (b + of_nat i - a)"
proof (rule ccontr)
  assume "\<not> 2 ^ k \<le> unat (b + of_nat i - a)"
  then have j: "unat (b + of_nat i - a) < 2 ^ k" by simp
  define j where "j = unat (b + of_nat i - a)"
  have eq: "b + of_nat i = a + of_nat j" and j: "j < 2 ^ k"
    using j by (simp_all add: j_def)
  have no_wrap: "unat (c + of_nat l) = unat c + l"
    if "unat c mod 2 ^ k = 0" "l < 2 ^ k" for c :: u64 and l
  proof -
    from that(1) have "2 ^ k dvd unat c" by (rule mod_0_imp_dvd)
    then obtain q where q: "unat c = 2 ^ k * q" by (rule dvdE)
    obtain r where r: "(2 :: nat) ^ 64 = 2 ^ k * r"
      using \<open>k < 64\<close> by (metis le_add_diff_inverse less_imp_le power_add)
    have "2 ^ k * q < 2 ^ k * r" using q r unsigned_less [of c, where 'a = nat] by simp
    then have "Suc q \<le> r" by simp
    then have "2 ^ k * Suc q \<le> 2 ^ k * r" by (rule mult_le_mono2)
    then have "unat c + l < 2 ^ 64" using q r that(2) by simp
    moreover have "(2 :: nat) ^ k < 2 ^ 64"
      using \<open>k < 64\<close> by (rule power_strict_increasing) simp
    then have "unat (of_nat l :: u64) = l"
      using that(2) by (intro unat_of_nat_small) simp
    ultimately show ?thesis by (simp add: unat_word_ariths)
  qed
  have "unat b + i = unat a + j"
    using no_wrap [OF assms(2,4)] no_wrap [OF assms(1) j] eq by simp
  then have "(unat b + i) div 2 ^ k = (unat a + j) div 2 ^ k" by simp
  then have "unat b div 2 ^ k = unat a div 2 ^ k"
    using assms(1,2,4) j by (simp add: div_add1_eq)
  then have "unat b = unat a"
    using assms(1,2) by (metis add.right_neutral div_mult_mod_eq)
  then have "b = a" by (rule unsigned_word_eqI)
  then show False using \<open>a \<noteq> b\<close> by simp
qed


lemma ld64_st64_other:
  assumes "unat a mod 8 = 0" and "unat b mod 8 = 0" and "a \<noteq> b"
  shows "ld64 (st64 a v m) b = ld64 m b"
proof -
  have "st64 a v m (b + of_nat i) = m (b + of_nat i)" if "i < 8" for i
    using aligned_disjoint [of a 3 b i] assms that by (simp add: st64_def st_bytes_outside)
  then show ?thesis
    unfolding ld64_def by (intro arg_cong [of _ _ le_word] ld_bytes_cong) simp
qed

section \<open>string.c\<close>

text \<open>\<^verbatim>\<open>memset\<close>: the loop stores the byte \<open>c\<close> at \<open>dst\<close>, \<open>dst + 1\<close>, \dots\<close>

primrec memset_loop :: "nat \<Rightarrow> 'p::semiring_1 \<Rightarrow> u8 \<Rightarrow> ('p \<Rightarrow> u8) \<Rightarrow> 'p \<Rightarrow> u8" where
  "memset_loop 0 p c m = m"
| "memset_loop (Suc n) p c m = memset_loop n (p + 1) c (m(p := c))"

definition memset :: "u64 \<Rightarrow> u32 \<Rightarrow> u32 \<Rightarrow> mem \<Rightarrow> mem" where
  "memset dst c n m = memset_loop (unat n) dst (ucast c) m"

text \<open>\<^verbatim>\<open>memcmp\<close>, on two readable objects.\<close>

primrec memcmp :: "('p::semiring_1 \<Rightarrow> u8) \<Rightarrow> ('q::semiring_1 \<Rightarrow> u8) \<Rightarrow> 'p \<Rightarrow> 'q \<Rightarrow> nat \<Rightarrow> int" where
  "memcmp f g s1 s2 0 = 0"
| "memcmp f g s1 s2 (Suc n) =
     (if f s1 \<noteq> g s2 then uint (f s1) - uint (g s2) else memcmp f g (s1 + 1) (s2 + 1) n)"

text \<open>\<^verbatim>\<open>memmove\<close>: copy upwards, or downwards when the destination starts inside the source.\<close>

primrec copy_up :: "nat \<Rightarrow> u64 \<Rightarrow> u64 \<Rightarrow> mem \<Rightarrow> mem" where
  "copy_up 0 d s m = m"
| "copy_up (Suc n) d s m = copy_up n (d + 1) (s + 1) (m(d := m s))"

primrec copy_down :: "nat \<Rightarrow> u64 \<Rightarrow> u64 \<Rightarrow> mem \<Rightarrow> mem" where
  "copy_down 0 d s m = m"
| "copy_down (Suc n) d s m = copy_down n (d - 1) (s - 1) (m(d - 1 := m (s - 1)))"

definition memmove :: "u64 \<Rightarrow> u64 \<Rightarrow> u32 \<Rightarrow> mem \<Rightarrow> mem" where
  "memmove dst src n m =
     (if n = 0 then m
      else if src < dst \<and> dst < src + ucast n
      then copy_down (unat n) (dst + ucast n) (src + ucast n) m
      else copy_up (unat n) dst src m)"

definition memcpy :: "u64 \<Rightarrow> u64 \<Rightarrow> u32 \<Rightarrow> mem \<Rightarrow> mem" where
  "memcpy dst src n m = memmove dst src n m"

primrec strncmp :: "('p::semiring_1 \<Rightarrow> u8) \<Rightarrow> ('q::semiring_1 \<Rightarrow> u8) \<Rightarrow> 'p \<Rightarrow> 'q \<Rightarrow> nat \<Rightarrow> int" where
  "strncmp f g p q 0 = 0"
| "strncmp f g p q (Suc n) =
     (if f p \<noteq> 0 \<and> f p = g q then strncmp f g (p + 1) (q + 1) n
      else uint (f p) - uint (g q))"

text \<open>
  \<^verbatim>\<open>strncpy\<close>: the first loop copies until it has copied a NUL, the second one pads with zeros.
  A negative count copies nothing.
\<close>

primrec strncpy_loop :: "nat \<Rightarrow> 'p::semiring_1 \<Rightarrow> 'q::semiring_1 \<Rightarrow> ('q \<Rightarrow> u8) \<Rightarrow> ('p \<Rightarrow> u8) \<Rightarrow> 'p \<Rightarrow> u8" where
  "strncpy_loop 0 s t g m = m"
| "strncpy_loop (Suc n) s t g m =
     (if g t \<noteq> 0 then strncpy_loop n (s + 1) (t + 1) g (m(s := g t))
      else memset_loop n (s + 1) 0 (m(s := g t)))"

definition strncpy :: "'p::semiring_1 \<Rightarrow> 'q::semiring_1 \<Rightarrow> ('q \<Rightarrow> u8) \<Rightarrow> int \<Rightarrow> ('p \<Rightarrow> u8) \<Rightarrow> 'p \<Rightarrow> u8" where
  "strncpy s t g n m = strncpy_loop (nat n) s t g m"

text \<open>\<^verbatim>\<open>safestrcpy\<close>: copies at most \<open>n - 1\<close> bytes, then always stores a NUL.\<close>

primrec safestrcpy_loop :: "nat \<Rightarrow> 'p::semiring_1 \<Rightarrow> 'q::semiring_1 \<Rightarrow> ('q \<Rightarrow> u8) \<Rightarrow> ('p \<Rightarrow> u8) \<Rightarrow> 'p \<Rightarrow> u8" where
  "safestrcpy_loop 0 s t g m = m(s := 0)"
| "safestrcpy_loop (Suc n) s t g m =
     (if g t \<noteq> 0 then safestrcpy_loop n (s + 1) (t + 1) g (m(s := g t))
      else (m(s := g t))(s + 1 := 0))"

definition safestrcpy :: "'p::semiring_1 \<Rightarrow> 'q::semiring_1 \<Rightarrow> ('q \<Rightarrow> u8) \<Rightarrow> int \<Rightarrow> ('p \<Rightarrow> u8) \<Rightarrow> 'p \<Rightarrow> u8" where
  "safestrcpy s t g n m = (if n \<le> 0 then m else safestrcpy_loop (nat n - 1) s t g m)"

text \<open>\<^verbatim>\<open>strlen\<close>: the loop runs until it finds a NUL.\<close>

partial_function (option) strlen_from :: "('p::semiring_1 \<Rightarrow> u8) \<Rightarrow> 'p \<Rightarrow> nat \<Rightarrow> nat option" where
  "strlen_from f s n = (if f (s + of_nat n) \<noteq> 0 then strlen_from f s (Suc n) else Some n)"

definition strlen :: "('p::semiring_1 \<Rightarrow> u8) \<Rightarrow> 'p \<Rightarrow> nat option" where
  "strlen f s = strlen_from f s 0"


section \<open>Correctness of string.c\<close>

text \<open>The C string at a pointer, cut at \<open>n\<close> bytes: what a routine bounded by \<open>n\<close> can see of it.\<close>

definition cstring :: "('p::semiring_1 \<Rightarrow> u8) \<Rightarrow> 'p \<Rightarrow> nat \<Rightarrow> u8 list" where
  "cstring f p n = takeWhile (\<lambda>c. c \<noteq> 0) (map (\<lambda>i. f (p + of_nat i)) [0..<n])"

lemma cstring_0 [simp]: "cstring f p 0 = []"
  by (simp add: cstring_def)

lemma cstring_Suc:
  "cstring f p (Suc n) = (if f p = 0 then [] else f p # cstring f (p + 1) n)"
proof -
  have "map (\<lambda>i. f (p + of_nat i)) [0..<Suc n] = f p # map (\<lambda>i. f (p + 1 + of_nat i)) [0..<n]"
    by (simp add: map_upt_Suc add.assoc del: upt_Suc)
  then show ?thesis by (simp add: cstring_def)
qed

lemma strncmp_eq_0: "strncmp f g p q n = 0 \<longleftrightarrow> cstring f p n = cstring g q n"
  by (induction n arbitrary: p q) (auto simp: cstring_Suc uint_0_iff)

lemma memcmp_eq_0: "memcmp f g p q n = 0 \<longleftrightarrow> (\<forall>i<n. f (p + of_nat i) = g (q + of_nat i))"
proof (induction n arbitrary: p q)
  case (Suc n)
  have "(\<forall>i<Suc n. f (p + of_nat i) = g (q + of_nat i)) \<longleftrightarrow>
      f p = g q \<and> (\<forall>i<n. f (p + 1 + of_nat i) = g (q + 1 + of_nat i))"
    by (simp add: All_less_Suc2 add.assoc)
  then show ?case using Suc.IH [of "p + 1" "q + 1"] by simp
qed simp

lemma unat_minus_one_step: "x \<noteq> p \<Longrightarrow> unat (x - (p + 1) :: u64) = unat (x - p) - 1"
proof -
  assume "x \<noteq> p"
  then have "x - p \<noteq> 0" by simp
  then have "unat (x - p - 1) = unat (x - p) - 1"
    by (simp add: unat_minus_one)
  then show ?thesis by (simp add: diff_diff_add)
qed

lemma unat_diff_pos: "x \<noteq> p \<Longrightarrow> 0 < unat (x - p :: u64)"
  by (simp add: unat_gt_0)

lemma memset_loop_mem:
  "n < 2 ^ 64 \<Longrightarrow> memset_loop n p c m x = (if unat (x - p :: u64) < n then c else m x)"
proof (induction n arbitrary: p m)
  case (Suc n)
  from Suc.prems have "n < 2 ^ 64" by simp
  then have IH: "memset_loop (Suc n) p c m x
      = (if unat (x - (p + 1)) < n then c else (m(p := c)) x)"
    using Suc.IH by simp
  show ?case
  proof (cases "x = p")
    case True
    then have "x - (p + 1) = - 1" by simp
    then have "\<not> unat (x - (p + 1)) < n"
      using \<open>n < 2 ^ 64\<close> by (simp add: unsigned_minus_1_eq_mask mask_eq_exp_minus_1)
    then show ?thesis using True unfolding IH by simp
  next
    case False
    then show ?thesis
      using unat_diff_pos [OF False] unfolding IH unat_minus_one_step [OF False] by simp linarith
  qed
qed simp

lemma memset_eq: "memset dst c n m = st_bytes dst (replicate (unat n) (ucast c)) m"
proof -
  have "unat n < 2 ^ 64"
    using unsigned_less [of n, where 'a = nat] by simp
  then show ?thesis
    by (auto simp: memset_def memset_loop_mem st_bytes_def fun_eq_iff)
qed


text \<open>Both copy loops move the source as it was before the call when no byte is read after it was
  overwritten: the distance between the two ends is zero or at least the number of bytes.\<close>

lemma copy_up_mem:
  "n < 2 ^ 64 \<Longrightarrow> d = s \<or> n \<le> unat (d - s) \<Longrightarrow>
     copy_up n d s m x = (if unat (x - d) < n then m (s + (x - d)) else m x)"
proof (induction n arbitrary: d s m)
  case (Suc n)
  have "n < 2 ^ 64" and "d + 1 = s + 1 \<or> n \<le> unat (d + 1 - (s + 1))"
    using Suc.prems by auto
  then have IH: "copy_up (Suc n) d s m x = (if unat (x - (d + 1)) < n
      then (m(d := m s)) (s + 1 + (x - (d + 1))) else (m(d := m s)) x)"
    by (simp only: copy_up.simps Suc.IH)
  show ?case
  proof (cases "x = d")
    case True
    then have "x - (d + 1) = - 1" by simp
    then have "\<not> unat (x - (d + 1)) < n"
      using Suc.prems(1) by (simp add: unsigned_minus_1_eq_mask mask_eq_exp_minus_1)
    then show ?thesis using True unfolding IH by simp
  next
    case False
    have src: "s + 1 + (x - (d + 1)) = s + (x - d)" by simp
    have "s + (x - d) \<noteq> d" if "unat (x - d) < Suc n"
    proof
      assume "s + (x - d) = d"
      then have "x - d = d - s" by (metis add_diff_cancel_left')
      then show False using that Suc.prems(2) False by auto
    qed
    then show ?thesis
      using False unat_diff_pos [OF False]
      unfolding IH src unat_minus_one_step [OF False] by auto
  qed
qed simp

lemma copy_down_mem:
  "n < 2 ^ 64 \<Longrightarrow> d = s \<or> n \<le> unat (s - d) \<Longrightarrow>
     copy_down n (d + of_nat n) (s + of_nat n) m x
       = (if unat (x - d) < n then m (s + (x - d)) else m x)"
proof (induction n arbitrary: m)
  case (Suc n)
  define m' where "m' = m(d + of_nat n := m (s + of_nat n))"
  have "copy_down (Suc n) (d + of_nat (Suc n)) (s + of_nat (Suc n)) m x
      = copy_down n (d + of_nat n) (s + of_nat n) m' x"
    by (simp add: m'_def algebra_simps)
  also have "\<dots> = (if unat (x - d) < n then m' (s + (x - d)) else m' x)"
    using Suc.IH [of m'] Suc.prems by auto
  also have "\<dots> = (if unat (x - d) < Suc n then m (s + (x - d)) else m x)"
  proof (cases "x = d + of_nat n")
    case True
    then have "unat (x - d) = n" using Suc.prems(1) by (simp add: unat_of_nat_small)
    then show ?thesis using True by (simp add: m'_def)
  next
    case False
    have ne: "unat (x - d) \<noteq> n"
    proof
      assume "unat (x - d) = n"
      then have "x = d + of_nat n" by auto
      with False show False by contradiction
    qed
    have "s + (x - d) \<noteq> d + of_nat n" if "unat (x - d) < n"
    proof
      assume eq: "s + (x - d) = d + of_nat n"
      have "s - d = of_nat (n - unat (x - d))"
        using eq that by (simp add: of_nat_diff algebra_simps)
      then have "unat (s - d) = n - unat (x - d)"
        using Suc.prems(1) by (simp add: unat_of_nat_small)
      moreover have "s \<noteq> d" using eq False by auto
      ultimately show False using Suc.prems(2) by auto
    qed
    then show ?thesis using False ne by (auto simp: m'_def)
  qed
  finally show ?case .
qed simp


lemma memmove_eq:
  assumes src: "unat src + unat n < 2 ^ 64"
  shows "memmove dst src n m = st_bytes dst (ld_bytes m src (unat n)) m"
proof (cases "n = 0")
  case True
  then show ?thesis by (simp add: memmove_def st_bytes_def)
next
  case False
  have n32: "unat n < 2 ^ 32" using unsigned_less [of n, where 'a = nat] by simp
  have cast: "(ucast n :: u64) = of_nat (unat n)" by simp
  have uc: "unat (ucast n :: u64) = unat n" by (rule unat_ucast_up) simp
  have sum: "unat (src + ucast n) = unat src + unat n"
    by (subst unat_plus_no_wrap) (use src uc in simp_all)
  have eq: "(\<lambda>x. if unat (x - dst) < unat n then m (src + (x - dst)) else m x)
      = st_bytes dst (ld_bytes m src (unat n)) m"
    by (auto simp: st_bytes_def)
  have overlap: "src < dst \<and> dst < src + ucast n \<longleftrightarrow> unat src < unat dst \<and> unat dst < unat src + unat n"
    by (simp only: word_less_nat_alt sum)
  have diff: "unat (a - b) = (if unat b \<le> unat a then unat a - unat b else unat a + 2 ^ 64 - unat b)"
    for a b :: u64
    by (simp add: unat_sub_if')
  show ?thesis
  proof (cases "src < dst \<and> dst < src + ucast n")
    case True
    then have "unat n \<le> unat (src - dst)"
      unfolding overlap diff using n32 by simp linarith
    moreover have "unat n < 2 ^ 64" using n32 by simp
    ultimately have "copy_down (unat n) (dst + ucast n) (src + ucast n) m
        = (\<lambda>x. if unat (x - dst) < unat n then m (src + (x - dst)) else m x)"
      unfolding cast by (intro ext copy_down_mem) auto
    then show ?thesis unfolding memmove_def eq [symmetric] using False True by simp
  next
    case up: False
    then have "dst = src \<or> unat n \<le> unat (dst - src)"
      unfolding overlap diff using src by (auto simp flip: word_unat_eq_iff)
    moreover have "unat n < 2 ^ 64" using n32 by simp
    ultimately have "copy_up (unat n) dst src m
        = (\<lambda>x. if unat (x - dst) < unat n then m (src + (x - dst)) else m x)"
      by (intro ext copy_up_mem) auto
    then show ?thesis unfolding memmove_def eq [symmetric] if_not_P [OF False] if_not_P [OF up] .
  qed
qed


text \<open>Copies of strings into an array, at offset \<open>s\<close> of the array.\<close>

lemma memset_loop_nat: "memset_loop n p c m x = (if p \<le> x \<and> x < p + n then c else m x)"
  for p x :: nat
  by (induction n arbitrary: p m) (auto simp: le_Suc_eq)

lemma strncpy_loop_frame: "x < s \<or> s + n \<le> x \<Longrightarrow> strncpy_loop n s t g m x = m x"
  for s x :: nat
  by (induction n arbitrary: s t m) (auto simp: memset_loop_nat)

lemma strncpy_eq:
  "map (strncpy s t g (int n) m) [s..<s + n] = cstring g t n @ replicate (n - length (cstring g t n)) 0"
  for s :: nat
proof -
  have "map (strncpy_loop n s t g m) [s..<s + n]
      = cstring g t n @ replicate (n - length (cstring g t n)) 0"
  proof (induction n arbitrary: s t m)
    case (Suc n)
    have upt: "[s..<s + Suc n] = s # [Suc s..<Suc s + n]" by (simp add: upt_rec)
    show ?case
    proof (cases "g t = 0")
      case True
      have "map (memset_loop n (s + 1) 0 (m(s := 0))) [Suc s..<Suc s + n] = replicate n 0"
        by (rule nth_equalityI) (simp_all add: memset_loop_nat del: upt_Suc)
      moreover have "memset_loop n (s + 1) 0 (m(s := 0)) s = 0"
        by (simp add: memset_loop_nat)
      ultimately show ?thesis using True unfolding upt by (simp add: cstring_Suc del: upt_Suc)
    next
      case False
      define m' where "m' = m(s := g t)"
      have "strncpy_loop n (s + 1) (t + 1) g m' s = g t"
        by (subst strncpy_loop_frame) (auto simp: m'_def)
      then show ?thesis
        using False Suc.IH [of "s + 1" "t + 1" m'] unfolding upt
        by (simp add: cstring_Suc del: upt_Suc flip: m'_def)
    qed
  qed simp
  then show ?thesis by (simp add: strncpy_def)
qed

lemma safestrcpy_loop_frame: "x < s \<or> s + n < x \<Longrightarrow> safestrcpy_loop n s t g m x = m x"
  for s x :: nat
  by (induction n arbitrary: s t m) auto

lemma cstring_safestrcpy_loop: "cstring (safestrcpy_loop n s t g m) s (Suc n) = cstring g t n"
  for s :: nat
proof (induction n arbitrary: s t m)
  case 0
  then show ?case by (simp add: cstring_Suc)
next
  case (Suc n)
  show ?case
  proof (cases "g t = 0")
    case True
    then show ?thesis by (simp add: cstring_Suc)
  next
    case False
    define m' where "m' = m(s := g t)"
    have "safestrcpy_loop n (s + 1) (t + 1) g m' s = g t"
      by (subst safestrcpy_loop_frame) (auto simp: m'_def)
    then show ?thesis
      using False Suc.IH [of "s + 1" "t + 1" m']
      by (simp add: cstring_Suc [of _ s] cstring_Suc [of g t] flip: m'_def)
  qed
qed

lemma strlen_from_eq:
  "f (s + of_nat (k + j)) = 0 \<Longrightarrow> (\<And>i. i < j \<Longrightarrow> f (s + of_nat (k + i)) \<noteq> 0) \<Longrightarrow> strlen_from f s k = Some (k + j)"
proof (induction j arbitrary: k)
  case 0
  then show ?case by (subst strlen_from.simps) simp
next
  case (Suc j)
  have "f (s + of_nat (Suc k + j)) = 0"
    using Suc.prems(1) by (simp only: add_Suc add_Suc_right)
  moreover have "f (s + of_nat (Suc k + i)) \<noteq> 0" if "i < j" for i
    using Suc.prems(2) [of "Suc i"] that by (simp del: of_nat_Suc)
  ultimately have "strlen_from f s (Suc k) = Some (k + Suc j)"
    using Suc.IH [of "Suc k"] by simp
  then show ?case
    using Suc.prems(2) [of 0] by (subst strlen_from.simps) simp
qed

lemma strlen_eq:
  assumes "f (s + of_nat n) = 0" and "\<And>i. i < n \<Longrightarrow> f (s + of_nat i) \<noteq> 0"
  shows "strlen f s = Some n"
  using strlen_from_eq [of f s 0 n] assms by (simp add: strlen_def)

end
