(* ===== verification/Kalloc.thy ===== *)
theory Kalloc
  imports Memory
begin

text \<open>
  The physical page allocator of \<^verbatim>\<open>kernel/kalloc.c\<close>.  The free pages form a singly linked list whose
  links are stored in the first eight bytes of each free page.  The address \<open>kend\<close> of the first byte
  after the kernel is set by the linker and is a parameter.  The allocator's spin lock makes each of the three bodies
  one atomic step (theory \<open>Locks\<close>).
\<close>

record kmem =
  freelist :: u64
  pmem :: mem

text \<open>
  \<^verbatim>\<open>kalloc_init\<close>.  Its loop variable is a \<^verbatim>\<open>struct page *\<close>, so \<^verbatim>\<open>p + PGSIZE\<close> and \<^verbatim>\<open>p += PGSIZE\<close>
  move the pointer by \<open>PGSIZE\<close> times the size of the structure, which holds one 8-byte pointer.
\<close>

abbreviation (input) sizeof_struct_page :: u64 where "sizeof_struct_page \<equiv> 8"

definition page_ptr_add :: "u64 \<Rightarrow> u64 \<Rightarrow> u64" where
  "page_ptr_add p n = p + n * sizeof_struct_page"

function kalloc_init_loop :: "u64 \<Rightarrow> kmem \<Rightarrow> kmem" where
  "kalloc_init_loop p s =
     (if page_ptr_add p PGSIZE \<le> PHYSTOP
      then kalloc_init_loop (page_ptr_add p PGSIZE)
             (s\<lparr>pmem := st64 p (freelist s) (pmem s), freelist := p\<rparr>)
      else s)"
  by pat_completeness auto

lemma page_ptr_add_step:
  fixes p :: u64
  assumes "p + 32768 \<le> 0x88000000"
  shows "(if p \<le> 0x88000000 then 0x88000000 - unat p else 2 ^ 64)
    > (if p + 32768 \<le> 0x88000000 then 0x88000000 - unat (p + 32768) else 2 ^ 64)"
proof (cases "p \<le> 0x88000000")
  case True
  then have "unat p \<le> 0x88000000" by (simp add: word_le_nat_alt)
  then have "unat (p + 32768) = unat p + 32768" by (subst unat_plus_no_wrap) simp_all
  then show ?thesis using True assms by (simp add: word_le_nat_alt)
next
  case False
  then show ?thesis using assms by simp
qed

termination kalloc_init_loop
  by (relation "measure (\<lambda>(p, s). if p \<le> 0x88000000 then 0x88000000 - unat p else 2 ^ 64)")
    (use page_ptr_add_step in \<open>auto simp: page_ptr_add_def\<close>)

declare kalloc_init_loop.simps [simp del]

definition kalloc_init :: "u64 \<Rightarrow> kmem \<Rightarrow> kmem" where
  "kalloc_init kend s = kalloc_init_loop (PGROUNDUP kend) s"

text \<open>\<^verbatim>\<open>kfree\<close>: refuse an address that is not a page of the allocator, else push it.\<close>

definition kfree :: "u64 \<Rightarrow> u64 \<Rightarrow> kmem \<Rightarrow> kmem option" where
  "kfree kend pa s =
     (if pa mod PGSIZE \<noteq> 0 \<or> pa < kend \<or> PHYSTOP \<le> pa
      then panic ''kfree: page not aligned or out of bounds''
      else Some (s\<lparr>pmem := st64 pa (freelist s) (pmem s), freelist := pa\<rparr>))"

text \<open>
  \<^verbatim>\<open>kalloc\<close> pops a page and clears it.  The call of \<^verbatim>\<open>memset\<close> is not guarded: with an empty list it stores to
  address 0, which the kernel page table does not map (\<^verbatim>\<open>kvm_make\<close> of \<^verbatim>\<open>vm.c\<close>), so the store faults
  and \<^verbatim>\<open>kerneltrap\<close> panics.
\<close>

definition kalloc :: "kmem \<Rightarrow> (u64 \<times> kmem) option" where
  "kalloc s =
     (let r = freelist s;
          s = (if r \<noteq> 0 then s\<lparr>freelist := ld64 (pmem s) r\<rparr> else s)
      in if r = 0 then panic ''kerneltrap''
         else Some (r, s\<lparr>pmem := memset r 0 (ucast PGSIZE) (pmem s)\<rparr>))"

section \<open>The free list\<close>

primrec free_pages :: "mem \<Rightarrow> u64 \<Rightarrow> u64 list \<Rightarrow> bool" where
  "free_pages m p [] \<longleftrightarrow> p = 0"
| "free_pages m p (x # xs) \<longleftrightarrow> p = x \<and> x \<noteq> 0 \<and> free_pages m (ld64 m x) xs"

definition kpage :: "u64 \<Rightarrow> u64 \<Rightarrow> bool" where
  "kpage kend pa \<longleftrightarrow> page_aligned pa \<and> pa \<noteq> 0 \<and> kend \<le> pa \<and> pa < PHYSTOP"

definition kmem_inv :: "u64 \<Rightarrow> u64 list \<Rightarrow> kmem \<Rightarrow> bool" where
  "kmem_inv kend xs s \<longleftrightarrow>
     free_pages (pmem s) (freelist s) xs \<and> distinct xs \<and> list_all (kpage kend) xs"

lemma page_aligned_mod: "page_aligned pa \<longleftrightarrow> pa mod PGSIZE = 0"
proof -
  have "unat (pa mod PGSIZE) = unat pa mod 4096" by (simp add: unat_mod)
  then show ?thesis by (metis page_aligned_unat unat_eq_0)
qed

lemma page_aligned_mod8: "page_aligned pa \<Longrightarrow> unat pa mod 8 = 0"
  using mod_mod_cancel [of 8 4096 "unat pa"] by (simp add: page_aligned_unat)

text \<open>Two pages do not overlap: a store inside one page leaves the other one alone.\<close>

lemma page_disjoint:
  assumes "page_aligned p" and "page_aligned q" and "p \<noteq> q" and "i < 4096"
  shows "4096 \<le> unat (q + of_nat i - p)"
  using aligned_disjoint [of p 12 q i] assms by (simp add: page_aligned_unat)

definition same_page :: "mem \<Rightarrow> mem \<Rightarrow> u64 \<Rightarrow> bool" where
  "same_page m m' p \<longleftrightarrow> (\<forall>i<4096. m' (p + of_nat i) = m (p + of_nat i))"

lemma st_bytes_same_page:
  assumes "page_aligned p" and "page_aligned q" and "p \<noteq> q" and "length bs \<le> 4096"
  shows "same_page m (st_bytes p bs m) q"
  unfolding same_page_def using page_disjoint [OF assms(1-3)] assms(4)
  by (auto intro!: st_bytes_outside intro: order_trans)

lemma same_page_ld64:
  assumes "same_page m m' p" and "i + 8 \<le> 4096"
  shows "ld64 m' (p + of_nat i) = ld64 m (p + of_nat i)"
proof -
  have "m' (p + of_nat i + of_nat j) = m (p + of_nat i + of_nat j)" if "j < 8" for j
    using assms(1) [unfolded same_page_def, rule_format, of "i + j"] assms(2) that
    by (simp add: add.assoc)
  then show ?thesis
    unfolding ld64_def by (intro arg_cong [of _ _ le_word] ld_bytes_cong) simp
qed

lemma same_page_refl [simp]: "same_page m m p"
  by (simp add: same_page_def)

lemma same_page_trans: "same_page m m' p \<Longrightarrow> same_page m' m'' p \<Longrightarrow> same_page m m'' p"
  by (simp add: same_page_def)

lemma free_pages_cong:
  "(\<And>x. x \<in> set xs \<Longrightarrow> same_page m m' x) \<Longrightarrow> free_pages m p xs \<longleftrightarrow> free_pages m' p xs"
proof (induction xs arbitrary: p)
  case (Cons x xs)
  have "ld64 m' x = ld64 m x" using same_page_ld64 [of m m' x 0] Cons.prems by simp
  then show ?case using Cons by simp
qed simp


section \<open>Correctness\<close>

lemma memset_page: "memset r 0 4096 m = st_bytes r (replicate 4096 0) m"
  by (simp add: memset_eq)

lemma kalloc_correct:
  assumes "kmem_inv kend (x # xs) s"
  shows "\<exists>s'. kalloc s = Some (x, s') \<and> kmem_inv kend xs s' \<and>
           (\<forall>i<4096. pmem s' (x + of_nat i) = 0) \<and>
           (\<forall>q. page_aligned q \<longrightarrow> q \<noteq> x \<longrightarrow> same_page (pmem s) (pmem s') q)"
proof -
  let ?m = "st_bytes x (replicate 4096 0) (pmem s)"
  let ?s' = "s\<lparr>freelist := ld64 (pmem s) x, pmem := ?m\<rparr>"
  have inv: "freelist s = x" "x \<noteq> 0" "free_pages (pmem s) (ld64 (pmem s) x) xs"
    "x \<notin> set xs" "distinct xs" "list_all (kpage kend) xs" "page_aligned x"
    using assms by (auto simp: kmem_inv_def kpage_def)
  have other: "same_page (pmem s) ?m q" if "page_aligned q" "q \<noteq> x" for q
    using st_bytes_same_page [of x q] that inv by simp
  have "free_pages ?m (ld64 (pmem s) x) xs"
    using free_pages_cong [of xs "pmem s" ?m] other inv
    by (metis kpage_def list_all_iff)
  then have "kmem_inv kend xs ?s'" using inv by (simp add: kmem_inv_def)
  moreover have "kalloc s = Some (x, ?s')"
    using inv by (simp add: kalloc_def Let_def memset_page)
  moreover have "\<forall>i<4096. ?m (x + of_nat i) = 0"
    by (simp add: st_bytes_inside)
  ultimately show ?thesis using other by auto
qed

lemma kalloc_empty: "kmem_inv kend [] s \<Longrightarrow> kalloc s = None"
  by (simp add: kmem_inv_def kalloc_def)

lemma kfree_correct:
  assumes "kmem_inv kend xs s" and "kpage kend pa" and "pa \<notin> set xs"
  shows "\<exists>s'. kfree kend pa s = Some s' \<and> kmem_inv kend (pa # xs) s' \<and>
           (\<forall>q. page_aligned q \<longrightarrow> q \<noteq> pa \<longrightarrow> same_page (pmem s) (pmem s') q)"
proof -
  let ?m = "st64 pa (freelist s) (pmem s)"
  have pa: "page_aligned pa" "pa \<noteq> 0" "pa mod PGSIZE = 0" "\<not> pa < kend" "\<not> PHYSTOP \<le> pa"
    using assms(2) by (auto simp: kpage_def page_aligned_mod)
  have other: "same_page (pmem s) ?m q" if "page_aligned q" "q \<noteq> pa" for q
    using st_bytes_same_page [of pa q "le_bytes 8 (freelist s)"] that pa by (simp add: st64_def)
  have "free_pages ?m (freelist s) xs"
    using free_pages_cong [of xs "pmem s" ?m] other assms
    by (metis kmem_inv_def kpage_def list_all_iff)
  then have "kmem_inv kend (pa # xs) (s\<lparr>pmem := ?m, freelist := pa\<rparr>)"
    using assms pa by (simp add: kmem_inv_def)
  then show ?thesis using other pa by (simp add: kfree_def)
qed

lemma kfree_panics:
  "kfree kend pa s = None \<longleftrightarrow> \<not> (page_aligned pa \<and> kend \<le> pa \<and> pa < PHYSTOP)"
  by (auto simp: kfree_def page_aligned_mod not_less not_le)


text \<open>What \<^verbatim>\<open>kalloc_init\<close> leaves on the list: every eighth page between the kernel and \<open>PHYSTOP\<close>.\<close>

definition init_pages :: "u64 \<Rightarrow> nat \<Rightarrow> u64 list" where
  "init_pages p n = rev (map (\<lambda>k. p + of_nat k * 32768) [0..<n])"

lemma init_pages_Suc: "init_pages p (Suc n) @ xs = init_pages (p + 32768) n @ p # xs"
proof -
  have "[0..<Suc n] = 0 # map Suc [0..<n]" by (simp add: map_Suc_upt upt_conv_Cons)
  then show ?thesis by (simp add: init_pages_def o_def algebra_simps)
qed

lemma kalloc_init_loop_inv:
  assumes "kmem_inv kend xs s" and "kpage kend p \<or> p = PHYSTOP" and "\<forall>x \<in> set xs. x < p"
    and "n = (0x88000000 - unat p) div 32768"
  shows "kmem_inv kend (init_pages p n @ xs) (kalloc_init_loop p s)"
  using assms
proof (induction n arbitrary: p s xs)
  case 0
  have "unat p \<le> 0x88000000" using 0(2) by (auto simp: kpage_def word_less_nat_alt)
  then have "\<not> page_ptr_add p PGSIZE \<le> PHYSTOP"
    using 0(4) by (simp add: page_ptr_add_def word_le_nat_alt unat_plus_no_wrap div_eq_0_iff)
  then show ?case using 0 by (subst kalloc_init_loop.simps) (simp add: init_pages_def)
next
  case (Suc n)
  let ?s = "s\<lparr>pmem := st64 p (freelist s) (pmem s), freelist := p\<rparr>"
  have room: "unat p + 32768 \<le> 0x88000000"
  proof (rule ccontr)
    assume "\<not> unat p + 32768 \<le> 0x88000000"
    then show False using Suc.prems(4) by simp
  qed
  then have u: "unat (p + 32768) = unat p + 32768" by (subst unat_plus_no_wrap) simp_all
  then have enter: "page_ptr_add p PGSIZE \<le> PHYSTOP"
    using room by (simp add: page_ptr_add_def word_le_nat_alt)
  have p: "kpage kend p" using Suc.prems(2) room by auto
  have "kfree kend p s = Some ?s"
    using p by (simp add: kfree_def kpage_def page_aligned_mod not_less not_le)
  then have inv: "kmem_inv kend (p # xs) ?s"
    using kfree_correct [OF Suc.prems(1) p] Suc.prems(3) by force
  have next_page: "kpage kend (p + 32768) \<or> p + 32768 = PHYSTOP"
  proof (cases "unat p + 32768 = 0x88000000")
    case True
    then have "p + 32768 = PHYSTOP" using u by (intro unsigned_word_eqI [where 'a = nat]) simp
    then show ?thesis by simp
  next
    case False
    have "page_aligned (p + 32768)"
      using p unfolding kpage_def page_aligned_unat u by (simp add: mod_add_eq [symmetric])
    then show ?thesis
      using False room p u by (auto simp: kpage_def word_less_nat_alt word_le_nat_alt)
  qed
  have lt: "x < p + 32768" if "x \<in> set (p # xs)" for x
    using that Suc.prems(3) u by (auto simp: word_less_nat_alt)
  have "n = (0x88000000 - unat (p + 32768)) div 32768"
    using Suc.prems(4) room unfolding u by simp
  then have "kmem_inv kend (init_pages (p + 32768) n @ p # xs) (kalloc_init_loop (p + 32768) ?s)"
    using Suc.IH [OF inv next_page] lt by blast
  then show ?case
    using enter unfolding init_pages_Suc
    by (subst kalloc_init_loop.simps) (simp add: page_ptr_add_def)
qed


section \<open>The interface of the allocator\<close>

text \<open>
  What the page-table code and the process code rely on: the set \<open>F\<close> of free pages, which memory
  outside the pool is left alone, and that a fresh page is cleared.  \<open>put\<close> stands for a store of
  the client into pages it owns.
\<close>

locale page_pool =
  fixes alloc :: "'s \<Rightarrow> (u64 \<times> 's) option"
    and free :: "u64 \<Rightarrow> 's \<Rightarrow> 's option"
    and avail :: "u64 set \<Rightarrow> 's \<Rightarrow> bool"
    and mem_of :: "'s \<Rightarrow> mem"
    and put :: "mem \<Rightarrow> 's \<Rightarrow> 's"
    and page :: "u64 \<Rightarrow> bool"
  assumes alloc_ok: "avail F s \<Longrightarrow> F \<noteq> {} \<Longrightarrow>
      \<exists>x s'. alloc s = Some (x, s') \<and> x \<in> F \<and> avail (F - {x}) s' \<and>
        (\<forall>i<4096. mem_of s' (x + of_nat i) = 0) \<and>
        (\<forall>q. page_aligned q \<longrightarrow> q \<noteq> x \<longrightarrow> same_page (mem_of s) (mem_of s') q)"
    and alloc_none: "avail {} s \<Longrightarrow> alloc s = None"
    and free_ok: "avail F s \<Longrightarrow> page x \<Longrightarrow> x \<notin> F \<Longrightarrow>
      \<exists>s'. free x s = Some s' \<and> avail (insert x F) s' \<and>
        (\<forall>q. page_aligned q \<longrightarrow> q \<noteq> x \<longrightarrow> same_page (mem_of s) (mem_of s') q)"
    and avail_page: "avail F s \<Longrightarrow> x \<in> F \<Longrightarrow> page x"
    and avail_finite: "avail F s \<Longrightarrow> finite F"
    and page_ok: "page x \<Longrightarrow> page_aligned x \<and> x \<noteq> 0"
    and avail_put: "avail F s \<Longrightarrow> (\<And>x. x \<in> F \<Longrightarrow> same_page (mem_of s) m x) \<Longrightarrow> avail F (put m s)"
begin

lemma alloc_free_restores:
  assumes "avail F s" and "F \<noteq> {}"
  shows "\<exists>x s' s''. alloc s = Some (x, s') \<and> free x s' = Some s'' \<and> avail F s''"
proof -
  obtain x s' where a: "alloc s = Some (x, s')" "x \<in> F" "avail (F - {x}) s'"
    using alloc_ok [OF assms] by blast
  have "page x" using avail_page [OF assms(1) a(2)] .
  then obtain s'' where "free x s' = Some s''" "avail (insert x (F - {x})) s''"
    using free_ok [OF a(3)] by blast
  moreover have "insert x (F - {x}) = F" using a(2) by blast
  ultimately show ?thesis using a(1) by auto
qed

lemma alloc_alloc_distinct:
  assumes "avail F s" and "alloc s = Some (x, s')" and "alloc s' = Some (y, s'')"
  shows "x \<noteq> y"
proof -
  have "F \<noteq> {}" using alloc_none assms(1,2) by fastforce
  then have "avail (F - {x}) s'" using alloc_ok [OF assms(1)] assms(2) by auto
  moreover from this have "F - {x} \<noteq> {}" using alloc_none assms(3) by fastforce
  ultimately have "y \<in> F - {x}" using alloc_ok [of "F - {x}" s'] assms(3) by auto
  then show ?thesis by blast
qed

lemma alloc_keeps_used:
  assumes "avail F s" and "alloc s = Some (x, s')" and "page_aligned q" and "q \<notin> F"
  shows "same_page (mem_of s) (mem_of s') q"
proof -
  have "F \<noteq> {}" using alloc_none assms(1,2) by fastforce
  then show ?thesis using alloc_ok [OF assms(1)] assms(2-4) by auto
qed

end

definition kavail :: "u64 \<Rightarrow> u64 set \<Rightarrow> kmem \<Rightarrow> bool" where
  "kavail kend F s \<longleftrightarrow> (\<exists>xs. set xs = F \<and> kmem_inv kend xs s)"

lemma kmem_inv_put:
  assumes "kmem_inv kend xs s" and "\<And>x. x \<in> set xs \<Longrightarrow> same_page (pmem s) m x"
  shows "kmem_inv kend xs (s\<lparr>pmem := m\<rparr>)"
  using assms free_pages_cong [of xs "pmem s" m] by (simp add: kmem_inv_def)

interpretation kal: page_pool kalloc "kfree kend" "kavail kend" pmem "\<lambda>m s. s\<lparr>pmem := m\<rparr>" "kpage kend"
proof
  fix F s assume "kavail kend F s" and "F \<noteq> {}"
  then obtain x xs where F: "F = set (x # xs)" and inv: "kmem_inv kend (x # xs) s"
    unfolding kavail_def by (metis neq_Nil_conv set_empty)
  have "F - {x} = set xs" using F inv by (auto simp: kmem_inv_def)
  then show "\<exists>x s'. kalloc s = Some (x, s') \<and> x \<in> F \<and> kavail kend (F - {x}) s' \<and>
        (\<forall>i<4096. pmem s' (x + of_nat i) = 0) \<and>
        (\<forall>q. page_aligned q \<longrightarrow> q \<noteq> x \<longrightarrow> same_page (pmem s) (pmem s') q)"
    using kalloc_correct [OF inv] F unfolding kavail_def
    by (metis list.set_intros(1))
next
  show "kalloc s = None" if "kavail kend {} s" for s
    using that kalloc_empty unfolding kavail_def by auto
next
  fix F s x assume "kavail kend F s" and x: "kpage kend x" "x \<notin> F"
  then obtain xs where "F = set xs" "kmem_inv kend xs s" unfolding kavail_def by auto
  then show "\<exists>s'. kfree kend x s = Some s' \<and> kavail kend (insert x F) s' \<and>
        (\<forall>q. page_aligned q \<longrightarrow> q \<noteq> x \<longrightarrow> same_page (pmem s) (pmem s') q)"
    using kfree_correct x unfolding kavail_def by (metis list.simps(15))
next
  show "kpage kend x" if "kavail kend F s" "x \<in> F" for F s x
    using that by (auto simp: kavail_def kmem_inv_def list_all_iff)
next
  show "finite F" if "kavail kend F s" for F s
    using that by (auto simp: kavail_def)
next
  show "page_aligned x \<and> x \<noteq> 0" if "kpage kend x" for x
    using that by (simp add: kpage_def)
next
  show "kavail kend F (s\<lparr>pmem := m\<rparr>)"
    if "kavail kend F s" "\<And>x. x \<in> F \<Longrightarrow> same_page (pmem s) m x" for F s m
    using that kmem_inv_put unfolding kavail_def by blast
qed

section \<open>Properties\<close>

text \<open>C30. A call of \<open>kalloc\<close> on a well-formed free list returns its first page, cleared, takes
  exactly that page off the list, and changes no byte of any other page.\<close>

theorem kalloc_spec:
  assumes "kmem_inv kend (x # xs) s"
  shows "\<exists>s'. kalloc s = Some (x, s') \<and> kmem_inv kend xs s' \<and>
           (\<forall>i<4096. pmem s' (x + of_nat i) = 0) \<and>
           (\<forall>q. page_aligned q \<longrightarrow> q \<noteq> x \<longrightarrow> same_page (pmem s) (pmem s') q)"
  using assms by (rule kalloc_correct)

text \<open>A free list of one page, the page just below \<open>PHYSTOP\<close>, in a memory that is zero.\<close>

definition one_page :: kmem where
  "one_page = \<lparr>freelist = 0x87FFF000, pmem = (\<lambda>_. 0)\<rparr>"

lemma ld64_zero: "ld64 (\<lambda>_. 0) a = 0"
  by (simp add: ld64_def ld_bytes_def numeral_eq_Suc)

lemma one_page_inv: "kmem_inv 0x80010000 [0x87FFF000] one_page"
  by (simp add: kmem_inv_def one_page_def ld64_zero kpage_def page_aligned_def)

theorem kalloc_spec_witness:
  "\<exists>s'. kalloc one_page = Some (0x87FFF000, s') \<and> kmem_inv 0x80010000 [] s'"
  using kalloc_spec [OF one_page_inv] by blast

text \<open>C31. From an empty list, \<open>kalloc_init\<close> builds a well-formed list of pages between the end of the
  kernel and \<open>PHYSTOP\<close>: one page of every eight, since the loop steps by \<open>PGSIZE\<close> structures of eight
  bytes.\<close>

theorem kalloc_init_spec:
  assumes "freelist s = 0" and "0 < kend" and "kend \<le> PHYSTOP"
  shows "kmem_inv kend (init_pages (PGROUNDUP kend) ((unat (PHYSTOP :: u64) - unat (PGROUNDUP kend)) div 32768))
           (kalloc_init kend s)"
proof -
  have le: "unat kend \<le> 0x88000000" "0 < unat kend" using assms by (auto simp: word_le_nat_alt word_less_nat_alt)
  have up: "unat (PGROUNDUP kend) = (unat kend + 4095) div 4096 * 4096"
    using le by (intro unat_PGROUNDUP) simp
  have bounds: "unat (PGROUNDUP kend) \<le> 0x88000000" "unat kend \<le> unat (PGROUNDUP kend)"
    unfolding up using le div_le_mono [of "unat kend + 4095" "0x88000FFF" 4096] by simp_all
  have "page_aligned (PGROUNDUP kend)" by (simp add: page_aligned_unat up)
  moreover have "PGROUNDUP kend \<noteq> 0" using bounds(2) le(2) by auto
  ultimately have "kpage kend (PGROUNDUP kend) \<or> PGROUNDUP kend = PHYSTOP"
    using bounds by (auto simp: kpage_def word_le_nat_alt word_less_nat_alt intro!: unsigned_word_eqI [where 'a = nat])
  moreover have "kmem_inv kend [] s" using assms(1) by (simp add: kmem_inv_def)
  ultimately show ?thesis
    using kalloc_init_loop_inv [of kend "[]" s "PGROUNDUP kend"] by (simp add: kalloc_init_def)
qed

theorem kalloc_init_spec_witness:
  "kmem_inv 0x87FE0001 [0x87FF1000, 0x87FE9000, 0x87FE1000] (kalloc_init 0x87FE0001 \<lparr>freelist = 0, pmem = (\<lambda>_. 0)\<rparr>)"
proof -
  have up: "PGROUNDUP 0x87FE0001 = 0x87FE1000" by (simp add: PGROUNDUP_def)
  have upt: "[0..<3] = [0, 1, 2 :: nat]" by (simp add: upt_conv_Cons)
  show ?thesis
    using kalloc_init_spec [of "\<lparr>freelist = 0, pmem = (\<lambda>_. 0)\<rparr>" "0x87FE0001"]
    by (simp add: init_pages_def up upt)
qed

end
