(* ===== verification/Vm.thy ===== *)
theory Vm
  imports Kalloc
begin

unbundle bit_operations_syntax

text \<open>
  Page tables and address spaces, \<^verbatim>\<open>kernel/vm.c\<close>.  Page-table pages live in the physical memory of
  theory \<open>Kalloc\<close>; a page table is the address of its root page, a \<^verbatim>\<open>pte_t *\<close> is the address of the
  entry, and \<open>0\<close> is the null pointer.  A kernel object that is copied to or from user memory is its
  list of bytes.
\<close>

section \<open>Walking\<close>

abbreviation (input) pte_addr :: "u64 \<Rightarrow> u64 \<Rightarrow> u64" where
  "pte_addr pagetable i \<equiv> pagetable + 8 * i"

primrec walk_loop :: "nat \<Rightarrow> u64 \<Rightarrow> u64 \<Rightarrow> bool \<Rightarrow> kmem \<Rightarrow> (u64 \<times> kmem) option" where
  "walk_loop 0 pagetable va alloc s = Some (pte_addr pagetable (PX 0 va), s)"
| "walk_loop (Suc l) pagetable va alloc s =
     (let pte = pte_addr pagetable (PX (Suc l) va); e = ld64 (pmem s) pte
      in if e AND PTE_V \<noteq> 0 then walk_loop l (PTE2PA e) va alloc s
         else if \<not> alloc then Some (0, s)
         else do {
           (pg, s) \<leftarrow> kalloc s;
           if pg = 0 then Some (0, s)
           else walk_loop l pg va alloc (s\<lparr>pmem := st64 pte (PA2PTE pg OR PTE_V) (pmem s)\<rparr>)
         })"

definition walk :: "u64 \<Rightarrow> u64 \<Rightarrow> bool \<Rightarrow> kmem \<Rightarrow> (u64 \<times> kmem) option" where
  "walk pagetable va alloc s =
     (if MAXVA \<le> va then panic ''walk'' else walk_loop 2 pagetable va alloc s)"

definition walkaddr :: "u64 \<Rightarrow> u64 \<Rightarrow> kmem \<Rightarrow> (u64 \<times> kmem) option" where
  "walkaddr pagetable va s =
     (if MAXVA \<le> va then Some (0, s)
      else do {
        (pte, s) \<leftarrow> walk pagetable va False s;
        (if pte = 0 \<or> ld64 (pmem s) pte AND PTE_V = 0 \<or> ld64 (pmem s) pte AND PTE_U = 0
         then Some (0, s)
         else Some (PTE2PA (ld64 (pmem s) pte), s))
      })"

lemma walk_returns: "walk pagetable va alloc s = Some x \<Longrightarrow> va < MAXVA"
  by (auto simp: walk_def split: if_splits)

section \<open>Mapping and unmapping\<close>

text \<open>\<^verbatim>\<open>mappages\<close>: the endless loop leaves at \<open>a = last\<close>, and \<open>walk\<close> panics once \<open>a\<close> passes \<open>MAXVA\<close>.\<close>

function mappages_loop :: "u64 \<Rightarrow> u64 \<Rightarrow> u64 \<Rightarrow> u64 \<Rightarrow> u32 \<Rightarrow> kmem \<Rightarrow> (int \<times> kmem) option" where
  "mappages_loop pagetable a lasta pa perm s =
     do {
       (pte, s) \<leftarrow> walk pagetable a True s;
       if pte = 0 then Some (- 1, s)
       else if ld64 (pmem s) pte AND PTE_V \<noteq> 0 then panic ''mappages: remap''
       else let s = s\<lparr>pmem := st64 pte (PA2PTE pa OR scast perm OR PTE_V) (pmem s)\<rparr>
            in if a = lasta then Some (0, s)
               else mappages_loop pagetable (a + PGSIZE) lasta (pa + PGSIZE) perm s
     }"
  by pat_completeness auto

lemma page_step_measure:
  fixes a :: u64
  assumes "a < MAXVA"
  shows "0x4000000000 - unat (a + 4096) < 0x4000000000 - unat a"
proof -
  have "unat a < 0x4000000000" using assms by (simp add: word_less_nat_alt)
  then have "unat (a + 4096) = unat a + 4096" by (subst unat_plus_no_wrap) simp_all
  then show ?thesis using \<open>unat a < 0x4000000000\<close> by simp
qed

termination mappages_loop
  by (relation "measure (\<lambda>(pt, a, lasta, pa, perm, s). 0x4000000000 - unat a)")
    (auto dest!: walk_returns page_step_measure)

declare mappages_loop.simps [simp del]

definition mappages :: "u64 \<Rightarrow> u64 \<Rightarrow> u64 \<Rightarrow> u64 \<Rightarrow> u32 \<Rightarrow> kmem \<Rightarrow> (int \<times> kmem) option" where
  "mappages pagetable va sz pa perm s =
     (if sz = 0 then panic ''mappages: size''
      else mappages_loop pagetable (PGROUNDDOWN va) (PGROUNDDOWN (va + sz - 1)) pa perm s)"

definition kvm_map :: "u64 \<Rightarrow> u64 \<Rightarrow> u64 \<Rightarrow> u64 \<Rightarrow> u32 \<Rightarrow> kmem \<Rightarrow> kmem option" where
  "kvm_map kpgtbl va pa sz perm s =
     do {
       (r, s) \<leftarrow> mappages kpgtbl va sz pa perm s;
       if r \<noteq> 0 then panic ''kvm_map'' else Some s
     }"

function uvm_unmap_loop :: "u64 \<Rightarrow> u64 \<Rightarrow> u64 \<Rightarrow> u64 \<Rightarrow> bool \<Rightarrow> kmem \<Rightarrow> kmem option" where
  "uvm_unmap_loop kend pagetable a lasta free s =
     (if a < lasta then do {
        (pte, s) \<leftarrow> walk pagetable a False s;
        if pte = 0 then panic ''uvm_unmap: walk''
        else let e = ld64 (pmem s) pte
             in if e AND PTE_V = 0 then panic ''uvm_unmap: not mapped''
                else if PTE_FLAGS e = PTE_V then panic ''uvm_unmap: not a leaf''
                else do {
                  s \<leftarrow> (if free then kfree kend (PTE2PA e) s else Some s);
                  uvm_unmap_loop kend pagetable (a + PGSIZE) lasta free (s\<lparr>pmem := st64 pte 0 (pmem s)\<rparr>)
                }
      } else Some s)"
  by pat_completeness auto

termination uvm_unmap_loop
  by (relation "measure (\<lambda>(kend, pt, a, lasta, free, s). 0x4000000000 - unat a)")
    (auto dest!: walk_returns page_step_measure)

declare uvm_unmap_loop.simps [simp del]

definition uvm_unmap :: "u64 \<Rightarrow> u64 \<Rightarrow> u64 \<Rightarrow> u64 \<Rightarrow> bool \<Rightarrow> kmem \<Rightarrow> kmem option" where
  "uvm_unmap kend pagetable va npages free s =
     (if va mod PGSIZE \<noteq> 0 then panic ''uvm_unmap: not aligned''
      else uvm_unmap_loop kend pagetable va (va + npages * PGSIZE) free s)"

text \<open>\<^verbatim>\<open>uvm_dealloc\<close>: the page count is an \<^verbatim>\<open>int\<close>, sign-extended again for \<^verbatim>\<open>uvm_unmap\<close>.\<close>

definition uvm_dealloc :: "u64 \<Rightarrow> u64 \<Rightarrow> u64 \<Rightarrow> u64 \<Rightarrow> kmem \<Rightarrow> (u64 \<times> kmem) option" where
  "uvm_dealloc kend pagetable oldsz newsz s =
     (if oldsz \<le> newsz then Some (oldsz, s)
      else if PGROUNDUP newsz < PGROUNDUP oldsz
      then let npages = ucast ((PGROUNDUP oldsz - PGROUNDUP newsz) div PGSIZE) :: u32
           in do {
             s \<leftarrow> uvm_unmap kend pagetable (PGROUNDUP newsz) (scast npages) True s;
             Some (newsz, s)
           }
      else Some (newsz, s))"

function uvm_alloc_loop ::
    "u64 \<Rightarrow> u64 \<Rightarrow> u64 \<Rightarrow> u64 \<Rightarrow> u64 \<Rightarrow> u32 \<Rightarrow> kmem \<Rightarrow> (u64 \<times> kmem) option" where
  "uvm_alloc_loop kend pagetable oldsz a newsz xperm s =
     (if a < newsz then do {
        (mem, s) \<leftarrow> kalloc s;
        if mem = 0 then do {
          (_, s) \<leftarrow> uvm_dealloc kend pagetable a oldsz s;
          Some (0, s)
        } else do {
          (r, s) \<leftarrow> mappages pagetable a PGSIZE mem (ucast PTE_R OR ucast PTE_U OR xperm) s;
          if r \<noteq> 0 then do {
            s \<leftarrow> kfree kend mem s;
            (_, s) \<leftarrow> uvm_dealloc kend pagetable a oldsz s;
            Some (0, s)
          } else uvm_alloc_loop kend pagetable oldsz (a + PGSIZE) newsz xperm s
        }
      } else Some (newsz, s))"
  by pat_completeness auto

lemma mappages_returns:
  assumes "mappages pagetable va sz pa perm s = Some x"
  shows "PGROUNDDOWN va < MAXVA"
  using assms
  by (auto simp: mappages_def mappages_loop.simps [of pagetable "PGROUNDDOWN va"] bind_eq_Some_conv
      split: if_splits dest!: walk_returns)

lemma page_round_step_measure:
  fixes a :: u64
  assumes "PGROUNDDOWN a < MAXVA"
  shows "0x4000001000 - unat (a + 4096) < 0x4000001000 - unat a"
proof -
  have "unat a div 4096 * 4096 < 0x4000000000"
    using assms by (simp add: word_less_nat_alt unat_PGROUNDDOWN)
  then have a: "unat a < 0x4000001000"
    using div_mult_mod_eq [of "unat a" 4096] mod_less_divisor [of 4096 "unat a"] by linarith
  then have "unat (a + 4096) = unat a + 4096" by (subst unat_plus_no_wrap) simp_all
  then show ?thesis using a by simp
qed

termination uvm_alloc_loop
  by (relation "measure (\<lambda>(kend, pt, oldsz, a, newsz, xperm, s). 0x4000001000 - unat a)")
    (auto dest!: mappages_returns page_round_step_measure)

declare uvm_alloc_loop.simps [simp del]

definition uvm_alloc :: "u64 \<Rightarrow> u64 \<Rightarrow> u64 \<Rightarrow> u64 \<Rightarrow> u32 \<Rightarrow> kmem \<Rightarrow> (u64 \<times> kmem) option" where
  "uvm_alloc kend pagetable oldsz newsz xperm s =
     (if newsz < oldsz then Some (oldsz, s)
      else uvm_alloc_loop kend pagetable (PGROUNDUP oldsz) (PGROUNDUP oldsz) newsz xperm s)"


section \<open>Freeing and copying address spaces\<close>

text \<open>
  \<^verbatim>\<open>freewalk\<close>: one function for the loop over the 512 entries of a page and for the recursive
  call on a lower page.  The recursion follows pointers in memory, so it may not return.
\<close>

partial_function (option) freewalk_from :: "u64 \<Rightarrow> u64 \<Rightarrow> nat \<Rightarrow> kmem \<Rightarrow> kmem option" where
  "freewalk_from kend pagetable i s =
     (if i < 512
      then let pte = ld64 (pmem s) (pte_addr pagetable (of_nat i))
           in if pte AND PTE_V \<noteq> 0 \<and> pte AND (PTE_R OR PTE_W OR PTE_X) = 0
              then do {
                s \<leftarrow> freewalk_from kend (PTE2PA pte) 0 s;
                freewalk_from kend pagetable (Suc i)
                  (s\<lparr>pmem := st64 (pte_addr pagetable (of_nat i)) 0 (pmem s)\<rparr>)
              }
              else if pte AND PTE_V \<noteq> 0 then panic ''freewalk: leaf''
              else freewalk_from kend pagetable (Suc i) s
      else kfree kend pagetable s)"

definition freewalk :: "u64 \<Rightarrow> u64 \<Rightarrow> kmem \<Rightarrow> kmem option" where
  "freewalk kend pagetable s = freewalk_from kend pagetable 0 s"

definition uvm_free :: "u64 \<Rightarrow> u64 \<Rightarrow> u64 \<Rightarrow> kmem \<Rightarrow> kmem option" where
  "uvm_free kend pagetable sz s =
     do {
       s \<leftarrow> (if 0 < sz then uvm_unmap kend pagetable 0 (PGROUNDUP sz div PGSIZE) True s else Some s);
       freewalk kend pagetable s
     }"

definition uvm_first :: "u64 \<Rightarrow> u8 list \<Rightarrow> kmem \<Rightarrow> kmem option" where
  "uvm_first pagetable src s =
     do {
       (mem, s) \<leftarrow> kalloc s;
       if 4096 \<le> length src then panic ''uvm_first: more than a page''
       else do {
         (_, s) \<leftarrow> mappages pagetable 0 PGSIZE mem (ucast (PTE_W OR PTE_R OR PTE_X OR PTE_U)) s;
         Some (s\<lparr>pmem := st_bytes mem src (pmem s)\<rparr>)
       }
     }"

function uvm_copy_loop :: "u64 \<Rightarrow> u64 \<Rightarrow> u64 \<Rightarrow> u64 \<Rightarrow> u64 \<Rightarrow> kmem \<Rightarrow> (int \<times> kmem) option" where
  "uvm_copy_loop kend old new i sz s =
     (if i < sz then do {
        (pte, s) \<leftarrow> walk old i False s;
        if pte = 0 then panic ''uvm_copy: pte should exist''
        else if ld64 (pmem s) pte AND PTE_V = 0 then panic ''uvm_copy: page not present''
        else let pa = PTE2PA (ld64 (pmem s) pte);
                 flags = ucast (PTE_FLAGS (ld64 (pmem s) pte)) :: u32
             in do {
               (mem, s) \<leftarrow> kalloc s;
               if mem = 0 then do {
                 s \<leftarrow> uvm_unmap kend new 0 (i div PGSIZE) True s;
                 Some (- 1, s)
               } else do {
                 (r, s) \<leftarrow> mappages new i PGSIZE mem flags (s\<lparr>pmem := memmove mem pa 4096 (pmem s)\<rparr>);
                 if r \<noteq> 0 then do {
                   s \<leftarrow> kfree kend mem s;
                   s \<leftarrow> uvm_unmap kend new 0 (i div PGSIZE) True s;
                   Some (- 1, s)
                 } else uvm_copy_loop kend old new (i + PGSIZE) sz s
               }
             }
      } else Some (0, s))"
  by pat_completeness auto

termination uvm_copy_loop
  by (relation "measure (\<lambda>(kend, old, new, i, sz, s). 0x4000000000 - unat i)")
    (auto dest!: walk_returns page_step_measure)

declare uvm_copy_loop.simps [simp del]

definition uvm_copy :: "u64 \<Rightarrow> u64 \<Rightarrow> u64 \<Rightarrow> u64 \<Rightarrow> kmem \<Rightarrow> (int \<times> kmem) option" where
  "uvm_copy kend old new sz s = uvm_copy_loop kend old new 0 sz s"

definition uvm_clear :: "u64 \<Rightarrow> u64 \<Rightarrow> kmem \<Rightarrow> kmem option" where
  "uvm_clear pagetable va s =
     do {
       (pte, s) \<leftarrow> walk pagetable va False s;
       if pte = 0 then panic ''uvm_clear''
       else Some (s\<lparr>pmem := st64 pte (ld64 (pmem s) pte AND NOT PTE_U) (pmem s)\<rparr>)
     }"

section \<open>Copies between the kernel and a user address space\<close>

text \<open>The part of a copy of \<open>len\<close> bytes at \<open>va\<close> that lies in the page of \<open>va\<close>.\<close>

definition chunk :: "u64 \<Rightarrow> nat \<Rightarrow> nat" where
  "chunk va len = (let n = unat (PGSIZE - (va - PGROUNDDOWN va)) in if len < n then len else n)"

lemma page_offset: "unat (va - PGROUNDDOWN va) = unat va mod 4096"
proof -
  have "unat (va - PGROUNDDOWN va) = unat va - unat (PGROUNDDOWN va)"
    by (rule unat_sub) (rule PGROUNDDOWN_le)
  then show ?thesis by (simp add: unat_PGROUNDDOWN minus_div_mult_eq_mod)
qed

lemma chunk_eq: "chunk va len = min len (4096 - unat va mod 4096)"
proof -
  have "va - PGROUNDDOWN va \<le> PGSIZE"
    by (simp add: word_le_nat_alt page_offset less_imp_le)
  then have "unat (PGSIZE - (va - PGROUNDDOWN va)) = 4096 - unat va mod 4096"
    by (simp add: unat_sub page_offset)
  then show ?thesis by (simp add: chunk_def Let_def)
qed

lemma chunk_pos: "0 < len \<Longrightarrow> 0 < chunk va len"
  by (simp add: chunk_eq)

function copy_to_user :: "u64 \<Rightarrow> u64 \<Rightarrow> u8 list \<Rightarrow> kmem \<Rightarrow> (int \<times> kmem) option" where
  "copy_to_user pagetable dstva src s =
     (if src \<noteq> [] then do {
        (pa0, s) \<leftarrow> walkaddr pagetable (PGROUNDDOWN dstva) s;
        if pa0 = 0 then Some (- 1, s)
        else let n = chunk dstva (length src)
             in copy_to_user pagetable (PGROUNDDOWN dstva + PGSIZE) (drop n src)
                  (s\<lparr>pmem := st_bytes (pa0 + (dstva - PGROUNDDOWN dstva)) (take n src) (pmem s)\<rparr>)
      } else Some (0, s))"
  by pat_completeness auto

termination copy_to_user
  by (relation "measure (\<lambda>(pt, va, src, s). length src)") (auto simp: chunk_pos)

declare copy_to_user.simps [simp del]

text \<open>\<^verbatim>\<open>copy_from_user\<close> returns the bytes it has stored to \<^verbatim>\<open>dst\<close> with its result.\<close>

function copy_from_user :: "u64 \<Rightarrow> u64 \<Rightarrow> nat \<Rightarrow> kmem \<Rightarrow> ((int \<times> u8 list) \<times> kmem) option" where
  "copy_from_user pagetable srcva len s =
     (if 0 < len then do {
        (pa0, s) \<leftarrow> walkaddr pagetable (PGROUNDDOWN srcva) s;
        if pa0 = 0 then Some ((- 1, []), s)
        else let n = chunk srcva len
             in do {
               ((r, bs), s) \<leftarrow> copy_from_user pagetable (PGROUNDDOWN srcva + PGSIZE) (len - n) s;
               Some ((r, ld_bytes (pmem s) (pa0 + (srcva - PGROUNDDOWN srcva)) n @ bs), s)
             }
      } else Some ((0, []), s))"
  by pat_completeness auto

termination copy_from_user
  by (relation "measure (\<lambda>(pt, va, len, s). len)") (auto simp: chunk_pos)

declare copy_from_user.simps [simp del]

text \<open>\<^verbatim>\<open>copyin_str\<close>: the inner loop copies up to and including the first NUL of a page.\<close>

function copyin_str :: "u64 \<Rightarrow> u64 \<Rightarrow> nat \<Rightarrow> kmem \<Rightarrow> ((int \<times> u8 list) \<times> kmem) option" where
  "copyin_str pagetable srcva mx s =
     (if 0 < mx then do {
        (pa0, s) \<leftarrow> walkaddr pagetable (PGROUNDDOWN srcva) s;
        if pa0 = 0 then Some ((- 1, []), s)
        else let n = chunk srcva mx;
                 page = ld_bytes (pmem s) (pa0 + (srcva - PGROUNDDOWN srcva)) n;
                 str = takeWhile (\<lambda>c. c \<noteq> 0) page
             in if length str < n then Some ((0, str @ [0]), s)
                else do {
                  ((r, bs), s) \<leftarrow> copyin_str pagetable (PGROUNDDOWN srcva + PGSIZE) (mx - n) s;
                  Some ((r, str @ bs), s)
                }
      } else Some ((- 1, []), s))"
  by pat_completeness auto

termination copyin_str
  by (relation "measure (\<lambda>(pt, va, mx, s). mx)") (auto simp: chunk_pos)

declare copyin_str.simps [simp del]

section \<open>The kernel page table\<close>

text \<open>
  \<^verbatim>\<open>proc_mapstacks\<close> of \<^verbatim>\<open>proc.c\<close>, and \<^verbatim>\<open>kvm_make\<close>.  The addresses \<open>etext\<close> and \<open>trampoline\<close>
  come from the linker script and are parameters.
\<close>

primrec proc_mapstacks_loop :: "nat \<Rightarrow> nat \<Rightarrow> u64 \<Rightarrow> kmem \<Rightarrow> kmem option" where
  "proc_mapstacks_loop 0 p kpgtbl s = Some s"
| "proc_mapstacks_loop (Suc n) p kpgtbl s =
     do {
       (pa, s) \<leftarrow> kalloc s;
       if pa = 0 then panic ''kalloc''
       else do {
         s \<leftarrow> kvm_map kpgtbl (KSTACK p) pa PGSIZE (ucast (PTE_R OR PTE_W)) s;
         proc_mapstacks_loop n (Suc p) kpgtbl s
       }
     }"

definition proc_mapstacks :: "u64 \<Rightarrow> kmem \<Rightarrow> kmem option" where
  "proc_mapstacks kpgtbl s = proc_mapstacks_loop NPROC 0 kpgtbl s"

definition kvm_make :: "u64 \<Rightarrow> u64 \<Rightarrow> kmem \<Rightarrow> (u64 \<times> kmem) option" where
  "kvm_make etext trampoline s =
     do {
       (kpgtbl, s) \<leftarrow> kalloc s;
       s \<leftarrow> kvm_map kpgtbl UART0 UART0 PGSIZE (ucast (PTE_R OR PTE_W)) s;
       s \<leftarrow> kvm_map kpgtbl VIRTIO0 VIRTIO0 PGSIZE (ucast (PTE_R OR PTE_W)) s;
       s \<leftarrow> kvm_map kpgtbl PLIC PLIC 0x400000 (ucast (PTE_R OR PTE_W)) s;
       s \<leftarrow> kvm_map kpgtbl KERNBASE KERNBASE (etext - KERNBASE) (ucast (PTE_R OR PTE_X)) s;
       s \<leftarrow> kvm_map kpgtbl etext etext (PHYSTOP - etext) (ucast (PTE_R OR PTE_W)) s;
       s \<leftarrow> kvm_map kpgtbl TRAMPOLINE trampoline PGSIZE (ucast (PTE_R OR PTE_X)) s;
       s \<leftarrow> proc_mapstacks kpgtbl s;
       Some (kpgtbl, s)
     }"

end
