(* ===== verification/VmTables.thy ===== *)
theory VmTables
  imports Vm
begin

unbundle bit_operations_syntax

text \<open>
  The theory of the three-level page tables that \<^verbatim>\<open>walk\<close> and \<^verbatim>\<open>mappages\<close> build in memory.  A table page is
  named by the path of indices that leads to it from the root.  The invariant \<open>pt_inv\<close> says that the
  table pages are pages of the allocator outside its pool and that different paths lead to
  different pages; \<open>leaf\<close> is the abstract view of a page table, the entry it holds for an address.
\<close>

section \<open>Addresses inside a page\<close>

lemma unat_page_offset:
  assumes "page_aligned a" and "k < 4096"
  shows "unat (a + of_nat k) = unat a + k"
proof -
  have al: "unat a mod 4096 = 0" using assms(1) by (simp add: page_aligned_unat)
  have "unat a div 4096 < 4503599627370496"
    using unsigned_less [of a, where 'a = nat] by (simp add: div_less_iff_less_mult)
  moreover have "unat a div 4096 * 4096 = unat a" using al by (rule mod_0_div_mult)
  ultimately have "unat a + k < 18446744073709551616" using assms(2) by linarith
  then show ?thesis using assms(2) by (subst unat_plus_no_wrap) (simp_all add: unat_of_nat_small)
qed

lemma PGROUNDDOWN_offset:
  assumes "page_aligned a" and "k < 4096"
  shows "PGROUNDDOWN (a + of_nat k) = a"
proof (rule unsigned_word_eqI [where 'a = nat])
  have "unat a mod 4096 = 0" using assms(1) by (simp add: page_aligned_unat)
  then show "unat (PGROUNDDOWN (a + of_nat k)) = unat a"
    using assms(2) mod_0_div_mult [of "unat a" 4096]
    unfolding unat_PGROUNDDOWN unat_page_offset [OF assms] by (simp add: div_add1_eq)
qed

lemma page_offset_inject:
  assumes "page_aligned a" and "page_aligned b" and "k < 4096" and "l < 4096"
    and "a + of_nat k = b + of_nat l"
  shows "a = b \<and> k = l"
proof -
  have "PGROUNDDOWN (a + of_nat k) = PGROUNDDOWN (b + of_nat l)" using assms(5) by (rule arg_cong)
  then have ab: "a = b"
    unfolding PGROUNDDOWN_offset [OF assms(1,3)] PGROUNDDOWN_offset [OF assms(2,4)] .
  have "unat a + k = unat b + l"
    using arg_cong [OF assms(5), of unat]
    unfolding unat_page_offset [OF assms(1,3)] unat_page_offset [OF assms(2,4)] .
  with ab show ?thesis by simp
qed

definition entry :: "u64 \<Rightarrow> nat \<Rightarrow> u64" where
  "entry a i = a + of_nat (8 * i)"

lemma entry_PX: "pte_addr a (PX l va) = entry a (unat (PX l va))"
  by (simp add: entry_def)

lemma entry_aligned:
  assumes "page_aligned a" and "i < 512"
  shows "unat (entry a i) mod 8 = 0"
proof -
  have "unat (entry a i) = unat a + 8 * i"
    unfolding entry_def using assms by (subst unat_page_offset) simp_all
  then show ?thesis using page_aligned_mod8 [OF assms(1)] by simp
qed

lemma entry_inject:
  assumes "page_aligned a" and "page_aligned b" and "i < 512" and "j < 512" and "entry a i = entry b j"
  shows "a = b \<and> i = j"
  using page_offset_inject [of a b "8 * i" "8 * j"] assms by (simp add: entry_def)

lemma ld64_entry_other:
  assumes "page_aligned a" and "page_aligned b" and "i < 512" and "j < 512" and "a \<noteq> b \<or> i \<noteq> j"
  shows "ld64 (st64 (entry a i) v m) (entry b j) = ld64 m (entry b j)"
  using assms entry_inject entry_aligned by (intro ld64_st64_other) blast+

lemma ld64_entry_same_page: "same_page m m' a \<Longrightarrow> i < 512 \<Longrightarrow> ld64 m' (entry a i) = ld64 m (entry a i)"
  unfolding entry_def by (rule same_page_ld64) auto

lemma ld64_entry_zero:
  assumes "\<forall>k<4096. m (a + of_nat k) = 0" and "i < 512"
  shows "ld64 m (entry a i) = 0"
proof -
  have "ld_bytes m (entry a i) 8 = ld_bytes (\<lambda>_. 0) (entry a i) 8"
    using assms(1) [rule_format, of "8 * i + j" for j] assms(2)
    by (intro ld_bytes_cong) (simp add: entry_def add.assoc)
  then show ?thesis using ld64_zero [of "entry a i"] by (simp add: ld64_def)
qed

lemma entry_same_page:
  assumes "page_aligned a" and "page_aligned q" and "q \<noteq> a" and "i < 512"
  shows "same_page m (st64 (entry a i) v m) q"
  unfolding same_page_def st64_def
proof (intro allI impI st_bytes_outside)
  fix k :: nat assume k: "k < 4096"
  show "length (le_bytes 8 v) \<le> unat (q + of_nat k - entry a i)"
  proof (rule ccontr)
    assume "\<not> ?thesis"
    then have d: "unat (q + of_nat k - entry a i) < 8" by simp
    define j where "j = unat (q + of_nat k - entry a i)"
    have j: "8 * i + j < 4096" using d assms(4) by (simp add: j_def)
    have "q + of_nat k = entry a i + of_nat j" by (simp add: j_def)
    then have "q + of_nat k = a + of_nat (8 * i + j)"
      by (simp only: entry_def add.assoc of_nat_add)
    then have "q = a" using page_offset_inject [OF assms(2,1) k j] by blast
    with assms(3) show False by contradiction
  qed
qed

section \<open>Tables, paths and leaves\<close>

primrec tbl :: "mem \<Rightarrow> u64 \<Rightarrow> nat list \<Rightarrow> u64 option" where
  "tbl m pt [] = Some pt"
| "tbl m pt (i # is) =
     (if ld64 m (entry pt i) AND PTE_V \<noteq> 0 then tbl m (PTE2PA (ld64 m (entry pt i))) is else None)"

definition ipath :: "nat list \<Rightarrow> bool" where
  "ipath p \<longleftrightarrow> length p \<le> 2 \<and> (\<forall>i \<in> set p. i < 512)"

definition pt_inv :: "u64 \<Rightarrow> u64 set \<Rightarrow> mem \<Rightarrow> u64 \<Rightarrow> bool" where
  "pt_inv kend F m root \<longleftrightarrow>
     (\<forall>p a. ipath p \<longrightarrow> tbl m root p = Some a \<longrightarrow> kpage kend a \<and> a \<notin> F) \<and>
     (\<forall>p q a. ipath p \<longrightarrow> ipath q \<longrightarrow> tbl m root p = Some a \<longrightarrow> tbl m root q = Some a \<longrightarrow> p = q)"

definition va_path :: "u64 \<Rightarrow> nat list" where
  "va_path va = [unat (PX 2 va), unat (PX 1 va)]"

lemma PX_PGROUNDDOWN: "PX l (PGROUNDDOWN x) = PX l x"
  by (rule unsigned_word_eqI [where 'a = nat])
    (simp add: unat_PX unat_PGROUNDDOWN power_add div_mult2_eq)

definition leaf :: "mem \<Rightarrow> u64 \<Rightarrow> u64 \<Rightarrow> u64" where
  "leaf m root va =
     (case tbl m root (va_path va) of
        None \<Rightarrow> 0
      | Some t \<Rightarrow> ld64 m (entry t (unat (PX 0 va))))"

lemma leaf_page: "PGROUNDDOWN va' = PGROUNDDOWN va \<Longrightarrow> leaf m root va' = leaf m root va"
  by (metis PX_PGROUNDDOWN leaf_def va_path_def)

lemma tbl_append: "tbl m pt (p @ q) = tbl m pt p \<bind> (\<lambda>a. tbl m a q)"
  by (induction p arbitrary: pt) auto

lemma ipath_va [simp]: "ipath (va_path va)"
  by (simp add: ipath_def va_path_def PX_less)

lemma ipath_append: "ipath (p @ q) \<Longrightarrow> ipath p"
  by (auto simp: ipath_def)

lemma pt_invD:
  assumes "pt_inv kend F m root" and "ipath p" and "tbl m root p = Some a"
  shows "kpage kend a" "page_aligned a" "a \<notin> F"
  using assms by (auto simp: pt_inv_def kpage_def)

lemma pt_inv_inject:
  "pt_inv kend F m root \<Longrightarrow> ipath p \<Longrightarrow> ipath q \<Longrightarrow> tbl m root p = Some a \<Longrightarrow> tbl m root q = Some a \<Longrightarrow> p = q"
  by (auto simp: pt_inv_def)

text \<open>Memory that agrees on every table page has the same tables, in the same places.\<close>

lemma tbl_cong:
  assumes "\<And>q b. ipath q \<Longrightarrow> tbl m root q = Some b \<Longrightarrow> same_page m m' b" and "ipath p"
  shows "tbl m' root p = tbl m root p"
  using assms(2)
proof (induction p rule: rev_induct)
  case (snoc i p)
  have p: "ipath p" and i: "i < 512" using snoc.prems by (auto simp: ipath_def)
  have "ld64 m' (entry b i) = ld64 m (entry b i)" if "tbl m root p = Some b" for b
    using ld64_entry_same_page [OF assms(1) [OF p that] i] .
  then show ?case
    using snoc.IH [OF p] by (cases "tbl m root p") (auto simp: tbl_append)
qed simp

lemma pt_inv_cong:
  assumes "pt_inv kend F m root" and "F' \<subseteq> F"
    and "\<And>q b. ipath q \<Longrightarrow> tbl m root q = Some b \<Longrightarrow> same_page m m' b"
  shows "pt_inv kend F' m' root" "leaf m' root va = leaf m root va"
proof -
  have eq: "tbl m' root p = tbl m root p" if "ipath p" for p
    by (rule tbl_cong) (use assms(3) that in auto)
  show "pt_inv kend F' m' root"
    using assms(1,2) unfolding pt_inv_def by (auto simp: eq)
  show "leaf m' root va = leaf m root va"
  proof (cases "tbl m root (va_path va)")
    case (Some t)
    then show ?thesis
      using ld64_entry_same_page [OF assms(3) [OF ipath_va Some] PX_less]
      by (simp add: leaf_def eq)
  qed (simp add: leaf_def eq)
qed


text \<open>The entries that point to tables have no permission bits, and the upper half of the root is not used:
  addresses end at \<open>MAXVA\<close>, one bit below what three levels can hold.\<close>

definition table_links :: "mem \<Rightarrow> u64 \<Rightarrow> bool" where
  "table_links m root \<longleftrightarrow>
     (\<forall>p i b. ipath (p @ [i]) \<longrightarrow> tbl m root p = Some b \<longrightarrow> ld64 m (entry b i) AND PTE_V \<noteq> 0 \<longrightarrow>
        ld64 m (entry b i) AND (PTE_R OR PTE_W OR PTE_X) = 0 \<and> (p = [] \<longrightarrow> i < 256))"

lemma table_linksD:
  assumes "table_links m root" "ipath (p @ [i])" "tbl m root p = Some b" "ld64 m (entry b i) AND PTE_V \<noteq> 0"
  shows "ld64 m (entry b i) AND (PTE_R OR PTE_W OR PTE_X) = 0" "p = [] \<Longrightarrow> i < 256"
  using assms unfolding table_links_def by blast+

lemma table_links_cong:
  assumes "table_links m root" and "\<And>p. ipath p \<Longrightarrow> tbl m' root p = tbl m root p"
    and "\<And>p b. length p < 2 \<Longrightarrow> ipath p \<Longrightarrow> tbl m root p = Some b \<Longrightarrow> same_page m m' b"
  shows "table_links m' root"
  unfolding table_links_def
proof (intro allI impI)
  fix p i b assume a: "ipath (p @ [i])" "tbl m' root p = Some b" "ld64 m' (entry b i) AND PTE_V \<noteq> 0"
  have p: "ipath p" "length p < 2" "i < 512" using a(1) by (auto simp: ipath_def)
  have b: "tbl m root p = Some b" using assms(2) [OF p(1)] a(2) by simp
  have "ld64 m' (entry b i) = ld64 m (entry b i)" using ld64_entry_same_page [OF assms(3) [OF p(2,1) b] p(3)] .
  then show "ld64 m' (entry b i) AND (PTE_R OR PTE_W OR PTE_X) = 0 \<and> (p = [] \<longrightarrow> i < 256)"
    using table_linksD [OF assms(1) a(1) b] a(3) by simp
qed

section \<open>Adding a table page and storing a leaf\<close>

lemma valid_PTE [simp]: "(e OR PTE_V) AND PTE_V \<noteq> 0"
proof -
  have "bit ((e OR PTE_V) AND PTE_V) 0 \<noteq> bit (0 :: u64) 0" by (simp add: bit_simps)
  then show ?thesis by metis
qed

lemma PTE2PA_table: "kpage kend pg \<Longrightarrow> PTE2PA (PA2PTE pg OR PTE_V) = pg"
  by (rule PTE2PA_PA2PTE) (auto simp: kpage_def word_less_nat_alt)

lemma table_flags: "(PA2PTE pg OR PTE_V) AND (PTE_R OR PTE_W OR PTE_X) = 0"
proof (rule bit_word_eqI)
  fix n
  have "0 < n \<and> n < 10" if "bit (14 :: u64) n"
    using that by (auto simp: bit_numeral_rec bit_1_iff split: nat.splits)
  then show "bit ((PA2PTE pg OR PTE_V) AND (PTE_R OR PTE_W OR PTE_X)) n = bit (0 :: u64) n"
    by (auto simp: bit_simps PA2PTE_def)
qed

lemma tbl_snoc:
  "tbl m root (q @ [j]) = (case tbl m root q of None \<Rightarrow> None
     | Some b \<Rightarrow> if ld64 m (entry b j) AND PTE_V \<noteq> 0 then Some (PTE2PA (ld64 m (entry b j))) else None)"
  by (cases "tbl m root q") (simp_all add: tbl_append)

lemma tbl_extend:
  assumes inv: "pt_inv kend F m root" and path: "ipath (p @ [i])" and a: "tbl m root p = Some a"
    and free: "ld64 m (entry a i) AND PTE_V = 0" and pg: "pg \<in> F" "kpage kend pg"
    and zero: "\<forall>k<4096. m (pg + of_nat k) = 0"
    and m': "m' = st64 (entry a i) (PA2PTE pg OR PTE_V) m" and q: "ipath q"
  shows "tbl m' root q = (if q = p @ [i] then Some pg else tbl m root q)"
  using q
proof (induction q rule: rev_induct)
  case Nil
  then show ?case by simp
next
  case (snoc j r)
  have p: "ipath p" and i: "i < 512" using path by (auto simp: ipath_def)
  have r: "ipath r" and j: "j < 512" using snoc.prems by (auto simp: ipath_def)
  have al: "page_aligned a" "page_aligned pg" "a \<noteq> pg"
    using pt_invD [OF inv p a] pg by (auto simp: kpage_def)
  show ?case
  proof (cases "r = p @ [i]")
    case True
    have "ld64 m' (entry pg j) = ld64 m (entry pg j)"
      unfolding m' using al i j by (intro ld64_entry_other) auto
    then have "ld64 m' (entry pg j) = 0" using ld64_entry_zero [OF zero j] by simp
    moreover have "tbl m root (p @ [i]) = None" using a free by (simp add: tbl_snoc)
    ultimately have "tbl m' root (r @ [j]) = None" "tbl m root (r @ [j]) = None"
      using True snoc.IH [OF r] unfolding tbl_snoc [of _ _ r] by simp_all
    then show ?thesis using True by auto
  next
    case False
    show ?thesis
    proof (cases "tbl m root r")
      case None
      moreover from None a have "r \<noteq> p" by auto
      ultimately show ?thesis using snoc.IH [OF r] False by (simp add: tbl_snoc)
    next
      case (Some b)
      have b: "page_aligned b" using pt_invD [OF inv r Some] by simp
      have rp: "r = p" if "b = a" using pt_inv_inject [OF inv r p Some] a that by simp
      show ?thesis
      proof (cases "b = a \<and> j = i")
        case True
        then have "ld64 m' (entry b j) = PA2PTE pg OR PTE_V" by (simp add: m')
        then show ?thesis
          using True rp snoc.IH [OF r] False Some PTE2PA_table [OF pg(2)] by (simp add: tbl_snoc)
      next
        case no: False
        then have "ld64 m' (entry b j) = ld64 m (entry b j)"
          unfolding m' using al b i j by (intro ld64_entry_other) auto
        moreover have "r @ [j] \<noteq> p @ [i]" using no Some a by auto
        moreover have "tbl m' root r = Some b" using snoc.IH [OF r] False Some by simp
        ultimately show ?thesis using Some unfolding tbl_snoc [of _ _ r] by (simp only: option.case if_False)
      qed
    qed
  qed
qed

lemma pt_extend:
  assumes inv: "pt_inv kend F m root" and path: "ipath (p @ [i])" and a: "tbl m root p = Some a"
    and free: "ld64 m (entry a i) AND PTE_V = 0" and pg: "pg \<in> F" "kpage kend pg"
    and zero: "\<forall>k<4096. m (pg + of_nat k) = 0"
    and m': "m' = st64 (entry a i) (PA2PTE pg OR PTE_V) m"
  shows "tbl m' root (p @ [i]) = Some pg" "pt_inv kend (F - {pg}) m' root"
    "leaf m' root va = leaf m root va"
proof -
  note ext = tbl_extend [OF assms]
  have p: "ipath p" and i: "i < 512" using path by (auto simp: ipath_def)
  have al: "page_aligned a" "page_aligned pg" "a \<noteq> pg" "a \<notin> F"
    using pt_invD [OF inv p a] pg by (auto simp: kpage_def)
  show "tbl m' root (p @ [i]) = Some pg" using ext [OF path] by simp
  have fresh: "tbl m root q \<noteq> Some pg" if "ipath q" for q
    using pt_invD(3) [OF inv that] pg by blast
  have kp: "kpage kend b \<and> b \<notin> F - {pg}" if "ipath q" "tbl m' root q = Some b" for q b
    using that ext [OF that(1)] pt_invD [OF inv that(1)] pg by (auto split: if_splits)
  have inj: "q = r" if "ipath q" "ipath r" "tbl m' root q = Some b" "tbl m' root r = Some b" for q r b
    using that ext [OF that(1)] ext [OF that(2)] fresh pt_inv_inject [OF inv that(1,2)]
    by (auto split: if_splits)
  show "pt_inv kend (F - {pg}) m' root" unfolding pt_inv_def using kp inj by blast
  show "leaf m' root va = leaf m root va"
  proof (cases "va_path va = p @ [i]")
    case True
    have "ld64 m' (entry pg (unat (PX 0 va))) = ld64 m (entry pg (unat (PX 0 va)))"
      unfolding m' using al i PX_less by (intro ld64_entry_other) auto
    moreover have "tbl m root (va_path va) = None" using a free True by (simp add: tbl_snoc)
    ultimately show ?thesis
      using True ext [OF path] ld64_entry_zero [OF zero PX_less] by (simp add: leaf_def)
  next
    case False
    then have same: "tbl m' root (va_path va) = tbl m root (va_path va)" using ext [OF ipath_va] by simp
    show ?thesis
    proof (cases "tbl m root (va_path va)")
      case (Some t)
      have t: "page_aligned t" using pt_invD [OF inv ipath_va Some] by simp
      have "t \<noteq> a"
      proof
        assume "t = a"
        then have "va_path va = p" using pt_inv_inject [OF inv ipath_va p Some] a by simp
        then show False using path by (auto simp: va_path_def ipath_def)
      qed
      then have "ld64 m' (entry t (unat (PX 0 va))) = ld64 m (entry t (unat (PX 0 va)))"
        unfolding m' using al t i PX_less by (intro ld64_entry_other) auto
      then show ?thesis using same Some by (simp add: leaf_def)
    qed (simp add: leaf_def same)
  qed
qed


lemma table_links_extend:
  assumes inv: "pt_inv kend F m root" and path: "ipath (p @ [i])" and a: "tbl m root p = Some a"
    and free: "ld64 m (entry a i) AND PTE_V = 0" and pg: "pg \<in> F" "kpage kend pg"
    and zero: "\<forall>k<4096. m (pg + of_nat k) = 0"
    and m': "m' = st64 (entry a i) (PA2PTE pg OR PTE_V) m" and low: "p = [] \<longrightarrow> i < 256" and l: "table_links m root"
  shows "table_links m' root"
  unfolding table_links_def
proof (intro allI impI)
  fix q j b assume q: "ipath (q @ [j])" "tbl m' root q = Some b" "ld64 m' (entry b j) AND PTE_V \<noteq> 0"
  note ext = tbl_extend [OF inv path a free pg zero m']
  have iq: "ipath q" "j < 512" and ip: "ipath p" "i < 512" using q(1) path by (auto simp: ipath_def)
  have al: "page_aligned a" "page_aligned pg" "a \<noteq> pg" using pt_invD [OF inv ip(1) a] pg by (auto simp: kpage_def)
  show "ld64 m' (entry b j) AND (PTE_R OR PTE_W OR PTE_X) = 0 \<and> (q = [] \<longrightarrow> j < 256)"
  proof (cases "q = p @ [i]")
    case True
    then have "b = pg" using ext [OF iq(1)] q(2) by simp
    moreover have "ld64 m' (entry pg j) = ld64 m (entry pg j)" unfolding m' using al ip iq by (intro ld64_entry_other) auto
    ultimately show ?thesis using ld64_entry_zero [OF zero iq(2)] q(3) by simp
  next
    case False
    then have b: "tbl m root q = Some b" using ext [OF iq(1)] q(2) by simp
    have alb: "page_aligned b" using pt_invD [OF inv iq(1) b] by simp
    show ?thesis
    proof (cases "b = a \<and> j = i")
      case True
      then have "q = p" using pt_inv_inject [OF inv iq(1) ip(1) b] a by simp
      then show ?thesis using True low table_flags by (simp add: m')
    next
      case no: False
      then have "ld64 m' (entry b j) = ld64 m (entry b j)" unfolding m' using al alb ip iq by (intro ld64_entry_other) auto
      then show ?thesis using table_linksD [OF l q(1) b] q(3) by simp
    qed
  qed
qed

text \<open>Storing a leaf entry changes the view at the addresses of its page only.\<close>

lemma pt_store_leaf:
  assumes inv: "pt_inv kend F m root" and t: "tbl m root (va_path va) = Some t"
    and m': "m' = st64 (entry t (unat (PX 0 va))) v m"
  shows "pt_inv kend F m' root" "\<And>q. ipath q \<Longrightarrow> tbl m' root q = tbl m root q"
    "va < MAXVA \<Longrightarrow> va' < MAXVA \<Longrightarrow>
       leaf m' root va' = (if PGROUNDDOWN va' = PGROUNDDOWN va then v else leaf m root va')"
proof -
  have al: "page_aligned t" using pt_invD [OF inv ipath_va t] by simp
  have same: "tbl m' root q = tbl m root q" if "ipath q" for q
    using that
  proof (induction q rule: rev_induct)
    case (snoc j r)
    have r: "ipath r" "length r < 2" and j: "j < 512" using snoc.prems by (auto simp: ipath_def)
    have "ld64 m' (entry b j) = ld64 m (entry b j)" if b: "tbl m root r = Some b" for b
    proof -
      have "b \<noteq> t" using pt_inv_inject [OF inv r(1) ipath_va b] t r(2) by (auto simp: va_path_def)
      then show ?thesis
        unfolding m' using al pt_invD(2) [OF inv r(1) b] j PX_less by (intro ld64_entry_other) auto
    qed
    then show ?case using snoc.IH [OF r(1)] by (auto simp: tbl_snoc split: option.splits)
  qed simp
  then show "\<And>q. ipath q \<Longrightarrow> tbl m' root q = tbl m root q" .
  show "pt_inv kend F m' root" using inv unfolding pt_inv_def by (auto simp: same)
  assume va: "va < MAXVA" "va' < MAXVA"
  show "leaf m' root va' = (if PGROUNDDOWN va' = PGROUNDDOWN va then v else leaf m root va')"
  proof (cases "PGROUNDDOWN va' = PGROUNDDOWN va")
    case True
    then have "PX l va' = PX l va" for l by (metis PX_PGROUNDDOWN)
    then have eq: "va_path va' = va_path va" "PX 0 va' = PX 0 va" by (simp_all add: va_path_def)
    show ?thesis using True t same [OF ipath_va] by (simp add: leaf_def eq) (simp add: m')
  next
    case False
    have "ld64 m' (entry b (unat (PX 0 va'))) = ld64 m (entry b (unat (PX 0 va')))"
      if b: "tbl m root (va_path va') = Some b" for b
    proof (cases "b = t")
      case True
      then have "va_path va' = va_path va" using pt_inv_inject [OF inv ipath_va ipath_va b] t by simp
      then have "PX 2 va' = PX 2 va" "PX 1 va' = PX 1 va"
        by (auto simp: va_path_def intro: unsigned_word_eqI)
      then have "PX 0 va' \<noteq> PX 0 va" using PX_inject [OF va(2,1)] False by blast
      then have "unat (PX 0 va') \<noteq> unat (PX 0 va)" using unsigned_word_eqI by blast
      then show ?thesis
        unfolding m' using al True PX_less by (intro ld64_entry_other) auto
    next
      case False
      then show ?thesis
        unfolding m' using al pt_invD(2) [OF inv ipath_va b] PX_less by (intro ld64_entry_other) auto
    qed
    then show ?thesis using False by (auto simp: leaf_def same split: option.splits)
  qed
qed

end
