(* ===== verification/VmSpec.thy ===== *)
theory VmSpec
  imports VmTables
begin

unbundle bit_operations_syntax

text \<open>
  What the operations of \<^verbatim>\<open>kernel/vm.c\<close> do to the abstract view of a page table: \<open>walk\<close>,
  \<open>mappages\<close>, \<open>uvm_unmap\<close> and the copies between kernel and user memory.
\<close>

section \<open>Page tables over the allocator\<close>

definition tables :: "mem \<Rightarrow> u64 \<Rightarrow> u64 set" where
  "tables m root = {a. \<exists>p. ipath p \<and> tbl m root p = Some a}"

definition pt_state :: "u64 \<Rightarrow> u64 set \<Rightarrow> u64 \<Rightarrow> kmem \<Rightarrow> bool" where
  "pt_state kend F root s \<longleftrightarrow> kavail kend F s \<and> pt_inv kend F (pmem s) root"

text \<open>\<open>outside_kept\<close>: new table pages come from the pool, and memory that is neither free nor a table
  keeps its bytes; entries for tables are as they should be if they were.  \<open>grows\<close>: moreover nothing that was mapped changed.\<close>

definition outside_kept :: "u64 \<Rightarrow> u64 set \<Rightarrow> kmem \<Rightarrow> kmem \<Rightarrow> bool" where
  "outside_kept root F s s' \<longleftrightarrow>
     tables (pmem s') root \<subseteq> tables (pmem s) root \<union> F \<and>
     (\<forall>q. page_aligned q \<longrightarrow> q \<notin> F \<longrightarrow> q \<notin> tables (pmem s) root \<longrightarrow> same_page (pmem s) (pmem s') q) \<and>
     (table_links (pmem s) root \<longrightarrow> table_links (pmem s') root)"

lemma outside_mono: "outside_kept root F s s' \<Longrightarrow> F \<subseteq> G \<Longrightarrow> outside_kept root G s s'"
  by (auto simp: outside_kept_def)

lemma outside_trans:
  assumes "outside_kept root F s s'" and "outside_kept root F' s' s''" and "F' \<subseteq> F"
  shows "outside_kept root F s s''"
  unfolding outside_kept_def
proof (intro conjI allI impI)
  show "tables (pmem s'') root \<subseteq> tables (pmem s) root \<union> F"
    using assms by (auto simp: outside_kept_def)
  show "table_links (pmem s'') root" if "table_links (pmem s) root" using assms that by (simp add: outside_kept_def)
  fix q assume q: "page_aligned q" "q \<notin> F" "q \<notin> tables (pmem s) root"
  then have "same_page (pmem s) (pmem s') q" using assms(1) by (simp add: outside_kept_def)
  moreover have "q \<notin> F'" "q \<notin> tables (pmem s') root" using q assms(1,3) by (auto simp: outside_kept_def)
  then have "same_page (pmem s') (pmem s'') q" using q(1) assms(2) by (simp add: outside_kept_def)
  ultimately show "same_page (pmem s) (pmem s'') q" by (rule same_page_trans)
qed

definition grows :: "u64 \<Rightarrow> u64 set \<Rightarrow> kmem \<Rightarrow> u64 set \<Rightarrow> kmem \<Rightarrow> bool" where
  "grows root F s F' s' \<longleftrightarrow>
     F' \<subseteq> F \<and>
     (\<forall>p a. ipath p \<longrightarrow> tbl (pmem s) root p = Some a \<longrightarrow> tbl (pmem s') root p = Some a) \<and>
     (\<forall>va. leaf (pmem s') root va = leaf (pmem s) root va) \<and>
     outside_kept root F s s'"

lemma outside_refl [simp]: "outside_kept root F s s"
  by (simp add: outside_kept_def)

lemma grows_refl [simp]: "grows root F s F s"
  by (simp add: grows_def)

lemma grows_trans:
  assumes "grows root F s F' s'" and "grows root F' s' F'' s''"
  shows "grows root F s F'' s''"
  using assms outside_trans [of root F s s' F' s''] unfolding grows_def by auto

lemma kalloc_keeps_tables:
  assumes st: "pt_state kend F root s" and "F \<noteq> {}"
  shows "\<exists>pg s'. kalloc s = Some (pg, s') \<and> pg \<in> F \<and> pg \<noteq> 0 \<and> kpage kend pg \<and>
           kavail kend (F - {pg}) s' \<and> pt_inv kend F (pmem s') root \<and>
           (\<forall>k<4096. pmem s' (pg + of_nat k) = 0) \<and>
           (\<forall>q. ipath q \<longrightarrow> tbl (pmem s') root q = tbl (pmem s) root q) \<and>
           (\<forall>va. leaf (pmem s') root va = leaf (pmem s) root va) \<and>
           (\<forall>q. page_aligned q \<longrightarrow> q \<noteq> pg \<longrightarrow> same_page (pmem s) (pmem s') q)"
proof -
  have inv: "pt_inv kend F (pmem s) root" and av: "kavail kend F s" using st by (auto simp: pt_state_def)
  obtain pg s' where k: "kalloc s = Some (pg, s')" "pg \<in> F" "kavail kend (F - {pg}) s'"
      "\<forall>i<4096. pmem s' (pg + of_nat i) = 0"
      "\<forall>q. page_aligned q \<longrightarrow> q \<noteq> pg \<longrightarrow> same_page (pmem s) (pmem s') q"
    using kal.alloc_ok [OF av assms(2)] by blast
  have keep: "same_page (pmem s) (pmem s') b" if "ipath q" "tbl (pmem s) root q = Some b" for q b
    using pt_invD [OF inv that] k(2,5) by auto
  have inv': "pt_inv kend F (pmem s') root" by (rule pt_inv_cong(1) [OF inv order_refl]) (rule keep)
  have lf: "leaf (pmem s') root va = leaf (pmem s) root va" for va
    by (rule pt_inv_cong(2) [OF inv order_refl]) (rule keep)
  have same: "tbl (pmem s') root q = tbl (pmem s) root q" if "ipath q" for q
    by (rule tbl_cong [OF _ that]) (rule keep)
  have pg: "kpage kend pg" using kal.avail_page [OF av k(2)] .
  show ?thesis
    by (intro exI conjI) (use k pg inv' lf same in \<open>auto simp: kpage_def\<close>)
qed

lemma grows_extend:
  assumes av: "kavail kend (F - {pg}) s" and inv: "pt_inv kend F (pmem s) root" and path: "ipath (p @ [i])"
    and a: "tbl (pmem s) root p = Some a" and free: "ld64 (pmem s) (entry a i) AND PTE_V = 0"
    and pg: "pg \<in> F" "kpage kend pg" and zero: "\<forall>k<4096. pmem s (pg + of_nat k) = 0"
    and s': "s' = s\<lparr>pmem := st64 (entry a i) (PA2PTE pg OR PTE_V) (pmem s)\<rparr>" and low: "p = [] \<longrightarrow> i < 256"
  shows "tbl (pmem s') root (p @ [i]) = Some pg" "grows root F s (F - {pg}) s'"
    "pt_state kend (F - {pg}) root s'"
proof -
  have m': "pmem s' = st64 (entry a i) (PA2PTE pg OR PTE_V) (pmem s)" by (simp add: s')
  note ext = pt_extend [OF inv path a free pg zero m']
    and tx = tbl_extend [OF inv path a free pg zero m']
  show "tbl (pmem s') root (p @ [i]) = Some pg" by (rule ext(1))
  have p: "ipath p" "i < 512" using path by (auto simp: ipath_def)
  have al: "page_aligned a" "a \<notin> F" using pt_invD [OF inv p(1) a] by auto
  have keep: "same_page (pmem s) (pmem s') q" if "page_aligned q" "q \<noteq> a" for q
    unfolding m' using al that p(2) by (intro entry_same_page) auto
  have "page_aligned x \<and> x \<noteq> a" if "x \<in> F - {pg}" for x
    using kal.avail_page [OF av that] al that by (auto simp: kpage_def)
  then have "kavail kend (F - {pg}) s'"
    unfolding s' using keep [unfolded m'] by (intro kal.avail_put [OF av]) blast
  then show "pt_state kend (F - {pg}) root s'" using ext(2) by (simp add: pt_state_def)
  have none: "tbl (pmem s) root (p @ [i]) = None" using a free by (simp add: tbl_snoc)
  have mono: "tbl (pmem s') root q = Some b" if "ipath q" "tbl (pmem s) root q = Some b" for q b
    using tx [OF that(1)] that(2) none by auto
  have "a \<in> tables (pmem s) root" using p(1) a by (auto simp: tables_def)
  then have out: "same_page (pmem s) (pmem s') q" if "page_aligned q" "q \<notin> tables (pmem s) root" for q
    using keep that by blast
  have "tables (pmem s') root \<subseteq> tables (pmem s) root \<union> F"
  proof
    fix b assume "b \<in> tables (pmem s') root"
    then obtain q where q: "ipath q" "tbl (pmem s') root q = Some b" by (auto simp: tables_def)
    then show "b \<in> tables (pmem s) root \<union> F"
      using tx [OF q(1)] pg(1) by (auto simp: tables_def split: if_splits)
  qed
  then have "outside_kept root F s s'" using out table_links_extend [OF inv path a free pg zero m' low] by (simp add: outside_kept_def)
  then show "grows root F s (F - {pg}) s'" using ext(3) mono by (auto simp: grows_def)
qed

lemma grows_same:
  assumes "\<forall>q. ipath q \<longrightarrow> tbl (pmem s') root q = tbl (pmem s) root q"
    and "\<forall>va. leaf (pmem s') root va = leaf (pmem s) root va"
    and "\<forall>q. page_aligned q \<longrightarrow> q \<notin> F \<longrightarrow> same_page (pmem s) (pmem s') q" and inv: "pt_inv kend F (pmem s) root"
  shows "grows root F s F s'"
proof -
  have "table_links (pmem s') root" if "table_links (pmem s) root"
    by (rule table_links_cong [OF that]) (use assms(1,3) pt_invD [OF inv] in auto)
  moreover
  have "tables (pmem s') root = tables (pmem s) root" using assms(1) by (auto simp: tables_def)
  ultimately show ?thesis unfolding grows_def outside_kept_def using assms by simp
qed

lemma kalloc_grows:
  assumes st: "pt_state kend F root s" and "F \<noteq> {}" and path: "ipath (p @ [i])"
    and a: "tbl (pmem s) root p = Some a" and free: "ld64 (pmem s) (entry a i) AND PTE_V = 0" and low: "p = [] \<longrightarrow> i < 256"
  shows "\<exists>pg s' s''. kalloc s = Some (pg, s') \<and> pg \<noteq> 0 \<and> pg \<in> F \<and>
           s'' = s'\<lparr>pmem := st64 (entry a i) (PA2PTE pg OR PTE_V) (pmem s')\<rparr> \<and>
           tbl (pmem s'') root (p @ [i]) = Some pg \<and> grows root F s (F - {pg}) s'' \<and>
           pt_state kend (F - {pg}) root s''"
proof -
  obtain pg s' where k: "kalloc s = Some (pg, s')" "pg \<in> F" "pg \<noteq> 0" "kpage kend pg"
      "kavail kend (F - {pg}) s'" "pt_inv kend F (pmem s') root"
      "\<forall>k<4096. pmem s' (pg + of_nat k) = 0"
    and same: "\<forall>q. ipath q \<longrightarrow> tbl (pmem s') root q = tbl (pmem s) root q"
    and lf: "\<forall>va. leaf (pmem s') root va = leaf (pmem s) root va"
    and keep: "\<forall>q. page_aligned q \<longrightarrow> q \<noteq> pg \<longrightarrow> same_page (pmem s) (pmem s') q"
    using kalloc_keeps_tables [OF assms(1,2)] by blast
  have p: "ipath p" "i < 512" using path by (auto simp: ipath_def)
  have a': "tbl (pmem s') root p = Some a" using a same p(1) by simp
  have "page_aligned a" "a \<noteq> pg" using pt_invD [OF k(6) p(1) a'] k(2) by auto
  then have free': "ld64 (pmem s') (entry a i) AND PTE_V = 0"
    using free keep ld64_entry_same_page [OF _ p(2)] by metis
  have "pt_inv kend F (pmem s) root" using st by (simp add: pt_state_def)
  then have g: "grows root F s F s'" by (rule grows_same [OF same lf, rotated]) (use keep k(2) in blast)
  define s'' where "s'' = s'\<lparr>pmem := st64 (entry a i) (PA2PTE pg OR PTE_V) (pmem s')\<rparr>"
  note ext = grows_extend [OF k(5,6) path a' free' k(2,4,7) s''_def low]
  have "grows root F s (F - {pg}) s''" using g ext(2) by (rule grows_trans)
  note facts = k(1,2,3) s''_def ext(1,3) this
  show ?thesis
    by (intro exI [of _ pg] exI [of _ s'] exI [of _ s''] conjI) (fact facts)+
qed

lemma PX_top: "va < MAXVA \<Longrightarrow> unat (PX 2 va) < 256"
  by (simp add: unat_PX word_less_nat_alt less_mult_imp_div_less mod_less)

lemma walk_loop_alloc:
  assumes "l \<le> 2" and "pt_state kend F root s" and "tbl (pmem s) root (take (2 - l) (va_path va)) = Some b"
    and "l \<le> card F" and "va < MAXVA"
  shows "\<exists>t s' F'. walk_loop l b va True s = Some (entry t (unat (PX 0 va)), s') \<and>
           tbl (pmem s') root (va_path va) = Some t \<and> grows root F s F' s' \<and>
           pt_state kend F' root s' \<and> card F \<le> card F' + l"
  using assms
proof (induction l arbitrary: b s F)
  case 0
  then show ?case using grows_refl by (force simp: va_path_def entry_def)
next
  case (Suc l)
  let ?p = "take (2 - Suc l) (va_path va)" and ?i = "unat (PX (Suc l) va)"
  have snoc: "take (2 - l) (va_path va) = ?p @ [?i]"
    using Suc.prems(1) by (cases l) (auto simp: va_path_def numeral_2_eq_2 take_Suc_conv_app_nth)
  show ?case
  proof (cases "ld64 (pmem s) (entry b ?i) AND PTE_V = 0")
    case False
    then have "tbl (pmem s) root (take (2 - l) (va_path va)) = Some (PTE2PA (ld64 (pmem s) (entry b ?i)))"
      using Suc.prems(3) unfolding snoc by (simp add: tbl_snoc)
    from Suc.IH [OF _ Suc.prems(2) this _ Suc.prems(5)] Suc.prems(1,4) False show ?thesis
      by (fastforce simp: entry_PX Let_def simp del: One_nat_def)
  next
    case True
    have path: "ipath (?p @ [?i])"
      using ipath_va [of va] Suc.prems(1) PX_less unfolding ipath_def by (auto dest: in_set_takeD)
    have ne: "F \<noteq> {}" using Suc.prems(4) by auto
    have low: "?p = [] \<longrightarrow> ?i < 256" using PX_top [OF Suc.prems(5)] Suc.prems(1) by (cases l) (auto simp: va_path_def numeral_2_eq_2)
    obtain pg s1 s2 where k: "kalloc s = Some (pg, s1)" "pg \<noteq> 0" "pg \<in> F"
        "s2 = s1\<lparr>pmem := st64 (entry b ?i) (PA2PTE pg OR PTE_V) (pmem s1)\<rparr>"
        "tbl (pmem s2) root (?p @ [?i]) = Some pg" "grows root F s (F - {pg}) s2"
        "pt_state kend (F - {pg}) root s2"
      using kalloc_grows [OF Suc.prems(2) ne path Suc.prems(3) True low] by blast
    have "finite F" using Suc.prems(4) card.infinite by fastforce
    then have card: "card F = Suc (card (F - {pg}))" using k(3) by (rule card.remove)
    from Suc.IH [OF _ k(7) k(5) [folded snoc] _ Suc.prems(5)] obtain t s' F' where
      "walk_loop l pg va True s2 = Some (entry t (unat (PX 0 va)), s')"
      "tbl (pmem s') root (va_path va) = Some t" "grows root (F - {pg}) s2 F' s'"
      "pt_state kend F' root s'"
      "card (F - {pg}) \<le> card F' + l"
      using Suc.prems(1,4) card by auto
    moreover from this have "grows root F s F' s'" using grows_trans [OF k(6)] by blast
    ultimately show ?thesis
      using True k(1,2) card by (auto simp: entry_PX Let_def k(4) [symmetric] simp del: One_nat_def)
  qed
qed

lemma walk_loop_lookup:
  "l \<le> 2 \<Longrightarrow> walk_loop l b va False s =
     Some (case tbl (pmem s) b (drop (2 - l) (va_path va)) of
             None \<Rightarrow> 0 | Some t \<Rightarrow> entry t (unat (PX 0 va)), s)"
proof (induction l arbitrary: b)
  case 0
  then show ?case by (simp add: va_path_def entry_def)
next
  case (Suc l)
  have "drop (2 - Suc l) (va_path va) = unat (PX (Suc l) va) # drop (2 - l) (va_path va)"
    using Suc.prems by (cases l) (auto simp: va_path_def numeral_2_eq_2)
  then show ?case using Suc by (simp add: entry_PX Let_def del: One_nat_def)
qed

lemma walk_lookup:
  "va < MAXVA \<Longrightarrow> walk root va False s =
     Some (case tbl (pmem s) root (va_path va) of
             None \<Rightarrow> 0 | Some t \<Rightarrow> entry t (unat (PX 0 va)), s)"
  using walk_loop_lookup [of 2 root va s] by (simp add: walk_def)

lemma walk_alloc:
  assumes "pt_state kend F root s" and "va < MAXVA" and "2 \<le> card F"
  shows "\<exists>t s' F'. walk root va True s = Some (entry t (unat (PX 0 va)), s') \<and>
           tbl (pmem s') root (va_path va) = Some t \<and> grows root F s F' s' \<and>
           pt_state kend F' root s' \<and> card F \<le> card F' + 2"
  using walk_loop_alloc [OF order_refl assms(1) _ _ assms(2), of root] assms(2,3) by (simp add: walk_def)

lemma entry_nonzero:
  assumes "pt_inv kend F m root" and "tbl m root p = Some t" and "ipath p" and "i < 512"
  shows "entry t i \<noteq> 0"
proof -
  have t: "page_aligned t" "t \<noteq> 0" using pt_invD [OF assms(1,3,2)] by (auto simp: kpage_def)
  have "unat (entry t i) = unat t + 8 * i"
    unfolding entry_def using t assms(4) by (subst unat_page_offset) simp_all
  moreover have "unat t \<noteq> 0" using t(2) by (simp add: unat_eq_0)
  ultimately show ?thesis by auto
qed

lemma walkaddr_eq:
  assumes "pt_inv kend F (pmem s) root"
  shows "walkaddr root va s =
    Some (if va < MAXVA \<and> leaf (pmem s) root va AND PTE_V \<noteq> 0 \<and> leaf (pmem s) root va AND PTE_U \<noteq> 0
          then PTE2PA (leaf (pmem s) root va) else 0, s)"
  using entry_nonzero [OF assms _ ipath_va PX_less]
  by (cases "tbl (pmem s) root (va_path va)") (auto simp: walkaddr_def walk_lookup leaf_def not_le)

section \<open>\<open>mappages\<close>\<close>

lemma grows_outside: "grows root F s F' s' \<Longrightarrow> outside_kept root F s s'"
  by (simp add: grows_def)

lemma store_leaf:
  assumes st: "pt_state kend F root s" and t: "tbl (pmem s) root (va_path va) = Some t" and va: "va < MAXVA"
    and s': "s' = s\<lparr>pmem := st64 (entry t (unat (PX 0 va))) v (pmem s)\<rparr>"
  shows "pt_state kend F root s'" "outside_kept root F s s'"
    "va' < MAXVA \<Longrightarrow> leaf (pmem s') root va' =
       (if PGROUNDDOWN va' = PGROUNDDOWN va then v else leaf (pmem s) root va')"
proof -
  have inv: "pt_inv kend F (pmem s) root" and av: "kavail kend F s" using st by (auto simp: pt_state_def)
  have m': "pmem s' = st64 (entry t (unat (PX 0 va))) v (pmem s)" by (simp add: s')
  note store = pt_store_leaf [OF inv t m']
  have al: "page_aligned t" "t \<notin> F" using pt_invD [OF inv ipath_va t] by auto
  have keep: "same_page (pmem s) (pmem s') q" if "page_aligned q" "q \<noteq> t" for q
    unfolding m' using al that PX_less by (intro entry_same_page) auto
  have "page_aligned x \<and> x \<noteq> t" if "x \<in> F" for x
    using kal.avail_page [OF av that] al that by (auto simp: kpage_def)
  then have "kavail kend F s'"
    unfolding s' using keep [unfolded m'] by (intro kal.avail_put [OF av]) blast
  then show "pt_state kend F root s'" using store(1) by (simp add: pt_state_def)
  have "t \<in> tables (pmem s) root" unfolding tables_def using t ipath_va by blast
  moreover have "tables (pmem s') root = tables (pmem s) root" using store(2) by (auto simp: tables_def)
  moreover have "table_links (pmem s') root" if "table_links (pmem s) root"
  proof (rule table_links_cong [OF that store(2)])
    fix p b assume p: "length p < 2" "ipath p" "tbl (pmem s) root p = Some b"
    then have "b \<noteq> t" using pt_inv_inject [OF inv p(2) ipath_va p(3)] t by (auto simp: va_path_def)
    then show "same_page (pmem s) (pmem s') b" using keep pt_invD(2) [OF inv p(2,3)] by blast
  qed
  ultimately show "outside_kept root F s s'" unfolding outside_kept_def using keep by blast
  show "va' < MAXVA \<Longrightarrow> leaf (pmem s') root va' =
       (if PGROUNDDOWN va' = PGROUNDDOWN va then v else leaf (pmem s) root va')"
    using store(3) [OF va] .
qed

lemma page_next:
  assumes "page_aligned a" and "page_aligned x" and "a \<le> x" and "x \<noteq> a" and "unat a < 0x4000000000"
  shows "a + 4096 \<le> x"
proof -
  obtain k l where k: "unat a = 4096 * k" and l: "unat x = 4096 * l"
    using assms(1,2) unfolding page_aligned_unat by (metis mod_0_imp_dvd dvdE)
  have "unat a \<noteq> unat x" using assms(4) by (metis unsigned_word_eqI)
  then have "k < l" using assms(3) k l by (simp add: word_le_nat_alt)
  then have "unat a + 4096 \<le> unat x" using k l by simp
  moreover have "unat (a + 4096) = unat a + 4096" using assms(5) by (subst unat_plus_no_wrap) simp_all
  ultimately show ?thesis by (simp add: word_le_nat_alt)
qed

lemma mappages_step:
  assumes st: "pt_state kend F root s" and a: "page_aligned a" "a < MAXVA" and room: "2 \<le> card F"
    and free: "leaf (pmem s) root a AND PTE_V = 0"
  shows "\<exists>s' F'. pt_state kend F' root s' \<and> F' \<subseteq> F \<and> card F \<le> card F' + 2 \<and> outside_kept root F s s' \<and>
           (\<forall>va<MAXVA. leaf (pmem s') root va =
              (if PGROUNDDOWN va = a then PA2PTE pa OR scast perm OR PTE_V else leaf (pmem s) root va)) \<and>
           mappages_loop root a lasta pa perm s =
             (if a = lasta then Some (0, s')
              else mappages_loop root (a + PGSIZE) lasta (pa + PGSIZE) perm s')"
proof -
  obtain t s1 F' where w: "walk root a True s = Some (entry t (unat (PX 0 a)), s1)"
      "tbl (pmem s1) root (va_path a) = Some t" "grows root F s F' s1" "pt_state kend F' root s1"
      "card F \<le> card F' + 2"
    using walk_alloc [OF st a(2) room] by blast
  have lf: "leaf (pmem s1) root va = leaf (pmem s) root va" for va using w(3) by (simp add: grows_def)
  have sub: "F' \<subseteq> F" using w(3) by (simp add: grows_def)
  have e0: "entry t (unat (PX 0 a)) \<noteq> 0"
    using w(4) entry_nonzero [OF _ w(2) ipath_va PX_less] by (auto simp: pt_state_def)
  have ev: "ld64 (pmem s1) (entry t (unat (PX 0 a))) AND PTE_V = 0"
    using free lf [of a] w(2) by (simp add: leaf_def)
  define s' where "s' = s1\<lparr>pmem := st64 (entry t (unat (PX 0 a))) (PA2PTE pa OR scast perm OR PTE_V) (pmem s1)\<rparr>"
  note store = store_leaf [OF w(4,2) a(2) s'_def]
  have "outside_kept root F s s'"
    using grows_outside [OF w(3)] store(2) sub by (rule outside_trans)
  moreover have "mappages_loop root a lasta pa perm s =
             (if a = lasta then Some (0, s')
              else mappages_loop root (a + PGSIZE) lasta (pa + PGSIZE) perm s')"
    unfolding s'_def by (subst mappages_loop.simps) (simp add: w(1) e0 ev)
  moreover have "PGROUNDDOWN a = a" using a(1) by (rule PGROUNDDOWN_id)
  ultimately show ?thesis using store(1,3) w(5) sub lf by (intro exI [of _ s'] exI [of _ F']) auto
qed

definition page_range :: "u64 \<Rightarrow> u64 \<Rightarrow> u64 \<Rightarrow> bool" where
  "page_range a lasta va \<longleftrightarrow> a \<le> PGROUNDDOWN va \<and> PGROUNDDOWN va \<le> lasta"

lemma page_range_step:
  assumes "page_aligned a" and "a < MAXVA" and "a \<le> lasta"
  shows "page_range a lasta va \<longleftrightarrow> PGROUNDDOWN va = a \<or> page_range (a + 4096) lasta va"
proof -
  have u: "unat (a + 4096) = unat a + 4096"
    using assms(2) by (subst unat_plus_no_wrap) (simp_all add: word_less_nat_alt)
  have "page_aligned (PGROUNDDOWN va)" by (simp add: page_aligned_unat unat_PGROUNDDOWN)
  then have "a + 4096 \<le> PGROUNDDOWN va" if "a \<le> PGROUNDDOWN va" "PGROUNDDOWN va \<noteq> a"
    using page_next [OF assms(1)] that assms(2) by (simp add: word_less_nat_alt)
  then show ?thesis using u assms(3) by (auto simp: page_range_def word_le_nat_alt)
qed

lemma mappages_loop_maps:
  assumes "pt_state kend F root s" and "page_aligned a" and "unat a + 4096 * n < 0x4000000000"
    and "2 * Suc n \<le> card F" and "lasta = a + of_nat (4096 * n)"
    and "\<forall>va<MAXVA. page_range a lasta va \<longrightarrow> leaf (pmem s) root va AND PTE_V = 0"
  shows "\<exists>s' F'. mappages_loop root a lasta pa perm s = Some (0, s') \<and> pt_state kend F' root s' \<and>
           F' \<subseteq> F \<and> card F \<le> card F' + 2 * Suc n \<and> outside_kept root F s s' \<and>
           (\<forall>va<MAXVA. leaf (pmem s') root va =
              (if page_range a lasta va then PA2PTE (pa + (PGROUNDDOWN va - a)) OR scast perm OR PTE_V
               else leaf (pmem s) root va))"
  using assms
proof (induction n arbitrary: a pa s F)
  case 0
  have a: "a < MAXVA" using 0(3) by (simp add: word_less_nat_alt)
  have "page_range a a a" using 0(2) by (simp add: page_range_def PGROUNDDOWN_id)
  then have "leaf (pmem s) root a AND PTE_V = 0" using 0(5,6) a by simp
  then obtain s' F' where "pt_state kend F' root s'" "F' \<subseteq> F" "card F \<le> card F' + 2" "outside_kept root F s s'"
      "\<forall>va<MAXVA. leaf (pmem s') root va =
         (if PGROUNDDOWN va = a then PA2PTE pa OR scast perm OR PTE_V else leaf (pmem s) root va)"
      "mappages_loop root a lasta pa perm s = Some (0, s')"
    using mappages_step [OF 0(1,2) a, of pa perm lasta] 0(4,5) by auto
  then show ?case using 0(5) by (intro exI [of _ s'] exI [of _ F']) (auto simp: page_range_def)
next
  case (Suc n)
  have a: "a < MAXVA" using Suc.prems(3) by (simp add: word_less_nat_alt)
  have u: "unat (a + 4096) = unat a + 4096"
    using Suc.prems(3) by (subst unat_plus_no_wrap) simp_all
  have un: "unat (of_nat (4096 * Suc n) :: u64) = 4096 * Suc n"
    by (rule unat_of_nat_small) (use Suc.prems(3) in simp)
  have ul: "unat lasta = unat a + 4096 * Suc n"
    using Suc.prems(3) unfolding Suc.prems(5) by (subst unat_plus_no_wrap) (simp_all only: un, simp)
  then have le: "a \<le> lasta" "a \<noteq> lasta" by (auto simp: word_le_nat_alt)
  have range: "page_range a lasta va \<longleftrightarrow> PGROUNDDOWN va = a \<or> page_range (a + 4096) lasta va" for va
    by (rule page_range_step [OF Suc.prems(2) a le(1)])
  have "leaf (pmem s) root a AND PTE_V = 0"
    using Suc.prems(2,6) a range [of a] by (simp add: PGROUNDDOWN_id)
  then obtain s1 F1 where step: "pt_state kend F1 root s1" "F1 \<subseteq> F" "card F \<le> card F1 + 2"
      "outside_kept root F s s1"
      "\<forall>va<MAXVA. leaf (pmem s1) root va =
         (if PGROUNDDOWN va = a then PA2PTE pa OR scast perm OR PTE_V else leaf (pmem s) root va)"
      "mappages_loop root a lasta pa perm s = mappages_loop root (a + PGSIZE) lasta (pa + PGSIZE) perm s1"
    using mappages_step [OF Suc.prems(1,2) a, of pa perm lasta] Suc.prems(4) le(2) by auto
  have not_a: "PGROUNDDOWN va \<noteq> a" if "page_range (a + 4096) lasta va" for va
    using that u by (auto simp: page_range_def word_le_nat_alt)
  have al: "page_aligned (a + 4096)"
    using Suc.prems(2) unfolding page_aligned_unat u by (simp add: mod_add_eq [symmetric])
  have lasta: "lasta = a + 4096 + of_nat (4096 * n)" using Suc.prems(5) by simp
  have "\<forall>va<MAXVA. page_range (a + 4096) lasta va \<longrightarrow> leaf (pmem s1) root va AND PTE_V = 0"
    using step(5) Suc.prems(6) range not_a by auto
  from Suc.IH [OF step(1) al _ _ lasta this, of "pa + PGSIZE"] obtain s' F' where rec:
    "mappages_loop root (a + PGSIZE) lasta (pa + PGSIZE) perm s1 = Some (0, s')" "pt_state kend F' root s'"
    "F' \<subseteq> F1" "card F1 \<le> card F' + 2 * Suc n" "outside_kept root F1 s1 s'"
    "\<forall>va<MAXVA. leaf (pmem s') root va =
       (if page_range (a + 4096) lasta va
        then PA2PTE (pa + PGSIZE + (PGROUNDDOWN va - (a + 4096))) OR scast perm OR PTE_V
        else leaf (pmem s1) root va)"
    using Suc.prems(3,4) step(3) u by auto
  have "outside_kept root F s s'" using step(4) rec(5) step(2) by (rule outside_trans)
  then show ?case
    using step rec range not_a by (intro exI [of _ s'] exI [of _ F']) auto
qed

text \<open>The whole call: the pages from the one of \<open>va\<close> to the one of \<open>va + sz - 1\<close>.\<close>

lemma mappages_maps:
  assumes st: "pt_state kend F root s" and sz: "0 < sz" "unat va + unat sz \<le> 0x4000000000"
    and room: "2 * Suc (unat sz div 4096 + 1) \<le> card F"
    and lasta: "lasta = PGROUNDDOWN (va + sz - 1)"
    and free: "\<forall>v<MAXVA. page_range (PGROUNDDOWN va) lasta v \<longrightarrow> leaf (pmem s) root v AND PTE_V = 0"
  shows "\<exists>s' F'. mappages root va sz pa perm s = Some (0, s') \<and> pt_state kend F' root s' \<and> F' \<subseteq> F \<and>
           outside_kept root F s s' \<and>
           (\<forall>v<MAXVA. leaf (pmem s') root v =
              (if page_range (PGROUNDDOWN va) lasta v
               then PA2PTE (pa + (PGROUNDDOWN v - PGROUNDDOWN va)) OR scast perm OR PTE_V
               else leaf (pmem s) root v))"
proof -
  let ?a = "PGROUNDDOWN va"
  define n where "n = (unat va + unat sz - 1) div 4096 - unat va div 4096"
  have sz0: "0 < unat sz" using sz(1) by (simp add: word_less_nat_alt)
  have ua: "unat ?a = unat va div 4096 * 4096" by (rule unat_PGROUNDDOWN)
  have plus: "unat (va + sz) = unat va + unat sz" using sz by (subst unat_plus_no_wrap) simp_all
  have "1 \<le> va + sz" using plus sz0 by (simp add: word_le_nat_alt)
  then have "unat (va + sz - 1) = unat va + unat sz - 1" using plus by (simp add: unat_sub)
  then have ul: "unat lasta = (unat va + unat sz - 1) div 4096 * 4096"
    unfolding lasta unat_PGROUNDDOWN by simp
  have "unat va div 4096 \<le> (unat va + unat sz - 1) div 4096" using sz0 by (intro div_le_mono) simp
  then have n: "unat ?a + 4096 * n = unat lasta" unfolding ua ul n_def by linarith
  have lt: "unat lasta < 0x4000000000" using sz(2) sz0 unfolding ul by simp
  have "of_nat (unat ?a + 4096 * n) = (of_nat (unat lasta) :: u64)" using n by simp
  then have lasta': "lasta = ?a + of_nat (4096 * n)" by simp
  have "n \<le> unat sz div 4096 + 1" using n sz0 unfolding ua ul by linarith
  then have room': "2 * Suc n \<le> card F" using room by simp
  have al: "page_aligned ?a" by (simp add: page_aligned_unat unat_PGROUNDDOWN)
  show ?thesis
    using mappages_loop_maps [OF st al _ room' lasta' free, of pa perm] lt n sz(1) lasta
    by (auto simp: mappages_def)
qed

section \<open>\<open>uvm_unmap\<close>\<close>

definition pages :: "u64 \<Rightarrow> nat \<Rightarrow> u64 set" where
  "pages a n = (\<lambda>k. a + of_nat (4096 * k)) ` {..<n}"

lemma pages_0 [simp]: "pages a 0 = {}"
  by (simp add: pages_def)

lemma pages_Suc: "pages a (Suc n) = insert a (pages (a + 4096) n)"
  by (simp add: pages_def lessThan_Suc_eq_insert_0 image_image add.assoc)

lemma kfree_keeps_tables:
  assumes st: "pt_state kend F root s" and pa: "kpage kend pa" "pa \<notin> F" "pa \<notin> tables (pmem s) root"
  shows "\<exists>s'. kfree kend pa s = Some s' \<and> pt_state kend (insert pa F) root s' \<and>
           (\<forall>q. ipath q \<longrightarrow> tbl (pmem s') root q = tbl (pmem s) root q) \<and>
           (\<forall>va. leaf (pmem s') root va = leaf (pmem s) root va) \<and> outside_kept root (insert pa F) s s'"
proof -
  have inv: "pt_inv kend F (pmem s) root" and av: "kavail kend F s" using st by (auto simp: pt_state_def)
  obtain s' where k: "kfree kend pa s = Some s'" "kavail kend (insert pa F) s'"
      "\<forall>q. page_aligned q \<longrightarrow> q \<noteq> pa \<longrightarrow> same_page (pmem s) (pmem s') q"
    using kal.free_ok [OF av pa(1,2)] by blast
  have keep: "same_page (pmem s) (pmem s') b" if "ipath q" "tbl (pmem s) root q = Some b" for q b
    using pt_invD [OF inv that] k(3) pa(3) that by (auto simp: tables_def)
  have same: "tbl (pmem s') root q = tbl (pmem s) root q" if "ipath q" for q
    by (rule tbl_cong [OF _ that]) (rule keep)
  have inv': "pt_inv kend F (pmem s') root" by (rule pt_inv_cong(1) [OF inv order_refl]) (rule keep)
  have "leaf (pmem s') root va = leaf (pmem s) root va" for va
    by (rule pt_inv_cong(2) [OF inv order_refl]) (rule keep)
  moreover have "pt_inv kend (insert pa F) (pmem s') root"
    using inv' pa(3) same unfolding pt_inv_def tables_def by auto
  moreover have "table_links (pmem s') root" if "table_links (pmem s) root" by (rule table_links_cong [OF that same keep]) auto
  then have "outside_kept root (insert pa F) s s'" using k(3) same by (auto simp: outside_kept_def tables_def)
  ultimately show ?thesis using k(1,2) same by (auto simp: pt_state_def)
qed

definition unmappable :: "u64 \<Rightarrow> u64 set \<Rightarrow> u64 \<Rightarrow> bool \<Rightarrow> kmem \<Rightarrow> u64 \<Rightarrow> bool" where
  "unmappable kend F root free s a \<longleftrightarrow>
     (let e = leaf (pmem s) root a
      in e AND PTE_V \<noteq> 0 \<and> PTE_FLAGS e \<noteq> PTE_V \<and>
         (free \<longrightarrow> kpage kend (PTE2PA e) \<and> PTE2PA e \<notin> F \<and> PTE2PA e \<notin> tables (pmem s) root))"

lemma unmap_step:
  assumes st: "pt_state kend F root s" and a: "page_aligned a" "a < MAXVA" "a < lasta"
    and ok: "unmappable kend F root free s a"
  shows "\<exists>s'. uvm_unmap_loop kend root a lasta free s = uvm_unmap_loop kend root (a + PGSIZE) lasta free s' \<and>
           pt_state kend (if free then insert (PTE2PA (leaf (pmem s) root a)) F else F) root s' \<and>
           tables (pmem s') root = tables (pmem s) root \<and>
           (\<forall>va<MAXVA. leaf (pmem s') root va = (if PGROUNDDOWN va = a then 0 else leaf (pmem s) root va)) \<and>
           outside_kept root (if free then insert (PTE2PA (leaf (pmem s) root a)) F else F) s s'"
proof -
  let ?F = "if free then insert (PTE2PA (leaf (pmem s) root a)) F else F"
  define e where "e = leaf (pmem s) root a"
  have e: "e AND PTE_V \<noteq> 0" "PTE_FLAGS e \<noteq> PTE_V" using ok by (auto simp: unmappable_def e_def Let_def)
  then obtain t where t: "tbl (pmem s) root (va_path a) = Some t"
    by (cases "tbl (pmem s) root (va_path a)") (auto simp: leaf_def e_def)
  define pte where "pte = entry t (unat (PX 0 a))"
  have ld: "ld64 (pmem s) pte = e" using t by (simp add: e_def leaf_def pte_def)
  have w: "walk root a False s = Some (pte, s)" using t a(2) by (simp add: walk_lookup pte_def)
  have nz: "pte \<noteq> 0"
    unfolding pte_def using st entry_nonzero [OF _ t ipath_va PX_less] by (auto simp: pt_state_def)
  obtain s1 where s1: "(if free then kfree kend (PTE2PA e) s else Some s) = Some s1"
      "pt_state kend ?F root s1" "\<forall>q. ipath q \<longrightarrow> tbl (pmem s1) root q = tbl (pmem s) root q"
      "\<forall>va. leaf (pmem s1) root va = leaf (pmem s) root va" "outside_kept root ?F s s1"
    using st ok kfree_keeps_tables [OF st, of "PTE2PA e"]
    by (cases free) (auto simp: unmappable_def e_def Let_def)
  have t1: "tbl (pmem s1) root (va_path a) = Some t" using s1(3) t by simp
  define s' where "s' = s1\<lparr>pmem := st64 pte 0 (pmem s1)\<rparr>"
  note store = store_leaf [OF s1(2) t1 a(2) s'_def [unfolded pte_def]]
  have tb: "tables (pmem s') root = tables (pmem s) root"
  proof -
    have "pt_inv kend ?F (pmem s1) root" using s1(2) by (simp add: pt_state_def)
    from pt_store_leaf(2) [OF this t1 refl, of _ 0]
    have "tbl (pmem s') root q = tbl (pmem s1) root q" if "ipath q" for q
      using that by (simp add: s'_def pte_def)
    then show ?thesis using s1(3) by (auto simp: tables_def)
  qed
  have "uvm_unmap_loop kend root a lasta free s = uvm_unmap_loop kend root (a + PGSIZE) lasta free s'"
  proof (cases free)
    case True
    then have "kfree kend (PTE2PA e) s = Some s1" using s1(1) by simp
    then show ?thesis
      using True a(3) nz e by (subst uvm_unmap_loop.simps) (simp add: w ld Let_def s'_def)
  next
    case False
    then have "s1 = s" using s1(1) by simp
    then show ?thesis
      using False a(3) nz e by (subst uvm_unmap_loop.simps) (simp add: w ld Let_def s'_def)
  qed
  moreover have "outside_kept root ?F s s'" using s1(5) store(2) order_refl by (rule outside_trans)
  ultimately show ?thesis using store(1,3) s1(4) PGROUNDDOWN_id [OF a(1)] tb by auto
qed

definition frames :: "u64 \<Rightarrow> kmem \<Rightarrow> u64 set \<Rightarrow> u64 set" where
  "frames root s A = (\<lambda>a. PTE2PA (leaf (pmem s) root a)) ` A"

lemma pages_unat:
  assumes "p \<in> pages a n" and "unat a + 4096 * n \<le> 0x4000000000"
  shows "\<exists>k<n. unat p = unat a + 4096 * k"
proof -
  obtain k where k: "k < n" "p = a + of_nat (4096 * k)" using assms(1) by (auto simp: pages_def)
  have un: "unat (of_nat (4096 * k) :: u64) = 4096 * k"
    by (rule unat_of_nat_small) (use assms(2) k(1) in simp)
  have "unat p = unat a + 4096 * k"
    unfolding k(2) using assms(2) k(1) by (subst unat_plus_no_wrap) (simp_all only: un, simp)
  with k(1) show ?thesis by blast
qed

lemma pages_next:
  assumes "page_aligned a" and "unat a + 4096 * Suc n \<le> 0x4000000000" and "p \<in> pages (a + 4096) n"
  shows "p \<noteq> a" "PGROUNDDOWN p = p" "p < MAXVA"
proof -
  have u: "unat (a + 4096) = unat a + 4096" using assms(2) by (subst unat_plus_no_wrap) simp_all
  obtain k where k: "k < n" "unat p = unat a + 4096 + 4096 * k"
    using pages_unat [OF assms(3)] assms(2) unfolding u by auto
  show "p \<noteq> a" using k by auto
  show "p < MAXVA" using k assms(2) by (simp add: word_less_nat_alt)
  have "page_aligned p" using assms(1) k(2) by (simp add: page_aligned_unat mod_add_eq [symmetric])
  then show "PGROUNDDOWN p = p" by (rule PGROUNDDOWN_id)
qed

lemma unmap_loop_unmaps:
  assumes "pt_state kend F root s" and "page_aligned a" and "unat a + 4096 * n \<le> 0x4000000000"
    and "lasta = a + of_nat (4096 * n)" and "\<forall>p\<in>pages a n. unmappable kend F root free s p"
    and "free \<longrightarrow> inj_on (\<lambda>p. PTE2PA (leaf (pmem s) root p)) (pages a n)"
  shows "\<exists>s'. uvm_unmap_loop kend root a lasta free s = Some s' \<and>
           pt_state kend (if free then F \<union> frames root s (pages a n) else F) root s' \<and>
           tables (pmem s') root = tables (pmem s) root \<and>
           (\<forall>va<MAXVA. leaf (pmem s') root va =
              (if PGROUNDDOWN va \<in> pages a n then 0 else leaf (pmem s) root va)) \<and>
           outside_kept root (if free then F \<union> frames root s (pages a n) else F) s s'"
  using assms
proof (induction n arbitrary: a s F)
  case 0
  then show ?case by (simp add: uvm_unmap_loop.simps frames_def)
next
  case (Suc n)
  have a: "a < MAXVA" using Suc.prems(3) by (simp add: word_less_nat_alt)
  have u: "unat (a + 4096) = unat a + 4096"
    using Suc.prems(3) by (subst unat_plus_no_wrap) simp_all
  have un: "unat (of_nat (4096 * Suc n) :: u64) = 4096 * Suc n"
    by (rule unat_of_nat_small) (use Suc.prems(3) in simp)
  have "unat lasta = unat a + 4096 * Suc n"
    using Suc.prems(3) unfolding Suc.prems(4) by (subst unat_plus_no_wrap) (simp_all only: un, simp)
  then have lt: "a < lasta" by (simp add: word_less_nat_alt)
  note next_pages = pages_next [OF Suc.prems(2,3)]
  let ?F = "if free then insert (PTE2PA (leaf (pmem s) root a)) F else F"
  obtain s1 where s1: "uvm_unmap_loop kend root a lasta free s = uvm_unmap_loop kend root (a + PGSIZE) lasta free s1"
      "pt_state kend ?F root s1" "tables (pmem s1) root = tables (pmem s) root"
      "\<forall>va<MAXVA. leaf (pmem s1) root va = (if PGROUNDDOWN va = a then 0 else leaf (pmem s) root va)" "outside_kept root ?F s s1"
    using unmap_step [OF Suc.prems(1,2) a lt, of free] Suc.prems(5) unfolding pages_Suc by blast
  have lf: "leaf (pmem s1) root p = leaf (pmem s) root p" if "p \<in> pages (a + 4096) n" for p
    using s1(4) next_pages [OF that] by auto
  have fr: "frames root s1 (pages (a + 4096) n) = frames root s (pages (a + 4096) n)"
    unfolding frames_def by (rule image_cong [OF refl]) (simp add: lf)
  have "PTE2PA (leaf (pmem s) root p) \<noteq> PTE2PA (leaf (pmem s) root a)"
    if "free" "p \<in> pages (a + 4096) n" for p
  proof
    assume eq: "PTE2PA (leaf (pmem s) root p) = PTE2PA (leaf (pmem s) root a)"
    have "inj_on (\<lambda>p. PTE2PA (leaf (pmem s) root p)) (insert a (pages (a + 4096) n))"
      using Suc.prems(6) that(1) by (simp only: pages_Suc)
    from inj_onD [OF this, of p a] eq that(2) have "p = a" by simp
    then show False using next_pages(1) [OF that(2)] by contradiction
  qed
  then have ok: "\<forall>p\<in>pages (a + 4096) n. unmappable kend ?F root free s1 p"
    using Suc.prems(5) unfolding pages_Suc by (auto simp: unmappable_def lf s1(3) Let_def)
  have inj: "free \<longrightarrow> inj_on (\<lambda>p. PTE2PA (leaf (pmem s1) root p)) (pages (a + 4096) n)"
    using Suc.prems(6) unfolding pages_Suc by (auto simp: inj_on_def lf)
  have al: "page_aligned (a + 4096)"
    using Suc.prems(2) unfolding page_aligned_unat u by (simp add: mod_add_eq [symmetric])
  have lasta: "lasta = a + 4096 + of_nat (4096 * n)" using Suc.prems(4) by simp
  have bound: "unat (a + 4096) + 4096 * n \<le> 0x4000000000" unfolding u using Suc.prems(3) by simp
  obtain s' where s':
    "uvm_unmap_loop kend root (a + 4096) lasta free s1 = Some s'"
    "pt_state kend (if free then ?F \<union> frames root s (pages (a + 4096) n) else ?F) root s'"
    "tables (pmem s') root = tables (pmem s1) root"
    "\<forall>va<MAXVA. leaf (pmem s') root va =
        (if PGROUNDDOWN va \<in> pages (a + 4096) n then 0 else leaf (pmem s1) root va)"
    "outside_kept root (if free then ?F \<union> frames root s (pages (a + 4096) n) else ?F) s1 s'"
    using Suc.IH [OF s1(2) al bound lasta ok inj] unfolding fr by blast
  have all: "(if free then ?F \<union> frames root s (pages (a + 4096) n) else ?F) = (if free then F \<union> frames root s (pages a (Suc n)) else F)"
    by (auto simp: pages_Suc frames_def)
  have "outside_kept root (if free then F \<union> frames root s (pages a (Suc n)) else F) s s'"
    by (rule outside_trans [OF outside_mono [OF s1(5)] s'(5) [unfolded all]]) (auto simp: pages_Suc frames_def)
  then show ?case using s1(1,3,4) s'(1-4) unfolding all by (auto simp: pages_Suc)
qed

end
