(* ===== verification/VmCopy.thy ===== *)
theory VmCopy
  imports VmSpec
begin

unbundle bit_operations_syntax

text \<open>
  The copies between the kernel and a user address space, \<open>copy_to_user\<close>, \<open>copy_from_user\<close> and
  \<open>copyin_str\<close>, against a byte-by-byte specification: \<open>uaddr\<close> is the address translation for
  user accesses, and \<open>uaddrs\<close> the physical addresses of the accessible prefix of a user range.
\<close>

section \<open>Address translation for user accesses\<close>

definition uaddr :: "mem \<Rightarrow> u64 \<Rightarrow> u64 \<Rightarrow> u64 option" where
  "uaddr m root va =
     (let e = leaf m root va
      in if va < MAXVA \<and> e AND PTE_V \<noteq> 0 \<and> e AND PTE_U \<noteq> 0 \<and> PTE2PA e \<noteq> 0
         then Some (PTE2PA e + (va - PGROUNDDOWN va)) else None)"

primrec uaddrs :: "mem \<Rightarrow> u64 \<Rightarrow> u64 \<Rightarrow> nat \<Rightarrow> u64 list" where
  "uaddrs m root va 0 = []"
| "uaddrs m root va (Suc n) =
     (case uaddr m root va of None \<Rightarrow> [] | Some p \<Rightarrow> p # uaddrs m root (va + 1) n)"

definition wr :: "u64 list \<Rightarrow> u8 list \<Rightarrow> mem \<Rightarrow> mem" where
  "wr ps bs = fold (\<lambda>(p, b) m. m(p := b)) (zip ps bs)"

lemma in_page:
  assumes "k < 4096 - unat va mod 4096"
  shows "unat (va + of_nat k) = unat va + k" "PGROUNDDOWN (va + of_nat k) = PGROUNDDOWN va"
proof -
  have al: "page_aligned (PGROUNDDOWN va)" by (simp add: page_aligned_unat unat_PGROUNDDOWN)
  have va: "va = PGROUNDDOWN va + of_nat (unat va mod 4096)" by (simp flip: page_offset)
  have sum: "va + of_nat k = PGROUNDDOWN va + of_nat (unat va mod 4096 + k)"
    using arg_cong [OF va, of "\<lambda>x. x + of_nat k"] by (simp only: of_nat_add add.assoc)
  have k: "unat va mod 4096 + k < 4096" using assms by linarith
  show "PGROUNDDOWN (va + of_nat k) = PGROUNDDOWN va"
    unfolding sum by (rule PGROUNDDOWN_offset [OF al k])
  show "unat (va + of_nat k) = unat va + k"
    unfolding sum unat_page_offset [OF al k] by (simp add: unat_PGROUNDDOWN)
qed

lemma MAXVA_page: "PGROUNDDOWN va < MAXVA \<longleftrightarrow> va < MAXVA"
proof -
  have "unat va div 4096 < 0x4000000 \<longleftrightarrow> unat va < 0x4000000 * 4096"
    by (rule div_less_iff_less_mult) simp
  moreover have "unat va div 4096 * 4096 < 0x4000000000 \<longleftrightarrow> unat va div 4096 < 0x4000000" by simp
  ultimately show ?thesis unfolding word_less_nat_alt unat_PGROUNDDOWN by simp
qed

lemma uaddr_in_page:
  assumes "k < 4096 - unat va mod 4096"
  shows "uaddr m root (va + of_nat k) = map_option (\<lambda>p. p + of_nat k) (uaddr m root va)"
proof -
  have "va + of_nat k < MAXVA \<longleftrightarrow> va < MAXVA"
    using in_page(2) [OF assms] by (metis MAXVA_page)
  then show ?thesis
    using in_page(2) [OF assms] leaf_page [OF in_page(2) [OF assms]] by (simp add: uaddr_def Let_def)
qed

lemma uaddrs_in_page:
  assumes "uaddr m root va = Some p" and "n \<le> 4096 - unat va mod 4096"
  shows "uaddrs m root va (n + l) = map (\<lambda>i. p + of_nat i) [0..<n] @ uaddrs m root (va + of_nat n) l"
  using assms(2)
proof (induction n arbitrary: l)
  case (Suc n)
  have "uaddr m root (va + of_nat n) = Some (p + of_nat n)"
    using uaddr_in_page [of n va] Suc.prems assms(1) by simp
  then show ?case using Suc.IH [of "Suc l"] Suc.prems by (simp add: add.assoc add.commute [of 1])
qed simp

lemma walkaddr_uaddr:
  assumes "pt_inv kend F (pmem s) root"
  shows "walkaddr root (PGROUNDDOWN va) s =
    Some (case uaddr (pmem s) root va of None \<Rightarrow> 0 | Some p \<Rightarrow> p - (va - PGROUNDDOWN va), s)"
    "uaddr (pmem s) root va = Some p \<Longrightarrow> p - (va - PGROUNDDOWN va) \<noteq> 0"
proof -
  have idem: "PGROUNDDOWN (PGROUNDDOWN va) = PGROUNDDOWN va"
    by (rule PGROUNDDOWN_id) (simp add: page_aligned_unat unat_PGROUNDDOWN)
  show "walkaddr root (PGROUNDDOWN va) s =
    Some (case uaddr (pmem s) root va of None \<Rightarrow> 0 | Some p \<Rightarrow> p - (va - PGROUNDDOWN va), s)"
    using leaf_page [OF idem] MAXVA_page [of va] by (simp add: walkaddr_eq [OF assms] uaddr_def Let_def)
  show "uaddr (pmem s) root va = Some p \<Longrightarrow> p - (va - PGROUNDDOWN va) \<noteq> 0"
    by (auto simp: uaddr_def Let_def split: if_splits)
qed

text \<open>The address at which a copy goes on after a chunk.\<close>

lemma next_chunk:
  assumes "chunk va len < len"
  shows "PGROUNDDOWN va + PGSIZE = va + of_nat (chunk va len)"
proof -
  have "chunk va len = 4096 - unat va mod 4096" using assms by (simp add: chunk_eq min_def split: if_splits)
  then have "va + of_nat (chunk va len) = PGROUNDDOWN va + of_nat (unat va mod 4096) + (4096 - of_nat (unat va mod 4096))"
    using mod_less_divisor [of 4096 "unat va"] by (simp add: of_nat_diff flip: page_offset)
  then show ?thesis by simp
qed

section \<open>The copies\<close>

lemma copy_from_user_eq:
  assumes "pt_inv kend F (pmem s) root"
  shows "copy_from_user root va len s =
    Some ((if length (uaddrs (pmem s) root va len) = len then 0 else - 1,
           map (pmem s) (uaddrs (pmem s) root va len)), s)"
proof (induction len arbitrary: va rule: less_induct)
  case (less len)
  show ?case
  proof (cases "0 < len")
    case True
    define n where "n = chunk va len"
    have n: "0 < n" "n \<le> len" "n \<le> 4096 - unat va mod 4096"
      using True by (auto simp: n_def chunk_pos) (auto simp: chunk_eq)
    show ?thesis
    proof (cases "uaddr (pmem s) root va")
      case None
      then show ?thesis
        using True by (subst copy_from_user.simps) (cases len; simp add: walkaddr_uaddr [OF assms])
    next
      case (Some p)
      have split: "uaddrs (pmem s) root va len =
          map (\<lambda>i. p + of_nat i) [0..<n] @ uaddrs (pmem s) root (va + of_nat n) (len - n)"
        using uaddrs_in_page [OF Some n(3), of "len - n"] n(2) by simp
      have step: "copy_from_user root (PGROUNDDOWN va + PGSIZE) (len - n) s =
          copy_from_user root (va + of_nat n) (len - n) s"
      proof (cases "n = len")
        case False
        then show ?thesis using next_chunk [of va len] n(2) by (simp add: n_def)
      qed (simp add: copy_from_user.simps)
      have "copy_from_user root va len s =
          do {
            ((r, bs), s) \<leftarrow> copy_from_user root (va + of_nat n) (len - n) s;
            Some ((r, ld_bytes (pmem s) p n @ bs), s)
          }"
        unfolding step [symmetric] using True walkaddr_uaddr(2) [OF assms Some]
        by (subst copy_from_user.simps) (simp add: walkaddr_uaddr(1) [OF assms] Some Let_def flip: n_def)
      moreover have "len - n < len" using n(1) True by simp
      note less.IH [OF this, of "va + of_nat n"]
      ultimately show ?thesis using n(2) by (simp add: split ld_bytes_def comp_def) linarith
    qed
  qed (simp add: copy_from_user.simps)
qed

text \<open>No table page is accessible to the user program.\<close>

definition user_space :: "mem \<Rightarrow> u64 \<Rightarrow> bool" where
  "user_space m root \<longleftrightarrow> (\<forall>va p. uaddr m root va = Some p \<longrightarrow> PGROUNDDOWN p \<notin> tables m root)"

lemma wr_outside: "x \<notin> set ps \<Longrightarrow> wr ps bs m x = m x"
proof (induction ps arbitrary: bs m)
  case (Cons p ps)
  then show ?case by (cases bs) (auto simp: wr_def)
qed (simp add: wr_def)

lemma wr_append: "length ps = length bs \<Longrightarrow> wr (ps @ qs) (bs @ cs) m = wr qs cs (wr ps bs m)"
  by (simp add: wr_def)

lemma wr_inside: "distinct ps \<Longrightarrow> length ps \<le> length bs \<Longrightarrow> i < length ps \<Longrightarrow> wr ps bs m (ps ! i) = bs ! i"
proof (induction ps arbitrary: bs m i)
  case (Cons p ps)
  then obtain b cs where bs: "bs = b # cs" by (cases bs) auto
  have eq: "wr (p # ps) bs m = wr ps cs (m(p := b))" by (simp add: bs wr_def)
  show ?case
  proof (cases i)
    case 0
    then show ?thesis using Cons.prems(1) unfolding eq by (simp add: bs wr_outside)
  next
    case (Suc j)
    then show ?thesis using Cons.IH [of cs j] Cons.prems by (simp only: eq) (simp add: bs)
  qed
qed simp

lemma st_bytes_wr:
  assumes "length bs \<le> 4096"
  shows "st_bytes p bs m = wr (map (\<lambda>i. p + of_nat i) [0..<length bs]) bs m"
proof
  fix x
  let ?ps = "map (\<lambda>i. p + of_nat i) [0..<length bs]"
  have inj: "inj_on (\<lambda>i. p + of_nat i :: u64) {0..<length bs}"
  proof (rule inj_onI)
    fix i j assume ij: "i \<in> {0..<length bs}" "j \<in> {0..<length bs}" "p + of_nat i = p + (of_nat j :: u64)"
    have "unat (of_nat i :: u64) = unat (of_nat j :: u64)" using ij(3) by (simp only: add_left_cancel)
    then show "i = j" using ij(1,2) assms by (simp add: unat_of_nat_small)
  qed
  show "st_bytes p bs m x = wr ?ps bs m x"
  proof (cases "unat (x - p) < length bs")
    case True
    then have "x = ?ps ! unat (x - p)" by simp
    moreover have "wr ?ps bs m (?ps ! unat (x - p)) = bs ! unat (x - p)"
      using True inj by (intro wr_inside) (simp_all add: distinct_map)
    ultimately show ?thesis using True by (simp add: st_bytes_def)
  next
    case False
    have "x \<notin> set ?ps"
    proof
      assume "x \<in> set ?ps"
      then obtain i where "i < length bs" "x = p + of_nat i" by auto
      then show False using False assms by (simp add: unat_of_nat_small)
    qed
    then show ?thesis using False by (simp add: st_bytes_def wr_outside)
  qed
qed

lemma set_uaddrs: "q \<in> set (uaddrs m root va n) \<Longrightarrow> \<exists>va. uaddr m root va = Some q"
  by (induction n arbitrary: va) (auto split: option.splits)

lemma uaddrs_cong: "(\<And>va. uaddr m' root va = uaddr m root va) \<Longrightarrow> uaddrs m' root va n = uaddrs m root va n"
  by (induction n arbitrary: va) (auto split: option.splits)

lemma user_write:
  assumes inv: "pt_inv kend F m root" and us: "user_space m root"
    and ps: "\<forall>q\<in>set ps. \<exists>va. uaddr m root va = Some q"
  shows "pt_inv kend F (wr ps bs m) root" "user_space (wr ps bs m) root"
    "uaddr (wr ps bs m) root va = uaddr m root va"
proof -
  have keep: "same_page m (wr ps bs m) b" if b: "ipath q" "tbl m root q = Some b" for q b
    unfolding same_page_def
  proof (intro allI impI wr_outside notI)
    fix k assume k: "k < 4096" "b + of_nat k \<in> set ps"
    then have "PGROUNDDOWN (b + of_nat k) \<notin> tables m root" using ps us by (auto simp: user_space_def)
    then have "b \<notin> tables m root" unfolding PGROUNDDOWN_offset [OF pt_invD(2) [OF inv b] k(1)] .
    then show False using b by (auto simp: tables_def)
  qed
  show inv': "pt_inv kend F (wr ps bs m) root" by (rule pt_inv_cong(1) [OF inv order_refl]) (rule keep)
  have "leaf (wr ps bs m) root va = leaf m root va" for va
    by (rule pt_inv_cong(2) [OF inv order_refl]) (rule keep)
  then have uaddr: "uaddr (wr ps bs m) root va = uaddr m root va" for va by (simp add: uaddr_def)
  then show "uaddr (wr ps bs m) root va = uaddr m root va" .
  have "tbl (wr ps bs m) root q = tbl m root q" if "ipath q" for q
    by (rule tbl_cong [OF _ that]) (rule keep)
  then have "tables (wr ps bs m) root = tables m root" by (auto simp: tables_def)
  then show "user_space (wr ps bs m) root" using us uaddr by (simp add: user_space_def)
qed

lemma copy_to_user_chunk:
  assumes "pt_inv kend F (pmem s) root" and "uaddr (pmem s) root va = Some p" and "src \<noteq> []"
    and n: "n = chunk va (length src)"
  shows "copy_to_user root va src s = copy_to_user root (va + of_nat n) (drop n src)
           (s\<lparr>pmem := wr (map (\<lambda>i. p + of_nat i) [0..<n]) (take n src) (pmem s)\<rparr>)"
proof -
  have le: "n \<le> length src" "n \<le> 4096" by (auto simp: n chunk_eq)
  have w: "st_bytes p (take n src) (pmem s) = wr (map (\<lambda>i. p + of_nat i) [0..<n]) (take n src) (pmem s)"
    using st_bytes_wr [of "take n src" p] le by simp
  have "copy_to_user root (PGROUNDDOWN va + PGSIZE) (drop n src) s' =
      copy_to_user root (va + of_nat n) (drop n src) s'" for s'
  proof (cases "n = length src")
    case False
    then show ?thesis using next_chunk [of va "length src"] le(1) by (simp add: n)
  qed (simp add: copy_to_user.simps)
  then show ?thesis
    using assms(3) walkaddr_uaddr(2) [OF assms(1,2)]
    by (subst copy_to_user.simps)
      (simp add: walkaddr_uaddr(1) [OF assms(1)] assms(2) Let_def w flip: n)
qed

lemma copy_to_user_eq:
  assumes "pt_inv kend F (pmem s) root" and "user_space (pmem s) root"
  shows "copy_to_user root va src s =
    Some (if length (uaddrs (pmem s) root va (length src)) = length src then 0 else - 1,
          s\<lparr>pmem := wr (uaddrs (pmem s) root va (length src)) src (pmem s)\<rparr>)"
  using assms
proof (induction "length src" arbitrary: va src s rule: less_induct)
  case less
  consider "src = []" | "src \<noteq> []" "uaddr (pmem s) root va = None"
    | p where "src \<noteq> []" "uaddr (pmem s) root va = Some p"
    by (cases "uaddr (pmem s) root va") auto
  then show ?case
  proof cases
    case 2
    then show ?thesis
      by (subst copy_to_user.simps) (cases src; simp add: walkaddr_uaddr [OF less.prems(1)] wr_def)
  next
    case 3
    define n where "n = chunk va (length src)"
    have n: "0 < n" "n \<le> length src" "n \<le> 4096 - unat va mod 4096"
      using 3(1) by (auto simp: n_def chunk_pos) (auto simp: chunk_eq)
    define ps where "ps = map (\<lambda>i. p + of_nat i) [0..<n]"
    define rest where "rest = uaddrs (pmem s) root (va + of_nat n) (length src - n)"
    have split: "uaddrs (pmem s) root va (length src) = ps @ rest"
      using uaddrs_in_page [OF 3(2) n(3), of "length src - n"] n(2) by (simp add: ps_def rest_def)
    have "\<forall>q\<in>set ps. \<exists>va. uaddr (pmem s) root va = Some q"
      using set_uaddrs [of _ "pmem s" root va "length src"] by (simp add: split)
    note uw = user_write [OF less.prems this, of "take n src"]
    define s' where "s' = s\<lparr>pmem := wr ps (take n src) (pmem s)\<rparr>"
    have here: "copy_to_user root va src s = copy_to_user root (va + of_nat n) (drop n src) s'"
      using copy_to_user_chunk [OF less.prems(1) 3(2,1) n_def] by (simp add: s'_def ps_def)
    have rest: "uaddrs (pmem s') root (va + of_nat n) (length src - n) = rest"
      unfolding rest_def s'_def by (rule uaddrs_cong) (simp add: uw)
    have "pt_inv kend F (pmem s') root" "user_space (pmem s') root" using uw by (simp_all add: s'_def)
    then have "copy_to_user root (va + of_nat n) (drop n src) s' =
        Some (if length rest = length src - n then 0 else - 1, s'\<lparr>pmem := wr rest (drop n src) (pmem s')\<rparr>)"
      using less.hyps [of "drop n src" s' "va + of_nat n"] n by (simp add: rest)
    moreover have "wr (ps @ rest) src (pmem s) = wr rest (drop n src) (wr ps (take n src) (pmem s))"
      using wr_append [of ps "take n src" rest "drop n src"] n(2) by (simp add: ps_def)
    moreover have "length rest = length src - n \<longleftrightarrow> n + length rest = length src" using n(2) by linarith
    ultimately show ?thesis by (simp add: here split s'_def) (simp add: ps_def)
  qed (simp add: copy_to_user.simps wr_def)
qed

text \<open>\<open>copyin_str\<close> delivers the string up to its NUL, if the NUL lies in the accessible part of the
  first \<open>mx\<close> bytes; the bytes it has stored before it fails are the accessible bytes.\<close>

definition cut_nul :: "u8 list \<Rightarrow> u8 list" where
  "cut_nul bs = (let str = takeWhile (\<lambda>c. c \<noteq> 0) bs in if length str < length bs then str @ [0] else str)"

lemma length_takeWhile_nul: "length (takeWhile (\<lambda>c. c \<noteq> 0) bs) < length bs \<longleftrightarrow> 0 \<in> set bs"
  for bs :: "u8 list"
  by (induction bs) auto

lemma takeWhile_nul: "0 \<notin> set bs \<Longrightarrow> takeWhile (\<lambda>c. c \<noteq> 0) bs = bs" for bs :: "u8 list"
  by (induction bs) auto

lemma cut_nul_eq: "cut_nul bs = (if 0 \<in> set bs then takeWhile (\<lambda>c. c \<noteq> 0) bs @ [0] else bs)"
  by (simp add: cut_nul_def Let_def length_takeWhile_nul takeWhile_nul)

lemma cut_nul_append:
  "cut_nul (bs @ cs) = (if 0 \<in> set bs then cut_nul bs else bs @ cut_nul cs)"
proof (cases "0 \<in> set bs")
  case True
  then have "takeWhile (\<lambda>c. c \<noteq> 0) (bs @ cs) = takeWhile (\<lambda>c. c \<noteq> 0) bs"
    by (intro takeWhile_append1) auto
  then show ?thesis using True by (simp add: cut_nul_eq)
next
  case False
  then have "takeWhile (\<lambda>c. c \<noteq> 0) (bs @ cs) = bs @ takeWhile (\<lambda>c. c \<noteq> 0) cs"
    by (intro takeWhile_append2) auto
  then show ?thesis using False by (simp add: cut_nul_eq)
qed

lemma copyin_str_chunk:
  assumes "pt_inv kend F (pmem s) root" and "uaddr (pmem s) root va = Some p" and "0 < mx"
    and n: "n = chunk va mx" and bs: "bs = map (\<lambda>i. pmem s (p + of_nat i)) [0..<n]"
  shows "copyin_str root va mx s =
    (if 0 \<in> set bs then Some ((0, cut_nul bs), s)
     else do {
       ((r, cs), s) \<leftarrow> copyin_str root (va + of_nat n) (mx - n) s;
       Some ((r, bs @ cs), s)
     })"
proof -
  have le: "n \<le> mx" "length bs = n" by (auto simp: n chunk_eq bs)
  have "copyin_str root (PGROUNDDOWN va + PGSIZE) (mx - n) s = copyin_str root (va + of_nat n) (mx - n) s"
  proof (cases "n = mx")
    case False
    then show ?thesis using next_chunk [of va mx] le(1) by (simp add: n)
  qed (simp add: copyin_str.simps)
  then show ?thesis
    using assms(3) walkaddr_uaddr(2) [OF assms(1,2)] length_takeWhile_nul [of bs] le(2)
    by (subst copyin_str.simps)
      (simp add: walkaddr_uaddr(1) [OF assms(1)] assms(2) Let_def ld_bytes_def cut_nul_eq takeWhile_nul flip: n bs)
qed

lemma copyin_str_eq:
  assumes "pt_inv kend F (pmem s) root"
  shows "copyin_str root va mx s =
    (let bs = map (pmem s) (uaddrs (pmem s) root va mx)
     in Some ((if 0 \<in> set bs then 0 else - 1, cut_nul bs), s))"
proof (induction mx arbitrary: va rule: less_induct)
  case (less mx)
  consider "mx = 0" | "0 < mx" "uaddr (pmem s) root va = None"
    | p where "0 < mx" "uaddr (pmem s) root va = Some p"
    by (cases "uaddr (pmem s) root va") auto
  then show ?case
  proof cases
    case 2
    then show ?thesis
      by (subst copyin_str.simps) (cases mx; simp add: walkaddr_uaddr [OF assms] cut_nul_def)
  next
    case 3
    define n where "n = chunk va mx"
    define bs where "bs = map (\<lambda>i. pmem s (p + of_nat i)) [0..<n]"
    have n: "0 < n" "n \<le> mx" "n \<le> 4096 - unat va mod 4096"
      using 3(1) by (auto simp: n_def chunk_pos) (auto simp: chunk_eq)
    have "map (pmem s) (uaddrs (pmem s) root va mx) =
        bs @ map (pmem s) (uaddrs (pmem s) root (va + of_nat n) (mx - n))"
      using uaddrs_in_page [OF 3(2) n(3), of "mx - n"] n(2) by (simp add: bs_def comp_def)
    then show ?thesis
      using copyin_str_chunk [OF assms 3(2,1) n_def bs_def] less.IH [of "mx - n" "va + of_nat n"] n
      by (simp add: cut_nul_append Let_def)
  qed (simp add: copyin_str.simps cut_nul_def)
qed

section \<open>A concrete address space\<close>

text \<open>A pool that holds the given pages, in a memory that is otherwise zero.\<close>

primrec pool_of :: "u64 list \<Rightarrow> kmem" where
  "pool_of [] = \<lparr>freelist = 0, pmem = (\<lambda>_. 0)\<rparr>"
| "pool_of (p # ps) = (pool_of ps)\<lparr>freelist := p, pmem := st64 p (freelist (pool_of ps)) (pmem (pool_of ps))\<rparr>"

lemma pool_of_inv: "distinct ps \<Longrightarrow> list_all (kpage kend) ps \<Longrightarrow> kmem_inv kend ps (pool_of ps)"
proof (induction ps)
  case (Cons p ps)
  then have p: "kpage kend p" and inv: "kmem_inv kend ps (pool_of ps)" "p \<notin> set ps" by auto
  then have "kfree kend p (pool_of ps) = Some (pool_of (p # ps))"
    by (simp add: kfree_def kpage_def page_aligned_mod not_less not_le)
  then show ?case using kfree_correct [OF inv(1) p inv(2)] by force
qed (simp add: kmem_inv_def)

lemma pool_of_zero:
  "list_all (kpage kend) ps \<Longrightarrow> page_aligned r \<Longrightarrow> r \<notin> set ps \<Longrightarrow> k < 4096 \<Longrightarrow> pmem (pool_of ps) (r + of_nat k) = 0"
proof (induction ps)
  case (Cons p ps)
  then have "page_aligned p" "r \<noteq> p" by (auto simp: kpage_def)
  then have "same_page (pmem (pool_of ps)) (st64 p v (pmem (pool_of ps))) r" for v
    using st_bytes_same_page [of p r "le_bytes 8 v"] Cons.prems(2) by (simp add: st64_def)
  then show ?case using Cons by (simp add: same_page_def)
qed simp

lemma empty_table:
  assumes "kpage kend r" and "r \<notin> F" and zero: "\<forall>k<4096. m (r + of_nat k) = 0"
  shows "pt_inv kend F m r" "tables m r = {r}" "leaf m r va = 0" "table_links m r"
proof -
  have tbl: "tbl m r p = (if p = [] then Some r else None)" if "ipath p" for p
    using that ld64_entry_zero [OF zero] by (cases p) (auto simp: ipath_def)
  show "pt_inv kend F m r" using assms(1,2) tbl by (auto simp: pt_inv_def split: if_splits)
  have "ipath []" by (simp add: ipath_def)
  then show "tables m r = {r}" using tbl by (force simp: tables_def split: if_splits)
  show "leaf m r va = 0" using tbl [OF ipath_va] by (simp add: leaf_def va_path_def)
  show "table_links m r" unfolding table_links_def
  proof (intro allI impI)
    fix p i b assume a: "ipath (p @ [i])" "tbl m r p = Some b" "ld64 m (entry b i) AND PTE_V \<noteq> 0"
    then have "b = r" "i < 512" using tbl [OF ipath_append [OF a(1)]] by (auto simp: ipath_def split: if_splits)
    then show "ld64 m (entry b i) AND (PTE_R OR PTE_W OR PTE_X) = 0 \<and> (p = [] \<longrightarrow> i < 256)"
      using ld64_entry_zero [OF zero] a(3) by simp
  qed
qed

definition ex_pages :: "u64 list" where
  "ex_pages = [0x87FFF000, 0x87FFE000, 0x87FFD000, 0x87FFC000, 0x87FFB000, 0x87FFA000]"

abbreviation (input) ex_kend :: u64 where "ex_kend \<equiv> 0x80010000"
abbreviation (input) ex_root :: u64 where "ex_root \<equiv> 0x87F00000"
abbreviation (input) ex_frame :: u64 where "ex_frame \<equiv> 0x87000000"

lemma ex_pages_ok: "list_all (kpage ex_kend) ex_pages" "distinct ex_pages" "kpage ex_kend ex_root"
  by (simp_all add: ex_pages_def kpage_def page_aligned_def)

lemma ex_pool:
  "pt_state ex_kend (set ex_pages) ex_root (pool_of ex_pages)"
  "tables (pmem (pool_of ex_pages)) ex_root = {ex_root}" "leaf (pmem (pool_of ex_pages)) ex_root va = 0"
proof -
  have r: "ex_root \<notin> set ex_pages" by (simp add: ex_pages_def)
  have "\<forall>k<4096. pmem (pool_of ex_pages) (ex_root + of_nat k) = 0"
    using pool_of_zero [OF ex_pages_ok(1) _ r] ex_pages_ok(3) by (simp add: kpage_def)
  note empty = empty_table [OF ex_pages_ok(3) r this]
  show "tables (pmem (pool_of ex_pages)) ex_root = {ex_root}" by (rule empty(2))
  show "leaf (pmem (pool_of ex_pages)) ex_root va = 0" by (rule empty(3))
  have "kavail ex_kend (set ex_pages) (pool_of ex_pages)"
    unfolding kavail_def using pool_of_inv [OF ex_pages_ok(2,1)] by blast
  then show "pt_state ex_kend (set ex_pages) ex_root (pool_of ex_pages)"
    using empty(1) by (simp add: pt_state_def)
qed

text \<open>One user page mapped into it, and the state the call leaves.\<close>

definition ex_perm :: u32 where
  "ex_perm = ucast (PTE_R OR PTE_W OR PTE_U)"

definition ex_mapped :: kmem where
  "ex_mapped = snd (the (mappages ex_root PGSIZE PGSIZE ex_frame ex_perm (pool_of ex_pages)))"

lemma ex_map_conditions:
  "pt_state ex_kend (set ex_pages) ex_root (pool_of ex_pages)" "0 < (PGSIZE :: u64)"
  "unat (PGSIZE :: u64) + unat (PGSIZE :: u64) \<le> 0x4000000000"
  "2 * Suc (unat (PGSIZE :: u64) div 4096 + 1) \<le> card (set ex_pages)"
  "PGSIZE = PGROUNDDOWN (PGSIZE + PGSIZE - 1)"
  "\<forall>v<MAXVA. page_range (PGROUNDDOWN PGSIZE) PGSIZE v \<longrightarrow>
     leaf (pmem (pool_of ex_pages)) ex_root v AND PTE_V = 0"
proof -
  show "pt_state ex_kend (set ex_pages) ex_root (pool_of ex_pages)" by (rule ex_pool)
  show "PGSIZE = PGROUNDDOWN (PGSIZE + PGSIZE - 1)" by (simp add: PGROUNDDOWN_def)
  show "\<forall>v<MAXVA. page_range (PGROUNDDOWN PGSIZE) PGSIZE v \<longrightarrow>
     leaf (pmem (pool_of ex_pages)) ex_root v AND PTE_V = 0" by (simp add: ex_pool(3))
  show "2 * Suc (unat (PGSIZE :: u64) div 4096 + 1) \<le> card (set ex_pages)" by (simp add: ex_pages_def)
qed simp_all

definition ex_pte :: u64 where
  "ex_pte = PA2PTE ex_frame OR scast ex_perm OR PTE_V"

lemma ex_entry: "ex_pte AND PTE_V \<noteq> 0" "ex_pte AND PTE_U \<noteq> 0" "PTE2PA ex_pte = ex_frame" "PTE_FLAGS ex_pte \<noteq> PTE_V"
  by (simp_all add: ex_pte_def PA2PTE_def PTE2PA_def PTE_FLAGS_def ex_perm_def)

lemma ex_mapped_state:
  "\<exists>F. pt_state ex_kend F ex_root ex_mapped \<and> F \<subseteq> set ex_pages \<and>
     outside_kept ex_root (set ex_pages) (pool_of ex_pages) ex_mapped \<and>
     (\<forall>v<MAXVA. leaf (pmem ex_mapped) ex_root v = (if PGROUNDDOWN v = PGSIZE then ex_pte else 0))"
proof -
  obtain s' F' where m: "mappages ex_root PGSIZE PGSIZE ex_frame ex_perm (pool_of ex_pages) = Some (0, s')"
      "pt_state ex_kend F' ex_root s'" "F' \<subseteq> set ex_pages"
      "outside_kept ex_root (set ex_pages) (pool_of ex_pages) s'"
    and lf: "\<forall>v<MAXVA. leaf (pmem s') ex_root v =
       (if page_range (PGROUNDDOWN PGSIZE) PGSIZE v
        then PA2PTE (ex_frame + (PGROUNDDOWN v - PGROUNDDOWN PGSIZE)) OR scast ex_perm OR PTE_V
        else leaf (pmem (pool_of ex_pages)) ex_root v)"
    using mappages_maps [OF ex_map_conditions, of ex_frame ex_perm] by blast
  have s': "ex_mapped = s'" by (simp add: ex_mapped_def m(1))
  have page: "PGROUNDDOWN PGSIZE = PGSIZE" by (simp add: PGROUNDDOWN_def)
  have "leaf (pmem s') ex_root v = (if PGROUNDDOWN v = PGSIZE then ex_pte else 0)" if "v < MAXVA" for v
    using lf that by (auto simp: page page_range_def ex_pool(3) ex_pte_def)
  then show ?thesis using m(2-4) unfolding s' by blast
qed

lemma ex_mapped_leaf:
  "v < MAXVA \<Longrightarrow> leaf (pmem ex_mapped) ex_root v = (if PGROUNDDOWN v = PGSIZE then ex_pte else 0)"
  using ex_mapped_state by blast

lemma ex_mapped_tables: "tables (pmem ex_mapped) ex_root \<subseteq> insert ex_root (set ex_pages)"
  using ex_mapped_state by (auto simp: outside_kept_def ex_pool(2))

lemma ex_mapped_uaddr:
  "uaddr (pmem ex_mapped) ex_root va =
     (if va < MAXVA \<and> PGROUNDDOWN va = PGSIZE then Some (ex_frame + (va - PGSIZE)) else None)"
  using ex_entry ex_mapped_leaf [of va] by (cases "va < MAXVA") (simp_all add: uaddr_def Let_def)

lemma ex_frame_page:
  assumes "PGROUNDDOWN va = PGSIZE"
  shows "PGROUNDDOWN (ex_frame + (va - PGSIZE)) = ex_frame"
proof -
  have "va - PGSIZE = of_nat (unat va mod 4096)" using assms by (simp flip: page_offset)
  moreover have "page_aligned ex_frame" by (simp add: page_aligned_def)
  ultimately show ?thesis using PGROUNDDOWN_offset [of ex_frame "unat va mod 4096"] by simp
qed

lemma ex_mapped_ok:
  "pt_inv ex_kend {} (pmem ex_mapped) ex_root" "user_space (pmem ex_mapped) ex_root"
proof -
  show "pt_inv ex_kend {} (pmem ex_mapped) ex_root"
    using ex_mapped_state by (auto simp: pt_state_def pt_inv_def)
  have "ex_frame \<notin> tables (pmem ex_mapped) ex_root"
    using ex_mapped_tables by (auto simp: ex_pages_def)
  then show "user_space (pmem ex_mapped) ex_root" using ex_frame_page by (simp add: user_space_def ex_mapped_uaddr)
qed

section \<open>Properties\<close>

text \<open>C7. \<open>mappages\<close> on unmapped pages below \<open>MAXVA\<close>, with enough free pages for the tables, returns 0.
  Afterwards every address of the pages from the one of \<open>va\<close> to the one of \<open>va + sz - 1\<close> has a valid
  entry for its own physical page with the given permissions, every other address has the entry
  it had, the page table is well formed, and no memory but free pages and table pages changed.\<close>

theorem mappages_spec:
  assumes "pt_state kend F root s" and "0 < sz" and "unat va + unat sz \<le> 0x4000000000"
    and "2 * Suc (unat sz div 4096 + 1) \<le> card F"
    and "lasta = PGROUNDDOWN (va + sz - 1)"
    and "\<forall>v<MAXVA. page_range (PGROUNDDOWN va) lasta v \<longrightarrow> leaf (pmem s) root v AND PTE_V = 0"
  shows "\<exists>s' F'. mappages root va sz pa perm s = Some (0, s') \<and> pt_state kend F' root s' \<and> F' \<subseteq> F \<and>
           outside_kept root F s s' \<and>
           (\<forall>v<MAXVA. leaf (pmem s') root v =
              (if page_range (PGROUNDDOWN va) lasta v
               then PA2PTE (pa + (PGROUNDDOWN v - PGROUNDDOWN va)) OR scast perm OR PTE_V
               else leaf (pmem s) root v))"
  using assms by (rule mappages_maps)

theorem mappages_spec_witness:
  "\<exists>s'. mappages ex_root PGSIZE PGSIZE ex_frame ex_perm (pool_of ex_pages) = Some (0, s') \<and>
     leaf (pmem s') ex_root 0x1008 = PA2PTE ex_frame OR scast ex_perm OR PTE_V \<and>
     leaf (pmem s') ex_root 0x2008 = 0"
proof -
  obtain s' where "mappages ex_root PGSIZE PGSIZE ex_frame ex_perm (pool_of ex_pages) = Some (0, s')"
    "\<forall>v<MAXVA. leaf (pmem s') ex_root v =
       (if page_range (PGROUNDDOWN PGSIZE) PGSIZE v
        then PA2PTE (ex_frame + (PGROUNDDOWN v - PGROUNDDOWN PGSIZE)) OR scast ex_perm OR PTE_V
        else leaf (pmem (pool_of ex_pages)) ex_root v)"
    using mappages_spec [OF ex_map_conditions, of ex_frame ex_perm] by blast
  then show ?thesis by (auto simp: page_range_def PGROUNDDOWN_def ex_pool(3))
qed

text \<open>C9. \<open>uvm_unmap\<close> on \<open>npages\<close> mapped leaf pages from a page-aligned \<open>va\<close> clears exactly their entries and
  keeps every other one.  With \<open>do_free\<close> the physical pages, different ones that are neither free
  nor tables, are returned to the pool.\<close>

theorem uvm_unmap_spec:
  assumes "pt_state kend F root s" and "page_aligned va" and "unat va + 4096 * unat npages \<le> 0x4000000000"
    and "\<forall>p\<in>pages va (unat npages). unmappable kend F root do_free s p"
    and "do_free \<longrightarrow> inj_on (\<lambda>p. PTE2PA (leaf (pmem s) root p)) (pages va (unat npages))"
  shows "\<exists>s'. uvm_unmap kend root va npages do_free s = Some s' \<and>
           pt_state kend (if do_free then F \<union> frames root s (pages va (unat npages)) else F) root s' \<and>
           tables (pmem s') root = tables (pmem s) root \<and>
           (\<forall>v<MAXVA. leaf (pmem s') root v =
              (if PGROUNDDOWN v \<in> pages va (unat npages) then 0 else leaf (pmem s) root v))"
proof -
  have "va + npages * PGSIZE = va + of_nat (4096 * unat npages)" by simp
  from unmap_loop_unmaps [OF assms(1-3) this assms(4,5)] show ?thesis
    using assms(2) unfolding uvm_unmap_def page_aligned_mod by auto
qed

theorem uvm_unmap_spec_witness:
  "\<exists>s'. uvm_unmap ex_kend ex_root PGSIZE 1 True ex_mapped = Some s' \<and> leaf (pmem s') ex_root 0x1008 = 0"
proof -
  obtain F where F: "pt_state ex_kend F ex_root ex_mapped" "F \<subseteq> set ex_pages" using ex_mapped_state by blast
  have one: "pages PGSIZE (unat (1 :: u64)) = {PGSIZE}" by (simp add: pages_Suc)
  have "unmappable ex_kend F ex_root True ex_mapped PGSIZE"
    using F(2) ex_mapped_leaf [of PGSIZE] ex_mapped_tables
    by (auto simp: unmappable_def Let_def PGROUNDDOWN_def ex_entry kpage_def page_aligned_def ex_pages_def)
  then show ?thesis
    using uvm_unmap_spec [OF F(1), of PGSIZE 1 True] one
    by (auto simp: page_aligned_def PGROUNDDOWN_def)
qed

text \<open>C8. \<open>copy_to_user\<close> writes exactly the user-accessible prefix of the destination range, byte by
  byte, and returns 0 if that is the whole range and -1 otherwise.  Memory that no user address
  translates to is unchanged.\<close>

theorem copy_to_user_spec:
  assumes "pt_inv kend F (pmem s) root" and "user_space (pmem s) root"
  shows "\<exists>m'. copy_to_user root va src s =
             Some (if length (uaddrs (pmem s) root va (length src)) = length src then 0 else - 1,
                   s\<lparr>pmem := m'\<rparr>) \<and>
           m' = wr (uaddrs (pmem s) root va (length src)) src (pmem s) \<and>
           (\<forall>p. (\<forall>v. uaddr (pmem s) root v \<noteq> Some p) \<longrightarrow> m' p = pmem s p)"
proof -
  let ?ps = "uaddrs (pmem s) root va (length src)"
  have "wr ?ps src (pmem s) p = pmem s p" if "\<forall>v. uaddr (pmem s) root v \<noteq> Some p" for p
    using set_uaddrs [of p "pmem s" root va "length src"] that by (intro wr_outside) blast
  then show ?thesis using copy_to_user_eq [OF assms, of va src] by simp
qed

lemma ex_uaddrs:
  "uaddrs (pmem ex_mapped) ex_root 0x1FFE (Suc (Suc (Suc (Suc 0)))) = [0x87000FFE, 0x87000FFF]"
  "uaddrs (pmem ex_mapped) ex_root 0x1FFC (Suc (Suc (Suc 0))) = [0x87000FFC, 0x87000FFD, 0x87000FFE]"
  by (simp_all add: ex_mapped_uaddr PGROUNDDOWN_def)

theorem copy_to_user_spec_witness:
  "\<exists>m'. copy_to_user ex_root 0x1FFE [1, 2, 3, 4] ex_mapped = Some (- 1, ex_mapped\<lparr>pmem := m'\<rparr>) \<and>
     m' 0x87000FFE = 1 \<and> m' 0x87000FFF = 2"
  using copy_to_user_spec [OF ex_mapped_ok(1,2), of "0x1FFE" "[1, 2, 3, 4]"]
  by (intro exI [of _ "(pmem ex_mapped)(0x87000FFE := 1, 0x87000FFF := 2)"])
    (simp add: ex_uaddrs wr_def del: uaddrs.simps)

text \<open>C10. Bytes that \<open>copy_to_user\<close> has stored with success are what \<open>copy_from_user\<close> reads back from the
  same user range, if the range has no two addresses for one byte.\<close>

theorem copy_round_trip:
  assumes "pt_inv kend F (pmem s) root" and "user_space (pmem s) root"
    and "distinct (uaddrs (pmem s) root va (length src))"
    and "copy_to_user root va src s = Some (0, s')"
  shows "copy_from_user root va (length src) s' = Some ((0, src), s')"
proof -
  let ?ps = "uaddrs (pmem s) root va (length src)"
  have len: "length ?ps = length src" and s': "s' = s\<lparr>pmem := wr ?ps src (pmem s)\<rparr>"
    using assms(4) copy_to_user_eq [OF assms(1,2), of va src] by (auto split: if_splits)
  have ps: "\<forall>q\<in>set ?ps. \<exists>va. uaddr (pmem s) root va = Some q" using set_uaddrs by blast
  note uw = user_write [OF assms(1,2) ps, of src]
  have "uaddrs (pmem s') root va (length src) = ?ps"
    unfolding s' by (rule uaddrs_cong) (simp add: uw)
  moreover have "map (pmem s') ?ps = src"
    using wr_inside [OF assms(3), of src] len by (intro nth_equalityI) (simp_all add: s')
  moreover have "pt_inv kend F (pmem s') root" using uw(1) by (simp add: s')
  ultimately show ?thesis using copy_from_user_eq len by simp
qed

theorem copy_round_trip_witness:
  "\<exists>s'. copy_to_user ex_root 0x1FFC [1, 2, 3] ex_mapped = Some (0, s') \<and>
     copy_from_user ex_root 0x1FFC 3 s' = Some ((0, [1, 2, 3]), s')"
proof -
  have d: "distinct (uaddrs (pmem ex_mapped) ex_root 0x1FFC (length [1 :: u8, 2, 3]))"
    by (simp add: ex_uaddrs del: uaddrs.simps)
  obtain s' where c: "copy_to_user ex_root 0x1FFC [1, 2, 3] ex_mapped = Some (0, s')"
    using copy_to_user_eq [OF ex_mapped_ok(1,2), of "0x1FFC" "[1, 2, 3]"]
    by (simp add: ex_uaddrs del: uaddrs.simps)
  from copy_round_trip [OF ex_mapped_ok(1,2) d c] c show ?thesis by (simp add: numeral_3_eq_3)
qed

text \<open>C11. \<open>copyin_str\<close> succeeds exactly when a NUL lies in the accessible prefix of the first \<open>mx\<close> bytes at
  the user address, and then has stored the string with its NUL and nothing else.\<close>

theorem copyin_str_spec:
  assumes "pt_inv kend F (pmem s) root" and "bs = map (pmem s) (uaddrs (pmem s) root va mx)"
  shows "copyin_str root va mx s =
    Some ((if 0 \<in> set bs then 0 else - 1,
           if 0 \<in> set bs then takeWhile (\<lambda>c. c \<noteq> 0) bs @ [0] else bs), s)"
  using copyin_str_eq [OF assms(1), of va mx] by (simp add: assms(2) Let_def cut_nul_eq)

theorem copyin_str_spec_witness:
  "\<exists>r. copyin_str ex_root 0x1FFE 4 ex_mapped = Some (r, ex_mapped)"
  using copyin_str_spec [OF ex_mapped_ok(1) refl, of "0x1FFE" 4] by simp

end
