(* ===== verification/Locks.thy ===== *)
theory Locks
  imports Prelude
begin

text \<open>
  Spin locks and sleep locks, \<^verbatim>\<open>kernel/spinlock.c\<close> and \<^verbatim>\<open>kernel/sleeplock.c\<close>.  A CPU is its nesting depth of
  \<^verbatim>\<open>push_off\<close> calls and its interrupt flag; a spin lock is its word and the CPU recorded in it.  The
  step relation interleaves the atomic actions of \<open>acquire\<close> and \<open>release\<close> of all CPUs, and its
  invariant is mutual exclusion; the rest of the development treats the body of a spin-locked
  function as one step.
\<close>

section \<open>Interrupt nesting\<close>

record cpu =
  noff :: int
  intena :: bool
  intr :: bool

definition push_off :: "cpu \<Rightarrow> cpu" where
  "push_off c =
     (let old = intr c;
          c = c\<lparr>intr := False\<rparr>;
          c = (if noff c = 0 then c\<lparr>intena := old\<rparr> else c)
      in c\<lparr>noff := noff c + 1\<rparr>)"

definition pop_off :: "cpu \<Rightarrow> cpu option" where
  "pop_off c =
     (if intr c then panic ''pop_off - interruptible''
      else if noff c < 1 then panic ''pop_off''
      else let c = c\<lparr>noff := noff c - 1\<rparr>
           in Some (if noff c = 0 \<and> intena c then c\<lparr>intr := True\<rparr> else c))"

section \<open>Spin locks\<close>

record spinlock =
  locked :: u32
  lcpu :: "nat option"

definition initlock :: "spinlock \<Rightarrow> spinlock" where
  "initlock lk = lk\<lparr>locked := 0, lcpu := None\<rparr>"

definition holding :: "nat \<Rightarrow> spinlock \<Rightarrow> bool" where
  "holding i lk \<longleftrightarrow> locked lk \<noteq> 0 \<and> lcpu lk = Some i"

text \<open>\<open>acquire\<close> in its three atomic actions: up to the loop, one swap of the loop, and the record.\<close>

definition acquire_enter :: "nat \<Rightarrow> cpu \<Rightarrow> spinlock \<Rightarrow> cpu option" where
  "acquire_enter i c lk = (let c = push_off c in if holding i lk then panic ''acquire'' else Some c)"

definition test_and_set :: "spinlock \<Rightarrow> u32 \<times> spinlock" where
  "test_and_set lk = (locked lk, lk\<lparr>locked := 1\<rparr>)"

definition acquire_record :: "nat \<Rightarrow> spinlock \<Rightarrow> spinlock" where
  "acquire_record i lk = lk\<lparr>lcpu := Some i\<rparr>"

text \<open>\<open>release\<close> in its three actions: the check and the reset of the owner, the unlock, \<open>pop_off\<close>.\<close>

definition release_clear :: "nat \<Rightarrow> spinlock \<Rightarrow> spinlock option" where
  "release_clear i lk = (if \<not> holding i lk then panic ''release'' else Some (lk\<lparr>lcpu := None\<rparr>))"

definition release_unlock :: "spinlock \<Rightarrow> spinlock" where
  "release_unlock lk = lk\<lparr>locked := 0\<rparr>"

text \<open>The whole calls, as a CPU runs them alone; on a lock that is taken the loop does not end.\<close>

definition acquire :: "nat \<Rightarrow> cpu \<times> spinlock \<Rightarrow> (cpu \<times> spinlock) option" where
  "acquire i = (\<lambda>(c, lk). do {
     c \<leftarrow> acquire_enter i c lk;
     let (old, lk) = test_and_set lk in
     if old \<noteq> 0 then None else Some (c, acquire_record i lk) })"

definition release :: "nat \<Rightarrow> cpu \<times> spinlock \<Rightarrow> (cpu \<times> spinlock) option" where
  "release i = (\<lambda>(c, lk). do {
     lk \<leftarrow> release_clear i lk;
     let lk = release_unlock lk;
     c \<leftarrow> pop_off c;
     Some (c, lk) })"

section \<open>All CPUs\<close>

datatype lpc = Out | Spin | Got | In | Cleared | Unlocked

text \<open>\<open>nest\<close> counts the calls of \<open>push_off\<close> of a CPU that belong to other locks it holds.\<close>

record lstate =
  lk :: spinlock
  cpus :: "nat \<Rightarrow> cpu"
  pc :: "nat \<Rightarrow> lpc"
  nest :: "nat \<Rightarrow> nat"

inductive lstep :: "lstate \<Rightarrow> lstate \<Rightarrow> bool" where
  enter: "pc s i = Out \<Longrightarrow> acquire_enter i (cpus s i) (lk s) = Some c \<Longrightarrow>
    lstep s (s\<lparr>cpus := (cpus s)(i := c), pc := (pc s)(i := Spin)\<rparr>)"
| spin: "pc s i = Spin \<Longrightarrow> test_and_set (lk s) = (old, l) \<Longrightarrow> old \<noteq> 0 \<Longrightarrow> lstep s (s\<lparr>lk := l\<rparr>)"
| got: "pc s i = Spin \<Longrightarrow> test_and_set (lk s) = (0, l) \<Longrightarrow> lstep s (s\<lparr>lk := l, pc := (pc s)(i := Got)\<rparr>)"
| recorded: "pc s i = Got \<Longrightarrow> lstep s (s\<lparr>lk := acquire_record i (lk s), pc := (pc s)(i := In)\<rparr>)"
| cleared: "pc s i = In \<Longrightarrow> release_clear i (lk s) = Some l \<Longrightarrow>
    lstep s (s\<lparr>lk := l, pc := (pc s)(i := Cleared)\<rparr>)"
| unlocked: "pc s i = Cleared \<Longrightarrow> lstep s (s\<lparr>lk := release_unlock (lk s), pc := (pc s)(i := Unlocked)\<rparr>)"
| popped: "pc s i = Unlocked \<Longrightarrow> pop_off (cpus s i) = Some c \<Longrightarrow>
    lstep s (s\<lparr>cpus := (cpus s)(i := c), pc := (pc s)(i := Out)\<rparr>)"
| other_push: "pc s i \<in> {Out, In} \<Longrightarrow>
    lstep s (s\<lparr>cpus := (cpus s)(i := push_off (cpus s i)), nest := (nest s)(i := Suc (nest s i))\<rparr>)"
| other_pop: "pc s i \<in> {Out, In} \<Longrightarrow> nest s i = Suc n \<Longrightarrow> pop_off (cpus s i) = Some c \<Longrightarrow>
    lstep s (s\<lparr>cpus := (cpus s)(i := c), nest := (nest s)(i := n)\<rparr>)"
| toggle: "noff (cpus s i) = 0 \<Longrightarrow> lstep s (s\<lparr>cpus := (cpus s)(i := (cpus s i)\<lparr>intr := b\<rparr>)\<rparr>)"

inductive_cases lstep_cases: "lstep s s'"

definition lboot :: lstate where
  "lboot = \<lparr>lk = initlock \<lparr>locked = 0, lcpu = None\<rparr>,
     cpus = (\<lambda>_. \<lparr>noff = 0, intena = False, intr = False\<rparr>), pc = (\<lambda>_. Out), nest = (\<lambda>_. 0)\<rparr>"

definition owns :: "lpc \<Rightarrow> bool" where
  "owns p \<longleftrightarrow> p \<in> {Got, In, Cleared}"

text \<open>The invariant in two parts, with the owner \<open>u\<close> of the lock named.\<close>

definition mutex :: "nat option \<Rightarrow> lstate \<Rightarrow> bool" where
  "mutex u s \<longleftrightarrow>
     (\<forall>i. owns (pc s i) \<longleftrightarrow> u = Some i) \<and> (locked (lk s) \<noteq> 0 \<longleftrightarrow> u \<noteq> None) \<and>
     (\<forall>i. lcpu (lk s) = Some i \<longleftrightarrow> pc s i = In)"

definition intr_inv :: "lstate \<Rightarrow> bool" where
  "intr_inv s \<longleftrightarrow>
     (\<forall>i. noff (cpus s i) = int (nest s i) + (if pc s i = Out then 0 else 1)) \<and>
     (\<forall>i. 0 < noff (cpus s i) \<longrightarrow> \<not> intr (cpus s i))"

definition linv :: "lstate \<Rightarrow> bool" where
  "linv s \<longleftrightarrow> (\<exists>u. mutex u s) \<and> intr_inv s"

lemma linv_boot: "linv lboot"
  by (auto simp: linv_def mutex_def intr_inv_def lboot_def initlock_def owns_def)

lemma push_off_fields [simp]: "noff (push_off c) = noff c + 1" "intr (push_off c) = False"
  by (simp_all add: push_off_def Let_def)

lemma pop_off_fields:
  assumes "pop_off c = Some c'"
  shows "noff c' = noff c - 1" "0 < noff c' \<Longrightarrow> \<not> intr c'"
  using assms by (auto simp: pop_off_def Let_def panic_def split: if_splits)

lemma intr_inv_step: "lstep s s' \<Longrightarrow> intr_inv s \<Longrightarrow> intr_inv s'"
  by (induction rule: lstep.induct)
    (auto simp: intr_inv_def acquire_enter_def Let_def panic_def pop_off_fields split: if_splits)

lemma mutex_step:
  assumes "lstep s s'" and "mutex u s"
  shows "\<exists>u. mutex u s'"
  using assms
proof (induction rule: lstep.induct)
  case (got s i l)
  then have "mutex (Some i) (s\<lparr>lk := l, pc := (pc s)(i := Got)\<rparr>)"
    by (auto simp: mutex_def owns_def test_and_set_def)
  then show ?case by blast
next
  case (recorded s i)
  then have "mutex (Some i) (s\<lparr>lk := acquire_record i (lk s), pc := (pc s)(i := In)\<rparr>)"
    by (auto simp: mutex_def owns_def acquire_record_def; metis)
  then show ?case by blast
next
  case (cleared s i l)
  then have "mutex (Some i) (s\<lparr>lk := l, pc := (pc s)(i := Cleared)\<rparr>)"
    by (auto simp: mutex_def owns_def release_clear_def panic_def split: if_splits; metis)
  then show ?case by blast
next
  case (unlocked s i)
  then have "mutex None (s\<lparr>lk := release_unlock (lk s), pc := (pc s)(i := Unlocked)\<rparr>)"
    by (auto simp: mutex_def owns_def release_unlock_def; metis)
  then show ?case by blast
next
  case (enter s i c)
  then have "mutex u (s\<lparr>cpus := (cpus s)(i := c), pc := (pc s)(i := Spin)\<rparr>)"
    by (auto simp: mutex_def owns_def; metis lpc.distinct)
  then show ?case by blast
next
  case (popped s i c)
  then have "mutex u (s\<lparr>cpus := (cpus s)(i := c), pc := (pc s)(i := Out)\<rparr>)"
    by (auto simp: mutex_def owns_def; metis lpc.distinct)
  then show ?case by blast
next
  case (spin s i old l)
  then have "mutex u (s\<lparr>lk := l\<rparr>)" by (auto simp: mutex_def owns_def test_and_set_def)
  then show ?case by blast
qed (auto simp: mutex_def)

lemma linv_reachable: "lstep\<^sup>*\<^sup>* lboot s \<Longrightarrow> linv s"
proof (induction rule: rtranclp_induct)
  case base
  show ?case by (rule linv_boot)
next
  case (step s s')
  then show ?case using mutex_step intr_inv_step unfolding linv_def by blast
qed

lemma linv_owner:
  assumes "linv s" and "pc s i = In"
  shows "holding i (lk s)" "\<not> intr (cpus s i)" "pc s j \<in> {Got, In, Cleared} \<Longrightarrow> j = i"
proof -
  obtain u where u: "mutex u s" and intr: "intr_inv s" using assms(1) by (auto simp: linv_def)
  have "owns (pc s i)" using assms(2) by (simp add: owns_def)
  then have ui: "u = Some i" using u unfolding mutex_def by blast
  show "holding i (lk s)" using u assms(2) ui by (auto simp: mutex_def holding_def)
  have "noff (cpus s i) = int (nest s i) + 1" using intr assms(2) by (auto simp: intr_inv_def)
  then show "\<not> intr (cpus s i)" using intr by (auto simp: intr_inv_def)
  assume "pc s j \<in> {Got, In, Cleared}"
  then have "u = Some j" using u unfolding mutex_def owns_def by blast
  then show "j = i" using ui by simp
qed

lemma linv_not_holding:
  assumes "linv s" and "pc s i \<noteq> In"
  shows "\<not> holding i (lk s)"
  using assms by (auto simp: linv_def mutex_def holding_def)

lemma linv_pop:
  assumes "linv s" and "pc s i \<noteq> Out \<or> 0 < nest s i"
  shows "pop_off (cpus s i) \<noteq> None"
proof -
  have "0 < noff (cpus s i)" "0 < noff (cpus s i) \<longrightarrow> \<not> intr (cpus s i)"
    using assms by (auto simp: linv_def intr_inv_def)
  then show ?thesis by (simp add: pop_off_def Let_def)
qed

section \<open>Sleep locks\<close>

text \<open>
  \<open>acquiresleep\<close> by the process with the given pid: on a lock that is taken the caller sleeps, and no
  step of its own ends that, so the call does not return.  The spin lock inside a sleep lock makes
  each body one step.
\<close>

record sleeplock =
  slocked :: u32
  spid :: int

definition initsleeplock :: "sleeplock \<Rightarrow> sleeplock" where
  "initsleeplock l = l\<lparr>slocked := 0, spid := 0\<rparr>"

definition acquiresleep :: "int \<Rightarrow> sleeplock \<Rightarrow> sleeplock option" where
  "acquiresleep me l = (if slocked l \<noteq> 0 then None else Some (l\<lparr>slocked := 1, spid := me\<rparr>))"

definition releasesleep :: "sleeplock \<Rightarrow> sleeplock" where
  "releasesleep l = l\<lparr>slocked := 0, spid := 0\<rparr>"

definition holdingsleep :: "int \<Rightarrow> sleeplock \<Rightarrow> bool" where
  "holdingsleep me l \<longleftrightarrow> slocked l \<noteq> 0 \<and> spid l = me"

lemma holding_acquired [simp]: "acquiresleep me l = Some l' \<Longrightarrow> holdingsleep me l'"
  by (auto simp: acquiresleep_def holdingsleep_def split: if_splits)

lemma not_holding_released [simp]: "\<not> holdingsleep me (releasesleep l)"
  by (simp add: holdingsleep_def releasesleep_def)

section \<open>Properties\<close>

text \<open>C3. In every state that any interleaving of the CPUs reaches, the lock excludes: while one CPU is
  inside, no other CPU is inside, has just won the swap or is still unlocking; the owner's own
  check in \<open>release\<close> succeeds; and its interrupts are off.\<close>

theorem spinlock_mutual_exclusion:
  assumes "lstep\<^sup>*\<^sup>* lboot s" and "pc s i = In"
  shows "(pc s j \<in> {Got, In, Cleared} \<longrightarrow> j = i) \<and> release_clear i (lk s) \<noteq> None \<and> \<not> intr (cpus s i)"
  using linv_owner [OF linv_reachable [OF assms(1)] assms(2)] by (auto simp: release_clear_def)

text \<open>C29. The checks of \<open>acquire\<close> and \<open>release\<close> catch exactly the misuses of the lock, in every state that any interleaving
  of the CPUs reaches: \<open>acquire\<close> panics on a CPU if and only if that CPU is inside already, \<open>release\<close> passes its check if
  and only if the CPU is inside, so that a CPU that waits, has left or never entered cannot release the lock
  of another; and the \<open>pop_off\<close> that ends \<open>release\<close>, or that of another lock held by the CPU, finds interrupts
  off and a positive count.\<close>

theorem spinlock_no_panic:
  assumes "lstep\<^sup>*\<^sup>* lboot s"
  shows "(acquire_enter i (cpus s i) (lk s) = None \<longleftrightarrow> pc s i = In) \<and>
         (release_clear i (lk s) = None \<longleftrightarrow> pc s i \<noteq> In) \<and>
         (pc s i \<noteq> Out \<or> 0 < nest s i \<longrightarrow> pop_off (cpus s i) \<noteq> None)"
  using linv_not_holding [of s i] linv_owner(1) [of s i] linv_pop [of s i] linv_reachable [OF assms]
  by (auto simp: acquire_enter_def release_clear_def)

text \<open>A run in which CPU 3 enters the lock while CPU 5 waits for it.\<close>

definition held_by_3 :: lstate where
  "held_by_3 =
     \<lparr>lk = \<lparr>locked = 1, lcpu = Some 3\<rparr>,
      cpus = (\<lambda>_. \<lparr>noff = 0, intena = False, intr = False\<rparr>)
        (3 := \<lparr>noff = 1, intena = False, intr = False\<rparr>, 5 := \<lparr>noff = 1, intena = False, intr = False\<rparr>),
      pc = (\<lambda>_. Out)(3 := In, 5 := Spin), nest = (\<lambda>_. 0)\<rparr>"

lemma held_by_3_reachable: "lstep\<^sup>*\<^sup>* lboot held_by_3"
proof -
  let ?c = "\<lparr>noff = 1, intena = False, intr = False\<rparr> :: cpu"
  define s1 where "s1 = lboot\<lparr>cpus := (cpus lboot)(3 := ?c), pc := (pc lboot)(3 := Spin)\<rparr>"
  define s2 where "s2 = s1\<lparr>lk := \<lparr>locked = 1, lcpu = None\<rparr>, pc := (pc s1)(3 := Got)\<rparr>"
  define s3 where "s3 = s2\<lparr>cpus := (cpus s2)(5 := ?c), pc := (pc s2)(5 := Spin)\<rparr>"
  define s4 where "s4 = s3\<lparr>lk := acquire_record 3 (lk s3), pc := (pc s3)(3 := In)\<rparr>"
  note defs = s1_def s2_def s3_def s4_def lboot_def initlock_def acquire_enter_def push_off_def
    holding_def test_and_set_def
  have "lstep lboot s1" unfolding s1_def by (rule lstep.enter) (simp_all add: defs)
  moreover have "lstep s1 s2" unfolding s2_def by (rule lstep.got) (simp_all add: defs)
  moreover have "lstep s2 s3" unfolding s3_def by (rule lstep.enter) (simp_all add: defs)
  moreover have "lstep s3 s4" unfolding s4_def by (rule lstep.recorded) (simp add: defs)
  moreover have "s4 = held_by_3" by (simp add: defs held_by_3_def acquire_record_def fun_upd_twist)
  ultimately show ?thesis by (meson rtranclp.rtrancl_into_rtrancl rtranclp.rtrancl_refl)
qed

theorem spinlock_mutual_exclusion_witness:
  "release_clear 3 (lk held_by_3) \<noteq> None \<and> \<not> intr (cpus held_by_3 3)"
  using spinlock_mutual_exclusion [OF held_by_3_reachable, of 3] by (simp add: held_by_3_def)

theorem spinlock_no_panic_witness:
  "acquire_enter 4 (cpus held_by_3 4) (lk held_by_3) \<noteq> None \<and> release_clear 3 (lk held_by_3) \<noteq> None \<and>
   release_clear 5 (lk held_by_3) = None \<and> pop_off (cpus held_by_3 5) \<noteq> None"
  using spinlock_no_panic [OF held_by_3_reachable, of 3] spinlock_no_panic [OF held_by_3_reachable, of 4]
    spinlock_no_panic [OF held_by_3_reachable, of 5] by (simp add: held_by_3_def)

end
