(* ===== verification/Bufcache.thy ===== *)
theory Bufcache
  imports Locks Layout
begin

text \<open>
  The buffer cache, \<^verbatim>\<open>kernel/buffer-io.c\<close>: the array \<^verbatim>\<open>bcache.buf\<close> and the list head, linked through
  \<^verbatim>\<open>prev\<close> and \<^verbatim>\<open>next\<close> in order of use.  A \<^verbatim>\<open>struct buf *\<close> is an index, and \<open>NBUF\<close> is the index of the
  head.  The pointer-level list is refined to a list of indices that \<open>bufcache_release\<close> moves to
  the front, and the whole cache to a store of blocks with reference counts (locale
  \<open>block_cache\<close>), which is what the log and the file system rely on.
\<close>

type_synonym blk = "u8 list"

abbreviation (input) BSIZE :: nat where "BSIZE \<equiv> 1024"

record buf =
  valid :: bool
  blockno :: u32
  block_lock :: sleeplock
  refcnt :: u32
  bprev :: nat
  bnext :: nat
  bdata :: blk

text \<open>
  The cache with the disk behind it.  \<open>dwrites\<close> is the history of the writes that have reached the
  disk, oldest first; \<open>mypid\<close> is the pid of the running process.
\<close>

record bcache =
  bufs :: "nat \<Rightarrow> buf"
  disk :: "u32 \<Rightarrow> blk"
  dwrites :: "(u32 \<times> blk) list"
  mypid :: int

definition upd :: "nat \<Rightarrow> (buf \<Rightarrow> buf) \<Rightarrow> 'a bcache_scheme \<Rightarrow> 'a bcache_scheme" where
  "upd i f s = s\<lparr>bufs := (bufs s)(i := f (bufs s i))\<rparr>"

section \<open>Operations\<close>

primrec bufcache_init_loop :: "nat \<Rightarrow> nat \<Rightarrow> 'a bcache_scheme \<Rightarrow> 'a bcache_scheme" where
  "bufcache_init_loop 0 b s = s"
| "bufcache_init_loop (Suc n) b s =
     (let s = upd b (bnext_update (\<lambda>_. bnext (bufs s NBUF))) s;
          s = upd b (bprev_update (\<lambda>_. NBUF)) s;
          s = upd b (block_lock_update initsleeplock) s;
          s = upd (bnext (bufs s NBUF)) (bprev_update (\<lambda>_. b)) s;
          s = upd NBUF (bnext_update (\<lambda>_. b)) s
      in bufcache_init_loop n (Suc b) s)"

definition bufcache_init :: "'a bcache_scheme \<Rightarrow> 'a bcache_scheme" where
  "bufcache_init s =
     (let s = upd NBUF (bprev_update (\<lambda>_. NBUF)) s;
          s = upd NBUF (bnext_update (\<lambda>_. NBUF)) s
      in bufcache_init_loop NBUF 0 s)"

text \<open>The two search loops of \<open>bufcache_get\<close>, which end at the list head.\<close>

partial_function (option) find_cached :: "(nat \<Rightarrow> buf) \<Rightarrow> u32 \<Rightarrow> nat \<Rightarrow> nat option option" where
  "find_cached f bn b =
     (if b = NBUF then Some None
      else if blockno (f b) = bn then Some (Some b)
      else find_cached f bn (bnext (f b)))"

partial_function (option) find_unused :: "(nat \<Rightarrow> buf) \<Rightarrow> nat \<Rightarrow> nat option option" where
  "find_unused f b =
     (if b = NBUF then Some None
      else if refcnt (f b) = 0 then Some (Some b)
      else find_unused f (bprev (f b)))"

definition lock_buf :: "nat \<Rightarrow> 'a bcache_scheme \<Rightarrow> (nat \<times> 'a bcache_scheme) option" where
  "lock_buf b s =
     do {
       l \<leftarrow> acquiresleep (mypid s) (block_lock (bufs s b));
       Some (b, upd b (block_lock_update (\<lambda>_. l)) s)
     }"

definition bufcache_get :: "u32 \<Rightarrow> 'a bcache_scheme \<Rightarrow> (nat \<times> 'a bcache_scheme) option" where
  "bufcache_get bn s =
     do {
       hit \<leftarrow> find_cached (bufs s) bn (bnext (bufs s NBUF));
       case hit of
         Some b \<Rightarrow> lock_buf b (upd b (refcnt_update (\<lambda>r. r + 1)) s)
       | None \<Rightarrow> do {
           unused \<leftarrow> find_unused (bufs s) (bprev (bufs s NBUF));
           case unused of
             Some b \<Rightarrow> lock_buf b (upd b (\<lambda>u. u\<lparr>blockno := bn, valid := False, refcnt := 1\<rparr>) s)
           | None \<Rightarrow> panic ''bufcache_get: no buffers''
         }
     }"

text \<open>
  A request of \<^verbatim>\<open>virtio_disk_rw\<close> served by the device: a write stores the buffer's data in its block,
  a read loads them.
\<close>

definition disk_rw :: "nat \<Rightarrow> bool \<Rightarrow> 'a bcache_scheme \<Rightarrow> 'a bcache_scheme" where
  "disk_rw b wr s =
     (let bn = blockno (bufs s b)
      in if wr then s\<lparr>disk := (disk s)(bn := bdata (bufs s b)), dwrites := dwrites s @ [(bn, bdata (bufs s b))]\<rparr>
         else upd b (bdata_update (\<lambda>_. disk s bn)) s)"

definition bufcache_read :: "u32 \<Rightarrow> 'a bcache_scheme \<Rightarrow> (nat \<times> 'a bcache_scheme) option" where
  "bufcache_read bn s =
     do {
       (b, s) \<leftarrow> bufcache_get bn s;
       Some (b, if \<not> valid (bufs s b) then upd b (valid_update (\<lambda>_. True)) (disk_rw b False s) else s)
     }"

definition bufcache_write :: "nat \<Rightarrow> 'a bcache_scheme \<Rightarrow> 'a bcache_scheme option" where
  "bufcache_write b s =
     (if \<not> holdingsleep (mypid s) (block_lock (bufs s b)) then panic ''bufcache_write''
      else Some (disk_rw b True s))"

definition bufcache_release :: "nat \<Rightarrow> 'a bcache_scheme \<Rightarrow> 'a bcache_scheme option" where
  "bufcache_release b s =
     (if \<not> holdingsleep (mypid s) (block_lock (bufs s b)) then panic ''bufcache_release''
      else let s = upd b (block_lock_update releasesleep) s;
               s = upd b (refcnt_update (\<lambda>r. r - 1)) s
           in Some (if refcnt (bufs s b) = 0
                    then let s = upd (bnext (bufs s b)) (bprev_update (\<lambda>_. bprev (bufs s b))) s;
                             s = upd (bprev (bufs s b)) (bnext_update (\<lambda>_. bnext (bufs s b))) s;
                             s = upd b (bnext_update (\<lambda>_. bnext (bufs s NBUF))) s;
                             s = upd b (bprev_update (\<lambda>_. NBUF)) s;
                             s = upd (bnext (bufs s NBUF)) (bprev_update (\<lambda>_. b)) s
                         in upd NBUF (bnext_update (\<lambda>_. b)) s
                    else s))"

definition bufcache_pin :: "nat \<Rightarrow> 'a bcache_scheme \<Rightarrow> 'a bcache_scheme" where
  "bufcache_pin b s = upd b (refcnt_update (\<lambda>r. r + 1)) s"

definition bufcache_unpin :: "nat \<Rightarrow> 'a bcache_scheme \<Rightarrow> 'a bcache_scheme" where
  "bufcache_unpin b s = upd b (refcnt_update (\<lambda>r. r - 1)) s"

section \<open>The list of buffers\<close>

fun chain :: "(nat \<Rightarrow> nat) \<Rightarrow> nat list \<Rightarrow> bool" where
  "chain nx (a # b # r) \<longleftrightarrow> nx a = b \<and> chain nx (b # r)"
| "chain nx r \<longleftrightarrow> True"

lemma chain_append: "chain nx (l @ a # r) \<longleftrightarrow> chain nx (l @ [a]) \<and> chain nx (a # r)"
proof (induction l)
  case (Cons x l)
  then show ?case by (cases l) auto
qed simp

lemma chain_cong: "(\<And>x. x \<in> set (butlast l) \<Longrightarrow> nx' x = nx x) \<Longrightarrow> chain nx' l = chain nx l"
  by (induction nx l rule: chain.induct) auto

text \<open>The ring of buffers: \<open>xs\<close> from the most to the least recently used.\<close>

definition ring :: "(nat \<Rightarrow> buf) \<Rightarrow> nat list \<Rightarrow> bool" where
  "ring f xs \<longleftrightarrow>
     chain (\<lambda>i. bnext (f i)) (NBUF # xs @ [NBUF]) \<and> chain (\<lambda>i. bprev (f i)) (NBUF # rev xs @ [NBUF]) \<and>
     distinct xs \<and> set xs = {..<NBUF}"

lemma find_cached_eq:
  "chain (\<lambda>i. bnext (f i)) (p # ys @ [NBUF]) \<Longrightarrow> NBUF \<notin> set ys \<Longrightarrow>
   find_cached f bn (bnext (f p)) = Some (find (\<lambda>i. blockno (f i) = bn) ys)"
proof (induction ys arbitrary: p)
  case (Cons y ys)
  then have "bnext (f p) = y" "y \<noteq> NBUF" by (auto simp del: chain.simps simp: chain.simps(1))
  moreover have "find_cached f bn (bnext (f y)) = Some (find (\<lambda>i. blockno (f i) = bn) ys)"
    using Cons by simp
  ultimately show ?case by (subst find_cached.simps) simp
qed (subst find_cached.simps, simp)

lemma find_unused_eq:
  "chain (\<lambda>i. bprev (f i)) (p # ys @ [NBUF]) \<Longrightarrow> NBUF \<notin> set ys \<Longrightarrow>
   find_unused f (bprev (f p)) = Some (find (\<lambda>i. refcnt (f i) = 0) ys)"
proof (induction ys arbitrary: p)
  case (Cons y ys)
  then have "bprev (f p) = y" "y \<noteq> NBUF" by auto
  moreover have "find_unused f (bprev (f y)) = Some (find (\<lambda>i. refcnt (f i) = 0) ys)"
    using Cons by simp
  ultimately show ?case by (subst find_unused.simps) simp
qed (subst find_unused.simps, simp)

lemma ring_searches:
  assumes "ring f xs"
  shows "find_cached f bn (bnext (f NBUF)) = Some (find (\<lambda>i. blockno (f i) = bn) xs)"
    "find_unused f (bprev (f NBUF)) = Some (find (\<lambda>i. refcnt (f i) = 0) (rev xs))"
  using assms find_cached_eq [of f NBUF xs] find_unused_eq [of f NBUF "rev xs"] by (auto simp: ring_def)

text \<open>Taking \<open>b\<close> out of a ring and putting it first, or last.\<close>

lemma chain_unlink:
  assumes "chain nx (l @ p # b # zs @ [h])" and "distinct (l @ p # b # zs)"
  shows "nx b = hd (zs @ [h])" "nx p = b" "chain (nx(p := nx b)) (l @ p # zs @ [h])"
proof -
  have split: "chain nx (l @ [p])" "nx p = b" "chain nx (b # zs @ [h])"
    using assms(1) chain_append [of nx l p "b # zs @ [h]"] by simp_all
  show nb: "nx b = hd (zs @ [h])" using split(3) by (cases zs) auto
  show "nx p = b" by (rule split(2))
  let ?nx = "nx(p := nx b)"
  have left: "chain ?nx (l @ [p])" using split(1) assms(2) by (subst chain_cong) auto
  have "chain nx (zs @ [h])" using split(3) by (cases zs) auto
  then have "chain ?nx (zs @ [h])" using assms(2) by (subst chain_cong) auto
  then have "chain ?nx (p # zs @ [h])" using nb by (cases zs) auto
  then show "chain ?nx (l @ p # zs @ [h])" using left chain_append by blast
qed

lemma chain_push:
  assumes "chain nx (h # xs @ [h])" and "distinct (h # xs)" and "b \<notin> set (h # xs)"
  shows "chain (nx(b := nx h, h := b)) (h # b # xs @ [h])"
proof (cases xs)
  case (Cons x r)
  have "chain (nx(b := nx h, h := b)) (xs @ [h]) = chain nx (xs @ [h])"
    by (rule chain_cong) (use assms in auto)
  then show ?thesis using assms Cons by auto
qed (use assms in auto)

lemma chain_snoc:
  assumes "chain pv (l @ [p, h])" and "distinct (l @ [p])" and "b \<notin> set (l @ [p, h])"
  shows "chain (pv(b := h, p := b)) (l @ [p, b, h])"
proof -
  have "chain pv (l @ [p])" using assms(1) chain_append [of pv l p "[h]"] by simp
  then have "chain (pv(b := h, p := b)) (l @ [p])" using assms by (subst chain_cong) auto
  moreover have "chain (pv(b := h, p := b)) (p # [b, h])" using assms(3) by auto
  ultimately show ?thesis using chain_append [of _ l p "[b, h]"] by blast
qed

text \<open>The six assignments of \<open>bufcache_release\<close> as updates of the two link functions.\<close>

lemma ring_move:
  assumes r: "ring f xs" and b: "b < NBUF"
    and nx: "\<And>i. bnext (g i) = ((\<lambda>i. bnext (f i))(bprev (f b) := bnext (f b), b := h, NBUF := b)) i"
    and h: "h = ((\<lambda>i. bnext (f i))(bprev (f b) := bnext (f b))) NBUF"
    and pv: "\<And>i. bprev (g i) = ((\<lambda>i. bprev (f i))(bnext (f b) := bprev (f b), b := NBUF, h := b)) i"
  shows "ring g (b # remove1 b xs)"
proof -
  obtain ys zs where xs: "xs = ys @ b # zs" "b \<notin> set ys"
    using r b split_list_first [of b xs] by (auto simp: ring_def)
  have d: "distinct (NBUF # ys @ b # zs)" and set: "set xs = {..<NBUF}" using r xs by (auto simp: ring_def)
  obtain l p where l: "NBUF # ys = l @ [p]" by (metis append_butlast_last_id list.distinct(1))
  obtain l' n where l': "NBUF # rev zs = l' @ [n]" by (metis append_butlast_last_id list.distinct(1))
  let ?nx = "\<lambda>i. bnext (f i)" and ?pv = "\<lambda>i. bprev (f i)"
  have e1: "(NBUF # ys) @ us = l @ p # us" for us using arg_cong [OF l, of "\<lambda>u. u @ us"] by simp
  have e2: "(NBUF # rev zs) @ us = l' @ n # us" for us using arg_cong [OF l', of "\<lambda>u. u @ us"] by simp
  have c1: "chain ?nx (l @ p # b # zs @ [NBUF])" unfolding e1 [symmetric] using r by (simp add: ring_def xs)
  have c2: "chain ?pv (l' @ n # b # rev ys @ [NBUF])" unfolding e2 [symmetric] using r by (simp add: ring_def xs)
  have d1: "distinct (l @ p # b # zs)" unfolding e1 [symmetric] using d by simp
  have d2: "distinct (l' @ n # b # rev ys)" unfolding e2 [symmetric] using d by auto
  note u1 = chain_unlink [OF c1 d1] and u2 = chain_unlink [OF c2 d2]
  have "rev ys @ [NBUF] = p # rev l" using arg_cong [OF l, of rev] by simp
  then have p: "bprev (f b) = p" using u2(1) by simp
  have "zs @ [NBUF] = n # rev l'" using arg_cong [OF l', of rev] by simp
  then have n: "bnext (f b) = n" using u1(1) by simp
  have k1: "chain (?nx(p := n)) (NBUF # (ys @ zs) @ [NBUF])" using u1(3) n unfolding e1 [symmetric] by simp
  have k2: "chain (?pv(n := p)) (NBUF # rev (ys @ zs) @ [NBUF])" using u2(3) p unfolding e2 [symmetric] by simp
  have h': "h = (?nx(p := n)) NBUF" using h p n by simp
  have "chain ((?nx(p := n))(b := h, NBUF := b)) (NBUF # b # (ys @ zs) @ [NBUF])"
    unfolding h' using d by (intro chain_push [OF k1]) auto
  then have next': "chain (\<lambda>i. bnext (g i)) (NBUF # b # (ys @ zs) @ [NBUF])"
    using nx p n by (subst chain_cong [where nx = "(?nx(p := n))(b := h, NBUF := b)"]) simp_all
  obtain t where t: "ys @ zs @ [NBUF] = h # t"
    using k1 h' by (cases "ys @ zs @ [NBUF]") auto
  have t': "NBUF # rev (ys @ zs) = rev t @ [h]" using arg_cong [OF t, of rev] by simp
  have e3: "(NBUF # rev (ys @ zs)) @ us = rev t @ h # us" for us using arg_cong [OF t', of "\<lambda>u. u @ us"] by simp
  have k2': "chain (?pv(n := p)) (rev t @ [h, NBUF])" unfolding e3 [symmetric] using k2 by simp
  have "distinct (rev t @ [h])" unfolding t' [symmetric] using d by auto
  moreover have "b \<notin> set (rev t @ [h, NBUF])" unfolding e3 [symmetric] using d by auto
  ultimately have "chain ((?pv(n := p))(b := NBUF, h := b)) (rev t @ [h, b, NBUF])" by (rule chain_snoc [OF k2'])
  then have "chain ((?pv(n := p))(b := NBUF, h := b)) (NBUF # rev (b # ys @ zs) @ [NBUF])"
    unfolding e3 [symmetric] by simp
  then have prev': "chain (\<lambda>i. bprev (g i)) (NBUF # rev (b # ys @ zs) @ [NBUF])"
    using pv p n by (subst chain_cong [where nx = "(?pv(n := p))(b := NBUF, h := b)"]) simp_all
  have "remove1 b xs = ys @ zs" using xs by (simp add: remove1_append)
  then show ?thesis using next' prev' d set xs by (auto simp: ring_def)
qed

lemma ring_cong: "(\<And>i. bnext (g i) = bnext (f i) \<and> bprev (g i) = bprev (f i)) \<Longrightarrow> ring g xs = ring f xs"
  by (simp add: ring_def)

section \<open>The cache as a store of blocks\<close>

text \<open>
  The invariant: the list is intact, a block other than 0 (the boot block, which nobody reads) is
  in at most one buffer, exactly the buffers with such a block are valid, a locked buffer is
  referenced and held by the running process, and a buffer nobody references holds what is on
  the disk.
\<close>

definition buf_ok :: "(u32 \<Rightarrow> blk) \<Rightarrow> int \<Rightarrow> buf \<Rightarrow> bool" where
  "buf_ok d me u \<longleftrightarrow>
     (valid u \<longleftrightarrow> blockno u \<noteq> 0) \<and> (valid u \<longrightarrow> length (bdata u) = BSIZE) \<and>
     (refcnt u \<noteq> 0 \<longrightarrow> valid u) \<and> (valid u \<longrightarrow> refcnt u = 0 \<longrightarrow> bdata u = d (blockno u)) \<and>
     (slocked (block_lock u) \<noteq> 0 \<longrightarrow> refcnt u \<noteq> 0 \<and> spid (block_lock u) = me)"

definition one_copy :: "(nat \<Rightarrow> buf) \<Rightarrow> bool" where
  "one_copy f \<longleftrightarrow> (\<forall>i<NBUF. \<forall>j<NBUF. blockno (f i) = blockno (f j) \<longrightarrow> blockno (f i) \<noteq> 0 \<longrightarrow> i = j)"

definition bc_inv :: "'a bcache_scheme \<Rightarrow> bool" where
  "bc_inv s \<longleftrightarrow>
     (\<exists>xs. ring (bufs s) xs) \<and> (\<forall>b. length (disk s b) = BSIZE) \<and> one_copy (bufs s) \<and>
     (\<forall>i<NBUF. buf_ok (disk s) (mypid s) (bufs s i))"

definition buf_ids :: "nat list" where
  "buf_ids = [0..<NBUF]"

definition buf_of :: "'a bcache_scheme \<Rightarrow> u32 \<Rightarrow> nat option" where
  "buf_of s b = (if b = 0 then None else find (\<lambda>i. blockno (bufs s i) = b) buf_ids)"

definition content :: "'a bcache_scheme \<Rightarrow> u32 \<Rightarrow> blk" where
  "content s b = (case buf_of s b of None \<Rightarrow> disk s b | Some i \<Rightarrow> bdata (bufs s i))"

definition refs :: "'a bcache_scheme \<Rightarrow> u32 \<Rightarrow> nat" where
  "refs s b = (case buf_of s b of None \<Rightarrow> 0 | Some i \<Rightarrow> unat (refcnt (bufs s i)))"

definition held :: "'a bcache_scheme \<Rightarrow> u32 \<Rightarrow> bool" where
  "held s b = (case buf_of s b of None \<Rightarrow> False | Some i \<Rightarrow> slocked (block_lock (bufs s i)) \<noteq> 0)"

text \<open>\<open>bat s i b\<close>: the pointer \<open>i\<close> is a reference to block \<open>b\<close>.\<close>

definition bat :: "'a bcache_scheme \<Rightarrow> nat \<Rightarrow> u32 \<Rightarrow> bool" where
  "bat s i b \<longleftrightarrow> i < NBUF \<and> blockno (bufs s i) = b \<and> refcnt (bufs s i) \<noteq> 0"

lemma set_buf_ids [simp]: "set buf_ids = {..<NBUF}"
  unfolding buf_ids_def set_upt by auto

lemma bc_inv_buf:
  assumes "bc_inv s" and "i < NBUF"
  shows "valid (bufs s i) \<longleftrightarrow> blockno (bufs s i) \<noteq> 0"
    "blockno (bufs s i) \<noteq> 0 \<Longrightarrow> length (bdata (bufs s i)) = BSIZE"
    "refcnt (bufs s i) \<noteq> 0 \<Longrightarrow> blockno (bufs s i) \<noteq> 0"
    "blockno (bufs s i) \<noteq> 0 \<Longrightarrow> refcnt (bufs s i) = 0 \<Longrightarrow> bdata (bufs s i) = disk s (blockno (bufs s i))"
    "slocked (block_lock (bufs s i)) \<noteq> 0 \<Longrightarrow> refcnt (bufs s i) \<noteq> 0"
    "slocked (block_lock (bufs s i)) \<noteq> 0 \<Longrightarrow> spid (block_lock (bufs s i)) = mypid s"
proof -
  have "buf_ok (disk s) (mypid s) (bufs s i)" using assms by (simp add: bc_inv_def)
  then show "valid (bufs s i) \<longleftrightarrow> blockno (bufs s i) \<noteq> 0"
    "blockno (bufs s i) \<noteq> 0 \<Longrightarrow> length (bdata (bufs s i)) = BSIZE"
    "refcnt (bufs s i) \<noteq> 0 \<Longrightarrow> blockno (bufs s i) \<noteq> 0"
    "blockno (bufs s i) \<noteq> 0 \<Longrightarrow> refcnt (bufs s i) = 0 \<Longrightarrow> bdata (bufs s i) = disk s (blockno (bufs s i))"
    "slocked (block_lock (bufs s i)) \<noteq> 0 \<Longrightarrow> refcnt (bufs s i) \<noteq> 0"
    "slocked (block_lock (bufs s i)) \<noteq> 0 \<Longrightarrow> spid (block_lock (bufs s i)) = mypid s"
    by (auto simp: buf_ok_def)
qed

lemma one_copyD:
  "bc_inv s \<Longrightarrow> i < NBUF \<Longrightarrow> j < NBUF \<Longrightarrow> blockno (bufs s i) = blockno (bufs s j) \<Longrightarrow>
   blockno (bufs s j) \<noteq> 0 \<Longrightarrow> i = j"
  by (auto simp: bc_inv_def one_copy_def)

lemma buf_of_SomeD: "buf_of s b = Some i \<Longrightarrow> i < NBUF \<and> blockno (bufs s i) = b \<and> b \<noteq> 0"
  by (auto simp: buf_of_def find_Some_iff split: if_splits dest: nth_mem)

lemma buf_of_None: "buf_of s b = None \<longleftrightarrow> b = 0 \<or> (\<forall>i<NBUF. blockno (bufs s i) \<noteq> b)"
  by (auto simp: buf_of_def find_None_iff)

lemma buf_of_Some:
  assumes "bc_inv s" and "i < NBUF" and "blockno (bufs s i) = b" and "b \<noteq> 0"
  shows "buf_of s b = Some i"
proof (cases "buf_of s b")
  case None
  then show ?thesis using assms(2-4) unfolding buf_of_None by blast
next
  case (Some j)
  then have "j < NBUF" "blockno (bufs s j) = b" using buf_of_SomeD by blast+
  then have "j = i" using one_copyD [OF assms(1) _ assms(2), of j] assms(3,4) by simp
  then show ?thesis using Some by simp
qed

text \<open>What the operations never change: the running process and the state built on top of the cache.\<close>

definition rest :: "'a bcache_scheme \<Rightarrow> int \<times> 'a" where
  "rest s = (mypid s, bcache.more s)"

lemma view_cong:
  assumes "bufs s' = bufs s" and "disk s' = disk s" and "mypid s' = mypid s"
  shows "bc_inv s' = bc_inv s" "content s' = content s" "refs s' = refs s" "held s' = held s" "bat s' = bat s"
proof -
  have "buf_of s' = buf_of s" by (simp add: buf_of_def assms fun_eq_iff)
  then show "content s' = content s" "refs s' = refs s" "held s' = held s"
    by (auto simp: content_def refs_def held_def assms fun_eq_iff split: option.splits)
qed (auto simp: bc_inv_def bat_def assms fun_eq_iff)

lemma bat_buf_of: "bc_inv s \<Longrightarrow> bat s i b \<Longrightarrow> buf_of s b = Some i"
  using buf_of_Some [of s i b] bc_inv_buf(3) [of s i] by (auto simp: bat_def)

lemma length_content: "bc_inv s \<Longrightarrow> length (content s b) = BSIZE"
  using buf_of_SomeD [of s b] bc_inv_buf(2) [of s]
  by (auto simp: content_def bc_inv_def split: option.splits)

text \<open>What the cache keeps of a buffer besides its place in the list.\<close>

definition same_buf :: "buf \<Rightarrow> buf \<Rightarrow> bool" where
  "same_buf u v \<longleftrightarrow> valid u = valid v \<and> blockno u = blockno v \<and> block_lock u = block_lock v \<and>
     refcnt u = refcnt v \<and> bdata u = bdata v"

lemma same_buf_refl [simp]: "same_buf u u"
  by (simp add: same_buf_def)

lemma buf_ok_same: "same_buf u v \<Longrightarrow> buf_ok d me u = buf_ok d me v"
  by (simp add: buf_ok_def same_buf_def)

lemma bc_inv_change:
  assumes inv: "bc_inv s" and i: "i < NBUF" and ring: "\<exists>xs. ring (bufs s') xs"
    and d: "disk s' = disk s" "mypid s' = mypid s"
    and others: "\<And>j. j < NBUF \<Longrightarrow> j \<noteq> i \<Longrightarrow> same_buf (bufs s' j) (bufs s j)"
    and uniq: "\<And>j. j < NBUF \<Longrightarrow> j \<noteq> i \<Longrightarrow> blockno (bufs s' i) \<noteq> 0 \<Longrightarrow> blockno (bufs s j) \<noteq> blockno (bufs s' i)"
    and ok: "buf_ok (disk s) (mypid s) (bufs s' i)"
  shows "bc_inv s'"
proof -
  have "one_copy (bufs s')"
    unfolding one_copy_def
  proof (intro allI impI)
    fix j k assume jk: "j < NBUF" "k < NBUF" "blockno (bufs s' j) = blockno (bufs s' k)" "blockno (bufs s' j) \<noteq> 0"
    have "blockno (bufs s' l) = blockno (bufs s l)" if "l < NBUF" "l \<noteq> i" for l
      using others [OF that] by (simp add: same_buf_def)
    note same = this
    consider "j = i" "k = i" | "j = i" "k \<noteq> i" | "j \<noteq> i" "k = i" | "j \<noteq> i" "k \<noteq> i" by blast
    then show "j = k"
    proof cases
      case 2
      then show ?thesis using jk same uniq [of k] by metis
    next
      case 3
      then show ?thesis using jk same uniq [of j] by metis
    next
      case 4
      then show ?thesis using jk same one_copyD [OF inv jk(1,2)] by metis
    qed simp
  qed
  moreover have "buf_ok (disk s') (mypid s') (bufs s' j)" if "j < NBUF" for j
  proof (cases "j = i")
    case False
    then have "buf_ok (disk s) (mypid s) (bufs s j)" "same_buf (bufs s' j) (bufs s j)"
      using inv that others by (auto simp: bc_inv_def)
    then show ?thesis by (simp add: d buf_ok_same)
  qed (simp add: d ok)
  ultimately show ?thesis using inv ring by (simp add: bc_inv_def d)
qed

text \<open>The view after a change of buffer \<open>i\<close> alone that leaves its block number.\<close>

lemma view_change:
  assumes inv: "bc_inv s" "bc_inv s'" and i: "i < NBUF" and b: "blockno (bufs s i) = b" "b \<noteq> 0"
    and b': "blockno (bufs s' i) = b" and d: "disk s' = disk s"
    and others: "\<And>j. j < NBUF \<Longrightarrow> j \<noteq> i \<Longrightarrow> same_buf (bufs s' j) (bufs s j)"
  shows "content s' = (content s)(b := bdata (bufs s' i))"
    "refs s' = (refs s)(b := unat (refcnt (bufs s' i)))"
    "held s' = (held s)(b := slocked (block_lock (bufs s' i)) \<noteq> 0)"
    "\<And>j c. j \<noteq> i \<Longrightarrow> bat s' j c = bat s j c"
proof -
  have i': "buf_of s' b = Some i" by (rule buf_of_Some [OF inv(2) i b' b(2)])
  have same: "buf_of s' c = buf_of s c" if "c \<noteq> b" for c
  proof (cases "buf_of s c")
    case None
    have "blockno (bufs s' j) \<noteq> c" if j: "j < NBUF" "c \<noteq> 0" for j
    proof (cases "j = i")
      case False
      then show ?thesis using others [OF j(1) False] None j by (simp add: buf_of_None same_buf_def)
    qed (use b' \<open>c \<noteq> b\<close> in simp)
    then have "buf_of s' c = None" by (auto simp: buf_of_None)
    then show ?thesis using None by simp
  next
    case (Some j)
    then have "j < NBUF" "blockno (bufs s j) = c" "c \<noteq> 0" using buf_of_SomeD by auto
    moreover have "j \<noteq> i" using calculation b that by auto
    ultimately have "buf_of s' c = Some j" using others by (intro buf_of_Some [OF inv(2)]) (auto simp: same_buf_def)
    then show ?thesis using Some by simp
  qed
  have sb: "same_buf (bufs s' j) (bufs s j)" if "buf_of s c = Some j" "c \<noteq> b" for c j
    using that buf_of_SomeD [OF that(1)] b others [of j] by auto
  have view: "content s' c = content s c" "refs s' c = refs s c" "held s' c = held s c" if "c \<noteq> b" for c
  proof -
    have eq: "buf_of s' c = buf_of s c" using that by (rule same)
    have "same_buf (bufs s' j) (bufs s j)" if "buf_of s c = Some j" for j
      using sb [OF that \<open>c \<noteq> b\<close>] .
    then show "content s' c = content s c" "refs s' c = refs s c" "held s' c = held s c"
      by (cases "buf_of s c"; simp add: content_def refs_def held_def eq d same_buf_def)+
  qed
  show "content s' = (content s)(b := bdata (bufs s' i))"
    by (rule ext) (simp add: view, simp add: content_def i')
  show "refs s' = (refs s)(b := unat (refcnt (bufs s' i)))"
    by (rule ext) (simp add: view, simp add: refs_def i')
  show "held s' = (held s)(b := slocked (block_lock (bufs s' i)) \<noteq> 0)"
    by (rule ext) (simp add: view, simp add: held_def i')
  show "\<And>j c. j \<noteq> i \<Longrightarrow> bat s' j c = bat s j c"
    using others by (auto simp: bat_def same_buf_def)
qed

lemma upd_fields [simp]:
  "bufs (upd i f s) = (bufs s)(i := f (bufs s i))" "disk (upd i f s) = disk s"
  "dwrites (upd i f s) = dwrites s" "mypid (upd i f s) = mypid s" "rest (upd i f s) = rest s"
  by (simp_all add: upd_def rest_def)

lemma upd_view:
  assumes inv: "bc_inv s" and i: "i < NBUF" and b: "blockno (bufs s i) = b" "b \<noteq> 0"
    and u: "u = f (bufs s i)" "blockno u = b" "bnext u = bnext (bufs s i)" "bprev u = bprev (bufs s i)"
    and ok: "buf_ok (disk s) (mypid s) u"
  shows "bc_inv (upd i f s)" "content (upd i f s) = (content s)(b := bdata u)"
    "refs (upd i f s) = (refs s)(b := unat (refcnt u))"
    "held (upd i f s) = (held s)(b := slocked (block_lock u) \<noteq> 0)"
    "\<And>j c. j \<noteq> i \<Longrightarrow> bat (upd i f s) j c = bat s j c"
proof -
  obtain xs where "ring (bufs s) xs" using inv by (auto simp: bc_inv_def)
  then have ring: "ring (bufs (upd i f s)) xs"
    using u by (subst ring_cong [where f = "bufs s"]) auto
  show inv': "bc_inv (upd i f s)"
  proof (rule bc_inv_change [OF inv i])
    show "\<exists>xs. ring (bufs (upd i f s)) xs" using ring by blast
    show "blockno (bufs s j) \<noteq> blockno (bufs (upd i f s) i)" if "j < NBUF" "j \<noteq> i" for j
      using one_copyD [OF inv that(1) i] that(2) b u by auto
  qed (use ok u in auto)
  have at: "bufs (upd i f s) i = u" by (simp add: u)
  have same: "same_buf (bufs (upd i f s) j) (bufs s j)" if "j \<noteq> i" for j using that by simp
  note view = view_change [OF inv inv' i b _ _ same, unfolded at]
  show "content (upd i f s) = (content s)(b := bdata u)" "refs (upd i f s) = (refs s)(b := unat (refcnt u))"
    "held (upd i f s) = (held s)(b := slocked (block_lock u) \<noteq> 0)"
    "\<And>j c. j \<noteq> i \<Longrightarrow> bat (upd i f s) j c = bat s j c"
    using u by (intro view; simp)+
qed

text \<open>The view of one block, by its buffer.\<close>

lemma bat_view:
  assumes "bc_inv s" and "bat s i b"
  shows "i < NBUF" "blockno (bufs s i) = b" "b \<noteq> 0" "buf_ok (disk s) (mypid s) (bufs s i)"
    "content s b = bdata (bufs s i)" "refs s b = unat (refcnt (bufs s i))"
    "held s b \<longleftrightarrow> slocked (block_lock (bufs s i)) \<noteq> 0"
proof -
  show i: "i < NBUF" and b: "blockno (bufs s i) = b" using assms(2) by (auto simp: bat_def)
  show "b \<noteq> 0" using bc_inv_buf(3) [OF assms(1) i] assms(2) by (auto simp: bat_def)
  show "buf_ok (disk s) (mypid s) (bufs s i)" using assms(1) i by (simp add: bc_inv_def)
  show "content s b = bdata (bufs s i)" "refs s b = unat (refcnt (bufs s i))"
    "held s b \<longleftrightarrow> slocked (block_lock (bufs s i)) \<noteq> 0"
    using bat_buf_of [OF assms] by (simp_all add: content_def refs_def held_def)
qed

lemma refcnt_plus: "unat r + 1 < 2 ^ 32 \<Longrightarrow> unat (r + 1) = unat r + 1" for r :: u32
  by (subst unat_plus_no_wrap) simp_all

lemma refcnt_minus: "r \<noteq> 0 \<Longrightarrow> unat (r - 1) = unat r - 1" for r :: u32
  by (rule unat_minus_one)

lemma bufcache_pin_ok:
  assumes "bc_inv s" and "bat s i b" and "refs s b + 1 < 2 ^ 32"
  shows "bc_inv (bufcache_pin i s)" "content (bufcache_pin i s) = content s"
    "refs (bufcache_pin i s) = (refs s)(b := refs s b + 1)" "held (bufcache_pin i s) = held s"
    "disk (bufcache_pin i s) = disk s" "dwrites (bufcache_pin i s) = dwrites s" "rest (bufcache_pin i s) = rest s"
    "bat (bufcache_pin i s) j c = bat s j c"
proof -
  note v = bat_view [OF assms(1,2)]
  let ?u = "refcnt_update (\<lambda>r. r + 1) (bufs s i)"
  have r: "unat (refcnt ?u) = refs s b + 1" using refcnt_plus v(6) assms(3) by simp
  then have nz: "refcnt ?u \<noteq> 0" by auto
  have "refcnt (bufs s i) \<noteq> 0" using assms(2) by (simp add: bat_def)
  then have "buf_ok (disk s) (mypid s) ?u" using v(4) nz by (auto simp: buf_ok_def)
  note uv = upd_view [OF assms(1) v(1,2,3), of ?u "refcnt_update (\<lambda>r. r + 1)", OF refl _ _ _ this]
  show "bc_inv (bufcache_pin i s)" "content (bufcache_pin i s) = content s"
    "refs (bufcache_pin i s) = (refs s)(b := refs s b + 1)" "held (bufcache_pin i s) = held s"
    "disk (bufcache_pin i s) = disk s" "dwrites (bufcache_pin i s) = dwrites s" "rest (bufcache_pin i s) = rest s"
    using uv v r by (auto simp: bufcache_pin_def fun_eq_iff)
  show "bat (bufcache_pin i s) j c = bat s j c"
    using uv(5) [of j c] v nz assms(2) by (cases "j = i") (auto simp: bufcache_pin_def bat_def)
qed

lemma bufcache_unpin_ok:
  assumes "bc_inv s" and "bat s i b" and "2 \<le> refs s b"
  shows "bc_inv (bufcache_unpin i s)" "content (bufcache_unpin i s) = content s"
    "refs (bufcache_unpin i s) = (refs s)(b := refs s b - 1)" "held (bufcache_unpin i s) = held s"
    "disk (bufcache_unpin i s) = disk s" "dwrites (bufcache_unpin i s) = dwrites s" "rest (bufcache_unpin i s) = rest s"
    "bat (bufcache_unpin i s) j c = bat s j c"
proof -
  note v = bat_view [OF assms(1,2)]
  let ?u = "refcnt_update (\<lambda>r. r - 1) (bufs s i)"
  have "refcnt (bufs s i) \<noteq> 0" using assms(2) by (simp add: bat_def)
  then have r: "unat (refcnt ?u) = refs s b - 1" using refcnt_minus v(6) by simp
  then have nz: "refcnt ?u \<noteq> 0" using assms(3) by auto
  then have "buf_ok (disk s) (mypid s) ?u" using v(4) \<open>refcnt (bufs s i) \<noteq> 0\<close> by (auto simp: buf_ok_def)
  note uv = upd_view [OF assms(1) v(1,2,3), of ?u "refcnt_update (\<lambda>r. r - 1)", OF refl _ _ _ this]
  show "bc_inv (bufcache_unpin i s)" "content (bufcache_unpin i s) = content s"
    "refs (bufcache_unpin i s) = (refs s)(b := refs s b - 1)" "held (bufcache_unpin i s) = held s"
    "disk (bufcache_unpin i s) = disk s" "dwrites (bufcache_unpin i s) = dwrites s" "rest (bufcache_unpin i s) = rest s"
    using uv v r by (auto simp: bufcache_unpin_def fun_eq_iff)
  show "bat (bufcache_unpin i s) j c = bat s j c"
    using uv(5) [of j c] v nz assms(2) by (cases "j = i") (auto simp: bufcache_unpin_def bat_def)
qed

text \<open>A store of the owner into the data of a buffer.\<close>

definition set_data :: "nat \<Rightarrow> blk \<Rightarrow> 'a bcache_scheme \<Rightarrow> 'a bcache_scheme" where
  "set_data i d s = upd i (bdata_update (\<lambda>_. d)) s"

lemma set_data_ok:
  assumes "bc_inv s" and "bat s i b" and "length d = BSIZE"
  shows "bc_inv (set_data i d s)" "content (set_data i d s) = (content s)(b := d)"
    "refs (set_data i d s) = refs s" "held (set_data i d s) = held s"
    "disk (set_data i d s) = disk s" "dwrites (set_data i d s) = dwrites s" "rest (set_data i d s) = rest s"
    "bat (set_data i d s) j c = bat s j c"
proof -
  note v = bat_view [OF assms(1,2)]
  let ?u = "bdata_update (\<lambda>_. d) (bufs s i)"
  have "refcnt (bufs s i) \<noteq> 0" using assms(2) by (simp add: bat_def)
  then have "buf_ok (disk s) (mypid s) ?u" using v(4) assms(3) by (auto simp: buf_ok_def)
  note uv = upd_view [OF assms(1) v(1,2,3), of ?u "bdata_update (\<lambda>_. d)", OF refl _ _ _ this]
  show "bc_inv (set_data i d s)" "content (set_data i d s) = (content s)(b := d)"
    "refs (set_data i d s) = refs s" "held (set_data i d s) = held s"
    "disk (set_data i d s) = disk s" "dwrites (set_data i d s) = dwrites s" "rest (set_data i d s) = rest s"
    using uv v by (auto simp: set_data_def fun_eq_iff)
  show "bat (set_data i d s) j c = bat s j c"
    using uv(5) [of j c] v assms(2) by (cases "j = i") (auto simp: set_data_def bat_def)
qed

lemma holding_held:
  assumes "bc_inv s" and "bat s i b" and "held s b"
  shows "holdingsleep (mypid s) (block_lock (bufs s i))"
  using bat_view [OF assms(1,2)] bc_inv_buf(6) [OF assms(1), of i] assms(3) by (simp add: holdingsleep_def)

lemma bufcache_write_ok:
  assumes inv: "bc_inv s" and at: "bat s i b" and "held s b"
  shows "\<exists>s'. bufcache_write i s = Some s' \<and> bc_inv s' \<and> content s' = content s \<and> refs s' = refs s \<and>
    held s' = held s \<and> disk s' = (disk s)(b := content s b) \<and> dwrites s' = dwrites s @ [(b, content s b)] \<and>
    rest s' = rest s \<and> (\<forall>j c. bat s' j c = bat s j c)"
proof -
  note v = bat_view [OF inv at]
  define s' where "s' = disk_rw i True s"
  have bufs: "bufs s' = bufs s" and d: "disk s' = (disk s)(b := content s b)"
    and w: "dwrites s' = dwrites s @ [(b, content s b)]" and me: "mypid s' = mypid s" and rs: "rest s' = rest s"
    using v by (simp_all add: s'_def disk_rw_def rest_def)
  have "buf_ok (disk s') (mypid s') (bufs s' j)" if "j < NBUF" for j
  proof (cases "j = i")
    case True
    have "refcnt (bufs s i) \<noteq> 0" using at by (simp add: bat_def)
    then show ?thesis using True v(4) by (auto simp: bufs me buf_ok_def)
  next
    case False
    then have "blockno (bufs s j) \<noteq> b" using one_copyD [OF inv that v(1)] v(2,3) by auto
    moreover have "buf_ok (disk s) (mypid s) (bufs s j)" using inv that by (simp add: bc_inv_def)
    ultimately show ?thesis by (auto simp: bufs me d buf_ok_def)
  qed
  moreover have "length (disk s' c) = BSIZE" for c
    using length_content [OF inv] inv by (simp add: d bc_inv_def)
  ultimately have "bc_inv s'" using inv by (simp add: bc_inv_def bufs)
  moreover have bo: "buf_of s' = buf_of s" by (simp add: buf_of_def bufs fun_eq_iff)
  then have "content s' = content s"
    using bat_buf_of [OF inv at] by (auto simp: content_def bufs d fun_eq_iff split: option.splits)
  moreover have "refs s' = refs s" "held s' = held s" using bo by (auto simp: refs_def held_def bufs fun_eq_iff split: option.splits)
  moreover have "bufcache_write i s = Some s'"
    using holding_held [OF assms] by (simp add: bufcache_write_def s'_def)
  ultimately show ?thesis using d w rs by (auto simp: bat_def bufs)
qed

text \<open>The links after the assignments of \<open>bufcache_release\<close>.\<close>

definition move_front :: "nat \<Rightarrow> 'a bcache_scheme \<Rightarrow> 'a bcache_scheme" where
  "move_front b s =
     (let s = upd (bnext (bufs s b)) (bprev_update (\<lambda>_. bprev (bufs s b))) s;
          s = upd (bprev (bufs s b)) (bnext_update (\<lambda>_. bnext (bufs s b))) s;
          s = upd b (bnext_update (\<lambda>_. bnext (bufs s NBUF))) s;
          s = upd b (bprev_update (\<lambda>_. NBUF)) s;
          s = upd (bnext (bufs s NBUF)) (bprev_update (\<lambda>_. b)) s
      in upd NBUF (bnext_update (\<lambda>_. b)) s)"

definition nxt :: "'a bcache_scheme \<Rightarrow> nat \<Rightarrow> nat" where
  "nxt s i = bnext (bufs s i)"

definition prv :: "'a bcache_scheme \<Rightarrow> nat \<Rightarrow> nat" where
  "prv s i = bprev (bufs s i)"

lemma links_upd:
  "nxt (upd i (bnext_update (\<lambda>_. v)) s) = (nxt s)(i := v)" "prv (upd i (bnext_update (\<lambda>_. v)) s) = prv s"
  "nxt (upd i (bprev_update (\<lambda>_. v)) s) = nxt s" "prv (upd i (bprev_update (\<lambda>_. v)) s) = (prv s)(i := v)"
  by (auto simp: nxt_def prv_def fun_eq_iff)

lemma move_front_links:
  assumes "nxt s b \<noteq> b" and "b \<noteq> NBUF" and "h = ((nxt s)(prv s b := nxt s b)) NBUF"
  shows "nxt (move_front b s) = (nxt s)(prv s b := nxt s b, b := h, NBUF := b)"
    "prv (move_front b s) = (prv s)(nxt s b := prv s b, b := NBUF, h := b)"
  using assms
  by (simp_all add: move_front_def Let_def links_upd flip: nxt_def prv_def del: upd_fields)

lemma ring_next_neq:
  assumes "ring (bufs s) xs" and "b < NBUF"
  shows "nxt s b \<noteq> b"
proof -
  obtain ys zs where xs: "xs = ys @ b # zs" using assms split_list [of b xs] by (auto simp: ring_def)
  have "chain (nxt s) ((NBUF # ys) @ b # zs @ [NBUF])" using assms(1) by (simp add: ring_def xs nxt_def [abs_def])
  then have "chain (nxt s) (b # zs @ [NBUF])" using chain_append by blast
  moreover have "b \<notin> set zs" "b \<noteq> NBUF" using assms xs by (auto simp: ring_def)
  ultimately show ?thesis by (cases zs) auto
qed

lemma move_front_ring:
  assumes "ring (bufs s) xs" and "b < NBUF"
  shows "ring (bufs (move_front b s)) (b # remove1 b xs)"
proof -
  have "b \<noteq> NBUF" using assms(2) by simp
  note links = move_front_links [OF ring_next_neq [OF assms] this refl]
  show ?thesis
    by (rule ring_move [OF assms _ refl])
      (simp_all add: links [unfolded nxt_def [abs_def] prv_def [abs_def], THEN fun_cong])
qed

lemma same_upd_links:
  "same_buf (bufs (upd i (bnext_update (\<lambda>_. v)) s) j) u = same_buf (bufs s j) u"
  "same_buf (bufs (upd i (bprev_update (\<lambda>_. v)) s) j) u = same_buf (bufs s j) u"
  by (simp_all add: same_buf_def)

lemma move_front_same [simp]: "same_buf (bufs (move_front b s) j) (bufs s j)"
  "disk (move_front b s) = disk s" "dwrites (move_front b s) = dwrites s" "mypid (move_front b s) = mypid s"
  "rest (move_front b s) = rest s"
  by (simp_all add: move_front_def Let_def same_upd_links del: upd_fields(1))

lemma bufcache_release_eq:
  "bufcache_release b s =
     (if \<not> holdingsleep (mypid s) (block_lock (bufs s b)) then None
      else let s = upd b (\<lambda>u. u\<lparr>block_lock := releasesleep (block_lock u), refcnt := refcnt u - 1\<rparr>) s
           in Some (if refcnt (bufs s b) = 0 then move_front b s else s))"
proof -
  have "upd b (refcnt_update (\<lambda>r. r - 1)) (upd b (block_lock_update releasesleep) s) =
      upd b (\<lambda>u. u\<lparr>block_lock := releasesleep (block_lock u), refcnt := refcnt u - 1\<rparr>) s"
    by (cases "bufs s b") (simp add: upd_def)
  then show ?thesis unfolding bufcache_release_def move_front_def panic_def Let_def by presburger
qed

lemma move_front_view:
  assumes inv: "bc_inv s" and i: "i < NBUF" and b: "blockno (bufs s i) = b" "b \<noteq> 0"
  shows "bc_inv (move_front i s)" "content (move_front i s) = content s" "refs (move_front i s) = refs s"
    "held (move_front i s) = held s" "bat (move_front i s) j c = bat s j c"
proof -
  have same: "same_buf (bufs (move_front i s) j) (bufs s j)" for j by simp
  obtain xs where "ring (bufs s) xs" using inv by (auto simp: bc_inv_def)
  then have ring: "\<exists>xs. ring (bufs (move_front i s)) xs" using move_front_ring [OF _ i] by blast
  have at: "blockno (bufs (move_front i s) i) = b" "bdata (bufs (move_front i s) i) = bdata (bufs s i)"
    "refcnt (bufs (move_front i s) i) = refcnt (bufs s i)"
    "block_lock (bufs (move_front i s) i) = block_lock (bufs s i)"
    using same [of i] b by (simp_all add: same_buf_def)
  have ok: "buf_ok (disk s) (mypid s) (bufs (move_front i s) i)"
    using inv i by (simp add: bc_inv_def buf_ok_same [OF same])
  show inv': "bc_inv (move_front i s)"
    by (rule bc_inv_change [OF inv i ring _ _ same _ ok])
      (use one_copyD [OF inv _ i] b at in auto)
  note view = view_change [OF inv inv' i b at(1) _ same, unfolded at(2-4)]
  have own: "content s b = bdata (bufs s i)" "refs s b = unat (refcnt (bufs s i))"
    "held s b = (slocked (block_lock (bufs s i)) \<noteq> 0)"
    using buf_of_Some [OF inv i b] by (simp_all add: content_def refs_def held_def)
  show "content (move_front i s) = content s" "refs (move_front i s) = refs s" "held (move_front i s) = held s"
    using view(1-3) own by (simp_all add: fun_eq_iff)
  show "bat (move_front i s) j c = bat s j c" using same [of j] by (simp add: bat_def same_buf_def)
qed

lemma bufcache_release_ok:
  assumes inv: "bc_inv s" and at: "bat s i b" and h: "held s b"
    and clean: "refs s b = 1 \<Longrightarrow> content s b = disk s b"
  shows "\<exists>s'. bufcache_release i s = Some s' \<and> bc_inv s' \<and> content s' = content s \<and>
    refs s' = (refs s)(b := refs s b - 1) \<and> held s' = (held s)(b := False) \<and> disk s' = disk s \<and>
    dwrites s' = dwrites s \<and> rest s' = rest s \<and> (\<forall>j c. bat s' j c = (if j = i \<and> refs s b = 1 then False else bat s j c))"
proof -
  note v = bat_view [OF inv at]
  define f where "f = (\<lambda>u. u\<lparr>block_lock := releasesleep (block_lock u), refcnt := refcnt u - 1\<rparr> :: buf)"
  define s1 where "s1 = upd i f s"
  have nz: "refcnt (bufs s i) \<noteq> 0" using at by (simp add: bat_def)
  then have r: "unat (refcnt (f (bufs s i))) = refs s b - 1" using refcnt_minus v(6) by (simp add: f_def)
  have zero: "refcnt (f (bufs s i)) = 0 \<longleftrightarrow> refs s b = 1"
  proof -
    have "refs s b \<noteq> 0" using v(6) nz by (simp add: unat_eq_0)
    then show ?thesis using r by (metis One_nat_def Suc_pred diff_Suc_1 gr0I unat_eq_0 diff_self_eq_0)
  qed
  have "buf_ok (disk s) (mypid s) (f (bufs s i))"
    using v nz zero clean by (auto simp: buf_ok_def f_def releasesleep_def)
  note uv = upd_view [OF inv v(1,2,3), of "f (bufs s i)" f, OF refl _ _ _ this]
  have inv1: "bc_inv s1" and view1: "content s1 = content s" "refs s1 = (refs s)(b := refs s b - 1)"
      "held s1 = (held s)(b := False)" and bat1: "\<And>j c. j \<noteq> i \<Longrightarrow> bat s1 j c = bat s j c"
    using uv v r unfolding s1_def by (auto simp: f_def releasesleep_def fun_eq_iff)
  have same1: "disk s1 = disk s" "dwrites s1 = dwrites s" "bufs s1 i = f (bufs s i)" "rest s1 = rest s" by (simp_all add: s1_def)
  have bat1i: "bat s1 i c = (if refs s b = 1 then False else bat s i c)" for c
    using zero nz by (auto simp: bat_def same1) (auto simp: f_def)
  define s' where "s' = (if refs s b = 1 then move_front i s1 else s1)"
  have "bufcache_release i s = Some s'"
    unfolding bufcache_release_eq f_def [symmetric] s1_def [symmetric] s'_def
    using holding_held [OF inv at h] zero same1(3) by (simp add: Let_def)
  moreover have "blockno (bufs s1 i) = b" using v(2) by (simp add: same1 f_def)
  note mv = move_front_view [OF inv1 v(1) this v(3)]
  have "bc_inv s' \<and> content s' = content s1 \<and> refs s' = refs s1 \<and> held s' = held s1 \<and> disk s' = disk s1 \<and>
      dwrites s' = dwrites s1 \<and> rest s' = rest s1 \<and> (\<forall>j c. bat s' j c = bat s1 j c)"
    using mv inv1 by (simp add: s'_def)
  moreover have "bat s1 j c = (if j = i \<and> refs s b = 1 then False else bat s j c)" for j c
    using bat1 bat1i by (cases "j = i") auto
  ultimately show ?thesis using view1 same1 by simp
qed

text \<open>\<open>bufcache_read\<close> of a block that is in the cache.\<close>

lemma read_hit:
  assumes inv: "bc_inv s" and i: "buf_of s b = Some i" and nh: "\<not> held s b" and r: "refs s b + 1 < 2 ^ 32"
  shows "\<exists>s'. bufcache_read b s = Some (i, s') \<and> bc_inv s' \<and> content s' = content s \<and>
    refs s' = (refs s)(b := refs s b + 1) \<and> held s' = (held s)(b := True) \<and> disk s' = disk s \<and>
    dwrites s' = dwrites s \<and> rest s' = rest s \<and> bat s' i b \<and> (\<forall>j c. bat s j c \<longrightarrow> bat s' j c)"
proof -
  have ib: "i < NBUF" "blockno (bufs s i) = b" "b \<noteq> 0" using buf_of_SomeD [OF i] by auto
  have own: "content s b = bdata (bufs s i)" "refs s b = unat (refcnt (bufs s i))"
    "slocked (block_lock (bufs s i)) = 0"
    using i nh by (simp_all add: content_def refs_def held_def)
  obtain xs where ring: "ring (bufs s) xs" using inv by (auto simp: bc_inv_def)
  have "find (\<lambda>i. blockno (bufs s i) = b) xs = Some i"
  proof (cases "find (\<lambda>i. blockno (bufs s i) = b) xs")
    case None
    then show ?thesis using ring ib by (auto simp: find_None_iff ring_def)
  next
    case (Some j)
    then have "j \<in> set xs" "blockno (bufs s j) = b" by (auto simp: find_Some_iff)
    then have "j < NBUF" using ring by (auto simp: ring_def)
    then show ?thesis using one_copyD [OF inv _ ib(1)] \<open>blockno (bufs s j) = b\<close> ib Some by simp
  qed
  then have hit: "find_cached (bufs s) b (bnext (bufs s NBUF)) = Some (Some i)"
    using ring_searches(1) [OF ring] by simp
  define f where "f = (\<lambda>u. u\<lparr>refcnt := refcnt u + 1, block_lock := \<lparr>slocked = 1, spid = mypid s\<rparr>\<rparr> :: buf)"
  have rp: "unat (refcnt (f (bufs s i))) = refs s b + 1" using refcnt_plus own r by (simp add: f_def)
  then have nz: "refcnt (f (bufs s i)) \<noteq> 0" by auto
  have "buf_ok (disk s) (mypid s) (bufs s i)" using inv ib by (simp add: bc_inv_def)
  then have "buf_ok (disk s) (mypid s) (f (bufs s i))" using nz ib by (auto simp: buf_ok_def f_def)
  note uv = upd_view [OF inv ib, of "f (bufs s i)" f, OF refl _ _ _ this]
  have val: "valid (bufs s i)" using bc_inv_buf(1) [OF inv ib(1)] ib by simp
  have "bufcache_read b s = Some (i, upd i f s)"
    using own(3) val
    by (cases "bufs s i"; cases "block_lock (bufs s i)")
      (simp add: bufcache_read_def bufcache_get_def hit lock_buf_def acquiresleep_def upd_def f_def)
  moreover have "bat (upd i f s) j c" if "bat s j c" for j c
    using uv(5) [of j c] that nz by (cases "j = i") (auto simp: bat_def f_def)
  moreover have "bat (upd i f s) i b" using ib nz by (simp add: bat_def f_def)
  ultimately show ?thesis using uv(1-4) own rp ib(2) by (auto simp: f_def fun_eq_iff)
qed

text \<open>\<open>bufcache_read\<close> of a block that is not in the cache recycles the least recently used free buffer.\<close>

lemma read_miss_eq:
  assumes ring: "ring (bufs s) xs" and none: "\<forall>i<NBUF. blockno (bufs s i) \<noteq> b"
    and i: "find (\<lambda>i. refcnt (bufs s i) = 0) (rev xs) = Some i" and "slocked (block_lock (bufs s i)) = 0"
  shows "bufcache_read b s = Some (i, upd i (\<lambda>u. u\<lparr>blockno := b, valid := True, refcnt := 1,
      block_lock := \<lparr>slocked = 1, spid = mypid s\<rparr>, bdata := disk s b\<rparr>) s)"
proof -
  have "find (\<lambda>i. blockno (bufs s i) = b) xs = None"
    using ring none by (auto simp: find_None_iff ring_def)
  then have "find_cached (bufs s) b (bnext (bufs s NBUF)) = Some None"
    using ring_searches(1) [OF ring] by simp
  moreover have "find_unused (bufs s) (bprev (bufs s NBUF)) = Some (Some i)"
    using ring_searches(2) [OF ring] i by simp
  ultimately show ?thesis
    using assms(4)
    by (cases "bufs s i"; cases "block_lock (bufs s i)")
      (simp add: bufcache_read_def bufcache_get_def lock_buf_def acquiresleep_def disk_rw_def upd_def)
qed

lemma read_miss:
  assumes inv: "bc_inv s" and b: "buf_of s b = None" "b \<noteq> 0" and free: "\<exists>i<NBUF. refcnt (bufs s i) = 0"
  shows "\<exists>i s'. bufcache_read b s = Some (i, s') \<and> bc_inv s' \<and> content s' = content s \<and>
    refs s' = (refs s)(b := 1) \<and> held s' = (held s)(b := True) \<and> disk s' = disk s \<and>
    dwrites s' = dwrites s \<and> rest s' = rest s \<and> bat s' i b \<and> (\<forall>j c. bat s j c \<longrightarrow> bat s' j c)"
proof -
  obtain xs where ring: "ring (bufs s) xs" using inv by (auto simp: bc_inv_def)
  have none: "\<forall>i<NBUF. blockno (bufs s i) \<noteq> b" using b by (simp add: buf_of_None)
  obtain i where fi: "find (\<lambda>i. refcnt (bufs s i) = 0) (rev xs) = Some i"
    using free ring by (cases "find (\<lambda>i. refcnt (bufs s i) = 0) (rev xs)") (auto simp: find_None_iff ring_def)
  then have "i \<in> set (rev xs)" "refcnt (bufs s i) = 0" by (auto simp: find_Some_iff simp del: set_rev)
  then have i: "i < NBUF" "refcnt (bufs s i) = 0" using ring by (auto simp: ring_def)
  then have unlocked: "slocked (block_lock (bufs s i)) = 0" using bc_inv_buf(5) [OF inv i(1)] by auto
  define f where "f = (\<lambda>u. u\<lparr>blockno := b, valid := True, refcnt := 1,
      block_lock := \<lparr>slocked = 1, spid = mypid s\<rparr>, bdata := disk s b\<rparr> :: buf)"
  define s' where "s' = upd i f s"
  have read: "bufcache_read b s = Some (i, s')"
    using read_miss_eq [OF ring none fi unlocked] by (simp add: s'_def f_def)
  have at: "bufs s' i = f (bufs s i)" and other: "\<And>j. j \<noteq> i \<Longrightarrow> bufs s' j = bufs s j"
    and same: "disk s' = disk s" "dwrites s' = dwrites s" "mypid s' = mypid s" "rest s' = rest s"
    by (simp_all add: s'_def)
  have "length (disk s b) = BSIZE" using inv by (simp add: bc_inv_def)
  then have ok: "buf_ok (disk s) (mypid s) (bufs s' i)" using b(2) by (simp add: buf_ok_def at f_def)
  have "ring (bufs s') xs" using ring by (subst ring_cong [where f = "bufs s"]) (auto simp: s'_def f_def)
  then have inv': "bc_inv s'"
    by (intro bc_inv_change [OF inv i(1) _ _ _ _ _ ok]) (use none other same in \<open>auto simp: at f_def\<close>)
  have bo: "buf_of s' b = Some i" using b(2) i(1) by (intro buf_of_Some [OF inv']) (simp_all add: at f_def)
  have fb: "blockno (bufs s' i) = b" by (simp add: at f_def)
  have view: "content s' c = content s c \<and> refs s' c = refs s c \<and> held s' c = held s c" if "c \<noteq> b" for c
  proof (cases "buf_of s c")
    case None
    have "blockno (bufs s' k) \<noteq> c" if "k < NBUF" "c \<noteq> 0" for k
      using None fb other [of k] that \<open>c \<noteq> b\<close> by (cases "k = i") (auto simp: buf_of_None)
    then have "buf_of s' c = None" by (auto simp: buf_of_None)
    then show ?thesis using None by (simp add: content_def refs_def held_def same)
  next
    case (Some j)
    note j = buf_of_SomeD [OF Some]
    show ?thesis
    proof (cases "j = i")
      case True
      have "blockno (bufs s' k) \<noteq> c" if "k < NBUF" for k
        using fb other [of k] that \<open>c \<noteq> b\<close> j True one_copyD [OF inv that i(1)] by (cases "k = i") auto
      then have "buf_of s' c = None" by (auto simp: buf_of_None)
      moreover have "bdata (bufs s i) = disk s c" using bc_inv_buf(4) [OF inv i(1)] i(2) j True by simp
      ultimately show ?thesis using Some True i(2) unlocked by (simp add: content_def refs_def held_def same)
    next
      case False
      then have "buf_of s' c = Some j" using j other by (intro buf_of_Some [OF inv']) auto
      then show ?thesis using Some other [OF False] by (simp add: content_def refs_def held_def)
    qed
  qed
  moreover have "content s' b = content s b \<and> refs s' b = 1 \<and> held s' b"
    using b(1) bo by (simp add: content_def refs_def held_def at f_def)
  ultimately have "content s' c = content s c \<and> refs s' c = ((refs s)(b := 1)) c \<and>
      held s' c = ((held s)(b := True)) c" for c by (cases "c = b") auto
  then have "content s' = content s" "refs s' = (refs s)(b := 1)" "held s' = (held s)(b := True)"
    unfolding fun_eq_iff by blast+
  moreover have "bat s' j c" if "bat s j c" for j c
    using that other [of j] i(2) by (cases "j = i") (auto simp: bat_def)
  moreover have "bat s' i b" using i(1) by (simp add: bat_def fb) (simp add: at f_def)
  ultimately show ?thesis using read inv' same by blast
qed

lemma free_buffer:
  assumes inv: "bc_inv s" and "card {b. 0 < refs s b} < NBUF"
  shows "\<exists>i<NBUF. refcnt (bufs s i) = 0"
proof (rule ccontr)
  assume "\<not> ?thesis"
  then have all: "bat s i (blockno (bufs s i))" if "i < NBUF" for i using that by (auto simp: bat_def)
  let ?f = "\<lambda>i. blockno (bufs s i)"
  have inj: "inj_on ?f {..<NBUF}"
    using one_copyD [OF inv] bat_view(3) [OF inv all] by (intro inj_onI) auto
  have "?f ` {..<NBUF} \<subseteq> {b. 0 < refs s b}"
    using bat_view(6) [OF inv all] all by (auto simp: bat_def unat_gt_0)
  moreover have "finite {b. 0 < refs s b}" by simp
  ultimately have "card (?f ` {..<NBUF}) \<le> card {b. 0 < refs s b}" by (intro card_mono) auto
  then show False using assms(2) inj by (simp add: card_image)
qed

lemma bufcache_read_ok:
  assumes inv: "bc_inv s" and b: "b \<noteq> 0" "\<not> held s b" "refs s b + 1 < 2 ^ 32"
    and room: "0 < refs s b \<or> card {b. 0 < refs s b} < NBUF"
  shows "\<exists>i s'. bufcache_read b s = Some (i, s') \<and> bc_inv s' \<and> content s' = content s \<and>
    refs s' = (refs s)(b := refs s b + 1) \<and> held s' = (held s)(b := True) \<and> disk s' = disk s \<and>
    dwrites s' = dwrites s \<and> rest s' = rest s \<and> bat s' i b \<and> (\<forall>j c. bat s j c \<longrightarrow> bat s' j c)"
proof (cases "buf_of s b")
  case None
  then have "refs s b = 0" by (simp add: refs_def)
  then show ?thesis using read_miss [OF inv None b(1) free_buffer [OF inv]] room by simp
next
  case (Some i)
  then show ?thesis using read_hit [OF inv Some b(2,3)] by blast
qed

lemma unreferenced_clean:
  assumes "bc_inv s" and "refs s b = 0"
  shows "content s b = disk s b"
proof (cases "buf_of s b")
  case (Some i)
  note i = buf_of_SomeD [OF Some]
  have "refcnt (bufs s i) = 0" using assms(2) Some by (simp add: refs_def unat_eq_0)
  then have "bdata (bufs s i) = disk s b" using bc_inv_buf(4) [OF assms(1), of i] i by simp
  then show ?thesis using Some by (simp add: content_def)
qed (simp add: content_def)

section \<open>The interface of the cache\<close>

text \<open>
  What the log and the file system rely on.  A client sees the contents of the blocks, how often
  each block is referenced and which blocks are locked; \<open>bat\<close> ties the pointer it holds to a block.
  The lemmas below are the two shapes in which the clients use it.
\<close>

locale block_cache =
  fixes inv :: "'s \<Rightarrow> bool" and cont :: "'s \<Rightarrow> u32 \<Rightarrow> blk" and rcount :: "'s \<Rightarrow> u32 \<Rightarrow> nat"
    and lockd :: "'s \<Rightarrow> u32 \<Rightarrow> bool" and dsk :: "'s \<Rightarrow> u32 \<Rightarrow> blk" and hist :: "'s \<Rightarrow> (u32 \<times> blk) list"
    and keep :: "'s \<Rightarrow> 'r" and at :: "'s \<Rightarrow> nat \<Rightarrow> u32 \<Rightarrow> bool" and cap :: nat
    and rd :: "u32 \<Rightarrow> 's \<Rightarrow> (nat \<times> 's) option" and wrt :: "nat \<Rightarrow> 's \<Rightarrow> 's option"
    and rel :: "nat \<Rightarrow> 's \<Rightarrow> 's option" and get :: "'s \<Rightarrow> nat \<Rightarrow> blk" and put :: "nat \<Rightarrow> blk \<Rightarrow> 's \<Rightarrow> 's"
    and pin :: "nat \<Rightarrow> 's \<Rightarrow> 's" and unp :: "nat \<Rightarrow> 's \<Rightarrow> 's"
  assumes rd_ok: "inv s \<Longrightarrow> b \<noteq> 0 \<Longrightarrow> \<not> lockd s b \<Longrightarrow> rcount s b + 1 < 2 ^ 32 \<Longrightarrow>
      0 < rcount s b \<or> card {b. 0 < rcount s b} < cap \<Longrightarrow>
      \<exists>i s'. rd b s = Some (i, s') \<and> inv s' \<and> cont s' = cont s \<and> rcount s' = (rcount s)(b := rcount s b + 1) \<and>
        lockd s' = (lockd s)(b := True) \<and> dsk s' = dsk s \<and> hist s' = hist s \<and> keep s' = keep s \<and> at s' i b \<and>
        (\<forall>j c. at s j c \<longrightarrow> at s' j c)"
    and wrt_ok: "inv s \<Longrightarrow> at s i b \<Longrightarrow> lockd s b \<Longrightarrow>
      \<exists>s'. wrt i s = Some s' \<and> inv s' \<and> cont s' = cont s \<and> rcount s' = rcount s \<and> lockd s' = lockd s \<and>
        dsk s' = (dsk s)(b := cont s b) \<and> hist s' = hist s @ [(b, cont s b)] \<and> keep s' = keep s \<and>
        (\<forall>j c. at s' j c = at s j c)"
    and rel_ok: "inv s \<Longrightarrow> at s i b \<Longrightarrow> lockd s b \<Longrightarrow> (rcount s b = 1 \<Longrightarrow> cont s b = dsk s b) \<Longrightarrow>
      \<exists>s'. rel i s = Some s' \<and> inv s' \<and> cont s' = cont s \<and> rcount s' = (rcount s)(b := rcount s b - 1) \<and>
        lockd s' = (lockd s)(b := False) \<and> dsk s' = dsk s \<and> hist s' = hist s \<and> keep s' = keep s \<and>
        (\<forall>j c. at s' j c = (if j = i \<and> rcount s b = 1 then False else at s j c))"
    and get_ok: "inv s \<Longrightarrow> at s i b \<Longrightarrow> get s i = cont s b"
    and put_ok: "inv s \<Longrightarrow> at s i b \<Longrightarrow> length d = BSIZE \<Longrightarrow>
      inv (put i d s) \<and> cont (put i d s) = (cont s)(b := d) \<and> rcount (put i d s) = rcount s \<and>
        lockd (put i d s) = lockd s \<and> dsk (put i d s) = dsk s \<and> hist (put i d s) = hist s \<and>
        keep (put i d s) = keep s \<and> (\<forall>j c. at (put i d s) j c = at s j c)"
    and pin_ok: "inv s \<Longrightarrow> at s i b \<Longrightarrow> rcount s b + 1 < 2 ^ 32 \<Longrightarrow>
      inv (pin i s) \<and> cont (pin i s) = cont s \<and> rcount (pin i s) = (rcount s)(b := rcount s b + 1) \<and>
        lockd (pin i s) = lockd s \<and> dsk (pin i s) = dsk s \<and> hist (pin i s) = hist s \<and>
        keep (pin i s) = keep s \<and> (\<forall>j c. at (pin i s) j c = at s j c)"
    and unp_ok: "inv s \<Longrightarrow> at s i b \<Longrightarrow> 2 \<le> rcount s b \<Longrightarrow>
      inv (unp i s) \<and> cont (unp i s) = cont s \<and> rcount (unp i s) = (rcount s)(b := rcount s b - 1) \<and>
        lockd (unp i s) = lockd s \<and> dsk (unp i s) = dsk s \<and> hist (unp i s) = hist s \<and>
        keep (unp i s) = keep s \<and> (\<forall>j c. at (unp i s) j c = at s j c)"
    and clean: "inv s \<Longrightarrow> rcount s b = 0 \<Longrightarrow> cont s b = dsk s b"
    and at_unique: "inv s \<Longrightarrow> at s i b \<Longrightarrow> at s i c \<Longrightarrow> b = c"
    and at_counted: "inv s \<Longrightarrow> at s i b \<Longrightarrow> 0 < rcount s b"
    and cont_length: "inv s \<Longrightarrow> length (cont s b) = BSIZE"
begin

text \<open>Read a block, look at it, release it.\<close>

lemma peek:
  assumes "inv s" and "b \<noteq> 0" and "\<not> lockd s b" and "rcount s b + 1 < 2 ^ 32"
    and "0 < rcount s b \<or> card {b. 0 < rcount s b} < cap"
  shows "\<exists>i s' s''. rd b s = Some (i, s') \<and> get s' i = cont s b \<and> rel i s' = Some s'' \<and> inv s'' \<and>
    cont s'' = cont s \<and> rcount s'' = rcount s \<and> lockd s'' = lockd s \<and> dsk s'' = dsk s \<and> hist s'' = hist s \<and>
    keep s'' = keep s \<and> keep s' = keep s \<and> (\<forall>j c. at s j c \<longrightarrow> at s'' j c)"
proof -
  obtain i s' where r: "rd b s = Some (i, s')" "inv s'" "cont s' = cont s"
      "rcount s' = (rcount s)(b := rcount s b + 1)" "lockd s' = (lockd s)(b := True)" "dsk s' = dsk s"
      "hist s' = hist s" "keep s' = keep s" "at s' i b" "\<forall>j c. at s j c \<longrightarrow> at s' j c"
    using rd_ok [OF assms(1-5)] by blast
  have "rcount s' b = 1 \<Longrightarrow> cont s' b = dsk s' b" using r clean [OF assms(1)] by auto
  moreover have "lockd s' b" using r by simp
  ultimately obtain s'' where q: "rel i s' = Some s''" "inv s''" "cont s'' = cont s'"
      "rcount s'' = (rcount s')(b := rcount s' b - 1)" "lockd s'' = (lockd s')(b := False)" "dsk s'' = dsk s'"
      "hist s'' = hist s'" "keep s'' = keep s'"
      "\<forall>j c. at s'' j c = (if j = i \<and> rcount s' b = 1 then False else at s' j c)"
    using rel_ok [OF r(2,9)] by blast
  have "at s'' j c" if "at s j c" for j c
  proof -
    have "\<not> (j = i \<and> rcount s' b = 1)"
      using at_unique [OF r(2) _ r(9)] at_counted [OF assms(1) that] that r(4,10) by auto
    then show ?thesis using that q(9) r(10) by auto
  qed
  moreover have "rcount s'' = rcount s" "lockd s'' = lockd s" using r q assms(3) by (auto simp: fun_eq_iff)
  ultimately show ?thesis using r q(1-8) get_ok [OF r(2,9)] by - (rule exI [of _ i], rule exI [of _ s'], rule exI [of _ s''], simp)
qed

text \<open>Read two different blocks.\<close>

lemma two_reads:
  assumes "inv s" and "x \<noteq> y" and "x \<noteq> 0" "y \<noteq> 0" and "\<not> lockd s x" "\<not> lockd s y"
    and "rcount s x + 1 < 2 ^ 32" "rcount s y + 1 < 2 ^ 32"
    and room: "card (insert x (insert y {b. 0 < rcount s b})) \<le> cap" and fin: "finite {b. 0 < rcount s b}"
  shows "\<exists>i s1 j s2. rd x s = Some (i, s1) \<and> rd y s1 = Some (j, s2) \<and> inv s2 \<and> at s2 i x \<and> at s2 j y \<and>
    cont s2 = cont s \<and> rcount s2 = (rcount s)(x := rcount s x + 1, y := rcount s y + 1) \<and>
    lockd s2 = (lockd s)(x := True, y := True) \<and> dsk s2 = dsk s \<and> hist s2 = hist s \<and> keep s1 = keep s \<and>
    keep s2 = keep s"
proof -
  let ?R = "{b. 0 < rcount s b}"
  have "0 < rcount s x \<or> card ?R < cap"
  proof (cases "x \<in> ?R")
    case False
    have "card (insert x ?R) \<le> card (insert x (insert y ?R))" using fin by (intro card_mono) auto
    then show ?thesis using False room fin by simp
  qed simp
  from rd_ok [OF assms(1,3,5,7) this] obtain i s1 where r: "rd x s = Some (i, s1)" "inv s1" "cont s1 = cont s"
      "rcount s1 = (rcount s)(x := rcount s x + 1)" "lockd s1 = (lockd s)(x := True)" "dsk s1 = dsk s"
      "hist s1 = hist s" "keep s1 = keep s" "at s1 i x"
    by blast
  have R1: "{b. 0 < rcount s1 b} = insert x ?R" using r(4) by auto
  have "0 < rcount s1 y \<or> card {b. 0 < rcount s1 b} < cap"
  proof (cases "y \<in> insert x ?R")
    case True
    then show ?thesis using assms(2) r(4) by auto
  next
    case False
    have "card (insert y (insert x ?R)) \<le> cap" using room by (simp add: insert_commute)
    then show ?thesis using False fin R1 by simp
  qed
  moreover have "\<not> lockd s1 y" "rcount s1 y + 1 < 2 ^ 32" using assms r by auto
  ultimately obtain j s2 where q: "rd y s1 = Some (j, s2)" "inv s2" "cont s2 = cont s1"
      "rcount s2 = (rcount s1)(y := rcount s1 y + 1)" "lockd s2 = (lockd s1)(y := True)" "dsk s2 = dsk s1"
      "hist s2 = hist s1" "keep s2 = keep s1" "at s2 j y" "\<forall>j c. at s1 j c \<longrightarrow> at s2 j c"
    using rd_ok [OF r(2) assms(4)] by blast
  have "at s2 i x" using q(10) r(9) by blast
  then show ?thesis
    using r q(1-9) assms(2)
    by - (rule exI [of _ i], rule exI [of _ s1], rule exI [of _ j], rule exI [of _ s2], simp add: fun_upd_twist)
qed

text \<open>Copy \<open>x\<close> over \<open>y\<close>, write \<open>y\<close> to the disk, and release both; \<open>drop\<close> says whether a pin of \<open>y\<close> is
  given up on the way.\<close>

lemma copy_write_release:
  assumes "inv s" and "x \<noteq> y" and at: "at s i x" "at s j y" and "lockd s x" "lockd s y"
    and src: "rcount s x = 1 \<Longrightarrow> cont s x = dsk s x" and drop: "d \<Longrightarrow> 2 \<le> rcount s y"
  shows "\<exists>s1 s2 s3. wrt j (put j (get s i) s) = Some s1 \<and> rel i (if d then unp j s1 else s1) = Some s2 \<and>
    rel j s2 = Some s3 \<and> inv s3 \<and> cont s3 = (cont s)(y := cont s x) \<and> dsk s3 = (dsk s)(y := cont s x) \<and>
    hist s3 = hist s @ [(y, cont s x)] \<and> keep s3 = keep s \<and>
    rcount s3 = (rcount s)(x := rcount s x - 1, y := rcount s y - (if d then 2 else 1)) \<and>
    lockd s3 = (lockd s)(x := False, y := False)"
proof -
  define p where "p = put j (get s i) s"
  have p: "inv p" "cont p = (cont s)(y := cont s x)" "rcount p = rcount s" "lockd p = lockd s" "dsk p = dsk s"
      "hist p = hist s" "keep p = keep s" and atp: "\<And>k c. at p k c = at s k c"
    using put_ok [OF assms(1) at(2), of "get s i"] get_ok [OF assms(1) at(1)] cont_length [OF assms(1)]
    unfolding p_def by simp_all
  obtain s1 where s1: "wrt j p = Some s1" "inv s1" "cont s1 = cont p" "rcount s1 = rcount s" "lockd s1 = lockd s"
      "dsk s1 = (dsk s)(y := cont s x)" "hist s1 = hist s @ [(y, cont s x)]" "keep s1 = keep s"
    and at1: "\<And>k c. at s1 k c = at s k c"
    using wrt_ok [OF p(1), of j y] p atp at(2) assms(6) by auto
  define u where "u = (if d then unp j s1 else s1)"
  have u: "inv u" "cont u = cont p" "rcount u = (rcount s)(y := rcount s y - (if d then 1 else 0))"
      "lockd u = lockd s" "dsk u = dsk s1" "hist u = hist s1" "keep u = keep s"
    and atu: "\<And>k c. at u k c = at s k c"
    using unp_ok [OF s1(2), of j y] s1 at1 at(2) drop unfolding u_def by (cases d; simp)+
  have "rcount u x = 1 \<Longrightarrow> cont u x = dsk u x" using u p s1 assms(2) src by auto
  then obtain s2 where s2: "rel i u = Some s2" "inv s2" "cont s2 = cont u"
      "rcount s2 = (rcount u)(x := rcount u x - 1)" "lockd s2 = (lockd s)(x := False)" "dsk s2 = dsk u"
      "hist s2 = hist u" "keep s2 = keep u"
      "\<forall>k c. at s2 k c = (if k = i \<and> rcount u x = 1 then False else at u k c)"
    using rel_ok [OF u(1), of i x] atu at(1) u(4) assms(5) by auto
  have "i \<noteq> j" using at_unique [OF assms(1), of i x y] at assms(2) by auto
  then have "at s2 j y" using s2(9) atu at(2) by auto
  moreover have "lockd s2 y" using s2(5) assms(2,6) by auto
  moreover have "cont s2 y = dsk s2 y" using s2 u p s1 by simp
  ultimately obtain s3 where s3: "rel j s2 = Some s3" "inv s3" "cont s3 = cont s2"
      "rcount s3 = (rcount s2)(y := rcount s2 y - 1)" "lockd s3 = (lockd s2)(y := False)" "dsk s3 = dsk s2"
      "hist s3 = hist s2" "keep s3 = keep s2"
    using rel_ok [OF s2(2), of j y] by auto
  have "rcount s3 = (rcount s)(x := rcount s x - 1, y := rcount s y - (if d then 2 else 1))"
    using s3(4) s2(4) u(3) assms(2) by (auto simp: fun_eq_iff)
  then show ?thesis
    using s1(1) s2(1) [unfolded u_def] s2(2,3,5-8) s3(1-3,5-8) u(2,5-7) p(2) s1(6,7)
    unfolding p_def [symmetric]
    by - (rule exI [of _ s1], rule exI [of _ s2], rule exI [of _ s3], simp)
qed

text \<open>Read a block, replace its data, write it and release it.\<close>

lemma rewrite_block:
  assumes "inv s" and "b \<noteq> 0" and "\<not> lockd s b" and "rcount s b + 1 < 2 ^ 32"
    and "0 < rcount s b \<or> card {b. 0 < rcount s b} < cap"
  shows "\<exists>i s1. rd b s = Some (i, s1) \<and> get s1 i = cont s b \<and> keep s1 = keep s \<and>
    (\<forall>d. length d = BSIZE \<longrightarrow> (\<exists>s2 s3. wrt i (put i d s1) = Some s2 \<and> rel i s2 = Some s3 \<and> inv s3 \<and>
       cont s3 = (cont s)(b := d) \<and> dsk s3 = (dsk s)(b := d) \<and> hist s3 = hist s @ [(b, d)] \<and>
       rcount s3 = rcount s \<and> lockd s3 = lockd s \<and> keep s3 = keep s))"
proof -
  obtain i s1 where r: "rd b s = Some (i, s1)" "inv s1" "cont s1 = cont s"
      "rcount s1 = (rcount s)(b := rcount s b + 1)" "lockd s1 = (lockd s)(b := True)" "dsk s1 = dsk s"
      "hist s1 = hist s" "keep s1 = keep s" "at s1 i b"
    using rd_ok [OF assms] by blast
  have "\<exists>s2 s3. wrt i (put i d s1) = Some s2 \<and> rel i s2 = Some s3 \<and> inv s3 \<and>
       cont s3 = (cont s)(b := d) \<and> dsk s3 = (dsk s)(b := d) \<and> hist s3 = hist s @ [(b, d)] \<and>
       rcount s3 = rcount s \<and> lockd s3 = lockd s \<and> keep s3 = keep s" if d: "length d = BSIZE" for d
  proof -
    define p where "p = put i d s1"
    have p: "inv p" "cont p = (cont s)(b := d)" "rcount p = rcount s1" "lockd p = lockd s1" "dsk p = dsk s"
      "hist p = hist s" "keep p = keep s" "at p i b"
      using put_ok [OF r(2,9) d] r unfolding p_def by simp_all
    obtain s2 where q: "wrt i p = Some s2" "inv s2" "cont s2 = cont p" "rcount s2 = rcount s1" "lockd s2 = lockd s1"
      "dsk s2 = (dsk s)(b := d)" "hist s2 = hist s @ [(b, d)]" "keep s2 = keep s" "at s2 i b"
      using wrt_ok [OF p(1,8)] p r(5) by auto
    have "cont s2 b = dsk s2 b" "lockd s2 b" using p q r(5) by simp_all
    then obtain s3 where t: "rel i s2 = Some s3" "inv s3" "cont s3 = cont s2"
      "rcount s3 = (rcount s2)(b := rcount s2 b - 1)" "lockd s3 = (lockd s2)(b := False)" "dsk s3 = dsk s2"
      "hist s3 = hist s2" "keep s3 = keep s2"
      using rel_ok [OF q(2,9)] by blast
    have "rcount s3 = rcount s" "lockd s3 = lockd s" using t q r assms(3) by (auto simp: fun_eq_iff)
    then show ?thesis using t q p unfolding p_def [symmetric] by - (rule exI [of _ s2], rule exI [of _ s3], simp)
  qed
  then show ?thesis using r get_ok [OF r(2,9)] by - (rule exI [of _ i], rule exI [of _ s1], simp)
qed

end

interpretation bc: block_cache bc_inv content refs held disk dwrites rest bat NBUF
  bufcache_read bufcache_write bufcache_release "\<lambda>s i. bdata (bufs s i)" set_data bufcache_pin bufcache_unpin
proof
  fix s :: "'a bcache_scheme" and b
  assume "bc_inv s" "b \<noteq> 0" "\<not> held s b" "refs s b + 1 < 2 ^ 32" "0 < refs s b \<or> card {b. 0 < refs s b} < NBUF"
  then show "\<exists>i s'. bufcache_read b s = Some (i, s') \<and> bc_inv s' \<and> content s' = content s \<and>
    refs s' = (refs s)(b := refs s b + 1) \<and> held s' = (held s)(b := True) \<and> disk s' = disk s \<and>
    dwrites s' = dwrites s \<and> rest s' = rest s \<and> bat s' i b \<and> (\<forall>j c. bat s j c \<longrightarrow> bat s' j c)"
    by (rule bufcache_read_ok)
next
  fix s :: "'a bcache_scheme" and b i
  assume "bc_inv s" "bat s i b" "held s b"
  then show "\<exists>s'. bufcache_write i s = Some s' \<and> bc_inv s' \<and> content s' = content s \<and> refs s' = refs s \<and>
    held s' = held s \<and> disk s' = (disk s)(b := content s b) \<and> dwrites s' = dwrites s @ [(b, content s b)] \<and>
    rest s' = rest s \<and> (\<forall>j c. bat s' j c = bat s j c)"
    by (rule bufcache_write_ok)
next
  fix s :: "'a bcache_scheme" and b i
  assume "bc_inv s" "bat s i b" "held s b" "refs s b = 1 \<Longrightarrow> content s b = disk s b"
  then show "\<exists>s'. bufcache_release i s = Some s' \<and> bc_inv s' \<and> content s' = content s \<and>
    refs s' = (refs s)(b := refs s b - 1) \<and> held s' = (held s)(b := False) \<and> disk s' = disk s \<and>
    dwrites s' = dwrites s \<and> rest s' = rest s \<and>
    (\<forall>j c. bat s' j c = (if j = i \<and> refs s b = 1 then False else bat s j c))"
    by (rule bufcache_release_ok)
next
  fix s :: "'a bcache_scheme" and b i
  assume "bc_inv s" "bat s i b"
  then show "bdata (bufs s i) = content s b" using bat_view(5) by metis
next
  fix s :: "'a bcache_scheme" and b i and d :: blk
  assume "bc_inv s" "bat s i b" "length d = BSIZE"
  then show "bc_inv (set_data i d s) \<and> content (set_data i d s) = (content s)(b := d) \<and>
      refs (set_data i d s) = refs s \<and> held (set_data i d s) = held s \<and> disk (set_data i d s) = disk s \<and>
      dwrites (set_data i d s) = dwrites s \<and> rest (set_data i d s) = rest s \<and>
      (\<forall>j c. bat (set_data i d s) j c = bat s j c)"
    using set_data_ok [of s i b d] by simp
next
  fix s :: "'a bcache_scheme" and b i
  assume "bc_inv s" "bat s i b" "refs s b + 1 < 2 ^ 32"
  then show "bc_inv (bufcache_pin i s) \<and> content (bufcache_pin i s) = content s \<and>
      refs (bufcache_pin i s) = (refs s)(b := refs s b + 1) \<and> held (bufcache_pin i s) = held s \<and>
      disk (bufcache_pin i s) = disk s \<and> dwrites (bufcache_pin i s) = dwrites s \<and>
      rest (bufcache_pin i s) = rest s \<and> (\<forall>j c. bat (bufcache_pin i s) j c = bat s j c)"
    using bufcache_pin_ok [of s i b] by simp
next
  fix s :: "'a bcache_scheme" and b i
  assume "bc_inv s" "bat s i b" "2 \<le> refs s b"
  then show "bc_inv (bufcache_unpin i s) \<and> content (bufcache_unpin i s) = content s \<and>
      refs (bufcache_unpin i s) = (refs s)(b := refs s b - 1) \<and> held (bufcache_unpin i s) = held s \<and>
      disk (bufcache_unpin i s) = disk s \<and> dwrites (bufcache_unpin i s) = dwrites s \<and>
      rest (bufcache_unpin i s) = rest s \<and> (\<forall>j c. bat (bufcache_unpin i s) j c = bat s j c)"
    using bufcache_unpin_ok [of s i b] by simp
next
  fix s :: "'a bcache_scheme" and b
  assume "bc_inv s" "refs s b = 0"
  then show "content s b = disk s b" by (rule unreferenced_clean)
next
  fix s :: "'a bcache_scheme" and i b c
  assume "bat s i b" "bat s i c"
  then show "b = c" by (simp add: bat_def)
next
  fix s :: "'a bcache_scheme" and i b
  assume "bc_inv s" "bat s i b"
  then show "0 < refs s b" using bat_view(6) [of s i b] by (simp add: bat_def unat_gt_0)
next
  fix s :: "'a bcache_scheme" and b
  assume "bc_inv s"
  then show "length (content s b) = BSIZE" by (rule length_content)
qed

section \<open>Initialisation\<close>

definition init_step :: "nat \<Rightarrow> 'a bcache_scheme \<Rightarrow> 'a bcache_scheme" where
  "init_step b s =
     (let s = upd b (bnext_update (\<lambda>_. bnext (bufs s NBUF))) s;
          s = upd b (bprev_update (\<lambda>_. NBUF)) s;
          s = upd b (block_lock_update initsleeplock) s;
          s = upd (bnext (bufs s NBUF)) (bprev_update (\<lambda>_. b)) s
      in upd NBUF (bnext_update (\<lambda>_. b)) s)"

lemma bufcache_init_loop_step: "bufcache_init_loop (Suc n) b s = bufcache_init_loop n (Suc b) (init_step b s)"
  by (simp add: init_step_def Let_def)

lemma links_upd_lock:
  "nxt (upd i (block_lock_update f) s) = nxt s" "prv (upd i (block_lock_update f) s) = prv s"
  by (auto simp: nxt_def prv_def fun_eq_iff)

lemma init_step_links:
  assumes "b \<noteq> NBUF"
  shows "nxt (init_step b s) = (nxt s)(b := nxt s NBUF, NBUF := b)"
    "prv (init_step b s) = (prv s)(b := NBUF, nxt s NBUF := b)"
  using assms by (simp_all add: init_step_def Let_def links_upd links_upd_lock flip: nxt_def prv_def del: upd_fields)

definition links :: "'a bcache_scheme \<Rightarrow> nat list \<Rightarrow> bool" where
  "links s xs \<longleftrightarrow> chain (nxt s) (NBUF # xs @ [NBUF]) \<and> chain (prv s) (NBUF # rev xs @ [NBUF]) \<and>
     distinct (NBUF # xs)"

lemma links_init_step:
  assumes "links s xs" and "b \<notin> set (NBUF # xs)"
  shows "links (init_step b s) (b # xs)"
proof -
  have b: "b \<noteq> NBUF" using assms(2) by simp
  have d: "distinct (NBUF # xs)" using assms(1) by (simp add: links_def)
  have n: "chain (nxt s) (NBUF # xs @ [NBUF])" using assms(1) by (simp add: links_def)
  obtain t where t: "xs @ [NBUF] = nxt s NBUF # t" using n by (cases xs) auto
  have t': "NBUF # rev xs = rev t @ [nxt s NBUF]" using arg_cong [OF t, of rev] by simp
  have e: "(NBUF # rev xs) @ us = rev t @ nxt s NBUF # us" for us
    using arg_cong [OF t', of "\<lambda>u. u @ us"] by simp
  have "chain (prv s) (rev t @ [nxt s NBUF, NBUF])"
    unfolding e [symmetric] using assms(1) by (simp add: links_def)
  moreover have "distinct (rev t @ [nxt s NBUF])" unfolding t' [symmetric] using d by simp
  moreover have "b \<notin> set (rev t @ [nxt s NBUF, NBUF])" unfolding e [symmetric] using assms(2) by simp
  ultimately have "chain (prv (init_step b s)) (rev t @ [nxt s NBUF, b, NBUF])"
    unfolding init_step_links [OF b] by (rule chain_snoc)
  then have "chain (prv (init_step b s)) (NBUF # rev (b # xs) @ [NBUF])"
    unfolding e [symmetric] by simp
  moreover have "chain (nxt (init_step b s)) (NBUF # (b # xs) @ [NBUF])"
    unfolding init_step_links [OF b] using chain_push [OF n d assms(2)] by simp
  ultimately show ?thesis using assms d by (auto simp: links_def)
qed

lemma links_init_loop:
  "links s xs \<Longrightarrow> set xs = {..<b} \<Longrightarrow> b + n = NBUF \<Longrightarrow>
   \<exists>ys. links (bufcache_init_loop n b s) ys \<and> set ys = {..<NBUF}"
proof (induction n arbitrary: b s xs)
  case 0
  then show ?case by auto
next
  case (Suc n)
  have "b \<notin> set (NBUF # xs)" using Suc.prems(2,3) by simp
  then have "links (init_step b s) (b # xs)" by (rule links_init_step [OF Suc.prems(1)])
  moreover have "set (b # xs) = {..<Suc b}" using Suc.prems(2) by (simp add: lessThan_Suc)
  moreover have "Suc b + n = NBUF" using Suc.prems(3) by simp
  ultimately show ?case unfolding bufcache_init_loop_step by (rule Suc.IH)
qed

text \<open>The loop leaves a buffer as it was, but for its links and its lock, which it opens.\<close>

definition init_buf :: "buf \<Rightarrow> buf \<Rightarrow> bool" where
  "init_buf u v \<longleftrightarrow> valid u = valid v \<and> blockno u = blockno v \<and> refcnt u = refcnt v \<and>
     (slocked (block_lock v) = 0 \<longrightarrow> slocked (block_lock u) = 0)"

lemma init_loop_buf:
  "init_buf (bufs (bufcache_init_loop n b s) j) (bufs s j) \<and> disk (bufcache_init_loop n b s) = disk s"
proof (induction n arbitrary: b s)
  case 0
  then show ?case by (simp add: init_buf_def)
next
  case (Suc n)
  have "init_buf (bufs (init_step b s) j) (bufs s j)" "disk (init_step b s) = disk s"
    by (simp_all add: init_step_def Let_def init_buf_def initsleeplock_def)
  then show ?case using Suc.IH [of "Suc b" "init_step b s"] unfolding bufcache_init_loop_step
    by (simp add: init_buf_def)
qed

lemma bufcache_init_inv:
  assumes zero: "\<forall>i<NBUF. \<not> valid (bufs s i) \<and> blockno (bufs s i) = 0 \<and> refcnt (bufs s i) = 0 \<and>
      slocked (block_lock (bufs s i)) = 0"
    and "\<forall>b. length (disk s b) = BSIZE"
  shows "bc_inv (bufcache_init s)"
proof -
  let ?s = "upd NBUF (bnext_update (\<lambda>_. NBUF)) (upd NBUF (bprev_update (\<lambda>_. NBUF)) s)"
  have eq: "bufcache_init s = bufcache_init_loop NBUF 0 ?s" by (simp add: bufcache_init_def Let_def)
  have "links ?s []" by (simp add: links_def links_upd)
  then obtain ys where "links (bufcache_init s) ys" "set ys = {..<NBUF}"
    using links_init_loop [of ?s "[]" 0 NBUF] unfolding eq by auto
  then have "ring (bufs (bufcache_init s)) ys"
    by (simp add: ring_def links_def nxt_def [abs_def] prv_def [abs_def])
  moreover have d: "disk (bufcache_init s) = disk s"
    unfolding eq using init_loop_buf [of NBUF 0 ?s] by simp
  moreover have blk: "blockno (bufs (bufcache_init s) j) = 0" and "buf_ok d me (bufs (bufcache_init s) j)"
    if j: "j < NBUF" for j d me
  proof -
    have "init_buf (bufs (bufcache_init s) j) (bufs ?s j)"
      unfolding eq using init_loop_buf [of NBUF 0 ?s j] by simp
    moreover have "bufs ?s j = bufs s j" using j by simp
    ultimately have "init_buf (bufs (bufcache_init s) j) (bufs s j)" by simp
    then show "blockno (bufs (bufcache_init s) j) = 0" "buf_ok d me (bufs (bufcache_init s) j)"
      using j zero by (auto simp: init_buf_def buf_ok_def)
  qed
  ultimately show ?thesis using assms(2) by (auto simp: bc_inv_def one_copy_def)
qed

section \<open>Properties\<close>

lemma bufcache_release_order:
  assumes "bc_inv s" and "bat s i b" and "held s b" and "ring (bufs s) xs" and "bufcache_release i s = Some s'"
  shows "ring (bufs s') (if refs s b = 1 then i # remove1 i xs else xs)"
proof -
  note v = bat_view [OF assms(1,2)]
  define s1 where "s1 = upd i (\<lambda>u. u\<lparr>block_lock := releasesleep (block_lock u), refcnt := refcnt u - 1\<rparr>) s"
  have ring: "ring (bufs s1) xs"
    using assms(4) by (subst ring_cong [where f = "bufs s"]) (auto simp: s1_def)
  have "refcnt (bufs s1 i) = refcnt (bufs s i) - 1" by (simp add: s1_def)
  moreover have "refcnt (bufs s i) - 1 = 0 \<longleftrightarrow> refs s b = 1"
    using v(6) by (metis diff_eq_eq add_0 unat_1 unsigned_word_eqI)
  ultimately have "s' = (if refs s b = 1 then move_front i s1 else s1)"
    using assms(5) holding_held [OF assms(1-3)] unfolding bufcache_release_eq s1_def [symmetric]
    by (simp add: Let_def)
  then show ?thesis using ring move_front_ring [OF ring v(1)] by simp
qed

text \<open>C4. Coherence: \<open>bufcache_read\<close> of a block that nobody has locked returns a locked, referenced buffer
  with the block's current contents, taking a buffer that nobody references when the block is not
  in the cache.  No block's contents, no other reference and nothing on the disk changes.\<close>

theorem bufcache_read_spec:
  assumes "bc_inv s" and "b \<noteq> 0" and "\<not> held s b" and "refs s b + 1 < 2 ^ 32"
    and "0 < refs s b \<or> card {b. 0 < refs s b} < NBUF"
  shows "\<exists>i s'. bufcache_read b s = Some (i, s') \<and> bc_inv s' \<and> bat s' i b \<and>
    bdata (bufs s' i) = content s b \<and> holdingsleep (mypid s') (block_lock (bufs s' i)) \<and>
    content s' = content s \<and> disk s' = disk s \<and> refs s' = (refs s)(b := refs s b + 1) \<and>
    held s' = (held s)(b := True)"
proof -
  obtain i s' where r: "bufcache_read b s = Some (i, s')" "bc_inv s'" "content s' = content s"
      "refs s' = (refs s)(b := refs s b + 1)" "held s' = (held s)(b := True)" "disk s' = disk s" "bat s' i b"
    using bufcache_read_ok [OF assms] by blast
  then have "holdingsleep (mypid s') (block_lock (bufs s' i))" using holding_held [OF r(2,7)] by simp
  then show ?thesis using r bat_view(5) [OF r(2,7)] by auto
qed

text \<open>C28. Least recently used order: releasing the last reference to a buffer moves it to the front of
  the list, any other release leaves the order; and a block that is not in the cache gets the
  last buffer of the list that nobody references.\<close>

theorem bufcache_lru:
  assumes "bc_inv s" and "ring (bufs s) xs"
  shows "(bat s i b \<longrightarrow> held s b \<longrightarrow> bufcache_release i s = Some s' \<longrightarrow>
            ring (bufs s') (if refs s b = 1 then i # remove1 i xs else xs)) \<and>
         (buf_of s c = None \<longrightarrow> c \<noteq> 0 \<longrightarrow> find (\<lambda>j. refcnt (bufs s j) = 0) (rev xs) = Some k \<longrightarrow>
            map_option fst (bufcache_read c s) = Some k)"
proof (intro conjI impI)
  assume "bat s i b" "held s b" "bufcache_release i s = Some s'"
  then show "ring (bufs s') (if refs s b = 1 then i # remove1 i xs else xs)"
    using bufcache_release_order assms by blast
next
  assume c: "buf_of s c = None" "c \<noteq> 0" and k: "find (\<lambda>j. refcnt (bufs s j) = 0) (rev xs) = Some k"
  then have "k \<in> set (rev xs)" "refcnt (bufs s k) = 0" by (auto simp: find_Some_iff simp del: set_rev)
  then have "slocked (block_lock (bufs s k)) = 0"
    using assms(2) bc_inv_buf(5) [OF assms(1), of k] by (auto simp: ring_def)
  then show "map_option fst (bufcache_read c s) = Some k"
    using read_miss_eq [OF assms(2) _ k] c by (simp add: buf_of_None)
qed

text \<open>\<open>bufcache_init\<close> on the zeroed cache establishes the invariant: a list of all buffers, all of
  them invalid, unreferenced and unlocked.\<close>

theorem bufcache_init_spec:
  assumes "\<forall>i<NBUF. \<not> valid (bufs s i) \<and> blockno (bufs s i) = 0 \<and> refcnt (bufs s i) = 0 \<and>
      slocked (block_lock (bufs s i)) = 0"
    and "\<forall>b. length (disk s b) = BSIZE"
  shows "bc_inv (bufcache_init s)"
  using assms by (rule bufcache_init_inv)

text \<open>The zeroed cache of a machine that boots with an empty disk, and the cache after its start.\<close>

definition boot_cache :: bcache where
  "boot_cache =
     \<lparr>bufs = (\<lambda>_. \<lparr>valid = False, blockno = 0, block_lock = \<lparr>slocked = 0, spid = 0\<rparr>, refcnt = 0, bprev = 0,
        bnext = 0, bdata = replicate BSIZE 0\<rparr>),
      disk = (\<lambda>_. replicate BSIZE 0), dwrites = [], mypid = 1\<rparr>"

definition ex_cache :: bcache where
  "ex_cache = bufcache_init boot_cache"

theorem bufcache_init_spec_witness: "bc_inv (bufcache_init boot_cache)"
  by (rule bufcache_init_spec) (simp_all add: boot_cache_def)

lemma bufcache_init_blockno: "blockno (bufs (bufcache_init s) j) = blockno (bufs s j)"
  using init_loop_buf [of NBUF 0 "upd NBUF (bnext_update (\<lambda>_. NBUF)) (upd NBUF (bprev_update (\<lambda>_. NBUF)) s)" j]
  by (simp add: bufcache_init_def Let_def init_buf_def)

lemma init_loop_frame:
  "disk (bufcache_init_loop n b s) = disk s \<and> rest (bufcache_init_loop n b s) = rest s \<and>
   dwrites (bufcache_init_loop n b s) = dwrites s"
  by (induction n arbitrary: b s) (simp_all add: init_buf_def Let_def)

lemma bufcache_init_frame [simp]:
  "disk (bufcache_init s) = disk s" "rest (bufcache_init s) = rest s" "dwrites (bufcache_init s) = dwrites s"
  by (simp_all add: bufcache_init_def Let_def init_loop_frame)

lemma ex_cache_ok: "bc_inv ex_cache" "refs ex_cache b = 0" "\<not> held ex_cache b" "buf_of ex_cache b = None"
proof -
  show inv: "bc_inv ex_cache" unfolding ex_cache_def by (rule bufcache_init_inv) (simp_all add: boot_cache_def)
  show none: "buf_of ex_cache b = None"
    by (auto simp: buf_of_None ex_cache_def bufcache_init_blockno boot_cache_def)
  show "refs ex_cache b = 0" "\<not> held ex_cache b" using none by (simp_all add: refs_def held_def)
qed

theorem bufcache_read_spec_witness:
  "\<exists>i s'. bufcache_read 7 ex_cache = Some (i, s') \<and> bat s' i 7 \<and> held s' 7 \<and> refs s' 7 = 1"
  using bufcache_read_spec [OF ex_cache_ok(1), of 7] ex_cache_ok by auto

theorem bufcache_lru_witness:
  "\<exists>xs k. ring (bufs ex_cache) xs \<and> map_option fst (bufcache_read 7 ex_cache) = Some k"
proof -
  obtain xs where xs: "ring (bufs ex_cache) xs" using ex_cache_ok(1) by (auto simp: bc_inv_def)
  have "\<exists>j<NBUF. refcnt (bufs ex_cache j) = 0"
    using free_buffer [OF ex_cache_ok(1)] ex_cache_ok(2) by simp
  then obtain k where "find (\<lambda>j. refcnt (bufs ex_cache j) = 0) (rev xs) = Some k"
    using xs by (cases "find (\<lambda>j. refcnt (bufs ex_cache j) = 0) (rev xs)") (auto simp: find_None_iff ring_def)
  then have "map_option fst (bufcache_read 7 ex_cache) = Some k"
    using bufcache_lru [OF ex_cache_ok(1) xs, of 0 0 ex_cache 7 k] ex_cache_ok(4) by simp
  then show ?thesis using xs by blast
qed

end
