(* ===== verification/Blocks.thy ===== *)
theory Blocks
  imports Bufcache
begin

text \<open>
  Objects inside a disk block: a field of a C structure that lives in \<^verbatim>\<open>bp->data\<close> is read and written at
  its byte offset, little-endian.  Reading a field back gives what was written, and a write changes
  no field that does not overlap it.
\<close>

definition get_at :: "nat \<Rightarrow> nat \<Rightarrow> blk \<Rightarrow> u8 list" where
  "get_at k n d = take n (drop k d)"

definition put_at :: "nat \<Rightarrow> u8 list \<Rightarrow> blk \<Rightarrow> blk" where
  "put_at k bs d = take k d @ bs @ drop (k + length bs) d"

definition get16 :: "blk \<Rightarrow> nat \<Rightarrow> u16" where
  "get16 d k = le_word (get_at k 2 d)"

definition put16 :: "nat \<Rightarrow> u16 \<Rightarrow> blk \<Rightarrow> blk" where
  "put16 k v = put_at k (le_bytes 2 v)"

definition get32 :: "blk \<Rightarrow> nat \<Rightarrow> u32" where
  "get32 d k = le_word (get_at k 4 d)"

definition put32 :: "nat \<Rightarrow> u32 \<Rightarrow> blk \<Rightarrow> blk" where
  "put32 k v = put_at k (le_bytes 4 v)"

lemma length_put_at [simp]: "k + length bs \<le> length d \<Longrightarrow> length (put_at k bs d) = length d"
  by (simp add: put_at_def)

lemma nth_put_at:
  assumes "k + length bs \<le> length d" and "i < length d"
  shows "put_at k bs d ! i = (if k \<le> i \<and> i < k + length bs then bs ! (i - k) else d ! i)"
proof -
  have "k \<le> length d" using assms(1) by simp
  then show ?thesis using assms by (auto simp: put_at_def nth_append min_def not_less)
qed

lemma nth_get_at: "k + n \<le> length d \<Longrightarrow> i < n \<Longrightarrow> get_at k n d ! i = d ! (k + i)"
  by (simp add: get_at_def)

lemma length_get_at [simp]: "k + n \<le> length d \<Longrightarrow> length (get_at k n d) = n"
  by (simp add: get_at_def)

lemma get_put_same: "length bs = n \<Longrightarrow> k + n \<le> length d \<Longrightarrow> get_at k n (put_at k bs d) = bs"
  by (rule nth_equalityI) (auto simp: nth_get_at nth_put_at)

lemma get_put_other:
  assumes "k + length bs \<le> length d" and "j + n \<le> length d" and "j + n \<le> k \<or> k + length bs \<le> j"
  shows "get_at j n (put_at k bs d) = get_at j n d"
  by (rule nth_equalityI) (use assms in \<open>auto simp: nth_get_at nth_put_at\<close>)

lemma length_put16 [simp]: "k + 2 \<le> length d \<Longrightarrow> length (put16 k v d) = length d"
  by (simp add: put16_def)

lemma length_put32 [simp]: "k + 4 \<le> length d \<Longrightarrow> length (put32 k v d) = length d"
  by (simp add: put32_def)

lemma get16_put16 [simp]: "k + 2 \<le> length d \<Longrightarrow> get16 (put16 k v d) k = v"
  by (simp add: get16_def put16_def get_put_same)

lemma get32_put32 [simp]: "k + 4 \<le> length d \<Longrightarrow> get32 (put32 k v d) k = v"
  by (simp add: get32_def put32_def get_put_same)

lemma get_put_disjoint:
  "k + 2 \<le> length d \<Longrightarrow> j + 2 \<le> length d \<Longrightarrow> j + 2 \<le> k \<or> k + 2 \<le> j \<Longrightarrow> get16 (put16 k v d) j = get16 d j"
  "k + 4 \<le> length d \<Longrightarrow> j + 2 \<le> length d \<Longrightarrow> j + 2 \<le> k \<or> k + 4 \<le> j \<Longrightarrow> get16 (put32 k w d) j = get16 d j"
  "k + 2 \<le> length d \<Longrightarrow> j + 4 \<le> length d \<Longrightarrow> j + 4 \<le> k \<or> k + 2 \<le> j \<Longrightarrow> get32 (put16 k v d) j = get32 d j"
  "k + 4 \<le> length d \<Longrightarrow> j + 4 \<le> length d \<Longrightarrow> j + 4 \<le> k \<or> k + 4 \<le> j \<Longrightarrow> get32 (put32 k w d) j = get32 d j"
  by (simp_all add: get16_def get32_def put16_def put32_def get_put_other)

lemma put_get_at: "k + n \<le> length d \<Longrightarrow> put_at k (get_at k n d) d = d"
  by (rule nth_equalityI) (auto simp: nth_put_at nth_get_at)

text \<open>An array access of the source, which has no meaning outside the array.\<close>

definition idx :: "'a list \<Rightarrow> nat \<Rightarrow> 'a option" where
  "idx xs i = (if i < length xs then Some (xs ! i) else None)"

lemma idx_Some [simp]: "i < length xs \<Longrightarrow> idx xs i = Some (xs ! i)"
  by (simp add: idx_def)

end
