(* ===== verification/LogSpec.thy ===== *)
theory LogSpec
  imports Log
begin

text \<open>
  What the operations of the log do to the disk, block write by block write, and the crash theorem:
  the writes of a commit, cut off at any point, recover to the old or to the new contents.
\<close>

section \<open>The header block\<close>

definition head_n :: "blk \<Rightarrow> int" where
  "head_n d = sint (get32 d 0)"

definition head_blocks :: "blk \<Rightarrow> u32 list" where
  "head_blocks d = map (\<lambda>k. get32 d (4 + 4 * k)) [0..<nat (head_n d)]"

lemma load_head_eq:
  "i + n \<le> length bs \<Longrightarrow>
   load_head n i d bs = Some (take i bs @ map (\<lambda>k. get32 d (4 + 4 * k)) [i..<i + n] @ drop (i + n) bs)"
proof (induction n arbitrary: i bs)
  case (Suc n)
  have "load_head (Suc n) i d bs = load_head n (Suc i) d (bs[i := get32 d (4 + 4 * i)])" using Suc.prems by simp
  also have "\<dots> = Some (take (Suc i) (bs[i := get32 d (4 + 4 * i)]) @
      map (\<lambda>k. get32 d (4 + 4 * k)) [Suc i..<Suc i + n] @ drop (Suc i + n) (bs[i := get32 d (4 + 4 * i)]))"
    using Suc by simp
  finally show ?case
    using Suc.prems by (simp add: take_Suc_conv_app_nth upt_conv_Cons take_update_cancel drop_update_cancel del: upt_Suc)
qed simp

lemma store_head_spec:
  "i + n \<le> length bs \<Longrightarrow> 4 + 4 * (i + n) \<le> length d \<Longrightarrow>
   \<exists>d'. store_head n i bs d = Some d' \<and> length d' = length d \<and> get32 d' 0 = get32 d 0 \<and>
     (\<forall>k<i + n. get32 d' (4 + 4 * k) = (if k < i then get32 d (4 + 4 * k) else bs ! k))"
proof (induction n arbitrary: i d)
  case 0
  then show ?case by simp
next
  case (Suc n)
  let ?d = "put32 (4 + 4 * i) (bs ! i) d"
  have len: "length ?d = length d" using Suc.prems by simp
  obtain d' where d': "store_head n (Suc i) bs ?d = Some d'" "length d' = length ?d" "get32 d' 0 = get32 ?d 0"
      "\<forall>k<Suc i + n. get32 d' (4 + 4 * k) = (if k < Suc i then get32 ?d (4 + 4 * k) else bs ! k)"
    using Suc.IH [of "Suc i" ?d] Suc.prems len by auto
  have "get32 ?d 0 = get32 d 0" using Suc.prems by (simp add: get_put_disjoint)
  moreover have "get32 ?d (4 + 4 * k) = (if k = i then bs ! i else get32 d (4 + 4 * k))" if "k \<le> i" for k
    using Suc.prems that by (auto simp: get_put_disjoint)
  ultimately show ?case using d' len Suc.prems by (auto simp: less_Suc_eq)
qed

lemma take_eq_map_nth: "n \<le> length xs \<Longrightarrow> take n xs = map ((!) xs) [0..<n]"
  by (rule nth_equalityI) auto

lemma write_head_block:
  assumes "n \<le> length bs" and "length bs = LOGSIZE" and "length d = BSIZE"
  shows "\<exists>d'. store_head n 0 bs (put32 0 (of_int (int n)) d) = Some d' \<and> length d' = BSIZE \<and>
    head_n d' = int n \<and> head_blocks d' = take n bs"
proof -
  let ?d = "put32 0 (of_int (int n)) d :: blk"
  have len: "length ?d = BSIZE" using assms(3) by simp
  obtain d' where d': "store_head n 0 bs ?d = Some d'" "length d' = length ?d" "get32 d' 0 = get32 ?d 0"
      "\<forall>k<n. get32 d' (4 + 4 * k) = bs ! k"
    using store_head_spec [of 0 n bs ?d] assms len by auto
  have "get32 d' 0 = of_nat n" using d'(3) assms(3) by simp
  moreover have "sint (of_nat n :: u32) = int n"
    using assms(1,2) by (simp add: signed_of_nat signed_take_bit_int_eq_self)
  ultimately have hn: "head_n d' = int n" by (simp add: head_n_def)
  have "head_blocks d' = map (\<lambda>k. get32 d' (4 + 4 * k)) [0..<n]" by (simp only: head_blocks_def hn nat_int)
  also have "\<dots> = map ((!) bs) [0..<n]" using d'(4) by (intro map_cong [OF refl]) simp
  also have "\<dots> = take n bs" using assms(1) by (simp only: take_eq_map_nth)
  finally have "head_blocks d' = take n bs" .
  then show ?thesis using d'(1,2) len hn by (intro exI [of _ d']) simp
qed

section \<open>Sequences of block writes\<close>

definition writes :: "(u32 \<times> blk) list \<Rightarrow> (u32 \<Rightarrow> blk) \<Rightarrow> u32 \<Rightarrow> blk" where
  "writes w = fold (\<lambda>(b, d) f. f(b := d)) w"

lemma writes_Nil [simp]: "writes [] f = f"
  by (simp add: writes_def)

lemma writes_Cons [simp]: "writes ((b, d) # w) f = writes w (f(b := d))"
  by (simp add: writes_def)

lemma writes_append [simp]: "writes (v @ w) f = writes w (writes v f)"
  by (simp add: writes_def)

lemma writes_other: "b \<notin> fst ` set w \<Longrightarrow> writes w f b = f b"
  by (induction w arbitrary: f) auto

lemma writes_in: "distinct (map fst w) \<Longrightarrow> (b, d) \<in> set w \<Longrightarrow> writes w f b = d"
proof (induction w arbitrary: f)
  case (Cons x w)
  obtain c e where x: "x = (c, e)" by (cases x)
  show ?case
  proof (cases "(b, d) = x")
    case True
    then have "b \<notin> fst ` set w" using Cons.prems(1) x by auto
    then show ?thesis using True x by (simp add: writes_other)
  next
    case False
    then show ?thesis using Cons x by auto
  qed
qed simp

section \<open>Frame facts of the log state\<close>

lemma rest_log:
  fixes s s' :: "'a log_scheme"
  assumes "rest s' = rest s"
  shows "log_start s' = log_start s" "log_size s' = log_size s" "outstanding s' = outstanding s"
    "committing s' = committing s" "lh_n s' = lh_n s" "lh_block s' = lh_block s" "log.more s' = log.more s"
  using assms by (cases s; cases s'; simp add: rest_def)+

lemma log_upd_view [simp]:
  "bc_inv (s\<lparr>lh_n := n\<rparr>) = bc_inv s" "content (s\<lparr>lh_n := n\<rparr>) = content s" "refs (s\<lparr>lh_n := n\<rparr>) = refs s"
  "held (s\<lparr>lh_n := n\<rparr>) = held s" "bat (s\<lparr>lh_n := n\<rparr>) = bat s"
  "bc_inv (s\<lparr>lh_block := bs\<rparr>) = bc_inv s" "content (s\<lparr>lh_block := bs\<rparr>) = content s"
  "refs (s\<lparr>lh_block := bs\<rparr>) = refs s" "held (s\<lparr>lh_block := bs\<rparr>) = held s" "bat (s\<lparr>lh_block := bs\<rparr>) = bat s"
  "bc_inv (s\<lparr>outstanding := k\<rparr>) = bc_inv s" "content (s\<lparr>outstanding := k\<rparr>) = content s"
  "refs (s\<lparr>outstanding := k\<rparr>) = refs s" "held (s\<lparr>outstanding := k\<rparr>) = held s" "bat (s\<lparr>outstanding := k\<rparr>) = bat s"
  "bc_inv (s\<lparr>committing := c\<rparr>) = bc_inv s" "content (s\<lparr>committing := c\<rparr>) = content s"
  "refs (s\<lparr>committing := c\<rparr>) = refs s" "held (s\<lparr>committing := c\<rparr>) = held s" "bat (s\<lparr>committing := c\<rparr>) = bat s"
  by (rule view_cong; simp)+

section \<open>The area of the log on the disk\<close>

definition log_block :: "u32 \<Rightarrow> nat \<Rightarrow> u32" where
  "log_block start t = start + of_nat t + 1"

text \<open>The header and the first \<open>z\<close> blocks of the log.\<close>

definition log_area :: "nat \<Rightarrow> u32 \<Rightarrow> u32 set" where
  "log_area z start = insert start (log_block start ` {..<z})"

definition log_fits :: "u32 \<Rightarrow> bool" where
  "log_fits start \<longleftrightarrow> start \<noteq> 0 \<and> unat start + LOGSIZE < 2 ^ 32"

lemma unat_log_block: "log_fits start \<Longrightarrow> t < LOGSIZE \<Longrightarrow> unat (log_block start t) = unat start + t + 1"
proof -
  assume a: "log_fits start" "t < LOGSIZE"
  have "unat (of_nat t :: u32) = t" by (rule unat_of_nat_small) (use a in simp)
  then have "unat (start + of_nat t) = unat start + t"
    using a by (subst unat_plus_no_wrap) (simp_all add: log_fits_def)
  then show ?thesis using a unfolding log_block_def by (subst unat_plus_no_wrap) (simp_all add: log_fits_def)
qed

lemma log_block_facts:
  assumes "log_fits start" and "t < LOGSIZE"
  shows "log_block start t \<noteq> 0" "log_block start t \<noteq> start" "t < z \<Longrightarrow> log_block start t \<in> log_area z start"
    "u < LOGSIZE \<Longrightarrow> log_block start u = log_block start t \<Longrightarrow> u = t"
  using unat_log_block [OF assms] unat_log_block [OF assms(1), of u] assms(2)
  by (auto simp: log_area_def)

lemma log_area_start: "start \<in> log_area z start"
  by (simp add: log_area_def)

section \<open>The loops\<close>

text \<open>What holds between two iterations of the loops of a commit.\<close>

definition quiet :: "'a log_scheme \<Rightarrow> bool" where
  "quiet s \<longleftrightarrow> bc_inv s \<and> (\<forall>b. \<not> held s b) \<and> (\<forall>b. refs s b + 2 < 2 ^ 32) \<and> log_fits (log_start s) \<and>
     length (lh_block s) = LOGSIZE"

lemma write_log_step:
  assumes q: "quiet s" and tz: "t < z" "z \<le> LOGSIZE" and b: "b = lh_block s ! t" "b \<noteq> 0" "b \<notin> log_area z (log_start s)"
    and pinned: "0 < refs s b" and room: "card {b. 0 < refs s b} < NBUF"
  shows "\<exists>s'. write_log_loop (Suc n) t s = write_log_loop n (Suc t) s' \<and> quiet s' \<and> rest s' = rest s \<and>
    refs s' = refs s \<and> content s' = (content s)(log_block (log_start s) t := content s b) \<and>
    disk s' = (disk s)(log_block (log_start s) t := content s b) \<and>
    dwrites s' = dwrites s @ [(log_block (log_start s) t, content s b)]"
proof -
  let ?y = "log_block (log_start s) t"
  have inv: "bc_inv s" and nh: "\<not> held s c" and small: "refs s c + 2 < 2 ^ 32" and fits: "log_fits (log_start s)"
    and len: "length (lh_block s) = LOGSIZE" for c using q by (auto simp: quiet_def)
  have t: "t < LOGSIZE" using tz by simp
  have y: "?y \<noteq> 0" "?y \<noteq> b" using log_block_facts [OF fits t] b(3) tz(1) by auto
  have "insert ?y (insert b {b. 0 < refs s b}) = insert ?y {b. 0 < refs s b}" using pinned by auto
  then have "card (insert ?y (insert b {b. 0 < refs s b})) \<le> NBUF"
    using room card_insert_le_m1 [of NBUF "{b. 0 < refs s b}" ?y] by simp
  then obtain i s1 j s2 where r: "bufcache_read ?y s = Some (i, s1)" "bufcache_read b s1 = Some (j, s2)" "bc_inv s2"
      "bat s2 i ?y" "bat s2 j b" "content s2 = content s"
      "refs s2 = (refs s)(?y := refs s ?y + 1, b := refs s b + 1)" "held s2 = (held s)(?y := True, b := True)"
      "disk s2 = disk s" "dwrites s2 = dwrites s" "rest s1 = rest s" "rest s2 = rest s"
    using bc.two_reads [OF inv y(2) y(1) b(2) nh nh _ _ _ finite] small [of ?y] small [of b] by auto
  have "held s2 b" "held s2 ?y" and nn: "refs s2 b \<noteq> 1" using r(7,8) pinned by auto
  then obtain s3 s4 s5 where c: "bufcache_write i (set_data i (bdata (bufs s2 j)) s2) = Some s3"
      "bufcache_release j s3 = Some s4" "bufcache_release i s4 = Some s5" "bc_inv s5"
      "content s5 = (content s2)(?y := content s2 b)" "disk s5 = (disk s2)(?y := content s2 b)"
      "dwrites s5 = dwrites s2 @ [(?y, content s2 b)]" "rest s5 = rest s2"
      "refs s5 = (refs s2)(b := refs s2 b - 1, ?y := refs s2 ?y - 1)" "held s5 = (held s2)(b := False, ?y := False)"
    using bc.copy_write_release [OF r(3) y(2) [symmetric] r(5,4), of False] by auto
  have "log_start s1 = log_start s" "lh_block s1 = lh_block s" using rest_log [OF r(11)] by auto
  then have "write_log_loop (Suc n) t s = write_log_loop n (Suc t) s5"
    using r(1,2) c(1-3) t len b(1) by (simp add: log_block_def)
  moreover have refs: "refs s5 = refs s" using c(9) r(7) y(2) by (auto simp: fun_eq_iff)
  moreover have "held s5 = held s" using c(10) r(8) nh by (auto simp: fun_eq_iff)
  moreover have "rest s5 = rest s" using c(8) r(12) by simp
  moreover from this have "quiet s5"
    using q c(4) calculation rest_log [of s5 s] by (simp add: quiet_def)
  ultimately show ?thesis using c(5-7) r(6,9,10) by (intro exI [of _ s5]) simp
qed

text \<open>The blocks a log header names: not in the log itself, and not the boot block.\<close>

definition loggable :: "nat \<Rightarrow> u32 \<Rightarrow> u32 \<Rightarrow> bool" where
  "loggable z start b \<longleftrightarrow> b \<noteq> 0 \<and> b \<notin> log_area z start"

definition log_writes :: "u32 \<Rightarrow> u32 list \<Rightarrow> (u32 \<Rightarrow> blk) \<Rightarrow> nat \<Rightarrow> nat \<Rightarrow> (u32 \<times> blk) list" where
  "log_writes start bs f t n = map (\<lambda>k. (log_block start k, f (bs ! k))) [t..<t + n]"

lemma log_writes_Suc:
  "log_writes start bs f t (Suc n) = (log_block start t, f (bs ! t)) # log_writes start bs f (Suc t) n"
  by (simp add: log_writes_def upt_conv_Cons del: upt_Suc)

lemma write_log_loop_spec:
  assumes "quiet s" and "t + n \<le> z \<and> z \<le> LOGSIZE" and "card {b. 0 < refs s b} < NBUF"
    and "\<forall>k. t \<le> k \<longrightarrow> k < t + n \<longrightarrow> loggable z (log_start s) (lh_block s ! k) \<and> 0 < refs s (lh_block s ! k)"
    and "w = log_writes (log_start s) (lh_block s) (content s) t n"
  shows "\<exists>s'. write_log_loop n t s = Some s' \<and> quiet s' \<and> rest s' = rest s \<and> refs s' = refs s \<and>
    content s' = writes w (content s) \<and> disk s' = writes w (disk s) \<and> dwrites s' = dwrites s @ w"
  using assms
proof (induction n arbitrary: t s w)
  case 0
  then show ?case by (simp add: log_writes_def)
next
  case (Suc n)
  let ?b = "lh_block s ! t" and ?st = "log_start s"
  have tz: "t < z" "z \<le> LOGSIZE" and t: "t < LOGSIZE" using Suc.prems(2) by simp_all
  have b: "loggable z ?st ?b" "0 < refs s ?b" using Suc.prems(4) by auto
  obtain s1 where s1: "write_log_loop (Suc n) t s = write_log_loop n (Suc t) s1" "quiet s1" "rest s1 = rest s"
      "refs s1 = refs s" "content s1 = (content s)(log_block ?st t := content s ?b)"
      "disk s1 = (disk s)(log_block ?st t := content s ?b)"
      "dwrites s1 = dwrites s @ [(log_block ?st t, content s ?b)]"
    using write_log_step [OF Suc.prems(1) tz refl _ _ b(2) Suc.prems(3), of n] b(1)
    unfolding loggable_def by blast
  have same: "log_start s1 = ?st" "lh_block s1 = lh_block s" using rest_log [OF s1(3)] by auto
  have fits: "log_fits ?st" using Suc.prems(1) by (simp add: quiet_def)
  have keep: "content s1 (lh_block s ! k) = content s (lh_block s ! k)" if "Suc t \<le> k" "k < Suc t + n" for k
  proof -
    have "loggable z ?st (lh_block s ! k)" using Suc.prems(4) that by simp
    then have "lh_block s ! k \<noteq> log_block ?st t" using log_block_facts(3) [OF fits t tz(1)] by (auto simp: loggable_def)
    then show ?thesis by (simp add: s1(5))
  qed
  have w: "log_writes ?st (lh_block s) (content s1) (Suc t) n = log_writes ?st (lh_block s) (content s) (Suc t) n"
    unfolding log_writes_def using keep by (intro map_cong [OF refl]) auto
  obtain s' where "write_log_loop n (Suc t) s1 = Some s'" "quiet s'" "rest s' = rest s1" "refs s' = refs s1"
      "content s' = writes (log_writes ?st (lh_block s) (content s) (Suc t) n) (content s1)"
      "disk s' = writes (log_writes ?st (lh_block s) (content s) (Suc t) n) (disk s1)"
      "dwrites s' = dwrites s1 @ log_writes ?st (lh_block s) (content s) (Suc t) n"
    using Suc.IH [OF s1(2) _ _ _ refl, of "Suc t"] Suc.prems(2-4) s1(4) same w by auto
  then show ?case
    using s1 by (intro exI [of _ s']) (simp add: Suc.prems(5) log_writes_Suc)
qed

lemma install_step:
  assumes q: "quiet s" and tz: "t < z" "z \<le> LOGSIZE" and b: "b = lh_block s ! t" "loggable z (log_start s) b"
    and lr: "refs s (log_block (log_start s) t) = 0" and pinned: "\<not> rec \<Longrightarrow> 0 < refs s b"
    and room: "card (insert b {b. 0 < refs s b}) < NBUF"
  shows "\<exists>s'. install_loop (Suc n) t rec s = install_loop n (Suc t) rec s' \<and> quiet s' \<and> rest s' = rest s \<and>
    refs s' = (if rec then refs s else (refs s)(b := refs s b - 1)) \<and>
    content s' = (content s)(b := content s (log_block (log_start s) t)) \<and>
    disk s' = (disk s)(b := content s (log_block (log_start s) t)) \<and>
    dwrites s' = dwrites s @ [(b, content s (log_block (log_start s) t))]"
proof -
  let ?x = "log_block (log_start s) t"
  have inv: "bc_inv s" and nh: "\<not> held s c" and small: "refs s c + 2 < 2 ^ 32" and fits: "log_fits (log_start s)"
    and len: "length (lh_block s) = LOGSIZE" for c using q by (auto simp: quiet_def)
  have t: "t < LOGSIZE" using tz by simp
  have x: "?x \<noteq> 0" "?x \<noteq> b" "b \<noteq> 0" using log_block_facts [OF fits t] b(2) tz(1) by (auto simp: loggable_def)
  have "card (insert ?x (insert b {b. 0 < refs s b})) \<le> NBUF"
    using room card_insert_le_m1 [of NBUF "insert b {b. 0 < refs s b}" ?x] by simp
  then obtain i s1 j s2 where r: "bufcache_read ?x s = Some (i, s1)" "bufcache_read b s1 = Some (j, s2)" "bc_inv s2"
      "bat s2 i ?x" "bat s2 j b" "content s2 = content s"
      "refs s2 = (refs s)(?x := refs s ?x + 1, b := refs s b + 1)" "held s2 = (held s)(?x := True, b := True)"
      "disk s2 = disk s" "dwrites s2 = dwrites s" "rest s1 = rest s" "rest s2 = rest s"
    using bc.two_reads [OF inv x(2,1,3) nh nh _ _ _ finite] small [of ?x] small [of b] by auto
  have hd: "held s2 b" "held s2 ?x" and two: "\<not> rec \<Longrightarrow> 2 \<le> refs s2 b" using r(7,8) pinned by auto
  have cl: "content s2 ?x = disk s2 ?x" using bc.clean [OF inv lr] r(6,9) by simp
  obtain s3 s4 s5 where c: "bufcache_write j (set_data j (bdata (bufs s2 i)) s2) = Some s3"
      "bufcache_release i (if \<not> rec then bufcache_unpin j s3 else s3) = Some s4" "bufcache_release j s4 = Some s5"
      "bc_inv s5" "content s5 = (content s2)(b := content s2 ?x)" "disk s5 = (disk s2)(b := content s2 ?x)"
      "dwrites s5 = dwrites s2 @ [(b, content s2 ?x)]" "rest s5 = rest s2"
      "refs s5 = (refs s2)(?x := refs s2 ?x - 1, b := refs s2 b - (if \<not> rec then 2 else 1))"
      "held s5 = (held s2)(?x := False, b := False)"
    using bc.copy_write_release [OF r(3) x(2) r(4,5) hd(2,1) cl, of "\<not> rec"] two by blast
  have "log_start s1 = log_start s" "lh_block s1 = lh_block s" using rest_log [OF r(11)] by auto
  then have "install_loop (Suc n) t rec s = install_loop n (Suc t) rec s5"
    using r(1,2) c(1-3) t len b(1) by (simp add: log_block_def)
  moreover have refs: "refs s5 = (if rec then refs s else (refs s)(b := refs s b - 1))"
    using c(9) r(7) x(2) by (auto simp: fun_eq_iff)
  moreover have "held s5 = held s" using c(10) r(8) nh by (auto simp: fun_eq_iff)
  moreover have "rest s5 = rest s" using c(8) r(12) by simp
  moreover have "quiet s5"
  proof -
    have "refs s5 c + 2 < 2 ^ 32" for c using refs small [of c] by (cases rec) (auto simp: fun_eq_iff)
    then show ?thesis using c(4) nh fits len \<open>held s5 = held s\<close> rest_log [OF \<open>rest s5 = rest s\<close>] by (simp add: quiet_def)
  qed
  ultimately show ?thesis using c(5-7) r(6,9,10) by (intro exI [of _ s5]) simp
qed

definition home_writes :: "u32 \<Rightarrow> u32 list \<Rightarrow> (u32 \<Rightarrow> blk) \<Rightarrow> nat \<Rightarrow> nat \<Rightarrow> (u32 \<times> blk) list" where
  "home_writes start bs f t n = map (\<lambda>k. (bs ! k, f (log_block start k))) [t..<t + n]"

lemma home_writes_Suc:
  "home_writes start bs f t (Suc n) = (bs ! t, f (log_block start t)) # home_writes start bs f (Suc t) n"
  by (simp add: home_writes_def upt_conv_Cons del: upt_Suc)

definition named :: "u32 list \<Rightarrow> nat \<Rightarrow> nat \<Rightarrow> u32 set" where
  "named bs t n = (\<lambda>k. bs ! k) ` {t..<t + n}"

lemma named_Suc: "named bs t (Suc n) = insert (bs ! t) (named bs (Suc t) n)"
proof -
  have "{t..<t + Suc n} = insert t {Suc t..<Suc t + n}" by auto
  then show ?thesis by (simp add: named_def)
qed

lemma install_loop_spec:
  assumes "quiet s" and "t + n \<le> z \<and> z \<le> LOGSIZE" and "\<forall>b\<in>named (lh_block s) t n. loggable z (log_start s) b"
    and "\<forall>k<z. refs s (log_block (log_start s) k) = 0"
    and "\<not> rec \<longrightarrow> (\<forall>b\<in>named (lh_block s) t n. 0 < refs s b) \<and> inj_on (\<lambda>k. lh_block s ! k) {t..<t + n}"
    and "\<forall>b\<in>named (lh_block s) t n. card (insert b {b. 0 < refs s b}) < NBUF"
    and "w = home_writes (log_start s) (lh_block s) (content s) t n"
  shows "\<exists>s'. install_loop n t rec s = Some s' \<and> quiet s' \<and> rest s' = rest s \<and>
    refs s' = (\<lambda>b. if \<not> rec \<and> b \<in> named (lh_block s) t n then refs s b - 1 else refs s b) \<and>
    content s' = writes w (content s) \<and> disk s' = writes w (disk s) \<and> dwrites s' = dwrites s @ w"
  using assms
proof (induction n arbitrary: t s w)
  case 0
  then show ?case by (simp add: home_writes_def named_def)
next
  case (Suc n)
  let ?b = "lh_block s ! t" and ?st = "log_start s" and ?x = "log_block (log_start s) t"
  have tz: "t < z" "z \<le> LOGSIZE" and t: "t < LOGSIZE" using Suc.prems(2) by simp_all
  have fits: "log_fits ?st" using Suc.prems(1) by (simp add: quiet_def)
  have b: "loggable z ?st ?b" "\<not> rec \<Longrightarrow> 0 < refs s ?b" "card (insert ?b {b. 0 < refs s b}) < NBUF"
    using Suc.prems(3,5,6) by (auto simp: named_Suc)
  obtain s1 where s1: "install_loop (Suc n) t rec s = install_loop n (Suc t) rec s1" "quiet s1" "rest s1 = rest s"
      "refs s1 = (if rec then refs s else (refs s)(?b := refs s ?b - 1))"
      "content s1 = (content s)(?b := content s ?x)" "disk s1 = (disk s)(?b := content s ?x)"
      "dwrites s1 = dwrites s @ [(?b, content s ?x)]"
    using install_step [OF Suc.prems(1) tz refl b(1) _ b(2,3), where n = n] Suc.prems(4) tz by blast
  have same: "log_start s1 = ?st" "lh_block s1 = lh_block s" using rest_log [OF s1(3)] by auto
  have le: "refs s1 c \<le> refs s c" for c using s1(4) by (cases rec) auto
  then have sub: "{b. 0 < refs s1 b} \<subseteq> {b. 0 < refs s b}" using le_trans less_le_trans by blast
  have nb: "c \<noteq> ?b" if nr: "\<not> rec" and cn: "c \<in> named (lh_block s) (Suc t) n" for c
  proof
    assume eq: "c = ?b"
    obtain k where k: "Suc t \<le> k" "k < Suc t + n" "c = lh_block s ! k" using cn by (auto simp: named_def)
    have "inj_on (\<lambda>k. lh_block s ! k) {t..<t + Suc n}" using Suc.prems(5) nr by simp
    from inj_onD [OF this, of k t] k eq show False by simp
  qed
  have keep: "content s1 (log_block ?st k) = content s (log_block ?st k)" if "k < z" for k
    using b(1) log_block_facts(3) [OF fits _ that] that tz(2) by (auto simp: s1(5) loggable_def)
  have w: "home_writes ?st (lh_block s) (content s1) (Suc t) n = home_writes ?st (lh_block s) (content s) (Suc t) n"
    unfolding home_writes_def using keep Suc.prems(2) by (intro map_cong [OF refl]) auto
  have p3: "\<forall>b\<in>named (lh_block s1) (Suc t) n. loggable z (log_start s1) b"
    using Suc.prems(3) unfolding same by (simp add: named_Suc)
  have p4: "\<forall>k<z. refs s1 (log_block (log_start s1) k) = 0"
    using Suc.prems(4) le unfolding same by (metis le_zero_eq)
  have p5: "\<not> rec \<longrightarrow> (\<forall>b\<in>named (lh_block s1) (Suc t) n. 0 < refs s1 b) \<and> inj_on (\<lambda>k. lh_block s1 ! k) {Suc t..<Suc t + n}"
    using Suc.prems(5) nb s1(4) unfolding same by (auto simp: named_Suc inj_on_def)
  have p6: "\<forall>b\<in>named (lh_block s1) (Suc t) n. card (insert b {b. 0 < refs s1 b}) < NBUF"
  proof
    fix c assume "c \<in> named (lh_block s1) (Suc t) n"
    then have "card (insert c {b. 0 < refs s b}) < NBUF" using Suc.prems(6) unfolding same by (simp add: named_Suc)
    moreover have "card (insert c {b. 0 < refs s1 b}) \<le> card (insert c {b. 0 < refs s b})"
      using sub by (intro card_mono) auto
    ultimately show "card (insert c {b. 0 < refs s1 b}) < NBUF" by simp
  qed
  have "Suc t + n \<le> z \<and> z \<le> LOGSIZE" using Suc.prems(2) by simp
  from Suc.IH [OF s1(2) this p3 p4 p5 p6 refl] obtain s' where
      "install_loop n (Suc t) rec s1 = Some s'" "quiet s'" "rest s' = rest s1"
      "refs s' = (\<lambda>b. if \<not> rec \<and> b \<in> named (lh_block s) (Suc t) n then refs s1 b - 1 else refs s1 b)"
      "content s' = writes (home_writes ?st (lh_block s) (content s) (Suc t) n) (content s1)"
      "disk s' = writes (home_writes ?st (lh_block s) (content s) (Suc t) n) (disk s1)"
      "dwrites s' = dwrites s1 @ home_writes ?st (lh_block s) (content s) (Suc t) n"
    unfolding same w by auto
  moreover have "(\<lambda>b. if \<not> rec \<and> b \<in> named (lh_block s) (Suc t) n then refs s1 b - 1 else refs s1 b) =
      (\<lambda>b. if \<not> rec \<and> b \<in> named (lh_block s) t (Suc n) then refs s b - 1 else refs s b)"
    using nb s1(4) by (auto simp: named_Suc fun_eq_iff)
  ultimately show ?case
    using s1(1,3,5-7) by (intro exI [of _ s']) (simp add: Suc.prems(7) home_writes_Suc)
qed

section \<open>Header, commit and recovery\<close>

lemma write_head_spec:
  assumes q: "quiet s" and n: "lh_n s = int n" "n \<le> LOGSIZE" and room: "card {b. 0 < refs s b} < NBUF"
  shows "\<exists>s' h. write_head s = Some s' \<and> quiet s' \<and> rest s' = rest s \<and> refs s' = refs s \<and>
    content s' = (content s)(log_start s := h) \<and> disk s' = (disk s)(log_start s := h) \<and>
    dwrites s' = dwrites s @ [(log_start s, h)] \<and> length h = BSIZE \<and> head_n h = int n \<and>
    head_blocks h = take n (lh_block s)"
proof -
  let ?b = "log_start s"
  have inv: "bc_inv s" and nh: "\<not> held s ?b" and small: "refs s ?b + 1 < 2 ^ 32" and b0: "?b \<noteq> 0"
    and len: "length (lh_block s) = LOGSIZE" using q by (auto simp: quiet_def log_fits_def dest: spec [of _ ?b])
  obtain i s1 where r: "bufcache_read ?b s = Some (i, s1)" "bdata (bufs s1 i) = content s ?b" "rest s1 = rest s"
    and w: "\<forall>d. length d = BSIZE \<longrightarrow> (\<exists>s2 s3. bufcache_write i (set_data i d s1) = Some s2 \<and>
       bufcache_release i s2 = Some s3 \<and> bc_inv s3 \<and> content s3 = (content s)(?b := d) \<and>
       disk s3 = (disk s)(?b := d) \<and> dwrites s3 = dwrites s @ [(?b, d)] \<and> refs s3 = refs s \<and>
       held s3 = held s \<and> rest s3 = rest s)"
    using bc.rewrite_block [OF inv b0 nh small] room by blast
  note same = rest_log [OF r(3)]
  obtain h where h: "store_head n 0 (lh_block s) (put32 0 (of_int (int n)) (content s ?b)) = Some h"
      "length h = BSIZE" "head_n h = int n" "head_blocks h = take n (lh_block s)"
    using write_head_block [of n "lh_block s" "content s ?b"] n(2) len length_content [OF inv] by auto
  obtain s2 s3 where s3: "bufcache_write i (set_data i h s1) = Some s2" "bufcache_release i s2 = Some s3" "bc_inv s3"
      "content s3 = (content s)(?b := h)" "disk s3 = (disk s)(?b := h)" "dwrites s3 = dwrites s @ [(?b, h)]"
      "refs s3 = refs s" "held s3 = held s" "rest s3 = rest s"
    using w h(2) by blast
  have "write_head s = Some s3"
    using r s3(1,2) h(1) same n(1) by (simp add: write_head_def)
  moreover have "quiet s3" using q s3(3,7,8) rest_log [OF s3(9)] by (simp add: quiet_def)
  ultimately show ?thesis using s3(4-7,9) h(2-4) by (intro exI [of _ s3] exI [of _ h]) simp
qed

lemma read_head_spec:
  assumes q: "quiet s" and n: "head_n (content s (log_start s)) = int n" "n \<le> LOGSIZE"
    and room: "card {b. 0 < refs s b} < NBUF"
  shows "\<exists>s'. read_head s = Some s' \<and> quiet s' \<and> refs s' = refs s \<and> content s' = content s \<and> disk s' = disk s \<and>
    dwrites s' = dwrites s \<and> log_start s' = log_start s \<and> lh_n s' = int n \<and>
    take n (lh_block s') = head_blocks (content s (log_start s)) \<and>
    outstanding s' = outstanding s \<and> committing s' = committing s \<and> log_size s' = log_size s \<and> log.more s' = log.more s"
proof -
  let ?b = "log_start s"
  let ?d = "content s ?b"
  have inv: "bc_inv s" and nh: "\<not> held s ?b" and small: "refs s ?b + 1 < 2 ^ 32" and b0: "?b \<noteq> 0"
    and len: "length (lh_block s) = LOGSIZE" using q by (auto simp: quiet_def log_fits_def dest: spec [of _ ?b])
  obtain i s1 where r: "bufcache_read ?b s = Some (i, s1)" "bc_inv s1" "content s1 = content s"
      "refs s1 = (refs s)(?b := refs s ?b + 1)" "held s1 = (held s)(?b := True)" "disk s1 = disk s"
      "dwrites s1 = dwrites s" "rest s1 = rest s" "bat s1 i ?b"
    using bc.rd_ok [OF inv b0 nh small] room by blast
  note same = rest_log [OF r(8)]
  define bs where "bs = map (\<lambda>k. get32 ?d (4 + 4 * k)) [0..<n] @ drop n (lh_block s)"
  define s2 where "s2 = s1\<lparr>lh_n := int n, lh_block := bs\<rparr>"
  have bs: "load_head n 0 ?d (lh_block s) = Some bs" "length bs = LOGSIZE" "take n bs = head_blocks ?d"
    using load_head_eq [of 0 n "lh_block s" ?d] n len by (simp_all add: bs_def head_blocks_def)
  have v2: "bc_inv s2" "content s2 = content s" "refs s2 = refs s1" "held s2 = held s1" "disk s2 = disk s"
      "dwrites s2 = dwrites s" "bat s2 i ?b" using r by (simp_all add: s2_def)
  have "refs s2 ?b = 1 \<Longrightarrow> content s2 ?b = disk s2 ?b"
    using v2 r(4) bc.clean [OF inv, of ?b] by simp
  moreover have "held s2 ?b" using v2 r(5) by simp
  ultimately obtain s3 where s3: "bufcache_release i s2 = Some s3" "bc_inv s3" "content s3 = content s2"
      "refs s3 = (refs s2)(?b := refs s2 ?b - 1)" "held s3 = (held s2)(?b := False)" "disk s3 = disk s2"
      "dwrites s3 = dwrites s2" "rest s3 = rest s2"
    using bc.rel_ok [OF v2(1,7)] by blast
  note same3 = rest_log [OF s3(8)]
  have data: "bdata (bufs s1 i) = ?d" using bc.get_ok [OF r(2,9)] r(3) by simp
  have "sint (get32 ?d 0) = int n" using n(1) by (simp add: head_n_def)
  then have "read_head s = Some s3"
    using r(1) data bs(1) s3(1) same by (simp add: read_head_def s2_def)
  moreover have "refs s3 = refs s" "held s3 = held s" using s3(4,5) v2 r(4,5) nh by (auto simp: fun_eq_iff)
  moreover from this have "quiet s3" using q s3(2) same3 same bs(2) by (simp add: quiet_def s2_def)
  ultimately show ?thesis using s3 v2 same3 same bs by (intro exI [of _ s3]) (simp add: s2_def)
qed

text \<open>A transaction ready to commit: \<open>n\<close> different blocks, all pinned in the cache, and no buffer of
  the log area in use.\<close>

definition committable :: "'a log_scheme \<Rightarrow> nat \<Rightarrow> bool" where
  "committable s n \<longleftrightarrow> quiet s \<and> lh_n s = int n \<and> 0 < n \<and> n \<le> LOGSIZE \<and> card {b. 0 < refs s b} < NBUF \<and>
     distinct (take n (lh_block s)) \<and>
     (\<forall>b\<in>set (take n (lh_block s)). loggable n (log_start s) b \<and> 0 < refs s b) \<and>
     (\<forall>b\<in>log_area n (log_start s). refs s b = 0)"

text \<open>The writes of a commit, in their order: the log, the header, the home blocks, the cleared header.\<close>

definition home_copy :: "u32 list \<Rightarrow> (u32 \<Rightarrow> blk) \<Rightarrow> (u32 \<times> blk) list" where
  "home_copy bs f = map (\<lambda>b. (b, f b)) bs"

definition log_copy :: "u32 \<Rightarrow> u32 list \<Rightarrow> (u32 \<Rightarrow> blk) \<Rightarrow> (u32 \<times> blk) list" where
  "log_copy start bs f = map (\<lambda>k. (log_block start k, f (bs ! k))) [0..<length bs]"

lemma log_copy_length [simp]: "length (log_copy start bs f) = length bs"
  by (simp add: log_copy_def)

lemma home_copy_length [simp]: "length (home_copy bs f) = length bs"
  by (simp add: home_copy_def)

lemma log_copy_area: "length bs = n \<Longrightarrow> fst ` set (log_copy start bs f) \<subseteq> log_area n start"
  by (auto simp: log_copy_def log_area_def)

lemma log_copy_in:
  assumes "log_fits start" and "length bs \<le> LOGSIZE" and "k < length bs"
  shows "writes (log_copy start bs f) g (log_block start k) = f (bs ! k)"
proof (rule writes_in)
  have "inj_on (log_block start) {..<length bs}"
    using log_block_facts(4) [OF assms(1)] assms(2) by (intro inj_onI) (simp add: less_le_trans)
  then show "distinct (map fst (log_copy start bs f))"
    by (simp add: log_copy_def o_def distinct_map inj_on_def)
  show "(log_block start k, f (bs ! k)) \<in> set (log_copy start bs f)" using assms(3) by (force simp: log_copy_def)
qed

lemma log_copy_start:
  assumes "log_fits start" and "length bs \<le> LOGSIZE"
  shows "start \<notin> fst ` set (log_copy start bs f)"
proof
  assume "start \<in> fst ` set (log_copy start bs f)"
  then obtain k where k: "k < length bs" "start = log_block start k" by (auto simp: log_copy_def)
  then show False using log_block_facts(2) [OF assms(1), of k] assms(2) by simp
qed

lemma home_copy_get: "writes (home_copy bs f) g b = (if b \<in> set bs then f b else g b)"
  by (induction bs arbitrary: g) (auto simp: home_copy_def)

lemma log_writes_copy: "n \<le> length bs \<Longrightarrow> log_writes start bs f 0 n = log_copy start (take n bs) f"
  by (simp add: log_writes_def log_copy_def)

lemma home_writes_copy:
  assumes "n \<le> length bs" and "\<And>k. k < n \<Longrightarrow> f (log_block start k) = g (bs ! k)"
  shows "home_writes start bs f 0 n = home_copy (take n bs) g"
  using assms by (auto simp: home_writes_def home_copy_def take_eq_map_nth)

lemma named_take: "n \<le> length bs \<Longrightarrow> named bs 0 n = set (take n bs)"
  by (auto simp: named_def take_eq_map_nth)

lemma inj_take: "n \<le> length bs \<Longrightarrow> distinct (take n bs) \<Longrightarrow> inj_on (\<lambda>k. bs ! k) {0..<n}"
  by (simp add: take_eq_map_nth distinct_map)

lemma rest_lh_n: "rest s = rest t \<Longrightarrow> rest (s\<lparr>lh_n := x\<rparr>) = rest (t\<lparr>lh_n := x\<rparr>)" for s t :: "'a log_scheme"
  by (cases s; cases t) (simp add: rest_def)

lemma quiet_lh_n [simp]: "quiet (s\<lparr>lh_n := x\<rparr>) = quiet s"
  by (simp add: quiet_def)

text \<open>The first half writes the log and its header; the transaction is on the disk once the header is.\<close>

lemma commit_log:
  assumes c: "committable s n" and bs: "bs = take n (lh_block s)" and st: "st = log_start s"
  shows "\<exists>s1 s2 h. write_log s = Some s1 \<and> write_head s1 = Some s2 \<and> quiet s2 \<and> rest s2 = rest s \<and>
    refs s2 = refs s \<and> head_n h = int n \<and> head_blocks h = bs \<and>
    content s2 = writes (log_copy st bs (content s) @ [(st, h)]) (content s) \<and>
    disk s2 = writes (log_copy st bs (content s) @ [(st, h)]) (disk s) \<and>
    dwrites s2 = dwrites s @ log_copy st bs (content s) @ [(st, h)]"
proof -
  have q: "quiet s" and n: "lh_n s = int n" "n \<le> LOGSIZE" and room: "card {b. 0 < refs s b} < NBUF"
    and ok: "\<And>b. b \<in> set bs \<Longrightarrow> loggable n st b \<and> 0 < refs s b" using c unfolding committable_def bs st by auto
  have nl: "n \<le> length (lh_block s)" using q n(2) by (simp add: quiet_def)
  have nth: "lh_block s ! k \<in> set bs" if "k < n" for k using that nl by (auto simp: bs take_eq_map_nth)
  let ?L = "log_copy st bs (content s)"
  have w: "?L = log_writes (log_start s) (lh_block s) (content s) 0 n" using nl by (simp add: log_writes_copy bs st)
  obtain s1 where s1: "write_log_loop n 0 s = Some s1" "quiet s1" "rest s1 = rest s" "refs s1 = refs s"
      "content s1 = writes ?L (content s)" "disk s1 = writes ?L (disk s)" "dwrites s1 = dwrites s @ ?L"
    using write_log_loop_spec [where z = n, OF q _ room _ w] n(2) ok nth st by auto
  note e1 = rest_log [OF s1(3)]
  have n1: "lh_n s1 = int n" and room1: "card {b. 0 < refs s1 b} < NBUF" using e1 n(1) s1(4) room by auto
  obtain s2 h where s2: "write_head s1 = Some s2" "quiet s2" "rest s2 = rest s1" "refs s2 = refs s1"
      "content s2 = (content s1)(log_start s1 := h)" "disk s2 = (disk s1)(log_start s1 := h)"
      "dwrites s2 = dwrites s1 @ [(log_start s1, h)]" "head_n h = int n" "head_blocks h = take n (lh_block s1)"
    using write_head_spec [OF s1(2) n1 n(2) room1] by blast
  have "write_log s = Some s1" using s1(1) n(1) by (simp add: write_log_def)
  then show ?thesis using s1 s2 e1 bs st
    by - (rule exI [of _ s1], rule exI [of _ s2], rule exI [of _ h], simp)
qed

text \<open>The second half, and recovery after a crash: copy the log to the home blocks and clear the header.\<close>

lemma install_and_clear:
  assumes q: "quiet s" and n: "lh_n s = int n" "n \<le> LOGSIZE"
    and bs: "bs = take n (lh_block s)" and st: "st = log_start s"
    and ok: "\<And>b. b \<in> set bs \<Longrightarrow> loggable n st b" and area: "\<And>b. b \<in> log_area n st \<Longrightarrow> refs s b = 0"
    and pinned: "\<not> rec \<Longrightarrow> distinct bs \<and> (\<forall>b\<in>set bs. 0 < refs s b)"
    and room: "card {b. 0 < refs s b} < NBUF" "\<And>b. b \<in> set bs \<Longrightarrow> card (insert b {b. 0 < refs s b}) < NBUF"
    and w: "w = home_writes st (lh_block s) (content s) 0 n"
  shows "\<exists>s1 s2 h0. install_trans rec s = Some s1 \<and> write_head (s1\<lparr>lh_n := 0\<rparr>) = Some s2 \<and> quiet s2 \<and>
    rest s2 = rest (s\<lparr>lh_n := 0\<rparr>) \<and> head_n h0 = 0 \<and> length h0 = BSIZE \<and>
    refs s2 = (\<lambda>b. if \<not> rec \<and> b \<in> set bs then refs s b - 1 else refs s b) \<and>
    content s2 = writes (w @ [(st, h0)]) (content s) \<and> disk s2 = writes (w @ [(st, h0)]) (disk s) \<and>
    dwrites s2 = dwrites s @ w @ [(st, h0)]"
proof -
  have nl: "n \<le> length (lh_block s)" using q n(2) by (simp add: quiet_def)
  have nm: "named (lh_block s) 0 n = set bs" using named_take [OF nl] by (simp add: bs)
  have r0: "\<forall>k<n. refs s (log_block (log_start s) k) = 0" using area st by (auto simp: log_area_def)
  have p: "\<forall>b\<in>named (lh_block s) 0 n. loggable n (log_start s) b"
      "\<not> rec \<longrightarrow> (\<forall>b\<in>named (lh_block s) 0 n. 0 < refs s b) \<and> inj_on (\<lambda>k. lh_block s ! k) {0..<0 + n}"
      "\<forall>b\<in>named (lh_block s) 0 n. card (insert b {b. 0 < refs s b}) < NBUF"
    using ok pinned room(2) inj_take [OF nl] by (auto simp: nm st bs)
  obtain s1 where s1: "install_loop n 0 rec s = Some s1" "quiet s1" "rest s1 = rest s"
      "refs s1 = (\<lambda>b. if \<not> rec \<and> b \<in> set bs then refs s b - 1 else refs s b)"
      "content s1 = writes w (content s)" "disk s1 = writes w (disk s)" "dwrites s1 = dwrites s @ w"
    using install_loop_spec [where z = n, OF q _ p(1) r0 p(2,3) w [unfolded st]] n(2) nm by auto
  have sub: "{b. 0 < refs s1 b} \<subseteq> {b. 0 < refs s b}" using s1(4) by (auto split: if_splits)
  have room1: "card {b. 0 < refs (s1\<lparr>lh_n := 0\<rparr>) b} < NBUF" using card_mono [OF _ sub] room(1) by simp
  have "lh_n (s1\<lparr>lh_n := 0\<rparr>) = int 0" "quiet (s1\<lparr>lh_n := 0\<rparr>)" using s1(2) by simp_all
  from write_head_spec [OF this(2,1) _ room1] obtain s2 h0 where s2: "write_head (s1\<lparr>lh_n := 0\<rparr>) = Some s2" "quiet s2"
      "rest s2 = rest (s1\<lparr>lh_n := 0\<rparr>)" "refs s2 = refs s1" "content s2 = (content s1)(log_start s1 := h0)"
      "disk s2 = (disk s1)(log_start s1 := h0)" "dwrites s2 = dwrites s1 @ [(log_start s1, h0)]" "head_n h0 = 0"
      "length h0 = BSIZE"
    by auto
  have "rest (s1\<lparr>lh_n := 0\<rparr>) = rest (s\<lparr>lh_n := 0\<rparr>)" using s1(3) by (rule rest_lh_n)
  moreover have "install_trans rec s = Some s1" using s1(1) n(1) by (simp add: install_trans_def)
  ultimately show ?thesis using s1 s2 rest_log [OF s1(3)] st
    by - (rule exI [of _ s1], rule exI [of _ s2], rule exI [of _ h0], simp)
qed

lemma commit_spec:
  assumes c: "committable s n" and bs: "bs = take n (lh_block s)" and st: "st = log_start s"
  shows "\<exists>s' h h0. commit s = Some s' \<and> quiet s' \<and> rest s' = rest (s\<lparr>lh_n := 0\<rparr>) \<and>
    head_n h = int n \<and> head_blocks h = bs \<and> head_n h0 = 0 \<and>
    dwrites s' = dwrites s @ log_copy st bs (content s) @ [(st, h)] @ home_copy bs (content s) @ [(st, h0)] \<and>
    disk s' = writes (log_copy st bs (content s) @ [(st, h)] @ home_copy bs (content s) @ [(st, h0)]) (disk s) \<and>
    content s' = writes (log_copy st bs (content s) @ [(st, h)] @ home_copy bs (content s) @ [(st, h0)]) (content s) \<and>
    refs s' = (\<lambda>b. if b \<in> set bs then refs s b - 1 else refs s b)"
proof -
  have q: "quiet s" and n: "lh_n s = int n" "0 < n" "n \<le> LOGSIZE" and room: "card {b. 0 < refs s b} < NBUF"
    and ok: "\<And>b. b \<in> set bs \<Longrightarrow> loggable n st b \<and> 0 < refs s b" and area: "\<And>b. b \<in> log_area n st \<Longrightarrow> refs s b = 0"
    and di: "distinct bs" using c unfolding committable_def bs st by auto
  have nl: "n \<le> length (lh_block s)" and fits: "log_fits st" using q n(3) by (simp_all add: quiet_def st)
  have lbs: "length bs = n" using nl by (simp add: bs)
  obtain s1 s2 h where a: "write_log s = Some s1" "write_head s1 = Some s2" "quiet s2" "rest s2 = rest s"
      "refs s2 = refs s" "head_n h = int n" "head_blocks h = bs"
      "content s2 = writes (log_copy st bs (content s) @ [(st, h)]) (content s)"
      "disk s2 = writes (log_copy st bs (content s) @ [(st, h)]) (disk s)"
      "dwrites s2 = dwrites s @ log_copy st bs (content s) @ [(st, h)]"
    using commit_log [OF assms] by blast
  note e = rest_log [OF a(4)]
  have logged: "content s2 (log_block st k) = content s (lh_block s ! k)" if "k < n" for k
    using log_copy_in [OF fits, of bs k "content s" "content s"] log_block_facts(2) [OF fits, of k] that n(3) lbs
    by (simp add: a(8) bs)
  have w: "home_copy bs (content s) = home_writes st (lh_block s2) (content s2) 0 n"
    using home_writes_copy [OF nl, of "content s2" st "content s"] logged e by (simp add: bs)
  have rm: "card (insert b {b. 0 < refs s2 b}) < NBUF" if "b \<in> set bs" for b
    using ok [OF that] room a(5) by (simp add: insert_absorb)
  obtain s3 s4 h0 where b: "install_trans False s2 = Some s3" "write_head (s3\<lparr>lh_n := 0\<rparr>) = Some s4" "quiet s4"
      "rest s4 = rest (s2\<lparr>lh_n := 0\<rparr>)" "head_n h0 = 0"
      "refs s4 = (\<lambda>b. if b \<in> set bs then refs s2 b - 1 else refs s2 b)"
      "content s4 = writes (home_copy bs (content s) @ [(st, h0)]) (content s2)"
      "disk s4 = writes (home_copy bs (content s) @ [(st, h0)]) (disk s2)"
      "dwrites s4 = dwrites s2 @ home_copy bs (content s) @ [(st, h0)]"
    using install_and_clear [where rec = False and bs = bs, OF a(3) _ n(3) _ _ _ _ _ _ rm w] n(1) e bs st ok area a(5) di room by auto
  have "commit s = Some s4" using n a(1,2) b(1,2) by (simp add: commit_def)
  moreover have "rest (s2\<lparr>lh_n := 0\<rparr>) = rest (s\<lparr>lh_n := 0\<rparr>)" using a(4) by (rule rest_lh_n)
  ultimately show ?thesis using a b
    by - (rule exI [of _ s4], rule exI [of _ h], rule exI [of _ h0], simp cong: if_cong)
qed

lemma recover_spec:
  assumes q: "quiet s" and free: "\<And>b. refs s b = 0" and n: "head_n (disk s st) = int n" "n \<le> LOGSIZE"
    and st: "st = log_start s" and bs: "bs = head_blocks (disk s st)"
    and ok: "\<And>b. b \<in> set bs \<Longrightarrow> loggable n st b"
  shows "\<exists>s' h0. recover_from_log s = Some s' \<and> quiet s' \<and> refs s' = refs s \<and> lh_n s' = 0 \<and> head_n h0 = 0 \<and>
    length h0 = BSIZE \<and> log_start s' = st \<and>
    disk s' = (writes (map (\<lambda>k. (bs ! k, disk s (log_block st k))) [0..<n]) (disk s))(st := h0)"
proof -
  have inv: "bc_inv s" using q by (simp add: quiet_def)
  have cd: "content s = disk s" using bc.clean [OF inv] free by (simp add: fun_eq_iff)
  have none: "{b. 0 < refs s b} = {}" using free by simp
  have n': "head_n (content s (log_start s)) = int n" using n(1) cd st by simp
  have room: "card {b. 0 < refs s b} < NBUF" using none by simp
  obtain s1 where s1: "read_head s = Some s1" "quiet s1" "refs s1 = refs s" "content s1 = content s" "disk s1 = disk s"
      "log_start s1 = log_start s" "lh_n s1 = int n" "take n (lh_block s1) = head_blocks (content s (log_start s))"
    using read_head_spec [OF q n' n(2) room] by blast
  have b1: "bs = take n (lh_block s1)" and st1: "st = log_start s1" using s1 bs cd st by simp_all
  have nth: "bs ! k = lh_block s1 ! k" if "k < n" for k using that b1 by simp
  have w: "map (\<lambda>k. (bs ! k, disk s (log_block st k))) [0..<n] = home_writes st (lh_block s1) (content s1) 0 n"
    using nth by (simp add: home_writes_def s1(4) cd)
  have rm: "card (insert b {b. 0 < refs s1 b}) < NBUF" for b using s1(3) none by simp
  obtain s2 s3 h0 where s3: "install_trans True s1 = Some s2" "write_head (s2\<lparr>lh_n := 0\<rparr>) = Some s3" "quiet s3"
      "rest s3 = rest (s1\<lparr>lh_n := 0\<rparr>)" "head_n h0 = 0" "length h0 = BSIZE"
      "refs s3 = refs s1" "disk s3 = writes (map (\<lambda>k. (bs ! k, disk s (log_block st k))) [0..<n] @ [(st, h0)]) (disk s1)"
    using install_and_clear [where rec = True and bs = bs, OF s1(2,7) n(2) b1 st1 _ _ _ _ rm w] ok s1(3) none free
    by (auto simp: fun_eq_iff)
  have "recover_from_log s = Some s3" using s1(1) s3(1,2) by (simp add: recover_from_log_def)
  then show ?thesis using s3 s1 rest_log [OF s3(4)] st
    by - (rule exI [of _ s3], rule exI [of _ h0], simp)
qed

section \<open>Crashes\<close>

text \<open>What the machine has after a crash: a cache that holds nothing and the disk as the writes left it.\<close>

definition booted :: "u32 \<Rightarrow> (u32 \<Rightarrow> blk) \<Rightarrow> 'a log_scheme \<Rightarrow> bool" where
  "booted st d r \<longleftrightarrow> quiet r \<and> (\<forall>b. refs r b = 0) \<and> log_start r = st \<and> disk r = d"

lemma recover_none:
  assumes "booted st d r" and "head_n (d st) = 0" and "b \<noteq> st"
  shows "\<exists>r'. recover_from_log r = Some r' \<and> disk r' b = d b"
proof -
  have r: "quiet r" "\<And>b. refs r b = 0" "st = log_start r" "disk r = d" using assms(1) by (auto simp: booted_def)
  have n: "head_n (disk r st) = int 0" and bs: "head_blocks (disk r st) = []"
    using assms(2) r(4) by (simp_all add: head_blocks_def)
  show ?thesis using recover_spec [OF r(1,2) n _ r(3) refl] assms(3) r(4) unfolding bs by force
qed

lemma home_map: "map (\<lambda>k. (bs ! k, f (bs ! k))) [0..<length bs] = home_copy bs f"
proof -
  have "home_copy bs f = map (\<lambda>b. (b, f b)) (map ((!) bs) [0..<length bs])" by (simp add: home_copy_def map_nth)
  then show ?thesis by simp
qed

lemma recover_logged:
  assumes "booted st d r" and "head_n (d st) = int (length bs)" and "length bs \<le> LOGSIZE"
    and "head_blocks (d st) = bs" and "\<And>k. k < length bs \<Longrightarrow> d (log_block st k) = f (bs ! k)"
    and "\<And>b. b \<in> set bs \<Longrightarrow> loggable (length bs) st b" and "b \<noteq> st"
  shows "\<exists>r'. recover_from_log r = Some r' \<and> disk r' b = (if b \<in> set bs then f b else d b)"
proof -
  have r: "quiet r" "\<And>b. refs r b = 0" "st = log_start r" "disk r = d" using assms(1) by (auto simp: booted_def)
  have w: "map (\<lambda>k. (bs ! k, d (log_block st k))) [0..<length bs] = home_copy bs f"
    using assms(5) by (simp add: home_map [symmetric])
  have n: "head_n (disk r st) = int (length bs)" and bs: "bs = head_blocks (disk r st)" using assms(2,4) r(4) by simp_all
  obtain r' h0 where r': "recover_from_log r = Some r'"
      "disk r' = (writes (map (\<lambda>k. (bs ! k, disk r (log_block st k))) [0..<length bs]) (disk r))(st := h0)"
    using recover_spec [OF r(1,2) n assms(3) r(3) bs assms(6)] by blast
  have "disk r' = (writes (home_copy bs f) d)(st := h0)" using r'(2) unfolding r(4) w .
  then show ?thesis using r'(1) assms(7) by (simp add: home_copy_get)
qed

lemma take_writes_other: "b \<notin> fst ` set w \<Longrightarrow> writes (take k w) f b = f b"
  by (rule writes_other) (use set_take_subset [of k w] in blast)

lemma fst_home_copy [simp]: "fst ` set (home_copy bs f) = set bs"
  by (force simp: home_copy_def)

text \<open>The disk after \<open>k\<close> of the writes of a commit.\<close>

lemma crash_point:
  assumes "length l = n" "length m = n" and "d = writes (take k (l @ [(st, h)] @ m @ [(st, h0)])) f"
  shows "k \<le> n \<Longrightarrow> d = writes (take k l) f"
    and "n < k \<Longrightarrow> k \<le> 2 * n + 1 \<Longrightarrow> d = writes (take (k - Suc n) m) (writes (l @ [(st, h)]) f)"
    and "2 * n + 1 < k \<Longrightarrow> d = writes (l @ [(st, h)] @ m @ [(st, h0)]) f"
  using assms by (simp_all add: take_Cons' Suc_diff_Suc numeral_2_eq_2 diff_diff_left)

text \<open>Recovery from the disk of a crash, for each of the three phases of the commit.\<close>

lemma crash_recovers:
  assumes fits: "log_fits st" and len: "length bs \<le> LOGSIZE" and ok: "\<And>b. b \<in> set bs \<Longrightarrow> loggable (length bs) st b"
    and h: "head_n h = int (length bs)" "head_blocks h = bs" and h0: "head_n h0 = 0" and f0: "head_n (f st) = 0"
    and d: "d = writes (take k (log_copy st bs c @ [(st, h)] @ home_copy bs c @ [(st, h0)])) f"
    and r: "booted st d r" and b: "b \<notin> log_area (length bs) st"
  shows "\<exists>r'. recover_from_log r = Some r' \<and> disk r' b = (if length bs < k \<and> b \<in> set bs then c b else f b)"
proof -
  let ?l = "log_copy st bs c" and ?m = "home_copy bs c"
  note cp = crash_point [where n = "length bs" and l = ?l and m = ?m, OF _ _ d, simplified]
  have bst: "b \<noteq> st" using b log_area_start by metis
  have bl: "b \<notin> fst ` set ?l" using b log_copy_area [OF refl] by blast
  have sl: "st \<notin> fst ` set ?l" by (rule log_copy_start [OF fits len])
  have sm: "st \<notin> set bs" using ok [of st] log_area_start [of st "length bs"] by (auto simp: loggable_def)
  consider "k \<le> length bs" | "length bs < k" "k \<le> 2 * length bs + 1" | "2 * length bs + 1 < k" by linarith
  then show ?thesis
  proof cases
    case 1
    have "d st = f st" "d b = f b" using take_writes_other [OF sl] take_writes_other [OF bl] cp(1) 1 by simp_all
    then show ?thesis using recover_none [OF r _ bst] f0 1 by simp
  next
    case 2
    let ?j = "take (k - Suc (length bs)) ?m"
    have dm: "x \<notin> set bs \<Longrightarrow> d x = ((writes ?l f)(st := h)) x" for x
      using cp(2) 2 take_writes_other [of x ?m] by simp
    have ds: "d st = h" and db: "b \<notin> set bs \<Longrightarrow> d b = f b" using dm [OF sm] dm [of b] bst writes_other [OF bl] by simp_all
    have dl: "d (log_block st k) = c (bs ! k)" if k: "k < length bs" for k
    proof -
      have "log_block st k \<notin> set bs" "log_block st k \<noteq> st"
        using log_block_facts [OF fits, of k] ok k len by (auto simp: loggable_def)
      then show ?thesis using dm log_copy_in [OF fits len k] by simp
    qed
    have "\<exists>r'. recover_from_log r = Some r' \<and> disk r' b = (if b \<in> set bs then c b else d b)"
      by (rule recover_logged [OF r _ len]) (use ds h dl ok bst in auto)
    then show ?thesis using 2(1) db by (auto split: if_splits)
  next
    case 3
    have "d st = h0" "d b = (if b \<in> set bs then c b else f b)"
      using cp(3) 3 bst sm writes_other [OF bl] by (simp_all add: home_copy_get)
    then show ?thesis using recover_none [OF r _ bst] h0 3 by auto
  qed
qed

lemma commit_crash:
  assumes c: "committable s n" and f0: "head_n (disk s (log_start s)) = 0" and s': "commit s = Some s'"
    and d: "d = writes (take k (drop (length (dwrites s)) (dwrites s'))) (disk s)"
    and r: "booted (log_start s) d r" and b: "b \<notin> log_area n (log_start s)"
  shows "\<exists>r'. recover_from_log r = Some r' \<and>
    disk r' b = (if n < k \<and> b \<in> set (take n (lh_block s)) then content s b else disk s b)"
proof -
  let ?bs = "take n (lh_block s)"
  obtain h h0 where h: "head_n h = int n" "head_blocks h = ?bs" "head_n h0 = 0"
      "dwrites s' = dwrites s @ log_copy (log_start s) ?bs (content s) @ [(log_start s, h)] @
        home_copy ?bs (content s) @ [(log_start s, h0)]"
    using commit_spec [OF c refl refl] s' by auto
  have fits: "log_fits (log_start s)" and len: "length ?bs = n" "n \<le> LOGSIZE"
    and ok: "\<And>b. b \<in> set ?bs \<Longrightarrow> loggable n (log_start s) b"
    using c by (auto simp: committable_def quiet_def)
  have d': "d = writes (take k (log_copy (log_start s) ?bs (content s) @ [(log_start s, h)] @
      home_copy ?bs (content s) @ [(log_start s, h0)])) (disk s)" using d h(4) by simp
  have "length ?bs \<le> LOGSIZE" "head_n h = int (length ?bs)" using len h(1) by simp_all
  from crash_recovers [OF fits this(1) _ this(2) h(2,3) f0 d' r, unfolded len(1), OF ok b] show ?thesis .
qed

section \<open>Adding a block to the transaction\<close>

lemma absorb_spec:
  assumes "i + k \<le> length bs"
  shows "\<exists>j. absorb k i bs bn = Some j \<and> i \<le> j \<and> j \<le> i + k \<and> (j < i + k \<longrightarrow> bs ! j = bn) \<and>
    (\<forall>l. i \<le> l \<longrightarrow> l < j \<longrightarrow> bs ! l \<noteq> bn)"
  using assms
proof (induction k arbitrary: i)
  case 0
  then show ?case by auto
next
  case (Suc k)
  have i: "i < length bs" using Suc.prems by simp
  show ?case
  proof (cases "bs ! i = bn")
    case True
    then show ?thesis using i by (intro exI [of _ i]) (simp add: idx_def)
  next
    case False
    obtain j where j: "absorb k (Suc i) bs bn = Some j" "Suc i \<le> j" "j \<le> Suc i + k" "j < Suc i + k \<longrightarrow> bs ! j = bn"
        "\<forall>l. Suc i \<le> l \<longrightarrow> l < j \<longrightarrow> bs ! l \<noteq> bn" using Suc.IH [of "Suc i"] Suc.prems by auto
    have "bs ! l \<noteq> bn" if "i \<le> l" "l < j" for l using that False j(5) by (cases "l = i") simp_all
    then show ?thesis using j(1-4) i False by (intro exI [of _ j]) (simp add: idx_def)
  qed
qed

lemma absorb_take:
  assumes "n \<le> length bs"
  shows "\<exists>j. absorb n 0 bs bn = Some j \<and> j \<le> n \<and> (j = n \<longleftrightarrow> bn \<notin> set (take n bs)) \<and>
    (j < n \<longrightarrow> bs[j := bn] = bs)"
proof -
  obtain j where j: "absorb n 0 bs bn = Some j" "j \<le> n" "j < n \<longrightarrow> bs ! j = bn" "\<forall>l<j. bs ! l \<noteq> bn"
    using absorb_spec [of 0 n bs bn] assms by auto
  have "bn \<in> set (take n bs) \<longleftrightarrow> (\<exists>l<n. bs ! l = bn)" using assms by (auto simp: take_eq_map_nth)
  then have "j = n \<longleftrightarrow> bn \<notin> set (take n bs)" using j(2-4) le_less by auto
  moreover have "j < n \<longrightarrow> bs[j := bn] = bs" using j(3) by (auto simp: list_update_same_conv assms less_le_trans)
  ultimately show ?thesis using j(1,2) by auto
qed

lemma log_write_ok:
  assumes inv: "bc_inv s" and b: "bat s i bn" and out: "0 < outstanding s"
    and n: "lh_n s = int n" "n < LOGSIZE" "int n < log_size s - 1" and len: "length (lh_block s) = LOGSIZE"
    and small: "refs s bn + 1 < 2 ^ 32"
  shows "\<exists>s'. log_write i s = Some s' \<and> bc_inv s' \<and> content s' = content s \<and> held s' = held s \<and>
    disk s' = disk s \<and> dwrites s' = dwrites s \<and> outstanding s' = outstanding s \<and> log_start s' = log_start s \<and>
    length (lh_block s') = LOGSIZE \<and> (\<forall>j c. bat s' j c = bat s j c) \<and>
    (if bn \<in> set (take n (lh_block s)) then s' = s
     else lh_n s' = int (Suc n) \<and> take (Suc n) (lh_block s') = take n (lh_block s) @ [bn] \<and>
       refs s' = (refs s)(bn := refs s bn + 1))"
proof -
  have bn: "blockno (bufs s i) = bn" using b by (simp add: bat_def)
  obtain j where j: "absorb n 0 (lh_block s) bn = Some j" "j \<le> n" "j = n \<longleftrightarrow> bn \<notin> set (take n (lh_block s))"
      "j < n \<longrightarrow> (lh_block s)[j := bn] = lh_block s"
    using absorb_take [of n "lh_block s" bn] n(2) len by auto
  show ?thesis
  proof (cases "j = n")
    case True
    define s1 where "s1 = s\<lparr>lh_block := (lh_block s)[n := bn]\<rparr>"
    define s2 where "s2 = bufcache_pin i s1"
    have "bc_inv s1" "bat s1 i bn" "refs s1 bn + 1 < 2 ^ 32" using inv b small by (simp_all add: s1_def)
    note p = bc.pin_ok [OF this, folded s2_def]
    note e = rest_log [of s2 s1, OF conjunct1 [OF conjunct2 [OF conjunct2 [OF conjunct2 [OF conjunct2 [OF conjunct2
        [OF conjunct2 [OF p]]]]]]]]
    have "log_write i s = Some (s2\<lparr>lh_n := int (Suc n)\<rparr>)"
      using n out j(1) bn True by (simp add: log_write_def s1_def s2_def)
    moreover have "take (Suc n) (lh_block s2) = take n (lh_block s) @ [bn]"
      using n(2) len e by (simp add: s1_def take_Suc_conv_app_nth)
    ultimately show ?thesis using p e True j(3) len by (simp add: s1_def)
  next
    case False
    then have "log_write i s = Some s" using n out j bn by (simp add: log_write_def)
    then show ?thesis using False j(3) inv len by simp
  qed
qed

section \<open>Properties\<close>

text \<open>C1. Commits are atomic.  A commit returns; and if the machine stops after any number \<open>k\<close> of the
  disk writes it issues, recovery from the disk as it then is returns with every block outside the
  log either as it was before the commit (when the header had not been written) or, for the blocks
  of the transaction, as the transaction left it.\<close>

theorem commit_crash_atomic:
  assumes "committable s n" and "head_n (disk s (log_start s)) = 0"
  shows "\<exists>s'. commit s = Some s' \<and>
    (\<forall>k (r :: 'b log_scheme).
       booted (log_start s) (writes (take k (drop (length (dwrites s)) (dwrites s'))) (disk s)) r \<longrightarrow>
       (\<exists>r'. recover_from_log r = Some r' \<and>
         (\<forall>b. b \<notin> log_area n (log_start s) \<longrightarrow>
            disk r' b = (if n < k \<and> b \<in> set (take n (lh_block s)) then content s b else disk s b))))"
proof -
  obtain s' where s': "commit s = Some s'" using commit_spec [OF assms(1) refl refl] by blast
  have "\<exists>r'. recover_from_log r = Some r' \<and> (\<forall>b. b \<notin> log_area n (log_start s) \<longrightarrow>
      disk r' b = (if n < k \<and> b \<in> set (take n (lh_block s)) then content s b else disk s b))"
    if r: "booted (log_start s) (writes (take k (drop (length (dwrites s)) (dwrites s'))) (disk s)) r"
    for k and r :: "'b log_scheme"
  proof -
    note cr = commit_crash [OF assms s' refl r]
    have n: "0 < n" "n \<le> length (lh_block s)" using assms(1) by (auto simp: committable_def quiet_def)
    then have "lh_block s ! 0 \<in> set (take n (lh_block s))" by (simp add: take_eq_map_nth)
    then have "lh_block s ! 0 \<notin> log_area n (log_start s)" using assms(1) by (simp add: committable_def loggable_def)
    then obtain r' where "recover_from_log r = Some r'" using cr by blast
    then show ?thesis using cr by auto
  qed
  then show ?thesis using s' by blast
qed

text \<open>C5. A commit leaves every block of the transaction on the disk with the contents the cache had,
  leaves every other block outside the log alone, empties the header in memory and on the disk, and
  takes away the pin of each block of the transaction.\<close>

theorem commit_installs:
  assumes "committable s n"
  shows "\<exists>s'. commit s = Some s' \<and> lh_n s' = 0 \<and> head_n (disk s' (log_start s)) = 0 \<and>
    (\<forall>b. b \<notin> log_area n (log_start s) \<longrightarrow>
       disk s' b = (if b \<in> set (take n (lh_block s)) then content s b else disk s b) \<and> content s' b = content s b) \<and>
    refs s' = (\<lambda>b. if b \<in> set (take n (lh_block s)) then refs s b - 1 else refs s b)"
proof -
  let ?bs = "take n (lh_block s)" and ?st = "log_start s"
  obtain s' h h0 where s': "commit s = Some s'" "rest s' = rest (s\<lparr>lh_n := 0\<rparr>)" "head_n h0 = 0"
    and w: "disk s' = writes (log_copy ?st ?bs (content s) @ [(?st, h)] @ home_copy ?bs (content s) @ [(?st, h0)]) (disk s)"
      "content s' = writes (log_copy ?st ?bs (content s) @ [(?st, h)] @ home_copy ?bs (content s) @ [(?st, h0)]) (content s)"
    and r: "refs s' = (\<lambda>b. if b \<in> set ?bs then refs s b - 1 else refs s b)"
    using commit_spec [OF assms refl refl] by blast
  have len: "length ?bs = n" using assms by (auto simp: committable_def quiet_def)
  have "writes (log_copy ?st ?bs (content s) @ [(?st, h)] @ home_copy ?bs (content s) @ [(?st, h0)]) f b =
      (if b \<in> set ?bs then content s b else f b)" if b: "b \<notin> log_area n ?st" for b f
  proof -
    have "b \<noteq> ?st" using b log_area_start by metis
    moreover have "b \<notin> fst ` set (log_copy ?st ?bs (content s))" using b log_copy_area [OF len] by blast
    ultimately show ?thesis by (simp add: home_copy_get writes_other)
  qed
  note v = this
  have "lh_n s' = 0" using rest_log [OF s'(2)] by simp
  moreover have "head_n (disk s' ?st) = 0" using w(1) s'(3) by simp
  moreover have "disk s' b = (if b \<in> set ?bs then content s b else disk s b)" "content s' b = content s b"
    if "b \<notin> log_area n ?st" for b using v [OF that] unfolding w by simp_all
  ultimately show ?thesis using s'(1) r by (intro exI [of _ s']) simp
qed

text \<open>C6. \<open>log_write\<close> of a locked buffer, inside a transaction with room in the header, succeeds and
  changes no data: a block already in the transaction is absorbed, a new one is appended and its
  buffer pinned.\<close>

theorem log_write_spec:
  assumes "bc_inv s" and "bat s i bn" and "0 < outstanding s"
    and "lh_n s = int n" "n < LOGSIZE" "int n < log_size s - 1" and "length (lh_block s) = LOGSIZE"
    and "refs s bn + 1 < 2 ^ 32"
  shows "\<exists>s'. log_write i s = Some s' \<and> bc_inv s' \<and> content s' = content s \<and> disk s' = disk s \<and>
    (if bn \<in> set (take n (lh_block s)) then s' = s
     else lh_n s' = int (Suc n) \<and> take (Suc n) (lh_block s') = take n (lh_block s) @ [bn] \<and>
       refs s' = (refs s)(bn := refs s bn + 1))"
  using log_write_ok [OF assms] by auto

section \<open>Examples\<close>

text \<open>The state after \<open>bufcache_init\<close> on a disk \<open>d\<close> with the log at block 2.\<close>

definition boot_log :: "(u32 \<Rightarrow> blk) \<Rightarrow> log" where
  "boot_log d = bufcache_init
     \<lparr>bufs = bufs boot_cache, disk = d, dwrites = [], mypid = 1, log_start = 2, log_size = 30, outstanding = 0,
      committing = False, lh_n = 0, lh_block = replicate LOGSIZE 0\<rparr>"

lemma boot_log_fields:
  "disk (boot_log d) = d" "log_start (boot_log d) = 2" "log_size (boot_log d) = 30" "outstanding (boot_log d) = 0"
  "\<not> committing (boot_log d)" "lh_n (boot_log d) = 0" "lh_block (boot_log d) = replicate LOGSIZE 0"
proof -
  have r: "rest (boot_log d) = rest (\<lparr>bufs = bufs boot_cache, disk = d, dwrites = [], mypid = 1, log_start = 2,
      log_size = 30, outstanding = 0, committing = False, lh_n = 0, lh_block = replicate LOGSIZE 0\<rparr> :: log)"
      "disk (boot_log d) = d"
    by (simp_all add: boot_log_def bufcache_init_frame)
  note e = rest_log [OF r(1)]
  show "disk (boot_log d) = d" by (fact r(2))
  show "log_start (boot_log d) = 2" "log_size (boot_log d) = 30" "outstanding (boot_log d) = 0"
    "\<not> committing (boot_log d)" "lh_n (boot_log d) = 0" "lh_block (boot_log d) = replicate LOGSIZE 0"
    using e by simp_all
qed

lemma boot_log_ok:
  assumes "\<And>b. length (d b) = BSIZE"
  shows "bc_inv (boot_log d)" "refs (boot_log d) b = 0" "\<not> held (boot_log d) b" "quiet (boot_log d)"
    "content (boot_log d) = d"
proof -
  show inv: "bc_inv (boot_log d)"
    unfolding boot_log_def by (rule bufcache_init_inv) (use assms in \<open>simp_all add: boot_cache_def\<close>)
  have none: "buf_of (boot_log d) b = None" for b
    by (auto simp: buf_of_None boot_log_def bufcache_init_blockno boot_cache_def)
  show r: "refs (boot_log d) b = 0" "\<not> held (boot_log d) b" for b using none by (simp_all add: refs_def held_def)
  show "content (boot_log d) = d" using none by (simp add: fun_eq_iff content_def boot_log_fields)
  show "quiet (boot_log d)" using inv r by (simp add: quiet_def boot_log_fields log_fits_def)
qed

text \<open>A transaction that fills block 40 with ones, up to the point of its commit.\<close>

definition ones :: blk where
  "ones = replicate BSIZE 1"

definition ex_disk :: "u32 \<Rightarrow> blk" where
  "ex_disk b = replicate BSIZE 0"

definition ex_tx :: "log option" where
  "ex_tx =
     do {
       s \<leftarrow> begin_op (boot_log ex_disk);
       (i, s) \<leftarrow> bufcache_read 40 s;
       s \<leftarrow> log_write i (set_data i ones s);
       bufcache_release i s
     }"

lemma ex_disk_length: "length (ex_disk b) = BSIZE"
  by (simp add: ex_disk_def)

lemma ex_tx_ok:
  "\<exists>s. ex_tx = Some s \<and> committable s 1 \<and> take 1 (lh_block s) = [40] \<and> log_start s = 2 \<and> disk s = ex_disk \<and>
     content s 40 = ones"
proof -
  note b = boot_log_ok [of ex_disk, OF ex_disk_length] and f = boot_log_fields [of ex_disk]
  define s0 where "s0 = (boot_log ex_disk)\<lparr>outstanding := 1\<rparr>"
  have 0: "begin_op (boot_log ex_disk) = Some s0" "bc_inv s0" "\<And>b. refs s0 b = 0" "\<And>b. \<not> held s0 b" "disk s0 = ex_disk"
      "content s0 = ex_disk" "log_start s0 = 2" "lh_n s0 = int 0" "outstanding s0 = 1" "log_size s0 = 30"
      "lh_block s0 = replicate LOGSIZE 0"
    using b f by (simp_all add: begin_op_def s0_def)
  obtain i s1 where 1: "bufcache_read 40 s0 = Some (i, s1)" "bc_inv s1" "content s1 = content s0"
      "refs s1 = (refs s0)(40 := refs s0 40 + 1)" "held s1 = (held s0)(40 := True)" "disk s1 = disk s0"
      "rest s1 = rest s0" "bat s1 i 40"
    using bc.rd_ok [OF 0(2), of 40] 0(3,4) by auto
  define s2 where "s2 = set_data i ones s1"
  have 2: "bc_inv s2" "content s2 = (content s1)(40 := ones)" "refs s2 = refs s1" "held s2 = held s1" "disk s2 = disk s1"
      "rest s2 = rest s1" "bat s2 i 40"
    using bc.put_ok [OF 1(2,8), of ones] 1(8) by (simp_all add: s2_def ones_def)
  note e = rest_log [OF 2(6)] rest_log [OF 1(7)]
  obtain s3 where 3: "log_write i s2 = Some s3" "bc_inv s3" "content s3 = content s2" "held s3 = held s2" "disk s3 = disk s2"
      "log_start s3 = log_start s2" "length (lh_block s3) = LOGSIZE" "bat s3 i 40"
      "lh_n s3 = int 1" "take 1 (lh_block s3) = [40]" "refs s3 = (refs s2)(40 := refs s2 40 + 1)"
    using log_write_ok [OF 2(1,7), of 0] 2 e 0 1(4) by auto
  obtain s4 where 4: "bufcache_release i s3 = Some s4" "bc_inv s4" "content s4 = content s3"
      "refs s4 = (refs s3)(40 := refs s3 40 - 1)" "held s4 = (held s3)(40 := False)" "disk s4 = disk s3" "rest s4 = rest s3"
    using bc.rel_ok [OF 3(2,8)] 3 2 1 by auto
  note e4 = rest_log [OF 4(7)]
  have refs: "refs s4 = (\<lambda>_. 0)(40 := 1)" using 4(4) 3(11) 2(3) 1(4) 0(3) by (auto simp: fun_eq_iff)
  then have set: "{b. 0 < refs s4 b} = {40}" by auto
  have start: "log_start s4 = 2" using e4 e 3(6) 0(7) by simp
  have "quiet s4" using 4(2,5) 3(4,7) 2(4) 1(5) 0(4) refs start e4 by (auto simp: quiet_def log_fits_def)
  moreover have "(40::u32) \<notin> log_area 1 2"
  proof
    assume "(40::u32) \<in> log_area 1 2"
    then obtain t where t: "t < 1" "log_block 2 t = 40" by (auto simp: log_area_def)
    then show False using unat_log_block [of 2 t] by (simp add: log_fits_def)
  qed
  ultimately have "committable s4 1"
    using 3(9,10) e4 set refs start by (auto simp: committable_def loggable_def)
  moreover have "ex_tx = Some s4" using 0(1) 1(1) 3(1) 4(1) by (simp add: ex_tx_def s2_def)
  ultimately show ?thesis using 4 3 2 1 0 start e4 by auto
qed

theorem commit_crash_atomic_witness:
  "\<exists>s s' r'. ex_tx = Some s \<and> commit s = Some s' \<and> recover_from_log (boot_log (disk s')) = Some r' \<and> disk r' 40 = ones"
proof -
  obtain s where s: "ex_tx = Some s" "committable s 1" "take 1 (lh_block s) = [40]" "log_start s = 2" "disk s = ex_disk"
      "content s 40 = ones" using ex_tx_ok by blast
  have h: "head_n (disk s (log_start s)) = 0" using s(5) by (simp add: head_n_def ex_disk_def get32_def get_at_def numeral_eq_Suc)
  obtain s' where s': "commit s = Some s'" "\<forall>k (r :: log).
       booted (log_start s) (writes (take k (drop (length (dwrites s)) (dwrites s'))) (disk s)) r \<longrightarrow>
       (\<exists>r'. recover_from_log r = Some r' \<and> (\<forall>b. b \<notin> log_area 1 (log_start s) \<longrightarrow>
            disk r' b = (if 1 < k \<and> b \<in> set (take 1 (lh_block s)) then content s b else disk s b)))"
    using commit_crash_atomic [OF s(2) h, where 'b = unit] by blast
  have q: "quiet s'" and d: "writes (take 4 (drop (length (dwrites s)) (dwrites s'))) (disk s) = disk s'"
    using commit_spec [OF s(2) refl refl] s'(1) s(3) by (auto simp: log_copy_def home_copy_def)
  have "length (disk s' b) = BSIZE" for b using q by (simp add: quiet_def bc_inv_def)
  from boot_log_ok [OF this] have "booted (log_start s) (writes (take 4 (drop (length (dwrites s)) (dwrites s'))) (disk s)) (boot_log (disk s'))"
    unfolding d by (simp add: booted_def boot_log_fields s(4))
  then obtain r' where "recover_from_log (boot_log (disk s')) = Some r'" "\<forall>b. b \<notin> log_area 1 (log_start s) \<longrightarrow>
      disk r' b = (if 1 < (4::nat) \<and> b \<in> set (take 1 (lh_block s)) then content s b else disk s b)" using s'(2) by blast
  moreover have "40 \<notin> log_area 1 (log_start s)" using s(2,3) by (simp add: committable_def loggable_def)
  ultimately show ?thesis using s s'(1) by auto
qed

theorem commit_installs_witness: "\<exists>s s'. ex_tx = Some s \<and> commit s = Some s' \<and> lh_n s' = 0 \<and> disk s' 40 = ones"
proof -
  obtain s where s: "ex_tx = Some s" "committable s 1" "take 1 (lh_block s) = [40]" "content s 40 = ones"
    using ex_tx_ok by blast
  have "40 \<notin> log_area 1 (log_start s)" using s(2,3) by (simp add: committable_def loggable_def)
  then show ?thesis using commit_installs [OF s(2)] s(1,3,4) by auto
qed

theorem log_write_spec_witness:
  "\<exists>i s s'. bufcache_read 40 ((boot_log ex_disk)\<lparr>outstanding := 1\<rparr>) = Some (i, s) \<and> log_write i s = Some s' \<and> lh_n s' = 1"
proof -
  let ?s0 = "(boot_log ex_disk)\<lparr>outstanding := 1\<rparr>"
  note b = boot_log_ok [of ex_disk, OF ex_disk_length] and f = boot_log_fields [of ex_disk]
  have 0: "bc_inv ?s0" "\<And>b. refs ?s0 b = 0" "\<And>b. \<not> held ?s0 b" using b by simp_all
  obtain i s1 where 1: "bufcache_read 40 ?s0 = Some (i, s1)" "bc_inv s1" "refs s1 = (refs ?s0)(40 := refs ?s0 40 + 1)"
      "rest s1 = rest ?s0" "bat s1 i 40"
    using bc.rd_ok [OF 0(1), of 40] 0(2,3) by auto
  note e = rest_log [OF 1(4)]
  obtain s' where "log_write i s1 = Some s'" "lh_n s' = 1"
    using log_write_spec [OF 1(2,5), of 0] e f 1(3) 0(2) by auto
  then show ?thesis using 1(1) by blast
qed

end
