(* ===== verification/Fs.thy ===== *)
theory Fs
  imports Log Vm
begin

text \<open>
  The file system below the system calls, \<^verbatim>\<open>kernel/fs.c\<close>: block allocation, inodes, file contents,
  directories and paths.  The state adds to the log the superblock, the inode table, what the kernel
  has printed, and physical memory (with the free pages), into which file data is copied.  An inode
  pointer is an index into the table; a function that may return a null pointer returns an option.
  The fields of the running process that the code reads, its page table and its current directory,
  are arguments; the device number of the single disk is not passed to functions that ignore it.
\<close>

section \<open>Constants and data\<close>

abbreviation (input) ROOTINO :: u32 where "ROOTINO \<equiv> 1"
abbreviation (input) FSMAGIC :: u32 where "FSMAGIC \<equiv> 0x10203040"
abbreviation (input) NDIRECT :: nat where "NDIRECT \<equiv> 12"
abbreviation (input) NINDIRECT :: nat where "NINDIRECT \<equiv> 256"
abbreviation (input) MAXFILE :: nat where "MAXFILE \<equiv> NDIRECT + NINDIRECT"
abbreviation (input) IPB :: u32 where "IPB \<equiv> 16"
abbreviation (input) BPB :: nat where "BPB \<equiv> 8192"
abbreviation (input) DIRSIZ :: nat where "DIRSIZ \<equiv> 14"
abbreviation (input) T_DIR :: u16 where "T_DIR \<equiv> 1"
abbreviation (input) T_FILE :: u16 where "T_FILE \<equiv> 2"
abbreviation (input) T_DEVICE :: u16 where "T_DEVICE \<equiv> 3"

definition newline :: string where
  "newline = [CHR 0x0A]"

record inode =
  idev :: u32
  inum :: u32
  iref :: int
  ilck :: sleeplock
  ivalid :: bool
  itype :: u16
  imajor :: u16
  iminor :: u16
  inlink :: u16
  isize :: u32
  addrs :: "u32 list"

record status =
  st_dev :: u32
  st_ino :: u32
  st_type :: u16
  st_nlink :: u16
  st_size :: u64

record fs = log +
  sb :: superblock
  inodes :: "nat \<Rightarrow> inode"
  uart_out :: "u8 list"
  km :: kmem

definition upd_inode :: "nat \<Rightarrow> (inode \<Rightarrow> inode) \<Rightarrow> 'a fs_scheme \<Rightarrow> 'a fs_scheme" where
  "upd_inode ip f s = s\<lparr>inodes := (inodes s)(ip := f (inodes s ip))\<rparr>"

text \<open>What the kernel prints goes to the transmit register of the UART; \<open>uart_out\<close> holds it, oldest byte first.\<close>

definition kprint :: "string \<Rightarrow> 'a fs_scheme \<Rightarrow> 'a fs_scheme" where
  "kprint msg s = s\<lparr>uart_out := uart_out s @ map of_char msg\<rparr>"

text \<open>The macros \<^verbatim>\<open>IBLOCK\<close> and \<^verbatim>\<open>BBLOCK\<close>, and the offset of an inode in its block of 16.\<close>

definition IBLOCK :: "u32 \<Rightarrow> superblock \<Rightarrow> u32" where
  "IBLOCK i b = i div IPB + sb_inodestart b"

definition BBLOCK :: "nat \<Rightarrow> superblock \<Rightarrow> u32" where
  "BBLOCK b x = of_nat (b div BPB) + sb_bmapstart x"

definition dinode_at :: "u32 \<Rightarrow> nat" where
  "dinode_at i = 64 * unat (i mod IPB)"

section \<open>Superblock and blocks\<close>

definition sb_of :: "blk \<Rightarrow> superblock" where
  "sb_of d = \<lparr>sb_magic = get32 d 0, sb_size = get32 d 4, sb_nblocks = get32 d 8, sb_ninodes = get32 d 12,
     sb_nlog = get32 d 16, sb_logstart = get32 d 20, sb_inodestart = get32 d 24, sb_bmapstart = get32 d 28\<rparr>"

definition readsb :: "'a fs_scheme \<Rightarrow> 'a fs_scheme option" where
  "readsb s =
     do {
       (bp, s) \<leftarrow> bufcache_read 1 s;
       bufcache_release bp (s\<lparr>sb := sb_of (bdata (bufs s bp))\<rparr>)
     }"

definition fsinit :: "'a fs_scheme \<Rightarrow> 'a fs_scheme option" where
  "fsinit s =
     do {
       s \<leftarrow> readsb s;
       if sb_magic (sb s) \<noteq> FSMAGIC then panic ''invalid file system'' else initlog (sb s) s
     }"

definition bzero :: "u32 \<Rightarrow> 'a fs_scheme \<Rightarrow> 'a fs_scheme option" where
  "bzero bno s =
     do {
       (bp, s) \<leftarrow> bufcache_read bno s;
       s \<leftarrow> log_write bp (set_data bp (replicate BSIZE 0) s);
       bufcache_release bp s
     }"

text \<open>
  \<^verbatim>\<open>balloc\<close>.  The inner loop looks for a clear bit of one bitmap block, among the at most \<open>k\<close> bits from
  \<open>bi\<close> on; the outer loop goes through the bitmap blocks.  Block numbers below \<^verbatim>\<open>sb.size\<close> are far below
  \<open>2\<^sup>3\<^sup>1\<close>, so the \<^verbatim>\<open>int\<close> counters are natural numbers.
\<close>

definition bit_mask :: "nat \<Rightarrow> u8" where
  "bit_mask bi = push_bit (bi mod 8) 1"

primrec find_clear :: "nat \<Rightarrow> nat \<Rightarrow> blk \<Rightarrow> nat option" where
  "find_clear 0 bi d = None"
| "find_clear (Suc k) bi d =
     (if d ! (bi div 8) AND bit_mask bi = 0 then Some bi else find_clear k (Suc bi) d)"

primrec balloc_loop :: "nat \<Rightarrow> nat \<Rightarrow> 'a fs_scheme \<Rightarrow> (u32 \<times> 'a fs_scheme) option" where
  "balloc_loop 0 b s = Some (0, kprint (''balloc: out of blocks'' @ newline) s)"
| "balloc_loop (Suc n) b s =
     do {
       (bp, s) \<leftarrow> bufcache_read (BBLOCK b (sb s)) s;
       let d = bdata (bufs s bp);
       case find_clear (min BPB (unat (sb_size (sb s)) - b)) 0 d of
         Some bi \<Rightarrow> do {
           s \<leftarrow> log_write bp (set_data bp (d[bi div 8 := d ! (bi div 8) OR bit_mask bi]) s);
           s \<leftarrow> bufcache_release bp s;
           s \<leftarrow> bzero (of_nat (b + bi)) s;
           Some (of_nat (b + bi), s)
         }
       | None \<Rightarrow> do {
           s \<leftarrow> bufcache_release bp s;
           balloc_loop n (b + BPB) s
         }
     }"

definition balloc :: "'a fs_scheme \<Rightarrow> (u32 \<times> 'a fs_scheme) option" where
  "balloc s = balloc_loop ((unat (sb_size (sb s)) + BPB - 1) div BPB) 0 s"

definition bfree :: "u32 \<Rightarrow> 'a fs_scheme \<Rightarrow> 'a fs_scheme option" where
  "bfree b s =
     do {
       (bp, s) \<leftarrow> bufcache_read (BBLOCK (unat b) (sb s)) s;
       let d = bdata (bufs s bp);
       let bi = unat b mod BPB;
       if d ! (bi div 8) AND bit_mask bi = 0 then panic ''freeing free block''
       else do {
         s \<leftarrow> log_write bp (set_data bp (d[bi div 8 := d ! (bi div 8) AND NOT (bit_mask bi)]) s);
         bufcache_release bp s
       }
     }"

section \<open>Inodes\<close>

primrec inode_init_loop :: "nat \<Rightarrow> nat \<Rightarrow> 'a fs_scheme \<Rightarrow> 'a fs_scheme" where
  "inode_init_loop 0 i s = s"
| "inode_init_loop (Suc n) i s =
     inode_init_loop n (Suc i) (upd_inode i (\<lambda>x. x\<lparr>ilck := initsleeplock (ilck x)\<rparr>) s)"

definition inode_init :: "'a fs_scheme \<Rightarrow> 'a fs_scheme" where
  "inode_init s = inode_init_loop NINODE 0 s"

text \<open>The scan of \<^verbatim>\<open>iget\<close>: the entry that holds the inode, or the first empty one.\<close>

primrec iget_scan :: "nat \<Rightarrow> nat \<Rightarrow> nat option \<Rightarrow> u32 \<Rightarrow> u32 \<Rightarrow> (nat \<Rightarrow> inode) \<Rightarrow> nat option \<times> nat option" where
  "iget_scan 0 ip spare dev ino t = (None, spare)"
| "iget_scan (Suc n) ip spare dev ino t =
     (if 0 < iref (t ip) \<and> idev (t ip) = dev \<and> inum (t ip) = ino then (Some ip, spare)
      else iget_scan n (Suc ip) (if spare = None \<and> iref (t ip) = 0 then Some ip else spare) dev ino t)"

definition iget :: "u32 \<Rightarrow> u32 \<Rightarrow> 'a fs_scheme \<Rightarrow> (nat \<times> 'a fs_scheme) option" where
  "iget dev ino s =
     (case iget_scan NINODE 0 None dev ino (inodes s) of
        (Some ip, _) \<Rightarrow> Some (ip, upd_inode ip (\<lambda>x. x\<lparr>iref := iref x + 1\<rparr>) s)
      | (None, None) \<Rightarrow> panic ''iget: no inodes''
      | (None, Some ip) \<Rightarrow>
          Some (ip, upd_inode ip (\<lambda>x. x\<lparr>idev := dev, inum := ino, iref := 1, ivalid := False\<rparr>) s))"

primrec ialloc_loop :: "nat \<Rightarrow> u32 \<Rightarrow> u32 \<Rightarrow> u16 \<Rightarrow> 'a fs_scheme \<Rightarrow> (nat option \<times> 'a fs_scheme) option" where
  "ialloc_loop 0 ino dev ty s = Some (None, kprint (''ialloc: no inodes'' @ newline) s)"
| "ialloc_loop (Suc n) ino dev ty s =
     do {
       (bp, s) \<leftarrow> bufcache_read (IBLOCK ino (sb s)) s;
       let d = bdata (bufs s bp);
       if get16 d (dinode_at ino) = 0 then do {
         s \<leftarrow> log_write bp (set_data bp (put16 (dinode_at ino) ty (put_at (dinode_at ino) (replicate 64 0) d)) s);
         s \<leftarrow> bufcache_release bp s;
         (ip, s) \<leftarrow> iget dev ino s;
         Some (Some ip, s)
       } else do {
         s \<leftarrow> bufcache_release bp s;
         ialloc_loop n (ino + 1) dev ty s
       }
     }"

definition ialloc :: "u32 \<Rightarrow> u16 \<Rightarrow> 'a fs_scheme \<Rightarrow> (nat option \<times> 'a fs_scheme) option" where
  "ialloc dev ty s = ialloc_loop (unat (sb_ninodes (sb s)) - 1) 1 dev ty s"

text \<open>The on-disk inode: type, major, minor and nlink two bytes each, size four, then 13 addresses.\<close>

definition put_dinode :: "inode \<Rightarrow> nat \<Rightarrow> blk \<Rightarrow> blk" where
  "put_dinode x k d =
     put_at (k + 12) (concat (map (le_bytes 4) (addrs x)))
       (put32 (k + 8) (isize x) (put16 (k + 6) (inlink x) (put16 (k + 4) (iminor x)
         (put16 (k + 2) (imajor x) (put16 k (itype x) d)))))"

definition get_dinode :: "blk \<Rightarrow> nat \<Rightarrow> inode \<Rightarrow> inode" where
  "get_dinode d k x =
     x\<lparr>itype := get16 d k, imajor := get16 d (k + 2), iminor := get16 d (k + 4), inlink := get16 d (k + 6),
       isize := get32 d (k + 8), addrs := map (\<lambda>i. get32 d (k + 12 + 4 * i)) [0..<NDIRECT + 1]\<rparr>"

definition iupdate :: "nat \<Rightarrow> 'a fs_scheme \<Rightarrow> 'a fs_scheme option" where
  "iupdate ip s =
     do {
       (bp, s) \<leftarrow> bufcache_read (IBLOCK (inum (inodes s ip)) (sb s)) s;
       let x = inodes s ip;
       s \<leftarrow> log_write bp (set_data bp (put_dinode x (dinode_at (inum x)) (bdata (bufs s bp))) s);
       bufcache_release bp s
     }"

definition idup :: "nat \<Rightarrow> 'a fs_scheme \<Rightarrow> nat \<times> 'a fs_scheme" where
  "idup ip s = (ip, upd_inode ip (\<lambda>x. x\<lparr>iref := iref x + 1\<rparr>) s)"

definition ilock :: "nat \<Rightarrow> 'a fs_scheme \<Rightarrow> 'a fs_scheme option" where
  "ilock ip s =
     (if iref (inodes s ip) < 1 then panic ''ilock''
      else do {
        l \<leftarrow> acquiresleep (mypid s) (ilck (inodes s ip));
        let s = upd_inode ip (\<lambda>x. x\<lparr>ilck := l\<rparr>) s;
        if \<not> ivalid (inodes s ip) then do {
          (bp, s) \<leftarrow> bufcache_read (IBLOCK (inum (inodes s ip)) (sb s)) s;
          let d = bdata (bufs s bp);
          let s = upd_inode ip (\<lambda>x. get_dinode d (dinode_at (inum x)) x) s;
          s \<leftarrow> bufcache_release bp s;
          let s = upd_inode ip (\<lambda>x. x\<lparr>ivalid := True\<rparr>) s;
          if itype (inodes s ip) = 0 then panic ''ilock: no type'' else Some s
        } else Some s
      })"

definition iunlock :: "nat \<Rightarrow> 'a fs_scheme \<Rightarrow> 'a fs_scheme option" where
  "iunlock ip s =
     (if \<not> holdingsleep (mypid s) (ilck (inodes s ip)) \<or> iref (inodes s ip) < 1 then panic ''iunlock''
      else Some (upd_inode ip (\<lambda>x. x\<lparr>ilck := releasesleep (ilck x)\<rparr>) s))"

section \<open>Contents of a file\<close>

definition bmap :: "nat \<Rightarrow> u32 \<Rightarrow> 'a fs_scheme \<Rightarrow> (u32 \<times> 'a fs_scheme) option" where
  "bmap ip bn s =
     (if unat bn < NDIRECT then
        (let addr = addrs (inodes s ip) ! unat bn
         in if addr = 0 then do {
              (addr, s) \<leftarrow> balloc s;
              if addr = 0 then Some (0, s)
              else Some (addr, upd_inode ip (\<lambda>x. x\<lparr>addrs := (addrs x)[unat bn := addr]\<rparr>) s)
            } else Some (addr, s))
      else let bn = unat bn - NDIRECT
           in if bn < NINDIRECT then do {
                (addr, s) \<leftarrow>
                  (let addr = addrs (inodes s ip) ! NDIRECT
                   in if addr = 0 then do {
                        (addr, s) \<leftarrow> balloc s;
                        if addr = 0 then Some (0, s)
                        else Some (addr, upd_inode ip (\<lambda>x. x\<lparr>addrs := (addrs x)[NDIRECT := addr]\<rparr>) s)
                      } else Some (addr, s));
                if addr = 0 then Some (0, s)
                else do {
                  (bp, s) \<leftarrow> bufcache_read addr s;
                  let addr = get32 (bdata (bufs s bp)) (4 * bn);
                  if addr = 0 then do {
                    (addr, s) \<leftarrow> balloc s;
                    s \<leftarrow> (if addr \<noteq> 0 then log_write bp (set_data bp (put32 (4 * bn) addr (bdata (bufs s bp))) s)
                          else Some s);
                    s \<leftarrow> bufcache_release bp s;
                    Some (addr, s)
                  } else do {
                    s \<leftarrow> bufcache_release bp s;
                    Some (addr, s)
                  }
                }
              } else panic ''bmap: out of range'')"

primrec itrunc_direct :: "nat \<Rightarrow> nat \<Rightarrow> nat \<Rightarrow> 'a fs_scheme \<Rightarrow> 'a fs_scheme option" where
  "itrunc_direct 0 i ip s = Some s"
| "itrunc_direct (Suc n) i ip s =
     do {
       s \<leftarrow> (let a = addrs (inodes s ip) ! i
            in if a \<noteq> 0 then do {
                 s \<leftarrow> bfree a s;
                 Some (upd_inode ip (\<lambda>x. x\<lparr>addrs := (addrs x)[i := 0]\<rparr>) s)
               } else Some s);
       itrunc_direct n (Suc i) ip s
     }"

primrec itrunc_indirect :: "nat \<Rightarrow> nat \<Rightarrow> nat \<Rightarrow> 'a fs_scheme \<Rightarrow> 'a fs_scheme option" where
  "itrunc_indirect 0 j bp s = Some s"
| "itrunc_indirect (Suc n) j bp s =
     do {
       s \<leftarrow> (let a = get32 (bdata (bufs s bp)) (4 * j) in if a \<noteq> 0 then bfree a s else Some s);
       itrunc_indirect n (Suc j) bp s
     }"

definition itrunc :: "nat \<Rightarrow> 'a fs_scheme \<Rightarrow> 'a fs_scheme option" where
  "itrunc ip s =
     do {
       s \<leftarrow> itrunc_direct NDIRECT 0 ip s;
       s \<leftarrow> (if addrs (inodes s ip) ! NDIRECT \<noteq> 0 then do {
              (bp, s) \<leftarrow> bufcache_read (addrs (inodes s ip) ! NDIRECT) s;
              s \<leftarrow> itrunc_indirect NINDIRECT 0 bp s;
              s \<leftarrow> bufcache_release bp s;
              s \<leftarrow> bfree (addrs (inodes s ip) ! NDIRECT) s;
              Some (upd_inode ip (\<lambda>x. x\<lparr>addrs := (addrs x)[NDIRECT := 0]\<rparr>) s)
            } else Some s);
       iupdate ip (upd_inode ip (\<lambda>x. x\<lparr>isize := 0\<rparr>) s)
     }"

definition iput :: "nat \<Rightarrow> 'a fs_scheme \<Rightarrow> 'a fs_scheme option" where
  "iput ip s =
     do {
       s \<leftarrow> (if iref (inodes s ip) = 1 \<and> ivalid (inodes s ip) \<and> inlink (inodes s ip) = 0 then do {
              l \<leftarrow> acquiresleep (mypid s) (ilck (inodes s ip));
              s \<leftarrow> itrunc ip (upd_inode ip (\<lambda>x. x\<lparr>ilck := l\<rparr>) s);
              s \<leftarrow> iupdate ip (upd_inode ip (\<lambda>x. x\<lparr>itype := 0\<rparr>) s);
              Some (upd_inode ip (\<lambda>x. x\<lparr>ivalid := False, ilck := releasesleep (ilck x)\<rparr>) s)
            } else Some s);
       Some (upd_inode ip (\<lambda>x. x\<lparr>iref := iref x - 1\<rparr>) s)
     }"

definition iunlockput :: "nat \<Rightarrow> 'a fs_scheme \<Rightarrow> 'a fs_scheme option" where
  "iunlockput ip s = do { s \<leftarrow> iunlock ip s; iput ip s }"

definition stati :: "nat \<Rightarrow> 'a fs_scheme \<Rightarrow> status" where
  "stati ip s =
     (let x = inodes s ip
      in \<lparr>st_dev = idev x, st_ino = inum x, st_type = itype x, st_nlink = inlink x, st_size = ucast (isize x)\<rparr>)"

text \<open>
  Where \<open>readi\<close> copies to and \<open>writei\<close> copies from: the flag \<^verbatim>\<open>user_dst\<close> with the address.  A user address
  comes with the page table of the process; a kernel address points into physical memory, or to an
  object of the calling function, which is then passed along as a byte list.
\<close>

datatype addr = User u64 u64 | Phys u64 | Local nat

primrec addr_add :: "addr \<Rightarrow> nat \<Rightarrow> addr" where
  "addr_add (User pt a) n = User pt (a + of_nat n)"
| "addr_add (Phys a) n = Phys (a + of_nat n)"
| "addr_add (Local k) n = Local (k + n)"

definition either_copyout :: "addr \<Rightarrow> u8 list \<Rightarrow> u8 list \<Rightarrow> 'a fs_scheme \<Rightarrow> (int \<times> u8 list \<times> 'a fs_scheme) option" where
  "either_copyout dst src obj s =
     (case dst of
        User pt a \<Rightarrow> do { (r, k) \<leftarrow> copy_to_user pt a src (km s); Some (r, obj, s\<lparr>km := k\<rparr>) }
      | Phys a \<Rightarrow> Some (0, obj, s\<lparr>km := (km s)\<lparr>pmem := st_bytes a src (pmem (km s))\<rparr>\<rparr>)
      | Local k \<Rightarrow> Some (0, put_at k src obj, s))"

definition either_copyin :: "addr \<Rightarrow> nat \<Rightarrow> u8 list \<Rightarrow> 'a fs_scheme \<Rightarrow> (int \<times> u8 list \<times> 'a fs_scheme) option" where
  "either_copyin src n obj s =
     (case src of
        User pt a \<Rightarrow> do { ((r, bs), k) \<leftarrow> copy_from_user pt a n (km s); Some (r, bs, s\<lparr>km := k\<rparr>) }
      | Phys a \<Rightarrow> Some (0, ld_bytes (pmem (km s)) a n, s)
      | Local k \<Rightarrow> Some (0, get_at k n obj, s))"

text \<open>
  The loops of \<open>readi\<close> and \<open>writei\<close>.  Every turn moves at least one byte, so \<open>n\<close> turns are enough; the
  first argument counts them down.
\<close>

definition chunk_in_block :: "u32 \<Rightarrow> u32 \<Rightarrow> u32" where
  "chunk_in_block left off = min left (of_nat BSIZE - off mod of_nat BSIZE)"

primrec readi_loop :: "nat \<Rightarrow> u32 \<Rightarrow> u32 \<Rightarrow> u32 \<Rightarrow> addr \<Rightarrow> nat \<Rightarrow> u8 list \<Rightarrow> 'a fs_scheme \<Rightarrow>
    (int \<times> u8 list \<times> 'a fs_scheme) option" where
  "readi_loop 0 tot n off dst ip obj s = (if tot < n then None else Some (sint tot, obj, s))"
| "readi_loop (Suc fuel) tot n off dst ip obj s =
     (if tot < n then do {
        (addr, s) \<leftarrow> bmap ip (off div of_nat BSIZE) s;
        if addr = 0 then Some (sint tot, obj, s)
        else do {
          (bp, s) \<leftarrow> bufcache_read addr s;
          let m = chunk_in_block (n - tot) off;
          let src = get_at (unat (off mod of_nat BSIZE)) (unat m) (bdata (bufs s bp));
          (r, obj, s) \<leftarrow> either_copyout dst src obj s;
          s \<leftarrow> bufcache_release bp s;
          if r = - 1 then Some (- 1, obj, s)
          else readi_loop fuel (tot + m) n (off + m) (addr_add dst (unat m)) ip obj s
        }
      } else Some (sint tot, obj, s))"

definition readi :: "nat \<Rightarrow> addr \<Rightarrow> u32 \<Rightarrow> u32 \<Rightarrow> u8 list \<Rightarrow> 'a fs_scheme \<Rightarrow> (int \<times> u8 list \<times> 'a fs_scheme) option" where
  "readi ip dst off n obj s =
     (let size = isize (inodes s ip)
      in if off > size \<or> off + n < off then Some (0, obj, s)
         else let n = (if off + n > size then size - off else n)
              in readi_loop (unat n) 0 n off dst ip obj s)"

primrec writei_loop :: "nat \<Rightarrow> u32 \<Rightarrow> u32 \<Rightarrow> u32 \<Rightarrow> addr \<Rightarrow> nat \<Rightarrow> u8 list \<Rightarrow> 'a fs_scheme \<Rightarrow>
    (u32 \<times> u32 \<times> 'a fs_scheme) option" where
  "writei_loop 0 tot n off src ip obj s = (if tot < n then None else Some (tot, off, s))"
| "writei_loop (Suc fuel) tot n off src ip obj s =
     (if tot < n then do {
        (addr, s) \<leftarrow> bmap ip (off div of_nat BSIZE) s;
        if addr = 0 then Some (tot, off, s)
        else do {
          (bp, s) \<leftarrow> bufcache_read addr s;
          let m = chunk_in_block (n - tot) off;
          (r, bs, s) \<leftarrow> either_copyin src (unat m) obj s;
          let s = set_data bp (put_at (unat (off mod of_nat BSIZE)) bs (bdata (bufs s bp))) s;
          if r = - 1 then do {
            s \<leftarrow> bufcache_release bp s;
            Some (tot, off, s)
          } else do {
            s \<leftarrow> log_write bp s;
            s \<leftarrow> bufcache_release bp s;
            writei_loop fuel (tot + m) n (off + m) (addr_add src (unat m)) ip obj s
          }
        }
      } else Some (tot, off, s))"

definition writei :: "nat \<Rightarrow> addr \<Rightarrow> u32 \<Rightarrow> u32 \<Rightarrow> u8 list \<Rightarrow> 'a fs_scheme \<Rightarrow> (int \<times> 'a fs_scheme) option" where
  "writei ip src off n obj s =
     (if off > isize (inodes s ip) \<or> off + n < off then Some (- 1, s)
      else if off + n > of_nat (MAXFILE * BSIZE) then Some (- 1, s)
      else do {
        (tot, off, s) \<leftarrow> writei_loop (unat n) 0 n off src ip obj s;
        let s = (if off > isize (inodes s ip) then upd_inode ip (\<lambda>x. x\<lparr>isize := off\<rparr>) s else s);
        s \<leftarrow> iupdate ip s;
        Some (sint tot, s)
      })"

section \<open>Directories\<close>

text \<open>A byte list as a C string: what lies beyond its end reads as NUL.\<close>

definition arr :: "u8 list \<Rightarrow> nat \<Rightarrow> u8" where
  "arr xs i = (if i < length xs then xs ! i else 0)"

definition namecmp :: "u8 list \<Rightarrow> u8 list \<Rightarrow> int" where
  "namecmp s t = strncmp (arr s) (arr t) (0 :: nat) (0 :: nat) DIRSIZ"

text \<open>A directory entry: the inode number in two bytes and the name in \<open>DIRSIZ\<close> bytes, 16 in all.\<close>

definition de_inum :: "u8 list \<Rightarrow> u16" where
  "de_inum de = get16 de 0"

definition de_name :: "u8 list \<Rightarrow> u8 list" where
  "de_name de = drop 2 de"

definition no_dirent :: "u8 list" where
  "no_dirent = replicate 16 0"

primrec dirlookup_loop :: "nat \<Rightarrow> u32 \<Rightarrow> nat \<Rightarrow> u8 list \<Rightarrow> 'a fs_scheme \<Rightarrow> ((nat \<times> u32) option \<times> 'a fs_scheme) option" where
  "dirlookup_loop 0 off dp name s = Some (None, s)"
| "dirlookup_loop (Suc n) off dp name s =
     do {
       (r, de, s) \<leftarrow> readi dp (Local 0) off 16 no_dirent s;
       if r \<noteq> 16 then panic ''dirlookup read''
       else if de_inum de \<noteq> 0 \<and> namecmp name (de_name de) = 0 then do {
         (ip, s) \<leftarrow> iget (idev (inodes s dp)) (ucast (de_inum de)) s;
         Some (Some (ip, off), s)
       } else dirlookup_loop n (off + 16) dp name s
     }"

text \<open>The number of turns of a loop over the entries of a directory.\<close>

definition dir_turns :: "nat \<Rightarrow> 'a fs_scheme \<Rightarrow> nat" where
  "dir_turns dp s = (unat (isize (inodes s dp)) + 15) div 16"

definition dirlookup :: "nat \<Rightarrow> u8 list \<Rightarrow> 'a fs_scheme \<Rightarrow> ((nat \<times> u32) option \<times> 'a fs_scheme) option" where
  "dirlookup dp name s =
     (if itype (inodes s dp) \<noteq> T_DIR then panic ''dirlookup not DIR''
      else dirlookup_loop (dir_turns dp s) 0 dp name s)"

primrec dirlink_loop :: "nat \<Rightarrow> u32 \<Rightarrow> nat \<Rightarrow> 'a fs_scheme \<Rightarrow> (u32 \<times> 'a fs_scheme) option" where
  "dirlink_loop 0 off dp s = Some (off, s)"
| "dirlink_loop (Suc n) off dp s =
     do {
       (r, de, s) \<leftarrow> readi dp (Local 0) off 16 no_dirent s;
       if r \<noteq> 16 then panic ''dirlink read''
       else if de_inum de = 0 then Some (off, s) else dirlink_loop n (off + 16) dp s
     }"

definition mk_dirent :: "u8 list \<Rightarrow> u32 \<Rightarrow> u8 list" where
  "mk_dirent name ino =
     le_bytes 2 (ucast ino :: u16) @
     map (strncpy (0 :: nat) (0 :: nat) (arr name) (int DIRSIZ) (\<lambda>_. 0)) [0..<DIRSIZ]"

definition dirlink :: "nat \<Rightarrow> u8 list \<Rightarrow> u32 \<Rightarrow> 'a fs_scheme \<Rightarrow> (int \<times> 'a fs_scheme) option" where
  "dirlink dp name ino s =
     do {
       (found, s) \<leftarrow> dirlookup dp name s;
       case found of
         Some (ip, _) \<Rightarrow> do { s \<leftarrow> iput ip s; Some (- 1, s) }
       | None \<Rightarrow> do {
           (off, s) \<leftarrow> dirlink_loop (dir_turns dp s) 0 dp s;
           (r, s) \<leftarrow> writei dp (Local 0) off 16 (mk_dirent name ino) s;
           Some (if r \<noteq> 16 then - 1 else 0, s)
         }
     }"

section \<open>Paths\<close>

text \<open>
  \<^verbatim>\<open>skipelem\<close> on the bytes of a path before its NUL.  The name goes into a buffer of \<open>DIRSIZ\<close> bytes whose
  bytes behind the NUL keep what they were.
\<close>

abbreviation (input) SLASH :: u8 where "SLASH \<equiv> 47"

definition skipelem :: "u8 list \<Rightarrow> u8 list \<Rightarrow> (u8 list \<times> u8 list) option" where
  "skipelem path name =
     (let path = dropWhile (\<lambda>c. c = SLASH) path
      in if path = [] then None
         else let s = takeWhile (\<lambda>c. c \<noteq> SLASH) path;
                  len = length s;
                  path = drop len path;
                  name = (if DIRSIZ \<le> len then put_at 0 (take DIRSIZ s) name else put_at 0 (s @ [0]) name)
              in Some (dropWhile (\<lambda>c. c = SLASH) path, name))"

lemma skipelem_shorter: "skipelem path name = Some (path', name') \<Longrightarrow> length path' < length path"
proof -
  assume a: "skipelem path name = Some (path', name')"
  define p where "p = dropWhile (\<lambda>c. c = SLASH) path"
  have p: "p \<noteq> []" "path' = dropWhile (\<lambda>c. c = SLASH) (drop (length (takeWhile (\<lambda>c. c \<noteq> SLASH) p)) p)"
    using a by (auto simp: skipelem_def Let_def p_def split: if_splits)
  have "hd p \<noteq> SLASH" using p(1) hd_dropWhile [of "\<lambda>c. c = SLASH" path] by (simp add: p_def)
  then have "0 < length (takeWhile (\<lambda>c. c \<noteq> SLASH) p)" using p(1) by (cases p) simp_all
  moreover have "length path' \<le> length p - length (takeWhile (\<lambda>c. c \<noteq> SLASH) p)"
    using length_dropWhile_le [of "\<lambda>c. c = SLASH" "drop (length (takeWhile (\<lambda>c. c \<noteq> SLASH) p)) p"] by (simp add: p(2))
  moreover have "length p \<le> length path" using length_dropWhile_le [of "\<lambda>c. c = SLASH" path] by (simp add: p_def)
  moreover have "0 < length p" using p(1) by simp
  ultimately show ?thesis by linarith
qed

function namex_loop :: "u8 list \<Rightarrow> bool \<Rightarrow> u8 list \<Rightarrow> nat \<Rightarrow> 'a fs_scheme \<Rightarrow> ((nat option \<times> u8 list) \<times> 'a fs_scheme) option" where
  "namex_loop path parent name ip s =
     (case skipelem path name of
        None \<Rightarrow>
          if parent then do { s \<leftarrow> iput ip s; Some ((None, name), s) } else Some ((Some ip, name), s)
      | Some (path, name) \<Rightarrow> do {
          s \<leftarrow> ilock ip s;
          if itype (inodes s ip) \<noteq> T_DIR then do { s \<leftarrow> iunlockput ip s; Some ((None, name), s) }
          else if parent \<and> path = [] then do { s \<leftarrow> iunlock ip s; Some ((Some ip, name), s) }
          else do {
            (next, s) \<leftarrow> dirlookup ip name s;
            s \<leftarrow> iunlockput ip s;
            case next of
              None \<Rightarrow> Some ((None, name), s)
            | Some (nip, _) \<Rightarrow> namex_loop path parent name nip s
          }
        })"
  by pat_completeness auto

termination namex_loop
  by (relation "measure (\<lambda>(path, parent, name, ip, s). length path)") (auto dest: skipelem_shorter)

definition namex :: "nat \<Rightarrow> u8 list \<Rightarrow> bool \<Rightarrow> u8 list \<Rightarrow> 'a fs_scheme \<Rightarrow> ((nat option \<times> u8 list) \<times> 'a fs_scheme) option" where
  "namex cwd path parent name s =
     do {
       (ip, s) \<leftarrow> (case path of c # _ \<Rightarrow> if c = SLASH then iget ROOTDEV ROOTINO s else Some (idup cwd s)
                  | [] \<Rightarrow> Some (idup cwd s));
       namex_loop path parent name ip s
     }"

definition namei :: "nat \<Rightarrow> u8 list \<Rightarrow> 'a fs_scheme \<Rightarrow> (nat option \<times> 'a fs_scheme) option" where
  "namei cwd path s =
     do {
       ((ip, _), s) \<leftarrow> namex cwd path False (replicate DIRSIZ 0) s;
       Some (ip, s)
     }"

definition nameiparent :: "nat \<Rightarrow> u8 list \<Rightarrow> u8 list \<Rightarrow> 'a fs_scheme \<Rightarrow> ((nat option \<times> u8 list) \<times> 'a fs_scheme) option" where
  "nameiparent cwd path name s = namex cwd path True name s"

end
