(* ===== verification/Kern.thy ===== *)
theory Kern
  imports Fs
begin

text \<open>
  The state of the whole kernel: it adds to the file system the process table, the file table, the
  pipes, the console and the counters of \<^verbatim>\<open>trap.c\<close>; and the operations on the process table that
  every other component calls (\<^verbatim>\<open>wakeup\<close>, \<^verbatim>\<open>killed\<close>, \<^verbatim>\<open>setkilled\<close>, \<^verbatim>\<open>kill\<close>).  Process and file pointers are
  indices into their tables; a pipe lives in a page of its own and is found by the page's address.
  A page of a user process, and its trap frame, are bytes of physical memory.
\<close>

section \<open>Data\<close>

datatype procstate = UNUSED | USED | SLEEPING | RUNNABLE | RUNNING | ZOMBIE

text \<open>What processes sleep on: in the source the address of the object.\<close>

datatype chan = ChanRead u64 | ChanWrite u64 | ChanProc nat | ChanTicks | ChanConsole | ChanUart | ChanBuf nat | ChanDisk

record swtch_context =
  ctx_ra :: u64
  ctx_sp :: u64
  ctx_s :: "u64 list"

record proc =
  state :: procstate
  channel :: "chan option"
  pkilled :: bool
  xstate :: u32
  pid :: int
  parent :: "nat option"
  kstack :: u64
  sz :: u64
  pagetable :: u64
  trapframe :: u64
  pcontext :: swtch_context
  ofile :: "nat option list"
  cwd :: "nat option"
  pname :: "u8 list"
  tickets :: int
  alarmticks :: int
  alarmhandler :: u64
  pticks :: int

datatype filetype = FD_NONE | FD_PIPE | FD_INODE | FD_DEVICE

record file_struct =
  ftype :: filetype
  fref :: int
  readable :: bool
  writable :: bool
  fpipe :: u64
  fip :: nat
  foff :: u32
  fmajor :: u16

record pipe =
  pdata :: "u8 list"
  nread :: u32
  nwrite :: u32
  readopen :: bool
  writeopen :: bool

record console =
  cbuf :: "u8 list"
  read_index :: u32
  write_index :: u32
  edit_index :: u32

text \<open>
  The transmit buffer of \<^verbatim>\<open>uart.c\<close> and the device: how many bytes it takes before the next read of its
  status register finds it busy, and the bytes that have arrived.
\<close>

record uart =
  tx_buf :: "u8 list"
  tx_write :: u64
  tx_read :: u64
  tx_ready :: nat
  rx_bytes :: "u8 list"

record kern = fs +
  procs :: "nat \<Rightarrow> proc"
  cur :: "nat option"
  nextpid :: int
  initproc :: "nat option"
  files :: "nat \<Rightarrow> file_struct"
  pipes :: "u64 \<Rightarrow> pipe"
  cons :: console
  uart :: uart
  ticks :: u32
  readcount :: u32
  lfsr :: u16

text \<open>Addresses the linker assigns: the end of the kernel, the trampoline page and functions in it.\<close>

record symbols =
  sym_end :: u64
  sym_trampoline :: u64
  sym_uservec :: u64
  sym_userret :: u64
  sym_forkret :: u64
  sym_usertrap :: u64
  sym_kernelvec :: u64

definition upd_proc :: "nat \<Rightarrow> (proc \<Rightarrow> proc) \<Rightarrow> 'a kern_scheme \<Rightarrow> 'a kern_scheme" where
  "upd_proc p f s = s\<lparr>procs := (procs s)(p := f (procs s p))\<rparr>"

definition upd_file :: "nat \<Rightarrow> (file_struct \<Rightarrow> file_struct) \<Rightarrow> 'a kern_scheme \<Rightarrow> 'a kern_scheme" where
  "upd_file i f s = s\<lparr>files := (files s)(i := f (files s i))\<rparr>"

definition upd_pipe :: "u64 \<Rightarrow> (pipe \<Rightarrow> pipe) \<Rightarrow> 'a kern_scheme \<Rightarrow> 'a kern_scheme" where
  "upd_pipe i f s = s\<lparr>pipes := (pipes s)(i := f (pipes s i))\<rparr>"

text \<open>The memory operations of \<^verbatim>\<open>kalloc.c\<close> and \<^verbatim>\<open>vm.c\<close>, on the kernel's state.\<close>

definition on_mem :: "(kmem \<Rightarrow> ('r \<times> kmem) option) \<Rightarrow> 'a fs_scheme \<Rightarrow> ('r \<times> 'a fs_scheme) option" where
  "on_mem f s = do { (r, k) \<leftarrow> f (km s); Some (r, s\<lparr>km := k\<rparr>) }"

definition do_mem :: "(kmem \<Rightarrow> kmem option) \<Rightarrow> 'a fs_scheme \<Rightarrow> 'a fs_scheme option" where
  "do_mem f s = do { k \<leftarrow> f (km s); Some (s\<lparr>km := k\<rparr>) }"

section \<open>Trap frames\<close>

abbreviation (input) TF_KERNEL_SATP :: u64 where "TF_KERNEL_SATP \<equiv> 0"
abbreviation (input) TF_KERNEL_SP :: u64 where "TF_KERNEL_SP \<equiv> 8"
abbreviation (input) TF_KERNEL_TRAP :: u64 where "TF_KERNEL_TRAP \<equiv> 16"
abbreviation (input) TF_EPC :: u64 where "TF_EPC \<equiv> 24"
abbreviation (input) TF_KERNEL_HARTID :: u64 where "TF_KERNEL_HARTID \<equiv> 32"
abbreviation (input) TF_SP :: u64 where "TF_SP \<equiv> 48"
abbreviation (input) TF_A0 :: u64 where "TF_A0 \<equiv> 112"
abbreviation (input) TF_A1 :: u64 where "TF_A1 \<equiv> 120"
abbreviation (input) TF_A7 :: u64 where "TF_A7 \<equiv> 168"
abbreviation (input) TF_SIZE :: nat where "TF_SIZE \<equiv> 288"

definition tf_get :: "nat \<Rightarrow> u64 \<Rightarrow> 'a kern_scheme \<Rightarrow> u64" where
  "tf_get p k s = ld64 (pmem (km s)) (trapframe (procs s p) + k)"

definition tf_put :: "nat \<Rightarrow> u64 \<Rightarrow> u64 \<Rightarrow> 'a kern_scheme \<Rightarrow> 'a kern_scheme" where
  "tf_put p k v s = s\<lparr>km := (km s)\<lparr>pmem := st64 (trapframe (procs s p) + k) v (pmem (km s))\<rparr>\<rparr>"

section \<open>Sleep, wakeup and kill\<close>

text \<open>
  How a call of the running process ends: it returns a value, it exits, or it goes to sleep in the middle and
  will go on from the given point of its loop when it is woken up.
\<close>

datatype outcome = Returns int | Blocks nat | Exits

primrec wakeup_loop :: "nat \<Rightarrow> nat \<Rightarrow> chan \<Rightarrow> 'a kern_scheme \<Rightarrow> 'a kern_scheme" where
  "wakeup_loop 0 p c s = s"
| "wakeup_loop (Suc n) p c s =
     wakeup_loop n (Suc p) c
       (if cur s \<noteq> Some p \<and> state (procs s p) = SLEEPING \<and> channel (procs s p) = Some c
        then upd_proc p (\<lambda>x. x\<lparr>state := RUNNABLE\<rparr>) s else s)"

definition wakeup :: "chan \<Rightarrow> 'a kern_scheme \<Rightarrow> 'a kern_scheme" where
  "wakeup c s = wakeup_loop NPROC 0 c s"

text \<open>
  \<^verbatim>\<open>sleep\<close> up to the switch to the scheduler, and what it does when the process runs again.
\<close>

definition sleep_enter :: "nat \<Rightarrow> chan \<Rightarrow> 'a kern_scheme \<Rightarrow> 'a kern_scheme" where
  "sleep_enter p c s = upd_proc p (\<lambda>x. x\<lparr>channel := Some c, state := SLEEPING\<rparr>) s"

definition sleep_leave :: "nat \<Rightarrow> 'a kern_scheme \<Rightarrow> 'a kern_scheme" where
  "sleep_leave p s = upd_proc p (\<lambda>x. x\<lparr>channel := None\<rparr>) s"

primrec kill_loop :: "nat \<Rightarrow> nat \<Rightarrow> int \<Rightarrow> 'a kern_scheme \<Rightarrow> int \<times> 'a kern_scheme" where
  "kill_loop 0 p i s = (- 1, s)"
| "kill_loop (Suc n) p i s =
     (if pid (procs s p) = i then
        (0, upd_proc p (\<lambda>x. x\<lparr>pkilled := True, state := if state x = SLEEPING then RUNNABLE else state x\<rparr>) s)
      else kill_loop n (Suc p) i s)"

definition kill :: "int \<Rightarrow> 'a kern_scheme \<Rightarrow> int \<times> 'a kern_scheme" where
  "kill i s = kill_loop NPROC 0 i s"

definition setkilled :: "nat \<Rightarrow> 'a kern_scheme \<Rightarrow> 'a kern_scheme" where
  "setkilled p s = upd_proc p (\<lambda>x. x\<lparr>pkilled := True\<rparr>) s"

definition killed :: "nat \<Rightarrow> 'a kern_scheme \<Rightarrow> bool" where
  "killed p s = pkilled (procs s p)"

end
