(* ===== verification/Pipe.thy ===== *)
theory Pipe
  imports Kern
begin

text \<open>
  Pipes, \<^verbatim>\<open>kernel/pipe.c\<close> (\<^verbatim>\<open>pipealloc\<close> is with the file table).  A pipe is a ring of 512 bytes and two
  counters that only grow, modulo \<open>2\<^sup>3\<^sup>2\<close>.  A reader or writer that has to wait goes to sleep in the
  middle of its loop.
\<close>

abbreviation (input) PIPESIZE :: nat where "PIPESIZE \<equiv> 512"

definition pipeclose :: "u64 \<Rightarrow> u64 \<Rightarrow> bool \<Rightarrow> 'a kern_scheme \<Rightarrow> 'a kern_scheme option" where
  "pipeclose kend pi wr s =
     (let s = (if wr then wakeup (ChanRead pi) (upd_pipe pi (\<lambda>x. x\<lparr>writeopen := False\<rparr>) s)
               else wakeup (ChanWrite pi) (upd_pipe pi (\<lambda>x. x\<lparr>readopen := False\<rparr>) s))
      in if \<not> readopen (pipes s pi) \<and> \<not> writeopen (pipes s pi) then do_mem (kfree kend pi) s else Some s)"

text \<open>The tests of the counters and the steps on the ring, as the loops below use them.\<close>

definition pipe_full :: "pipe \<Rightarrow> bool" where
  "pipe_full x \<longleftrightarrow> nwrite x = nread x + of_nat PIPESIZE"

definition pipe_none :: "pipe \<Rightarrow> bool" where
  "pipe_none x \<longleftrightarrow> nread x = nwrite x"

definition pipe_put :: "u8 \<Rightarrow> pipe \<Rightarrow> pipe" where
  "pipe_put c x = x\<lparr>pdata := (pdata x)[unat (nwrite x mod of_nat PIPESIZE) := c], nwrite := nwrite x + 1\<rparr>"

definition pipe_first :: "pipe \<Rightarrow> u8" where
  "pipe_first x = pdata x ! unat (nread x mod of_nat PIPESIZE)"

definition pipe_next :: "pipe \<Rightarrow> pipe" where
  "pipe_next x = x\<lparr>nread := nread x + 1\<rparr>"

text \<open>\<^verbatim>\<open>pipewrite\<close> by process \<open>p\<close>, with \<open>k\<close> bytes left to write, from byte \<open>i\<close> on.\<close>

primrec pipewrite_from :: "nat \<Rightarrow> nat \<Rightarrow> nat \<Rightarrow> u64 \<Rightarrow> u64 \<Rightarrow> 'a kern_scheme \<Rightarrow> (outcome \<times> 'a kern_scheme) option" where
  "pipewrite_from 0 i p pi addr s = Some (Returns (int i), wakeup (ChanRead pi) s)"
| "pipewrite_from (Suc k) i p pi addr s =
     (if \<not> readopen (pipes s pi) \<or> killed p s then Some (Returns (- 1), s)
      else if pipe_full (pipes s pi) then
        Some (Blocks i, sleep_enter p (ChanWrite pi) (wakeup (ChanRead pi) s))
      else do {
        ((r, bs), s) \<leftarrow> on_mem (copy_from_user (pagetable (procs s p)) (addr + of_nat i) 1) s;
        if r = - 1 then Some (Returns (int i), wakeup (ChanRead pi) s)
        else pipewrite_from k (Suc i) p pi addr (upd_pipe pi (pipe_put (hd bs)) s)
      })"

definition pipewrite :: "nat \<Rightarrow> u64 \<Rightarrow> u64 \<Rightarrow> int \<Rightarrow> 'a kern_scheme \<Rightarrow> (outcome \<times> 'a kern_scheme) option" where
  "pipewrite p pi addr n s = pipewrite_from (nat n) 0 p pi addr s"

text \<open>The copying loop of \<^verbatim>\<open>piperead\<close>.\<close>

primrec piperead_copy :: "nat \<Rightarrow> nat \<Rightarrow> nat \<Rightarrow> u64 \<Rightarrow> u64 \<Rightarrow> 'a kern_scheme \<Rightarrow> (int \<times> 'a kern_scheme) option" where
  "piperead_copy 0 i p pi addr s = Some (int i, s)"
| "piperead_copy (Suc k) i p pi addr s =
     (if pipe_none (pipes s pi) then Some (int i, s)
      else let ch = pipe_first (pipes s pi);
               s = upd_pipe pi pipe_next s
           in do {
             (r, s) \<leftarrow> on_mem (copy_to_user (pagetable (procs s p)) (addr + of_nat i) [ch]) s;
             if r = - 1 then Some (int i, s) else piperead_copy k (Suc i) p pi addr s
           })"

definition piperead :: "nat \<Rightarrow> u64 \<Rightarrow> u64 \<Rightarrow> int \<Rightarrow> 'a kern_scheme \<Rightarrow> (outcome \<times> 'a kern_scheme) option" where
  "piperead p pi addr n s =
     (if pipe_none (pipes s pi) \<and> writeopen (pipes s pi) then
        if killed p s then Some (Returns (- 1), s) else Some (Blocks 0, sleep_enter p (ChanRead pi) s)
      else do {
        (i, s) \<leftarrow> piperead_copy (nat n) 0 p pi addr s;
        Some (Returns i, wakeup (ChanWrite pi) s)
      })"

end
