(* ===== verification/Console.thy ===== *)
theory Console
  imports Kern
begin

text \<open>
  Formatted output (\<^verbatim>\<open>kernel/printf.c\<close>), the serial line (\<^verbatim>\<open>uart.c\<close>) and the console (\<^verbatim>\<open>console.c\<close>).  The
  device is the list of bytes it has received from the kernel, the number of bytes it accepts before
  it reports busy, and the bytes waiting to be read.
\<close>

section \<open>printf\<close>

definition digits :: string where
  "digits = ''0123456789abcdef''"

text \<open>
  The loop of \<^verbatim>\<open>printint\<close>: the digits of \<open>x\<close>, least significant first, written to what is left of a
  buffer of 16 bytes; \<open>None\<close> would be a write behind the buffer.
\<close>

primrec digits_loop :: "nat \<Rightarrow> u32 \<Rightarrow> u32 \<Rightarrow> string option" where
  "digits_loop 0 x base = None"
| "digits_loop (Suc room) x base =
     (let c = digits ! unat (x mod base); x = x div base
      in if x \<noteq> 0 then map_option (\<lambda>cs. c # cs) (digits_loop room x base) else Some [c])"

definition printint :: "u32 \<Rightarrow> u32 \<Rightarrow> bool \<Rightarrow> string option" where
  "printint i base sign =
     (let neg = sign \<and> i <s 0;
          x = (if neg then - i else i)
      in do {
        buf \<leftarrow> digits_loop 16 x base;
        if neg then (if length buf < 16 then Some (rev (buf @ ''-'')) else None) else Some (rev buf)
      })"

primrec printptr_loop :: "nat \<Rightarrow> u64 \<Rightarrow> string" where
  "printptr_loop 0 x = []"
| "printptr_loop (Suc n) x = digits ! unat (drop_bit 60 x) # printptr_loop n (push_bit 4 x)"

definition printptr :: "u64 \<Rightarrow> string" where
  "printptr x = ''0x'' @ printptr_loop 16 x"

text \<open>The variable arguments; taking one of another type than the format says has no defined result.\<close>

datatype arg = AInt u32 | APtr u64 | AStr "string option"

fun printf_loop :: "string \<Rightarrow> arg list \<Rightarrow> string option" where
  "printf_loop [] args = Some []"
| "printf_loop (c # fmt) args =
     (if c \<noteq> CHR ''%'' then map_option (\<lambda>r. c # r) (printf_loop fmt args)
      else case fmt of
        [] \<Rightarrow> Some []
      | d # fmt' \<Rightarrow>
          if d = CHR ''d'' then
            (case args of AInt i # args' \<Rightarrow> do { o1 \<leftarrow> printint i 10 True; o2 \<leftarrow> printf_loop fmt' args'; Some (o1 @ o2) }
             | _ \<Rightarrow> None)
          else if d = CHR ''x'' then
            (case args of AInt i # args' \<Rightarrow> do { o1 \<leftarrow> printint i 16 True; o2 \<leftarrow> printf_loop fmt' args'; Some (o1 @ o2) }
             | _ \<Rightarrow> None)
          else if d = CHR ''p'' then
            (case args of APtr x # args' \<Rightarrow> do { o2 \<leftarrow> printf_loop fmt' args'; Some (printptr x @ o2) } | _ \<Rightarrow> None)
          else if d = CHR ''s'' then
            (case args of
               AStr str # args' \<Rightarrow>
                 do { o2 \<leftarrow> printf_loop fmt' args'; Some ((case str of None \<Rightarrow> ''(null)'' | Some x \<Rightarrow> x) @ o2) }
             | _ \<Rightarrow> None)
          else if d = CHR ''%'' then map_option (\<lambda>r. CHR ''%'' # r) (printf_loop fmt' args)
          else map_option (\<lambda>r. CHR ''%'' # d # r) (printf_loop fmt' args))"

definition printf :: "string \<Rightarrow> arg list \<Rightarrow> 'a fs_scheme \<Rightarrow> 'a fs_scheme option" where
  "printf fmt args s = do { out \<leftarrow> printf_loop fmt args; Some (kprint out s) }"

definition state_name :: "procstate \<Rightarrow> string" where
  "state_name st =
     (case st of UNUSED \<Rightarrow> ''unused'' | USED \<Rightarrow> ''used'' | SLEEPING \<Rightarrow> ''sleep '' | RUNNABLE \<Rightarrow> ''runble''
      | RUNNING \<Rightarrow> ''run   '' | ZOMBIE \<Rightarrow> ''zombie'')"

definition c_string :: "u8 list \<Rightarrow> string" where
  "c_string bs = map (\<lambda>c. char_of (unat c)) (takeWhile (\<lambda>c. c \<noteq> 0) bs)"

primrec procdump_loop :: "nat \<Rightarrow> nat \<Rightarrow> 'a kern_scheme \<Rightarrow> 'a kern_scheme option" where
  "procdump_loop 0 p s = Some s"
| "procdump_loop (Suc n) p s =
     (if state (procs s p) = UNUSED then procdump_loop n (Suc p) s
      else do {
        s \<leftarrow> printf ''%d %s %s'' [AInt (of_int (pid (procs s p))), AStr (Some (state_name (state (procs s p)))),
               AStr (Some (c_string (pname (procs s p))))] s;
        s \<leftarrow> printf newline [] s;
        procdump_loop n (Suc p) s
      })"

definition procdump :: "'a kern_scheme \<Rightarrow> 'a kern_scheme option" where
  "procdump s = do { s \<leftarrow> printf newline [] s; procdump_loop NPROC 0 s }"

section \<open>The UART\<close>

abbreviation (input) UART_TX_BUF_SIZE :: nat where "UART_TX_BUF_SIZE \<equiv> 32"

definition upd_uart :: "(uart \<Rightarrow> uart) \<Rightarrow> 'a kern_scheme \<Rightarrow> 'a kern_scheme" where
  "upd_uart f s = s\<lparr>uart := f (uart s)\<rparr>"

text \<open>\<^verbatim>\<open>uart_send\<close>; the argument of its loop is how often the device still reports that it is idle.\<close>

primrec uart_send_loop :: "nat \<Rightarrow> 'a kern_scheme \<Rightarrow> 'a kern_scheme" where
  "uart_send_loop 0 s = s"
| "uart_send_loop (Suc n) s =
     (if tx_write (uart s) \<noteq> tx_read (uart s) then
        let s = wakeup ChanUart s;
            u = uart s;
            c = tx_buf u ! unat (tx_read u mod of_nat UART_TX_BUF_SIZE);
            s = s\<lparr>uart_out := uart_out s @ [c], uart := u\<lparr>tx_read := tx_read u + 1, tx_ready := n\<rparr>\<rparr>
        in uart_send_loop n s
      else s)"

definition uart_send :: "'a kern_scheme \<Rightarrow> 'a kern_scheme" where
  "uart_send s = uart_send_loop (tx_ready (uart s)) s"

text \<open>\<^verbatim>\<open>uart_put\<close> by process \<open>p\<close>: whether it returned, or went to sleep because the buffer is full.\<close>

definition uart_put :: "nat \<Rightarrow> u8 \<Rightarrow> 'a kern_scheme \<Rightarrow> bool \<times> 'a kern_scheme" where
  "uart_put p c s =
     (let u = uart s
      in if tx_write u = tx_read u + of_nat UART_TX_BUF_SIZE then (False, sleep_enter p ChanUart s)
         else (True, uart_send (s\<lparr>uart :=
           u\<lparr>tx_buf := (tx_buf u)[unat (tx_write u mod of_nat UART_TX_BUF_SIZE) := c], tx_write := tx_write u + 1\<rparr>\<rparr>)))"

definition uart_put_nosleep :: "u8 \<Rightarrow> 'a fs_scheme \<Rightarrow> 'a fs_scheme" where
  "uart_put_nosleep c s = s\<lparr>uart_out := uart_out s @ [c]\<rparr>"

definition uart_read_next_byte :: "'a kern_scheme \<Rightarrow> u8 option \<times> 'a kern_scheme" where
  "uart_read_next_byte s =
     (case rx_bytes (uart s) of
        [] \<Rightarrow> (None, s)
      | c # cs \<Rightarrow> (Some c, upd_uart (\<lambda>u. u\<lparr>rx_bytes := cs\<rparr>) s))"

section \<open>The console\<close>

abbreviation (input) INPUT_BUF_SIZE :: nat where "INPUT_BUF_SIZE \<equiv> 1024"

text \<open>\<^verbatim>\<open>console_put\<close>; \<open>None\<close> is the special code \<^verbatim>\<open>BACKSPACE\<close>.\<close>

definition console_put :: "u8 option \<Rightarrow> 'a fs_scheme \<Rightarrow> 'a fs_scheme" where
  "console_put c s =
     (case c of
        None \<Rightarrow> uart_put_nosleep 8 (uart_put_nosleep 32 (uart_put_nosleep 8 s))
      | Some c \<Rightarrow> uart_put_nosleep c s)"

text \<open>\<^verbatim>\<open>console_write\<close> with \<open>k\<close> of its \<open>n\<close> bytes left to write, from byte \<open>i\<close> on.\<close>

primrec console_write_from :: "nat \<Rightarrow> nat \<Rightarrow> nat \<Rightarrow> u64 \<Rightarrow> 'a kern_scheme \<Rightarrow> (outcome \<times> 'a kern_scheme) option" where
  "console_write_from 0 i p src s = Some (Returns (int i), s)"
| "console_write_from (Suc k) i p src s =
     do {
       ((r, bs), s) \<leftarrow> on_mem (copy_from_user (pagetable (procs s p)) (src + of_nat i) 1) s;
       if r \<noteq> 0 then Some (Returns (int i), s)
       else let (ok, s) = uart_put p (hd bs) s
            in if ok then console_write_from k (Suc i) p src s else Some (Blocks i, s)
     }"

definition console_write :: "nat \<Rightarrow> u64 \<Rightarrow> int \<Rightarrow> 'a kern_scheme \<Rightarrow> (outcome \<times> 'a kern_scheme) option" where
  "console_write p src n s = console_write_from (nat n) 0 p src s"

text \<open>\<^verbatim>\<open>console_read\<close> with \<open>k\<close> of its \<open>n\<close> bytes left to read, from byte \<open>i\<close> on.\<close>

primrec console_read_from :: "nat \<Rightarrow> nat \<Rightarrow> nat \<Rightarrow> u64 \<Rightarrow> 'a kern_scheme \<Rightarrow> (outcome \<times> 'a kern_scheme) option" where
  "console_read_from 0 i p dst s = Some (Returns (int i), s)"
| "console_read_from (Suc k) i p dst s =
     (if read_index (cons s) = write_index (cons s) then
        if killed p s then Some (Returns (- 1), s) else Some (Blocks i, sleep_enter p ChanConsole s)
      else let c = cbuf (cons s) ! unat (read_index (cons s) mod of_nat INPUT_BUF_SIZE);
               s = s\<lparr>cons := (cons s)\<lparr>read_index := read_index (cons s) + 1\<rparr>\<rparr>
           in do {
             (r, s) \<leftarrow> on_mem (copy_to_user (pagetable (procs s p)) (dst + of_nat i) [c]) s;
             if r = - 1 then Some (Returns (int i), s)
             else if c = 10 then Some (Returns (int i + 1), s)
             else console_read_from k (Suc i) p dst s
           })"

definition console_read :: "nat \<Rightarrow> u64 \<Rightarrow> int \<Rightarrow> 'a kern_scheme \<Rightarrow> (outcome \<times> 'a kern_scheme) option" where
  "console_read p dst n s = console_read_from (nat n) 0 p dst s"

definition console_handle_irq :: "u8 \<Rightarrow> 'a kern_scheme \<Rightarrow> 'a kern_scheme option" where
  "console_handle_irq c s =
     (if c = 16 then procdump s
      else if c = 0x7f then
        Some (if edit_index (cons s) \<noteq> write_index (cons s) then
                console_put None (s\<lparr>cons := (cons s)\<lparr>edit_index := edit_index (cons s) - 1\<rparr>\<rparr>)
              else s)
      else if c \<noteq> 0 \<and> edit_index (cons s) - read_index (cons s) < of_nat INPUT_BUF_SIZE then
        let c = (if c = 13 then 10 else c);
            s = console_put (Some c) s;
            t = cons s;
            t = t\<lparr>cbuf := (cbuf t)[unat (edit_index t mod of_nat INPUT_BUF_SIZE) := c], edit_index := edit_index t + 1\<rparr>;
            s = s\<lparr>cons := t\<rparr>
        in Some (if c = 10 \<or> edit_index t - read_index t = of_nat INPUT_BUF_SIZE then
                   wakeup ChanConsole (s\<lparr>cons := t\<lparr>write_index := edit_index t\<rparr>\<rparr>)
                 else s)
      else Some s)"

text \<open>\<^verbatim>\<open>uart_handle_irq\<close>; its loop runs once for every byte that has arrived.\<close>

primrec uart_irq_loop :: "nat \<Rightarrow> 'a kern_scheme \<Rightarrow> 'a kern_scheme option" where
  "uart_irq_loop 0 s = Some s"
| "uart_irq_loop (Suc n) s =
     (case uart_read_next_byte s of
        (None, s) \<Rightarrow> Some s
      | (Some c, s) \<Rightarrow> do { s \<leftarrow> console_handle_irq c s; uart_irq_loop n s })"

definition uart_handle_irq :: "'a kern_scheme \<Rightarrow> 'a kern_scheme option" where
  "uart_handle_irq s = do { s \<leftarrow> uart_irq_loop (length (rx_bytes (uart s))) s; Some (uart_send s) }"

end
