(* ===== verification/File.thy ===== *)
theory File
  imports Pipe Console
begin

text \<open>
  Open files, \<^verbatim>\<open>kernel/file.c\<close>, and \<^verbatim>\<open>pipealloc\<close> of \<^verbatim>\<open>pipe.c\<close>.  The table \<^verbatim>\<open>devsw\<close> has one entry, the
  console, under major number 1.
\<close>

abbreviation (input) CONSOLE :: u16 where "CONSOLE \<equiv> 1"

primrec file_scan :: "nat \<Rightarrow> nat \<Rightarrow> (nat \<Rightarrow> file_struct) \<Rightarrow> nat option" where
  "file_scan 0 f t = None"
| "file_scan (Suc n) f t = (if fref (t f) = 0 then Some f else file_scan n (Suc f) t)"

definition file_alloc :: "'a kern_scheme \<Rightarrow> nat option \<times> 'a kern_scheme" where
  "file_alloc s =
     (case file_scan NFILE 0 (files s) of
        None \<Rightarrow> (None, s)
      | Some f \<Rightarrow> (Some f, upd_file f (\<lambda>x. x\<lparr>fref := 1\<rparr>) s))"

definition file_dup :: "nat \<Rightarrow> 'a kern_scheme \<Rightarrow> nat \<times> 'a kern_scheme" where
  "file_dup f s = (f, upd_file f (\<lambda>x. x\<lparr>fref := fref x + 1\<rparr>) s)"

definition file_close :: "u64 \<Rightarrow> nat \<Rightarrow> 'a kern_scheme \<Rightarrow> 'a kern_scheme option" where
  "file_close kend f s =
     (let s = upd_file f (\<lambda>x. x\<lparr>fref := fref x - 1\<rparr>) s
      in if 0 < fref (files s f) then Some s
         else let ff = files s f;
                  s = upd_file f (\<lambda>x. x\<lparr>fref := 0, ftype := FD_NONE\<rparr>) s
              in if ftype ff = FD_PIPE then pipeclose kend (fpipe ff) (writable ff) s
                 else if ftype ff = FD_INODE \<or> ftype ff = FD_DEVICE then do {
                   s \<leftarrow> begin_op s;
                   s \<leftarrow> iput (fip ff) s;
                   end_op s
                 } else Some s)"

text \<open>
  \<^verbatim>\<open>pipealloc\<close>.  The label \<^verbatim>\<open>bad\<close> is reached with the page, if any, and the files that were allocated.
\<close>

definition close_opt :: "u64 \<Rightarrow> nat option \<Rightarrow> 'a kern_scheme \<Rightarrow> 'a kern_scheme option" where
  "close_opt kend f s = (case f of None \<Rightarrow> Some s | Some f \<Rightarrow> file_close kend f s)"

definition pipealloc_bad :: "u64 \<Rightarrow> u64 \<Rightarrow> nat option \<Rightarrow> nat option \<Rightarrow> 'a kern_scheme \<Rightarrow> 'a kern_scheme option" where
  "pipealloc_bad kend pi f0 f1 s =
     do {
       s \<leftarrow> (if pi \<noteq> 0 then do_mem (kfree kend pi) s else Some s);
       s \<leftarrow> close_opt kend f0 s;
       close_opt kend f1 s
     }"

definition new_pipe :: "pipe \<Rightarrow> pipe" where
  "new_pipe x = x\<lparr>readopen := True, writeopen := True, nwrite := 0, nread := 0\<rparr>"

definition pipealloc :: "u64 \<Rightarrow> 'a kern_scheme \<Rightarrow> ((nat \<times> nat) option \<times> 'a kern_scheme) option" where
  "pipealloc kend s =
     (let (f0, s) = file_alloc s;
          (f1, s) = (if f0 = None then (None, s) else file_alloc s)
      in case (f0, f1) of
           (Some a, Some b) \<Rightarrow> do {
             (pi, s) \<leftarrow> on_mem kalloc s;
             if pi = 0 then do { s \<leftarrow> pipealloc_bad kend 0 f0 f1 s; Some (None, s) }
             else Some (Some (a, b),
               upd_file b (\<lambda>x. x\<lparr>ftype := FD_PIPE, readable := False, writable := True, fpipe := pi\<rparr>)
                 (upd_file a (\<lambda>x. x\<lparr>ftype := FD_PIPE, readable := True, writable := False, fpipe := pi\<rparr>)
                   (s\<lparr>pipes := (pipes s)(pi := new_pipe \<lparr>pdata = replicate PIPESIZE 0, nread = 0, nwrite = 0,
                       readopen = False, writeopen = False\<rparr>)\<rparr>)))
           }
         | _ \<Rightarrow> do { s \<leftarrow> pipealloc_bad kend 0 f0 f1 s; Some (None, s) })"

text \<open>\<^verbatim>\<open>struct status\<close>: device, inode number, type, link count, four bytes of padding and the size.\<close>

definition status_bytes :: "u8 list \<Rightarrow> status \<Rightarrow> u8 list" where
  "status_bytes pad st =
     le_bytes 4 (st_dev st) @ le_bytes 4 (st_ino st) @ le_bytes 2 (st_type st) @ le_bytes 2 (st_nlink st) @
     pad @ le_bytes 8 (st_size st)"

definition file_status :: "u8 list \<Rightarrow> nat \<Rightarrow> nat \<Rightarrow> u64 \<Rightarrow> 'a kern_scheme \<Rightarrow> (int \<times> 'a kern_scheme) option" where
  "file_status pad p f addr s =
     (if ftype (files s f) = FD_INODE \<or> ftype (files s f) = FD_DEVICE then do {
        s \<leftarrow> ilock (fip (files s f)) s;
        let st = stati (fip (files s f)) s;
        s \<leftarrow> iunlock (fip (files s f)) s;
        (r, s) \<leftarrow> on_mem (copy_to_user (pagetable (procs s p)) addr (status_bytes pad st)) s;
        Some (if r < 0 then - 1 else 0, s)
      } else Some (- 1, s))"

definition bad_major :: "u16 \<Rightarrow> bool" where
  "bad_major m \<longleftrightarrow> m <s 0 \<or> \<not> m <s of_nat NDEV"

definition fileread :: "nat \<Rightarrow> nat \<Rightarrow> u64 \<Rightarrow> int \<Rightarrow> 'a kern_scheme \<Rightarrow> (outcome \<times> 'a kern_scheme) option" where
  "fileread p f addr n s =
     (if \<not> readable (files s f) then Some (Returns (- 1), s)
      else case ftype (files s f) of
        FD_PIPE \<Rightarrow> piperead p (fpipe (files s f)) addr n s
      | FD_DEVICE \<Rightarrow>
          if bad_major (fmajor (files s f)) \<or> fmajor (files s f) \<noteq> CONSOLE then Some (Returns (- 1), s)
          else console_read p addr n s
      | FD_INODE \<Rightarrow> do {
          s \<leftarrow> ilock (fip (files s f)) s;
          (r, _, s) \<leftarrow> readi (fip (files s f)) (User (pagetable (procs s p)) addr) (foff (files s f)) (of_int n) [] s;
          let s = (if 0 < r then upd_file f (\<lambda>x. x\<lparr>foff := foff x + of_int r\<rparr>) s else s);
          s \<leftarrow> iunlock (fip (files s f)) s;
          Some (Returns r, s)
        }
      | FD_NONE \<Rightarrow> panic ''fileread'')"

text \<open>
  \<^verbatim>\<open>filewrite\<close> to an inode: each turn is one transaction of at most 3072 bytes, and moves at least one
  byte or is the last; the first argument counts the turns down.
\<close>

abbreviation (input) MAXWRITE :: int where "MAXWRITE \<equiv> int ((MAXOPBLOCKS - 1 - 1 - 2) div 2 * BSIZE)"

primrec filewrite_loop :: "nat \<Rightarrow> int \<Rightarrow> nat \<Rightarrow> nat \<Rightarrow> u64 \<Rightarrow> int \<Rightarrow> 'a kern_scheme \<Rightarrow> (int \<times> 'a kern_scheme) option" where
  "filewrite_loop 0 i p f addr n s = (if i < n then None else Some (if i = n then n else - 1, s))"
| "filewrite_loop (Suc fuel) i p f addr n s =
     (if i < n then do {
        let n1 = min (n - i) MAXWRITE;
        s \<leftarrow> begin_op s;
        s \<leftarrow> ilock (fip (files s f)) s;
        (r, s) \<leftarrow> writei (fip (files s f)) (User (pagetable (procs s p)) (addr + of_int i)) (foff (files s f))
                   (of_int n1) [] s;
        let s = (if 0 < r then upd_file f (\<lambda>x. x\<lparr>foff := foff x + of_int r\<rparr>) s else s);
        s \<leftarrow> iunlock (fip (files s f)) s;
        s \<leftarrow> end_op s;
        if r \<noteq> n1 then Some (if i = n then n else - 1, s)
        else filewrite_loop fuel (i + r) p f addr n s
      } else Some (if i = n then n else - 1, s))"

definition filewrite :: "nat \<Rightarrow> nat \<Rightarrow> u64 \<Rightarrow> int \<Rightarrow> 'a kern_scheme \<Rightarrow> (outcome \<times> 'a kern_scheme) option" where
  "filewrite p f addr n s =
     (if \<not> writable (files s f) then Some (Returns (- 1), s)
      else case ftype (files s f) of
        FD_PIPE \<Rightarrow> pipewrite p (fpipe (files s f)) addr n s
      | FD_DEVICE \<Rightarrow>
          if bad_major (fmajor (files s f)) \<or> fmajor (files s f) \<noteq> CONSOLE then Some (Returns (- 1), s)
          else console_write p addr n s
      | FD_INODE \<Rightarrow> do {
          (r, s) \<leftarrow> filewrite_loop (nat n) 0 p f addr n s;
          Some (Returns r, s)
        }
      | FD_NONE \<Rightarrow> panic ''filewrite'')"

end
