(* ===== verification/Proc.thy ===== *)
theory Proc
  imports File
begin

text \<open>
  Processes, \<^verbatim>\<open>kernel/proc.c\<close>: allocation and release of process slots, \<^verbatim>\<open>fork\<close>, \<^verbatim>\<open>exit\<close>, \<^verbatim>\<open>wait\<close>, and the
  lottery scheduler with its random numbers (\<^verbatim>\<open>rand.h\<close>).  A slot of the table is its index.  The spin
  locks of the slots make every body here one step.
\<close>

section \<open>The process table\<close>

primrec proc_init_loop :: "nat \<Rightarrow> nat \<Rightarrow> 'a kern_scheme \<Rightarrow> 'a kern_scheme" where
  "proc_init_loop 0 p s = s"
| "proc_init_loop (Suc n) p s =
     proc_init_loop n (Suc p) (upd_proc p (\<lambda>x. x\<lparr>state := UNUSED, kstack := KSTACK p\<rparr>) s)"

definition proc_init :: "'a kern_scheme \<Rightarrow> 'a kern_scheme" where
  "proc_init s = proc_init_loop NPROC 0 s"

definition allocpid :: "'a kern_scheme \<Rightarrow> int \<times> 'a kern_scheme" where
  "allocpid s = (nextpid s, s\<lparr>nextpid := nextpid s + 1\<rparr>)"

section \<open>Page tables of processes\<close>

definition proc_pagetable :: "symbols \<Rightarrow> nat \<Rightarrow> 'a kern_scheme \<Rightarrow> (u64 \<times> 'a kern_scheme) option" where
  "proc_pagetable y p s =
     do {
       (pt, s) \<leftarrow> on_mem kalloc s;
       if pt = 0 then Some (0, s)
       else do {
         (r, s) \<leftarrow> on_mem (mappages pt TRAMPOLINE PGSIZE (sym_trampoline y) (ucast (PTE_R OR PTE_X))) s;
         if r < 0 then do {
           s \<leftarrow> do_mem (uvm_free (sym_end y) pt 0) s;
           Some (0, s)
         } else do {
           (r, s) \<leftarrow> on_mem (mappages pt TRAPFRAME PGSIZE (trapframe (procs s p)) (ucast (PTE_R OR PTE_W))) s;
           if r < 0 then do {
             s \<leftarrow> do_mem (uvm_unmap (sym_end y) pt TRAMPOLINE 1 False) s;
             s \<leftarrow> do_mem (uvm_free (sym_end y) pt 0) s;
             Some (0, s)
           } else Some (pt, s)
         }
       }
     }"

definition proc_freepagetable :: "symbols \<Rightarrow> u64 \<Rightarrow> u64 \<Rightarrow> 'a kern_scheme \<Rightarrow> 'a kern_scheme option" where
  "proc_freepagetable y pt n s =
     do {
       s \<leftarrow> do_mem (uvm_unmap (sym_end y) pt TRAMPOLINE 1 False) s;
       s \<leftarrow> do_mem (uvm_unmap (sym_end y) pt TRAPFRAME 1 False) s;
       do_mem (uvm_free (sym_end y) pt n) s
     }"

definition cleared :: "proc \<Rightarrow> proc" where
  "cleared x = x\<lparr>trapframe := 0, pagetable := 0, sz := 0, pid := 0, parent := None, pname := (pname x)[0 := 0],
     channel := None, pkilled := False, xstate := 0, state := UNUSED\<rparr>"

definition freeproc :: "symbols \<Rightarrow> nat \<Rightarrow> 'a kern_scheme \<Rightarrow> 'a kern_scheme option" where
  "freeproc y p s =
     do {
       s \<leftarrow> (if trapframe (procs s p) \<noteq> 0 then do_mem (kfree (sym_end y) (trapframe (procs s p))) s else Some s);
       s \<leftarrow> (if pagetable (procs s p) \<noteq> 0 then proc_freepagetable y (pagetable (procs s p)) (sz (procs s p)) s
            else Some s);
       Some (upd_proc p cleared s)
     }"

primrec find_unused_proc :: "nat \<Rightarrow> nat \<Rightarrow> (nat \<Rightarrow> proc) \<Rightarrow> nat option" where
  "find_unused_proc 0 p t = None"
| "find_unused_proc (Suc n) p t = (if state (t p) = UNUSED then Some p else find_unused_proc n (Suc p) t)"

definition first_context :: "symbols \<Rightarrow> u64 \<Rightarrow> swtch_context" where
  "first_context y stack = \<lparr>ctx_ra = sym_forkret y, ctx_sp = stack + PGSIZE, ctx_s = replicate 12 0\<rparr>"

definition allocproc :: "symbols \<Rightarrow> 'a kern_scheme \<Rightarrow> (nat option \<times> 'a kern_scheme) option" where
  "allocproc y s =
     (case find_unused_proc NPROC 0 (procs s) of
        None \<Rightarrow> Some (None, s)
      | Some p \<Rightarrow>
          let (i, s) = allocpid s;
              s = upd_proc p (\<lambda>x. x\<lparr>pid := i, state := USED\<rparr>) s
          in do {
            (tf, s) \<leftarrow> on_mem kalloc s;
            let s = upd_proc p (\<lambda>x. x\<lparr>trapframe := tf\<rparr>) s;
            if tf = 0 then do { s \<leftarrow> freeproc y p s; Some (None, s) }
            else do {
              (pt, s) \<leftarrow> proc_pagetable y p s;
              let s = upd_proc p (\<lambda>x. x\<lparr>pagetable := pt\<rparr>) s;
              if pt = 0 then do { s \<leftarrow> freeproc y p s; Some (None, s) }
              else Some (Some p, upd_proc p (\<lambda>x. x\<lparr>pcontext := first_context y (kstack x), pticks := 0,
                     alarmhandler := 0, tickets := 1\<rparr>) s)
            }
          })"

definition initcode :: "u8 list" where
  "initcode =
     [0x17, 0x05, 0x00, 0x00, 0x13, 0x05, 0x45, 0x02,
      0x97, 0x05, 0x00, 0x00, 0x93, 0x85, 0x35, 0x02,
      0x93, 0x08, 0x70, 0x00, 0x73, 0x00, 0x00, 0x00,
      0x93, 0x08, 0x20, 0x00, 0x73, 0x00, 0x00, 0x00,
      0xef, 0xf0, 0x9f, 0xff, 0x2f, 0x69, 0x6e, 0x69,
      0x74, 0x00, 0x00, 0x24, 0x00, 0x00, 0x00, 0x00,
      0x00, 0x00, 0x00, 0x00]"

text \<open>\<^verbatim>\<open>safestrcpy\<close> into the 16 bytes of a process name.\<close>

definition set_name :: "u8 list \<Rightarrow> u8 list \<Rightarrow> u8 list" where
  "set_name new old = map (safestrcpy (0 :: nat) (0 :: nat) (arr new) 16 (arr old)) [0..<16]"

definition user_init :: "symbols \<Rightarrow> 'a kern_scheme \<Rightarrow> 'a kern_scheme option" where
  "user_init y s =
     do {
       (np, s) \<leftarrow> allocproc y s;
       let s = s\<lparr>initproc := np\<rparr>;
       p \<leftarrow> np;
       s \<leftarrow> do_mem (uvm_first (pagetable (procs s p)) initcode) s;
       let s = upd_proc p (\<lambda>x. x\<lparr>sz := PGSIZE\<rparr>) s;
       let s = tf_put p TF_SP PGSIZE (tf_put p TF_EPC 0 s);
       let s = upd_proc p (\<lambda>x. x\<lparr>pname := set_name (map of_char ''initcode'') (pname x)\<rparr>) s;
       (ip, s) \<leftarrow> namei 0 [SLASH] s;
       Some (upd_proc p (\<lambda>x. x\<lparr>cwd := ip, state := RUNNABLE\<rparr>) s)
     }"

definition growproc :: "symbols \<Rightarrow> nat \<Rightarrow> int \<Rightarrow> 'a kern_scheme \<Rightarrow> (int \<times> 'a kern_scheme) option" where
  "growproc y p n s =
     (let size = sz (procs s p)
      in if 0 < n then do {
           (size, s) \<leftarrow> on_mem (uvm_alloc (sym_end y) (pagetable (procs s p)) size (size + of_int n) (ucast PTE_W)) s;
           if size = 0 then Some (- 1, s) else Some (0, upd_proc p (\<lambda>x. x\<lparr>sz := size\<rparr>) s)
         } else if n < 0 then do {
           (size, s) \<leftarrow> on_mem (uvm_dealloc (sym_end y) (pagetable (procs s p)) size (size + of_int n)) s;
           Some (0, upd_proc p (\<lambda>x. x\<lparr>sz := size\<rparr>) s)
         } else Some (0, s))"

section \<open>fork, exit and wait\<close>

primrec fork_files :: "nat \<Rightarrow> nat \<Rightarrow> nat \<Rightarrow> nat \<Rightarrow> 'a kern_scheme \<Rightarrow> 'a kern_scheme" where
  "fork_files 0 i p np s = s"
| "fork_files (Suc n) i p np s =
     fork_files n (Suc i) p np
       (case ofile (procs s p) ! i of
          None \<Rightarrow> s
        | Some f \<Rightarrow> let (f, s) = file_dup f s in upd_proc np (\<lambda>x. x\<lparr>ofile := (ofile x)[i := Some f]\<rparr>) s)"

definition copy_trapframe :: "nat \<Rightarrow> nat \<Rightarrow> 'a kern_scheme \<Rightarrow> 'a kern_scheme" where
  "copy_trapframe np p s =
     s\<lparr>km := (km s)\<lparr>pmem := st_bytes (trapframe (procs s np)) (ld_bytes (pmem (km s)) (trapframe (procs s p)) TF_SIZE)
         (pmem (km s))\<rparr>\<rparr>"

definition fork :: "symbols \<Rightarrow> nat \<Rightarrow> 'a kern_scheme \<Rightarrow> (int \<times> 'a kern_scheme) option" where
  "fork y p s =
     do {
       (np, s) \<leftarrow> allocproc y s;
       case np of
         None \<Rightarrow> Some (- 1, s)
       | Some np \<Rightarrow> do {
           (r, s) \<leftarrow> on_mem (uvm_copy (sym_end y) (pagetable (procs s p)) (pagetable (procs s np)) (sz (procs s p))) s;
           if r < 0 then do { s \<leftarrow> freeproc y np s; Some (- 1, s) }
           else do {
             let s = upd_proc np (\<lambda>x. x\<lparr>sz := sz (procs s p), tickets := tickets (procs s p)\<rparr>) s;
             let s = tf_put np TF_A0 0 (copy_trapframe np p s);
             let s = fork_files NOFILE 0 p np s;
             dir \<leftarrow> cwd (procs s p);
             let (dir, s) = idup dir s;
             let s = upd_proc np (\<lambda>x. x\<lparr>cwd := Some dir, pname := set_name (pname (procs s p)) (pname x)\<rparr>) s;
             let s = upd_proc np (\<lambda>x. x\<lparr>parent := Some p, state := RUNNABLE\<rparr>) s;
             Some (pid (procs s np), s)
           }
         }
     }"

primrec reparent_loop :: "nat \<Rightarrow> nat \<Rightarrow> nat \<Rightarrow> nat \<Rightarrow> 'a kern_scheme \<Rightarrow> 'a kern_scheme" where
  "reparent_loop 0 pp p init s = s"
| "reparent_loop (Suc n) pp p init s =
     reparent_loop n (Suc pp) p init
       (if parent (procs s pp) = Some p then wakeup (ChanProc init) (upd_proc pp (\<lambda>x. x\<lparr>parent := Some init\<rparr>) s)
        else s)"

definition reparent :: "nat \<Rightarrow> 'a kern_scheme \<Rightarrow> 'a kern_scheme option" where
  "reparent p s = do { init \<leftarrow> initproc s; Some (reparent_loop NPROC 0 p init s) }"

primrec exit_files :: "nat \<Rightarrow> nat \<Rightarrow> u64 \<Rightarrow> nat \<Rightarrow> 'a kern_scheme \<Rightarrow> 'a kern_scheme option" where
  "exit_files 0 fd kend p s = Some s"
| "exit_files (Suc n) fd kend p s =
     do {
       s \<leftarrow> (case ofile (procs s p) ! fd of
              None \<Rightarrow> Some s
            | Some f \<Rightarrow> do {
                s \<leftarrow> file_close kend f s;
                Some (upd_proc p (\<lambda>x. x\<lparr>ofile := (ofile x)[fd := None]\<rparr>) s)
              });
       exit_files n (Suc fd) kend p s
     }"

text \<open>\<^verbatim>\<open>exit\<close> does not return: the result is the state in which it switches to the scheduler.\<close>

definition exit :: "symbols \<Rightarrow> nat \<Rightarrow> u32 \<Rightarrow> 'a kern_scheme \<Rightarrow> 'a kern_scheme option" where
  "exit y p status s =
     (if initproc s = Some p then panic ''init exiting''
      else do {
        s \<leftarrow> exit_files NOFILE 0 (sym_end y) p s;
        s \<leftarrow> begin_op s;
        dir \<leftarrow> cwd (procs s p);
        s \<leftarrow> iput dir s;
        s \<leftarrow> end_op s;
        let s = upd_proc p (\<lambda>x. x\<lparr>cwd := None\<rparr>) s;
        s \<leftarrow> reparent p s;
        let s = (case parent (procs s p) of None \<Rightarrow> s | Some q \<Rightarrow> wakeup (ChanProc q) s);
        Some (upd_proc p (\<lambda>x. x\<lparr>xstate := status, state := ZOMBIE\<rparr>) s)
      })"

text \<open>The scan of \<^verbatim>\<open>wait\<close>: the first child that has exited, and whether a child was seen before it.\<close>

primrec wait_scan :: "nat \<Rightarrow> nat \<Rightarrow> nat \<Rightarrow> bool \<Rightarrow> (nat \<Rightarrow> proc) \<Rightarrow> nat option \<times> bool" where
  "wait_scan 0 pp p havekids t = (None, havekids)"
| "wait_scan (Suc n) pp p havekids t =
     (if parent (t pp) = Some p then
        if state (t pp) = ZOMBIE then (Some pp, True) else wait_scan n (Suc pp) p True t
      else wait_scan n (Suc pp) p havekids t)"

definition wait :: "symbols \<Rightarrow> nat \<Rightarrow> u64 \<Rightarrow> 'a kern_scheme \<Rightarrow> (outcome \<times> 'a kern_scheme) option" where
  "wait y p addr s =
     (case wait_scan NPROC 0 p False (procs s) of
        (Some pp, _) \<Rightarrow>
          let i = pid (procs s pp)
          in do {
            (r, s) \<leftarrow> (if addr \<noteq> 0 then on_mem (copy_to_user (pagetable (procs s p)) addr (le_bytes 4 (xstate (procs s pp)))) s
                      else Some (0, s));
            if r < 0 then Some (Returns (- 1), s)
            else do { s \<leftarrow> freeproc y pp s; Some (Returns i, s) }
          }
      | (None, havekids) \<Rightarrow>
          if \<not> havekids \<or> killed p s then Some (Returns (- 1), s)
          else Some (Blocks 0, sleep_enter p (ChanProc p) s))"

section \<open>Scheduling\<close>

definition rand :: "'a kern_scheme \<Rightarrow> u16 \<times> 'a kern_scheme" where
  "rand s =
     (let l = lfsr s;
          b = (l XOR drop_bit 2 l XOR drop_bit 3 l XOR drop_bit 5 l) AND 1;
          l = drop_bit 1 l OR push_bit 15 b
      in (l, s\<lparr>lfsr := l\<rparr>))"

text \<open>
  One round of \<^verbatim>\<open>scheduler\<close>.  The running total and the array \<^verbatim>\<open>tickets\<close> are variables of the endless
  loop: they come from the round before, and from an uninitialised stack before the first.
\<close>

primrec count_tickets :: "nat \<Rightarrow> nat \<Rightarrow> (nat \<Rightarrow> proc) \<Rightarrow> u64 \<Rightarrow> (nat \<Rightarrow> u32) \<Rightarrow> u64 \<times> (nat \<Rightarrow> u32)" where
  "count_tickets 0 i t tot tk = (tot, tk)"
| "count_tickets (Suc n) i t tot tk =
     (if state (t i) \<noteq> RUNNABLE then count_tickets n (Suc i) t tot tk
      else let tot = tot + of_int (tickets (t i))
           in count_tickets n (Suc i) t tot (tk(i := ucast tot)))"

primrec draw :: "nat \<Rightarrow> nat \<Rightarrow> (nat \<Rightarrow> u32) \<Rightarrow> u64 \<Rightarrow> nat" where
  "draw 0 i tk winner = NPROC - 2"
| "draw (Suc n) i tk winner = (if winner < scast (tk i) then i else draw n (Suc i) tk winner)"

text \<open>A remainder by zero is the dividend, as the machine's \<^verbatim>\<open>remu\<close> instruction gives it.\<close>

definition scheduler_round :: "u64 \<Rightarrow> (nat \<Rightarrow> u32) \<Rightarrow> 'a kern_scheme \<Rightarrow> nat \<times> u64 \<times> (nat \<Rightarrow> u32) \<times> 'a kern_scheme" where
  "scheduler_round tot tk s =
     (let (tot, tk) = count_tickets NPROC 0 (procs s) tot tk;
          (r, s) = rand s;
          winner = ucast r mod tot;
          p = draw NPROC 0 tk winner;
          s = (if state (procs s p) = RUNNABLE
               then (upd_proc p (\<lambda>x. x\<lparr>state := RUNNING\<rparr>) s)\<lparr>cur := Some p, mypid := pid (procs s p)\<rparr> else s)
      in (p, tot, tk, s))"

text \<open>The checks of \<^verbatim>\<open>sched\<close> by the process in slot \<open>p\<close> on CPU \<open>i\<close>, and the flag it restores when it is back on CPU \<open>c'\<close>.\<close>

definition sched :: "nat \<Rightarrow> cpu \<Rightarrow> spinlock \<Rightarrow> procstate \<Rightarrow> cpu \<Rightarrow> cpu option" where
  "sched i c plock st c' =
     (if \<not> holding i plock then panic ''sched p->lock''
      else if noff c \<noteq> 1 then panic ''sched locks''
      else if st = RUNNING then panic ''sched running''
      else if intr c then panic ''sched interruptible''
      else Some (c'\<lparr>intena := intena c\<rparr>))"

definition yield :: "nat \<Rightarrow> 'a kern_scheme \<Rightarrow> 'a kern_scheme" where
  "yield p s = upd_proc p (\<lambda>x. x\<lparr>state := RUNNABLE\<rparr>) s"

section \<open>Process statistics\<close>

definition st32 :: "u64 \<Rightarrow> u32 \<Rightarrow> mem \<Rightarrow> mem" where
  "st32 a v m = st_bytes a (le_bytes 4 v) m"

text \<open>\<^verbatim>\<open>struct pstat\<close> holds three arrays of 64 integers: tickets, pid and ticks.\<close>

primrec procinfo_loop :: "nat \<Rightarrow> nat \<Rightarrow> u64 \<Rightarrow> (nat \<Rightarrow> proc) \<Rightarrow> mem \<Rightarrow> mem" where
  "procinfo_loop 0 p ps t m = m"
| "procinfo_loop (Suc n) p ps t m =
     (let k = of_nat (NPROC - p);
          m = st32 (ps + 4 * k) (of_int (tickets (t p))) m;
          m = st32 (ps + 512 + 4 * k) (of_int (pticks (t p))) m;
          m = st32 (ps + 256 + 4 * k) (of_int (pid (t p))) m
      in procinfo_loop n (Suc p) ps t m)"

definition procinfo :: "u64 \<Rightarrow> 'a kern_scheme \<Rightarrow> 'a kern_scheme" where
  "procinfo ps s = s\<lparr>km := (km s)\<lparr>pmem := procinfo_loop NPROC 0 ps (procs s) (pmem (km s))\<rparr>\<rparr>"

end
