(* ===== verification/Exec.thy ===== *)
theory Exec
  imports Proc
begin

text \<open>
  Loading a program, \<^verbatim>\<open>kernel/exec.c\<close>.  The headers of an ELF file are read at their byte offsets.  The
  label \<^verbatim>\<open>bad\<close> is \<open>exec_bad\<close>.
\<close>

abbreviation (input) ELF_MAGIC :: u32 where "ELF_MAGIC \<equiv> 0x464C457F"
abbreviation (input) ELF_PROG_LOAD :: u32 where "ELF_PROG_LOAD \<equiv> 1"

definition get64 :: "u8 list \<Rightarrow> nat \<Rightarrow> u64" where
  "get64 d k = le_word (get_at k 8 d)"

record elfhdr =
  elf_magic :: u32
  elf_entry :: u64
  elf_phoff :: u64
  elf_phnum :: u16

definition elfhdr_of :: "u8 list \<Rightarrow> elfhdr" where
  "elfhdr_of d = \<lparr>elf_magic = get32 d 0, elf_entry = get64 d 24, elf_phoff = get64 d 32, elf_phnum = get16 d 56\<rparr>"

record proghdr =
  ph_type :: u32
  ph_flags :: u32
  ph_off :: u64
  ph_vaddr :: u64
  ph_filesz :: u64
  ph_memsz :: u64

definition proghdr_of :: "u8 list \<Rightarrow> proghdr" where
  "proghdr_of d = \<lparr>ph_type = get32 d 0, ph_flags = get32 d 4, ph_off = get64 d 8, ph_vaddr = get64 d 16,
     ph_filesz = get64 d 32, ph_memsz = get64 d 40\<rparr>"

definition flags2perm :: "u32 \<Rightarrow> u32" where
  "flags2perm flags =
     (let perm = (if flags AND 1 \<noteq> 0 then ucast PTE_X else 0)
      in if flags AND 2 \<noteq> 0 then perm OR ucast PTE_W else perm)"

text \<open>\<^verbatim>\<open>loadseg\<close>, one page a turn.\<close>

primrec loadseg_loop :: "nat \<Rightarrow> u32 \<Rightarrow> u64 \<Rightarrow> u64 \<Rightarrow> nat \<Rightarrow> u32 \<Rightarrow> u32 \<Rightarrow> 'a kern_scheme \<Rightarrow> (int \<times> 'a kern_scheme) option" where
  "loadseg_loop 0 i pt va ip offset n s = Some (0, s)"
| "loadseg_loop (Suc k) i pt va ip offset n s =
     do {
       (pa, s) \<leftarrow> on_mem (walkaddr pt (va + ucast i)) s;
       if pa = 0 then panic ''loadseg: address should exist''
       else do {
         let m = (if n - i < 4096 then n - i else 4096);
         (r, _, s) \<leftarrow> readi ip (Phys pa) (offset + i) m [] s;
         if r \<noteq> int (unat m) then Some (- 1, s) else loadseg_loop k (i + 4096) pt va ip offset n s
       }
     }"

definition loadseg :: "u64 \<Rightarrow> u64 \<Rightarrow> nat \<Rightarrow> u32 \<Rightarrow> u32 \<Rightarrow> 'a kern_scheme \<Rightarrow> (int \<times> 'a kern_scheme) option" where
  "loadseg pt va ip offset n s = loadseg_loop ((unat n + 4095) div 4096) 0 pt va ip offset n s"

text \<open>The loop over the program headers: whether it reached its end, and the size so far.\<close>

primrec exec_segs :: "nat \<Rightarrow> u32 \<Rightarrow> u64 \<Rightarrow> u64 \<Rightarrow> nat \<Rightarrow> u64 \<Rightarrow> 'a kern_scheme \<Rightarrow> (bool \<times> u64 \<times> 'a kern_scheme) option" where
  "exec_segs 0 off kend pt ip usz s = Some (True, usz, s)"
| "exec_segs (Suc n) off kend pt ip usz s =
     do {
       (r, d, s) \<leftarrow> readi ip (Local 0) off 56 (replicate 56 0) s;
       let ph = proghdr_of d;
       if r \<noteq> 56 then Some (False, usz, s)
       else if ph_type ph \<noteq> ELF_PROG_LOAD then exec_segs n (off + 56) kend pt ip usz s
       else if ph_memsz ph < ph_filesz ph then Some (False, usz, s)
       else if ph_vaddr ph + ph_memsz ph < ph_vaddr ph then Some (False, usz, s)
       else if ph_vaddr ph mod PGSIZE \<noteq> 0 then Some (False, usz, s)
       else do {
         (nsz, s) \<leftarrow> on_mem (uvm_alloc kend pt usz (ph_vaddr ph + ph_memsz ph) (flags2perm (ph_flags ph))) s;
         if nsz = 0 then Some (False, usz, s)
         else do {
           (r, s) \<leftarrow> loadseg pt (ph_vaddr ph) ip (ucast (ph_off ph)) (ucast (ph_filesz ph)) s;
           if r < 0 then Some (False, nsz, s) else exec_segs n (off + 56) kend pt ip nsz s
         }
       }
     }"

text \<open>The loop that pushes the argument strings: the stack pointer and the addresses of the strings.\<close>

definition align16 :: "u64 \<Rightarrow> u64" where
  "align16 sp = sp - sp mod 16"

primrec push_args :: "u8 list list \<Rightarrow> nat \<Rightarrow> u64 \<Rightarrow> u64 \<Rightarrow> u64 \<Rightarrow> 'a kern_scheme \<Rightarrow> ((u64 \<times> u64 list) option \<times> 'a kern_scheme) option" where
  "push_args [] argc sp stackbase pt s = Some (Some (sp, []), s)"
| "push_args (a # argv) argc sp stackbase pt s =
     (if MAXARG \<le> argc then Some (None, s)
      else let sp = align16 (sp - of_nat (length a + 1))
           in if sp < stackbase then Some (None, s)
              else do {
                (r, s) \<leftarrow> on_mem (copy_to_user pt sp (a @ [0])) s;
                if r < 0 then Some (None, s)
                else do {
                  (res, s) \<leftarrow> push_args argv (Suc argc) sp stackbase pt s;
                  Some (map_option (\<lambda>(q, us). (q, sp # us)) res, s)
                }
              })"

definition last_elem :: "u8 list \<Rightarrow> u8 list" where
  "last_elem path = rev (takeWhile (\<lambda>c. c \<noteq> SLASH) (rev path))"

definition exec_bad :: "symbols \<Rightarrow> u64 \<Rightarrow> u64 \<Rightarrow> nat option \<Rightarrow> 'a kern_scheme \<Rightarrow> (int \<times> 'a kern_scheme) option" where
  "exec_bad y pt usz ip s =
     do {
       s \<leftarrow> (if pt \<noteq> 0 then proc_freepagetable y pt usz s else Some s);
       s \<leftarrow> (case ip of None \<Rightarrow> Some s | Some ip \<Rightarrow> do { s \<leftarrow> iunlockput ip s; end_op s });
       Some (- 1, s)
     }"

text \<open>The part of \<^verbatim>\<open>exec\<close> behind the program's pages: the user stack, and the switch to the new image.\<close>

definition exec_stack :: "symbols \<Rightarrow> nat \<Rightarrow> u8 list \<Rightarrow> u8 list list \<Rightarrow> u64 \<Rightarrow> u64 \<Rightarrow> u64 \<Rightarrow> 'a kern_scheme \<Rightarrow>
    (int \<times> 'a kern_scheme) option" where
  "exec_stack y p path argv entry pt usz s =
     do {
       let oldsz = sz (procs s p);
       let usz = PGROUNDUP usz;
       (nsz, s) \<leftarrow> on_mem (uvm_alloc (sym_end y) pt usz (usz + 2 * PGSIZE) (ucast PTE_W)) s;
       if nsz = 0 then exec_bad y pt usz None s
       else do {
         let usz = nsz;
         s \<leftarrow> do_mem (uvm_clear pt (usz - 2 * PGSIZE)) s;
         let stackbase = usz - PGSIZE;
         (res, s) \<leftarrow> push_args argv 0 usz stackbase pt s;
         case res of
           None \<Rightarrow> exec_bad y pt usz None s
         | Some (sp, ustack) \<Rightarrow>
             let argc = length argv;
                 sp = align16 (sp - of_nat ((argc + 1) * 8))
             in if sp < stackbase then exec_bad y pt usz None s
                else do {
                  (r, s) \<leftarrow> on_mem (copy_to_user pt sp (concat (map (le_bytes 8) (ustack @ [0])))) s;
                  if r < 0 then exec_bad y pt usz None s
                  else do {
                    let s = tf_put p TF_A1 sp s;
                    let oldpt = pagetable (procs s p);
                    let s = upd_proc p (\<lambda>x. x\<lparr>pname := set_name (last_elem path) (pname x), pagetable := pt, sz := usz\<rparr>) s;
                    let s = tf_put p TF_SP sp (tf_put p TF_EPC entry s);
                    s \<leftarrow> proc_freepagetable y oldpt oldsz s;
                    Some (int argc, s)
                  }
                }
       }
     }"

definition exec :: "symbols \<Rightarrow> nat \<Rightarrow> u8 list \<Rightarrow> u8 list list \<Rightarrow> 'a kern_scheme \<Rightarrow> (int \<times> 'a kern_scheme) option" where
  "exec y p path argv s =
     do {
       s \<leftarrow> begin_op s;
       dir \<leftarrow> cwd (procs s p);
       (ip, s) \<leftarrow> namei dir path s;
       case ip of
         None \<Rightarrow> do { s \<leftarrow> end_op s; Some (- 1, s) }
       | Some ip \<Rightarrow> do {
           s \<leftarrow> ilock ip s;
           (r, d, s) \<leftarrow> readi ip (Local 0) 0 64 (replicate 64 0) s;
           let elf = elfhdr_of d;
           if r \<noteq> 64 \<or> elf_magic elf \<noteq> ELF_MAGIC then exec_bad y 0 0 (Some ip) s
           else do {
             (pt, s) \<leftarrow> proc_pagetable y p s;
             if pt = 0 then exec_bad y 0 0 (Some ip) s
             else do {
               (ok, usz, s) \<leftarrow> exec_segs (unat (elf_phnum elf)) (ucast (elf_phoff elf)) (sym_end y) pt ip 0 s;
               if \<not> ok then exec_bad y pt usz (Some ip) s
               else do {
                 s \<leftarrow> iunlockput ip s;
                 s \<leftarrow> end_op s;
                 exec_stack y p path argv (elf_entry elf) pt usz s
               }
             }
           }
         }
     }"

end
