(* ===== verification/Sysfile.thy ===== *)
theory Sysfile
  imports Exec
begin

text \<open>
  System call arguments (\<^verbatim>\<open>kernel/syscall.c\<close>) and the system calls on files (\<^verbatim>\<open>kernel/sysfile.c\<close>), by the
  process in slot \<open>p\<close>.  Arguments come from the saved registers in the process's trap frame; strings
  and structures are copied from and to its memory.  A path fetched from user memory is the list of
  its bytes before the NUL.
\<close>

section \<open>Arguments\<close>

definition fetchaddr :: "nat \<Rightarrow> u64 \<Rightarrow> 'a kern_scheme \<Rightarrow> ((int \<times> u64) \<times> 'a kern_scheme) option" where
  "fetchaddr p addr s =
     (if sz (procs s p) \<le> addr \<or> sz (procs s p) < addr + 8 \<or> addr = 0 then Some ((- 1, 0), s)
      else do {
        ((r, bs), s) \<leftarrow> on_mem (copy_from_user (pagetable (procs s p)) addr 8) s;
        Some (if r \<noteq> 0 then (- 1, 0) else (0, le_word bs), s)
      })"

definition fetchstr :: "nat \<Rightarrow> u64 \<Rightarrow> nat \<Rightarrow> 'a kern_scheme \<Rightarrow> ((int \<times> u8 list) \<times> 'a kern_scheme) option" where
  "fetchstr p addr mx s =
     do {
       ((r, bs), s) \<leftarrow> on_mem (copyin_str (pagetable (procs s p)) addr mx) s;
       let str = takeWhile (\<lambda>c. c \<noteq> 0) bs;
       Some (if r < 0 then (- 1, str) else (int (length str), str), s)
     }"

definition argraw :: "nat \<Rightarrow> nat \<Rightarrow> 'a kern_scheme \<Rightarrow> u64 option" where
  "argraw p n s = (if n < 6 then Some (tf_get p (TF_A0 + 8 * of_nat n) s) else panic ''argraw'')"

definition argint :: "nat \<Rightarrow> nat \<Rightarrow> 'a kern_scheme \<Rightarrow> int option" where
  "argint p n s = map_option (\<lambda>v. sint (ucast v :: u32)) (argraw p n s)"

definition argaddr :: "nat \<Rightarrow> nat \<Rightarrow> 'a kern_scheme \<Rightarrow> u64 option" where
  "argaddr p n s = argraw p n s"

definition argstr :: "nat \<Rightarrow> nat \<Rightarrow> nat \<Rightarrow> 'a kern_scheme \<Rightarrow> ((int \<times> u8 list) \<times> 'a kern_scheme) option" where
  "argstr p n mx s = do { addr \<leftarrow> argaddr p n s; fetchstr p addr mx s }"

section \<open>File descriptors\<close>

text \<open>\<^verbatim>\<open>argfd\<close>: the descriptor and its file, or \<open>None\<close> for the return value -1.\<close>

definition argfd :: "nat \<Rightarrow> nat \<Rightarrow> 'a kern_scheme \<Rightarrow> (nat \<times> nat) option option" where
  "argfd p n s =
     do {
       fd \<leftarrow> argint p n s;
       Some (if fd < 0 \<or> int NOFILE \<le> fd then None
             else map_option (\<lambda>f. (nat fd, f)) (ofile (procs s p) ! nat fd))
     }"

primrec fd_scan :: "nat \<Rightarrow> nat \<Rightarrow> nat option list \<Rightarrow> nat option" where
  "fd_scan 0 fd t = None"
| "fd_scan (Suc n) fd t = (if t ! fd = None then Some fd else fd_scan n (Suc fd) t)"

definition fdalloc :: "nat \<Rightarrow> nat \<Rightarrow> 'a kern_scheme \<Rightarrow> nat option \<times> 'a kern_scheme" where
  "fdalloc p f s =
     (case fd_scan NOFILE 0 (ofile (procs s p)) of
        None \<Rightarrow> (None, s)
      | Some fd \<Rightarrow> (Some fd, upd_proc p (\<lambda>x. x\<lparr>ofile := (ofile x)[fd := Some f]\<rparr>) s))"

definition clear_fd :: "nat \<Rightarrow> nat \<Rightarrow> 'a kern_scheme \<Rightarrow> 'a kern_scheme" where
  "clear_fd p fd s = upd_proc p (\<lambda>x. x\<lparr>ofile := (ofile x)[fd := None]\<rparr>) s"

definition sys_dup :: "nat \<Rightarrow> 'a kern_scheme \<Rightarrow> (outcome \<times> 'a kern_scheme) option" where
  "sys_dup p s =
     do {
       a \<leftarrow> argfd p 0 s;
       case a of
         None \<Rightarrow> Some (Returns (- 1), s)
       | Some (_, f) \<Rightarrow>
           (case fdalloc p f s of
              (None, s) \<Rightarrow> Some (Returns (- 1), s)
            | (Some fd, s) \<Rightarrow> Some (Returns (int fd), snd (file_dup f s)))
     }"

definition sys_read :: "nat \<Rightarrow> 'a kern_scheme \<Rightarrow> (outcome \<times> 'a kern_scheme) option" where
  "sys_read p s =
     do {
       let s = s\<lparr>readcount := readcount s + 1\<rparr>;
       addr \<leftarrow> argaddr p 1 s;
       n \<leftarrow> argint p 2 s;
       a \<leftarrow> argfd p 0 s;
       case a of None \<Rightarrow> Some (Returns (- 1), s) | Some (_, f) \<Rightarrow> fileread p f addr n s
     }"

definition sys_write :: "nat \<Rightarrow> 'a kern_scheme \<Rightarrow> (outcome \<times> 'a kern_scheme) option" where
  "sys_write p s =
     do {
       addr \<leftarrow> argaddr p 1 s;
       n \<leftarrow> argint p 2 s;
       a \<leftarrow> argfd p 0 s;
       case a of None \<Rightarrow> Some (Returns (- 1), s) | Some (_, f) \<Rightarrow> filewrite p f addr n s
     }"

definition sys_close :: "symbols \<Rightarrow> nat \<Rightarrow> 'a kern_scheme \<Rightarrow> (outcome \<times> 'a kern_scheme) option" where
  "sys_close y p s =
     do {
       a \<leftarrow> argfd p 0 s;
       case a of
         None \<Rightarrow> Some (Returns (- 1), s)
       | Some (fd, f) \<Rightarrow> do {
           s \<leftarrow> file_close (sym_end y) f (clear_fd p fd s);
           Some (Returns 0, s)
         }
     }"

definition sys_fstat :: "u8 list \<Rightarrow> nat \<Rightarrow> 'a kern_scheme \<Rightarrow> (outcome \<times> 'a kern_scheme) option" where
  "sys_fstat pad p s =
     do {
       st \<leftarrow> argaddr p 1 s;
       a \<leftarrow> argfd p 0 s;
       case a of
         None \<Rightarrow> Some (Returns (- 1), s)
       | Some (_, f) \<Rightarrow> do {
           (r, s) \<leftarrow> file_status pad p f st s;
           Some (Returns r, s)
         }
     }"

section \<open>Links\<close>

definition name0 :: "u8 list" where
  "name0 = replicate DIRSIZ 0"

definition namei_at :: "nat \<Rightarrow> u8 list \<Rightarrow> 'a kern_scheme \<Rightarrow> (nat option \<times> 'a kern_scheme) option" where
  "namei_at p path s = do { dir \<leftarrow> cwd (procs s p); namei dir path s }"

definition nameiparent_at :: "nat \<Rightarrow> u8 list \<Rightarrow> 'a kern_scheme \<Rightarrow> ((nat option \<times> u8 list) \<times> 'a kern_scheme) option" where
  "nameiparent_at p path s = do { dir \<leftarrow> cwd (procs s p); nameiparent dir path name0 s }"

text \<open>End the operation and return.\<close>

definition end_with :: "int \<Rightarrow> 'a kern_scheme \<Rightarrow> (outcome \<times> 'a kern_scheme) option" where
  "end_with r s = do { s \<leftarrow> end_op s; Some (Returns r, s) }"

definition link_bad :: "nat \<Rightarrow> 'a kern_scheme \<Rightarrow> (outcome \<times> 'a kern_scheme) option" where
  "link_bad ip s =
     do {
       s \<leftarrow> ilock ip s;
       s \<leftarrow> iupdate ip (upd_inode ip (\<lambda>x. x\<lparr>inlink := inlink x - 1\<rparr>) s);
       s \<leftarrow> iunlockput ip s;
       end_with (- 1) s
     }"

definition sys_link :: "nat \<Rightarrow> 'a kern_scheme \<Rightarrow> (outcome \<times> 'a kern_scheme) option" where
  "sys_link p s =
     do {
       ((r, old), s) \<leftarrow> argstr p 0 MAXPATH s;
       if r < 0 then Some (Returns (- 1), s)
       else do {
         ((r, new), s) \<leftarrow> argstr p 1 MAXPATH s;
         if r < 0 then Some (Returns (- 1), s)
         else do {
           s \<leftarrow> begin_op s;
           (ip, s) \<leftarrow> namei_at p old s;
           case ip of
             None \<Rightarrow> end_with (- 1) s
           | Some ip \<Rightarrow> do {
               s \<leftarrow> ilock ip s;
               if itype (inodes s ip) = T_DIR then do { s \<leftarrow> iunlockput ip s; end_with (- 1) s }
               else do {
                 s \<leftarrow> iupdate ip (upd_inode ip (\<lambda>x. x\<lparr>inlink := inlink x + 1\<rparr>) s);
                 s \<leftarrow> iunlock ip s;
                 ((dp, name), s) \<leftarrow> nameiparent_at p new s;
                 case dp of
                   None \<Rightarrow> link_bad ip s
                 | Some dp \<Rightarrow> do {
                     s \<leftarrow> ilock dp s;
                     (r, s) \<leftarrow> (if idev (inodes s dp) \<noteq> idev (inodes s ip) then Some (- 1, s)
                               else dirlink dp name (inum (inodes s ip)) s);
                     if r < 0 then do { s \<leftarrow> iunlockput dp s; link_bad ip s }
                     else do {
                       s \<leftarrow> iunlockput dp s;
                       s \<leftarrow> iput ip s;
                       end_with 0 s
                     }
                   }
               }
             }
         }
       }
     }"

primrec isdirempty_loop :: "nat \<Rightarrow> u32 \<Rightarrow> nat \<Rightarrow> 'a kern_scheme \<Rightarrow> (bool \<times> 'a kern_scheme) option" where
  "isdirempty_loop 0 off dp s = Some (True, s)"
| "isdirempty_loop (Suc n) off dp s =
     do {
       (r, de, s) \<leftarrow> readi dp (Local 0) off 16 no_dirent s;
       if r \<noteq> 16 then panic ''isdirempty: readi''
       else if de_inum de \<noteq> 0 then Some (False, s)
       else isdirempty_loop n (off + 16) dp s
     }"

definition isdirempty :: "nat \<Rightarrow> 'a kern_scheme \<Rightarrow> (bool \<times> 'a kern_scheme) option" where
  "isdirempty dp s = isdirempty_loop (dir_turns dp s - 2) 32 dp s"

definition unlink_bad :: "nat \<Rightarrow> 'a kern_scheme \<Rightarrow> (outcome \<times> 'a kern_scheme) option" where
  "unlink_bad dp s = do { s \<leftarrow> iunlockput dp s; end_with (- 1) s }"

definition sys_unlink :: "nat \<Rightarrow> 'a kern_scheme \<Rightarrow> (outcome \<times> 'a kern_scheme) option" where
  "sys_unlink p s =
     do {
       ((r, path), s) \<leftarrow> argstr p 0 MAXPATH s;
       if r < 0 then Some (Returns (- 1), s)
       else do {
         s \<leftarrow> begin_op s;
         ((dp, name), s) \<leftarrow> nameiparent_at p path s;
         case dp of
           None \<Rightarrow> end_with (- 1) s
         | Some dp \<Rightarrow> do {
             s \<leftarrow> ilock dp s;
             if namecmp name (map of_char ''.'') = 0 \<or> namecmp name (map of_char ''..'') = 0 then unlink_bad dp s
             else do {
               (found, s) \<leftarrow> dirlookup dp name s;
               case found of
                 None \<Rightarrow> unlink_bad dp s
               | Some (ip, off) \<Rightarrow> do {
                   s \<leftarrow> ilock ip s;
                   if inlink (inodes s ip) <s 1 then panic ''unlink: nlink < 1''
                   else do {
                     (full, s) \<leftarrow> (if itype (inodes s ip) = T_DIR then do { (e, s) \<leftarrow> isdirempty ip s; Some (\<not> e, s) }
                                  else Some (False, s));
                     if full then do { s \<leftarrow> iunlockput ip s; unlink_bad dp s }
                     else do {
                       (r, s) \<leftarrow> writei dp (Local 0) off 16 no_dirent s;
                       if r \<noteq> 16 then panic ''unlink: writei''
                       else do {
                         s \<leftarrow> (if itype (inodes s ip) = T_DIR
                              then iupdate dp (upd_inode dp (\<lambda>x. x\<lparr>inlink := inlink x - 1\<rparr>) s) else Some s);
                         s \<leftarrow> iunlockput dp s;
                         s \<leftarrow> iupdate ip (upd_inode ip (\<lambda>x. x\<lparr>inlink := inlink x - 1\<rparr>) s);
                         s \<leftarrow> iunlockput ip s;
                         end_with 0 s
                       }
                     }
                   }
                 }
             }
           }
       }
     }"

section \<open>Creating and opening files\<close>

definition create_fail :: "nat \<Rightarrow> nat \<Rightarrow> 'a kern_scheme \<Rightarrow> (nat option \<times> 'a kern_scheme) option" where
  "create_fail ip dp s =
     do {
       s \<leftarrow> iupdate ip (upd_inode ip (\<lambda>x. x\<lparr>inlink := 0\<rparr>) s);
       s \<leftarrow> iunlockput ip s;
       s \<leftarrow> iunlockput dp s;
       Some (None, s)
     }"

text \<open>The entries \<^verbatim>\<open>.\<close> and \<^verbatim>\<open>..\<close> of a new directory: whether both could be written.\<close>

definition create_dots :: "nat \<Rightarrow> nat \<Rightarrow> 'a kern_scheme \<Rightarrow> (bool \<times> 'a kern_scheme) option" where
  "create_dots ip dp s =
     do {
       (r, s) \<leftarrow> dirlink ip (map of_char ''.'') (inum (inodes s ip)) s;
       if r < 0 then Some (False, s)
       else do {
         (r, s) \<leftarrow> dirlink ip (map of_char ''..'') (inum (inodes s dp)) s;
         Some (\<not> r < 0, s)
       }
     }"

definition create :: "nat \<Rightarrow> u8 list \<Rightarrow> u16 \<Rightarrow> u16 \<Rightarrow> u16 \<Rightarrow> 'a kern_scheme \<Rightarrow> (nat option \<times> 'a kern_scheme) option" where
  "create p path ty maj mnr s =
     do {
       ((dp, name), s) \<leftarrow> nameiparent_at p path s;
       case dp of
         None \<Rightarrow> Some (None, s)
       | Some dp \<Rightarrow> do {
           s \<leftarrow> ilock dp s;
           (found, s) \<leftarrow> dirlookup dp name s;
           case found of
             Some (ip, _) \<Rightarrow> do {
               s \<leftarrow> iunlockput dp s;
               s \<leftarrow> ilock ip s;
               if ty = T_FILE \<and> (itype (inodes s ip) = T_FILE \<or> itype (inodes s ip) = T_DEVICE) then Some (Some ip, s)
               else do { s \<leftarrow> iunlockput ip s; Some (None, s) }
             }
           | None \<Rightarrow> do {
               (ip, s) \<leftarrow> ialloc (idev (inodes s dp)) ty s;
               case ip of
                 None \<Rightarrow> do { s \<leftarrow> iunlockput dp s; Some (None, s) }
               | Some ip \<Rightarrow> do {
                   s \<leftarrow> ilock ip s;
                   s \<leftarrow> iupdate ip (upd_inode ip (\<lambda>x. x\<lparr>imajor := maj, iminor := mnr, inlink := 1\<rparr>) s);
                   (ok, s) \<leftarrow> (if ty = T_DIR then create_dots ip dp s else Some (True, s));
                   if \<not> ok then create_fail ip dp s
                   else do {
                     (r, s) \<leftarrow> dirlink dp name (inum (inodes s ip)) s;
                     if r < 0 then create_fail ip dp s
                     else do {
                       s \<leftarrow> (if ty = T_DIR then iupdate dp (upd_inode dp (\<lambda>x. x\<lparr>inlink := inlink x + 1\<rparr>) s)
                            else Some s);
                       s \<leftarrow> iunlockput dp s;
                       Some (Some ip, s)
                     }
                   }
                 }
             }
         }
     }"

abbreviation (input) O_RDONLY :: u32 where "O_RDONLY \<equiv> 0"
abbreviation (input) O_WRONLY :: u32 where "O_WRONLY \<equiv> 1"
abbreviation (input) O_RDWR :: u32 where "O_RDWR \<equiv> 2"
abbreviation (input) O_CREATE :: u32 where "O_CREATE \<equiv> 0x200"
abbreviation (input) O_TRUNC :: u32 where "O_TRUNC \<equiv> 0x400"

text \<open>The inode \<^verbatim>\<open>sys_open\<close> works on, locked, or nothing when the call fails there.\<close>

definition open_inode :: "nat \<Rightarrow> u8 list \<Rightarrow> u32 \<Rightarrow> 'a kern_scheme \<Rightarrow> (nat option \<times> 'a kern_scheme) option" where
  "open_inode p path omode s =
     (if omode AND O_CREATE \<noteq> 0 then create p path T_FILE 0 0 s
      else do {
        (ip, s) \<leftarrow> namei_at p path s;
        case ip of
          None \<Rightarrow> Some (None, s)
        | Some ip \<Rightarrow> do {
            s \<leftarrow> ilock ip s;
            if itype (inodes s ip) = T_DIR \<and> omode \<noteq> O_RDONLY then do { s \<leftarrow> iunlockput ip s; Some (None, s) }
            else Some (Some ip, s)
          }
      })"

definition open_fail :: "nat \<Rightarrow> 'a kern_scheme \<Rightarrow> (outcome \<times> 'a kern_scheme) option" where
  "open_fail ip s = do { s \<leftarrow> iunlockput ip s; end_with (- 1) s }"

definition open_file :: "nat \<Rightarrow> u32 \<Rightarrow> inode \<Rightarrow> file_struct \<Rightarrow> file_struct" where
  "open_file ip omode i f =
     (let f = (if itype i = T_DEVICE then f\<lparr>ftype := FD_DEVICE, fmajor := imajor i\<rparr>
               else f\<lparr>ftype := FD_INODE, foff := 0\<rparr>)
      in f\<lparr>fip := ip, readable := (omode AND O_WRONLY = 0), writable := (omode AND O_WRONLY \<noteq> 0 \<or> omode AND O_RDWR \<noteq> 0)\<rparr>)"

definition sys_open :: "symbols \<Rightarrow> nat \<Rightarrow> 'a kern_scheme \<Rightarrow> (outcome \<times> 'a kern_scheme) option" where
  "sys_open y p s =
     do {
       m \<leftarrow> argint p 1 s;
       let omode = of_int m;
       ((r, path), s) \<leftarrow> argstr p 0 MAXPATH s;
       if r < 0 then Some (Returns (- 1), s)
       else do {
         s \<leftarrow> begin_op s;
         (ip, s) \<leftarrow> open_inode p path omode s;
         case ip of
           None \<Rightarrow> end_with (- 1) s
         | Some ip \<Rightarrow>
             if itype (inodes s ip) = T_DEVICE \<and> bad_major (imajor (inodes s ip)) then open_fail ip s
             else case file_alloc s of
               (None, s) \<Rightarrow> open_fail ip s
             | (Some f, s) \<Rightarrow>
                 (case fdalloc p f s of
                    (None, s) \<Rightarrow> do { s \<leftarrow> file_close (sym_end y) f s; open_fail ip s }
                  | (Some fd, s) \<Rightarrow> do {
                      let s = upd_file f (open_file ip omode (inodes s ip)) s;
                      s \<leftarrow> (if omode AND O_TRUNC \<noteq> 0 \<and> itype (inodes s ip) = T_FILE then itrunc ip s else Some s);
                      s \<leftarrow> iunlock ip s;
                      end_with (int fd) s
                    })
       }
     }"

definition sys_mkdir :: "nat \<Rightarrow> 'a kern_scheme \<Rightarrow> (outcome \<times> 'a kern_scheme) option" where
  "sys_mkdir p s =
     do {
       s \<leftarrow> begin_op s;
       ((r, path), s) \<leftarrow> argstr p 0 MAXPATH s;
       if r < 0 then end_with (- 1) s
       else do {
         (ip, s) \<leftarrow> create p path T_DIR 0 0 s;
         case ip of
           None \<Rightarrow> end_with (- 1) s
         | Some ip \<Rightarrow> do { s \<leftarrow> iunlockput ip s; end_with 0 s }
       }
     }"

definition sys_mknod :: "nat \<Rightarrow> 'a kern_scheme \<Rightarrow> (outcome \<times> 'a kern_scheme) option" where
  "sys_mknod p s =
     do {
       s \<leftarrow> begin_op s;
       maj \<leftarrow> argint p 1 s;
       mnr \<leftarrow> argint p 2 s;
       ((r, path), s) \<leftarrow> argstr p 0 MAXPATH s;
       if r < 0 then end_with (- 1) s
       else do {
         (ip, s) \<leftarrow> create p path T_DEVICE (of_int maj) (of_int mnr) s;
         case ip of
           None \<Rightarrow> end_with (- 1) s
         | Some ip \<Rightarrow> do { s \<leftarrow> iunlockput ip s; end_with 0 s }
       }
     }"

definition sys_chdir :: "nat \<Rightarrow> 'a kern_scheme \<Rightarrow> (outcome \<times> 'a kern_scheme) option" where
  "sys_chdir p s =
     do {
       s \<leftarrow> begin_op s;
       ((r, path), s) \<leftarrow> argstr p 0 MAXPATH s;
       if r < 0 then end_with (- 1) s
       else do {
         (ip, s) \<leftarrow> namei_at p path s;
         case ip of
           None \<Rightarrow> end_with (- 1) s
         | Some ip \<Rightarrow> do {
             s \<leftarrow> ilock ip s;
             if itype (inodes s ip) \<noteq> T_DIR then do { s \<leftarrow> iunlockput ip s; end_with (- 1) s }
             else do {
               s \<leftarrow> iunlock ip s;
               dir \<leftarrow> cwd (procs s p);
               s \<leftarrow> iput dir s;
               (r, s) \<leftarrow> end_with 0 s;
               Some (r, upd_proc p (\<lambda>x. x\<lparr>cwd := Some ip\<rparr>) s)
             }
           }
       }
     }"

section \<open>exec and pipe\<close>

text \<open>
  The loop of \<^verbatim>\<open>sys_exec\<close> that fetches the arguments, each into a page of its own: the strings and whether
  it ended at a null pointer, and the pages to free.
\<close>

primrec fetch_args :: "nat \<Rightarrow> nat \<Rightarrow> nat \<Rightarrow> u64 \<Rightarrow> 'a kern_scheme \<Rightarrow> ((u8 list list option \<times> u64 list) \<times> 'a kern_scheme) option" where
  "fetch_args 0 i p uargv s = Some ((None, []), s)"
| "fetch_args (Suc n) i p uargv s =
     do {
       ((r, uarg), s) \<leftarrow> fetchaddr p (uargv + 8 * of_nat i) s;
       if r < 0 then Some ((None, []), s)
       else if uarg = 0 then Some ((Some [], []), s)
       else do {
         (pg, s) \<leftarrow> on_mem kalloc s;
         if pg = 0 then Some ((None, []), s)
         else do {
           ((r, str), s) \<leftarrow> fetchstr p uarg 4096 s;
           let s = s\<lparr>km := (km s)\<lparr>pmem := st_bytes pg (if r < 0 then str else str @ [0]) (pmem (km s))\<rparr>\<rparr>;
           if r < 0 then Some ((None, [pg]), s)
           else do {
             ((res, pgs), s) \<leftarrow> fetch_args n (Suc i) p uargv s;
             Some ((map_option (\<lambda>as. str # as) res, pg # pgs), s)
           }
         }
       }
     }"

primrec free_all :: "u64 list \<Rightarrow> u64 \<Rightarrow> 'a kern_scheme \<Rightarrow> 'a kern_scheme option" where
  "free_all [] kend s = Some s"
| "free_all (pg # pgs) kend s = do { s \<leftarrow> do_mem (kfree kend pg) s; free_all pgs kend s }"

definition sys_exec :: "symbols \<Rightarrow> nat \<Rightarrow> 'a kern_scheme \<Rightarrow> (outcome \<times> 'a kern_scheme) option" where
  "sys_exec y p s =
     do {
       uargv \<leftarrow> argaddr p 1 s;
       ((r, path), s) \<leftarrow> argstr p 0 MAXPATH s;
       if r < 0 then Some (Returns (- 1), s)
       else do {
         ((args, pgs), s) \<leftarrow> fetch_args MAXARG 0 p uargv s;
         (ret, s) \<leftarrow> (case args of None \<Rightarrow> Some (- 1, s) | Some argv \<Rightarrow> exec y p path argv s);
         s \<leftarrow> free_all pgs (sym_end y) s;
         Some (Returns ret, s)
       }
     }"

definition pipe_undo :: "symbols \<Rightarrow> nat \<Rightarrow> nat \<Rightarrow> 'a kern_scheme \<Rightarrow> (outcome \<times> 'a kern_scheme) option" where
  "pipe_undo y rfl wfl s =
     do {
       s \<leftarrow> file_close (sym_end y) rfl s;
       s \<leftarrow> file_close (sym_end y) wfl s;
       Some (Returns (- 1), s)
     }"

definition sys_pipe :: "symbols \<Rightarrow> nat \<Rightarrow> 'a kern_scheme \<Rightarrow> (outcome \<times> 'a kern_scheme) option" where
  "sys_pipe y p s =
     do {
       fdarray \<leftarrow> argaddr p 0 s;
       (res, s) \<leftarrow> pipealloc (sym_end y) s;
       case res of
         None \<Rightarrow> Some (Returns (- 1), s)
       | Some (rfl, wfl) \<Rightarrow>
           (case fdalloc p rfl s of
              (None, s) \<Rightarrow> pipe_undo y rfl wfl s
            | (Some fd0, s) \<Rightarrow>
                (case fdalloc p wfl s of
                   (None, s) \<Rightarrow> pipe_undo y rfl wfl (clear_fd p fd0 s)
                 | (Some fd1, s) \<Rightarrow> do {
                     (r, s) \<leftarrow> on_mem (copy_to_user (pagetable (procs s p)) fdarray (le_bytes 4 (of_nat fd0 :: u32))) s;
                     (r, s) \<leftarrow> (if r < 0 then Some (r, s)
                               else on_mem (copy_to_user (pagetable (procs s p)) (fdarray + 4) (le_bytes 4 (of_nat fd1 :: u32))) s);
                     if r < 0 then pipe_undo y rfl wfl (clear_fd p fd1 (clear_fd p fd0 s))
                     else Some (Returns 0, s)
                   }))
     }"

end
