(* ===== verification/Syscall.thy ===== *)
theory Syscall
  imports Sysfile
begin

text \<open>
  The system calls on processes (\<^verbatim>\<open>kernel/sysproc.c\<close>), the dispatcher (\<^verbatim>\<open>syscall.c\<close>) and traps (\<^verbatim>\<open>trap.c\<close>).
  What the trap code reads from control registers and from the interrupt controller is an argument:
  the cause, the program counter, the trap value, the status register, and the number of the
  interrupting device.
\<close>

section \<open>System calls on processes\<close>

definition sys_exit :: "symbols \<Rightarrow> nat \<Rightarrow> 'a kern_scheme \<Rightarrow> (outcome \<times> 'a kern_scheme) option" where
  "sys_exit y p s = do { n \<leftarrow> argint p 0 s; s \<leftarrow> exit y p (of_int n) s; Some (Exits, s) }"

definition sys_getpid :: "nat \<Rightarrow> 'a kern_scheme \<Rightarrow> (outcome \<times> 'a kern_scheme) option" where
  "sys_getpid p s = Some (Returns (pid (procs s p)), s)"

definition sys_fork :: "symbols \<Rightarrow> nat \<Rightarrow> 'a kern_scheme \<Rightarrow> (outcome \<times> 'a kern_scheme) option" where
  "sys_fork y p s = do { (r, s) \<leftarrow> fork y p s; Some (Returns r, s) }"

definition sys_wait :: "symbols \<Rightarrow> nat \<Rightarrow> 'a kern_scheme \<Rightarrow> (outcome \<times> 'a kern_scheme) option" where
  "sys_wait y p s = do { addr \<leftarrow> argaddr p 0 s; wait y p addr s }"

definition sys_sbrk :: "symbols \<Rightarrow> nat \<Rightarrow> 'a kern_scheme \<Rightarrow> (outcome \<times> 'a kern_scheme) option" where
  "sys_sbrk y p s =
     do {
       n \<leftarrow> argint p 0 s;
       let addr = sz (procs s p);
       (r, s) \<leftarrow> growproc y p n s;
       Some (Returns (if r < 0 then - 1 else uint addr), s)
     }"

text \<open>\<^verbatim>\<open>sys_sleep\<close> at the test of its loop, \<open>ticks0\<close> being the time it began; \<open>n\<close> is compared unsigned.\<close>

definition sys_sleep_from :: "u32 \<Rightarrow> u32 \<Rightarrow> nat \<Rightarrow> 'a kern_scheme \<Rightarrow> outcome \<times> 'a kern_scheme" where
  "sys_sleep_from ticks0 n p s =
     (if ticks s - ticks0 < n then
        if killed p s then (Returns (- 1), s) else (Blocks 0, sleep_enter p ChanTicks s)
      else (Returns 0, s))"

definition sys_sleep :: "nat \<Rightarrow> 'a kern_scheme \<Rightarrow> (outcome \<times> 'a kern_scheme) option" where
  "sys_sleep p s = do { n \<leftarrow> argint p 0 s; Some (sys_sleep_from (ticks s) (of_int n) p s) }"

definition sys_kill :: "nat \<Rightarrow> 'a kern_scheme \<Rightarrow> (outcome \<times> 'a kern_scheme) option" where
  "sys_kill p s = do { i \<leftarrow> argint p 0 s; let (r, s) = kill i s in Some (Returns r, s) }"

definition sys_uptime :: "'a kern_scheme \<Rightarrow> (outcome \<times> 'a kern_scheme) option" where
  "sys_uptime s = Some (Returns (uint (ticks s)), s)"

definition sys_readcount :: "'a kern_scheme \<Rightarrow> (outcome \<times> 'a kern_scheme) option" where
  "sys_readcount s = Some (Returns (uint (readcount s)), s)"

definition sys_alarm :: "nat \<Rightarrow> 'a kern_scheme \<Rightarrow> (outcome \<times> 'a kern_scheme) option" where
  "sys_alarm p s =
     do {
       n \<leftarrow> argint p 0 s;
       fn \<leftarrow> argaddr p 1 s;
       Some (Returns 0, upd_proc p (\<lambda>x. x\<lparr>alarmticks := n, alarmhandler := fn\<rparr>) s)
     }"

definition sys_settickets :: "nat \<Rightarrow> 'a kern_scheme \<Rightarrow> (outcome \<times> 'a kern_scheme) option" where
  "sys_settickets p s =
     do {
       n \<leftarrow> argint p 0 s;
       if n < 1 then Some (Returns (- 1), s)
       else Some (Returns 0, upd_proc p (\<lambda>x. x\<lparr>tickets := n\<rparr>) s)
     }"

text \<open>
  \<^verbatim>\<open>sys_getpinfo\<close> stores through the address that the user passed, in the kernel's own address space:
  that reaches RAM, where the kernel maps it, and faults elsewhere.
\<close>

definition sys_getpinfo :: "nat \<Rightarrow> 'a kern_scheme \<Rightarrow> (outcome \<times> 'a kern_scheme) option" where
  "sys_getpinfo p s =
     do {
       ps \<leftarrow> argaddr p 0 s;
       if KERNBASE \<le> ps \<and> ps \<le> PHYSTOP - 772 then Some (Returns 0, procinfo ps s) else panic ''kerneltrap''
     }"

section \<open>The dispatcher\<close>

definition syscalls :: "symbols \<Rightarrow> u8 list \<Rightarrow> int \<Rightarrow> nat \<Rightarrow> 'a kern_scheme \<Rightarrow> (outcome \<times> 'a kern_scheme) option" where
  "syscalls y pad num p s =
     (if num = 1 then sys_fork y p s
      else if num = 2 then sys_exit y p s
      else if num = 3 then sys_wait y p s
      else if num = 4 then sys_pipe y p s
      else if num = 5 then sys_read p s
      else if num = 6 then sys_kill p s
      else if num = 7 then sys_exec y p s
      else if num = 8 then sys_fstat pad p s
      else if num = 9 then sys_chdir p s
      else if num = 10 then sys_dup p s
      else if num = 11 then sys_getpid p s
      else if num = 12 then sys_sbrk y p s
      else if num = 13 then sys_sleep p s
      else if num = 14 then sys_uptime s
      else if num = 15 then sys_open y p s
      else if num = 16 then sys_write p s
      else if num = 17 then sys_mknod p s
      else if num = 18 then sys_unlink p s
      else if num = 19 then sys_link p s
      else if num = 20 then sys_mkdir p s
      else if num = 21 then sys_close y p s
      else if num = 22 then sys_readcount s
      else if num = 23 then sys_alarm p s
      else if num = 24 then sys_settickets p s
      else sys_getpinfo p s)"

definition syscall :: "symbols \<Rightarrow> u8 list \<Rightarrow> nat \<Rightarrow> 'a kern_scheme \<Rightarrow> (outcome \<times> 'a kern_scheme) option" where
  "syscall y pad p s =
     (let num = sint (ucast (tf_get p TF_A7 s) :: u32)
      in if 0 < num \<and> num < 26 then do {
           (r, s) \<leftarrow> syscalls y pad num p s;
           Some (r, case r of Returns v \<Rightarrow> tf_put p TF_A0 (of_int v) s | _ \<Rightarrow> s)
         } else do {
           s \<leftarrow> printf (''%d %s: unknown sys call %d'' @ newline)
                  [AInt (of_int (pid (procs s p))), AStr (Some (c_string (pname (procs s p)))), AInt (of_int num)] s;
           Some (Returns (- 1), tf_put p TF_A0 (- 1) s)
         })"

section \<open>Traps\<close>

abbreviation (input) SSTATUS_SPP :: u64 where "SSTATUS_SPP \<equiv> 0x100"
abbreviation (input) SSTATUS_SPIE :: u64 where "SSTATUS_SPIE \<equiv> 0x20"

definition clockintr :: "'a kern_scheme \<Rightarrow> 'a kern_scheme" where
  "clockintr s = wakeup ChanTicks (s\<lparr>ticks := ticks s + 1\<rparr>)"

text \<open>
  \<^verbatim>\<open>devintr\<close>.  \<open>jump\<close> is the effect of a jump of the kernel to an address, which is how the code calls an
  alarm handler; \<open>disk_intr\<close> is the disk driver's interrupt routine.
\<close>

definition alarm_due :: "nat \<Rightarrow> 'a kern_scheme \<Rightarrow> bool \<times> 'a kern_scheme" where
  "alarm_due p s =
     (if alarmticks (procs s p) \<noteq> 0 then
        let s = upd_proc p (\<lambda>x. x\<lparr>pticks := pticks x + 1\<rparr>) s
        in (pticks (procs s p) mod alarmticks (procs s p) = 0, s)
      else (False, s))"

definition devintr :: "(u64 \<Rightarrow> 'a kern_scheme \<Rightarrow> 'a kern_scheme option) \<Rightarrow> ('a kern_scheme \<Rightarrow> 'a kern_scheme option) \<Rightarrow>
    u64 \<Rightarrow> u32 \<Rightarrow> nat \<Rightarrow> 'a kern_scheme \<Rightarrow> (int \<times> 'a kern_scheme) option" where
  "devintr jump disk_intr scause irq hart s =
     (if scause AND 0x8000000000000000 \<noteq> 0 \<and> scause AND 0xff = 9 then do {
        s \<leftarrow> (if irq = UART0_IRQ then uart_handle_irq s
             else if irq = VIRTIO0_IRQ then disk_intr s
             else if irq \<noteq> 0 then printf (''unexpected device interrupt irq=%d'' @ newline) [AInt irq] s
             else Some s);
        Some (1, s)
      } else if scause = 0x8000000000000001 then do {
        s \<leftarrow> (case cur s of
               None \<Rightarrow> Some s
             | Some p \<Rightarrow> let (due, s) = alarm_due p s in if due then jump (alarmhandler (procs s p)) s else Some s);
        Some (2, if hart = 0 then clockintr s else s)
      } else Some (0, s))"

text \<open>What \<^verbatim>\<open>usertrapret\<close> leaves in the registers, with the address it jumps to and its argument.\<close>

record user_return =
  ret_stvec :: u64
  ret_sstatus :: u64
  ret_sepc :: u64
  ret_jump :: u64
  ret_satp :: u64

definition usertrapret :: "symbols \<Rightarrow> nat \<Rightarrow> u64 \<Rightarrow> u64 \<Rightarrow> nat \<Rightarrow> 'a kern_scheme \<Rightarrow> user_return \<times> 'a kern_scheme" where
  "usertrapret y p satp sstatus hart s =
     (let s = tf_put p TF_KERNEL_SATP satp s;
          s = tf_put p TF_KERNEL_SP (kstack (procs s p) + PGSIZE) s;
          s = tf_put p TF_KERNEL_TRAP (sym_usertrap y) s;
          s = tf_put p TF_KERNEL_HARTID (of_nat hart) s
      in (\<lparr>ret_stvec = TRAMPOLINE + (sym_uservec y - sym_trampoline y),
           ret_sstatus = (sstatus AND NOT SSTATUS_SPP) OR SSTATUS_SPIE,
           ret_sepc = tf_get p TF_EPC s,
           ret_jump = TRAMPOLINE + (sym_userret y - sym_trampoline y),
           ret_satp = MAKE_SATP (pagetable (procs s p))\<rparr>, s))"

text \<open>How a trap from user space ends: back in user mode, or away from the process.\<close>

datatype trap_end = ToUser user_return | Gone | Asleep nat | Yielded

definition trap_tail :: "symbols \<Rightarrow> nat \<Rightarrow> u64 \<Rightarrow> u64 \<Rightarrow> nat \<Rightarrow> int \<Rightarrow> 'a kern_scheme \<Rightarrow> (trap_end \<times> 'a kern_scheme) option" where
  "trap_tail y p satp sstatus hart which s =
     (if killed p s then do { s \<leftarrow> exit y p (- 1) s; Some (Gone, s) }
      else if which = 2 then Some (Yielded, yield p s)
      else let (u, s) = usertrapret y p satp sstatus hart s in Some (ToUser u, s))"

definition usertrap :: "(u64 \<Rightarrow> 'a kern_scheme \<Rightarrow> 'a kern_scheme option) \<Rightarrow> ('a kern_scheme \<Rightarrow> 'a kern_scheme option) \<Rightarrow>
    symbols \<Rightarrow> u8 list \<Rightarrow> nat \<Rightarrow> u64 \<Rightarrow> u64 \<Rightarrow> u64 \<Rightarrow> u64 \<Rightarrow> u64 \<Rightarrow> u32 \<Rightarrow> nat \<Rightarrow> 'a kern_scheme \<Rightarrow> (trap_end \<times> 'a kern_scheme) option" where
  "usertrap jump disk_intr y pad p sstatus scause sepc stval satp irq hart s =
     (if sstatus AND SSTATUS_SPP \<noteq> 0 then panic ''usertrap: not from user mode''
      else let s = tf_put p TF_EPC sepc s
           in if scause = 8 then
                if killed p s then do { s \<leftarrow> exit y p (- 1) s; Some (Gone, s) }
                else do {
                  (r, s) \<leftarrow> syscall y pad p (tf_put p TF_EPC (tf_get p TF_EPC s + 4) s);
                  case r of
                    Returns _ \<Rightarrow> trap_tail y p satp sstatus hart 0 s
                  | Blocks n \<Rightarrow> Some (Asleep n, s)
                  | Exits \<Rightarrow> Some (Gone, s)
                }
              else do {
                (which, s) \<leftarrow> devintr jump disk_intr scause irq hart s;
                s \<leftarrow> (if which = 0 then do {
                       s \<leftarrow> printf (''usertrap(): unexpected scause %p pid=%d'' @ newline) [APtr scause, AInt (of_int (pid (procs s p)))] s;
                       s \<leftarrow> printf (''            sepc=%p stval=%p'' @ newline) [APtr sepc, APtr stval] s;
                       Some (setkilled p s)
                     } else Some s);
                trap_tail y p satp sstatus hart which s
              })"

definition kerneltrap :: "(u64 \<Rightarrow> 'a kern_scheme \<Rightarrow> 'a kern_scheme option) \<Rightarrow> ('a kern_scheme \<Rightarrow> 'a kern_scheme option) \<Rightarrow>
    u64 \<Rightarrow> u64 \<Rightarrow> bool \<Rightarrow> u32 \<Rightarrow> nat \<Rightarrow> 'a kern_scheme \<Rightarrow> 'a kern_scheme option" where
  "kerneltrap jump disk_intr sstatus scause intr_on irq hart s =
     (if sstatus AND SSTATUS_SPP = 0 then panic ''kerneltrap: not from supervisor mode''
      else if intr_on then panic ''kerneltrap: interrupts enabled''
      else do {
        (which, s) \<leftarrow> devintr jump disk_intr scause irq hart s;
        if which = 0 then panic ''kerneltrap''
        else Some (case cur s of
            Some p \<Rightarrow> if which = 2 \<and> state (procs s p) = RUNNING then yield p s else s
          | None \<Rightarrow> s)
      })"

text \<open>\<^verbatim>\<open>forkret\<close>; \<open>first\<close> is its static variable.\<close>

definition forkret :: "bool \<Rightarrow> symbols \<Rightarrow> nat \<Rightarrow> u64 \<Rightarrow> u64 \<Rightarrow> nat \<Rightarrow> 'a kern_scheme \<Rightarrow> (user_return \<times> 'a kern_scheme) option" where
  "forkret first y p satp sstatus hart s =
     do {
       s \<leftarrow> (if first then fsinit s else Some s);
       Some (usertrapret y p satp sstatus hart s)
     }"

end
