(* ===== verification/Ring.thy ===== *)
theory Ring
  imports Prelude
begin

text \<open>
  Ring buffers: an array of \<open>n\<close> elements with a read and a write counter that only grow and wrap around
  at the word size; \<open>n\<close> divides the word size, so the remainder by \<open>n\<close> is a position in the array.  The
  pipes, the console's input and the UART's output are buffers of this kind.  The locale is the
  contract of a bounded queue; its clients are the order of what goes in and out.
\<close>

definition ring_q :: "nat \<Rightarrow> 'b list \<Rightarrow> 'w::len word \<Rightarrow> 'w word \<Rightarrow> 'b list" where
  "ring_q n buf r w = map (\<lambda>i. buf ! ((unat r + i) mod n)) [0..<unat (w - r)]"

lemma length_ring_q [simp]: "length (ring_q n buf r w) = unat (w - r)"
  by (simp add: ring_q_def)

lemma ring_position:
  fixes r w :: "'w::len word"
  assumes "n dvd 2 ^ LENGTH('w)"
  shows "(unat r + unat (w - r)) mod n = unat w mod n"
proof -
  have "unat w = (unat r + unat (w - r)) mod 2 ^ LENGTH('w)"
    using unat_word_ariths(1) [of r "w - r"] by simp
  then show ?thesis by (simp add: mod_mod_cancel [OF assms])
qed

lemma unat_step:
  fixes r w :: "'w::len word"
  assumes "unat (w - r) < n" and "n < 2 ^ LENGTH('w)"
  shows "unat (w + 1 - r) = Suc (unat (w - r))"
proof -
  have "unat (1 + (w - r)) = 1 + unat (w - r)"
    using unat_word_ariths(1) [of 1 "w - r"] assms by (simp del: unat_1)
  then show ?thesis by (simp add: algebra_simps)
qed

lemma ring_q_put:
  fixes r w :: "'w::len word"
  assumes "n dvd 2 ^ LENGTH('w)" and "n < 2 ^ LENGTH('w)" and "length buf = n" and "unat (w - r) < n"
  shows "ring_q n (buf[unat w mod n := c]) r (w + 1) = ring_q n buf r w @ [c]"
proof -
  have pos: "(unat r + unat (w - r)) mod n = unat w mod n" by (rule ring_position [OF assms(1)])
  have n: "0 < n" using assms(4) by simp
  have other: "(unat r + i) mod n \<noteq> unat w mod n" if "i < unat (w - r)" for i
  proof
    assume "(unat r + i) mod n = unat w mod n"
    then have "(unat r + unat (w - r)) mod n = (unat r + i) mod n" using pos by simp
    then have "n dvd unat (w - r) - i"
      using that mod_eq_dvd_iff_nat [of "unat r + i" "unat r + unat (w - r)" n] by simp
    then show False using that assms(4) by (auto dest: dvd_imp_le)
  qed
  then have keep: "buf[unat w mod n := c] ! ((unat r + i) mod n) = buf ! ((unat r + i) mod n)" if "i < unat (w - r)" for i
    using that by (simp add: nth_list_update_neq not_sym)
  have at: "unat w mod n < length buf" using n assms(3) by simp
  show ?thesis
    unfolding ring_q_def unat_step [OF assms(4,2)] using pos keep at by simp
qed

lemma unat_step_down:
  fixes r w :: "'w::len word"
  assumes "r \<noteq> w"
  shows "unat (w - r) = Suc (unat (w - (r + 1)))"
proof -
  have "w - r \<noteq> 0" using assms by simp
  then have "unat (w - r - 1) = unat (w - r) - 1" "0 < unat (w - r)"
    by (auto simp: unat_minus_one unat_gt_0)
  then show ?thesis by (simp add: algebra_simps)
qed

lemma ring_q_get:
  fixes r w :: "'w::len word"
  assumes "n dvd 2 ^ LENGTH('w)" and "r \<noteq> w"
  shows "ring_q n buf r w = buf ! (unat r mod n) # ring_q n buf (r + 1) w"
proof -
  have "(unat (r + 1) + i) mod n = (unat r + Suc i) mod n" for i
  proof -
    have "unat (r + 1) mod n = (unat r + 1) mod n"
      using unat_word_ariths(1) [of r 1] mod_mod_cancel [OF assms(1), of "unat r + 1"] by (cases "LENGTH('w)") auto
    then show ?thesis by (metis mod_add_left_eq add_Suc_right plus_1_eq_Suc add.commute add_Suc)
  qed
  then show ?thesis
    unfolding ring_q_def unat_step_down [OF assms(2)] upt_conv_Cons [OF zero_less_Suc]
    by (simp add: map_Suc_upt [symmetric] del: upt_Suc)
qed

lemma unat_between:
  fixes r w e :: "'w::len word"
  assumes "unat (w - r) + unat (e - w) < 2 ^ LENGTH('w)"
  shows "unat (e - r) = unat (w - r) + unat (e - w)"
  using unat_word_ariths(1) [of "w - r" "e - w"] assms by simp

lemma ring_q_append:
  fixes r w e :: "'w::len word"
  assumes "n dvd 2 ^ LENGTH('w)" and "unat (w - r) + unat (e - w) < 2 ^ LENGTH('w)"
  shows "ring_q n buf r e = ring_q n buf r w @ ring_q n buf w e"
proof -
  have pos: "(unat r + (i + unat (w - r))) mod n = (unat w + i) mod n" for i
    using mod_add_cong [OF ring_position [OF assms(1), of r w] refl, of i] by (simp add: ac_simps)
  have split: "[0..<a + b] = [0..<a] @ map (\<lambda>i. i + a) [0..<b]" for a b :: nat
    using upt_add_eq_append [of 0 a b] map_add_upt [of a b] by (simp add: add.commute)
  have "ring_q n buf r e = map (\<lambda>i. buf ! ((unat r + i) mod n)) ([0..<unat (w - r)] @ map (\<lambda>i. i + unat (w - r)) [0..<unat (e - w)])"
    unfolding ring_q_def unat_between [OF assms(2)] split ..
  also have "\<dots> = ring_q n buf r w @ ring_q n buf w e" by (simp add: ring_q_def pos)
  finally show ?thesis .
qed

lemma ring_q_keep:
  fixes r w e :: "'w::len word"
  assumes "n dvd 2 ^ LENGTH('w)" and "n < 2 ^ LENGTH('w)" and "length buf = n" and "unat (w - r) + unat (e - w) < n"
  shows "ring_q n (buf[unat e mod n := c]) r w = ring_q n buf r w"
proof -
  have sum: "unat (e - r) = unat (w - r) + unat (e - w)" by (rule unat_between) (use assms(2,4) in simp)
  have "unat (w - r) + unat (e + 1 - w) < 2 ^ LENGTH('w)"
    using unat_step [of e w n] assms(2,4) by simp
  note app = ring_q_append [OF assms(1) this]
  have "ring_q n (buf[unat e mod n := c]) r w = take (unat (w - r)) (ring_q n (buf[unat e mod n := c]) r (e + 1))"
    by (simp add: app)
  also have "\<dots> = take (unat (w - r)) (ring_q n buf r e)"
    using ring_q_put [OF assms(1-3), of e r c] sum assms(4) by simp
  also have "\<dots> = ring_q n buf r w" using ring_q_append [OF assms(1), of w r e buf] assms(2,4) by simp
  finally show ?thesis .
qed

lemma ring_q_butlast:
  fixes r w :: "'w::len word"
  assumes "r \<noteq> w"
  shows "ring_q n buf r (w - 1) = butlast (ring_q n buf r w)" "Suc (unat (w - 1 - r)) = unat (w - r)"
proof -
  have e: "w - 1 - r = w - (r + 1)" by (simp add: algebra_simps)
  show eq: "Suc (unat (w - 1 - r)) = unat (w - r)" unfolding e using unat_step_down [OF assms] by (rule sym)
  show "ring_q n buf r (w - 1) = butlast (ring_q n buf r w)"
    unfolding ring_q_def eq [symmetric] by simp
qed

lemma ring_q_empty [simp]: "ring_q n buf r r = []"
  by (simp add: ring_q_def)

section \<open>The contract of a bounded queue\<close>

text \<open>What happens at the two ends, in order: an element goes in, or the first one comes out.\<close>

datatype 'b qop = In 'b | Out

locale bounded_queue =
  fixes ok :: "'s \<Rightarrow> bool" and items :: "'s \<Rightarrow> 'b list" and full :: "'s \<Rightarrow> bool" and none :: "'s \<Rightarrow> bool"
    and put :: "'b \<Rightarrow> 's \<Rightarrow> 's" and get :: "'s \<Rightarrow> 'b" and rest :: "'s \<Rightarrow> 's" and cap :: nat
  assumes bounded: "ok s \<Longrightarrow> length (items s) \<le> cap"
    and full_iff: "ok s \<Longrightarrow> full s \<longleftrightarrow> length (items s) = cap"
    and none_iff: "ok s \<Longrightarrow> none s \<longleftrightarrow> items s = []"
    and put_ok: "ok s \<Longrightarrow> \<not> full s \<Longrightarrow> ok (put c s) \<and> items (put c s) = items s @ [c]"
    and get_ok: "ok s \<Longrightarrow> \<not> none s \<Longrightarrow> ok (rest s) \<and> items s = get s # items (rest s)"
begin

text \<open>A sequence of operations that never puts into a full queue and never takes from an empty one.\<close>

inductive serves :: "'s \<Rightarrow> 'b qop list \<Rightarrow> 'b list \<Rightarrow> 's \<Rightarrow> bool" where
  serves_nil: "serves s [] [] s"
| serves_in: "\<not> full s \<Longrightarrow> serves (put c s) ops out t \<Longrightarrow> serves s (In c # ops) out t"
| serves_out: "\<not> none s \<Longrightarrow> serves (rest s) ops out t \<Longrightarrow> serves s (Out # ops) (get s # out) t"

lemma fifo:
  assumes "serves s ops out t" and "ok s"
  shows "ok t \<and> out @ items t = items s @ concat (map (\<lambda>x. case x of In c \<Rightarrow> [c] | Out \<Rightarrow> []) ops)"
  using assms by (induction rule: serves.induct) (auto simp: put_ok get_ok)

lemma put_length: "ok s \<Longrightarrow> \<not> full s \<Longrightarrow> length (items (put c s)) = Suc (length (items s))"
  by (simp add: put_ok)

end

end
