(* ===== verification/KernSpec.thy ===== *)
theory KernSpec
  imports Kern VmCopy LogSpec
begin

text \<open>
  What \<^verbatim>\<open>wakeup\<close>, \<^verbatim>\<open>sleep\<close> and \<^verbatim>\<open>kill\<close> do to the process table and what they leave alone, and an example state
  of the kernel.
\<close>

section \<open>Frame facts\<close>

lemma upd_proc_frame [simp]:
  "pipes (upd_proc p f s) = pipes s" "km (upd_proc p f s) = km s" "files (upd_proc p f s) = files s"
  "cur (upd_proc p f s) = cur s" "inodes (upd_proc p f s) = inodes s" "cons (upd_proc p f s) = cons s"
  "uart (upd_proc p f s) = uart s" "uart_out (upd_proc p f s) = uart_out s" "nextpid (upd_proc p f s) = nextpid s"
  "initproc (upd_proc p f s) = initproc s"
  by (simp_all add: upd_proc_def)

lemma procs_upd_proc: "procs (upd_proc p f s) q = (if q = p then f (procs s p) else procs s q)"
  by (simp add: upd_proc_def)

lemma upd_pipe_frame [simp]:
  "km (upd_pipe i f s) = km s" "procs (upd_pipe i f s) = procs s" "pipes (upd_pipe i f s) i = f (pipes s i)"
  "killed p (upd_pipe i f s) = killed p s"
  by (simp_all add: upd_pipe_def killed_def)

lemma upd_file_frame [simp]:
  "km (upd_file i f s) = km s" "procs (upd_file i f s) = procs s" "pipes (upd_file i f s) = pipes s"
  "inodes (upd_file i f s) = inodes s"
  by (simp_all add: upd_file_def)

lemma files_upd_file: "files (upd_file i f s) j = (if j = i then f (files s i) else files s j)"
  by (simp add: upd_file_def)

lemma wakeup_loop_frame [simp]:
  "pipes (wakeup_loop n q c s) = pipes s" "km (wakeup_loop n q c s) = km s" "files (wakeup_loop n q c s) = files s"
  "cur (wakeup_loop n q c s) = cur s" "inodes (wakeup_loop n q c s) = inodes s" "cons (wakeup_loop n q c s) = cons s"
  "uart (wakeup_loop n q c s) = uart s" "uart_out (wakeup_loop n q c s) = uart_out s"
  by (induction n arbitrary: q s) simp_all

lemma wakeup_frame [simp]:
  "pipes (wakeup c s) = pipes s" "km (wakeup c s) = km s" "files (wakeup c s) = files s" "cur (wakeup c s) = cur s"
  "inodes (wakeup c s) = inodes s" "cons (wakeup c s) = cons s" "uart (wakeup c s) = uart s"
  "uart_out (wakeup c s) = uart_out s"
  by (simp_all add: wakeup_def)

lemma sleep_enter_frame [simp]:
  "pipes (sleep_enter p c s) = pipes s" "km (sleep_enter p c s) = km s" "files (sleep_enter p c s) = files s"
  "cons (sleep_enter p c s) = cons s" "uart (sleep_enter p c s) = uart s"
  by (simp_all add: sleep_enter_def)

section \<open>wakeup and kill\<close>

definition awake :: "nat option \<Rightarrow> chan \<Rightarrow> nat \<Rightarrow> proc \<Rightarrow> proc" where
  "awake me c q x = (if me \<noteq> Some q \<and> state x = SLEEPING \<and> channel x = Some c then x\<lparr>state := RUNNABLE\<rparr> else x)"

lemma wakeup_loop_procs:
  "procs (wakeup_loop n p c s) q = (if p \<le> q \<and> q < p + n then awake (cur s) c q (procs s q) else procs s q)"
  by (induction n arbitrary: p s) (auto simp: procs_upd_proc awake_def)

lemma wakeup_procs: "procs (wakeup c s) q = (if q < NPROC then awake (cur s) c q (procs s q) else procs s q)"
  by (simp add: wakeup_def wakeup_loop_procs)

lemma wakeup_eq: "wakeup c s = s\<lparr>procs := \<lambda>q. if q < NPROC then awake (cur s) c q (procs s q) else procs s q\<rparr>"
proof -
  have "\<exists>t. wakeup_loop n p c s = s\<lparr>procs := t\<rparr>" for n p and s :: "'a kern_scheme"
  proof (induction n arbitrary: p s)
    case 0
    show ?case by (rule exI [of _ "procs s"]) simp
  next
    case (Suc n)
    obtain t where "wakeup_loop (Suc n) p c s = wakeup_loop n (Suc p) c (s\<lparr>procs := t\<rparr>)"
      by (cases "cur s \<noteq> Some p \<and> state (procs s p) = SLEEPING \<and> channel (procs s p) = Some c")
        (auto simp: upd_proc_def intro: that [of "procs s"])
    moreover obtain t' where "wakeup_loop n (Suc p) c (s\<lparr>procs := t\<rparr>) = s\<lparr>procs := t\<rparr>\<lparr>procs := t'\<rparr>" using Suc by blast
    ultimately show ?case by auto
  qed
  then obtain t where t: "wakeup c s = s\<lparr>procs := t\<rparr>" unfolding wakeup_def by blast
  then have "procs (wakeup c s) = t" by simp
  then show ?thesis using wakeup_procs [of c s] t by (simp add: fun_eq_iff)
qed

lemma awake_fields [simp]:
  "pagetable (awake me c q x) = pagetable x" "pkilled (awake me c q x) = pkilled x" "pid (awake me c q x) = pid x"
  "trapframe (awake me c q x) = trapframe x" "sz (awake me c q x) = sz x" "ofile (awake me c q x) = ofile x"
  "parent (awake me c q x) = parent x" "channel (awake me c q x) = channel x"
  by (simp_all add: awake_def)

lemma wakeup_fields [simp]:
  "pagetable (procs (wakeup c s) q) = pagetable (procs s q)" "killed q (wakeup c s) = killed q s"
  by (simp_all add: wakeup_procs killed_def)

lemma sleep_enter_fields [simp]:
  "pagetable (procs (sleep_enter p c s) q) = pagetable (procs s q)" "killed q (sleep_enter p c s) = killed q s"
  by (simp_all add: sleep_enter_def procs_upd_proc killed_def)

primrec kill_slot :: "nat \<Rightarrow> nat \<Rightarrow> int \<Rightarrow> (nat \<Rightarrow> proc) \<Rightarrow> nat option" where
  "kill_slot 0 p i t = None"
| "kill_slot (Suc n) p i t = (if pid (t p) = i then Some p else kill_slot n (Suc p) i t)"

lemma kill_slot_find: "kill_slot n p i t = find (\<lambda>q. pid (t q) = i) [p..<p + n]"
  by (induction n arbitrary: p) (simp_all add: upt_conv_Cons del: upt_Suc)

lemma kill_loop_eq:
  "kill_loop n p i s =
     (case kill_slot n p i (procs s) of
        None \<Rightarrow> (- 1, s)
      | Some q \<Rightarrow> (0, upd_proc q (\<lambda>x. x\<lparr>pkilled := True, state := if state x = SLEEPING then RUNNABLE else state x\<rparr>) s))"
  by (induction n arbitrary: p) simp_all

section \<open>Example\<close>

definition ex_proc :: proc where
  "ex_proc = \<lparr>state = RUNNING, channel = None, pkilled = False, xstate = 0, pid = 1, parent = None, kstack = 0,
     sz = 0x2000, pagetable = ex_root, trapframe = 0x87001000,
     pcontext = \<lparr>ctx_ra = 0, ctx_sp = 0, ctx_s = replicate 12 0\<rparr>, ofile = replicate NOFILE None, cwd = None,
     pname = replicate 16 0, tickets = 1, alarmticks = 0, alarmhandler = 0, pticks = 0\<rparr>"

definition ex_inode :: inode where
  "ex_inode = \<lparr>idev = 0, inum = 0, iref = 0, ilck = \<lparr>slocked = 0, spid = 0\<rparr>, ivalid = False, itype = 0, imajor = 0,
     iminor = 0, inlink = 0, isize = 0, addrs = replicate 13 0\<rparr>"

definition ex_pipe :: pipe where
  "ex_pipe = \<lparr>pdata = replicate 512 0, nread = 0, nwrite = 0, readopen = True, writeopen = True\<rparr>"

definition ex_sb :: superblock where
  "ex_sb = \<lparr>sb_magic = FSMAGIC, sb_size = 2000, sb_nblocks = 1954, sb_ninodes = 200, sb_nlog = 30, sb_logstart = 2,
     sb_inodestart = 32, sb_bmapstart = 45\<rparr>"

text \<open>A booted kernel with two processes that share one page of memory, an empty pipe and an empty console.\<close>

definition ex_kern :: kern where
  "ex_kern = \<lparr>bufs = bufs (boot_log ex_disk), disk = ex_disk, dwrites = [], mypid = 1, log_start = 2, log_size = 30,
     outstanding = 0, committing = False, lh_n = 0, lh_block = replicate LOGSIZE 0, sb = ex_sb,
     inodes = (\<lambda>_. ex_inode), uart_out = [], km = ex_mapped,
     procs = (\<lambda>i. if i < 2 then ex_proc\<lparr>pid := int i + 1\<rparr> else ex_proc\<lparr>state := UNUSED, pid := 0, pagetable := 0\<rparr>),
     cur = Some 0, nextpid = 3, initproc = Some 0,
     files = (\<lambda>_. \<lparr>ftype = FD_NONE, fref = 0, readable = False, writable = False, fpipe = 0, fip = 0, foff = 0, fmajor = 0\<rparr>),
     pipes = (\<lambda>_. ex_pipe),
     cons = \<lparr>cbuf = replicate 1024 0, read_index = 0, write_index = 0, edit_index = 0\<rparr>,
     uart = \<lparr>tx_buf = replicate 32 0, tx_write = 0, tx_read = 0, tx_ready = 0, rx_bytes = []\<rparr>,
     ticks = 0, readcount = 0, lfsr = 0xACE1\<rparr>"

section \<open>Properties\<close>

text \<open>\<open>wakeup\<close> makes exactly the processes that sleep on the channel runnable, the running one apart,
  and changes nothing else.\<close>

theorem wakeup_spec:
  "procs (wakeup c s) = (\<lambda>q. if q < NPROC \<and> cur s \<noteq> Some q \<and> state (procs s q) = SLEEPING \<and> channel (procs s q) = Some c
     then (procs s q)\<lparr>state := RUNNABLE\<rparr> else procs s q) \<and>
   (\<exists>t. wakeup c s = s\<lparr>procs := t\<rparr>)"
  by (simp add: wakeup_eq awake_def fun_eq_iff) (metis)

text \<open>\<open>kill\<close> marks the first slot with the given pid, wakes it up if it sleeps, and returns 0; it
  returns -1 and changes nothing if no slot has the pid.  A slot that is not in use has pid 0, so
  \<open>kill(0)\<close> succeeds and leaves a mark in a free slot.\<close>

theorem kill_spec:
  "kill i s = (case find (\<lambda>q. pid (procs s q) = i) [0..<NPROC] of
      None \<Rightarrow> (- 1, s)
    | Some q \<Rightarrow> (0, upd_proc q (\<lambda>x. x\<lparr>pkilled := True, state := if state x = SLEEPING then RUNNABLE else state x\<rparr>) s))"
  unfolding kill_def kill_loop_eq kill_slot_find by (simp del: upt_Suc)

end
