(* ===== verification/PipeSpec.thy ===== *)
theory PipeSpec
  imports Pipe Ring KernSpec
begin

text \<open>
  Pipes are bounded queues.  A pipe is an instance of the queue contract, and the reader's and the
  writer's loops move bytes between user memory, as the page tables show it, and that queue.
\<close>

section \<open>The queue of a pipe\<close>

definition pipe_ok :: "pipe \<Rightarrow> bool" where
  "pipe_ok x \<longleftrightarrow> length (pdata x) = PIPESIZE \<and> unat (nwrite x - nread x) \<le> PIPESIZE"

definition pipe_items :: "pipe \<Rightarrow> u8 list" where
  "pipe_items x = ring_q PIPESIZE (pdata x) (nread x) (nwrite x)"

lemma unat_mod_512: "unat (w mod 512 :: u32) = unat w mod 512"
  by (simp add: unat_mod)

interpretation pipeq: bounded_queue pipe_ok pipe_items pipe_full pipe_none pipe_put pipe_first pipe_next PIPESIZE
proof
  fix x :: pipe and c
  assume ok: "pipe_ok x"
  then have len: "length (pdata x) = 512" and le: "unat (nwrite x - nread x) \<le> 512" by (simp_all add: pipe_ok_def)
  show "length (pipe_items x) \<le> PIPESIZE" using le by (simp add: pipe_items_def)
  have "nwrite x = nread x + 512 \<longleftrightarrow> nwrite x - nread x = 512" by (auto simp: algebra_simps)
  also have "\<dots> \<longleftrightarrow> unat (nwrite x - nread x) = 512" by (simp add: word_unat_eq_iff)
  finally show full: "pipe_full x \<longleftrightarrow> length (pipe_items x) = PIPESIZE" by (simp add: pipe_full_def pipe_items_def)
  have "nread x = nwrite x \<longleftrightarrow> nwrite x - nread x = 0" by auto
  also have "\<dots> \<longleftrightarrow> unat (nwrite x - nread x) = 0" by (simp add: unat_eq_0)
  finally show none: "pipe_none x \<longleftrightarrow> pipe_items x = []"
    by (simp add: pipe_none_def length_0_conv [symmetric] pipe_items_def del: length_0_conv)
  show "pipe_ok (pipe_put c x) \<and> pipe_items (pipe_put c x) = pipe_items x @ [c]" if "\<not> pipe_full x"
  proof -
    have lt: "unat (nwrite x - nread x) < 512" using that full le by (simp add: pipe_items_def)
    then show ?thesis
      using ring_q_put [of 512 "pdata x" "nwrite x" "nread x" c] unat_step [of "nwrite x" "nread x" 512] len
      by (simp add: pipe_items_def pipe_put_def pipe_ok_def unat_mod_512)
  qed
  show "pipe_ok (pipe_next x) \<and> pipe_items x = pipe_first x # pipe_items (pipe_next x)" if "\<not> pipe_none x"
  proof -
    have ne: "nread x \<noteq> nwrite x" using that by (simp add: pipe_none_def)
    then show ?thesis
      using ring_q_get [of 512 "nread x" "nwrite x" "pdata x"] unat_step_down [OF ne] len le
      by (simp add: pipe_items_def pipe_first_def pipe_next_def pipe_ok_def unat_mod_512)
  qed
qed

lemma pipe_put_fields [simp]:
  "nread (pipe_put c x) = nread x" "readopen (pipe_put c x) = readopen x" "writeopen (pipe_put c x) = writeopen x"
  by (simp_all add: pipe_put_def)

section \<open>Writing\<close>

text \<open>How many bytes a writer gets into the queue, and how the call ends.\<close>

definition write_end :: "nat \<Rightarrow> nat \<Rightarrow> nat \<Rightarrow> nat \<Rightarrow> outcome" where
  "write_end i n j room = (if j = n then Returns (int (i + n)) else if j = room then Blocks (i + j) else Returns (int (i + j)))"

lemma copy_one:
  assumes "pt_inv kend F (pmem (km s)) root"
  shows "on_mem (copy_from_user root va 1) s =
    Some (case uaddr (pmem (km s)) root va of None \<Rightarrow> (- 1, []) | Some a \<Rightarrow> (0, [pmem (km s) a]), s)"
  unfolding on_mem_def copy_from_user_eq [OF assms]
  by (simp split: option.splits)

lemma pipewrite_from_spec:
  assumes "pt_inv kend F (pmem (km s)) (pagetable (procs s p))" and "pipe_ok (pipes s pi)" and "readopen (pipes s pi)"
    and "\<not> killed p s"
    and "as = uaddrs (pmem (km s)) (pagetable (procs s p)) (addr + of_nat i) k"
    and "room = PIPESIZE - length (pipe_items (pipes s pi))" and "j = min (length as) room"
  shows "\<exists>s'. pipewrite_from k i p pi addr s = Some (write_end i k j room, s') \<and> pipe_ok (pipes s' pi) \<and>
    pipe_items (pipes s' pi) = pipe_items (pipes s pi) @ map (pmem (km s)) (take j as) \<and> km s' = km s \<and>
    (\<forall>q. pagetable (procs s' q) = pagetable (procs s q))"
  using assms
proof (induction k arbitrary: i s as room j)
  case 0
  then show ?case by (simp add: write_end_def)
next
  case (Suc k)
  let ?m = "pmem (km s)" and ?pt = "pagetable (procs s p)" and ?x = "pipes s pi"
  have le: "length (pipe_items ?x) \<le> 512" using pipeq.bounded [OF Suc.prems(2)] by simp
  have full: "pipe_full ?x \<longleftrightarrow> room = 0"
    using pipeq.full_iff [OF Suc.prems(2)] le Suc.prems(6) by auto
  consider "room = 0" | "0 < room" "uaddr ?m ?pt (addr + of_nat i) = None"
    | a where "0 < room" "uaddr ?m ?pt (addr + of_nat i) = Some a" by fastforce
  then show ?case
  proof cases
    case 1
    then show ?thesis using full Suc.prems by (simp add: write_end_def)
  next
    case 2
    then have "as = []" "j = 0" using Suc.prems(5,7) by simp_all
    then show ?thesis
      using 2 full Suc.prems(1-4) copy_one [OF Suc.prems(1), of "addr + of_nat i"] by (simp add: write_end_def)
  next
    case 3
    let ?s = "upd_pipe pi (pipe_put (?m a)) s"
    let ?as = "uaddrs ?m ?pt (addr + of_nat (Suc i)) k"
    have as: "as = a # ?as" using Suc.prems(5) 3(2) by (simp add: ac_simps)
    have nf: "\<not> pipe_full ?x" using full 3(1) by simp
    note put = pipeq.put_ok [OF Suc.prems(2) nf, of "?m a"]
    have run: "pipewrite_from (Suc k) i p pi addr s = pipewrite_from k (Suc i) p pi addr ?s"
      using 3 full Suc.prems(1-4) copy_one [OF Suc.prems(1), of "addr + of_nat i"] by simp
    have room: "room - 1 = PIPESIZE - length (pipe_items (pipes ?s pi))" using put Suc.prems(6) by simp
    have j: "j = Suc (min (length ?as) (room - 1))" using Suc.prems(7) as 3(1) by (cases room) simp_all
    obtain s' where s': "pipewrite_from k (Suc i) p pi addr ?s = Some (write_end (Suc i) k (j - 1) (room - 1), s')"
        "pipe_ok (pipes s' pi)" "pipe_items (pipes s' pi) = pipe_items (pipes ?s pi) @ map ?m (take (j - 1) ?as)" "km s' = km s"
        "\<forall>q. pagetable (procs s' q) = pagetable (procs s q)"
      using Suc.IH [of ?s ?as "Suc i" "room - 1" "j - 1"] Suc.prems(1-4) put room j by auto
    have "write_end (Suc i) k (j - 1) (room - 1) = write_end i (Suc k) j room"
      using j 3(1) by (auto simp: write_end_def)
    then show ?thesis using run s' put as j by (intro exI [of _ s']) simp
  qed
qed

section \<open>Reading\<close>

lemma uaddrs_length_le: "length (uaddrs m root va n) \<le> n"
  by (induction n arbitrary: va) (auto split: option.splits)

lemma put_one:
  assumes "pt_inv kend F (pmem (km s)) root" and "user_space (pmem (km s)) root"
  shows "on_mem (copy_to_user root va [c]) s =
    (case uaddr (pmem (km s)) root va of
       None \<Rightarrow> Some (- 1, s)
     | Some a \<Rightarrow> Some (0, s\<lparr>km := (km s)\<lparr>pmem := (pmem (km s))(a := c)\<rparr>\<rparr>))"
  unfolding on_mem_def copy_to_user_eq [OF assms]
  by (simp add: wr_def split: option.splits)

lemma wr_Cons: "wr (a # as) (c # cs) m = wr as cs (m(a := c))"
  by (simp add: wr_def)

text \<open>How many bytes a reader takes out of the queue: one more than it delivers when the user's
  buffer ends early.\<close>

definition read_gone :: "nat \<Rightarrow> nat \<Rightarrow> nat \<Rightarrow> nat" where
  "read_gone k have acc = (if acc < k \<and> acc < have then Suc acc else min k have)"

lemma piperead_copy_spec:
  assumes "pt_inv kend F (pmem (km s)) (pagetable (procs s p))" and "user_space (pmem (km s)) (pagetable (procs s p))"
    and "pipe_ok (pipes s pi)"
    and "as = uaddrs (pmem (km s)) (pagetable (procs s p)) (addr + of_nat i) k"
    and "q = pipe_items (pipes s pi)" and "j = min (length as) (length q)"
  shows "\<exists>s'. piperead_copy k i p pi addr s = Some (int (i + j), s') \<and> pipe_ok (pipes s' pi) \<and>
    pipe_items (pipes s' pi) = drop (read_gone k (length q) (length as)) q \<and>
    pmem (km s') = wr (take j as) (take j q) (pmem (km s)) \<and> freelist (km s') = freelist (km s) \<and> procs s' = procs s"
  using assms
proof (induction k arbitrary: i s as q j)
  case 0
  then show ?case by (simp add: read_gone_def wr_def)
next
  case (Suc k)
  let ?m = "pmem (km s)" and ?pt = "pagetable (procs s p)" and ?x = "pipes s pi"
  let ?s = "upd_pipe pi pipe_next s"
  have none: "pipe_none ?x \<longleftrightarrow> q = []"
    using pipeq.none_iff [OF Suc.prems(3)] Suc.prems(5) by simp
  show ?case
  proof (cases "q = []")
    case True
    then show ?thesis using none Suc.prems by (simp add: read_gone_def wr_def)
  next
    case False
    have nn: "\<not> pipe_none ?x" using False none by simp
    note get = pipeq.get_ok [OF Suc.prems(3) nn]
    define q' where "q' = pipe_items (pipe_next ?x)"
    have q: "q = pipe_first ?x # q'" and ok: "pipe_ok (pipe_next ?x)" using get Suc.prems(5) by (auto simp: q'_def)
    have inv: "pt_inv kend F (pmem (km ?s)) ?pt" "user_space (pmem (km ?s)) ?pt" using Suc.prems(1,2) by simp_all
    note one = put_one [OF inv, of "addr + of_nat i" "pipe_first ?x"]
    show ?thesis
    proof (cases "uaddr ?m ?pt (addr + of_nat i)")
      case None
      then have "as = []" using Suc.prems(4) by simp
      then show ?thesis
        using None one none False q ok Suc.prems(6) by (simp add: read_gone_def wr_def q'_def Let_def)
    next
      case (Some a)
      let ?as = "uaddrs ?m ?pt (addr + of_nat (Suc i)) k"
      define m1 where "m1 = ?m(a := pipe_first ?x)"
      define t where "t = ?s\<lparr>km := (km ?s)\<lparr>pmem := m1\<rparr>\<rparr>"
      have as: "as = a # ?as" using Suc.prems(4) Some by (simp add: ac_simps)
      have m1: "m1 = wr [a] [pipe_first ?x] ?m" by (simp add: m1_def wr_def)
      have ex: "\<forall>q\<in>set [a]. \<exists>va. uaddr ?m ?pt va = Some q" using Some by auto
      note uw = user_write [OF Suc.prems(1,2) ex, of "[pipe_first ?x]", folded m1]
      have run: "piperead_copy (Suc k) i p pi addr s = piperead_copy k (Suc i) p pi addr t"
        using Some one none False by (simp add: t_def m1_def Let_def)
      have same: "uaddrs m1 ?pt (addr + of_nat (Suc i)) k = ?as" by (rule uaddrs_cong) (rule uw(3))
      have j: "j = Suc (min (length ?as) (length q'))" using Suc.prems(6) as q by simp
      have tf: "pipes t pi = pipe_next ?x" "pmem (km t) = m1" "freelist (km t) = freelist (km s)" "procs t = procs s"
        by (simp_all add: t_def)
      obtain s' where s': "piperead_copy k (Suc i) p pi addr t = Some (int (Suc i + (j - 1)), s')" "pipe_ok (pipes s' pi)"
          "pipe_items (pipes s' pi) = drop (read_gone k (length q') (length ?as)) q'"
          "pmem (km s') = wr (take (j - 1) ?as) (take (j - 1) q') m1" "freelist (km s') = freelist (km s)" "procs s' = procs s"
        using Suc.IH [of t ?as "Suc i" q' "j - 1"] uw(1,2) ok same j tf by (auto simp: q'_def)
      have "read_gone (Suc k) (length q) (length as) = Suc (read_gone k (length q') (length ?as))"
        using as q by (simp add: read_gone_def)
      then show ?thesis using run s' as q j by (intro exI [of _ s']) (simp add: wr_Cons m1_def)
    qed
  qed
qed

section \<open>Any number of readers and writers\<close>

text \<open>
  A history of the kernel, seen from one pipe: calls of \<open>pipewrite\<close> and \<open>piperead\<close> by any processes, each from
  its start or from a wakeup up to its end or its next sleep, and between them whatever else the kernel does
  that leaves the ring of this pipe alone.  \<open>ins\<close> collects the bytes that the writers have been told, by the
  count returned or by the byte to go on with, that they have sent, as they are in their buffers; \<open>outs\<close> the bytes
  that the readers find in theirs.  A reader's buffer is one that it can access, with no two pages of it at one place.
\<close>

definition moved :: "nat \<Rightarrow> outcome \<Rightarrow> nat" where
  "moved i oc = (case oc of Returns n \<Rightarrow> nat n - i | Blocks j \<Rightarrow> j - i)"

inductive pipe_calls :: "u64 \<Rightarrow> u64 \<Rightarrow> kern \<Rightarrow> u8 list \<Rightarrow> u8 list \<Rightarrow> kern \<Rightarrow> bool" for kend pi s0 where
  calls_none: "pipe_calls kend pi s0 [] [] s0"
| calls_other: "\<lbrakk>pipe_calls kend pi s0 ins outs s; pdata (pipes s' pi) = pdata (pipes s pi); nread (pipes s' pi) = nread (pipes s pi);
    nwrite (pipes s' pi) = nwrite (pipes s pi)\<rbrakk> \<Longrightarrow> pipe_calls kend pi s0 ins outs s'"
| calls_write: "\<lbrakk>pipe_calls kend pi s0 ins outs s; pt_inv kend F (pmem (km s)) (pagetable (procs s p));
    pipewrite_from k i p pi addr s = Some (oc, s')\<rbrakk> \<Longrightarrow>
    pipe_calls kend pi s0 (ins @ map (pmem (km s)) (take (moved i oc) (uaddrs (pmem (km s)) (pagetable (procs s p)) (addr + of_nat i) k))) outs s'"
| calls_read: "\<lbrakk>pipe_calls kend pi s0 ins outs s; pt_inv kend F (pmem (km s)) (pagetable (procs s p)); user_space (pmem (km s)) (pagetable (procs s p));
    as = uaddrs (pmem (km s)) (pagetable (procs s p)) addr (nat n); length as = nat n; distinct as;
    piperead p pi addr n s = Some (oc, s')\<rbrakk> \<Longrightarrow>
    pipe_calls kend pi s0 ins (outs @ map (pmem (km s')) (take (moved 0 oc) as)) s'"

lemma moved_write_end: "moved i (write_end i k j room) = j"
  by (auto simp: moved_def write_end_def nat_add_distrib)

lemma pipewrite_moves:
  assumes "pt_inv kend F (pmem (km s)) (pagetable (procs s p))" and "pipe_ok (pipes s pi)"
    and "pipewrite_from k i p pi addr s = Some (oc, s')"
  shows "pipe_ok (pipes s' pi) \<and> pipe_items (pipes s' pi) = pipe_items (pipes s pi) @
    map (pmem (km s)) (take (moved i oc) (uaddrs (pmem (km s)) (pagetable (procs s p)) (addr + of_nat i) k))"
proof (cases "readopen (pipes s pi) \<and> \<not> killed p s")
  case True
  then have "readopen (pipes s pi)" "\<not> killed p s" by simp_all
  from pipewrite_from_spec [OF assms(1,2) this refl refl refl, where addr = addr and i = i and k = k] show ?thesis
    using assms(3) by (auto simp: moved_write_end)
next
  case False
  then show ?thesis using assms(2,3) by (cases k) (auto simp: moved_def)
qed

lemma map_wr: "distinct as \<Longrightarrow> length as = length bs \<Longrightarrow> map (wr as bs m) as = bs"
  by (rule nth_equalityI) (simp_all add: wr_inside)

lemma piperead_moves:
  assumes "pt_inv kend F (pmem (km s)) (pagetable (procs s p))" and "user_space (pmem (km s)) (pagetable (procs s p))"
    and "pipe_ok (pipes s pi)" and as: "as = uaddrs (pmem (km s)) (pagetable (procs s p)) addr (nat n)" "length as = nat n" "distinct as"
    and "piperead p pi addr n s = Some (oc, s')"
  shows "pipe_ok (pipes s' pi) \<and> pipe_items (pipes s pi) = map (pmem (km s')) (take (moved 0 oc) as) @ pipe_items (pipes s' pi)"
proof (cases "pipe_none (pipes s pi) \<and> writeopen (pipes s pi)")
  case True
  then show ?thesis using assms(3,7) by (auto simp: piperead_def moved_def split: if_splits)
next
  case False
  let ?q = "pipe_items (pipes s pi)"
  define j where "j = min (length as) (length ?q)"
  have "as = uaddrs (pmem (km s)) (pagetable (procs s p)) (addr + of_nat 0) (nat n)" using as(1) by simp
  from piperead_copy_spec [OF assms(1-3) this refl j_def] obtain t where
    t: "piperead_copy (nat n) 0 p pi addr s = Some (int j, t)" "pipe_ok (pipes t pi)" "pipe_items (pipes t pi) = drop j ?q"
      "pmem (km t) = wr (take j as) (take j ?q) (pmem (km s))" using as(2) by (auto simp: read_gone_def j_def)
  have "oc = Returns (int j)" "s' = wakeup (ChanWrite pi) t" using assms(7) False t(1) by (simp_all add: piperead_def)
  moreover have "map (pmem (km t)) (take j as) = take j ?q" unfolding t(4)
    by (rule map_wr) (use as(3) in \<open>simp_all add: j_def\<close>)
  ultimately show ?thesis using t(2,3) by (simp add: moved_def)
qed

lemma pipe_calls_fifo:
  assumes "pipe_calls kend pi s ins outs s'" and "pipe_ok (pipes s pi)"
  shows "pipe_ok (pipes s' pi) \<and> outs @ pipe_items (pipes s' pi) = pipe_items (pipes s pi) @ ins"
  using assms
proof (induction rule: pipe_calls.induct)
  case calls_none
  then show ?case by simp
next
  case (calls_other ins outs t t')
  then show ?case by (simp add: pipe_ok_def pipe_items_def)
next
  case (calls_write ins outs t F p k i addr oc t')
  from calls_write.IH [OF calls_write.prems] pipewrite_moves [OF calls_write.hyps(2) _ calls_write.hyps(3)]
  show ?case by (metis append_assoc)
next
  case (calls_read ins outs t F p as addr n oc t')
  from calls_read.IH [OF calls_read.prems] piperead_moves [OF calls_read.hyps(2,3) _ calls_read.hyps(4-7)]
  show ?case by (metis append_assoc)
qed

section \<open>Properties\<close>

text \<open>C38. A pipe is first in, first out, for any number of processes that call \<open>pipewrite\<close> and \<open>piperead\<close> on it and
  sleep and go on in any order, with any other work of the kernel between: the bytes that the readers have found
  in their buffers, followed by those in the ring, are the bytes that were in the ring, followed by those that
  the writers had in their buffers.  No byte is lost, doubled or out of place, across the wrap-around of the
  ring and of the counters.  (The readers' buffers are accessible; \<open>piperead_spec\<close> covers the others.)\<close>

theorem pipe_fifo:
  assumes "pipe_calls kend pi s ins outs s'" and "pipe_ok (pipes s pi)"
  shows "pipe_ok (pipes s' pi) \<and> outs @ pipe_items (pipes s' pi) = pipe_items (pipes s pi) @ ins"
  using assms by (rule pipe_calls_fifo)

text \<open>\<open>pipewrite\<close> by a process that is not killed, to a pipe with an open reading end: the bytes of the
  user's buffer, as far as they are readable and the pipe has room, are appended to the queue, and
  memory stays as it is.  The call returns the count if it has written everything or came to an
  unreadable byte, and sleeps, to go on with the next byte, when the pipe is full.\<close>

theorem pipewrite_spec:
  assumes "pt_inv kend F (pmem (km s)) (pagetable (procs s p))" and "pipe_ok (pipes s pi)" and "readopen (pipes s pi)"
    and "\<not> killed p s"
    and "as = uaddrs (pmem (km s)) (pagetable (procs s p)) addr (nat n)"
    and "room = PIPESIZE - length (pipe_items (pipes s pi))" and "j = min (length as) room"
  shows "\<exists>s'. pipewrite p pi addr n s =
      Some (if j = nat n then Returns (int j) else if j = room then Blocks j else Returns (int j), s') \<and>
    pipe_ok (pipes s' pi) \<and> km s' = km s \<and>
    pipe_items (pipes s' pi) = pipe_items (pipes s pi) @ map (pmem (km s)) (take j as)"
  using pipewrite_from_spec [OF assms(1-4), of as addr 0 "nat n" room j] assms(5-7)
  by (auto simp: pipewrite_def write_end_def)

text \<open>C39. \<open>piperead\<close> from a pipe that is not empty, or whose writing end is closed: the bytes at the front
  of the queue go to the user's buffer, as far as it is writable, and the count is returned.  Where
  the buffer ends before the bytes do, one byte more than was delivered is gone from the queue.\<close>

theorem piperead_spec:
  assumes "pt_inv kend F (pmem (km s)) (pagetable (procs s p))" and "user_space (pmem (km s)) (pagetable (procs s p))"
    and "pipe_ok (pipes s pi)" and "pipe_items (pipes s pi) \<noteq> [] \<or> \<not> writeopen (pipes s pi)"
    and "as = uaddrs (pmem (km s)) (pagetable (procs s p)) addr (nat n)"
    and "q = pipe_items (pipes s pi)" and "j = min (length as) (length q)"
  shows "\<exists>s'. piperead p pi addr n s = Some (Returns (int j), s') \<and> pipe_ok (pipes s' pi) \<and>
    pipe_items (pipes s' pi) = drop (if length as < nat n \<and> length as < length q then Suc j else j) q \<and>
    pmem (km s') = wr (take j as) (take j q) (pmem (km s))"
proof -
  have go: "\<not> (pipe_none (pipes s pi) \<and> writeopen (pipes s pi))"
    using pipeq.none_iff [OF assms(3)] assms(4) by auto
  have len: "length as \<le> nat n" using assms(5) uaddrs_length_le by simp
  obtain s' where "piperead_copy (nat n) 0 p pi addr s = Some (int j, s')" "pipe_ok (pipes s' pi)"
      "pipe_items (pipes s' pi) = drop (read_gone (nat n) (length q) (length as)) q"
      "pmem (km s') = wr (take j as) (take j q) (pmem (km s))"
    using piperead_copy_spec [OF assms(1-3), of as addr 0 "nat n" q j] assms(5-7) by auto
  moreover have "drop (read_gone (nat n) (length q) (length as)) q = drop (if length as < nat n \<and> length as < length q then Suc j else j) q"
    using assms(7) len by (auto simp: read_gone_def min_def)
  ultimately show ?thesis using go by (simp add: piperead_def)
qed

text \<open>C33. What one process writes to an empty pipe, another reads: for at most 512 bytes in buffers that
  both can access, the reader's buffer then holds the bytes of the writer's buffer, nothing else in
  memory has changed and the pipe is empty again.\<close>

theorem pipe_transfer:
  assumes "pt_inv kend F (pmem (km s)) (pagetable (procs s w))" and "pt_inv kend G (pmem (km s)) (pagetable (procs s r))"
    and "user_space (pmem (km s)) (pagetable (procs s r))"
    and "pipe_ok (pipes s pi)" and "pipe_items (pipes s pi) = []" and "readopen (pipes s pi)" and "\<not> killed w s"
    and "0 < n" and "n \<le> PIPESIZE"
    and "length (uaddrs (pmem (km s)) (pagetable (procs s w)) src n) = n"
    and "length (uaddrs (pmem (km s)) (pagetable (procs s r)) dst n) = n"
  shows "\<exists>s1 s2. pipewrite w pi src (int n) s = Some (Returns (int n), s1) \<and>
    piperead r pi dst (int n) s1 = Some (Returns (int n), s2) \<and> pipe_items (pipes s2 pi) = [] \<and>
    pmem (km s2) = wr (uaddrs (pmem (km s)) (pagetable (procs s r)) dst n)
      (map (pmem (km s)) (uaddrs (pmem (km s)) (pagetable (procs s w)) src n)) (pmem (km s))"
proof -
  let ?m = "pmem (km s)" and ?as = "uaddrs (pmem (km s)) (pagetable (procs s w)) src n"
    and ?ds = "uaddrs (pmem (km s)) (pagetable (procs s r)) dst n"
  have "n = min (length ?as) PIPESIZE" using assms(9,10) by simp
  from pipewrite_from_spec [OF assms(1,4,6,7) _ _ this, of src 0 n] obtain s1 where
    s1: "pipewrite w pi src (int n) s = Some (Returns (int n), s1)" "pipe_ok (pipes s1 pi)"
      "pipe_items (pipes s1 pi) = map ?m ?as" "km s1 = km s" "\<forall>q. pagetable (procs s1 q) = pagetable (procs s q)"
    using assms(5,10) by (auto simp: pipewrite_def write_end_def)
  have ne: "\<not> (pipe_none (pipes s1 pi) \<and> writeopen (pipes s1 pi))"
    using pipeq.none_iff [OF s1(2)] s1(3) assms(8,10) by auto
  have k: "pt_inv kend G (pmem (km s1)) (pagetable (procs s1 r))" "user_space (pmem (km s1)) (pagetable (procs s1 r))"
    using assms(2,3) s1(4,5) by simp_all
  obtain s2 where "piperead_copy n 0 r pi dst s1 = Some (int n, s2)" "pipe_items (pipes s2 pi) = []"
      "pmem (km s2) = wr ?ds (map ?m ?as) ?m"
    using piperead_copy_spec [where addr = dst and i = 0 and k = n, OF k s1(2) refl refl refl] s1(3-5) assms(10,11)
    by (auto simp: read_gone_def)
  then show ?thesis using s1(1) ne by (simp add: piperead_def)
qed

section \<open>Examples\<close>

lemma ex_pipe_ok: "pipe_ok ex_pipe" "pipe_items ex_pipe = []" "pipe_none ex_pipe" "\<not> pipe_full ex_pipe"
  by (simp_all add: pipe_ok_def pipe_items_def ring_q_def pipe_none_def pipe_full_def ex_pipe_def)

lemma ex_kern_fields:
  "pmem (km ex_kern) = pmem ex_mapped" "pagetable (procs ex_kern 0) = ex_root" "pagetable (procs ex_kern (Suc 0)) = ex_root"
  "pipes ex_kern pi = ex_pipe" "\<not> killed 0 ex_kern" "\<not> killed (Suc 0) ex_kern"
  by (simp_all add: ex_kern_def ex_proc_def killed_def)

lemma ex_two_bytes:
  "uaddrs (pmem ex_mapped) ex_root 0x1000 2 = [0x87000000, 0x87000001]"
  "uaddrs (pmem ex_mapped) ex_root 0x1800 2 = [0x87000800, 0x87000801]"
  by (simp_all only: numeral_2_eq_2) (simp_all add: ex_mapped_uaddr PGROUNDDOWN_def)

theorem pipe_fifo_witness:
  "\<exists>s. pipe_calls ex_kend 0x87002000 ex_kern (map (pmem ex_mapped) [0x87000000, 0x87000001]) [pmem (km s) 0x87000800] s \<and>
     pmem (km s) 0x87000800 = pmem ex_mapped 0x87000000 \<and> pipe_items (pipes s 0x87002000) = [pmem ex_mapped 0x87000001]"
proof -
  let ?pi = "0x87002000 :: u64" and ?w = "map (pmem ex_mapped) [0x87000000, 0x87000001]"
  have k: "pt_inv ex_kend {} (pmem (km ex_kern)) (pagetable (procs ex_kern 0))" "pipe_ok (pipes ex_kern ?pi)" "readopen (pipes ex_kern ?pi)"
    using ex_mapped_ok(1) by (simp_all add: ex_kern_fields ex_pipe_ok) (simp add: ex_pipe_def)
  obtain s1 where s1: "pipewrite_from 2 0 0 ?pi 0x1000 ex_kern = Some (Returns 2, s1)" "pipe_ok (pipes s1 ?pi)"
      "pipe_items (pipes s1 ?pi) = ?w" "km s1 = km ex_kern" "\<forall>q. pagetable (procs s1 q) = pagetable (procs ex_kern q)"
    using pipewrite_from_spec [OF k ex_kern_fields(5) refl refl refl, where i = 0 and k = 2 and addr = "0x1000"]
    by (auto simp: ex_kern_fields ex_two_bytes ex_pipe_ok write_end_def simp del: uaddrs.simps)
  have a: "uaddrs (pmem (km s1)) (pagetable (procs s1 1)) 0x1800 1 = [0x87000800]"
    using s1(4,5) by (simp add: ex_kern_fields ex_mapped_uaddr PGROUNDDOWN_def)
  have k1: "pt_inv ex_kend {} (pmem (km s1)) (pagetable (procs s1 1))" "user_space (pmem (km s1)) (pagetable (procs s1 1))"
    using ex_mapped_ok s1(4,5) by (simp_all add: ex_kern_fields)
  obtain s2 where s2: "piperead_copy 1 0 1 ?pi 0x1800 s1 = Some (1, s2)"
    using piperead_copy_spec [OF k1 s1(2) refl refl refl, where i = 0 and k = 1 and addr = "0x1800"] a s1(3) by auto
  have "\<not> pipe_none (pipes s1 ?pi)" using pipeq.none_iff [OF s1(2)] s1(3) by simp
  then have rd: "piperead 1 ?pi 0x1800 1 s1 = Some (Returns 1, wakeup (ChanWrite ?pi) s2)" using s2 by (simp add: piperead_def)
  have "pipe_calls ex_kend ?pi ex_kern ?w [] s1"
    using calls_write [OF calls_none k(1) s1(1)] by (simp add: moved_def ex_kern_fields ex_two_bytes del: uaddrs.simps)
  from calls_read [OF this k1 refl _ _ rd] have c: "pipe_calls ex_kend ?pi ex_kern ?w [pmem (km s2) 0x87000800] (wakeup (ChanWrite ?pi) s2)"
    using a by (simp add: moved_def del: uaddrs.simps)
  from pipe_fifo [OF this] c show ?thesis
    by (intro exI [of _ "wakeup (ChanWrite ?pi) s2"]) (simp add: ex_kern_fields ex_pipe_ok)
qed

theorem pipewrite_spec_witness:
  "\<exists>s'. pipewrite 0 0x87002000 0x1000 2 ex_kern = Some (Returns 2, s') \<and>
     pipe_items (pipes s' 0x87002000) = [pmem ex_mapped 0x87000000, pmem ex_mapped 0x87000001]"
  using pipewrite_spec [OF _ _ _ _ refl refl refl, of ex_kend "{}" ex_kern 0 "0x87002000" "0x1000" 2] ex_mapped_ok(1)
  by (simp add: ex_kern_fields ex_two_bytes ex_pipe_ok) (auto simp: ex_pipe_def)

theorem pipe_transfer_witness:
  "\<exists>s1 s2. pipewrite 0 0x87002000 0x1000 2 ex_kern = Some (Returns 2, s1) \<and>
     piperead 1 0x87002000 0x1800 2 s1 = Some (Returns 2, s2) \<and>
     pmem (km s2) 0x87000800 = pmem ex_mapped 0x87000000 \<and> pmem (km s2) 0x87000801 = pmem ex_mapped 0x87000001"
proof -
  have "readopen ex_pipe" by (simp add: ex_pipe_def)
  then obtain s1 s2 where "pipewrite 0 0x87002000 0x1000 (int 2) ex_kern = Some (Returns (int 2), s1)"
      "piperead 1 0x87002000 0x1800 (int 2) s1 = Some (Returns (int 2), s2)"
      "pmem (km s2) = wr [0x87000800, 0x87000801] (map (pmem ex_mapped) [0x87000000, 0x87000001]) (pmem ex_mapped)"
    using pipe_transfer [of ex_kend "{}" ex_kern 0 "{}" 1 "0x87002000" 2 "0x1000" "0x1800"] ex_mapped_ok
    by (auto simp: ex_kern_fields ex_two_bytes ex_pipe_ok)
  then show ?thesis by (auto simp: wr_def)
qed

theorem piperead_spec_witness:
  "\<exists>s'. piperead 0 0x87002000 0x1FFF 2 (upd_pipe 0x87002000 (\<lambda>x. pipe_put 9 (pipe_put 8 x)) ex_kern) =
     Some (Returns 1, s') \<and> pipe_items (pipes s' 0x87002000) = [] \<and> pmem (km s') 0x87000FFF = 8"
proof -
  let ?x = "pipe_put 9 (pipe_put 8 ex_pipe)"
  let ?s = "upd_pipe 0x87002000 (\<lambda>x. pipe_put 9 (pipe_put 8 x)) ex_kern"
  note p1 = pipeq.put_ok [OF ex_pipe_ok(1,4), of 8]
  have "\<not> pipe_full (pipe_put 8 ex_pipe)" using pipeq.full_iff p1 ex_pipe_ok(2) by simp
  note p2 = pipeq.put_ok [OF conjunct1 [OF p1] this, of 9]
  have x: "pipe_ok ?x" "pipe_items ?x = [8, 9]" using p2 p1 ex_pipe_ok(2) by simp_all
  have a: "uaddrs (pmem ex_mapped) ex_root 0x1FFF 2 = [0x87000FFF]"
    by (simp only: numeral_2_eq_2) (simp add: ex_mapped_uaddr PGROUNDDOWN_def)
  have k: "pt_inv ex_kend {} (pmem (km ?s)) (pagetable (procs ?s 0))" "user_space (pmem (km ?s)) (pagetable (procs ?s 0))"
    using ex_mapped_ok by (simp_all add: ex_kern_fields)
  show ?thesis
    using piperead_spec [where pi = "0x87002000" and addr = "0x1FFF" and n = 2, OF k _ _ refl refl refl] x a
    by (auto simp: ex_kern_fields wr_def)
qed

end
