(* ===== verification/ConsoleSpec.thy ===== *)
theory ConsoleSpec
  imports Console Ring KernSpec
begin

text \<open>
  What the console shows and takes in: numbers are printed so that they can be read back, the
  UART's transmit buffer is a queue in front of the device, and the console's input buffer is a
  line editor: finished lines that a reader may take, and the line being typed.
\<close>

section \<open>Printing numbers\<close>

definition digit_value :: "char \<Rightarrow> nat" where
  "digit_value c = (let n = of_char c in if n < 58 then n - 48 else n - 87)"

primrec digits_value :: "nat \<Rightarrow> string \<Rightarrow> nat" where
  "digits_value b [] = 0"
| "digits_value b (c # cs) = digit_value c + b * digits_value b cs"

definition read_number :: "nat \<Rightarrow> string \<Rightarrow> int" where
  "read_number b str =
     (case str of
        [] \<Rightarrow> 0
      | c # cs \<Rightarrow> if c = CHR ''-'' then - int (digits_value b (rev cs)) else int (digits_value b (rev str)))"

lemma digit_ok: "d < 16 \<Longrightarrow> digit_value (digits ! d) = d \<and> digits ! d \<noteq> CHR ''-''"
proof -
  assume "d < 16"
  moreover have "\<forall>d\<in>{..<16}. digit_value (digits ! d) = d \<and> digits ! d \<noteq> CHR ''-''" by code_simp
  ultimately show ?thesis by simp
qed

lemma digits_loop_ok:
  assumes "unat x < unat base ^ Suc k" and "1 < unat base" "unat base \<le> 16" and "k \<le> room"
  shows "\<exists>ds. digits_loop (Suc room) x base = Some ds \<and> ds \<noteq> [] \<and> length ds \<le> Suc k \<and>
    digits_value (unat base) ds = unat x \<and> CHR ''-'' \<notin> set ds"
  using assms(1,4)
proof (induction k arbitrary: x room)
  case 0
  then have x: "unat x < unat base" by simp
  then have "unat (x mod base) = unat x" "x div base = 0" by (simp_all add: unat_mod unat_div word_unat_eq_iff)
  then show ?case using digit_ok [of "unat x"] x assms(3) by (auto simp: Let_def)
next
  case (Suc k)
  have "unat x mod unat base < unat base" using assms(2) by simp
  then have d: "unat (x mod base) < 16" using assms(3) unfolding unat_mod by linarith
  have split: "unat x = unat (x mod base) + unat base * unat (x div base)" by (simp add: unat_mod unat_div)
  show ?case
  proof (cases "x div base = 0")
    case True
    then have "digits_loop (Suc room) x base = Some [digits ! unat (x mod base)]" by (simp add: Let_def)
    then show ?thesis using digit_ok [OF d] split True by auto
  next
    case False
    obtain r where r: "room = Suc r" "k \<le> r" using Suc.prems(2) by (cases room) auto
    have "unat (x div base) < unat base ^ Suc k"
      using Suc.prems(1) assms(2) by (simp add: unat_div div_less_iff_less_mult mult.commute)
    then obtain ds where ds: "digits_loop (Suc r) (x div base) base = Some ds" "ds \<noteq> []" "length ds \<le> Suc k"
        "digits_value (unat base) ds = unat (x div base)" "CHR ''-'' \<notin> set ds" using Suc.IH r(2) by blast
    have "digits_loop (Suc room) x base = Some (digits ! unat (x mod base) # ds)"
      using False ds(1) unfolding r(1) digits_loop.simps(2) [of "Suc r"] Let_def by simp
    then show ?thesis using digit_ok [OF d] ds split by auto
  qed
qed

lemma read_number_plain: "ds \<noteq> [] \<Longrightarrow> CHR ''-'' \<notin> set ds \<Longrightarrow> read_number b (rev ds) = int (digits_value b ds)"
  by (cases "rev ds") (auto simp: read_number_def rev_swap)

lemma read_number_neg: "read_number b (rev (ds @ ''-'')) = - int (digits_value b ds)"
  by (simp add: read_number_def)

lemma printint_ok:
  assumes base: "base = 10 \<or> base = 16"
  shows "\<exists>out. printint i base sign = Some out \<and> length out \<le> 11 \<and>
    read_number (unat base) out = (if sign then sint i else uint i)"
proof -
  let ?neg = "sign \<and> i <s 0"
  define x where "x = (if ?neg then - i else i)"
  have "unat x < 2 ^ 32" using unsigned_less [of x] by simp
  moreover have "(2 :: nat) ^ 32 \<le> unat base ^ Suc 9" "1 < unat base" "unat base \<le> 16" using base by auto
  ultimately have "unat x < unat base ^ Suc 9" "1 < unat base" "unat base \<le> 16" by linarith+
  from digits_loop_ok [OF this, of 15] obtain ds where ds: "digits_loop 16 x base = Some ds" "ds \<noteq> []" "length ds \<le> 10"
      "digits_value (unat base) ds = unat x" "CHR ''-'' \<notin> set ds"
    by (auto simp: numeral_eq_Suc)
  have neg: "int (unat (- i)) = - sint i" if "i <s 0"
  proof -
    have "sint i < 0" using that by (simp add: word_sless_alt)
    then have u: "sint i = uint i - 2 ^ 32" "0 < uint i" using sint_u32 [of i] by (auto split: if_splits)
    have "int (unat (- i)) = (- uint i) mod 2 ^ 32" using uint_word_ariths(4) [of i] by simp
    also have "\<dots> = (2 ^ 32 - uint i) mod 2 ^ 32" using mod_add_self1 [of "2 ^ 32" "- uint i"] by simp
    also have "\<dots> = 2 ^ 32 - uint i"
      using u(2) unsigned_less [of i, where ?'a = int] by (intro mod_pos_pos_trivial) simp_all
    finally show ?thesis using u by simp
  qed
  have pos: "int (unat i) = sint i" if "\<not> i <s 0"
    using that sint_u32 [of i] unsigned_less [of i, where ?'a = int] by (simp add: word_sless_alt split: if_splits)
  have out: "printint i base sign = Some (if ?neg then rev (ds @ ''-'') else rev ds)"
    using ds(1,3) by (simp add: printint_def Let_def flip: x_def)
  show ?thesis
  proof (cases ?neg)
    case True
    then show ?thesis using out ds(3,4) neg read_number_neg [of "unat base" ds] by (simp add: x_def)
  next
    case False
    then show ?thesis using out ds(3,4) pos read_number_plain [OF ds(2,5), of "unat base"] by (auto simp: x_def)
  qed
qed

section \<open>The transmit buffer\<close>

definition tx_ok :: "uart \<Rightarrow> bool" where
  "tx_ok u \<longleftrightarrow> length (tx_buf u) = UART_TX_BUF_SIZE \<and> unat (tx_write u - tx_read u) \<le> UART_TX_BUF_SIZE"

definition tx_items :: "uart \<Rightarrow> u8 list" where
  "tx_items u = ring_q UART_TX_BUF_SIZE (tx_buf u) (tx_read u) (tx_write u)"

definition tx_full :: "uart \<Rightarrow> bool" where
  "tx_full u \<longleftrightarrow> tx_write u = tx_read u + of_nat UART_TX_BUF_SIZE"

definition tx_none :: "uart \<Rightarrow> bool" where
  "tx_none u \<longleftrightarrow> tx_write u = tx_read u"

definition tx_put :: "u8 \<Rightarrow> uart \<Rightarrow> uart" where
  "tx_put c u = u\<lparr>tx_buf := (tx_buf u)[unat (tx_write u mod of_nat UART_TX_BUF_SIZE) := c], tx_write := tx_write u + 1\<rparr>"

definition tx_first :: "uart \<Rightarrow> u8" where
  "tx_first u = tx_buf u ! unat (tx_read u mod of_nat UART_TX_BUF_SIZE)"

definition tx_next :: "uart \<Rightarrow> uart" where
  "tx_next u = u\<lparr>tx_read := tx_read u + 1\<rparr>"

lemma unat_mod_32: "unat (w mod 32 :: u64) = unat w mod 32"
  by (simp add: unat_mod)

interpretation txq: bounded_queue tx_ok tx_items tx_full tx_none tx_put tx_first tx_next UART_TX_BUF_SIZE
proof
  fix u :: uart and c
  assume ok: "tx_ok u"
  then have len: "length (tx_buf u) = 32" and le: "unat (tx_write u - tx_read u) \<le> 32" by (simp_all add: tx_ok_def)
  show "length (tx_items u) \<le> UART_TX_BUF_SIZE" using le by (simp add: tx_items_def)
  have "tx_write u = tx_read u + 32 \<longleftrightarrow> tx_write u - tx_read u = 32" by (auto simp: algebra_simps)
  also have "\<dots> \<longleftrightarrow> unat (tx_write u - tx_read u) = 32" by (simp add: word_unat_eq_iff)
  finally show full: "tx_full u \<longleftrightarrow> length (tx_items u) = UART_TX_BUF_SIZE" by (simp add: tx_full_def tx_items_def)
  have "tx_write u = tx_read u \<longleftrightarrow> unat (tx_write u - tx_read u) = 0" by (simp add: unat_eq_0)
  then show none: "tx_none u \<longleftrightarrow> tx_items u = []"
    by (simp add: tx_none_def length_0_conv [symmetric] tx_items_def del: length_0_conv)
  show "tx_ok (tx_put c u) \<and> tx_items (tx_put c u) = tx_items u @ [c]" if "\<not> tx_full u"
  proof -
    have lt: "unat (tx_write u - tx_read u) < 32" using that full le by (simp add: tx_items_def)
    then show ?thesis
      using ring_q_put [of 32 "tx_buf u" "tx_write u" "tx_read u" c] unat_step [of "tx_write u" "tx_read u" 32] len
      by (simp add: tx_items_def tx_put_def tx_ok_def unat_mod_32)
  qed
  show "tx_ok (tx_next u) \<and> tx_items u = tx_first u # tx_items (tx_next u)" if "\<not> tx_none u"
  proof -
    have ne: "tx_read u \<noteq> tx_write u" using that by (simp add: tx_none_def)
    then show ?thesis
      using ring_q_get [of 32 "tx_read u" "tx_write u" "tx_buf u"] unat_step_down [OF ne] len le
      by (simp add: tx_items_def tx_first_def tx_next_def tx_ok_def unat_mod_32)
  qed
qed

text \<open>\<open>uart_send\<close> hands the front of the queue to the device, as many bytes as it accepts.\<close>

lemma uart_send_loop_ok:
  assumes "tx_ok (uart s)" and "tx_ready (uart s) = n"
  shows "tx_ok (uart (uart_send_loop n s)) \<and> tx_items (uart (uart_send_loop n s)) = drop n (tx_items (uart s)) \<and>
    uart_out (uart_send_loop n s) = uart_out s @ take n (tx_items (uart s))"
  using assms
proof (induction n arbitrary: s)
  case 0
  then show ?case by simp
next
  case (Suc n)
  let ?u = "uart s"
  show ?case
  proof (cases "tx_none ?u")
    case True
    then show ?thesis using txq.none_iff [OF Suc.prems(1)] Suc.prems(1) by (simp add: tx_none_def)
  next
    case False
    define t where "t = (let s = wakeup ChanUart s in
      s\<lparr>uart_out := uart_out s @ [tx_first ?u], uart := (tx_next ?u)\<lparr>tx_ready := n\<rparr>\<rparr>)"
    have run: "uart_send_loop (Suc n) s = uart_send_loop n t"
      using False by (simp add: t_def Let_def tx_none_def tx_first_def tx_next_def)
    have q: "tx_ok (tx_next ?u)" "tx_items ?u = tx_first ?u # tx_items (tx_next ?u)"
      using txq.get_ok [OF Suc.prems(1) False] by auto
    have t: "tx_ok (uart t)" "tx_ready (uart t) = n" "tx_items (uart t) = tx_items (tx_next ?u)"
        "uart_out t = uart_out s @ [tx_first ?u]"
      using q(1) by (simp_all add: t_def Let_def tx_ok_def tx_items_def)
    show ?thesis using Suc.IH [OF t(1,2)] run q(2) t(3,4) by simp
  qed
qed

lemma uart_put_ok:
  assumes "tx_ok (uart s)" and "\<not> tx_full (uart s)"
  shows "\<exists>s'. uart_put p c s = (True, s') \<and> tx_ok (uart s') \<and>
    uart_out s' @ tx_items (uart s') = uart_out s @ tx_items (uart s) @ [c]"
proof -
  let ?s = "s\<lparr>uart := tx_put c (uart s)\<rparr>"
  have "uart_put p c s = (True, uart_send ?s)"
    using assms(2) by (simp add: uart_put_def tx_full_def tx_put_def Let_def)
  moreover have "tx_ok (uart ?s)" "tx_items (uart ?s) = tx_items (uart s) @ [c]"
    using txq.put_ok [OF assms] by simp_all
  ultimately show ?thesis using uart_send_loop_ok [of ?s "tx_ready (uart ?s)"]
    by (simp add: uart_send_def del: take_append drop_append)
qed

section \<open>The line editor\<close>

definition con_ok :: "console \<Rightarrow> bool" where
  "con_ok t \<longleftrightarrow> length (cbuf t) = INPUT_BUF_SIZE \<and>
     unat (write_index t - read_index t) + unat (edit_index t - write_index t) \<le> INPUT_BUF_SIZE"

text \<open>The input a reader may take, and the line being typed.\<close>

definition con_lines :: "console \<Rightarrow> u8 list" where
  "con_lines t = ring_q INPUT_BUF_SIZE (cbuf t) (read_index t) (write_index t)"

definition con_typed :: "console \<Rightarrow> u8 list" where
  "con_typed t = ring_q INPUT_BUF_SIZE (cbuf t) (write_index t) (edit_index t)"

text \<open>What a key does to them.\<close>

definition key :: "u8 \<Rightarrow> u8 list \<times> u8 list \<Rightarrow> u8 list \<times> u8 list" where
  "key c v =
     (let (ready, typed) = v
      in if c = 16 \<or> c = 0 then v
         else if c = 0x7f then (ready, butlast typed)
         else if length ready + length typed < INPUT_BUF_SIZE then
           let c = (if c = 13 then 10 else c)
           in if c = 10 \<or> length ready + length typed + 1 = INPUT_BUF_SIZE then (ready @ typed @ [c], [])
              else (ready, typed @ [c])
         else v)"

lemma unat_mod_1024: "unat (w mod 1024 :: u32) = unat w mod 1024"
  by (simp add: unat_mod)

lemma con_room:
  assumes "con_ok t"
  shows "unat (edit_index t - read_index t) = length (con_lines t) + length (con_typed t)"
    "length (con_lines t) + length (con_typed t) \<le> INPUT_BUF_SIZE"
  using assms unat_between [of "write_index t" "read_index t" "edit_index t"]
  by (simp_all add: con_ok_def con_lines_def con_typed_def)

definition con_store :: "u8 \<Rightarrow> console \<Rightarrow> console" where
  "con_store c t = t\<lparr>cbuf := (cbuf t)[unat (edit_index t mod of_nat INPUT_BUF_SIZE) := c], edit_index := edit_index t + 1\<rparr>"

lemma con_store_ok:
  assumes ok: "con_ok t" and lt: "length (con_lines t) + length (con_typed t) < INPUT_BUF_SIZE"
  shows "con_ok (con_store c t)" "con_lines (con_store c t) = con_lines t" "con_typed (con_store c t) = con_typed t @ [c]"
proof -
  have len: "length (cbuf t) = 1024" using ok by (simp add: con_ok_def)
  have room: "unat (write_index t - read_index t) + unat (edit_index t - write_index t) < 1024"
    using lt by (simp add: con_lines_def con_typed_def)
  then have e: "unat (edit_index t - write_index t) < 1024" by simp
  note step = unat_step [OF e]
  show "con_ok (con_store c t)" using room step len by (simp add: con_ok_def con_store_def)
  show "con_lines (con_store c t) = con_lines t"
    using ring_q_keep [of 1024 "cbuf t" "write_index t" "read_index t" "edit_index t" c] room len
    by (simp add: con_lines_def con_store_def unat_mod_1024)
  show "con_typed (con_store c t) = con_typed t @ [c]"
    using ring_q_put [of 1024 "cbuf t" "edit_index t" "write_index t" c] e len
    by (simp add: con_typed_def con_store_def unat_mod_1024)
qed

lemma con_commit_ok:
  assumes "con_ok t"
  shows "con_ok (t\<lparr>write_index := edit_index t\<rparr>)" "con_lines (t\<lparr>write_index := edit_index t\<rparr>) = con_lines t @ con_typed t"
    "con_typed (t\<lparr>write_index := edit_index t\<rparr>) = []"
proof -
  have lt: "unat (write_index t - read_index t) + unat (edit_index t - write_index t) < 2 ^ LENGTH(32)"
    using assms by (simp add: con_ok_def)
  show "con_ok (t\<lparr>write_index := edit_index t\<rparr>)" using assms unat_between [OF lt] by (simp add: con_ok_def)
  show "con_lines (t\<lparr>write_index := edit_index t\<rparr>) = con_lines t @ con_typed t"
    using ring_q_append [of 1024 "write_index t" "read_index t" "edit_index t" "cbuf t"] lt
    by (simp add: con_lines_def con_typed_def)
  show "con_typed (t\<lparr>write_index := edit_index t\<rparr>) = []" by (simp add: con_typed_def)
qed

lemma con_erase_ok:
  assumes ok: "con_ok t" and ne: "edit_index t \<noteq> write_index t"
  shows "con_ok (t\<lparr>edit_index := edit_index t - 1\<rparr>)" "con_lines (t\<lparr>edit_index := edit_index t - 1\<rparr>) = con_lines t"
    "con_typed (t\<lparr>edit_index := edit_index t - 1\<rparr>) = butlast (con_typed t)"
  using ring_q_butlast(1) [OF not_sym [OF ne], of 1024 "cbuf t"] ring_q_butlast(2) [OF not_sym [OF ne]] ok
  by (simp_all add: con_ok_def con_lines_def con_typed_def)

lemma kprint_frame [simp]: "cons (kprint m s) = cons s" "uart (kprint m s) = uart s" "procs (kprint m s) = procs s"
  by (simp_all add: kprint_def)

lemma console_put_frame [simp]: "cons (console_put c s) = cons s"
  by (simp add: console_put_def uart_put_nosleep_def split: option.splits)

lemma printf_proc_line:
  "\<exists>out. printf ''%d %s %s'' [AInt i, AStr (Some a), AStr (Some b)] s = Some (kprint out s)"
  using printint_ok [of 10 i True] by (auto simp: printf_def)

lemma printf_newline: "\<exists>out. printf newline [] s = Some (kprint out s)"
  by (rule exI [of _ newline]) (simp add: printf_def newline_def)

lemma procdump_loop_total: "\<exists>s'. procdump_loop n p s = Some s' \<and> cons s' = cons s"
proof (induction n arbitrary: p s)
  case (Suc n)
  show ?case
  proof (cases "state (procs s p) = UNUSED")
    case False
    obtain out where p: "printf ''%d %s %s'' [AInt (of_int (pid (procs s p))), AStr (Some (state_name (state (procs s p)))),
          AStr (Some (c_string (pname (procs s p))))] s = Some (kprint out s)" using printf_proc_line by blast
    obtain out' where "printf newline [] (kprint out s) = Some (kprint out' (kprint out s))" using printf_newline by blast
    then show ?thesis using p False Suc.IH [of "Suc p" "kprint out' (kprint out s)"] by auto
  qed (use Suc in simp)
qed simp

lemma procdump_total: "\<exists>s'. procdump s = Some s' \<and> cons s' = cons s"
proof -
  obtain out where "printf newline [] s = Some (kprint out s)" using printf_newline by blast
  then show ?thesis using procdump_loop_total [of NPROC 0 "kprint out s"] by (auto simp: procdump_def)
qed

section \<open>Properties\<close>

text \<open>What \<open>printint\<close> prints in base 10 or 16 can be read back: it is a numeral, with a minus sign if the
  number is negative, whose value is the number; and the digits and the sign fit the buffer of 16
  characters.\<close>

theorem printint_round_trip:
  assumes "base = 10 \<or> base = 16"
  shows "\<exists>out. printint i base sign = Some out \<and> length out \<le> 11 \<and>
    read_number (unat base) out = (if sign then sint i else uint i)"
  using assms by (rule printint_ok)

theorem printint_round_trip_witness: "\<exists>out. printint (- 42) 10 True = Some out \<and> read_number 10 out = - 42"
  using printint_round_trip [of 10 "- 42" True] by auto

text \<open>\<open>uart_put\<close> with room in the transmit buffer loses nothing and keeps the order: what the device has
  been given followed by what is still buffered grows by exactly the new byte.\<close>

theorem uart_put_order:
  assumes "tx_ok (uart s)" and "\<not> tx_full (uart s)"
  shows "\<exists>s'. uart_put p c s = (True, s') \<and> tx_ok (uart s') \<and>
    uart_out s' @ tx_items (uart s') = uart_out s @ tx_items (uart s) @ [c]"
  using assms by (rule uart_put_ok)

theorem uart_put_order_witness: "\<exists>s'. uart_put 0 65 ex_kern = (True, s') \<and> uart_out s' @ tx_items (uart s') = [65]"
  using uart_put_order [of ex_kern 0 65] by (auto simp: ex_kern_def tx_ok_def tx_full_def tx_items_def)

text \<open>C34. The console is a line editor.  A key does to the finished input and to the line being typed what
  \<open>key\<close> says: backspace removes the last character of the line, carriage return and newline finish
  the line, a full buffer finishes it too, and any other character is appended; the counters of the
  ring may wrap around.\<close>

theorem console_line_editor:
  assumes "con_ok (cons s)"
  shows "\<exists>s'. console_handle_irq c s = Some s' \<and> con_ok (cons s') \<and>
    (con_lines (cons s'), con_typed (cons s')) = key c (con_lines (cons s), con_typed (cons s))"
proof -
  let ?t = "cons s"
  note room = con_room [OF assms(1)]
  have lt: "edit_index ?t - read_index ?t < 1024 \<longleftrightarrow> length (con_lines ?t) + length (con_typed ?t) < 1024"
    using room(1) by (simp add: word_less_nat_alt)
  consider "c = 16" | "c = 0x7f" | "c = 0" | "c \<noteq> 16" "c \<noteq> 0x7f" "c \<noteq> 0" by blast
  then show ?thesis
  proof cases
    case 1
    then show ?thesis using assms procdump_total [of s] by (auto simp: console_handle_irq_def key_def)
  next
    case 2
    have "con_typed ?t = [] \<longleftrightarrow> edit_index ?t = write_index ?t"
      by (simp add: length_0_conv [symmetric] con_typed_def unat_eq_0 del: length_0_conv)
    then show ?thesis using 2 assms con_erase_ok [OF assms(1)]
      by (cases "edit_index ?t = write_index ?t") (auto simp: console_handle_irq_def key_def)
  next
    case 3
    then show ?thesis using assms by (simp add: console_handle_irq_def key_def)
  next
    case 4
    define d where "d = (if c = 13 then 10 else c)"
    let ?u = "con_store d ?t"
    show ?thesis
    proof (cases "length (con_lines ?t) + length (con_typed ?t) < 1024")
      case False
      then show ?thesis using 4 assms lt by (simp add: console_handle_irq_def key_def)
    next
      case True
      note st = con_store_ok [OF assms(1), of d] and cm = con_commit_ok [of ?u]
      have full: "edit_index ?u - read_index ?u = 1024 \<longleftrightarrow> length (con_lines ?t) + length (con_typed ?t) + 1 = 1024"
        using con_room(1) [of ?u] st True by (simp add: word_unat_eq_iff)
      obtain s' where "console_handle_irq c s = Some s'"
          "cons s' = (if d = 10 \<or> edit_index ?u - read_index ?u = 1024 then ?u\<lparr>write_index := edit_index ?u\<rparr> else ?u)"
        using 4 lt True by (simp add: console_handle_irq_def con_store_def Let_def flip: d_def)
      then show ?thesis using 4 True st cm full by (auto simp: key_def Let_def d_def)
    qed
  qed
qed

theorem console_line_editor_witness:
  "\<exists>s'. console_handle_irq 97 ex_kern = Some s' \<and> con_typed (cons s') = [97] \<and> con_lines (cons s') = []"
proof -
  have e: "con_ok (cons ex_kern)" "con_lines (cons ex_kern) = []" "con_typed (cons ex_kern) = []"
    by (simp_all add: ex_kern_def con_ok_def con_lines_def con_typed_def)
  show ?thesis using console_line_editor [OF e(1), of 97] e(2,3) by (auto simp: key_def)
qed

end
