(* ===== verification/ProcSpec.thy ===== *)
theory ProcSpec
  imports Proc KernSpec
begin

text \<open>
  Processes: the random numbers and the lottery of the scheduler, the parents of orphans, the scan of
  \<^verbatim>\<open>wait\<close> (theory \<open>Reap\<close> goes on with it), and the allocation of a process slot with its page table.
\<close>

section \<open>Random numbers\<close>

definition lfsr_next :: "u16 \<Rightarrow> u16" where
  "lfsr_next l = drop_bit 1 l OR push_bit 15 ((l XOR drop_bit 2 l XOR drop_bit 3 l XOR drop_bit 5 l) AND 1)"

lemma rand_eq: "rand s = (lfsr_next (lfsr s), s\<lparr>lfsr := lfsr_next (lfsr s)\<rparr>)"
  by (simp add: rand_def lfsr_next_def Let_def)

lemma bit_lfsr_next:
  "bit (lfsr_next l) n \<longleftrightarrow> (if n = 15 then (bit l 0 \<noteq> bit l 2) \<noteq> (bit l 3 \<noteq> bit l 5) else bit l (Suc n))"
proof (cases "n < 16")
  case True
  have "\<not> bit l 16" by (simp add: bit_word.rep_eq)
  then show ?thesis using True
    by (auto simp: lfsr_next_def bit_or_iff bit_and_iff bit_xor_iff bit_drop_bit_eq bit_push_bit_iff bit_1_iff)
next
  case False
  then have "\<not> bit l (Suc n)" "\<not> bit (lfsr_next l) n" using bit_imp_le_length by fastforce+
  then show ?thesis using False by simp
qed

lemma lfsr_next_inj: "lfsr_next k = lfsr_next l \<Longrightarrow> k = l"
proof (rule bit_word_eqI)
  fix n
  assume eq: "lfsr_next k = lfsr_next l" and n: "n < LENGTH(16)"
  have up: "bit k (Suc m) = bit l (Suc m)" if "m < 15" for m
    using arg_cong [OF eq, of "\<lambda>w. bit w m"] that by (simp add: bit_lfsr_next)
  have "bit k 2 = bit l 2" "bit k 3 = bit l 3" "bit k 5 = bit l 5" using up [of 1] up [of 2] up [of 4] by (simp_all add: numeral_eq_Suc)
  then have zero: "bit k 0 = bit l 0" using arg_cong [OF eq, of "\<lambda>w. bit w 15"] by (auto simp: bit_lfsr_next)
  show "bit k n = bit l n" using up [of "n - 1"] zero n by (cases n) simp_all
qed

lemma lfsr_next_0: "lfsr_next 0 = 0"
  by (simp add: lfsr_next_def)

section \<open>The lottery\<close>

definition ready :: "(nat \<Rightarrow> proc) \<Rightarrow> nat \<Rightarrow> bool" where
  "ready t i \<longleftrightarrow> state (t i) = RUNNABLE"

text \<open>The sum of the tickets of the runnable processes below slot \<open>k\<close>, on top of \<open>t0\<close>.\<close>

primrec tally :: "nat \<Rightarrow> (nat \<Rightarrow> proc) \<Rightarrow> nat \<Rightarrow> nat" where
  "tally t0 t 0 = t0"
| "tally t0 t (Suc k) = tally t0 t k + (if ready t k then nat (tickets (t k)) else 0)"

lemma tally_mono: "i \<le> j \<Longrightarrow> tally t0 t i \<le> tally t0 t j"
  by (induction j) (auto simp: le_Suc_eq)

lemma tally_start: "t0 \<le> tally t0 t i"
  using tally_mono [of 0 i t0 t] by simp

lemma tally_idle: "(\<And>k. i \<le> k \<Longrightarrow> k < j \<Longrightarrow> \<not> ready t k) \<Longrightarrow> i \<le> j \<Longrightarrow> tally t0 t j = tally t0 t i"
  by (induction j) (auto simp: le_Suc_eq)

lemma count_tickets_eq:
  assumes "\<forall>j<NPROC. ready t j \<longrightarrow> 0 \<le> tickets (t j)" and "i + n \<le> NPROC"
  shows "count_tickets n i t (of_nat (tally t0 t i)) tk =
    (of_nat (tally t0 t (i + n)),
     \<lambda>j. if i \<le> j \<and> j < i + n \<and> ready t j then ucast (of_nat (tally t0 t (Suc j)) :: u64) else tk j)"
  using assms(2)
proof (induction n arbitrary: i tk)
  case 0
  then show ?case by (auto simp: fun_eq_iff)
next
  case (Suc n)
  have pos: "0 \<le> tickets (t i)" if "ready t i" using assms(1) Suc.prems that by simp
  show ?case
  proof (cases "ready t i")
    case True
    then have "of_nat (tally t0 t i) + of_int (tickets (t i)) = (of_nat (tally t0 t (Suc i)) :: u64)"
      using pos by simp
    then show ?thesis
      using True Suc.IH [of "Suc i"] Suc.prems by (auto simp: ready_def Let_def fun_eq_iff less_Suc_eq_le le_less)
  next
    case False
    then show ?thesis
      using Suc.IH [of "Suc i"] Suc.prems by (auto simp: ready_def fun_eq_iff less_Suc_eq_le le_less)
  qed
qed

text \<open>The array of the loop, compared with a winning number as the code compares it.\<close>

lemma ticket_compare:
  assumes "n < 2 ^ 31"
  shows "(w :: u64) < scast (ucast (of_nat n :: u64) :: u32) \<longleftrightarrow> unat w < n"
proof -
  have "(ucast (of_nat n :: u64) :: u32) = of_nat n"
    using assms by (simp add: unsigned_of_nat take_bit_nat_eq_self)
  moreover have "scast (of_nat n :: u32) = (of_nat n :: u64)"
    using assms by (simp add: signed_of_nat signed_take_bit_int_eq_self)
  moreover have "unat (of_nat n :: u64) = n" using assms by (simp add: unat_of_nat take_bit_nat_eq_self)
  ultimately show ?thesis by (simp add: word_less_nat_alt)
qed

lemma draw_first:
  assumes "\<And>j. i \<le> j \<Longrightarrow> j < i + n \<Longrightarrow> (w < scast (tk j)) = P j" and "i \<le> m" "m < i + n" "P m"
    and "\<And>j. i \<le> j \<Longrightarrow> j < m \<Longrightarrow> \<not> P j"
  shows "draw n i tk w = m"
  using assms
proof (induction n arbitrary: i)
  case (Suc n)
  show ?case
  proof (cases "i = m")
    case True
    then show ?thesis using Suc.prems(1) [of i] Suc.prems(4) by simp
  next
    case False
    have "\<not> w < scast (tk i)" using False Suc.prems(1) [of i] Suc.prems(2,5) by auto
    moreover have "draw n (Suc i) tk w = m" using False Suc.prems by (intro Suc.IH) auto
    ultimately show ?thesis by simp
  qed
qed simp

lemma draw_before: "i \<le> k \<Longrightarrow> k < i + n \<Longrightarrow> k < draw n i tk w \<Longrightarrow> \<not> w < scast (tk k)"
proof (induction n arbitrary: i)
  case (Suc n)
  then show ?case using Suc.IH [of "Suc i"] by (cases "k = i") (auto split: if_splits)
qed simp

text \<open>
  The array after a count of the tickets, with \<open>t0\<close> the total of the rounds before.  The entries of slots
  that are not runnable are left from before.
\<close>

definition stale_ok :: "nat \<Rightarrow> (nat \<Rightarrow> u32) \<Rightarrow> bool" where
  "stale_ok t0 tk \<longleftrightarrow> (\<forall>j<NPROC. unat (tk j) \<le> t0)"

lemma stale_compare:
  assumes "stale_ok t0 tk" and "t0 < 2 ^ 31" and "j < NPROC"
  shows "(w :: u64) < scast (tk j) \<longleftrightarrow> unat w < unat (tk j)"
proof -
  have "unat (tk j) < 2 ^ 31" using assms by (auto simp: stale_ok_def dest: spec [of _ j])
  moreover have "ucast (of_nat (unat (tk j)) :: u64) = tk j"
    by (rule unsigned_word_eqI) (simp add: unsigned_of_nat take_bit_nat_eq_self unsigned_ucast_eq take_bit_word_eq_self)
  ultimately show ?thesis using ticket_compare [of "unat (tk j)" w] by simp
qed

lemma count_array:
  assumes "\<forall>j<NPROC. ready t j \<longrightarrow> 0 \<le> tickets (t j)" and small: "tally t0 t NPROC < 2 ^ 31" and "stale_ok t0 tk"
    and "count_tickets NPROC 0 t (of_nat t0) tk = (tot, tk')"
  shows "unat tot = tally t0 t NPROC" and "j < NPROC \<Longrightarrow> unat (tk' j) = (if ready t j then tally t0 t (Suc j) else unat (tk j))"
    and "stale_ok (tally t0 t NPROC) tk'"
proof -
  have eq: "tot = of_nat (tally t0 t NPROC)"
      "tk' = (\<lambda>j. if j < NPROC \<and> ready t j then ucast (of_nat (tally t0 t (Suc j)) :: u64) else tk j)"
    using count_tickets_eq [OF assms(1), of 0 NPROC t0 tk] assms(4) by (simp_all add: fun_eq_iff)
  show "unat tot = tally t0 t NPROC" using small by (simp add: eq unat_of_nat take_bit_nat_eq_self)
  have le: "tally t0 t (Suc j) \<le> tally t0 t NPROC" if "j < NPROC" for j using that by (intro tally_mono) simp
  show tk': "unat (tk' j) = (if ready t j then tally t0 t (Suc j) else unat (tk j))" if "j < NPROC" for j
    using that le [OF that] small by (simp add: eq unsigned_of_nat take_bit_nat_eq_self del: tally.simps)
  show "stale_ok (tally t0 t NPROC) tk'"
    using tk' le assms(3) tally_start [of t0 t NPROC] unfolding stale_ok_def by (auto simp del: tally.simps intro: order_trans)
qed

lemma draw_tickets:
  assumes a: "\<forall>j<NPROC. ready t j \<longrightarrow> 0 \<le> tickets (t j)" "tally t0 t NPROC < 2 ^ 31" "stale_ok t0 tk"
      "count_tickets NPROC 0 t (of_nat t0) tk = (tot, tk')"
    and w: "t0 \<le> unat w" "unat w < tally t0 t NPROC"
  shows "draw NPROC 0 tk' w = i \<longleftrightarrow> ready t i \<and> i < NPROC \<and> tally t0 t i \<le> unat w \<and> unat w < tally t0 t (Suc i)"
proof -
  note c = count_array [OF a]
  have cmp: "w < scast (tk' j) \<longleftrightarrow> ready t j \<and> unat w < tally t0 t (Suc j)" if "j < NPROC" for j
    using stale_compare [OF c(3) a(2) that, of w] c(2) [OF that] a(3) w(1) that
    by (auto simp: stale_ok_def simp del: tally.simps)
  define k where "k = (LEAST k. unat w < tally t0 t k)"
  have k: "unat w < tally t0 t k" "k \<le> NPROC" unfolding k_def using w(2) by (auto intro: LeastI Least_le)
  obtain l where l: "k = Suc l" using k(1) w(1) by (cases k) auto
  have below: "tally t0 t l \<le> unat w" using not_less_Least [of l "\<lambda>k. unat w < tally t0 t k"] l by (simp add: k_def)
  have rl: "ready t l" using k(1) below unfolding l by (cases "ready t l") auto
  have "\<not> unat w < tally t0 t (Suc j)" if "j < l" for j using tally_mono [of "Suc j" l t0 t] that below by simp
  then have "draw NPROC 0 tk' w = l"
    by (intro draw_first [of 0 NPROC w tk' "\<lambda>j. ready t j \<and> unat w < tally t0 t (Suc j)"])
      (use cmp k rl in \<open>auto simp: l simp del: tally.simps\<close>)
  moreover have "i = l" if "tally t0 t i \<le> unat w" "unat w < tally t0 t (Suc i)"
  proof (rule ccontr)
    assume "i \<noteq> l"
    then show False using tally_mono [of "Suc i" l t0 t] tally_mono [of "Suc l" i t0 t] that below k(1) l by (cases "i < l") auto
  qed
  ultimately show ?thesis using rl below k l by auto
qed

lemma card_winners:
  assumes a: "\<forall>j<NPROC. ready t j \<longrightarrow> 0 \<le> tickets (t j)" "tally t0 t NPROC < 2 ^ 31" "stale_ok t0 tk"
      "count_tickets NPROC 0 t (of_nat t0) tk = (tot, tk')"
    and i: "i < NPROC"
  shows "card {w. t0 \<le> w \<and> w < tally t0 t NPROC \<and> draw NPROC 0 tk' (of_nat w) = i} = (if ready t i then nat (tickets (t i)) else 0)"
proof -
  have le: "tally t0 t (Suc i) \<le> tally t0 t NPROC" "t0 \<le> tally t0 t i" using i tally_start by (auto intro: tally_mono simp del: tally.simps)
  have "{w. t0 \<le> w \<and> w < tally t0 t NPROC \<and> draw NPROC 0 tk' (of_nat w) = i} =
      (if ready t i then {tally t0 t i..<tally t0 t (Suc i)} else {})" (is "?L = ?R")
  proof (rule set_eqI)
    fix w
    have "draw NPROC 0 tk' (of_nat w) = i \<longleftrightarrow> ready t i \<and> tally t0 t i \<le> w \<and> w < tally t0 t (Suc i)"
      if "t0 \<le> w" "w < tally t0 t NPROC"
    proof -
      have "unat (of_nat w :: u64) = w" using that(2) a(2) by (simp add: unat_of_nat take_bit_nat_eq_self)
      then show ?thesis using draw_tickets [OF a, of "of_nat w" i] that i by simp
    qed
    then show "w \<in> ?L \<longleftrightarrow> w \<in> ?R" using le by (auto simp del: tally.simps)
  qed
  then show ?thesis by simp
qed

lemma draw_old:
  assumes a: "\<forall>j<NPROC. ready t j \<longrightarrow> 0 \<le> tickets (t j)" "tally t0 t NPROC < 2 ^ 31" "stale_ok t0 tk"
      "count_tickets NPROC 0 t (of_nat t0) tk = (tot, tk')"
    and w: "unat w < t0" and k: "k < NPROC" "k < draw NPROC 0 tk' w"
  shows "\<not> ready t k"
proof
  assume "ready t k"
  then have "unat w < unat (tk' k)" using count_array(2) [OF a k(1)] w tally_start [of t0 t "Suc k"] by (simp del: tally.simps)
  then have "w < scast (tk' k)" using stale_compare [OF count_array(3) [OF a] a(2) k(1)] by blast
  then show False using draw_before [of 0 k NPROC tk' w] k by simp
qed

section \<open>Orphans\<close>

lemma reparent_loop_parent:
  "parent (procs (reparent_loop n pp p init s) q) =
     (if pp \<le> q \<and> q < pp + n \<and> parent (procs s q) = Some p then Some init else parent (procs s q))"
proof (induction n arbitrary: pp s)
  case (Suc n)
  define s1 where "s1 = (if parent (procs s pp) = Some p then wakeup (ChanProc init) (upd_proc pp (\<lambda>x. x\<lparr>parent := Some init\<rparr>) s) else s)"
  have "parent (procs s1 q) = (if q = pp \<and> parent (procs s q) = Some p then Some init else parent (procs s q))"
    by (auto simp: s1_def wakeup_procs procs_upd_proc)
  then show ?case using Suc.IH [of "Suc pp" s1] by (auto simp: s1_def)
qed simp

section \<open>Waiting for a child\<close>

lemma wait_scan_spec:
  "wait_scan n pp p k t =
     (find (\<lambda>q. parent (t q) = Some p \<and> state (t q) = ZOMBIE) [pp..<pp + n],
      k \<or> (\<exists>q\<in>{pp..<pp + n}. parent (t q) = Some p))"
proof (induction n arbitrary: pp k)
  case (Suc n)
  have s: "[pp..<pp + Suc n] = pp # [Suc pp..<Suc pp + n]" "{pp..<pp + Suc n} = insert pp {Suc pp..<Suc pp + n}"
    by (auto simp: upt_conv_Cons simp del: upt_Suc)
  show ?case using Suc.IH [of "Suc pp"] unfolding s by auto
qed simp

section \<open>Statistics\<close>

definition ld32 :: "mem \<Rightarrow> u64 \<Rightarrow> u32" where
  "ld32 m a = le_word (ld_bytes m a 4)"

lemma ld32_st32:
  assumes "i < 1000" "j < 1000"
  shows "ld32 (st32 (ps + of_nat (4 * j)) v m) (ps + of_nat (4 * i)) = (if i = j then v else ld32 m (ps + of_nat (4 * i)))"
proof (cases "i = j")
  case True
  then show ?thesis by (simp add: ld32_def st32_def ld_st_bytes)
next
  case False
  have "4 \<le> unat (ps + of_nat (4 * i) + of_nat k - (ps + of_nat (4 * j)))" if k: "k < 4" for k
  proof (rule ccontr)
    define r where "r = unat (ps + of_nat (4 * i) + of_nat k - (ps + of_nat (4 * j)))"
    assume "\<not> ?thesis"
    then have r: "r < 4" by (simp add: r_def)
    have "of_nat r = ps + of_nat (4 * i) + of_nat k - (ps + of_nat (4 * j))" by (simp add: r_def)
    then have "of_nat (4 * j + r) = (of_nat (4 * i + k) :: u64)" by (simp add: algebra_simps)
    then have "unat (of_nat (4 * j + r) :: u64) = unat (of_nat (4 * i + k) :: u64)" by (rule arg_cong)
    then have "4 * j + r = 4 * i + k"
      using r k assms by (simp add: unat_of_nat take_bit_nat_eq_self del: of_nat_add of_nat_mult)
    then show False using r k False by linarith
  qed
  then have "ld_bytes (st32 (ps + of_nat (4 * j)) v m) (ps + of_nat (4 * i)) 4 = ld_bytes m (ps + of_nat (4 * i)) 4"
    by (intro ld_bytes_cong) (simp add: st32_def st_bytes_outside)
  then show ?thesis using False by (simp add: ld32_def)
qed

lemma procinfo_loop_words:
  assumes "i \<le> 192" "p + n \<le> 64"
  shows "ld32 (procinfo_loop n p ps t m) (ps + of_nat (4 * i)) =
    (if 64 < p + n + i \<and> i \<le> 64 - p then of_int (tickets (t (64 - i)))
     else if 128 < p + n + i \<and> i \<le> 128 - p \<and> 64 < i then of_int (pid (t (128 - i)))
     else if 192 < p + n + i \<and> i \<le> 192 - p \<and> 128 < i then of_int (pticks (t (192 - i)))
     else ld32 m (ps + of_nat (4 * i)))"
  using assms(2)
proof (induction n arbitrary: p m)
  case 0
  then show ?case by auto
next
  case (Suc n)
  define m1 where "m1 = st32 (ps + of_nat (4 * (64 + (64 - p)))) (of_int (pid (t p)))
     (st32 (ps + of_nat (4 * (128 + (64 - p)))) (of_int (pticks (t p)))
       (st32 (ps + of_nat (4 * (64 - p))) (of_int (tickets (t p))) m))"
  have step: "procinfo_loop (Suc n) p ps t m = procinfo_loop n (Suc p) ps t m1"
    by (simp add: m1_def Let_def add.assoc)
  have m1: "ld32 m1 (ps + of_nat (4 * i)) =
     (if i = 64 - p then of_int (tickets (t p)) else if i = 128 - p then of_int (pid (t p))
      else if i = 192 - p then of_int (pticks (t p)) else ld32 m (ps + of_nat (4 * i)))"
  proof -
    have i: "i < 1000" and j: "64 + (64 - p) < 1000" "128 + (64 - p) < 1000" "64 - p < 1000" using assms(1) by simp_all
    have k: "64 + (64 - p) = 128 - p" "128 + (64 - p) = 192 - p" using Suc.prems by simp_all
    have "128 - p \<noteq> 192 - p" "64 - p \<noteq> 128 - p" "64 - p \<noteq> 192 - p" using Suc.prems by simp_all
    then show ?thesis unfolding m1_def ld32_st32 [OF i j(1)] ld32_st32 [OF i j(2)] ld32_st32 [OF i j(3)] unfolding k
      by (simp del: of_nat_mult cong: if_cong)
  qed
  have ih: "ld32 (procinfo_loop n (Suc p) ps t m1) (ps + of_nat (4 * i)) =
    (if 64 < Suc p + n + i \<and> i \<le> 64 - Suc p then of_int (tickets (t (64 - i)))
     else if 128 < Suc p + n + i \<and> i \<le> 128 - Suc p \<and> 64 < i then of_int (pid (t (128 - i)))
     else if 192 < Suc p + n + i \<and> i \<le> 192 - Suc p \<and> 128 < i then of_int (pticks (t (192 - i)))
     else ld32 m1 (ps + of_nat (4 * i)))"
    using Suc.prems by (intro Suc.IH) simp
  have p: "p < 64" "p + Suc n \<le> 64" using Suc.prems by simp_all
  consider "i = 64 - p" | "i = 128 - p" | "i = 192 - p" | "i \<noteq> 64 - p" "i \<noteq> 128 - p" "i \<noteq> 192 - p" by blast
  then show ?case
  proof cases
    case 4
    then have "(64 < Suc p + n + i \<and> i \<le> 64 - Suc p) = (64 < p + Suc n + i \<and> i \<le> 64 - p)"
      "(128 < Suc p + n + i \<and> i \<le> 128 - Suc p \<and> 64 < i) = (128 < p + Suc n + i \<and> i \<le> 128 - p \<and> 64 < i)"
      "(192 < Suc p + n + i \<and> i \<le> 192 - Suc p \<and> 128 < i) = (192 < p + Suc n + i \<and> i \<le> 192 - p \<and> 128 < i)"
      using p by auto
    then show ?thesis unfolding step ih m1 using 4 by (simp only: if_False)
  qed (unfold step ih m1, use p in \<open>auto simp del: of_nat_mult\<close>)
qed

section \<open>A new process\<close>

lemma map_one_page:
  assumes st: "pt_state kend F root s" and a: "page_aligned a" "a < MAXVA" and room: "2 \<le> card F"
    and free: "leaf (pmem s) root a AND PTE_V = 0"
  shows "\<exists>s' F'. mappages root a PGSIZE pa perm s = Some (0, s') \<and> pt_state kend F' root s' \<and> F' \<subseteq> F \<and>
           card F \<le> card F' + 2 \<and> outside_kept root F s s' \<and>
           (\<forall>v<MAXVA. leaf (pmem s') root v =
              (if PGROUNDDOWN v = a then PA2PTE pa OR scast perm OR PTE_V else leaf (pmem s) root v))"
proof -
  have "PGROUNDDOWN a = a" "PGROUNDDOWN (a + PGSIZE - 1) = a"
    using PGROUNDDOWN_id [OF a(1)] PGROUNDDOWN_offset [OF a(1), of 4095] by (simp_all add: add.commute)
  then have "mappages root a PGSIZE pa perm s = mappages_loop root a a pa perm s" by (simp add: mappages_def)
  then show ?thesis using mappages_step [OF st a room free, of pa perm a] by auto
qed

lemma TRAMPOLINE_ok: "page_aligned TRAMPOLINE" "TRAMPOLINE < MAXVA" "page_aligned TRAPFRAME" "TRAPFRAME < MAXVA"
    "TRAPFRAME \<noteq> TRAMPOLINE"
  by (simp_all add: TRAMPOLINE_def TRAPFRAME_def page_aligned_def)

definition boot_leaf :: "symbols \<Rightarrow> u64 \<Rightarrow> u64 \<Rightarrow> u64" where
  "boot_leaf y tf v =
     (if PGROUNDDOWN v = TRAMPOLINE then PA2PTE (sym_trampoline y) OR PTE_R OR PTE_X OR PTE_V
      else if PGROUNDDOWN v = TRAPFRAME then PA2PTE tf OR PTE_R OR PTE_W OR PTE_V else 0)"

lemma proc_pagetable_maps:
  assumes av: "kavail (sym_end y) F (km s)" and room: "5 \<le> card F"
  shows "\<exists>pt k F'. proc_pagetable y p s = Some (pt, s\<lparr>km := k\<rparr>) \<and> pt \<noteq> 0 \<and> pt_state (sym_end y) F' pt k \<and>
     F' \<subseteq> F \<and> tables (pmem k) pt \<subseteq> F \<and> table_links (pmem k) pt \<and>
     (\<forall>q. page_aligned q \<longrightarrow> q \<notin> F \<longrightarrow> same_page (pmem (km s)) (pmem k) q) \<and>
     (\<forall>v<MAXVA. leaf (pmem k) pt v = boot_leaf y (trapframe (procs s p)) v)"
proof -
  have fin: "finite F" using av by (rule kal.avail_finite)
  obtain pt k0 where k0: "kalloc (km s) = Some (pt, k0)" "pt \<in> F" "kavail (sym_end y) (F - {pt}) k0"
      "\<forall>i<4096. pmem k0 (pt + of_nat i) = 0"
      "\<forall>q. page_aligned q \<longrightarrow> q \<noteq> pt \<longrightarrow> same_page (pmem (km s)) (pmem k0) q"
    using kal.alloc_ok [OF av] room by fastforce
  have pg: "kpage (sym_end y) pt" using kal.avail_page [OF av k0(2)] .
  then have nz: "pt \<noteq> 0" by (simp add: kpage_def)
  note e = empty_table [OF pg _ k0(4), of "F - {pt}"]
  have st0: "pt_state (sym_end y) (F - {pt}) pt k0" using e(1) k0(3) by (simp add: pt_state_def)
  have c0: "4 \<le> card (F - {pt})" using room k0(2) fin by simp
  obtain k1 F1 where k1: "mappages pt TRAMPOLINE PGSIZE (sym_trampoline y) (ucast (PTE_R OR PTE_X)) k0 = Some (0, k1)"
      "pt_state (sym_end y) F1 pt k1" "F1 \<subseteq> F - {pt}" "card (F - {pt}) \<le> card F1 + 2" "outside_kept pt (F - {pt}) k0 k1"
      "\<forall>v<MAXVA. leaf (pmem k1) pt v = (if PGROUNDDOWN v = TRAMPOLINE
         then PA2PTE (sym_trampoline y) OR scast (ucast (PTE_R OR PTE_X) :: u32) OR PTE_V else leaf (pmem k0) pt v)"
    using map_one_page [OF st0 TRAMPOLINE_ok(1,2), of "sym_trampoline y" "ucast (PTE_R OR PTE_X)"] c0 e(3) by auto
  have "leaf (pmem k1) pt TRAPFRAME AND PTE_V = 0"
    using k1(6) TRAMPOLINE_ok e(3) by (simp add: PGROUNDDOWN_id)
  then obtain k2 F2 where k2: "mappages pt TRAPFRAME PGSIZE (trapframe (procs s p)) (ucast (PTE_R OR PTE_W)) k1 = Some (0, k2)"
      "pt_state (sym_end y) F2 pt k2" "F2 \<subseteq> F1" "outside_kept pt F1 k1 k2"
      "\<forall>v<MAXVA. leaf (pmem k2) pt v = (if PGROUNDDOWN v = TRAPFRAME
         then PA2PTE (trapframe (procs s p)) OR scast (ucast (PTE_R OR PTE_W) :: u32) OR PTE_V else leaf (pmem k1) pt v)"
    using map_one_page [OF k1(2) TRAMPOLINE_ok(3,4), of "trapframe (procs s p)" "ucast (PTE_R OR PTE_W)"] c0 k1(4) by auto
  have out: "outside_kept pt (F - {pt}) k0 k2" using k1(5) k2(4) k1(3) by (rule outside_trans)
  have flags: "scast (ucast (PTE_R OR PTE_X) :: u32) = (PTE_R OR PTE_X :: u64)"
    "scast (ucast (PTE_R OR PTE_W) :: u32) = (PTE_R OR PTE_W :: u64)" by simp_all
  have "\<forall>v<MAXVA. leaf (pmem k2) pt v = boot_leaf y (trapframe (procs s p)) v"
    using k2(5) k1(6) TRAMPOLINE_ok(5) e(3) unfolding flags by (auto simp: boot_leaf_def or.assoc)
  moreover have "\<forall>q. page_aligned q \<longrightarrow> q \<notin> F \<longrightarrow> same_page (pmem (km s)) (pmem k2) q"
    using out k0(2,5) e(2) by (auto simp: outside_kept_def same_page_def)
  moreover have "tables (pmem k2) pt \<subseteq> F" "table_links (pmem k2) pt" using out e(2,4) k0(2) by (auto simp: outside_kept_def)
  moreover have "proc_pagetable y p s = Some (pt, s\<lparr>km := k2\<rparr>)"
    using k0(1) nz k1(1) k2(1) by (simp add: proc_pagetable_def on_mem_def)
  ultimately show ?thesis using nz k2(2,3) k1(3) by (intro exI [of _ pt] exI [of _ k2] exI [of _ F2]) auto
qed

lemma find_unused_first:
  assumes "i \<le> p" "p < i + n" "state (t p) = UNUSED" "\<forall>q<p. i \<le> q \<longrightarrow> state (t q) \<noteq> UNUSED"
  shows "find_unused_proc n i t = Some p"
  using assms
proof (induction n arbitrary: i)
  case (Suc n)
  show ?case
  proof (cases "i = p")
    case False
    then have "state (t i) \<noteq> UNUSED" using Suc.prems by simp
    then show ?thesis using False Suc.prems Suc.IH [of "Suc i"] by simp
  qed (use Suc.prems in simp)
qed simp

text \<open>Updates of fields of different layers of the state commute; \<open>km\<close> goes innermost.\<close>

lemma km_first:
  "s\<lparr>nextpid := n, km := k\<rparr> = s\<lparr>km := k, nextpid := n\<rparr>" "s\<lparr>procs := t, km := k\<rparr> = s\<lparr>km := k, procs := t\<rparr>"
  by (cases s; simp)+

definition ex_symbols :: symbols where
  "ex_symbols = \<lparr>sym_end = ex_kend, sym_trampoline = 0x80007000, sym_uservec = 0x80007000, sym_userret = 0x8000709C,
     sym_forkret = 0x80001000, sym_usertrap = 0x80002000, sym_kernelvec = 0x80005000\<rparr>"

lemma allocproc_ok:
  assumes "kavail (sym_end y) F (km s)" and "6 \<le> card F"
    and "p < NPROC" and "state (procs s p) = UNUSED" and "\<forall>q<p. state (procs s q) \<noteq> UNUSED"
  shows "\<exists>k F' pt tf. allocproc y s = Some (Some p, s\<lparr>km := k, nextpid := nextpid s + 1,
       procs := (procs s)(p := (procs s p)\<lparr>pid := nextpid s, state := USED, trapframe := tf, pagetable := pt,
         pcontext := first_context y (kstack (procs s p)), pticks := 0, alarmhandler := 0, tickets := 1\<rparr>)\<rparr>) \<and>
     pt_state (sym_end y) F' pt k \<and> F' \<subseteq> F \<and> tf \<in> F - F' \<and> tf \<notin> tables (pmem k) pt \<and> tables (pmem k) pt \<subseteq> F \<and>
     table_links (pmem k) pt \<and> (\<forall>q. page_aligned q \<longrightarrow> q \<notin> F \<longrightarrow> same_page (pmem (km s)) (pmem k) q) \<and>
     (\<forall>v<MAXVA. leaf (pmem k) pt v = boot_leaf y tf v)"
proof -
  have fin: "finite F" using assms(1) by (rule kal.avail_finite)
  have unused: "find_unused_proc NPROC 0 (procs s) = Some p" using assms(3-5) by (intro find_unused_first) simp_all
  obtain tf k0 where k0: "kalloc (km s) = Some (tf, k0)" "tf \<in> F" "kavail (sym_end y) (F - {tf}) k0"
      "\<forall>q. page_aligned q \<longrightarrow> q \<noteq> tf \<longrightarrow> same_page (pmem (km s)) (pmem k0) q"
    using kal.alloc_ok [OF assms(1)] assms(2) by fastforce
  have tf: "tf \<noteq> 0" using kal.avail_page [OF assms(1) k0(2)] by (simp add: kpage_def)
  define s1 where "s1 = s\<lparr>km := k0, nextpid := nextpid s + 1,
    procs := (procs s)(p := (procs s p)\<lparr>pid := nextpid s, state := USED, trapframe := tf\<rparr>)\<rparr>"
  have s1: "km s1 = k0" "trapframe (procs s1 p) = tf" by (simp_all add: s1_def)
  have c: "5 \<le> card (F - {tf})" using assms(2) k0(2) fin by simp
  obtain pt k F' where pt: "proc_pagetable y p s1 = Some (pt, s1\<lparr>km := k\<rparr>)" "pt \<noteq> 0" "pt_state (sym_end y) F' pt k"
      "F' \<subseteq> F - {tf}" "tables (pmem k) pt \<subseteq> F - {tf}" "table_links (pmem k) pt"
      "\<forall>q. page_aligned q \<longrightarrow> q \<notin> F - {tf} \<longrightarrow> same_page (pmem k0) (pmem k) q"
      "\<forall>v<MAXVA. leaf (pmem k) pt v = boot_leaf y tf v"
    using proc_pagetable_maps [of y "F - {tf}" s1 p] k0(3) c unfolding s1 by blast
  have "allocproc y s = Some (Some p, s\<lparr>km := k, nextpid := nextpid s + 1,
       procs := (procs s)(p := (procs s p)\<lparr>pid := nextpid s, state := USED, trapframe := tf, pagetable := pt,
         pcontext := first_context y (kstack (procs s p)), pticks := 0, alarmhandler := 0, tickets := 1\<rparr>)\<rparr>)"
    using pt(1,2) k0(1) tf
    by (simp add: allocproc_def unused allocpid_def on_mem_def upd_proc_def s1_def Let_def km_first)
  moreover have "same_page (pmem (km s)) (pmem k) q" if "page_aligned q" "q \<notin> F" for q
  proof -
    have "q \<noteq> tf" "q \<notin> F - {tf}" using that k0(2) by auto
    then have "same_page (pmem (km s)) (pmem k0) q" "same_page (pmem k0) (pmem k) q" using k0(4) pt(7) that(1) by simp_all
    then show ?thesis by (simp add: same_page_def)
  qed
  ultimately show ?thesis using pt(3-6,8) k0(2)
    by (intro exI [of _ k] exI [of _ F'] exI [of _ pt] exI [of _ tf] conjI) auto
qed

section \<open>Properties\<close>

text \<open>C36. The lottery of one round of \<open>scheduler\<close>.  The total \<open>tot\<close> and the array \<open>tk\<close> come from the rounds before; neither is
  ever reset, and the array is not initialised.  Suppose that no entry of the array is above the total, as
  each round leaves it for the next, that the tickets are not negative and that the new total is below
  \<open>2 ^ 31\<close>.  The slot drawn is that of a 16-bit random number modulo the new total; of the numbers from
  the old total on, exactly \<open>tickets\<close> many draw each runnable process and none draws another slot; and the
  numbers below the old total, which grow in number with every round, all draw a slot with no runnable process before
  it, a stale entry or the first runnable process.\<close>

theorem lottery_odds:
  assumes "\<forall>j<NPROC. ready (procs s) j \<longrightarrow> 0 \<le> tickets (procs s j)"
    and "tally (unat tot) (procs s) NPROC < 2 ^ 31"
    and "\<forall>j<NPROC. unat (tk j) \<le> unat tot"
    and "scheduler_round tot tk s = (p, tot', tk', s')" and "i < NPROC"
  shows "unat tot' = tally (unat tot) (procs s) NPROC \<and> (\<forall>j<NPROC. unat (tk' j) \<le> unat tot') \<and>
    p = draw NPROC 0 tk' (ucast (fst (rand s)) mod tot') \<and>
    card {w. unat tot \<le> w \<and> w < unat tot' \<and> draw NPROC 0 tk' (of_nat w) = i} =
      (if ready (procs s) i then nat (tickets (procs s i)) else 0) \<and>
    (\<forall>w<tot. \<forall>k<NPROC. k < draw NPROC 0 tk' w \<longrightarrow> \<not> ready (procs s) k)"
proof -
  have so: "stale_ok (unat tot) tk" using assms(3) by (simp add: stale_ok_def)
  have c: "count_tickets NPROC 0 (procs s) (of_nat (unat tot)) tk = (tot', tk')"
    and p: "p = draw NPROC 0 tk' (ucast (fst (rand s)) mod tot')"
    using assms(4) by (auto simp: scheduler_round_def Let_def split: prod.splits)
  note a = assms(1,2) so c
  show ?thesis using count_array(1,3) [OF a] card_winners [OF a assms(5)] draw_old [OF a] p
    by (simp add: stale_ok_def word_less_nat_alt)
qed

text \<open>Slots 1 and 3 are runnable with 2 and 5 tickets.\<close>

definition ex_lottery :: "nat \<Rightarrow> proc" where
  "ex_lottery i = (if i = 1 then ex_proc\<lparr>state := RUNNABLE, tickets := 2\<rparr>
     else if i = 3 then ex_proc\<lparr>state := RUNNABLE, tickets := 5\<rparr> else ex_proc\<lparr>state := UNUSED, tickets := 1\<rparr>)"

lemma ex_ready: "ready ex_lottery i \<longleftrightarrow> i = 1 \<or> i = 3"
  by (simp add: ready_def ex_lottery_def)

lemma ex_tally: "tally t0 ex_lottery NPROC = t0 + 7"
proof -
  have "tally t0 ex_lottery NPROC = tally t0 ex_lottery (Suc (Suc (Suc (Suc 0))))"
    by (rule tally_idle) (auto simp: ex_ready)
  then show ?thesis by (simp add: ex_ready) (simp add: ex_lottery_def)
qed

text \<open>The array has a stale entry 100 for slot 0, which has run before and sleeps now.\<close>

theorem lottery_odds_witness:
  "\<exists>tot' tk'. fst (snd (scheduler_round 100 ((\<lambda>_. 0)(0 := 100)) (ex_kern\<lparr>procs := ex_lottery\<rparr>))) = tot' \<and>
     fst (snd (snd (scheduler_round 100 ((\<lambda>_. 0)(0 := 100)) (ex_kern\<lparr>procs := ex_lottery\<rparr>)))) = tk' \<and> unat tot' = 107 \<and>
     card {w. 100 \<le> w \<and> w < 107 \<and> draw NPROC 0 tk' (of_nat w) = 3} = (5 :: nat)"
proof -
  let ?s = "ex_kern\<lparr>procs := ex_lottery\<rparr>" and ?tk = "(\<lambda>_. 0)(0 := 100) :: nat \<Rightarrow> u32"
  obtain p tot' tk' s' where r: "scheduler_round 100 ?tk ?s = (p, tot', tk', s')" by (metis prod_cases4)
  have odds: "unat tot' = tally (unat (100 :: u64)) (procs ?s) NPROC \<and> (\<forall>j<NPROC. unat (tk' j) \<le> unat tot') \<and>
    p = draw NPROC 0 tk' (ucast (fst (rand ?s)) mod tot') \<and>
    card {w. unat (100 :: u64) \<le> w \<and> w < unat tot' \<and> draw NPROC 0 tk' (of_nat w) = 3} =
      (if ready (procs ?s) 3 then nat (tickets (procs ?s 3)) else 0) \<and>
    (\<forall>w<100. \<forall>k<NPROC. k < draw NPROC 0 tk' w \<longrightarrow> \<not> ready (procs ?s) k)"
    by (rule lottery_odds [OF _ _ _ r]) (auto simp: ex_tally, auto simp: ex_lottery_def)
  have tot: "unat tot' = 107" using conjunct1 [OF odds] by (simp add: ex_tally)
  from odds have "card {w. 100 \<le> w \<and> w < 107 \<and> draw NPROC 0 tk' (of_nat w) = 3} = (if ready ex_lottery 3 then nat (tickets (ex_lottery 3)) else 0)"
    unfolding tot by simp
  then show ?thesis unfolding r using tot by (simp add: ex_ready) (simp add: ex_lottery_def)
qed

text \<open>\<open>rand\<close> permutes the 16-bit numbers and keeps 0 apart: from a nonzero seed it never returns 0,
  and two states never meet.\<close>

theorem rand_permutes:
  "(fst (rand s) = 0 \<longleftrightarrow> lfsr s = 0) \<and> fst (rand s) = lfsr (snd (rand s)) \<and>
   (fst (rand s) = fst (rand s') \<longleftrightarrow> lfsr s = lfsr s')"
  using lfsr_next_inj lfsr_next_0 unfolding rand_eq by force

text \<open>C40. \<open>reparent\<close> gives every child of the process to \<open>init\<close>, so that none is left, and keeps every
  other parent.\<close>

theorem reparent_spec:
  assumes "initproc s = Some i" and "i \<noteq> p"
  shows "\<exists>s'. reparent p s = Some s' \<and>
    (\<forall>q<NPROC. parent (procs s' q) = (if parent (procs s q) = Some p then Some i else parent (procs s q)) \<and>
      parent (procs s' q) \<noteq> Some p)"
  using assms by (simp add: reparent_def reparent_loop_parent)

theorem reparent_spec_witness:
  "\<exists>s'. reparent 1 (ex_kern\<lparr>procs := \<lambda>q. ex_proc\<lparr>parent := Some (q mod 2)\<rparr>\<rparr>) = Some s' \<and>
     parent (procs s' 5) = Some 0 \<and> parent (procs s' 6) = Some 0"
  using reparent_spec [of "ex_kern\<lparr>procs := \<lambda>q. ex_proc\<lparr>parent := Some (q mod 2)\<rparr>\<rparr>" 0 1]
  by (auto simp: ex_kern_def)

text \<open>C35. \<open>allocproc\<close> takes the first unused slot, gives it the next pid, a fresh trap frame page and a
  fresh page table that maps the trampoline and the trap frame, neither of them for user code, and
  nothing else.  It changes no other slot, and of memory only free pages.  It does not clear
  \<open>killed\<close>.\<close>

theorem allocproc_spec:
  assumes "kavail (sym_end y) F (km s)" and "6 \<le> card F"
    and "p < NPROC" and "state (procs s p) = UNUSED" and "\<forall>q<p. state (procs s q) \<noteq> UNUSED"
  shows "\<exists>k F' pt tf. allocproc y s = Some (Some p, s\<lparr>km := k, nextpid := nextpid s + 1,
       procs := (procs s)(p := (procs s p)\<lparr>pid := nextpid s, state := USED, trapframe := tf, pagetable := pt,
         pcontext := first_context y (kstack (procs s p)), pticks := 0, alarmhandler := 0, tickets := 1\<rparr>)\<rparr>) \<and>
     pt_state (sym_end y) F' pt k \<and> F' \<subseteq> F \<and> tf \<in> F - F' \<and> tf \<notin> tables (pmem k) pt \<and> tables (pmem k) pt \<subseteq> F \<and>
     (\<forall>q. page_aligned q \<longrightarrow> q \<notin> F \<longrightarrow> same_page (pmem (km s)) (pmem k) q) \<and>
     (\<forall>v<MAXVA. leaf (pmem k) pt v = boot_leaf y tf v)"
  using allocproc_ok [OF assms] by blast

theorem allocproc_spec_witness:
  "\<exists>s'. allocproc ex_symbols (ex_kern\<lparr>km := pool_of ex_pages\<rparr>) = Some (Some 2, s') \<and> pid (procs s' 2) = 3 \<and>
     state (procs s' 2) = USED \<and>
     leaf (pmem (km s')) (pagetable (procs s' 2)) TRAMPOLINE = PA2PTE (sym_trampoline ex_symbols) OR PTE_R OR PTE_X OR PTE_V \<and>
     leaf (pmem (km s')) (pagetable (procs s' 2)) 0 = 0"
proof -
  define s where "s = ex_kern\<lparr>km := pool_of ex_pages\<rparr>"
  have s: "kavail (sym_end ex_symbols) (set ex_pages) (km s)" "6 \<le> card (set ex_pages)" "2 < NPROC"
      "state (procs s 2) = UNUSED" "\<forall>q<2. state (procs s q) \<noteq> UNUSED" "nextpid s = 3"
    using ex_pool(1) by (simp_all add: s_def ex_symbols_def pt_state_def ex_kern_def ex_proc_def) (simp add: ex_pages_def)
  obtain k pt tf where a: "allocproc ex_symbols s = Some (Some 2, s\<lparr>km := k, nextpid := nextpid s + 1,
       procs := (procs s)(2 := (procs s 2)\<lparr>pid := nextpid s, state := USED, trapframe := tf, pagetable := pt,
         pcontext := first_context ex_symbols (kstack (procs s 2)), pticks := 0, alarmhandler := 0, tickets := 1\<rparr>)\<rparr>)"
     "\<forall>v<MAXVA. leaf (pmem k) pt v = boot_leaf ex_symbols tf v"
    using allocproc_spec [OF s(1-5)] by blast
  have "leaf (pmem k) pt TRAMPOLINE = boot_leaf ex_symbols tf TRAMPOLINE" "leaf (pmem k) pt 0 = boot_leaf ex_symbols tf 0"
    using a(2) TRAMPOLINE_ok by simp_all
  then show ?thesis unfolding s_def [symmetric] a(1)
    by (simp add: boot_leaf_def TRAMPOLINE_ok PGROUNDDOWN_id s(6)) (simp add: TRAMPOLINE_def TRAPFRAME_def PGROUNDDOWN_def)
qed

text \<open>\<open>procinfo\<close> numbers the slots from the end: the entry of slot \<open>q\<close> is at index \<open>64 - q\<close> of each of
  the three arrays of 64 integers.  Entry 0 of \<open>tickets\<close> keeps what it held, the tickets and the pid of
  slot 0 land in entry 0 of the next array, and its ticks are written past the end of the structure.\<close>

theorem procinfo_layout:
  assumes "i \<le> 192"
  shows "ld32 (pmem (km (procinfo ps s))) (ps + of_nat (4 * i)) =
    (if i = 0 then ld32 (pmem (km s)) (ps + of_nat (4 * i))
     else if i \<le> 64 then of_int (tickets (procs s (64 - i)))
     else if i \<le> 128 then of_int (pid (procs s (128 - i)))
     else of_int (pticks (procs s (192 - i))))"
  using procinfo_loop_words [OF assms, of 0 64 ps "procs s" "pmem (km s)"] assms by (simp add: procinfo_def)

theorem procinfo_layout_witness:
  "ld32 (pmem (km (procinfo 0x1000 ex_kern))) 0x1200 = 1 \<and> ld32 (pmem (km (procinfo 0x1000 ex_kern))) 0x11FC = 2"
  using procinfo_layout [of 128 "0x1000" ex_kern] procinfo_layout [of 127 "0x1000" ex_kern] by (simp add: ex_kern_def ex_proc_def)

end
