(* ===== verification/VmFree.thy ===== *)
theory VmFree
  imports VmSpec
begin

unbundle bit_operations_syntax

text \<open>
  Freeing a page table.  \<open>freewalk\<close> follows the pointers in memory from the root and may loop for ever on a
  graph of pages; on a page table, where every table has one path and no leaf is mapped any more, it returns and
  gives exactly the table pages back to the allocator.
\<close>

section \<open>Trees of tables\<close>

definition used :: "mem \<Rightarrow> u64 \<Rightarrow> nat set" where
  "used m a = {i. i < 512 \<and> ld64 m (entry a i) AND PTE_V \<noteq> 0}"

definition child :: "mem \<Rightarrow> u64 \<Rightarrow> nat \<Rightarrow> u64" where
  "child m a i = PTE2PA (ld64 m (entry a i))"

primrec subtree :: "nat \<Rightarrow> mem \<Rightarrow> u64 \<Rightarrow> u64 set" where
  "subtree 0 m a = {}"
| "subtree (Suc l) m a = insert a (\<Union>i \<in> used m a. subtree l m (child m a i))"

text \<open>A tree of at most \<open>l\<close> levels with nothing but tables in it.\<close>

primrec tree :: "nat \<Rightarrow> u64 \<Rightarrow> mem \<Rightarrow> u64 \<Rightarrow> bool" where
  "tree 0 kend m a \<longleftrightarrow> False"
| "tree (Suc l) kend m a \<longleftrightarrow> kpage kend a \<and>
     (\<forall>i \<in> used m a. ld64 m (entry a i) AND (PTE_R OR PTE_W OR PTE_X) = 0 \<and> tree l kend m (child m a i) \<and> a \<notin> subtree l m (child m a i)) \<and>
     (\<forall>i \<in> used m a. \<forall>j \<in> used m a. i \<noteq> j \<longrightarrow> subtree l m (child m a i) \<inter> subtree l m (child m a j) = {})"

lemma tree_pages: "tree l kend m a \<Longrightarrow> b \<in> subtree l m a \<Longrightarrow> kpage kend b"
  by (induction l arbitrary: a) auto

lemma used_cong: "same_page m m' a \<Longrightarrow> used m' a = used m a"
  using ld64_entry_same_page [of m m' a] by (auto simp: used_def)

lemma child_cong: "same_page m m' a \<Longrightarrow> i \<in> used m a \<Longrightarrow> ld64 m' (entry a i) = ld64 m (entry a i) \<and> child m' a i = child m a i"
  using ld64_entry_same_page [of m m' a i] by (simp add: used_def child_def)

lemma tree_cong:
  assumes "tree l kend m a" and "\<And>b. b \<in> subtree l m a \<Longrightarrow> same_page m m' b"
  shows "tree l kend m' a" and "subtree l m' a = subtree l m a"
proof -
  have "tree l kend m' a \<and> subtree l m' a = subtree l m a" using assms
  proof (induction l arbitrary: a)
    case (Suc l)
    have s: "same_page m m' a" using Suc.prems(2) by simp
    note u = used_cong [OF s] and c = child_cong [OF s]
    have ih: "tree l kend m' (child m a i) \<and> subtree l m' (child m a i) = subtree l m (child m a i)" if "i \<in> used m a" for i
      by (rule Suc.IH) (use Suc.prems that in auto)
    show ?case using Suc.prems(1) ih c by (simp add: u)
  qed simp
  then show "tree l kend m' a" "subtree l m' a = subtree l m a" by simp_all
qed

section \<open>\<open>freewalk\<close>\<close>

lemma freewalk_end: "freewalk_from kend a 512 s = kfree kend a s"
  by (subst freewalk_from.simps) simp

lemma freewalk_skip:
  assumes "i < 512" and "i \<notin> used (pmem s) a"
  shows "freewalk_from kend a i s = freewalk_from kend a (Suc i) s"
  using assms by (subst freewalk_from.simps) (simp add: used_def entry_def Let_def mult.commute)

lemma freewalk_down:
  assumes "i \<in> used (pmem s) a" and "ld64 (pmem s) (entry a i) AND (PTE_R OR PTE_W OR PTE_X) = 0"
    and "freewalk_from kend (child (pmem s) a i) 0 s = Some s'"
  shows "freewalk_from kend a i s = freewalk_from kend a (Suc i) (s'\<lparr>pmem := st64 (entry a i) 0 (pmem s')\<rparr>)"
  using assms by (subst freewalk_from.simps) (simp add: used_def child_def entry_def Let_def mult.commute)

text \<open>The state \<open>s'\<close> has the pages \<open>A\<close> back in the pool, and the other pages are as they were in \<open>m\<close>.\<close>

definition gives_back :: "u64 \<Rightarrow> u64 set \<Rightarrow> u64 set \<Rightarrow> mem \<Rightarrow> kmem \<Rightarrow> bool" where
  "gives_back kend F A m s' \<longleftrightarrow> kavail kend (F \<union> A) s' \<and> (\<forall>q. page_aligned q \<longrightarrow> q \<notin> A \<longrightarrow> same_page m (pmem s') q)"

text \<open>The pages below the entries before \<open>i\<close>.\<close>

definition below :: "nat \<Rightarrow> mem \<Rightarrow> u64 \<Rightarrow> nat \<Rightarrow> u64 set" where
  "below l m a i = (\<Union>j \<in> {j \<in> used m a. j < i}. subtree l m (child m a j))"

lemma below_Suc: "below l m a (Suc i) = below l m a i \<union> (if i \<in> used m a then subtree l m (child m a i) else {})"
proof -
  have "{j \<in> used m a. j < Suc i} = {j \<in> used m a. j < i} \<union> (if i \<in> used m a then {i} else {})" by (auto simp: less_Suc_eq)
  then show ?thesis by (auto simp: below_def)
qed

lemma below_all: "subtree (Suc l) m a = insert a (below l m a 512)"
  by (auto simp: below_def used_def)

lemma freewalk_entry:
  assumes ih: "\<And>b s F. tree l kend (pmem s) b \<Longrightarrow> kavail kend F s \<Longrightarrow> F \<inter> subtree l (pmem s) b = {} \<Longrightarrow>
      \<exists>s'. freewalk_from kend b 0 s = Some s' \<and> gives_back kend F (subtree l (pmem s) b) (pmem s) s'"
    and tr: "tree (Suc l) kend m a" and F: "F \<inter> subtree (Suc l) m a = {}" and i: "i \<in> used m a"
    and av: "kavail kend (F \<union> below l m a i) s" and fr: "\<forall>q. page_aligned q \<longrightarrow> q \<noteq> a \<longrightarrow> q \<notin> below l m a i \<longrightarrow> same_page m (pmem s) q"
    and en: "\<forall>j. i \<le> j \<longrightarrow> j < 512 \<longrightarrow> ld64 (pmem s) (entry a j) = ld64 m (entry a j)"
  shows "\<exists>s'. freewalk_from kend a i s = freewalk_from kend a (Suc i) s' \<and> kavail kend (F \<union> below l m a (Suc i)) s' \<and>
    (\<forall>q. page_aligned q \<longrightarrow> q \<noteq> a \<longrightarrow> q \<notin> below l m a (Suc i) \<longrightarrow> same_page m (pmem s') q) \<and>
    (\<forall>j. Suc i \<le> j \<longrightarrow> j < 512 \<longrightarrow> ld64 (pmem s') (entry a j) = ld64 m (entry a j))"
proof -
  define c where "c = child m a i"
  have i5: "i < 512" and a: "page_aligned a" using i tr by (auto simp: used_def kpage_def)
  have c: "tree l kend m c" "a \<notin> subtree l m c" "ld64 m (entry a i) AND (PTE_R OR PTE_W OR PTE_X) = 0"
    using tr i by (simp_all add: c_def)
  have ap: "b \<notin> below l m a i" if "b \<in> subtree l m c" for b
  proof
    assume "b \<in> below l m a i"
    then obtain j where "j \<in> used m a" "j \<noteq> i" "b \<in> subtree l m (child m a j)" by (auto simp: below_def)
    then show False using tr i that by (auto simp: c_def)
  qed
  have keep: "same_page m (pmem s) b" if "b \<in> subtree l m c" for b
    using fr tree_pages [OF c(1) that] ap [OF that] c(2) that by (auto simp: kpage_def)
  have tc: "tree l kend (pmem s) c" "subtree l (pmem s) c = subtree l m c"
    by (rule tree_cong [OF c(1)], rule keep, assumption)+
  have c': "child (pmem s) a i = c" and u': "i \<in> used (pmem s) a" and fl: "ld64 (pmem s) (entry a i) AND (PTE_R OR PTE_W OR PTE_X) = 0"
    using en i5 i c(3) by (simp_all add: c_def child_def used_def)
  have "subtree l m c \<subseteq> subtree (Suc l) m a" using i by (auto simp: c_def)
  then have "(F \<union> below l m a i) \<inter> subtree l (pmem s) c = {}" using F ap by (auto simp: tc(2))
  from ih [OF tc(1) av this] obtain s1 where s1: "freewalk_from kend c 0 s = Some s1"
      "kavail kend (F \<union> below l m a i \<union> subtree l m c) s1" "\<And>q. page_aligned q \<Longrightarrow> q \<notin> subtree l m c \<Longrightarrow> same_page (pmem s) (pmem s1) q"
    unfolding tc(2) gives_back_def by blast
  define s2 where "s2 = s1\<lparr>pmem := st64 (entry a i) 0 (pmem s1)\<rparr>"
  have st: "same_page (pmem s1) (pmem s2) q" if "page_aligned q" "q \<noteq> a" for q
    using entry_same_page [OF a that i5] by (simp add: s2_def)
  have bl: "below l m a (Suc i) = below l m a i \<union> subtree l m c" using i by (simp add: below_Suc c_def)
  have "below l m a (Suc i) \<subseteq> subtree (Suc l) m a" by (auto simp: below_def)
  moreover have "a \<notin> below l m a (Suc i)" using tr by (auto simp: below_def)
  moreover have "a \<notin> F" using F by auto
  ultimately have na: "a \<notin> F \<union> below l m a i \<union> subtree l m c" by (simp add: bl)
  have "kavail kend (F \<union> below l m a i \<union> subtree l m c) s2" unfolding s2_def
  proof (rule kal.avail_put [OF s1(2)])
    fix x assume x: "x \<in> F \<union> below l m a i \<union> subtree l m c"
    then have "page_aligned x" "x \<noteq> a" using kal.avail_page [OF s1(2) x] na by (auto simp: kpage_def)
    then show "same_page (pmem s1) (st64 (entry a i) 0 (pmem s1)) x" using st by (simp add: s2_def)
  qed
  moreover have "same_page m (pmem s2) q" if "page_aligned q" "q \<noteq> a" "q \<notin> below l m a (Suc i)" for q
    using fr s1(3) [OF that(1)] st [OF that(1,2)] that by (auto simp: bl same_page_def)
  moreover have "ld64 (pmem s2) (entry a j) = ld64 m (entry a j)" if "Suc i \<le> j" "j < 512" for j
  proof -
    have "ld64 (pmem s2) (entry a j) = ld64 (pmem s1) (entry a j)"
      using ld64_entry_other [OF a a i5 that(2), of 0 "pmem s1"] that(1) by (simp add: s2_def)
    also have "\<dots> = ld64 (pmem s) (entry a j)" using ld64_entry_same_page [OF s1(3) [OF a c(2)] that(2)] .
    finally show ?thesis using en that by simp
  qed
  moreover have "freewalk_from kend a i s = freewalk_from kend a (Suc i) s2"
    using freewalk_down [OF u' fl] s1(1) by (simp add: c' s2_def)
  ultimately show ?thesis by (intro exI [of _ s2]) (simp add: bl Un_assoc)
qed

lemma freewalk_loop:
  assumes ih: "\<And>b s F. tree l kend (pmem s) b \<Longrightarrow> kavail kend F s \<Longrightarrow> F \<inter> subtree l (pmem s) b = {} \<Longrightarrow>
      \<exists>s'. freewalk_from kend b 0 s = Some s' \<and> gives_back kend F (subtree l (pmem s) b) (pmem s) s'"
    and tr: "tree (Suc l) kend m a" and F: "F \<inter> subtree (Suc l) m a = {}" and i: "i + n = 512"
    and "kavail kend (F \<union> below l m a i) s" and "\<forall>q. page_aligned q \<longrightarrow> q \<noteq> a \<longrightarrow> q \<notin> below l m a i \<longrightarrow> same_page m (pmem s) q"
    and "\<forall>j. i \<le> j \<longrightarrow> j < 512 \<longrightarrow> ld64 (pmem s) (entry a j) = ld64 m (entry a j)"
  shows "\<exists>s'. freewalk_from kend a i s = Some s' \<and> gives_back kend F (subtree (Suc l) m a) m s'"
  using assms(4-)
proof (induction n arbitrary: i s)
  case 0
  have i: "i = 512" using 0(1) by simp
  have a: "kpage kend a" "a \<notin> F \<union> below l m a 512" using tr F by (auto simp: below_def)
  obtain s' where s': "kfree kend a s = Some s'" "kavail kend (insert a (F \<union> below l m a 512)) s'"
      "\<forall>q. page_aligned q \<longrightarrow> q \<noteq> a \<longrightarrow> same_page (pmem s) (pmem s') q"
    using kal.free_ok [OF 0(2) a(1)] a(2) unfolding i by blast
  have "same_page m (pmem s') q" if "page_aligned q" "q \<notin> subtree (Suc l) m a" for q
    using that 0(3) s'(3) unfolding below_all i by (auto simp: same_page_def)
  then show ?case using s'(1,2) unfolding i gives_back_def below_all freewalk_end by simp
next
  case (Suc n)
  show ?case
  proof (cases "i \<in> used m a")
    case True
    obtain s1 where s1: "freewalk_from kend a i s = freewalk_from kend a (Suc i) s1" "kavail kend (F \<union> below l m a (Suc i)) s1"
        "\<forall>q. page_aligned q \<longrightarrow> q \<noteq> a \<longrightarrow> q \<notin> below l m a (Suc i) \<longrightarrow> same_page m (pmem s1) q"
        "\<forall>j. Suc i \<le> j \<longrightarrow> j < 512 \<longrightarrow> ld64 (pmem s1) (entry a j) = ld64 m (entry a j)"
      using freewalk_entry [OF ih tr F True Suc.prems(2-4)] by blast
    show ?thesis unfolding s1(1) by (rule Suc.IH [OF _ s1(2-4)]) (use Suc.prems(1) in simp)
  next
    case False
    then have "i \<notin> used (pmem s) a" using Suc.prems(1,4) by (simp add: used_def)
    then have "freewalk_from kend a i s = freewalk_from kend a (Suc i) s" using Suc.prems(1) by (intro freewalk_skip) simp_all
    moreover have "below l m a (Suc i) = below l m a i" using False by (simp add: below_Suc)
    ultimately show ?thesis using Suc.IH [of "Suc i" s] Suc.prems by simp
  qed
qed

lemma freewalk_tree:
  assumes "tree l kend (pmem s) a" and "kavail kend F s" and "F \<inter> subtree l (pmem s) a = {}"
  shows "\<exists>s'. freewalk_from kend a 0 s = Some s' \<and> gives_back kend F (subtree l (pmem s) a) (pmem s) s'"
  using assms
proof (induction l arbitrary: a s F)
  case (Suc l)
  show ?case by (rule freewalk_loop [where n = 512, OF Suc.IH]) (use Suc.prems in \<open>simp_all add: below_def\<close>)
qed simp

section \<open>Page tables are trees\<close>

definition bare :: "mem \<Rightarrow> u64 \<Rightarrow> bool" where
  "bare m root \<longleftrightarrow> (\<forall>v<MAXVA. leaf m root v AND PTE_V = 0)"

definition va_of :: "nat \<Rightarrow> nat \<Rightarrow> nat \<Rightarrow> u64" where
  "va_of j k i = of_nat (j * 2 ^ 30 + k * 2 ^ 21 + i * 2 ^ 12)"

lemma va_of_path:
  assumes "j < 256" "k < 512" "i < 512"
  shows "va_of j k i < MAXVA" "va_path (va_of j k i) = [j, k]" "unat (PX 0 (va_of j k i)) = i"
proof -
  define n where "n = j * 2 ^ 30 + k * 2 ^ 21 + i * 2 ^ 12"
  have "n < 2 ^ 38" using assms by (simp add: n_def)
  then have u: "unat (va_of j k i) = n" unfolding va_of_def n_def [symmetric] by (intro unat_of_nat_small) simp
  show "va_of j k i < MAXVA" using u \<open>n < 2 ^ 38\<close> by (simp add: word_less_nat_alt)
  have d: "n div 2 ^ 12 = (j * 512 + k) * 512 + i" "n div 2 ^ 21 = j * 512 + k" "n div 2 ^ 30 = j"
    using assms by (simp_all add: n_def)
  show "va_path (va_of j k i) = [j, k]" "unat (PX 0 (va_of j k i)) = i"
    using assms d by (simp_all add: va_path_def unat_PX u mod_add_eq [symmetric])
qed

lemma bare_table:
  assumes l: "table_links m root" and b: "bare m root" and p: "ipath p" "length p = 2" and a: "tbl m root p = Some a"
  shows "used m a = {}"
proof -
  obtain j k where jk: "p = [j, k]" using p(2) by (auto simp: numeral_2_eq_2 length_Suc_conv)
  have "ld64 m (entry root j) AND PTE_V \<noteq> 0" using a by (simp add: jk split: if_splits)
  moreover have "ipath ([] @ [j])" "tbl m root [] = Some root" using p(1) by (simp_all add: jk ipath_def)
  ultimately have j: "j < 256" "k < 512" using table_linksD(2) [OF l, of "[]" j root] p(1) by (simp_all add: jk ipath_def)
  have "ld64 m (entry a i) AND PTE_V = 0" if "i < 512" for i
    using b va_of_path [OF j that] a unfolding bare_def leaf_def by (metis jk option.simps(5))
  then show ?thesis by (auto simp: used_def)
qed

lemma table_tree:
  assumes inv: "pt_inv kend F m root" and l: "table_links m root" and b: "bare m root"
    and "ipath p" and "length p + n = 2" and "tbl m root p = Some a"
  shows "tree (Suc n) kend m a \<and> subtree (Suc n) m a = {b. \<exists>q. ipath (p @ q) \<and> tbl m root (p @ q) = Some b}"
  using assms(4-)
proof (induction n arbitrary: p a)
  case 0
  then have u: "used m a = {}" by (intro bare_table [OF l b 0(1)]) simp_all
  have "ipath (p @ q) \<longleftrightarrow> q = []" for q using 0(1,2) by (auto simp: ipath_def)
  then show ?case using 0(3) pt_invD(1) [OF inv 0(1,3)] by (auto simp: u)
next
  case (Suc n)
  define S where "S i = {b. \<exists>q. ipath ((p @ [i]) @ q) \<and> tbl m root ((p @ [i]) @ q) = Some b}" for i
  have ip: "ipath (p @ [i])" if "i < 512" for i using Suc.prems(1,2) that by (auto simp: ipath_def)
  have tb: "tbl m root (p @ [i]) = Some (child m a i)" if "i \<in> used m a" for i
    using that Suc.prems(3) by (simp add: tbl_snoc used_def child_def)
  have ih: "tree (Suc n) kend m (child m a i) \<and> subtree (Suc n) m (child m a i) = S i" if "i \<in> used m a" for i
    unfolding S_def by (rule Suc.IH [OF ip _ tb [OF that]]) (use that Suc.prems(2) in \<open>simp_all add: used_def\<close>)
  have fl: "ld64 m (entry a i) AND (PTE_R OR PTE_W OR PTE_X) = 0" if "i \<in> used m a" for i
    using that by (intro table_linksD(1) [OF l ip Suc.prems(3)]) (simp_all add: used_def)
  have na: "a \<notin> S i" for i
    using pt_inv_inject [OF inv Suc.prems(1) _ Suc.prems(3)] by (fastforce simp: S_def)
  have dj: "S i \<inter> S j = {}" if "i \<noteq> j" for i j
    using pt_inv_inject [OF inv] that by (fastforce simp: S_def)
  have "{b. \<exists>q. ipath (p @ q) \<and> tbl m root (p @ q) = Some b} = insert a (\<Union>i \<in> used m a. S i)" (is "?L = ?R")
  proof (intro set_eqI iffI)
    fix b assume "b \<in> ?L"
    then obtain q where q: "ipath (p @ q)" "tbl m root (p @ q) = Some b" by blast
    show "b \<in> ?R"
    proof (cases q)
      case Nil
      then show ?thesis using q(2) Suc.prems(3) by simp
    next
      case (Cons i r)
      then have "i \<in> used m a" using q Suc.prems(3) by (auto simp: tbl_append used_def ipath_def split: if_splits)
      then show ?thesis using q Cons by (auto simp: S_def)
    qed
  next
    fix b assume "b \<in> ?R"
    then show "b \<in> ?L" using Suc.prems(1,3) by (auto simp: S_def intro: exI [of _ "[]"])
  qed
  moreover have "tree (Suc (Suc n)) kend m a"
    unfolding tree.simps(2) [of "Suc n"] using pt_invD(1) [OF inv Suc.prems(1,3)] ih fl na dj by (simp del: tree.simps subtree.simps)
  moreover have "subtree (Suc (Suc n)) m a = insert a (\<Union>i \<in> used m a. S i)"
    unfolding subtree.simps(2) [of "Suc n"] using ih by (simp del: tree.simps subtree.simps)
  ultimately show ?case by blast
qed

lemma freewalk_frees:
  assumes st: "pt_state kend F root s" and l: "table_links (pmem s) root" and b: "bare (pmem s) root"
  shows "\<exists>s'. freewalk kend root s = Some s' \<and> gives_back kend F (tables (pmem s) root) (pmem s) s'"
proof -
  have inv: "pt_inv kend F (pmem s) root" and av: "kavail kend F s" using st by (simp_all add: pt_state_def)
  have "ipath []" "length [] + 2 = (2 :: nat)" "tbl (pmem s) root [] = Some root" by (simp_all add: ipath_def)
  from table_tree [OF inv l b this] have t: "tree (Suc 2) kend (pmem s) root" "subtree (Suc 2) (pmem s) root = tables (pmem s) root"
    by (simp_all add: tables_def del: tree.simps subtree.simps)
  have "F \<inter> tables (pmem s) root = {}" using pt_invD(3) [OF inv] by (auto simp: tables_def)
  then show ?thesis using freewalk_tree [OF t(1) av] unfolding t(2) by (simp add: freewalk_def)
qed

section \<open>The memory of a process\<close>

text \<open>From \<open>s\<close> to \<open>s'\<close> the pages \<open>A\<close> have come back to the pool, and every other page that is not free keeps its bytes.\<close>

definition reclaims :: "u64 \<Rightarrow> u64 set \<Rightarrow> u64 set \<Rightarrow> kmem \<Rightarrow> kmem \<Rightarrow> bool" where
  "reclaims kend F A s s' \<longleftrightarrow> kavail kend (F \<union> A) s' \<and>
     (\<forall>q. page_aligned q \<longrightarrow> q \<notin> F \<longrightarrow> q \<notin> A \<longrightarrow> same_page (pmem s) (pmem s') q)"

text \<open>The user pages below \<open>sz\<close> are mapped to different pages of the allocator, and no other address is mapped but
  those in \<open>K\<close>, pages of the kernel.\<close>

definition npages :: "u64 \<Rightarrow> nat" where
  "npages sz = unat (PGROUNDUP sz div PGSIZE)"

definition user_frames :: "u64 \<Rightarrow> u64 \<Rightarrow> kmem \<Rightarrow> u64 set" where
  "user_frames root sz s = frames root s (pages 0 (npages sz))"

definition space :: "u64 \<Rightarrow> u64 set \<Rightarrow> u64 \<Rightarrow> u64 \<Rightarrow> u64 set \<Rightarrow> kmem \<Rightarrow> bool" where
  "space kend F root sz K s \<longleftrightarrow>
     pt_state kend F root s \<and> table_links (pmem s) root \<and> 4096 * npages sz \<le> 0x4000000000 \<and>
     (\<forall>a \<in> pages 0 (npages sz). unmappable kend F root True s a) \<and>
     inj_on (\<lambda>a. PTE2PA (leaf (pmem s) root a)) (pages 0 (npages sz)) \<and>
     (\<forall>v<MAXVA. PGROUNDDOWN v \<notin> pages 0 (npages sz) \<longrightarrow> PGROUNDDOWN v \<notin> K \<longrightarrow> leaf (pmem s) root v AND PTE_V = 0)"

lemma npages_0 [simp]: "npages 0 = 0"
  by (simp add: npages_def PGROUNDUP_def)

lemma uvm_free_ok:
  assumes sp: "space kend F root sz {} s"
  shows "\<exists>s'. uvm_free kend root sz s = Some s' \<and> reclaims kend F (user_frames root sz s \<union> tables (pmem s) root) s s'"
proof -
  let ?A = "pages 0 (npages sz)"
  obtain s1 where s1: "(if 0 < sz then uvm_unmap kend root 0 (PGROUNDUP sz div PGSIZE) True s else Some s) = Some s1"
      "pt_state kend (F \<union> frames root s ?A) root s1" "tables (pmem s1) root = tables (pmem s) root" "bare (pmem s1) root"
      "outside_kept root (F \<union> frames root s ?A) s s1"
  proof (cases "sz = 0")
    case True
    then show ?thesis using sp by (intro that [of s]) (simp_all add: space_def bare_def frames_def)
  next
    case False
    have n: "npages sz = unat (PGROUNDUP sz div PGSIZE)" by (simp add: npages_def)
    have "0 + PGROUNDUP sz div PGSIZE * PGSIZE = 0 + of_nat (4096 * npages sz)" by (simp add: n)
    note last = this
    have st: "pt_state kend F root s" and b: "unat (0 :: u64) + 4096 * npages sz \<le> 0x4000000000"
      and um: "\<forall>a \<in> ?A. unmappable kend F root True s a" and ij: "True \<longrightarrow> inj_on (\<lambda>a. PTE2PA (leaf (pmem s) root a)) ?A"
      using sp by (simp_all add: space_def)
    have "page_aligned 0" by (simp add: page_aligned_def)
    from unmap_loop_unmaps [OF st this b last um ij] obtain s1 where "uvm_unmap_loop kend root 0 (0 + PGROUNDUP sz div PGSIZE * PGSIZE) True s = Some s1"
      "pt_state kend (F \<union> frames root s ?A) root s1" "tables (pmem s1) root = tables (pmem s) root"
      "\<forall>v<MAXVA. leaf (pmem s1) root v = (if PGROUNDDOWN v \<in> ?A then 0 else leaf (pmem s) root v)"
      "outside_kept root (F \<union> frames root s ?A) s s1"
      unfolding if_True by blast
    moreover from this(4) have "bare (pmem s1) root" using sp by (auto simp: space_def bare_def)
    ultimately show ?thesis using False by (intro that [of s1]) (simp_all add: uvm_unmap_def word_gt_0)
  qed
  have "table_links (pmem s1) root" using s1(5) sp by (simp add: outside_kept_def space_def)
  from freewalk_frees [OF s1(2) this s1(4)] obtain s2 where s2: "freewalk kend root s1 = Some s2"
      "gives_back kend (F \<union> frames root s ?A) (tables (pmem s) root) (pmem s1) s2" unfolding s1(3) by blast
  have "reclaims kend F (frames root s ?A \<union> tables (pmem s) root) s s2"
    using s2(2) s1(5) unfolding reclaims_def gives_back_def outside_kept_def by (auto simp: Un_assoc intro: same_page_trans)
  moreover have "uvm_free kend root sz s = Some s2" using s1(1) s2(1) by (simp add: uvm_free_def)
  ultimately show ?thesis by (simp add: user_frames_def)
qed

text \<open>A page of the kernel is unmapped, without freeing it.\<close>

lemma unmap_kernel_page:
  assumes sp: "space kend F root sz (insert a K) s" and a: "page_aligned a" "a < MAXVA" "a \<notin> pages 0 (npages sz)"
    and m: "leaf (pmem s) root a AND PTE_V \<noteq> 0" "PTE_FLAGS (leaf (pmem s) root a) \<noteq> PTE_V"
  shows "\<exists>s'. uvm_unmap kend root a 1 False s = Some s' \<and> space kend F root sz K s' \<and> tables (pmem s') root = tables (pmem s) root \<and>
    user_frames root sz s' = user_frames root sz s \<and> outside_kept root F s s' \<and>
    (\<forall>v<MAXVA. leaf (pmem s') root v = (if PGROUNDDOWN v = a then 0 else leaf (pmem s) root v))"
proof -
  have st: "pt_state kend F root s" using sp by (simp add: space_def)
  have "unat a + 4096 \<le> 0x4000000000"
  proof -
    have "unat a < 0x4000000000" "unat a mod 4096 = 0" using a(1,2) by (simp_all add: word_less_nat_alt page_aligned_unat)
    moreover obtain k where "unat a = 4096 * k" using calculation(2) by (metis mod_0_imp_dvd dvdE)
    ultimately have "k < 0x4000000" by simp
    then show ?thesis using \<open>unat a = 4096 * k\<close> by simp
  qed
  then have b: "unat a + 4096 * 1 \<le> 0x4000000000" by simp
  have one: "pages a 1 = {a}" by (simp add: pages_Suc)
  have last: "a + 4096 = a + of_nat (4096 * 1)" by simp
  have um: "\<forall>p \<in> pages a 1. unmappable kend F root False s p" unfolding one using m by (simp add: unmappable_def)
  have "False \<longrightarrow> inj_on (\<lambda>p. PTE2PA (leaf (pmem s) root p)) (pages a 1)" by simp
  from unmap_loop_unmaps [OF st a(1) b last um this] obtain s' where s': "uvm_unmap_loop kend root a (a + 4096) False s = Some s'" "pt_state kend F root s'"
      "tables (pmem s') root = tables (pmem s) root" "\<forall>v<MAXVA. leaf (pmem s') root v = (if PGROUNDDOWN v = a then 0 else leaf (pmem s) root v)"
      "outside_kept root F s s'"
    unfolding if_False one by auto
  have lf: "leaf (pmem s') root v = leaf (pmem s) root v" if "v \<in> pages 0 (npages sz)" for v
  proof -
    have "v < MAXVA" "page_aligned v"
      using pages_unat [OF that] sp by (auto simp: space_def word_less_nat_alt page_aligned_unat)
    then show ?thesis using s'(4) PGROUNDDOWN_id [of v] a(3) that by auto
  qed
  have "space kend F root sz K s'" unfolding space_def
  proof (intro conjI allI impI ballI)
    show "inj_on (\<lambda>a. PTE2PA (leaf (pmem s') root a)) (pages 0 (npages sz))"
      using sp lf unfolding space_def inj_on_def by simp
    show "unmappable kend F root True s' v" if "v \<in> pages 0 (npages sz)" for v
      using sp lf [OF that] that s'(3) by (simp add: space_def unmappable_def)
    show "leaf (pmem s') root v AND PTE_V = 0" if "v < MAXVA" "PGROUNDDOWN v \<notin> pages 0 (npages sz)" "PGROUNDDOWN v \<notin> K" for v
      using sp s'(4) that by (auto simp: space_def)
  qed (use sp s' in \<open>simp_all add: space_def outside_kept_def\<close>)
  moreover have "user_frames root sz s' = user_frames root sz s"
    unfolding user_frames_def frames_def by (rule image_cong [OF refl]) (simp add: lf)
  moreover have "uvm_unmap kend root a 1 False s = Some s'" using s'(1) a(1) by (simp add: uvm_unmap_def page_aligned_mod)
  ultimately show ?thesis using s' by blast
qed

text \<open>A page that is not part of the address space is freed.\<close>

lemma free_other_page:
  assumes sp: "space kend F root sz K s" and pa: "kpage kend pa" "pa \<notin> F" "pa \<notin> tables (pmem s) root" "pa \<notin> user_frames root sz s"
  shows "\<exists>s'. kfree kend pa s = Some s' \<and> space kend (insert pa F) root sz K s' \<and> tables (pmem s') root = tables (pmem s) root \<and>
    user_frames root sz s' = user_frames root sz s \<and> outside_kept root (insert pa F) s s' \<and>
    (\<forall>v. leaf (pmem s') root v = leaf (pmem s) root v)"
proof -
  have st: "pt_state kend F root s" using sp by (simp add: space_def)
  obtain s' where s': "kfree kend pa s = Some s'" "pt_state kend (insert pa F) root s'"
      "\<forall>q. ipath q \<longrightarrow> tbl (pmem s') root q = tbl (pmem s) root q" "\<forall>v. leaf (pmem s') root v = leaf (pmem s) root v"
      "outside_kept root (insert pa F) s s'"
    using kfree_keeps_tables [OF st pa(1-3)] by blast
  have t: "tables (pmem s') root = tables (pmem s) root" using s'(3) by (auto simp: tables_def)
  have "unmappable kend (insert pa F) root True s' v" if "v \<in> pages 0 (npages sz)" for v
    using sp s'(4) that t pa(4) by (auto simp: space_def unmappable_def user_frames_def frames_def Let_def)
  then have "space kend (insert pa F) root sz K s'"
    using sp s'(2,4,5) by (simp add: space_def outside_kept_def)
  then show ?thesis using s' t by (simp add: user_frames_def frames_def)
qed

end
