(* ===== verification/Reap.thy ===== *)
theory Reap
  imports ProcSpec VmFree
begin

text \<open>
  Reaping a child (kernel/proc.c: \<^verbatim>\<open>wait\<close>, \<^verbatim>\<open>freeproc\<close>, \<^verbatim>\<open>proc_freepagetable\<close>; kernel/vm.c: \<^verbatim>\<open>uvm_free\<close>,
  \<^verbatim>\<open>freewalk\<close>).  \<open>reapable\<close> is what a child that has exited looks like in memory: a well-formed page
  table that maps its user pages, the trampoline and the trap frame.  The lemmas follow \<^verbatim>\<open>freeproc\<close>
  through its calls and show that all of it returns to the pool.
\<close>

section \<open>The memory of a process\<close>

definition kernel_page :: "u64 \<Rightarrow> u64 \<Rightarrow> kmem \<Rightarrow> u64 \<Rightarrow> bool" where
  "kernel_page root n k a \<longleftrightarrow>
     a \<notin> pages 0 (npages n) \<and> leaf (pmem k) root a AND PTE_V \<noteq> 0 \<and> PTE_FLAGS (leaf (pmem k) root a) \<noteq> PTE_V"

definition reapable :: "u64 \<Rightarrow> u64 set \<Rightarrow> proc \<Rightarrow> kmem \<Rightarrow> bool" where
  "reapable kend F x k \<longleftrightarrow>
     space kend F (pagetable x) (sz x) {TRAMPOLINE, TRAPFRAME} k \<and>
     kernel_page (pagetable x) (sz x) k TRAMPOLINE \<and> kernel_page (pagetable x) (sz x) k TRAPFRAME \<and>
     kpage kend (trapframe x) \<and> trapframe x \<notin> F \<and>
     trapframe x \<notin> tables (pmem k) (pagetable x) \<and> trapframe x \<notin> user_frames (pagetable x) (sz x) k"

definition proc_pages :: "proc \<Rightarrow> kmem \<Rightarrow> u64 set" where
  "proc_pages x k = insert (trapframe x) (user_frames (pagetable x) (sz x) k \<union> tables (pmem k) (pagetable x))"

lemma freeproc_pages:
  assumes r: "reapable (sym_end y) F (procs s c) (km s)"
  shows "\<exists>k. freeproc y c s = Some (s\<lparr>km := k, procs := (procs s)(c := cleared (procs s c))\<rparr>) \<and>
    reclaims (sym_end y) F (proc_pages (procs s c) (km s)) (km s) k"
proof -
  define root n tf where "root = pagetable (procs s c)" and "n = sz (procs s c)" and "tf = trapframe (procs s c)"
  note r = r [unfolded reapable_def kernel_page_def, folded root_def n_def tf_def]
  obtain k1 where k1: "kfree (sym_end y) tf (km s) = Some k1"
      "space (sym_end y) (insert tf F) root n {TRAMPOLINE, TRAPFRAME} k1"
      "tables (pmem k1) root = tables (pmem (km s)) root" "user_frames root n k1 = user_frames root n (km s)"
      "outside_kept root (insert tf F) (km s) k1" "\<forall>v. leaf (pmem k1) root v = leaf (pmem (km s)) root v"
    using free_other_page [of "sym_end y" F root n "{TRAMPOLINE, TRAPFRAME}" "km s" tf] r by blast
  obtain k2 where k2: "uvm_unmap (sym_end y) root TRAMPOLINE 1 False k1 = Some k2"
      "space (sym_end y) (insert tf F) root n {TRAPFRAME} k2"
      "tables (pmem k2) root = tables (pmem k1) root" "user_frames root n k2 = user_frames root n k1"
      "outside_kept root (insert tf F) k1 k2"
      "\<forall>v<MAXVA. leaf (pmem k2) root v = (if PGROUNDDOWN v = TRAMPOLINE then 0 else leaf (pmem k1) root v)"
    using unmap_kernel_page [OF k1(2) TRAMPOLINE_ok(1,2)] r k1(6) by auto
  have "leaf (pmem k2) root TRAPFRAME = leaf (pmem (km s)) root TRAPFRAME"
    using k2(6) k1(6) TRAMPOLINE_ok by (simp add: PGROUNDDOWN_id)
  then obtain k3 where k3: "uvm_unmap (sym_end y) root TRAPFRAME 1 False k2 = Some k3"
      "space (sym_end y) (insert tf F) root n {} k3"
      "tables (pmem k3) root = tables (pmem k2) root" "user_frames root n k3 = user_frames root n k2"
      "outside_kept root (insert tf F) k2 k3"
    using unmap_kernel_page [OF k2(2) TRAMPOLINE_ok(3,4)] r by auto
  obtain k where k: "uvm_free (sym_end y) root n k3 = Some k"
      "reclaims (sym_end y) (insert tf F) (user_frames root n k3 \<union> tables (pmem k3) root) k3 k"
    using uvm_free_ok [OF k3(2)] by blast
  have "pt_inv (sym_end y) F (pmem (km s)) root" using r by (simp add: space_def pt_state_def)
  from pt_invD(1) [OF this, of "[]" root] have "root \<noteq> 0" by (auto simp: kpage_def ipath_def)
  moreover have "tf \<noteq> 0" using r by (simp add: kpage_def)
  ultimately have "freeproc y c s = Some (s\<lparr>km := k, procs := (procs s)(c := cleared (procs s c))\<rparr>)"
    using k1(1) k2(1) k3(1) k(1)
    by (simp add: freeproc_def proc_freepagetable_def do_mem_def upd_proc_def km_first flip: root_def n_def tf_def)
  moreover have "reclaims (sym_end y) F (insert tf (user_frames root n (km s) \<union> tables (pmem (km s)) root)) (km s) k"
    using k(2) k1(3-5) k2(3-5) k3(3-5) by (auto simp: reclaims_def outside_kept_def same_page_def)
  ultimately show ?thesis unfolding proc_pages_def root_def n_def tf_def by blast
qed

section \<open>The status\<close>

lemma reapable_write:
  assumes r: "reapable kend F x k" and keep: "\<And>q. q \<in> F \<union> tables (pmem k) (pagetable x) \<Longrightarrow> same_page (pmem k) m q"
  shows "reapable kend F x (k\<lparr>pmem := m\<rparr>)" "proc_pages x (k\<lparr>pmem := m\<rparr>) = proc_pages x k"
proof -
  define root where "root = pagetable x"
  note r = r [unfolded reapable_def space_def pt_state_def kernel_page_def, folded root_def]
  have inv: "pt_inv kend F (pmem k) root" and av: "kavail kend F k" using r by blast+
  have same: "same_page (pmem k) m b" if "ipath p" "tbl (pmem k) root p = Some b" for p b
    using keep that by (auto simp: tables_def root_def)
  have t: "tbl m root p = tbl (pmem k) root p" if "ipath p" for p using tbl_cong [OF same that] .
  have T: "tables m root = tables (pmem k) root" using t by (auto simp: tables_def)
  have l: "leaf m root v = leaf (pmem k) root v" for v using pt_inv_cong(2) [OF inv order_refl same] .
  have "kavail kend F (k\<lparr>pmem := m\<rparr>)" using kal.avail_put [OF av] keep by auto
  moreover have "pt_inv kend F m root" using pt_inv_cong(1) [OF inv order_refl same] .
  moreover have "table_links m root" by (rule table_links_cong [of "pmem k"]) (use r t same in blast)+
  ultimately show "reapable kend F x (k\<lparr>pmem := m\<rparr>)"
    using r by (simp add: reapable_def space_def pt_state_def kernel_page_def unmappable_def user_frames_def frames_def l T
        flip: root_def)
  show "proc_pages x (k\<lparr>pmem := m\<rparr>) = proc_pages x k"
    by (simp add: proc_pages_def user_frames_def frames_def l T flip: root_def)
qed

definition exited_child :: "nat \<Rightarrow> (nat \<Rightarrow> proc) \<Rightarrow> nat option" where
  "exited_child p t = find (\<lambda>q. parent (t q) = Some p \<and> state (t q) = ZOMBIE) [0..<NPROC]"

text \<open>The caller may write its status where its page table maps memory that is neither free nor a table of another process.\<close>

definition caller_ok :: "u64 \<Rightarrow> u64 set \<Rightarrow> mem \<Rightarrow> u64 \<Rightarrow> u64 \<Rightarrow> bool" where
  "caller_ok kend F m root other \<longleftrightarrow> pt_inv kend F m root \<and> user_space m root \<and>
     (\<forall>v a. uaddr m root v = Some a \<longrightarrow> PGROUNDDOWN a \<notin> F \<union> tables m other)"

lemma caller_write:
  assumes r: "reapable kend F x k" and ok: "caller_ok kend F (pmem k) root (pagetable x)"
    and m: "m = wr (uaddrs (pmem k) root va n) bs (pmem k)"
  shows "reapable kend F x (k\<lparr>pmem := m\<rparr>)" "proc_pages x (k\<lparr>pmem := m\<rparr>) = proc_pages x k"
proof -
  have "same_page (pmem k) m q" if q: "q \<in> F \<union> tables (pmem k) (pagetable x)" for q
    unfolding same_page_def m
  proof (intro allI impI wr_outside notI)
    fix i assume i: "i < 4096" "q + of_nat i \<in> set (uaddrs (pmem k) root va n)"
    have "pt_inv kend F (pmem k) (pagetable x)" "kavail kend F k" using r by (auto simp: reapable_def space_def pt_state_def)
    then have "page_aligned q" using q kal.avail_page by (auto simp: tables_def kpage_def dest: pt_invD(2))
    then have page: "PGROUNDDOWN (q + of_nat i) = q" using i(1) by (rule PGROUNDDOWN_offset)
    obtain v where "uaddr (pmem k) root v = Some (q + of_nat i)" using set_uaddrs [OF i(2)] by blast
    then have "PGROUNDDOWN (q + of_nat i) \<notin> F \<union> tables (pmem k) (pagetable x)" using ok unfolding caller_ok_def by blast
    then show False using q unfolding page by blast
  qed
  then show "reapable kend F x (k\<lparr>pmem := m\<rparr>)" "proc_pages x (k\<lparr>pmem := m\<rparr>) = proc_pages x k"
    using reapable_write [OF r] by blast+
qed

lemma wait_child:
  assumes c: "exited_child p (procs s) = Some c" and r: "reapable (sym_end y) F (procs s c) (km s)"
    and ok: "addr \<noteq> 0 \<longrightarrow> caller_ok (sym_end y) F (pmem (km s)) (pagetable (procs s p)) (pagetable (procs s c))"
    and ps: "ps = (if addr = 0 then [] else uaddrs (pmem (km s)) (pagetable (procs s p)) addr 4)"
    and k: "k = (km s)\<lparr>pmem := wr ps (le_bytes 4 (xstate (procs s c))) (pmem (km s))\<rparr>"
  shows "if addr \<noteq> 0 \<and> length ps \<noteq> 4 then wait y p addr s = Some (Returns (- 1), s\<lparr>km := k\<rparr>)
    else \<exists>k'. wait y p addr s = Some (Returns (pid (procs s c)), s\<lparr>km := k', procs := (procs s)(c := cleared (procs s c))\<rparr>) \<and>
      reclaims (sym_end y) F (proc_pages (procs s c) (km s)) k k'"
proof -
  have scan: "fst (wait_scan NPROC 0 p False (procs s)) = Some c" using c by (simp add: wait_scan_spec exited_child_def)
  have k0: "k = km s" if "addr = 0" using that by (simp add: k ps wr_def)
  have copied: "(if addr \<noteq> 0 then on_mem (copy_to_user (pagetable (procs s p)) addr (le_bytes 4 (xstate (procs s c)))) s
      else Some (0, s)) = Some (if addr \<noteq> 0 \<and> length ps \<noteq> 4 then - 1 else 0, s\<lparr>km := k\<rparr>)"
    using ok k0 copy_to_user_eq [of "sym_end y" F "km s" "pagetable (procs s p)" addr "le_bytes 4 (xstate (procs s c))"]
    by (auto simp: on_mem_def caller_ok_def k ps)
  have r': "reapable (sym_end y) F (procs s c) k" "proc_pages (procs s c) k = proc_pages (procs s c) (km s)"
    using caller_write [OF r, of "pagetable (procs s p)" _ addr 4 "le_bytes 4 (xstate (procs s c))"] ok r k0
    by (cases "addr = 0"; simp add: k ps)+
  obtain k' where "freeproc y c (s\<lparr>km := k\<rparr>) = Some (s\<lparr>km := k', procs := (procs s)(c := cleared (procs s c))\<rparr>)"
      "reclaims (sym_end y) F (proc_pages (procs s c) (km s)) k k'"
    using freeproc_pages [of y F "s\<lparr>km := k\<rparr>" c] r' by auto
  then show ?thesis using scan copied
    unfolding wait_def by (cases "wait_scan NPROC 0 p False (procs s)") (auto simp: Let_def)
qed

section \<open>An example\<close>

text \<open>Process 0 has one user page, and slot 2 is a fresh child of it that has exited with status 7.\<close>

definition ex_more :: "u64 list" where
  "ex_more = [0x87FF9000, 0x87FF8000, 0x87FFF000, 0x87FFE000, 0x87FFD000, 0x87FFC000, 0x87FFB000, 0x87FFA000]"

definition ex_parent :: kern where
  "ex_parent = ex_kern\<lparr>km := snd (the (mappages ex_root PGSIZE PGSIZE ex_frame ex_perm (pool_of ex_more)))\<rparr>"

definition ex_zombie :: kern where
  "ex_zombie = upd_proc 2 (\<lambda>x. x\<lparr>state := ZOMBIE, parent := Some 0, sz := 0, xstate := 7\<rparr>)
     (snd (the (allocproc ex_symbols ex_parent)))"

lemma kernel_leaf:
  "(e OR PTE_R OR f OR PTE_V) AND PTE_V \<noteq> (0 :: u64)" "PTE_FLAGS (e OR PTE_R OR f OR PTE_V) \<noteq> PTE_V"
proof -
  have "bit ((e OR PTE_R OR f OR PTE_V) AND PTE_V) 0" by (simp add: bit_simps)
  then show "(e OR PTE_R OR f OR PTE_V) AND PTE_V \<noteq> (0 :: u64)" by auto
  have "bit (PTE_FLAGS (e OR PTE_R OR f OR PTE_V)) 1" "\<not> bit (PTE_V :: u64) 1"
    by (simp_all add: PTE_FLAGS_def bit_simps)
  then show "PTE_FLAGS (e OR PTE_R OR f OR PTE_V) \<noteq> PTE_V" by metis
qed

lemma ex_parent_mem:
  "\<exists>F. pt_state ex_kend F ex_root (km ex_parent) \<and> 6 \<le> card F \<and> F \<subseteq> set ex_more \<and>
     tables (pmem (km ex_parent)) ex_root \<subseteq> insert ex_root (set ex_more) \<and>
     (\<forall>v<MAXVA. leaf (pmem (km ex_parent)) ex_root v = (if PGROUNDDOWN v = PGSIZE then ex_pte else 0))"
proof -
  have ok: "list_all (kpage ex_kend) ex_more" "distinct ex_more" "ex_root \<notin> set ex_more" "card (set ex_more) = 8"
    by (simp_all add: ex_more_def kpage_def page_aligned_def)
  have "\<forall>k<4096. pmem (pool_of ex_more) (ex_root + of_nat k) = 0"
    using pool_of_zero [OF ok(1) _ ok(3)] ex_pages_ok(3) by (simp add: kpage_def)
  note e = empty_table [OF ex_pages_ok(3) ok(3) this]
  have "pt_state ex_kend (set ex_more) ex_root (pool_of ex_more)"
    unfolding pt_state_def kavail_def using pool_of_inv [OF ok(2,1)] e(1) by blast
  then obtain k F where k: "mappages ex_root PGSIZE PGSIZE ex_frame ex_perm (pool_of ex_more) = Some (0, k)"
      "pt_state ex_kend F ex_root k" "F \<subseteq> set ex_more" "card (set ex_more) \<le> card F + 2"
      "outside_kept ex_root (set ex_more) (pool_of ex_more) k"
      "\<forall>v<MAXVA. leaf (pmem k) ex_root v =
         (if PGROUNDDOWN v = PGSIZE then PA2PTE ex_frame OR scast ex_perm OR PTE_V else leaf (pmem (pool_of ex_more)) ex_root v)"
    using map_one_page [of ex_kend "set ex_more" ex_root "pool_of ex_more" PGSIZE ex_frame ex_perm] e(3) ok(4)
    by (auto simp: page_aligned_def)
  have "km ex_parent = k" by (simp add: ex_parent_def k(1))
  then show ?thesis using k(2-6) e(2,3) ok(4) by (intro exI [of _ F]) (auto simp: outside_kept_def ex_pte_def)
qed

lemma ex_zombie_ok:
  "\<exists>F. reapable ex_kend F (procs ex_zombie 2) (km ex_zombie) \<and> pid (procs ex_zombie 2) = 3 \<and> xstate (procs ex_zombie 2) = 7 \<and>
     caller_ok ex_kend F (pmem (km ex_zombie)) ex_root (pagetable (procs ex_zombie 2)) \<and>
     pagetable (procs ex_zombie 0) = ex_root \<and> exited_child 0 (procs ex_zombie) = Some 2 \<and>
     F \<union> proc_pages (procs ex_zombie 2) (km ex_zombie) \<subseteq> set ex_more \<and>
     (\<forall>v. uaddr (pmem (km ex_zombie)) ex_root v =
        (if v < MAXVA \<and> PGROUNDDOWN v = PGSIZE then Some (ex_frame + (v - PGSIZE)) else None))"
proof -
  obtain F where F: "pt_state ex_kend F ex_root (km ex_parent)" "6 \<le> card F" "F \<subseteq> set ex_more"
      "tables (pmem (km ex_parent)) ex_root \<subseteq> insert ex_root (set ex_more)"
      "\<forall>v<MAXVA. leaf (pmem (km ex_parent)) ex_root v = (if PGROUNDDOWN v = PGSIZE then ex_pte else 0)"
    using ex_parent_mem by blast
  have av: "kavail (sym_end ex_symbols) F (km ex_parent)" and inv: "pt_inv ex_kend F (pmem (km ex_parent)) ex_root"
    using F(1) by (simp_all add: pt_state_def ex_symbols_def)
  have slot: "2 < NPROC" "state (procs ex_parent 2) = UNUSED" "\<forall>q<2. state (procs ex_parent q) \<noteq> UNUSED" "nextpid ex_parent = 3"
    by (simp_all add: ex_parent_def ex_kern_def ex_proc_def)
  obtain k F' pt tf where a: "allocproc ex_symbols ex_parent = Some (Some 2, ex_parent\<lparr>km := k, nextpid := nextpid ex_parent + 1,
       procs := (procs ex_parent)(2 := (procs ex_parent 2)\<lparr>pid := nextpid ex_parent, state := USED, trapframe := tf, pagetable := pt,
         pcontext := first_context ex_symbols (kstack (procs ex_parent 2)), pticks := 0, alarmhandler := 0, tickets := 1\<rparr>)\<rparr>)"
     "pt_state (sym_end ex_symbols) F' pt k" "F' \<subseteq> F" "tf \<in> F - F'" "tf \<notin> tables (pmem k) pt" "tables (pmem k) pt \<subseteq> F"
     "table_links (pmem k) pt" "\<forall>q. page_aligned q \<longrightarrow> q \<notin> F \<longrightarrow> same_page (pmem (km ex_parent)) (pmem k) q"
     "\<forall>v<MAXVA. leaf (pmem k) pt v = boot_leaf ex_symbols tf v"
    using allocproc_ok [OF av F(2) slot(1-3)] by blast
  have z: "km ex_zombie = k" "pid (procs ex_zombie 2) = 3" "xstate (procs ex_zombie 2) = 7" "sz (procs ex_zombie 2) = 0"
      "trapframe (procs ex_zombie 2) = tf" "pagetable (procs ex_zombie 2) = pt" "pagetable (procs ex_zombie 0) = ex_root"
      "exited_child 0 (procs ex_zombie) = Some 2"
    by (simp_all add: ex_zombie_def a(1) upd_proc_def slot(4))
      (simp_all add: ex_parent_def ex_kern_def ex_proc_def exited_child_def upt_rec)
  have "kpage ex_kend tf" using kal.avail_page [OF av] a(4) by (simp add: ex_symbols_def)
  moreover have "leaf (pmem k) pt v = 0" if "v < MAXVA" "PGROUNDDOWN v \<notin> {TRAMPOLINE, TRAPFRAME}" for v
    using a(9) that by (simp add: boot_leaf_def)
  moreover have "kernel_page pt 0 k TRAMPOLINE" "kernel_page pt 0 k TRAPFRAME"
    using a(9) TRAMPOLINE_ok kernel_leaf [of "PA2PTE (sym_trampoline ex_symbols)" PTE_X] kernel_leaf [of "PA2PTE tf" PTE_W]
    by (simp_all add: kernel_page_def pages_def boot_leaf_def PGROUNDDOWN_id)
  ultimately have reap: "reapable ex_kend F' (procs ex_zombie 2) k"
    using a(2-7) by (simp add: reapable_def space_def z user_frames_def frames_def pages_def ex_symbols_def)
  have same: "same_page (pmem (km ex_parent)) (pmem k) b" if "ipath p" "tbl (pmem (km ex_parent)) ex_root p = Some b" for p b
    using a(8) pt_invD [OF inv that] by blast
  have u: "uaddr (pmem k) ex_root v = (if v < MAXVA \<and> PGROUNDDOWN v = PGSIZE then Some (ex_frame + (v - PGSIZE)) else None)" for v
    using ex_entry F(5) pt_inv_cong(2) [OF inv order_refl same] by (cases "v < MAXVA") (simp_all add: uaddr_def Let_def)
  have "tbl (pmem k) ex_root p = tbl (pmem (km ex_parent)) ex_root p" if "ipath p" for p using tbl_cong [OF same that] .
  then have "tables (pmem k) ex_root = tables (pmem (km ex_parent)) ex_root" by (auto simp: tables_def)
  then have "tables (pmem k) ex_root \<subseteq> insert ex_root (set ex_more)" using F(4) by simp
  moreover have "ex_frame \<notin> insert ex_root (set ex_more)" by (simp add: ex_more_def)
  moreover have page: "PGROUNDDOWN b = ex_frame" if "uaddr (pmem k) ex_root v = Some b" for v b
    using that ex_frame_page [of v] unfolding u by (auto split: if_splits)
  moreover have "pt_inv ex_kend F' (pmem k) ex_root" using pt_inv_cong(1) [OF inv a(3) same] .
  ultimately have "caller_ok ex_kend F' (pmem k) ex_root pt"
    using a(3,6) F(3) unfolding caller_ok_def user_space_def by (auto dest!: page)
  then show ?thesis using z reap u a(3,4,6) F(3) by (intro exI [of _ F']) (auto simp: proc_pages_def user_frames_def frames_def)
qed

section \<open>Property\<close>

text \<open>C37. \<open>wait\<close> takes the first child that has exited.  If the status cannot be written to all four bytes
  at \<open>addr\<close> it returns -1 and keeps the child.  Otherwise it returns the pid of the child, the status is in the memory of
  the caller (unless \<open>addr\<close> is 0), the slot is unused and has lost everything that names the child,
  and exactly the trap frame, the user pages and the page table of the child are
  back in the pool; no other page and no other slot changes.  With no child, or when the caller was
  killed, it returns -1; with living children only it sleeps.  The child's memory is assumed to be a process's
  (\<open>reapable\<close>), and the caller's user pages not to be free pages or the child's tables.\<close>

theorem wait_reaps:
  assumes "\<forall>c. exited_child p (procs s) = Some c \<longrightarrow> reapable (sym_end y) F (procs s c) (km s) \<and>
      (addr \<noteq> 0 \<longrightarrow> caller_ok (sym_end y) F (pmem (km s)) (pagetable (procs s p)) (pagetable (procs s c)))"
  shows "case exited_child p (procs s) of
      None \<Rightarrow> wait y p addr s =
        (if (\<exists>q<NPROC. parent (procs s q) = Some p) \<and> \<not> pkilled (procs s p)
         then Some (Blocks 0, sleep_enter p (ChanProc p) s) else Some (Returns (- 1), s))
    | Some c \<Rightarrow>
        (let x = procs s c; ps = (if addr = 0 then [] else uaddrs (pmem (km s)) (pagetable (procs s p)) addr 4);
             k = (km s)\<lparr>pmem := wr ps (le_bytes 4 (xstate x)) (pmem (km s))\<rparr>
         in if addr \<noteq> 0 \<and> length ps \<noteq> 4 then wait y p addr s = Some (Returns (- 1), s\<lparr>km := k\<rparr>)
            else \<exists>k'. wait y p addr s = Some (Returns (pid x), s\<lparr>km := k', procs := (procs s)(c := x\<lparr>trapframe := 0,
                pagetable := 0, sz := 0, pid := 0, parent := None, pname := (pname x)[0 := 0], channel := None,
                pkilled := False, xstate := 0, state := UNUSED\<rparr>)\<rparr>) \<and>
              reclaims (sym_end y) F (insert (trapframe x) (user_frames (pagetable x) (sz x) (km s) \<union>
                tables (pmem (km s)) (pagetable x))) k k')"
proof (cases "exited_child p (procs s)")
  case None
  then have "wait_scan NPROC 0 p False (procs s) = (None, \<exists>q<NPROC. parent (procs s q) = Some p)"
    unfolding wait_scan_spec by (auto simp: exited_child_def)
  then show ?thesis using None by (simp add: wait_def killed_def)
next
  case (Some c)
  then have "reapable (sym_end y) F (procs s c) (km s)"
    "addr \<noteq> 0 \<longrightarrow> caller_ok (sym_end y) F (pmem (km s)) (pagetable (procs s p)) (pagetable (procs s c))"
    using assms by blast+
  from wait_child [OF Some this refl refl] show ?thesis
    unfolding Some option.case Let_def cleared_def proc_pages_def .
qed

theorem wait_reaps_witness:
  "\<exists>s'. wait ex_symbols 0 PGSIZE ex_zombie = Some (Returns 3, s') \<and> state (procs s' 2) = UNUSED \<and>
     pmem (km s') ex_frame = 7"
proof -
  obtain F where z: "reapable ex_kend F (procs ex_zombie 2) (km ex_zombie)" "pid (procs ex_zombie 2) = 3"
      "xstate (procs ex_zombie 2) = 7"
      "caller_ok ex_kend F (pmem (km ex_zombie)) ex_root (pagetable (procs ex_zombie 2))"
      "pagetable (procs ex_zombie 0) = ex_root" "exited_child 0 (procs ex_zombie) = Some 2"
      "F \<union> proc_pages (procs ex_zombie 2) (km ex_zombie) \<subseteq> set ex_more"
      "\<forall>v. uaddr (pmem (km ex_zombie)) ex_root v =
        (if v < MAXVA \<and> PGROUNDDOWN v = PGSIZE then Some (ex_frame + (v - PGSIZE)) else None)"
    using ex_zombie_ok by blast
  define m where "m = wr [ex_frame, ex_frame + 1, ex_frame + 2, ex_frame + 3] (le_bytes 4 (7 :: u32)) (pmem (km ex_zombie))"
  have ex_end: "sym_end ex_symbols = ex_kend" by (simp add: ex_symbols_def)
  have four: "4 = Suc (Suc (Suc (Suc 0)))" by simp
  have ps: "uaddrs (pmem (km ex_zombie)) ex_root PGSIZE 4 = [ex_frame, ex_frame + 1, ex_frame + 2, ex_frame + 3]"
    unfolding four uaddrs.simps z(8) [rule_format] by (simp add: PGROUNDDOWN_def)
  have "\<exists>k'. wait ex_symbols 0 PGSIZE ex_zombie = Some (Returns 3, ex_zombie\<lparr>km := k', procs := (procs ex_zombie)
       (2 := (procs ex_zombie 2)\<lparr>trapframe := 0, pagetable := 0, sz := 0, pid := 0, parent := None,
         pname := (pname (procs ex_zombie 2))[0 := 0], channel := None, pkilled := False, xstate := 0, state := UNUSED\<rparr>)\<rparr>) \<and>
     reclaims ex_kend F (proc_pages (procs ex_zombie 2) (km ex_zombie)) ((km ex_zombie)\<lparr>pmem := m\<rparr>) k'"
    using wait_reaps [of 0 ex_zombie ex_symbols F PGSIZE] z(1,4-6) ps
    by (simp add: z(2,3) proc_pages_def m_def Let_def ex_end)
  then obtain k' where k': "wait ex_symbols 0 PGSIZE ex_zombie = Some (Returns 3, ex_zombie\<lparr>km := k', procs := (procs ex_zombie)
       (2 := (procs ex_zombie 2)\<lparr>trapframe := 0, pagetable := 0, sz := 0, pid := 0, parent := None,
         pname := (pname (procs ex_zombie 2))[0 := 0], channel := None, pkilled := False, xstate := 0, state := UNUSED\<rparr>)\<rparr>)"
     "reclaims ex_kend F (proc_pages (procs ex_zombie 2) (km ex_zombie)) ((km ex_zombie)\<lparr>pmem := m\<rparr>) k'" by blast
  have "ex_frame \<notin> set ex_more" "page_aligned ex_frame" by (simp_all add: ex_more_def page_aligned_def)
  then have "same_page m (pmem k') ex_frame" using k'(2) z(7) by (auto simp: reclaims_def)
  from this [unfolded same_page_def, rule_format, of 0] have "pmem k' ex_frame = m ex_frame" by simp
  also have "\<dots> = 7" using wr_inside [of "[ex_frame, ex_frame + 1, ex_frame + 2, ex_frame + 3]" "le_bytes 4 (7 :: u32)" 0]
    by (simp add: m_def le_bytes_def)
  finally show ?thesis using k'(1) by simp
qed

end
