(* ===== verification/FsTx.thy ===== *)
theory FsTx
  imports Fs LogSpec
begin

text \<open>
  The file system inside a transaction.  \<open>tx H k s\<close> is the state between two steps of a system call on
  files: the blocks in \<open>H\<close> are locked by the call, the blocks of the transaction are pinned, all
  other blocks are as on the disk, and the log has room for \<open>k\<close> more blocks.  Under it, reading,
  changing and releasing a block act on \<open>content\<close>, the contents of the disk as the cache shows them;
  the functions of \<^verbatim>\<open>kernel/fs.c\<close> are then specified by what they do to \<open>content\<close> and to the inode table.
\<close>

section \<open>Transactions\<close>

definition logged :: "'a log_scheme \<Rightarrow> u32 set" where
  "logged s = set (take (nat (lh_n s)) (lh_block s))"

text \<open>What the block operations of a transaction keep, the disk included: only a commit writes to it.\<close>

definition frame :: "'a log_scheme \<Rightarrow> int \<times> u32 \<times> int \<times> int \<times> bool \<times> (u32 \<Rightarrow> blk) \<times> (u32 \<times> blk) list \<times> 'a" where
  "frame s = (mypid s, log_start s, log_size s, outstanding s, committing s, disk s, dwrites s, log.more s)"

text \<open>The home of a block is outside the log, which has the header and 29 blocks.\<close>

definition home :: "u32 \<Rightarrow> u32 \<Rightarrow> bool" where
  "home start b \<longleftrightarrow> loggable (LOGSIZE - 1) start b"

lemma home_nz: "home start b \<Longrightarrow> b \<noteq> 0"
  by (simp add: home_def loggable_def)

lemma home_above:
  assumes "log_fits start" and "unat start + LOGSIZE \<le> unat b"
  shows "home start b"
proof -
  have "b \<noteq> log_block start t" if "t < LOGSIZE - 1" for t
  proof
    assume "b = log_block start t"
    then have "unat b = unat start + t + 1" using unat_log_block [OF assms(1), of t] that by simp
    then show False using assms(2) that by simp
  qed
  then show ?thesis using assms(2) by (auto simp: home_def loggable_def log_area_def)
qed

definition tx :: "u32 set \<Rightarrow> nat \<Rightarrow> 'a log_scheme \<Rightarrow> bool" where
  "tx H k s \<longleftrightarrow>
     bc_inv s \<and> finite H \<and> (\<forall>b. held s b \<longleftrightarrow> b \<in> H) \<and> 0 < outstanding s \<and> length (lh_block s) = LOGSIZE \<and>
     0 \<le> lh_n s \<and> lh_n s + int k < log_size s \<and> log_size s \<le> int LOGSIZE \<and>
     (\<forall>b. refs s b = (if b \<in> logged s then 1 else 0) + (if b \<in> H then 1 else 0)) \<and>
     (\<forall>b. b \<notin> logged s \<longrightarrow> content s b = disk s b) \<and>
     distinct (take (nat (lh_n s)) (lh_block s)) \<and> (\<forall>b\<in>logged s. home (log_start s) b)"

lemma tx_less: "tx H k s \<Longrightarrow> j \<le> k \<Longrightarrow> tx H j s"
  by (auto simp: tx_def)

lemma tx_inv: "tx H k s \<Longrightarrow> bc_inv s"
  by (simp add: tx_def)

lemma tx_length: "tx H k s \<Longrightarrow> length (content s b) = BSIZE"
  by (simp add: tx_def bc.cont_length)

lemma rest_frame:
  fixes s s' :: "'a log_scheme"
  assumes "rest s' = rest s" "disk s' = disk s" "dwrites s' = dwrites s"
  shows "frame s' = frame s" "logged s' = logged s"
proof -
  have "mypid s' = mypid s" using assms(1) by (simp add: rest_def)
  then show "frame s' = frame s" "logged s' = logged s"
    using rest_log [OF assms(1)] assms(2,3) by (simp_all add: frame_def logged_def)
qed

lemma frame_log_write: "log_write i s = Some s' \<Longrightarrow> frame s' = frame s"
  by (auto simp: log_write_def bufcache_pin_def upd_def frame_def bind_eq_Some_conv Let_def split: if_splits)

lemma frame_fs:
  fixes s s' :: "'a fs_scheme"
  assumes "frame s' = frame s"
  shows "sb s' = sb s" "inodes s' = inodes s" "uart_out s' = uart_out s" "km s' = km s" "mypid s' = mypid s"
    "fs.more s' = fs.more s" "log_start s' = log_start s" "log_size s' = log_size s" "outstanding s' = outstanding s"
    "committing s' = committing s" "disk s' = disk s" "dwrites s' = dwrites s"
  using assms by (cases s; cases s'; simp add: frame_def)+

lemma tx_cong:
  assumes "bufs s' = bufs s" "disk s' = disk s" "mypid s' = mypid s" "outstanding s' = outstanding s"
    "lh_block s' = lh_block s" "lh_n s' = lh_n s" "log_size s' = log_size s" "log_start s' = log_start s"
  shows "tx H k s' = tx H k s" "content s' = content s" "bat s' = bat s" "logged s' = logged s"
  using assms view_cong [OF assms(1-3)] by (simp_all add: tx_def logged_def)

lemma tx_fs_upd [simp]:
  "tx H k (s\<lparr>inodes := t\<rparr>) = tx H k s" "content (s\<lparr>inodes := t\<rparr>) = content s" "bat (s\<lparr>inodes := t\<rparr>) = bat s"
  "tx H k (s\<lparr>uart_out := u\<rparr>) = tx H k s" "content (s\<lparr>uart_out := u\<rparr>) = content s" "bat (s\<lparr>uart_out := u\<rparr>) = bat s"
  "tx H k (s\<lparr>km := m\<rparr>) = tx H k s" "content (s\<lparr>km := m\<rparr>) = content s" "bat (s\<lparr>km := m\<rparr>) = bat s"
  "logged (s\<lparr>inodes := t\<rparr>) = logged s" "logged (s\<lparr>uart_out := u\<rparr>) = logged s" "logged (s\<lparr>km := m\<rparr>) = logged s"
  by (rule tx_cong; simp)+

lemma tx_upd_inode [simp]:
  "tx H k (upd_inode ip f s) = tx H k s" "content (upd_inode ip f s) = content s" "bat (upd_inode ip f s) = bat s"
  "logged (upd_inode ip f s) = logged s"
  by (simp_all add: upd_inode_def)

lemma card_logged: "tx H k s \<Longrightarrow> card (logged s) + k < LOGSIZE"
proof -
  assume "tx H k s"
  moreover have "card (logged s) \<le> nat (lh_n s)"
    unfolding logged_def by (rule order_trans [OF card_length]) simp
  ultimately show ?thesis by (auto simp: tx_def)
qed

lemma tx_room:
  assumes "tx H k s" and "card H \<le> k"
  shows "card {b. 0 < refs s b} < NBUF"
proof -
  have "{b. 0 < refs s b} \<subseteq> logged s \<union> H" using assms(1) by (auto simp: tx_def split: if_splits)
  moreover have "finite (logged s \<union> H)" using assms(1) by (simp add: tx_def logged_def)
  ultimately have "card {b. 0 < refs s b} \<le> card (logged s) + card H"
    using card_mono card_Un_le order_trans by meson
  then show ?thesis using card_logged [OF assms(1)] assms(2) by simp
qed

lemma tx_read:
  assumes t: "tx H k s" and b: "b \<noteq> 0" "b \<notin> H" and room: "card H \<le> k"
  shows "\<exists>i s'. bufcache_read b s = Some (i, s') \<and> tx (insert b H) k s' \<and> content s' = content s \<and> frame s' = frame s \<and>
    logged s' = logged s \<and> bdata (bufs s' i) = content s b \<and> bat s' i b \<and> (\<forall>j c. bat s j c \<longrightarrow> bat s' j c)"
proof -
  have small: "refs s b + 1 < 2 ^ 32" and nh: "\<not> held s b" using t b by (auto simp: tx_def)
  obtain i s' where r: "bufcache_read b s = Some (i, s')" "bc_inv s'" "content s' = content s"
      "refs s' = (refs s)(b := refs s b + 1)" "held s' = (held s)(b := True)" "disk s' = disk s" "rest s' = rest s"
      "bat s' i b" "\<forall>j c. bat s j c \<longrightarrow> bat s' j c" "dwrites s' = dwrites s"
    using bufcache_read_ok [OF tx_inv [OF t] b(1) nh small] tx_room [OF t room] by blast
  note f = rest_frame [OF r(7,6,10)] rest_log [OF r(7)]
  have "tx (insert b H) k s'" using t b r f unfolding tx_def by (simp add: f)
  then show ?thesis using r f(1,2) bc.get_ok [OF r(2,8)] by (intro exI [of _ i] exI [of _ s']) simp
qed

lemma tx_release:
  assumes t: "tx H k s" and b: "b \<in> H" "bat s i b"
  shows "\<exists>s'. bufcache_release i s = Some s' \<and> tx (H - {b}) k s' \<and> content s' = content s \<and> frame s' = frame s \<and>
    logged s' = logged s \<and> (\<forall>j c. c \<noteq> b \<longrightarrow> bat s j c \<longrightarrow> bat s' j c)"
proof -
  have h: "held s b" and clean: "refs s b = 1 \<Longrightarrow> content s b = disk s b" using t b by (auto simp: tx_def split: if_splits)
  obtain s' where r: "bufcache_release i s = Some s'" "bc_inv s'" "content s' = content s"
      "refs s' = (refs s)(b := refs s b - 1)" "held s' = (held s)(b := False)" "disk s' = disk s" "rest s' = rest s"
      "\<forall>j c. bat s' j c = (if j = i \<and> refs s b = 1 then False else bat s j c)" "dwrites s' = dwrites s"
    using bufcache_release_ok [OF tx_inv [OF t] b(2) h clean] by blast
  note f = rest_frame [OF r(7,6,9)] rest_log [OF r(7)]
  have "tx (H - {b}) k s'" using t b r f unfolding tx_def by (simp add: f)
  moreover have "bat s' j c" if "c \<noteq> b" "bat s j c" for j c
    using bc.at_unique [OF tx_inv [OF t] that(2)] b(2) that r(8) by metis
  ultimately show ?thesis using r(1,3) f(1,2) by (intro exI [of _ s']) simp
qed

lemma tx_write:
  assumes t: "tx H (Suc k) s" and b: "b \<in> H" "bat s i b" and h: "home (log_start s) b" and d: "length d = BSIZE"
  shows "\<exists>s'. log_write i (set_data i d s) = Some s' \<and> tx H k s' \<and> content s' = (content s)(b := d) \<and>
    frame s' = frame s \<and> logged s' = insert b (logged s) \<and> (\<forall>j c. bat s j c \<longrightarrow> bat s' j c)"
proof -
  define s1 where "s1 = set_data i d s"
  note p = set_data_ok [OF tx_inv [OF t] b(2) d, folded s1_def]
  note f = rest_frame [OF p(7,5,6)] rest_log [OF p(7)]
  obtain n where n: "lh_n s = int n" "n < LOGSIZE" "int n < log_size s - 1"
    using t zero_le_imp_eq_int [of "lh_n s"] by (auto simp: tx_def)
  have small: "refs s1 b + 1 < 2 ^ 32" using t p(3) by (auto simp: tx_def)
  have pre: "lh_n s1 = int n" "int n < log_size s1 - 1" "0 < outstanding s1" "length (lh_block s1) = LOGSIZE" "bat s1 i b"
    using n f t b(2) p(8) by (simp_all add: tx_def)
  obtain s' where w: "log_write i s1 = Some s'" "bc_inv s'" "content s' = content s1" "held s' = held s1" "disk s' = disk s1"
      "length (lh_block s') = LOGSIZE" "\<forall>j c. bat s' j c = bat s1 j c"
    and new: "if b \<in> set (take n (lh_block s1)) then s' = s1
     else lh_n s' = int (Suc n) \<and> take (Suc n) (lh_block s') = take n (lh_block s1) @ [b] \<and>
       refs s' = (refs s1)(b := refs s1 b + 1)"
    using log_write_ok [OF p(1) pre(5,3,1) n(2) pre(2,4) small] by blast
  have fr: "frame s' = frame s" using frame_log_write [OF w(1)] f(1) by simp
  then have out: "0 < outstanding s'" "log_size s' = log_size s" "log_start s' = log_start s" using t by (auto simp: frame_def tx_def)
  have lg: "logged s1 = set (take n (lh_block s1))" using pre(1) by (simp add: logged_def)
  have l': "logged s' = insert b (logged s)"
  proof (cases "b \<in> logged s1")
    case True
    then show ?thesis using new lg f(2) by auto
  next
    case False
    then have "nat (lh_n s') = Suc n" "take (Suc n) (lh_block s') = take n (lh_block s1) @ [b]"
      using new lg by (simp_all add: nat_add_distrib)
    then show ?thesis using lg f(2) by (simp add: logged_def)
  qed
  have ln: "0 \<le> lh_n s'" "lh_n s' \<le> int n + 1" using new pre(1) by (auto split: if_splits)
  have "refs s' c = (if c \<in> logged s' then 1 else 0) + (if c \<in> H then 1 else 0)" for c
    using t new lg f(2) p(3) unfolding l' by (auto simp: tx_def split: if_splits)
  moreover have "content s' c = disk s' c" if "c \<notin> logged s'" for c
    using that t w(3,5) p(2,5) unfolding l' by (simp add: tx_def)
  moreover have "distinct (take (nat (lh_n s')) (lh_block s'))"
  proof -
    have "distinct (take n (lh_block s1))" using t n(1) f by (simp add: tx_def)
    then show ?thesis using new pre(1) by (auto split: if_splits simp: nat_add_distrib)
  qed
  moreover have "\<forall>c\<in>logged s'. home (log_start s') c" using t h out(3) unfolding l' by (simp add: tx_def)
  ultimately have "tx H k s'" using t w p ln out n unfolding tx_def by auto
  then show ?thesis using w(1,3,7) p(2,8) fr l' unfolding s1_def by (intro exI [of _ s']) simp
qed

text \<open>Look at a block; change a block.\<close>

lemma tx_peek:
  assumes t: "tx H k s" and b: "b \<noteq> 0" "b \<notin> H" and room: "card H \<le> k"
  shows "\<exists>i s1 s2. bufcache_read b s = Some (i, s1) \<and> bdata (bufs s1 i) = content s b \<and> frame s1 = frame s \<and>
    content s1 = content s \<and> bufcache_release i s1 = Some s2 \<and> tx H k s2 \<and> content s2 = content s \<and>
    frame s2 = frame s \<and> logged s2 = logged s \<and> (\<forall>j c. c \<in> H \<longrightarrow> bat s j c \<longrightarrow> bat s2 j c)"
proof -
  obtain i s1 where r: "bufcache_read b s = Some (i, s1)" "tx (insert b H) k s1" "content s1 = content s"
      "frame s1 = frame s" "logged s1 = logged s" "bdata (bufs s1 i) = content s b" "bat s1 i b" "\<forall>j c. bat s j c \<longrightarrow> bat s1 j c"
    using tx_read [OF t b room] by blast
  obtain s2 where q: "bufcache_release i s1 = Some s2" "tx (insert b H - {b}) k s2" "content s2 = content s1" "frame s2 = frame s1"
      "logged s2 = logged s1" "\<forall>j c. c \<noteq> b \<longrightarrow> bat s1 j c \<longrightarrow> bat s2 j c"
    using tx_release [OF r(2) _ r(7)] by blast
  have "insert b H - {b} = H" using b(2) by simp
  moreover have "bat s2 j c" if "c \<in> H" "bat s j c" for j c using that b(2) q(6) r(8) by metis
  ultimately show ?thesis using r q by - (rule exI [of _ i], rule exI [of _ s1], rule exI [of _ s2], simp)
qed

lemma tx_modify:
  assumes t: "tx H (Suc k) s" and b: "home (log_start s) b" "b \<notin> H" and room: "card H \<le> Suc k" and d: "length d = BSIZE"
  shows "\<exists>i s1 s2 s3. bufcache_read b s = Some (i, s1) \<and> bdata (bufs s1 i) = content s b \<and> frame s1 = frame s \<and>
    content s1 = content s \<and> log_write i (set_data i d s1) = Some s2 \<and> bufcache_release i s2 = Some s3 \<and> frame s2 = frame s \<and>
    tx H k s3 \<and> content s3 = (content s)(b := d) \<and> frame s3 = frame s \<and> logged s3 = insert b (logged s) \<and>
    (\<forall>j c. c \<in> H \<longrightarrow> bat s j c \<longrightarrow> bat s3 j c)"
proof -
  obtain i s1 where r: "bufcache_read b s = Some (i, s1)" "tx (insert b H) (Suc k) s1" "content s1 = content s"
      "frame s1 = frame s" "logged s1 = logged s" "bdata (bufs s1 i) = content s b" "bat s1 i b" "\<forall>j c. bat s j c \<longrightarrow> bat s1 j c"
    using tx_read [OF t home_nz [OF b(1)] b(2) room] by blast
  have h: "home (log_start s1) b" using b(1) r(4) by (simp add: frame_def)
  obtain s2 where w: "log_write i (set_data i d s1) = Some s2" "tx (insert b H) k s2" "content s2 = (content s1)(b := d)"
      "frame s2 = frame s1" "logged s2 = insert b (logged s1)" "\<forall>j c. bat s1 j c \<longrightarrow> bat s2 j c"
    using tx_write [OF r(2) _ r(7) h d] by blast
  have at: "bat s2 i b" using w(6) r(7) by simp
  obtain s3 where q: "bufcache_release i s2 = Some s3" "tx (insert b H - {b}) k s3" "content s3 = content s2" "frame s3 = frame s2"
      "logged s3 = logged s2" "\<forall>j c. c \<noteq> b \<longrightarrow> bat s2 j c \<longrightarrow> bat s3 j c"
    using tx_release [OF w(2) _ at] by blast
  have "insert b H - {b} = H" using b(2) by simp
  moreover have "bat s3 j c" if "c \<in> H" "bat s j c" for j c using that b(2) q(6) w(6) r(8) by metis
  ultimately show ?thesis using r w q
    by - (rule exI [of _ i], rule exI [of _ s1], rule exI [of _ s2], rule exI [of _ s3], simp)
qed

section \<open>The bitmap of free blocks\<close>

definition block_used :: "(u32 \<Rightarrow> blk) \<Rightarrow> superblock \<Rightarrow> nat \<Rightarrow> bool" where
  "block_used c x b \<longleftrightarrow> bit (c (BBLOCK b x) ! (b mod BPB div 8)) (b mod 8)"

definition bmap_blocks :: "superblock \<Rightarrow> u32 set" where
  "bmap_blocks x = (\<lambda>b. BBLOCK b x) ` {..<unat (sb_size x)}"

lemma bit_mask_iff: "w AND bit_mask j = 0 \<longleftrightarrow> \<not> bit w (j mod 8)"
  by (simp add: bit_mask_def bit_iff_and_push_bit_not_eq_0)

lemma bit_mask_set:
  "bit (w OR bit_mask i) (j mod 8) \<longleftrightarrow> j mod 8 = i mod 8 \<or> bit w (j mod 8)"
  "bit (w AND NOT (bit_mask i)) (j mod 8) \<longleftrightarrow> j mod 8 \<noteq> i mod 8 \<and> bit w (j mod 8)"
proof -
  have "bit (bit_mask i) (j mod 8) \<longleftrightarrow> j mod 8 = i mod 8"
    by (auto simp: bit_mask_def bit_exp_iff)
  moreover have "j mod 8 < 8" by simp
  ultimately show "bit (w OR bit_mask i) (j mod 8) \<longleftrightarrow> j mod 8 = i mod 8 \<or> bit w (j mod 8)"
    "bit (w AND NOT (bit_mask i)) (j mod 8) \<longleftrightarrow> j mod 8 \<noteq> i mod 8 \<and> bit w (j mod 8)"
    by (auto simp: bit_or_iff bit_and_iff bit_not_iff)
qed

lemma BBLOCK_eq:
  assumes "a < 2 ^ 32" "b < 2 ^ 32"
  shows "BBLOCK a x = BBLOCK b x \<longleftrightarrow> a div BPB = b div BPB"
proof -
  have "unat (of_nat (a div BPB) :: u32) = a div BPB" "unat (of_nat (b div BPB) :: u32) = b div BPB"
    using assms by (simp_all add: unat_of_nat take_bit_nat_eq_self div_less_dividend less_mult_imp_div_less)
  then show ?thesis unfolding BBLOCK_def by (metis add_right_cancel)
qed

lemma same_bit:
  assumes "(b :: nat) div BPB = a div BPB"
  shows "b mod BPB div 8 = a mod BPB div 8 \<and> b mod 8 = a mod 8 \<longleftrightarrow> b = a"
proof
  assume e: "b mod BPB div 8 = a mod BPB div 8 \<and> b mod 8 = a mod 8"
  have "x mod BPB mod 8 = x mod 8" for x :: nat by (rule mod_mod_cancel) simp
  then have "b mod BPB = a mod BPB" using e div_mult_mod_eq [of "b mod BPB" 8] div_mult_mod_eq [of "a mod BPB" 8] by metis
  then show "b = a" using assms div_mult_mod_eq [of b BPB] div_mult_mod_eq [of a BPB] by metis
qed simp

text \<open>Setting or clearing the bit of block \<open>a\<close> in its bitmap block.\<close>

lemma block_used_upd:
  assumes "a < 2 ^ 32" "b < 2 ^ 32" and d: "d = c (BBLOCK a x)" "length d = BSIZE"
    and w: "\<And>j. bit w (j mod 8) \<longleftrightarrow> (if j mod 8 = a mod 8 then v else bit (d ! (a mod BPB div 8)) (j mod 8))"
  shows "block_used (c(BBLOCK a x := d[a mod BPB div 8 := w])) x b \<longleftrightarrow> (if b = a then v else block_used c x b)"
proof (cases "b div BPB = a div BPB")
  case False
  then show ?thesis using BBLOCK_eq [OF assms(2,1)] by (auto simp: block_used_def)
next
  case True
  have "a mod BPB div 8 < BSIZE" by (simp add: less_mult_imp_div_less)
  then show ?thesis
    using True BBLOCK_eq [OF assms(2,1), of x] same_bit [OF True] w [of b] d
    by (cases "b mod BPB div 8 = a mod BPB div 8") (auto simp: block_used_def)
qed

text \<open>Bits of the bitmap block of \<open>b\<close>, counted from the first block it describes.\<close>

lemma block_used_bit:
  assumes "b = base + i" "BPB dvd base" "i < BPB"
  shows "block_used c x b \<longleftrightarrow> c (BBLOCK base x) ! (i div 8) AND bit_mask i \<noteq> 0"
proof -
  obtain m where m: "base = BPB * m" using assms(2) by blast
  have "b div BPB = base div BPB" "b mod BPB = i" using assms(1,3) m by simp_all
  moreover have "b mod 8 = i mod 8" using assms(1) m by (simp add: mod_add_eq [symmetric] mod_mult_left_eq [symmetric])
  ultimately show ?thesis by (simp add: block_used_def bit_mask_iff BBLOCK_def)
qed

lemma bfree_ok:
  assumes t: "tx H (Suc k) s" and b: "home (log_start s) (BBLOCK (unat b) (sb s))" "BBLOCK (unat b) (sb s) \<notin> H" and room: "card H \<le> Suc k"
    and used: "block_used (content s) (sb s) (unat b)"
  shows "\<exists>s'. bfree b s = Some s' \<and> tx H k s' \<and> frame s' = frame s \<and> (\<forall>j c. c \<in> H \<longrightarrow> bat s j c \<longrightarrow> bat s' j c) \<and>
    (\<forall>c. c \<noteq> BBLOCK (unat b) (sb s) \<longrightarrow> content s' c = content s c) \<and>
    (\<forall>c<2 ^ 32. block_used (content s') (sb s) c \<longleftrightarrow> c \<noteq> unat b \<and> block_used (content s) (sb s) c)"
proof -
  define a where "a = unat b"
  define d where "d = content s (BBLOCK a (sb s))"
  define e where "e = d[a mod BPB div 8 := d ! (a mod BPB div 8) AND NOT (bit_mask (a mod BPB))]"
  have len: "length d = BSIZE" "length e = BSIZE" using tx_length [OF t] by (simp_all add: d_def e_def)
  have a: "a < 2 ^ 32" unfolding a_def using unsigned_less [of b] by simp
  have m8: "a mod BPB mod 8 = a mod 8" by (rule mod_mod_cancel) simp
  obtain i s1 s2 s3 where q: "bufcache_read (BBLOCK a (sb s)) s = Some (i, s1)" "bdata (bufs s1 i) = d"
      "log_write i (set_data i e s1) = Some s2" "bufcache_release i s2 = Some s3" "tx H k s3"
      "content s3 = (content s)(BBLOCK a (sb s) := e)" "frame s3 = frame s" "\<forall>j c. c \<in> H \<longrightarrow> bat s j c \<longrightarrow> bat s3 j c"
    using tx_modify [OF t b room len(2)] by (auto simp: a_def d_def)
  have "d ! (a mod BPB div 8) AND bit_mask (a mod BPB) \<noteq> 0"
    using used m8 by (simp add: block_used_def bit_mask_iff d_def flip: a_def)
  then have "bfree b s = Some s3" using q by (simp add: bfree_def Let_def e_def flip: a_def)
  moreover have "block_used (content s3) (sb s) c \<longleftrightarrow> c \<noteq> a \<and> block_used (content s) (sb s) c" if "c < 2 ^ 32" for c
    unfolding q(6) e_def
    using block_used_upd [where c = "content s" and x = "sb s" and v = False, OF a that d_def len(1),
        of "d ! (a mod BPB div 8) AND NOT (bit_mask (a mod BPB))"] m8 bit_mask_set(2)
    by auto
  ultimately show ?thesis using q(5-8) by (intro exI [of _ s3]) (simp add: a_def)
qed

lemma bfree_free:
  assumes t: "tx H k s" and b: "BBLOCK (unat b) (sb s) \<noteq> 0" "BBLOCK (unat b) (sb s) \<notin> H" and room: "card H \<le> k"
    and free: "\<not> block_used (content s) (sb s) (unat b)"
  shows "bfree b s = None"
proof -
  have m8: "unat b mod BPB mod 8 = unat b mod 8" by (rule mod_mod_cancel) simp
  obtain i s1 where "bufcache_read (BBLOCK (unat b) (sb s)) s = Some (i, s1)"
      "bdata (bufs s1 i) = content s (BBLOCK (unat b) (sb s))"
    using tx_peek [OF t b room] by blast
  then show ?thesis using free m8 by (simp add: bfree_def block_used_def bit_mask_iff panic_def)
qed

lemma bzero_ok:
  assumes t: "tx H (Suc k) s" and b: "home (log_start s) b" "b \<notin> H" and room: "card H \<le> Suc k"
  shows "\<exists>s'. bzero b s = Some s' \<and> tx H k s' \<and> frame s' = frame s \<and> (\<forall>j c. c \<in> H \<longrightarrow> bat s j c \<longrightarrow> bat s' j c) \<and>
    content s' = (content s)(b := replicate BSIZE 0)"
  using tx_modify [OF t b room, of "replicate BSIZE 0"] by (auto simp: bzero_def)

text \<open>\<open>balloc\<close>: the first block that is not in use.\<close>

definition first_free :: "(u32 \<Rightarrow> blk) \<Rightarrow> superblock \<Rightarrow> nat option" where
  "first_free c x = find (\<lambda>b. \<not> block_used c x b) [0..<unat (sb_size x)]"

lemma find_clear_eq: "find_clear n i d = find (\<lambda>j. d ! (j div 8) AND bit_mask j = 0) [i..<i + n]"
proof (induction n arbitrary: i)
  case (Suc n)
  have "[i..<i + Suc n] = i # [Suc i..<Suc i + n]" by (simp add: upt_conv_Cons del: upt_Suc)
  then show ?case using Suc.IH [of "Suc i"] by simp
qed simp

lemma find_cong_some: "(\<And>x. x \<in> set xs \<Longrightarrow> P x = Q x) \<Longrightarrow> find P xs = find Q xs"
  by (induction xs) auto

lemma find_map: "find P (map f xs) = map_option f (find (\<lambda>x. P (f x)) xs)"
  by (induction xs) auto

lemma find_append: "find P (xs @ ys) = (case find P xs of None \<Rightarrow> find P ys | Some x \<Rightarrow> Some x)"
  by (induction xs) auto

lemma find_clear_used:
  assumes "BPB dvd base" "n \<le> BPB"
  shows "map_option ((+) base) (find_clear n 0 (c (BBLOCK base x))) = find (\<lambda>b. \<not> block_used c x b) [base..<base + n]"
proof -
  have "find_clear n 0 (c (BBLOCK base x)) = find (\<lambda>i. \<not> block_used c x (base + i)) [0..<n]"
    unfolding find_clear_eq using block_used_bit [OF refl assms(1)] assms(2) by (auto intro: find_cong_some)
  moreover have "[base..<base + n] = map ((+) base) [0..<n]" by (rule nth_equalityI) simp_all
  ultimately show ?thesis by (simp add: find_map)
qed

definition allocates :: "nat \<Rightarrow> 'a fs_scheme \<Rightarrow> 'a fs_scheme \<Rightarrow> bool" where
  "allocates b s s' \<longleftrightarrow>
     frame s' = frame s \<and> content s' (of_nat b) = replicate BSIZE 0 \<and>
     (\<forall>c<unat (sb_size (sb s)). block_used (content s') (sb s) c \<longleftrightarrow> c = b \<or> block_used (content s) (sb s) c) \<and>
     (\<forall>c. c \<noteq> of_nat b \<longrightarrow> c \<noteq> BBLOCK b (sb s) \<longrightarrow> content s' c = content s c)"

text \<open>The bitmap is usable: its blocks are not locked, and only blocks that hold data are free.  The log starts where the
  superblock says.\<close>

definition bitmap_ok :: "u32 set \<Rightarrow> 'a fs_scheme \<Rightarrow> bool" where
  "bitmap_ok H s \<longleftrightarrow>
     log_start s = sb_logstart (sb s) \<and>
     (\<forall>b<unat (sb_size (sb s)). home (sb_logstart (sb s)) (BBLOCK b (sb s)) \<and> BBLOCK b (sb s) \<notin> H \<and>
        (\<not> block_used (content s) (sb s) b \<longrightarrow> home (sb_logstart (sb s)) (of_nat b) \<and> of_nat b \<notin> H \<union> bmap_blocks (sb s)))"

lemma bitmap_okD:
  assumes "bitmap_ok H s"
  shows "log_start s = sb_logstart (sb s)"
    "b < unat (sb_size (sb s)) \<Longrightarrow> home (log_start s) (BBLOCK b (sb s))"
    "b < unat (sb_size (sb s)) \<Longrightarrow> BBLOCK b (sb s) \<notin> H"
    "b < unat (sb_size (sb s)) \<Longrightarrow> \<not> block_used (content s) (sb s) b \<Longrightarrow> home (log_start s) (of_nat b)"
    "b < unat (sb_size (sb s)) \<Longrightarrow> \<not> block_used (content s) (sb s) b \<Longrightarrow> of_nat b \<notin> H \<union> bmap_blocks (sb s)"
  using assms by (auto simp: bitmap_ok_def)

lemma unat_of_nat_less: "b < unat (n :: u32) \<Longrightarrow> b < 2 ^ 32 \<and> unat (of_nat b :: u32) = b"
proof -
  assume "b < unat n"
  moreover have "unat n < 2 ^ 32" using unsigned_less [where 'a = nat and w = n] by simp
  ultimately show ?thesis by (simp add: unat_of_nat take_bit_nat_eq_self)
qed

lemma balloc_take:
  assumes t: "tx H (Suc (Suc k)) s" and room: "card H \<le> Suc k" and ok: "bitmap_ok H s"
    and base: "BPB dvd base" "base < unat (sb_size (sb s))"
    and i: "find_clear (min BPB (unat (sb_size (sb s)) - base)) 0 (content s (BBLOCK base (sb s))) = Some i"
  shows "\<exists>s'. balloc_loop (Suc n) base s = Some (of_nat (base + i), s') \<and> tx H k s' \<and> allocates (base + i) s s' \<and>
    (\<forall>j c. c \<in> H \<longrightarrow> bat s j c \<longrightarrow> bat s' j c)"
proof -
  define x where "x = sb s"
  define b where "b = base + i"
  have "find (\<lambda>b. \<not> block_used (content s) x b) [base..<base + min BPB (unat (sb_size x) - base)] = Some b"
    using i find_clear_used [OF base(1), of "min BPB (unat (sb_size x) - base)" "content s" x] by (simp add: x_def b_def)
  then have b: "i < BPB" "b < unat (sb_size x)" "\<not> block_used (content s) x b"
    by (auto simp: find_Some_iff b_def)
  have small: "b < 2 ^ 32" "unat (of_nat b :: u32) = b" using unat_of_nat_less [OF b(2)] by simp_all
  have nz: "home (log_start s) (of_nat b)" and nh: "of_nat b \<notin> H" "of_nat b \<notin> bmap_blocks x"
    using bitmap_okD(4,5) [OF ok b(2,3) [unfolded x_def]] by (auto simp: x_def)
  have "b div BPB = base div BPB" "b mod BPB = i" using base(1) b(1) by (auto simp: b_def)
  then have "BBLOCK base x = BBLOCK b x" "i div 8 = b mod BPB div 8" by (simp_all add: BBLOCK_def)
  moreover have "home (log_start s) (BBLOCK b x)" "BBLOCK b x \<notin> H" using bitmap_okD(2,3) [OF ok, of b] b(2) by (simp_all add: x_def)
  ultimately have bb: "BBLOCK base x = BBLOCK b x" "i div 8 = b mod BPB div 8" "home (log_start s) (BBLOCK b x)" "BBLOCK b x \<notin> H" .
  have i8: "i mod 8 = b mod 8" using \<open>b mod BPB = i\<close> mod_mod_cancel [of 8 BPB b] by simp
  define d where "d = content s (BBLOCK b x)"
  define e where "e = d[b mod BPB div 8 := d ! (b mod BPB div 8) OR bit_mask i]"
  have len: "length d = BSIZE" "length e = BSIZE" using tx_length [OF t] by (simp_all add: d_def e_def)
  have r: "card H \<le> Suc (Suc k)" using room by simp
  obtain j s1 s2 s3 where q: "bufcache_read (BBLOCK b x) s = Some (j, s1)" "bdata (bufs s1 j) = d" "frame s1 = frame s"
      "log_write j (set_data j e s1) = Some s2" "bufcache_release j s2 = Some s3" "tx H (Suc k) s3"
      "content s3 = (content s)(BBLOCK b x := e)" "frame s3 = frame s" "\<forall>j c. c \<in> H \<longrightarrow> bat s j c \<longrightarrow> bat s3 j c"
    using tx_modify [OF t bb(3,4) r len(2)] unfolding d_def by blast
  obtain s4 where z: "bzero (of_nat b) s3 = Some s4" "tx H k s4" "frame s4 = frame s3"
      "\<forall>j c. c \<in> H \<longrightarrow> bat s3 j c \<longrightarrow> bat s4 j c" "content s4 = (content s3)(of_nat b := replicate BSIZE 0)"
    using bzero_ok [OF q(6) _ nh(1) room] nz q(8) by (auto simp: frame_def)
  have sbs: "sb s1 = x" "sb s = x" using frame_fs(1) [OF q(3)] by (simp_all add: x_def)
  have "balloc_loop (Suc n) base s = Some (of_nat b, s4)"
    using q(1,2,4,5) z(1) i bb(1,2) sbs by (simp add: Let_def d_def e_def b_def del: of_nat_add)
  moreover have "block_used (content s4) x c \<longleftrightarrow> c = b \<or> block_used (content s) x c" if c: "c < unat (sb_size x)" for c
  proof -
    have "BBLOCK c x \<in> bmap_blocks x" using c by (simp add: bmap_blocks_def)
    then have "BBLOCK c x \<noteq> of_nat b" using nh(2) by metis
    then have "block_used (content s4) x c = block_used (content s3) x c" by (simp add: block_used_def z(5))
    moreover have "bit (d ! (b mod BPB div 8) OR bit_mask i) (j mod 8) =
        (if j mod 8 = b mod 8 then True else bit (d ! (b mod BPB div 8)) (j mod 8))" for j
      using bit_mask_set(1) [of _ i j] i8 by simp
    ultimately show ?thesis using block_used_upd [where c = "content s" and x = x and v = True, OF small(1) _ d_def len(1)]
        unat_of_nat_less [OF c] unfolding q(7) e_def by simp
  qed
  ultimately show ?thesis using z q(7-9) by (intro exI [of _ s4]) (simp add: allocates_def x_def b_def)
qed

lemma frame_kprint: "frame s' = frame s \<Longrightarrow> frame (kprint m s') = frame (kprint m s)" for s s' :: "'a fs_scheme"
  by (cases s; cases s') (simp add: frame_def kprint_def)

lemma allocates_trans:
  assumes "frame s1 = frame s" "content s1 = content s" "allocates b s1 s'"
  shows "allocates b s s'"
  using assms frame_fs(1) [OF assms(1)] by (simp add: allocates_def)

lemma bitmap_ok_cong: "frame s1 = frame s \<Longrightarrow> content s1 = content s \<Longrightarrow> bitmap_ok H s1 = bitmap_ok H s"
  using frame_fs(1) [of s1 s] by (simp add: bitmap_ok_def frame_def)

lemma balloc_loop_ok:
  assumes "tx H (Suc (Suc k)) s" and room: "card H \<le> Suc k" and "bitmap_ok H s"
    and "BPB dvd base" "n = (unat (sb_size (sb s)) - base + (BPB - 1)) div BPB"
  shows "\<exists>r s'. balloc_loop n base s = Some (r, s') \<and> (\<forall>j c. c \<in> H \<longrightarrow> bat s j c \<longrightarrow> bat s' j c) \<and>
    (case find (\<lambda>b. \<not> block_used (content s) (sb s) b) [base..<unat (sb_size (sb s))] of
       None \<Rightarrow> r = 0 \<and> tx H (Suc (Suc k)) s' \<and> content s' = content s \<and>
         frame s' = frame (kprint (''balloc: out of blocks'' @ newline) s)
     | Some b \<Rightarrow> r = of_nat b \<and> tx H k s' \<and> allocates b s s')"
  using assms(1,3-)
proof (induction n arbitrary: base s)
  case 0
  then have "unat (sb_size (sb s)) \<le> base" by simp
  then show ?case using 0(1) by (simp add: kprint_def)
next
  case (Suc n)
  define x where "x = sb s"
  have lt: "base < unat (sb_size x)" using Suc.prems(4) by (simp add: x_def)
  define m where "m = min BPB (unat (sb_size x) - base)"
  have split: "[base..<unat (sb_size x)] = [base..<base + m] @ [base + BPB..<unat (sb_size x)]"
    using lt upt_add_eq_append [of base "base + m" "unat (sb_size x) - (base + m)"]
    by (cases "BPB \<le> unat (sb_size x) - base") (simp_all add: m_def min_def)
  note fc = find_clear_used [OF Suc.prems(3), of m "content s" x]
  have m: "m \<le> BPB" by (simp add: m_def)
  show ?case
  proof (cases "find_clear m 0 (content s (BBLOCK base x))")
    case (Some i)
    then have f: "find (\<lambda>b. \<not> block_used (content s) x b) [base..<unat (sb_size x)] = Some (base + i)"
      using fc [OF m, symmetric] by (simp add: split find_append)
    show ?thesis using balloc_take [OF Suc.prems(1) room Suc.prems(2,3), of i n] lt Some f unfolding x_def m_def by auto
  next
    case None
    then have f: "find (\<lambda>b. \<not> block_used (content s) x b) [base..<unat (sb_size x)] =
        find (\<lambda>b. \<not> block_used (content s) x b) [base + BPB..<unat (sb_size x)]"
      using fc [OF m, symmetric] by (simp add: split find_append)
    have bb: "BBLOCK base x \<noteq> 0" "BBLOCK base x \<notin> H" using home_nz bitmap_okD(2,3) [OF Suc.prems(2), of base] lt unfolding x_def by blast+
    have r: "card H \<le> Suc (Suc k)" using room by simp
    obtain i s1 s2 where q: "bufcache_read (BBLOCK base x) s = Some (i, s1)" "bdata (bufs s1 i) = content s (BBLOCK base x)"
        "frame s1 = frame s" "bufcache_release i s1 = Some s2" "tx H (Suc (Suc k)) s2" "content s2 = content s"
        "frame s2 = frame s" "\<forall>j c. c \<in> H \<longrightarrow> bat s j c \<longrightarrow> bat s2 j c"
      using tx_peek [OF Suc.prems(1) bb r] by blast
    have sbs: "sb s1 = x" "sb s2 = x" "sb s = x" using frame_fs(1) [OF q(3)] frame_fs(1) [OF q(7)] by (simp_all add: x_def)
    have step: "balloc_loop (Suc n) base s = balloc_loop n (base + BPB) s2"
      using q None sbs by (simp add: Let_def m_def)
    have n: "n = (unat (sb_size (sb s2)) - (base + BPB) + (BPB - 1)) div BPB"
      using Suc.prems(4) lt sbs by simp
    have d: "BPB dvd base + BPB" using Suc.prems(3) by simp
    have ok: "bitmap_ok H s2" using Suc.prems(2) bitmap_ok_cong [OF q(7,6)] by simp
    show ?thesis using Suc.IH [OF q(5) ok d n] unfolding step sbs f q(6)
      using q(7,8) frame_kprint [OF q(7)] allocates_trans [OF q(7,6)]
      by (fastforce split: option.splits)
  qed
qed

lemma balloc_ok:
  assumes "tx H (Suc (Suc k)) s" and "card H \<le> Suc k" and "bitmap_ok H s"
  shows "\<exists>r s'. balloc s = Some (r, s') \<and> (\<forall>j c. c \<in> H \<longrightarrow> bat s j c \<longrightarrow> bat s' j c) \<and>
    (case first_free (content s) (sb s) of
       None \<Rightarrow> r = 0 \<and> tx H (Suc (Suc k)) s' \<and> content s' = content s \<and>
         frame s' = frame (kprint (''balloc: out of blocks'' @ newline) s)
     | Some b \<Rightarrow> r = of_nat b \<and> r \<noteq> 0 \<and> tx H k s' \<and> allocates b s s')"
proof -
  have e: "balloc s = balloc_loop ((unat (sb_size (sb s)) - 0 + (BPB - 1)) div BPB) 0 s" by (simp add: balloc_def add.commute)
  obtain r s' where b: "balloc s = Some (r, s')" "\<forall>j c. c \<in> H \<longrightarrow> bat s j c \<longrightarrow> bat s' j c"
    "case find (\<lambda>b. \<not> block_used (content s) (sb s) b) [0..<unat (sb_size (sb s))] of
       None \<Rightarrow> r = 0 \<and> tx H (Suc (Suc k)) s' \<and> content s' = content s \<and>
         frame s' = frame (kprint (''balloc: out of blocks'' @ newline) s)
     | Some b \<Rightarrow> r = of_nat b \<and> tx H k s' \<and> allocates b s s'"
    using balloc_loop_ok [OF assms dvd_0_right refl] unfolding e by blast
  have "(of_nat b :: u32) \<noteq> 0" if "first_free (content s) (sb s) = Some b" for b
  proof -
    have b: "b < unat (sb_size (sb s))" "\<not> block_used (content s) (sb s) b" using that by (auto simp: first_free_def find_Some_iff)
    then have "home (log_start s) (of_nat b)" by (rule bitmap_okD(4) [OF assms(3)])
    then show ?thesis by (rule home_nz)
  qed
  then show ?thesis using b by (intro exI [of _ r] exI [of _ s']) (auto simp: first_free_def split: option.splits)
qed

section \<open>A small file system\<close>

text \<open>
  Examples live on a disk of 60 blocks laid out as \<^verbatim>\<open>mkfs\<close> lays it out: the log from block 2, inodes from
  block 32, the bitmap in block 45, data from block 46.  Inode 1 is the root directory with the entries
  \<open>.\<close>, \<open>..\<close> and \<open>f\<close>, inode 2 a file of 1500 bytes; blocks 0 to 49 are in use.
\<close>

definition img_sb :: superblock where
  "img_sb = \<lparr>sb_magic = FSMAGIC, sb_size = 60, sb_nblocks = 14, sb_ninodes = 200, sb_nlog = 30, sb_logstart = 2,
     sb_inodestart = 32, sb_bmapstart = 45\<rparr>"

definition img_inode :: "u32 \<Rightarrow> u16 \<Rightarrow> u32 \<Rightarrow> u32 list \<Rightarrow> inode" where
  "img_inode ino ty n as = \<lparr>idev = 1, inum = ino, iref = 1, ilck = \<lparr>slocked = 0, spid = 0\<rparr>, ivalid = True, itype = ty,
     imajor = 0, iminor = 0, inlink = 1, isize = n, addrs = as\<rparr>"

definition img_inodes :: "nat \<Rightarrow> inode" where
  "img_inodes i = (if i = 0 then img_inode 1 T_DIR 48 (46 # replicate 12 0)
     else if i = 1 then img_inode 2 T_FILE 1500 (47 # 48 # replicate 11 0)
     else (img_inode 0 0 0 (replicate 13 0))\<lparr>iref := 0, ivalid := False\<rparr>)"

definition img_dir :: blk where
  "img_dir = mk_dirent [46] 1 @ mk_dirent [46, 46] 1 @ mk_dirent [102] 2 @ replicate 976 0"

definition img_disk :: "u32 \<Rightarrow> blk" where
  "img_disk b =
     (if b = 32 then put_dinode (img_inodes 1) 128 (put_dinode (img_inodes 0) 64 (replicate BSIZE 0))
      else if b = 45 then replicate 6 255 @ [3] @ replicate 1017 0
      else if b = 46 then img_dir
      else if b = 47 then replicate BSIZE 65 else if b = 48 then replicate BSIZE 66 else replicate BSIZE 0)"

definition img_fs :: fs where
  "img_fs = bufcache_init
     \<lparr>bufs = bufs boot_cache, disk = img_disk, dwrites = [], mypid = 1, log_start = 2, log_size = 30, outstanding = 1,
      committing = False, lh_n = 0, lh_block = replicate LOGSIZE 0, sb = img_sb, inodes = img_inodes, uart_out = [],
      km = \<lparr>freelist = 0, pmem = (\<lambda>_. 0)\<rparr>\<rparr>"

lemma tx_boot:
  assumes "bufs s = bufs boot_cache" and "\<And>b. length (disk s b) = BSIZE" and "0 < outstanding s" and "log_size s = int LOGSIZE"
    and "lh_n s = 0" and "length (lh_block s) = LOGSIZE"
  shows "tx {} 29 (bufcache_init s)" "content (bufcache_init s) = disk s"
proof -
  have inv: "bc_inv (bufcache_init s)" by (rule bufcache_init_inv) (use assms in \<open>simp_all add: boot_cache_def\<close>)
  have none: "buf_of (bufcache_init s) b = None" for b
    by (auto simp: buf_of_None bufcache_init_blockno assms(1) boot_cache_def)
  show c: "content (bufcache_init s) = disk s" using none by (simp add: fun_eq_iff content_def)
  have "refs (bufcache_init s) b = 0" "\<not> held (bufcache_init s) b" for b using none by (simp_all add: refs_def held_def)
  then show "tx {} 29 (bufcache_init s)"
    using inv c assms rest_log [OF bufcache_init_frame(2), of s] by (simp add: tx_def logged_def)
qed

lemma length_mk_dirent [simp]: "length (mk_dirent n i) = 16"
  by (simp add: mk_dirent_def)

lemma length_put_dinode: "length (addrs x) = 13 \<Longrightarrow> k + 64 \<le> length d \<Longrightarrow> length (put_dinode x k d) = length d"
  by (simp add: put_dinode_def length_concat o_def sum_list_triv)

lemma img_ok: "tx {} 29 img_fs" "content img_fs = img_disk" "sb img_fs = img_sb" "inodes img_fs = img_inodes" "log_start img_fs = 2"
proof -
  have len: "length (img_disk b) = BSIZE" for b
    by (simp add: img_disk_def img_dir_def length_put_dinode img_inodes_def img_inode_def)
  note b = tx_boot [of "\<lparr>bufs = bufs boot_cache, disk = img_disk, dwrites = [], mypid = 1, log_start = 2, log_size = 30, outstanding = 1,
      committing = False, lh_n = 0, lh_block = replicate LOGSIZE 0, sb = img_sb, inodes = img_inodes, uart_out = [],
      km = \<lparr>freelist = 0, pmem = (\<lambda>_. 0)\<rparr>\<rparr> :: fs", folded img_fs_def]
  show "tx {} 29 img_fs" "content img_fs = img_disk" using b len by simp_all
  have "frame img_fs = frame (\<lparr>bufs = bufs boot_cache, disk = img_disk, dwrites = [], mypid = 1, log_start = 2, log_size = 30, outstanding = 1,
      committing = False, lh_n = 0, lh_block = replicate LOGSIZE 0, sb = img_sb, inodes = img_inodes, uart_out = [],
      km = \<lparr>freelist = 0, pmem = (\<lambda>_. 0)\<rparr>\<rparr> :: fs)"
    unfolding img_fs_def by (rule rest_frame) simp_all
  from frame_fs [OF this] this show "sb img_fs = img_sb" "inodes img_fs = img_inodes" "log_start img_fs = 2" by (simp_all add: frame_def)
qed

lemma img_used: "b < 60 \<Longrightarrow> block_used (content img_fs) (sb img_fs) b \<longleftrightarrow> b < 50"
proof -
  assume "b < 60"
  then have "BBLOCK b img_sb = 45" "b mod BPB = b" by (simp_all add: BBLOCK_def img_sb_def)
  then have e: "block_used (content img_fs) (sb img_fs) b \<longleftrightarrow> bit ((replicate 6 255 @ [3] @ replicate 1017 0 :: blk) ! (b div 8)) (b mod 8)"
    by (simp add: block_used_def img_ok img_disk_def)
  have m8: "b mod 8 < 8" by simp
  have ff: "bit (255 :: u8) k" if "k < 8" for k
    using that by (auto simp: less_Suc_eq numeral_eq_Suc)
  have three: "bit (3 :: u8) k \<longleftrightarrow> k < 2" if "k < 8" for k
    using that by (auto simp: less_Suc_eq numeral_eq_Suc)
  consider "b < 48" | "48 \<le> b" "b < 56" | "56 \<le> b" by linarith
  then show ?thesis
  proof cases
    case 1
    then have "b div 8 < 6" by simp
    then show ?thesis using 1 ff [OF m8] unfolding e by (simp add: nth_append)
  next
    case 2
    then have "b div 8 = 6" by simp
    moreover from this have "b mod 8 = b - 48" by (simp add: minus_div_mult_eq_mod [symmetric])
    ultimately have "b div 8 = 6" "b mod 8 = b - 48" .
    then show ?thesis using 2 three [OF m8] unfolding e by (auto simp: nth_append)
  next
    case 3
    then have "b div 8 = 7" using \<open>b < 60\<close> by simp
    then show ?thesis using 3 unfolding e by (simp add: nth_append)
  qed
qed

lemma img_bitmap: "bitmap_ok {} img_fs" "first_free (content img_fs) (sb img_fs) = Some 50"
proof -
  have size: "unat (sb_size (sb img_fs)) = 60" by (simp add: img_ok img_sb_def)
  have B: "BBLOCK b (sb img_fs) = 45" if "b < 60" for b using that by (simp add: BBLOCK_def img_ok img_sb_def)
  have bm: "bmap_blocks (sb img_fs) \<subseteq> {45}" using B by (auto simp: bmap_blocks_def size)
  have "(of_nat b :: u32) \<noteq> 45" if "50 \<le> b" "b < 60" for b
  proof
    assume "(of_nat b :: u32) = 45"
    then have "unat (of_nat b :: u32) = 45" by simp
    then show False using that by (simp add: unat_of_nat take_bit_nat_eq_self)
  qed
  moreover have "home 2 45" "home 2 (of_nat b)" if "50 \<le> b" "b < 60" for b
    using that by (auto intro!: home_above simp: log_fits_def unat_of_nat take_bit_nat_eq_self)
  moreover from this(1) [of 50] have "home 2 45" by simp
  moreover have "log_start img_fs = sb_logstart (sb img_fs)" by (simp add: img_ok img_sb_def)
  ultimately show "bitmap_ok {} img_fs" using B img_used bm img_ok(5) by (auto simp: bitmap_ok_def size)
  show "first_free (content img_fs) (sb img_fs) = Some 50"
    unfolding first_free_def size find_Some_iff using img_used by (intro exI [of _ 50]) auto
qed

section \<open>Properties\<close>

text \<open>C20. \<open>balloc\<close> inside a transaction takes the first block that the bitmap shows as free, marks exactly
  this one as used, clears it, and changes no other block; with no free block it prints a message,
  changes no block and returns 0.\<close>

theorem balloc_spec:
  assumes "tx H (Suc (Suc k)) s" and "card H \<le> Suc k" and "bitmap_ok H s"
  shows "\<exists>r s'. balloc s = Some (r, s') \<and>
    (case find (\<lambda>b. \<not> block_used (content s) (sb s) b) [0..<unat (sb_size (sb s))] of
       None \<Rightarrow> r = 0 \<and> tx H (Suc (Suc k)) s' \<and> content s' = content s \<and>
         frame s' = frame (kprint (''balloc: out of blocks'' @ newline) s)
     | Some b \<Rightarrow> r = of_nat b \<and> r \<noteq> 0 \<and> tx H k s' \<and> allocates b s s')"
  using balloc_ok [OF assms] unfolding first_free_def by blast

theorem balloc_spec_witness: "\<exists>s'. balloc img_fs = Some (50, s') \<and> allocates 50 img_fs s'"
  using balloc_spec [of "{}" 27 img_fs] img_ok img_bitmap by (auto simp: first_free_def)

text \<open>\<open>bfree\<close> clears the bit of the block and no other bit, and changes no block but the one of the bitmap;
  on a block that is free already it panics.\<close>

theorem bfree_spec:
  assumes "tx H (Suc k) s" and "home (log_start s) (BBLOCK (unat b) (sb s))" "BBLOCK (unat b) (sb s) \<notin> H" and "card H \<le> Suc k"
  shows "if block_used (content s) (sb s) (unat b)
    then \<exists>s'. bfree b s = Some s' \<and> tx H k s' \<and> frame s' = frame s \<and>
      (\<forall>c. c \<noteq> BBLOCK (unat b) (sb s) \<longrightarrow> content s' c = content s c) \<and>
      (\<forall>c<2 ^ 32. block_used (content s') (sb s) c \<longleftrightarrow> c \<noteq> unat b \<and> block_used (content s) (sb s) c)
    else bfree b s = None"
  using bfree_ok [OF assms] bfree_free [OF assms(1) home_nz [OF assms(2)] assms(3,4)] by auto

theorem bfree_spec_witness:
  "\<exists>s'. bfree 49 img_fs = Some s' \<and> \<not> block_used (content s') (sb img_fs) 49 \<and> block_used (content s') (sb img_fs) 48"
  using bfree_spec [of "{}" 28 img_fs 49] img_ok img_used [of 49] img_used [of 48] home_above [of 2 45]
  by (auto simp: BBLOCK_def img_sb_def log_fits_def)

end
