(* ===== verification/FsSpec.thy ===== *)
theory FsSpec
  imports FsTx
begin

text \<open>
  Inodes, files and directories of \<^verbatim>\<open>kernel/fs.c\<close> inside a transaction: the inode table, the inodes on the
  disk, the blocks of a file, reading, writing and looking up names.
\<close>

section \<open>The inode table\<close>

definition names_inode :: "u32 \<Rightarrow> u32 \<Rightarrow> inode \<Rightarrow> bool" where
  "names_inode dev ino x \<longleftrightarrow> 0 < iref x \<and> idev x = dev \<and> inum x = ino"

text \<open>An inode has at most one entry in use.\<close>

definition itable_ok :: "(nat \<Rightarrow> inode) \<Rightarrow> bool" where
  "itable_ok t \<longleftrightarrow> (\<forall>i<NINODE. 0 \<le> iref (t i) \<and>
     (\<forall>j<NINODE. 0 < iref (t i) \<longrightarrow> 0 < iref (t j) \<longrightarrow> idev (t i) = idev (t j) \<longrightarrow> inum (t i) = inum (t j) \<longrightarrow> i = j))"

lemma find_SomeD: "find P xs = Some x \<Longrightarrow> x \<in> set xs \<and> P x"
  by (auto simp: find_Some_iff)

lemma iget_scan_eq:
  "iget_scan n i spare dev ino t =
     (let hit = find (\<lambda>j. names_inode dev ino (t j)) [i..<i + n]
      in (hit, if spare = None then find (\<lambda>j. iref (t j) = 0) [i..<(case hit of None \<Rightarrow> i + n | Some j \<Rightarrow> j)] else spare))"
proof (induction n arbitrary: i spare)
  case (Suc n)
  have u: "[i..<i + Suc n] = i # [Suc i..<Suc i + n]" by (simp add: upt_conv_Cons del: upt_Suc)
  show ?case
  proof (cases "names_inode dev ino (t i)")
    case True
    then show ?thesis unfolding u by (simp add: names_inode_def Let_def)
  next
    case False
    define hit where "hit = find (\<lambda>j. names_inode dev ino (t j)) [Suc i..<Suc i + n]"
    define e where "e = (case hit of None \<Rightarrow> Suc i + n | Some j \<Rightarrow> j)"
    have "Suc i \<le> e" by (auto simp: e_def hit_def dest!: find_SomeD simp del: upt_Suc split: option.splits)
    then have v: "[i..<e] = i # [Suc i..<e]" by (simp add: upt_conv_Cons)
    have ih: "iget_scan n (Suc i) sp dev ino t = (hit, if sp = None then find (\<lambda>j. iref (t j) = 0) [Suc i..<e] else sp)" for sp
      using Suc.IH [of "Suc i" sp] by (simp only: Let_def hit_def e_def)
    have f: "find (\<lambda>j. names_inode dev ino (t j)) [i..<i + Suc n] = hit" unfolding u using False by (simp add: hit_def del: upt_Suc)
    have c: "(case hit of None \<Rightarrow> i + Suc n | Some j \<Rightarrow> j) = e" by (simp add: e_def split: option.split)
    have "iget_scan (Suc n) i spare dev ino t =
        iget_scan n (Suc i) (if spare = None \<and> iref (t i) = 0 then Some i else spare) dev ino t"
      using False by (auto simp: names_inode_def)
    then show ?thesis unfolding f ih Let_def c v by auto
  qed
qed (simp add: Let_def)

lemma iget_ok:
  "iget dev ino s =
     (case find (\<lambda>j. names_inode dev ino (inodes s j)) [0..<NINODE] of
        Some ip \<Rightarrow> Some (ip, upd_inode ip (\<lambda>x. x\<lparr>iref := iref x + 1\<rparr>) s)
      | None \<Rightarrow> (case find (\<lambda>j. iref (inodes s j) = 0) [0..<NINODE] of
          None \<Rightarrow> None
        | Some ip \<Rightarrow> Some (ip, upd_inode ip (\<lambda>x. x\<lparr>idev := dev, inum := ino, iref := 1, ivalid := False\<rparr>) s)))"
  by (simp add: iget_def iget_scan_eq Let_def panic_def split: option.splits)

section \<open>Inodes on the disk\<close>

definition dinode :: "(u32 \<Rightarrow> blk) \<Rightarrow> superblock \<Rightarrow> u32 \<Rightarrow> inode \<Rightarrow> inode" where
  "dinode c x i y = get_dinode (c (IBLOCK i x)) (dinode_at i) y"

definition same_dinode :: "inode \<Rightarrow> inode \<Rightarrow> inode" where
  "same_dinode x y = y\<lparr>itype := itype x, imajor := imajor x, iminor := iminor x, inlink := inlink x, isize := isize x,
     addrs := addrs x\<rparr>"

lemma nth_concat_le_bytes:
  "j < 4 * length xs \<Longrightarrow> concat (map (le_bytes 4) xs) ! j = le_bytes 4 (xs ! (j div 4)) ! (j mod 4)"
proof (induction xs arbitrary: j)
  case (Cons a xs)
  show ?case
  proof (cases "j < 4")
    case True
    then show ?thesis by (simp add: nth_append)
  next
    case False
    then have "concat (map (le_bytes 4) (a # xs)) ! j = concat (map (le_bytes 4) xs) ! (j - 4)" by (simp add: nth_append)
    also have "\<dots> = le_bytes 4 (xs ! ((j - 4) div 4)) ! ((j - 4) mod 4)" using False Cons.prems by (intro Cons.IH) simp
    also have "(j - 4) mod 4 = j mod 4" using False by (simp add: le_mod_geq)
    also have "xs ! ((j - 4) div 4) = (a # xs) ! (j div 4)" using False by (simp add: le_div_geq)
    finally show ?thesis .
  qed
qed simp

lemma length_concat_le_bytes [simp]: "length (concat (map (le_bytes 4) xs)) = 4 * length xs"
  by (induction xs) simp_all

lemma get_put_words:
  assumes "k + 4 * length xs \<le> length d" "i < length xs"
  shows "get32 (put_at k (concat (map (le_bytes 4) xs)) d) (k + 4 * i) = xs ! i"
proof -
  have "get_at (k + 4 * i) 4 (put_at k (concat (map (le_bytes 4) xs)) d) = le_bytes 4 (xs ! i)"
    using assms by (intro nth_equalityI) (auto simp: nth_get_at nth_put_at nth_concat_le_bytes)
  then show ?thesis by (simp add: get32_def)
qed

lemma get_put_area:
  assumes "k + length bs \<le> length d" and "j + 4 \<le> k \<or> k + length bs \<le> j"
  shows "j + 4 \<le> length d \<Longrightarrow> get32 (put_at k bs d) j = get32 d j" "j + 2 \<le> length d \<Longrightarrow> get16 (put_at k bs d) j = get16 d j"
  using get_put_other [OF assms(1)] assms(2) by (auto simp: get32_def get16_def)

lemma get_put_dinode:
  assumes "length (addrs x) = 13" and "k + 64 \<le> length d"
  shows "get_dinode (put_dinode x k d) k y = same_dinode x y"
proof -
  let ?cs = "concat (map (le_bytes 4) (addrs x))"
  define d1 where "d1 = put32 (k + 8) (isize x) (put16 (k + 6) (inlink x) (put16 (k + 4) (iminor x)
         (put16 (k + 2) (imajor x) (put16 k (itype x) d))))"
  have len: "length d1 = length d" using assms(2) by (simp add: d1_def)
  have p: "put_dinode x k d = put_at (k + 12) ?cs d1" by (simp add: put_dinode_def d1_def)
  have fields: "get16 d1 k = itype x" "get16 d1 (k + 2) = imajor x" "get16 d1 (k + 4) = iminor x" "get16 d1 (k + 6) = inlink x"
    "get32 d1 (k + 8) = isize x"
    using assms(2) by (simp_all add: d1_def get_put_disjoint)
  have "map (\<lambda>i. get32 (put_at (k + 12) ?cs d1) (k + 12 + 4 * i)) [0..<NDIRECT + 1] = addrs x"
    using assms len by (intro nth_equalityI) (simp_all add: get_put_words)
  then show ?thesis
    unfolding get_dinode_def p using fields get_put_area [of "k + 12" ?cs d1] assms len
    by (simp add: same_dinode_def)
qed

lemma get_put_dinode_other:
  assumes "length (addrs x) = 13" and "k + 64 \<le> length d" "j + 64 \<le> length d" and "j + 64 \<le> k \<or> k + 64 \<le> j"
  shows "get_dinode (put_dinode x k d) j y = get_dinode d j y"
proof -
  have g: "get_at i n (put_dinode x k d) = get_at i n d" if "i + n \<le> length d" "i + n \<le> k \<or> k + 64 \<le> i" for i n
    using that(2)
  proof
    assume "i + n \<le> k"
    then show ?thesis using that(1) assms(1,2) by (simp add: get_put_other put_dinode_def put16_def put32_def)
  next
    assume "k + 64 \<le> i"
    then show ?thesis using that(1) assms(1,2) by (simp add: get_put_other put_dinode_def put16_def put32_def)
  qed
  show ?thesis using assms(3,4) g by (auto simp: get_dinode_def get16_def get32_def)
qed

lemma dinode_at_le: "dinode_at i + 64 \<le> BSIZE"
proof -
  have "unat (i mod 16) < 16" using word_less_nat_alt [of "i mod 16" 16] word_mod_less_divisor [of 16 i] by simp
  then show ?thesis by (simp add: dinode_at_def)
qed

lemma dinode_at_other:
  assumes "IBLOCK i x = IBLOCK j x" "i \<noteq> j"
  shows "dinode_at j + 64 \<le> dinode_at i \<or> dinode_at i + 64 \<le> dinode_at j"
proof -
  have "i div 16 = j div 16" using assms(1) by (simp add: IBLOCK_def)
  moreover have "i div 16 * 16 + i mod 16 = i" "j div 16 * 16 + j mod 16 = j" by (rule div_mult_mod_eq)+
  ultimately have "i mod 16 \<noteq> j mod 16" using assms(2) by metis
  then have "unat (i mod 16) \<noteq> unat (j mod 16)"
    using unsigned_word_eqI [where 'a = nat, of "i mod 16" "j mod 16"] by blast
  then show ?thesis by (auto simp: dinode_at_def)
qed

lemma iupdate_ok:
  assumes t: "tx H (Suc k) s" and x: "x = inodes s ip" "length (addrs x) = 13"
    and b: "home (log_start s) (IBLOCK (inum x) (sb s))" "IBLOCK (inum x) (sb s) \<notin> H" and room: "card H \<le> Suc k"
  shows "\<exists>s'. iupdate ip s = Some s' \<and> tx H k s' \<and> frame s' = frame s \<and> (\<forall>j c. c \<in> H \<longrightarrow> bat s j c \<longrightarrow> bat s' j c) \<and>
    (\<forall>c. c \<noteq> IBLOCK (inum x) (sb s) \<longrightarrow> content s' c = content s c) \<and>
    (\<forall>i y. dinode (content s') (sb s) i y = (if i = inum x then same_dinode x y else dinode (content s) (sb s) i y))"
proof -
  define b where "b = IBLOCK (inum x) (sb s)"
  define d where "d = content s b"
  define e where "e = put_dinode x (dinode_at (inum x)) d"
  have len: "length d = BSIZE" using tx_length [OF t] by (simp add: d_def)
  have le: "length e = BSIZE" unfolding e_def using length_put_dinode [OF x(2)] dinode_at_le len by simp
  obtain i s1 s2 s3 where q: "bufcache_read b s = Some (i, s1)" "bdata (bufs s1 i) = d" "frame s1 = frame s"
      "log_write i (set_data i e s1) = Some s2" "bufcache_release i s2 = Some s3" "tx H k s3"
      "content s3 = (content s)(b := e)" "frame s3 = frame s" "\<forall>j c. c \<in> H \<longrightarrow> bat s j c \<longrightarrow> bat s3 j c"
    using tx_modify [OF t assms(4,5) room le] unfolding d_def b_def by blast
  have "inodes s1 ip = x" using frame_fs(2) [OF q(3)] x(1) by simp
  then have up: "iupdate ip s = Some s3" using q(1,2,4,5) x(1) by (simp add: iupdate_def Let_def e_def b_def)
  have "dinode (content s3) (sb s) j y = (if j = inum x then same_dinode x y else dinode (content s) (sb s) j y)" for j y
  proof (cases "IBLOCK j (sb s) = b")
    case False
    then show ?thesis by (auto simp: dinode_def q(7) b_def)
  next
    case True
    show ?thesis
    proof (cases "j = inum x")
      case True
      then show ?thesis using get_put_dinode [OF x(2), of "dinode_at (inum x)" d y] dinode_at_le [of "inum x"] len
        by (simp add: dinode_def q(7) e_def flip: b_def)
    next
      case False
      have "dinode_at j + 64 \<le> dinode_at (inum x) \<or> dinode_at (inum x) + 64 \<le> dinode_at j"
        using dinode_at_other [of "inum x" "sb s" j] False \<open>IBLOCK j (sb s) = b\<close> by (auto simp: b_def)
      then have "get_dinode e (dinode_at j) y = get_dinode d (dinode_at j) y"
        unfolding e_def using dinode_at_le [of j] dinode_at_le [of "inum x"] len
        by (intro get_put_dinode_other [OF x(2)]) simp_all
      then show ?thesis using False \<open>IBLOCK j (sb s) = b\<close> by (simp add: dinode_def q(7) d_def)
    qed
  qed
  then show ?thesis using up q(6-9) by (intro exI [of _ s3]) (simp add: b_def)
qed

lemma frame_upd_inode: "frame s' = frame s \<Longrightarrow> frame (upd_inode ip f s') = frame (upd_inode ip f s)" for s s' :: "'a fs_scheme"
  by (cases s; cases s') (simp add: frame_def upd_inode_def)

lemma upd_inode_fields [simp]:
  "sb (upd_inode ip f s) = sb s" "mypid (upd_inode ip f s) = mypid s" "km (upd_inode ip f s) = km s"
  "bufs (upd_inode ip f s) = bufs s" "inodes (upd_inode ip f s) = (inodes s)(ip := f (inodes s ip))"
  by (simp_all add: upd_inode_def)

lemma upd_inode_upd [simp]: "upd_inode ip g (upd_inode ip f s) = upd_inode ip (\<lambda>x. g (f x)) s"
  by (simp add: upd_inode_def)

lemma acquire_eq: "acquiresleep me l = (if slocked l \<noteq> 0 then None else Some \<lparr>slocked = 1, spid = me\<rparr>)"
  by (cases l) (simp add: acquiresleep_def)

lemma get_dinode_lock:
  "(get_dinode d k (x\<lparr>ilck := l\<rparr>))\<lparr>ivalid := v\<rparr> = (get_dinode d k x)\<lparr>ivalid := v, ilck := l\<rparr>"
  by (cases x) (simp add: get_dinode_def)

lemma ilock_ok:
  assumes t: "tx H k s" and x: "x = inodes s ip" and ref: "1 \<le> iref x" and free: "slocked (ilck x) = 0"
    and b: "IBLOCK (inum x) (sb s) \<noteq> 0" "IBLOCK (inum x) (sb s) \<notin> H" and room: "card H \<le> k"
    and ty: "\<not> ivalid x \<Longrightarrow> itype (dinode (content s) (sb s) (inum x) x) \<noteq> 0"
  shows "\<exists>s'. ilock ip s = Some s' \<and> tx H k s' \<and> content s' = content s \<and>
    frame s' = frame (upd_inode ip (\<lambda>_. (if ivalid x then x else dinode (content s) (sb s) (inum x) x)
      \<lparr>ivalid := True, ilck := \<lparr>slocked = 1, spid = mypid s\<rparr>\<rparr>) s)"
proof (cases "ivalid x")
  case True
  define s' where "s' = upd_inode ip (\<lambda>x. x\<lparr>ilck := \<lparr>slocked = 1, spid = mypid s\<rparr>\<rparr>) s"
  have "ilock ip s = Some s'" using True ref free x by (simp add: ilock_def acquire_eq s'_def upd_inode_def)
  moreover have "x\<lparr>ivalid := True, ilck := l\<rparr> = x\<lparr>ilck := l\<rparr>" for l using True by (cases x) simp
  then have "s' = upd_inode ip (\<lambda>_. x\<lparr>ivalid := True, ilck := \<lparr>slocked = 1, spid = mypid s\<rparr>\<rparr>) s"
    using x by (simp add: s'_def upd_inode_def)
  ultimately show ?thesis using t True by (intro exI [of _ s']) (simp add: s'_def)
next
  case False
  define l where "l = (\<lparr>slocked = 1, spid = mypid s\<rparr> :: sleeplock)"
  define s0 where "s0 = upd_inode ip (\<lambda>x. x\<lparr>ilck := l\<rparr>) s"
  define b where "b = IBLOCK (inum x) (sb s)"
  define f where "f = (\<lambda>x. get_dinode (content s b) (dinode_at (inum x)) x)"
  have t0: "tx H k s0" "content s0 = content s" using t by (simp_all add: s0_def)
  obtain i s1 where q: "bufcache_read b s0 = Some (i, s1)" "tx (insert b H) k s1" "content s1 = content s"
      "frame s1 = frame s0" "bdata (bufs s1 i) = content s b" "bat s1 i b"
    using tx_read [OF t0(1) assms(5,6) room] t0(2) unfolding b_def by metis
  define s2 where "s2 = upd_inode ip f s1"
  have t2: "tx (insert b H) k s2" "bat s2 i b" using q(2,6) by (simp_all add: s2_def)
  obtain s3 where r: "bufcache_release i s2 = Some s3" "tx (insert b H - {b}) k s3" "content s3 = content s2" "frame s3 = frame s2"
    using tx_release [OF t2(1) _ t2(2)] by blast
  define s4 where "s4 = upd_inode ip (\<lambda>x. x\<lparr>ivalid := True\<rparr>) s3"
  have i1: "inodes s1 = inodes s0" using frame_fs(2) [OF q(4)] .
  have i3: "inodes s3 = inodes s2" using frame_fs(2) [OF r(4)] .
  have fr: "frame s4 = frame (upd_inode ip (\<lambda>_. (dinode (content s) (sb s) (inum x) x)\<lparr>ivalid := True, ilck := l\<rparr>) s)"
  proof -
    have "frame s4 = frame (upd_inode ip (\<lambda>x. x\<lparr>ivalid := True\<rparr>) s2)" unfolding s4_def by (rule frame_upd_inode [OF r(4)])
    also have "\<dots> = frame (upd_inode ip (\<lambda>x. x\<lparr>ivalid := True\<rparr>) (upd_inode ip f s0))"
      unfolding s2_def by (rule frame_upd_inode [OF frame_upd_inode [OF q(4)]])
    also have "upd_inode ip (\<lambda>x. x\<lparr>ivalid := True\<rparr>) (upd_inode ip f s0) =
        upd_inode ip (\<lambda>_. (dinode (content s) (sb s) (inum x) x)\<lparr>ivalid := True, ilck := l\<rparr>) s"
      using x by (simp add: s0_def upd_inode_def f_def dinode_def b_def get_dinode_lock)
    finally show ?thesis .
  qed
  have "itype (inodes s4 ip) \<noteq> 0" using frame_fs(2) [OF fr] ty [OF False] by simp
  then have "ilock ip s = Some s4"
    using q(1,5) r(1) False ref free x
    by (simp add: ilock_def acquire_eq Let_def s4_def) (simp add: s0_def s2_def f_def l_def b_def)
  moreover have "tx H k s4" "content s4 = content s"
    using r(2,3) q(3) assms(6) by (simp_all add: s4_def s2_def flip: b_def)
  ultimately show ?thesis using fr False by (intro exI [of _ s4]) (simp add: l_def)
qed

section \<open>The blocks of a file\<close>

definition nfree :: "(u32 \<Rightarrow> blk) \<Rightarrow> superblock \<Rightarrow> nat" where
  "nfree c x = card {b. b < unat (sb_size x) \<and> \<not> block_used c x b}"

text \<open>The block that holds block number \<open>i\<close> of a file, 0 for none: one of the 12 direct addresses, or an
  entry of the indirect block.\<close>

definition file_addr :: "(u32 \<Rightarrow> blk) \<Rightarrow> inode \<Rightarrow> nat \<Rightarrow> u32" where
  "file_addr c x i =
     (if i < NDIRECT then addrs x ! i
      else if addrs x ! NDIRECT = 0 then 0 else get32 (c (addrs x ! NDIRECT)) (4 * (i - NDIRECT)))"

text \<open>The blocks of a file are different data blocks, in use, and not the one of its inode.\<close>

definition data_block :: "(u32 \<Rightarrow> blk) \<Rightarrow> superblock \<Rightarrow> u32 \<Rightarrow> bool" where
  "data_block c x a \<longleftrightarrow> unat a < unat (sb_size x) \<and> block_used c x (unat a) \<and> a \<notin> bmap_blocks x \<and> home (sb_logstart x) a"

definition file_ok :: "(u32 \<Rightarrow> blk) \<Rightarrow> superblock \<Rightarrow> inode \<Rightarrow> bool" where
  "file_ok c x y \<longleftrightarrow>
     length (addrs y) = 13 \<and> data_block c x (IBLOCK (inum y) x) \<and> IBLOCK (inum y) x \<noteq> 0 \<and>
     (addrs y ! NDIRECT \<noteq> 0 \<longrightarrow> data_block c x (addrs y ! NDIRECT) \<and> addrs y ! NDIRECT \<noteq> IBLOCK (inum y) x) \<and>
     (\<forall>i<MAXFILE. file_addr c y i \<noteq> 0 \<longrightarrow> data_block c x (file_addr c y i) \<and>
        file_addr c y i \<noteq> addrs y ! NDIRECT \<and> file_addr c y i \<noteq> IBLOCK (inum y) x) \<and>
     (\<forall>i<MAXFILE. \<forall>j<MAXFILE. file_addr c y i \<noteq> 0 \<longrightarrow> file_addr c y i = file_addr c y j \<longrightarrow> i = j)"

lemma nfree_pos: "0 < nfree c x \<Longrightarrow> \<exists>b. first_free c x = Some b"
proof (cases "first_free c x")
  case None
  then have "{b. b < unat (sb_size x) \<and> \<not> block_used c x b} = {}" by (auto simp: first_free_def find_None_iff)
  then have "nfree c x = 0" unfolding nfree_def by (simp only: card.empty)
  moreover assume "0 < nfree c x"
  ultimately show ?thesis by simp
qed simp

lemma first_freeD: "first_free c x = Some b \<Longrightarrow> b < unat (sb_size x) \<and> \<not> block_used c x b"
  by (auto simp: first_free_def dest!: find_SomeD)

lemma nfree_allocates:
  assumes "allocates b s s'" and "b < unat (sb_size (sb s))" and "\<not> block_used (content s) (sb s) b"
  shows "nfree (content s') (sb s) = nfree (content s) (sb s) - 1"
proof -
  have "{c. c < unat (sb_size (sb s)) \<and> \<not> block_used (content s') (sb s) c} =
      {c. c < unat (sb_size (sb s)) \<and> \<not> block_used (content s) (sb s) c} - {b}"
    using assms(1) by (auto simp: allocates_def)
  then show ?thesis using assms(2,3) by (simp add: nfree_def)
qed

lemma balloc_some:
  assumes "tx H (Suc (Suc k)) s" and "card H \<le> Suc k" and "bitmap_ok H s" and "0 < nfree (content s) (sb s)"
  shows "\<exists>b s'. balloc s = Some (of_nat b, s') \<and> (of_nat b :: u32) \<noteq> 0 \<and> b < unat (sb_size (sb s)) \<and>
    \<not> block_used (content s) (sb s) b \<and> tx H k s' \<and> allocates b s s' \<and> bitmap_ok H s' \<and>
    nfree (content s') (sb s) = nfree (content s) (sb s) - 1 \<and> (\<forall>j c. c \<in> H \<longrightarrow> bat s j c \<longrightarrow> bat s' j c)"
proof -
  obtain b where f: "first_free (content s) (sb s) = Some b" using nfree_pos [OF assms(4)] by blast
  note b = first_freeD [OF f]
  obtain s' where q: "balloc s = Some (of_nat b, s')" "(of_nat b :: u32) \<noteq> 0" "tx H k s'" "allocates b s s'"
      "\<forall>j c. c \<in> H \<longrightarrow> bat s j c \<longrightarrow> bat s' j c"
    using balloc_ok [OF assms(1-3)] f by auto
  have "sb s' = sb s" using q(4) frame_fs(1) [of s' s] by (simp add: allocates_def)
  moreover have "log_start s' = log_start s" using q(4) frame_fs(7) [of s' s] by (simp add: allocates_def)
  ultimately have "bitmap_ok H s'" using assms(3) q(4) by (simp add: bitmap_ok_def allocates_def)
  then show ?thesis using q b nfree_allocates [OF q(4)] by (intro exI [of _ b] exI [of _ s']) simp
qed

lemma data_block_not_free:
  assumes "data_block c x a" and "b < unat (sb_size x)" "\<not> block_used c x b"
  shows "a \<noteq> of_nat b"
  using assms unat_of_nat_less [OF assms(2)] by (auto simp: data_block_def)

text \<open>An allocation keeps data blocks and their contents.\<close>

lemma data_block_kept:
  assumes "allocates b s s'" and "b < unat (sb_size (sb s))" "\<not> block_used (content s) (sb s) b"
    and "data_block (content s) (sb s) a"
  shows "data_block (content s') (sb s) a" "content s' a = content s a"
proof -
  show "data_block (content s') (sb s) a" using assms(1,4) by (simp add: data_block_def allocates_def)
  have "a \<noteq> BBLOCK b (sb s)" using assms(2,4) by (auto simp: data_block_def bmap_blocks_def)
  then show "content s' a = content s a"
    using assms(1) data_block_not_free [OF assms(4,2,3)] by (simp add: allocates_def)
qed

lemma data_block_new:
  assumes "allocates b s s'" and "b < unat (sb_size (sb s))" "\<not> block_used (content s) (sb s) b" and "bitmap_ok H s"
  shows "data_block (content s') (sb s) (of_nat b)" "content s' (of_nat b) = replicate BSIZE 0"
  using assms(1,2) unat_of_nat_less [OF assms(2)] bitmap_okD(1,5) [OF assms(4)] bitmap_okD(4,5) [OF assms(4,2,3)]
  by (auto simp: data_block_def allocates_def)

lemma get32_zero: "get32 (replicate n 0) k = 0"
proof -
  have "get_at k 4 (replicate n 0) = replicate (min 4 (n - k)) 0" by (simp add: get_at_def)
  moreover have "le_word (replicate m (0 :: u8)) = (0 :: u32)" for m by (induction m) simp_all
  ultimately show ?thesis by (simp add: get32_def)
qed

lemma file_ok_extend:
  assumes f: "file_ok c x y" and y': "length (addrs y') = 13" "addrs y' ! NDIRECT = addrs y ! NDIRECT" "inum y' = inum y"
    and keep: "\<And>b. data_block c x b \<Longrightarrow> data_block c' x b"
    and addr: "\<And>i. i < MAXFILE \<Longrightarrow> file_addr c' y' i = (if i = bn then a else file_addr c y i)"
    and a: "data_block c' x a" "\<And>b. data_block c x b \<Longrightarrow> b \<noteq> a" "a \<noteq> 0"
  shows "file_ok c' x y'"
proof -
  have ind: "addrs y ! NDIRECT \<noteq> a" using f a(2,3) by (auto simp: file_ok_def)
  have ib: "IBLOCK (inum y) x \<noteq> a" using f a(2) by (simp add: file_ok_def)
  have old: "file_addr c y i \<noteq> a" if "i < MAXFILE" for i using f a(2,3) that by (auto simp: file_ok_def)
  have "data_block c' x (file_addr c' y' i) \<and> file_addr c' y' i \<noteq> addrs y' ! NDIRECT \<and> file_addr c' y' i \<noteq> IBLOCK (inum y') x"
    if "i < MAXFILE" "file_addr c' y' i \<noteq> 0" for i
    using f that addr [OF that(1)] a(1) ind ib keep y' by (auto simp: file_ok_def split: if_splits)
  moreover have "i = j" if "i < MAXFILE" "j < MAXFILE" "file_addr c' y' i \<noteq> 0" "file_addr c' y' i = file_addr c' y' j" for i j
    using f that addr [OF that(1)] addr [OF that(2)] old by (auto simp: file_ok_def split: if_splits)
  ultimately show ?thesis using f keep y' unfolding file_ok_def by simp
qed

definition kept :: "'a fs_scheme \<Rightarrow> 'a fs_scheme \<Rightarrow> bool" where
  "kept s s' \<longleftrightarrow> sb s' = sb s \<and> km s' = km s \<and> mypid s' = mypid s \<and> fs.more s' = fs.more s \<and> uart_out s' = uart_out s \<and>
     log_start s' = log_start s \<and> log_size s' = log_size s \<and> outstanding s' = outstanding s \<and> committing s' = committing s \<and>
     disk s' = disk s \<and> dwrites s' = dwrites s"

lemma frame_kept: "frame s' = frame s \<Longrightarrow> kept s s' \<and> inodes s' = inodes s" for s s' :: "'a fs_scheme"
  using frame_fs [of s' s] by (simp add: kept_def)

lemma kept_upd_inode [simp]: "kept s (upd_inode ip f s') = kept s s'"
  by (simp add: kept_def upd_inode_def)

text \<open>\<open>others\<close>: the blocks in use that do not belong to the file.  The effect of \<open>bmap\<close>: block \<open>bn\<close> of the file is now block \<open>a\<close>, a new one cleared, everything else is as
  it was.\<close>

definition others :: "nat \<Rightarrow> 'a fs_scheme \<Rightarrow> u32 \<Rightarrow> bool" where
  "others ip s b \<longleftrightarrow> data_block (content s) (sb s) b \<and> b \<noteq> addrs (inodes s ip) ! NDIRECT \<and>
     (\<forall>i<MAXFILE. b \<noteq> file_addr (content s) (inodes s ip) i)"

definition bmapped :: "nat \<Rightarrow> nat \<Rightarrow> u32 \<Rightarrow> 'a fs_scheme \<Rightarrow> 'a fs_scheme \<Rightarrow> bool" where
  "bmapped ip bn a s s' \<longleftrightarrow>
     kept s s' \<and> (\<exists>as. inodes s' = (inodes s)(ip := (inodes s ip)\<lparr>addrs := as\<rparr>)) \<and>
     file_ok (content s') (sb s) (inodes s' ip) \<and> bitmap_ok {} s' \<and> a \<noteq> 0 \<and>
     (\<forall>i<MAXFILE. file_addr (content s') (inodes s' ip) i = (if i = bn then a else file_addr (content s) (inodes s ip) i)) \<and>
     (if file_addr (content s) (inodes s ip) bn \<noteq> 0 then a = file_addr (content s) (inodes s ip) bn
      else content s' a = replicate BSIZE 0) \<and>
     (\<forall>b. data_block (content s) (sb s) b \<longrightarrow> b \<noteq> addrs (inodes s ip) ! NDIRECT \<longrightarrow>
        data_block (content s') (sb s) b \<and> content s' b = content s b) \<and>
     (\<forall>b. others ip s b \<longrightarrow> others ip s' b)"

lemma file_addr_cong:
  assumes "addrs y' = addrs y" and "addrs y ! NDIRECT \<noteq> 0 \<Longrightarrow> c' (addrs y ! NDIRECT) = c (addrs y ! NDIRECT)"
  shows "file_addr c' y' i = file_addr c y i"
  using assms by (simp add: file_addr_def)

lemma bmap_hit:
  assumes t: "tx {} k s" and f: "file_ok (content s) (sb s) (inodes s ip)" and n: "unat bn < MAXFILE"
    and a: "a = file_addr (content s) (inodes s ip) (unat bn)" "a \<noteq> 0"
  shows "\<exists>s'. bmap ip bn s = Some (a, s') \<and> tx {} k s' \<and> content s' = content s \<and> frame s' = frame s"
proof (cases "unat bn < NDIRECT")
  case True
  then show ?thesis using t a by (simp add: bmap_def file_addr_def Let_def)
next
  case False
  define ind where "ind = addrs (inodes s ip) ! NDIRECT"
  have ind: "ind \<noteq> 0" using a False by (auto simp: file_addr_def ind_def)
  obtain i s1 s2 where q: "bufcache_read ind s = Some (i, s1)" "bdata (bufs s1 i) = content s ind"
      "bufcache_release i s1 = Some s2" "tx {} k s2" "content s2 = content s" "frame s2 = frame s"
    using tx_peek [OF t ind] by auto
  have "get32 (content s ind) (4 * (unat bn - NDIRECT)) = a" using a ind False by (simp add: file_addr_def ind_def)
  then have "bmap ip bn s = Some (a, s2)"
    using q(1-3) ind a(2) n False by (simp add: bmap_def Let_def flip: ind_def)
  then show ?thesis using q(4-6) by (intro exI [of _ s2]) simp
qed

lemma bmapped_hit:
  assumes "file_ok (content s) (sb s) (inodes s ip)" "bitmap_ok {} s" "content s' = content s" "frame s' = frame s"
    "a = file_addr (content s) (inodes s ip) bn" "a \<noteq> 0"
  shows "bmapped ip bn a s s'"
proof -
  have "inodes s' = (inodes s)(ip := (inodes s ip)\<lparr>addrs := addrs (inodes s ip)\<rparr>)" using frame_kept [OF assms(4)] by simp
  then have "\<exists>as. inodes s' = (inodes s)(ip := (inodes s ip)\<lparr>addrs := as\<rparr>)" by blast
  moreover have "others ip s' = others ip s" using frame_kept [OF assms(4)] assms(3) by (intro ext) (simp add: others_def kept_def)
  ultimately show ?thesis using assms frame_kept [OF assms(4)] bitmap_ok_cong [OF assms(4,3)] by (auto simp: bmapped_def)
qed

lemma bitmap_ok_upd_inode [simp]: "bitmap_ok H (upd_inode ip f s) = bitmap_ok H s"
  by (simp add: bitmap_ok_def upd_inode_def)

lemma bmap_direct:
  assumes t: "tx {} (Suc (Suc k)) s" and f: "file_ok (content s) (sb s) (inodes s ip)" and ok: "bitmap_ok {} s"
    and free: "0 < nfree (content s) (sb s)" and bn: "unat bn < NDIRECT" "addrs (inodes s ip) ! unat bn = 0"
  shows "\<exists>a s'. bmap ip bn s = Some (a, s') \<and> tx {} k s' \<and> bmapped ip (unat bn) a s s' \<and>
    nfree (content s) (sb s) \<le> nfree (content s') (sb s) + 1"
proof -
  obtain b s1 where b: "balloc s = Some (of_nat b, s1)" "(of_nat b :: u32) \<noteq> 0" "b < unat (sb_size (sb s))"
      "\<not> block_used (content s) (sb s) b" "tx {} k s1" "allocates b s s1" "bitmap_ok {} s1"
      "nfree (content s1) (sb s) = nfree (content s) (sb s) - 1"
    using balloc_some [OF t _ ok free] by auto
  define a where "a = (of_nat b :: u32)"
  define x where "x = inodes s ip"
  define x' where "x' = x\<lparr>addrs := (addrs x)[unat bn := a]\<rparr>"
  define s' where "s' = upd_inode ip (\<lambda>x. x\<lparr>addrs := (addrs x)[unat bn := a]\<rparr>) s1"
  have k1: "kept s s1" "inodes s1 = inodes s" using b(6) frame_kept [of s1 s] by (simp_all add: allocates_def)
  have c': "content s' = content s1" and i': "inodes s' = (inodes s)(ip := x')" using k1 by (simp_all add: s'_def x'_def x_def)
  have bm: "bmap ip bn s = Some (a, s')" using b(1,2) bn by (simp add: bmap_def a_def s'_def)
  note keep = data_block_kept [OF b(6,3,4)] and new = data_block_new [OF b(6,3,4) ok, folded a_def]
  note fresh = data_block_not_free [OF _ b(3,4), folded a_def]
  have len: "length (addrs x) = 13" and ind: "addrs x ! NDIRECT \<noteq> 0 \<Longrightarrow> content s1 (addrs x ! NDIRECT) = content s (addrs x ! NDIRECT)"
    using f keep(2) by (auto simp: file_ok_def x_def)
  have addr: "file_addr (content s1) x' i = (if i = unat bn then a else file_addr (content s) x i)" if "i < MAXFILE" for i
    using ind bn(1) len by (auto simp: file_addr_def x'_def)
  have "file_ok (content s1) (sb s) x'"
    by (rule file_ok_extend [OF f [folded x_def] _ _ _ keep(1) addr new(1)])
      (use data_block_not_free [OF _ b(3,4)] len bn(1) b(2) in \<open>auto simp: x'_def a_def\<close>)
  moreover have "file_addr (content s) x (unat bn) = 0" using bn by (simp add: file_addr_def x_def)
  moreover have "bitmap_ok {} s'" using b(7) by (simp add: s'_def)
  moreover have "others ip s' b" if "others ip s b" for b
    using that keep(1) fresh addr bn(1) k1(1) unfolding others_def c' i' by (auto simp: s'_def x'_def kept_def simp flip: x_def)
  ultimately have "bmapped ip (unat bn) a s s'"
    using k1(1) addr keep new(2) b(2) unfolding bmapped_def c' i'
    by (auto simp: s'_def x'_def a_def simp flip: x_def)
  moreover have "tx {} k s'" using b(5) by (simp add: s'_def)
  ultimately show ?thesis using bm b(8) c' by (intro exI [of _ a] exI [of _ s']) simp
qed

text \<open>The indirect block is allocated when a block needs it first.\<close>

lemma bmap_indirect_block:
  assumes t: "tx {} (Suc (Suc k)) s" and f: "file_ok (content s) (sb s) (inodes s ip)" and ok: "bitmap_ok {} s"
    and free: "0 < nfree (content s) (sb s)" and ind: "addrs (inodes s ip) ! NDIRECT = 0"
  shows "\<exists>a s1 s'. balloc s = Some (a, s1) \<and> a \<noteq> 0 \<and> s' = upd_inode ip (\<lambda>x. x\<lparr>addrs := (addrs x)[NDIRECT := a]\<rparr>) s1 \<and>
    tx {} k s' \<and> kept s s' \<and> inodes s' = (inodes s)(ip := (inodes s ip)\<lparr>addrs := (addrs (inodes s ip))[NDIRECT := a]\<rparr>) \<and>
    file_ok (content s') (sb s) (inodes s' ip) \<and> bitmap_ok {} s' \<and>
    (\<forall>i<MAXFILE. file_addr (content s') (inodes s' ip) i = file_addr (content s) (inodes s ip) i) \<and>
    nfree (content s') (sb s) = nfree (content s) (sb s) - 1 \<and>
    (\<forall>b. data_block (content s) (sb s) b \<longrightarrow> b \<noteq> a \<and> data_block (content s') (sb s) b \<and> content s' b = content s b) \<and>
    (\<forall>b. others ip s b \<longrightarrow> others ip s' b)"
proof -
  obtain b s1 where b: "balloc s = Some (of_nat b, s1)" "(of_nat b :: u32) \<noteq> 0" "b < unat (sb_size (sb s))"
      "\<not> block_used (content s) (sb s) b" "tx {} k s1" "allocates b s s1" "bitmap_ok {} s1"
      "nfree (content s1) (sb s) = nfree (content s) (sb s) - 1"
    using balloc_some [OF t _ ok free] by auto
  define a where "a = (of_nat b :: u32)"
  define x where "x = inodes s ip"
  define x' where "x' = x\<lparr>addrs := (addrs x)[NDIRECT := a]\<rparr>"
  define s' where "s' = upd_inode ip (\<lambda>x. x\<lparr>addrs := (addrs x)[NDIRECT := a]\<rparr>) s1"
  have k1: "kept s s1" "inodes s1 = inodes s" using b(6) frame_kept [of s1 s] by (simp_all add: allocates_def)
  have c': "content s' = content s1" and i': "inodes s' = (inodes s)(ip := x')" using k1 by (simp_all add: s'_def x'_def x_def)
  note keep = data_block_kept [OF b(6,3,4)] and new = data_block_new [OF b(6,3,4) ok, folded a_def]
  note fresh = data_block_not_free [OF _ b(3,4), folded a_def]
  have len: "length (addrs x) = 13" using f by (simp add: file_ok_def x_def)
  have addr: "file_addr (content s1) x' i = file_addr (content s) x i" if "i < MAXFILE" for i
    using len ind new(2) by (auto simp: file_addr_def x'_def x_def get32_zero)
  have "file_ok (content s1) (sb s) x'"
  proof -
    have x': "length (addrs x') = 13" "addrs x' ! NDIRECT = a" "inum x' = inum x" using len by (simp_all add: x'_def)
    have ib: "data_block (content s) (sb s) (IBLOCK (inum x) (sb s))" "IBLOCK (inum x) (sb s) \<noteq> 0" "IBLOCK (inum x) (sb s) \<noteq> a"
      using f fresh by (auto simp: file_ok_def x_def)
    have old: "data_block (content s) (sb s) (file_addr (content s) x i)" "file_addr (content s) x i \<noteq> a"
        "file_addr (content s) x i \<noteq> IBLOCK (inum x) (sb s)"
      if "i < MAXFILE" "file_addr (content s) x i \<noteq> 0" for i
      using f that fresh by (auto simp: file_ok_def x_def)
    have "i = j" if "i < MAXFILE" "j < MAXFILE" "file_addr (content s) x i \<noteq> 0" "file_addr (content s) x i = file_addr (content s) x j" for i j
      using f that by (auto simp: file_ok_def x_def)
    then show ?thesis unfolding file_ok_def using x' ib old keep(1) new(1) addr by simp
  qed
  moreover have "others ip s' b" if "others ip s b" for b
    using that keep(1) fresh addr k1(1) len unfolding others_def c' i' by (simp add: s'_def x'_def kept_def flip: x_def)
  ultimately show ?thesis using b k1(1) addr keep fresh c' i' unfolding a_def [symmetric]
    by - (rule exI [of _ a], rule exI [of _ s1], rule exI [of _ s'], simp add: s'_def x'_def x_def)
qed

lemma block_used_other:
  assumes "\<And>c. c \<in> bmap_blocks x \<Longrightarrow> f c = g c" "b < unat (sb_size x)"
  shows "block_used f x b = block_used g x b"
  using assms(1) [of "BBLOCK b x"] assms(2) by (simp add: block_used_def bmap_blocks_def)

lemma data_block_other:
  assumes "\<And>c. c \<in> bmap_blocks x \<Longrightarrow> f c = g c"
  shows "data_block f x a = data_block g x a"
  using block_used_other [of x f g, OF assms] by (auto simp: data_block_def)

lemma bitmap_ok_other:
  assumes "bitmap_ok H s" "sb s' = sb s" "log_start s' = log_start s" "\<And>c. c \<in> bmap_blocks (sb s) \<Longrightarrow> content s' c = content s c" "H' \<subseteq> H"
  shows "bitmap_ok H' s'"
  using assms(1,5) block_used_other [of "sb s" "content s'" "content s", OF assms(4)]
  by (auto simp: bitmap_ok_def assms(2,3))

lemma nfree_other:
  assumes "\<And>c. c \<in> bmap_blocks x \<Longrightarrow> f c = g c"
  shows "nfree f x = nfree g x"
proof -
  have "{b. b < unat (sb_size x) \<and> \<not> block_used f x b} = {b. b < unat (sb_size x) \<and> \<not> block_used g x b}"
    using block_used_other [of x f g, OF assms] by auto
  then show ?thesis by (simp add: nfree_def)
qed

lemma bitmap_ok_insert:
  assumes "bitmap_ok {} s" "data_block (content s) (sb s) a"
  shows "bitmap_ok {a} s"
proof -
  have "of_nat b \<noteq> a" if "b < unat (sb_size (sb s))" "\<not> block_used (content s) (sb s) b" for b
    using data_block_not_free [OF assms(2) that] by blast
  moreover have "BBLOCK b (sb s) \<noteq> a" if "b < unat (sb_size (sb s))" for b
    using assms(2) that by (auto simp: data_block_def bmap_blocks_def)
  ultimately show ?thesis using assms(1) by (auto simp: bitmap_ok_def)
qed

text \<open>A new entry in the indirect block: the blocks after storing it.\<close>

lemma file_addr_entry:
  assumes "ind = addrs x ! NDIRECT" "ind \<noteq> 0" "length (c ind) = BSIZE" "m < NINDIRECT" "i < MAXFILE"
    and "c' ind = put32 (4 * m) a (c ind)"
  shows "file_addr c' x i = (if i = NDIRECT + m then a else file_addr c x i)"
proof (cases "i < NDIRECT")
  case False
  define j where "j = i - NDIRECT"
  have j: "i = NDIRECT + j" "j < NINDIRECT" using False assms(5) by (simp_all add: j_def)
  have "get32 (put32 (4 * m) a (c ind)) (4 * j) = (if j = m then a else get32 (c ind) (4 * j))"
  proof (cases "j = m")
    case False
    then have "4 * j + 4 \<le> 4 * m \<or> 4 * m + 4 \<le> 4 * j" by linarith
    then show ?thesis using False j(2) assms(3,4) get_put_disjoint(4) [of "4 * m" "c ind" "4 * j" a] by simp
  qed (use assms(3,4) in simp)
  then show ?thesis using assms(1,2,6) by (simp add: file_addr_def j(1))
qed (simp add: file_addr_def)

lemma bmap_entry:
  assumes t: "tx {} (Suc (Suc (Suc k))) s" and f: "file_ok (content s) (sb s) (inodes s ip)" and ok: "bitmap_ok {} s"
    and free: "0 < nfree (content s) (sb s)" and m: "m < NINDIRECT"
    and ind: "ind = addrs (inodes s ip) ! NDIRECT" "ind \<noteq> 0" and e: "get32 (content s ind) (4 * m) = 0"
  shows "\<exists>bp s1 a s2 s3 s'. bufcache_read ind s = Some (bp, s1) \<and> bdata (bufs s1 bp) = content s ind \<and>
    balloc s1 = Some (a, s2) \<and> log_write bp (set_data bp (put32 (4 * m) a (bdata (bufs s2 bp))) s2) = Some s3 \<and>
    bufcache_release bp s3 = Some s' \<and> tx {} k s' \<and> bmapped ip (NDIRECT + m) a s s' \<and>
    nfree (content s) (sb s) \<le> nfree (content s') (sb s) + 1"
proof -
  define x where "x = inodes s ip"
  have di: "data_block (content s) (sb s) ind" using f ind by (simp add: file_ok_def)
  obtain bp s1 where r: "bufcache_read ind s = Some (bp, s1)" "tx {ind} (Suc (Suc (Suc k))) s1" "content s1 = content s"
      "frame s1 = frame s" "bdata (bufs s1 bp) = content s ind" "bat s1 bp ind"
    using tx_read [OF t ind(2)] by auto
  have k1: "kept s s1" "inodes s1 = inodes s" "sb s1 = sb s" using frame_kept [OF r(4)] by (simp_all add: kept_def)
  have ok1: "bitmap_ok {ind} s1" using bitmap_ok_insert [OF ok di] bitmap_ok_cong [OF r(4,3)] by simp
  obtain b s2 where b: "balloc s1 = Some (of_nat b, s2)" "(of_nat b :: u32) \<noteq> 0" "b < unat (sb_size (sb s))"
      "\<not> block_used (content s) (sb s) b" "tx {ind} (Suc k) s2" "allocates b s1 s2" "bitmap_ok {ind} s2"
      "nfree (content s2) (sb s) = nfree (content s) (sb s) - 1" "bat s2 bp ind"
    using balloc_some [OF r(2) _ ok1] free r(3,6) k1(3) by auto
  define a where "a = (of_nat b :: u32)"
  have al: "allocates b s s2" by (rule allocates_trans [OF r(4,3) b(6)])
  note keep = data_block_kept [OF al b(3,4)] and new = data_block_new [OF al b(3,4) ok, folded a_def]
  note fresh = data_block_not_free [OF _ b(3,4), folded a_def]
  have d: "bdata (bufs s2 bp) = content s ind" using bc.get_ok [OF tx_inv [OF b(5)] b(9)] keep(2) [OF di] by simp
  have len: "length (content s ind) = BSIZE" using tx_length [OF t] .
  have "log_start s2 = log_start s" using frame_fs(7) [of s2 s] al by (simp add: allocates_def)
  then have h: "home (log_start s2) ind" using di bitmap_okD(1) [OF ok] by (simp add: data_block_def)
  obtain s3 where w: "log_write bp (set_data bp (put32 (4 * m) a (content s ind)) s2) = Some s3" "tx {ind} k s3"
      "content s3 = (content s2)(ind := put32 (4 * m) a (content s ind))" "frame s3 = frame s2" "bat s3 bp ind"
    using tx_write [OF b(5) _ b(9) h, of "put32 (4 * m) a (content s ind)"] len m b(9) by auto
  obtain s' where q: "bufcache_release bp s3 = Some s'" "tx {} k s'" "content s' = content s3" "frame s' = frame s3"
    using tx_release [OF w(2) _ w(5)] by auto
  have k': "kept s s'" "inodes s' = inodes s"
    using frame_kept [OF q(4)] frame_kept [OF w(4)] b(6) frame_kept [of s2 s1] k1 by (simp_all add: allocates_def kept_def)
  have bm: "content s' c = content s2 c" if "c \<in> bmap_blocks (sb s)" for c
    using that di by (auto simp: q(3) w(3) data_block_def)
  have db: "data_block (content s') (sb s) c = data_block (content s2) (sb s) c" for c by (rule data_block_other [OF bm])
  have addr: "file_addr (content s') x i = (if i = NDIRECT + m then a else file_addr (content s) x i)" if "i < MAXFILE" for i
    using file_addr_entry [of ind x "content s" m i "content s'" a] ind len m that by (simp add: q(3) w(3) x_def)
  have "file_ok (content s') (sb s) x"
    by (rule file_ok_extend [OF f [folded x_def] _ _ _ _ addr])
      (use f keep(1) new(1) fresh db b(2) in \<open>auto simp: file_ok_def x_def a_def\<close>)
  moreover have "bitmap_ok {} s'" by (rule bitmap_ok_other [OF b(7)])
    (use frame_kept [OF q(4)] frame_kept [OF w(4)] bm k' b(6) frame_kept [of s2 s1] k1 in \<open>auto simp: kept_def allocates_def\<close>)
  moreover have "file_addr (content s) x (NDIRECT + m) = 0" using e ind by (simp add: file_addr_def x_def)
  moreover have "content s' a = replicate BSIZE 0" using new(2) fresh [OF di] by (simp add: q(3) w(3))
  moreover have "data_block (content s') (sb s) c \<and> content s' c = content s c" if "data_block (content s) (sb s) c" "c \<noteq> ind" for c
    using keep [OF that(1)] that(2) db by (simp add: q(3) w(3))
  moreover have "others ip s' c" if "others ip s c" for c
    using that keep(1) fresh addr k' db unfolding others_def by (auto simp: kept_def x_def)
  ultimately have "bmapped ip (NDIRECT + m) a s s'"
    using k' addr b(2) ind unfolding bmapped_def by (auto simp: a_def x_def intro: exI [of _ "addrs (inodes s ip)"])
  moreover have "nfree (content s') (sb s) = nfree (content s2) (sb s)" by (rule nfree_other [OF bm])
  ultimately show ?thesis using r(1,5) b(1,8) d w(1) q(1,2) free
    by - (rule exI [of _ bp], rule exI [of _ s1], rule exI [of _ a], rule exI [of _ s2], rule exI [of _ s3], rule exI [of _ s'],
      simp add: a_def)
qed

lemma bmapped_after_indirect:
  assumes k: "kept s s1" "inodes s1 = (inodes s)(ip := (inodes s ip)\<lparr>addrs := (addrs (inodes s ip))[NDIRECT := ind]\<rparr>)"
    and len: "length (addrs (inodes s ip)) = 13"
    and addr: "\<forall>i<MAXFILE. file_addr (content s1) (inodes s1 ip) i = file_addr (content s) (inodes s ip) i"
    and keep: "\<forall>b. data_block (content s) (sb s) b \<longrightarrow> b \<noteq> ind \<and> data_block (content s1) (sb s) b \<and> content s1 b = content s b"
    and oth: "\<forall>b. others ip s b \<longrightarrow> others ip s1 b"
    and m: "bmapped ip bn a s1 s'" "bn < MAXFILE"
  shows "bmapped ip bn a s s'"
proof -
  have sbs: "sb s1 = sb s" using k(1) by (simp add: kept_def)
  obtain as where i': "inodes s' = (inodes s1)(ip := (inodes s1 ip)\<lparr>addrs := as\<rparr>)" using m(1) by (auto simp: bmapped_def)
  then have "\<exists>as. inodes s' = (inodes s)(ip := (inodes s ip)\<lparr>addrs := as\<rparr>)" using k(2) by (intro exI [of _ as]) simp
  moreover have "kept s s'" using k(1) m(1) by (simp add: bmapped_def kept_def)
  moreover have "file_ok (content s') (sb s) (inodes s' ip)" "bitmap_ok {} s'" "a \<noteq> 0" using m(1) sbs by (simp_all add: bmapped_def)
  moreover have "\<forall>i<MAXFILE. file_addr (content s') (inodes s' ip) i = (if i = bn then a else file_addr (content s) (inodes s ip) i)"
    using m(1) addr by (simp add: bmapped_def)
  moreover have "if file_addr (content s) (inodes s ip) bn \<noteq> 0 then a = file_addr (content s) (inodes s ip) bn
      else content s' a = replicate BSIZE 0"
    using m addr by (simp add: bmapped_def split: if_splits)
  moreover have "data_block (content s') (sb s) b \<and> content s' b = content s b" if "data_block (content s) (sb s) b" for b
  proof -
    have "addrs (inodes s1 ip) ! NDIRECT = ind" using k(2) len by simp
    moreover have "b \<noteq> ind" "data_block (content s1) (sb s1) b" "content s1 b = content s b" using keep that sbs by simp_all
    ultimately show ?thesis using m(1) sbs by (simp add: bmapped_def)
  qed
  moreover have "others ip s' b" if "others ip s b" for b using oth that m(1) by (simp add: bmapped_def)
  ultimately show ?thesis unfolding bmapped_def by (intro conjI) simp_all
qed

lemma bmap_new_entry:
  assumes t: "tx {} (Suc (Suc (Suc k))) s" and f: "file_ok (content s) (sb s) (inodes s ip)" and ok: "bitmap_ok {} s"
    and free: "1 \<le> nfree (content s) (sb s)" and n: "unat bn < MAXFILE" and m: "m < NINDIRECT" "unat bn = NDIRECT + m"
    and zero: "file_addr (content s) (inodes s ip) (unat bn) = 0" and ind: "addrs (inodes s ip) ! NDIRECT \<noteq> 0"
  shows "\<exists>a s'. bmap ip bn s = Some (a, s') \<and> tx {} k s' \<and> bmapped ip (unat bn) a s s' \<and>
    nfree (content s) (sb s) \<le> nfree (content s') (sb s) + 1"
proof -
  have nd: "\<not> unat bn < NDIRECT" using m by simp
  have e: "get32 (content s (addrs (inodes s ip) ! NDIRECT)) (4 * m) = 0" using zero ind m by (simp add: file_addr_def)
  obtain bp s1 a s2 s3 s' where q: "bufcache_read (addrs (inodes s ip) ! NDIRECT) s = Some (bp, s1)"
      "bdata (bufs s1 bp) = content s (addrs (inodes s ip) ! NDIRECT)" "balloc s1 = Some (a, s2)"
      "log_write bp (set_data bp (put32 (4 * m) a (bdata (bufs s2 bp))) s2) = Some s3"
      "bufcache_release bp s3 = Some s'" "tx {} k s'" "bmapped ip (NDIRECT + m) a s s'"
      "nfree (content s) (sb s) \<le> nfree (content s') (sb s) + 1"
    using bmap_entry [OF t f ok _ m(1) refl ind e] free by auto
  have "a \<noteq> 0" using q(7) by (simp add: bmapped_def)
  then have "bmap ip bn s = Some (a, s')" using q(1-5) e ind nd m by (simp add: bmap_def Let_def)
  then show ?thesis using q(6-8) m(2) by auto
qed

lemma bmap_new_indirect:
  assumes t: "tx {} (k + 5) s" and f: "file_ok (content s) (sb s) (inodes s ip)" and ok: "bitmap_ok {} s"
    and free: "2 \<le> nfree (content s) (sb s)" and n: "unat bn < MAXFILE" and m: "m < NINDIRECT" "unat bn = NDIRECT + m"
    and zero: "file_addr (content s) (inodes s ip) (unat bn) = 0" and ind: "addrs (inodes s ip) ! NDIRECT = 0"
  shows "\<exists>a s'. bmap ip bn s = Some (a, s') \<and> tx {} k s' \<and> bmapped ip (unat bn) a s s' \<and>
    nfree (content s) (sb s) \<le> nfree (content s') (sb s) + 2"
proof -
  have nd: "\<not> unat bn < NDIRECT" using m by simp
  have pos: "0 < nfree (content s) (sb s)" using free by simp
  have t5: "tx {} (Suc (Suc (Suc (Suc (Suc k))))) s" using tx_less [OF t] by simp
  obtain i s0 s1 where r: "balloc s = Some (i, s0)" "i \<noteq> 0"
      "s1 = upd_inode ip (\<lambda>x. x\<lparr>addrs := (addrs x)[NDIRECT := i]\<rparr>) s0" "tx {} (Suc (Suc (Suc k))) s1" "kept s s1"
      "inodes s1 = (inodes s)(ip := (inodes s ip)\<lparr>addrs := (addrs (inodes s ip))[NDIRECT := i]\<rparr>)"
      "file_ok (content s1) (sb s) (inodes s1 ip)" "bitmap_ok {} s1"
      "\<forall>i<MAXFILE. file_addr (content s1) (inodes s1 ip) i = file_addr (content s) (inodes s ip) i"
      "nfree (content s1) (sb s) = nfree (content s) (sb s) - 1"
      "\<forall>b. data_block (content s) (sb s) b \<longrightarrow> b \<noteq> i \<and> data_block (content s1) (sb s) b \<and> content s1 b = content s b"
      "\<forall>b. others ip s b \<longrightarrow> others ip s1 b"
    using bmap_indirect_block [OF t5 f ok pos ind] by blast
  have len: "length (addrs (inodes s ip)) = 13" using f by (simp add: file_ok_def)
  have sb1: "sb s1 = sb s" using r(5) by (simp add: kept_def)
  have ind1: "i = addrs (inodes s1 ip) ! NDIRECT" using r(6) len by simp
  have "file_addr (content s1) (inodes s1 ip) (unat bn) = 0" using r(9) zero n by simp
  then have e: "get32 (content s1 i) (4 * m) = 0" using m(2) r(2) unfolding ind1 by (simp add: file_addr_def)
  have f1: "file_ok (content s1) (sb s1) (inodes s1 ip)" and n1: "0 < nfree (content s1) (sb s1)"
    using r(7,10) free sb1 by simp_all
  obtain bp s2 a s3 s4 s' where q: "bufcache_read i s1 = Some (bp, s2)" "bdata (bufs s2 bp) = content s1 i"
      "balloc s2 = Some (a, s3)" "log_write bp (set_data bp (put32 (4 * m) a (bdata (bufs s3 bp))) s3) = Some s4"
      "bufcache_release bp s4 = Some s'" "tx {} k s'" "bmapped ip (NDIRECT + m) a s1 s'"
      "nfree (content s1) (sb s) \<le> nfree (content s') (sb s) + 1"
    using bmap_entry [OF r(4) f1 r(8) n1 m(1) ind1 r(2) e] sb1 by auto
  have "a \<noteq> 0" using q(7) by (simp add: bmapped_def)
  then have "bmap ip bn s = Some (a, s')" using q(1-5) e ind nd m r(1-3) by (simp add: bmap_def Let_def)
  moreover have "bmapped ip (NDIRECT + m) a s s'"
    using bmapped_after_indirect [OF r(5,6) len r(9,11,12) q(7)] m(1) by simp
  ultimately show ?thesis using q(6,8) m(2) r(10) by auto
qed

lemma bmap_ok:
  assumes t: "tx {} (k + 5) s" and f: "file_ok (content s) (sb s) (inodes s ip)" and ok: "bitmap_ok {} s"
    and free: "2 \<le> nfree (content s) (sb s)" and n: "unat bn < MAXFILE"
  shows "\<exists>a s'. bmap ip bn s = Some (a, s') \<and> tx {} k s' \<and> bmapped ip (unat bn) a s s' \<and>
    nfree (content s) (sb s) \<le> nfree (content s') (sb s) + 2"
proof (cases "file_addr (content s) (inodes s ip) (unat bn) = 0")
  case False
  then obtain s' where "bmap ip bn s = Some (file_addr (content s) (inodes s ip) (unat bn), s')" "tx {} (k + 5) s'"
      "content s' = content s" "frame s' = frame s"
    using bmap_hit [OF t f n refl] by blast
  then show ?thesis using bmapped_hit [OF f ok] False tx_less [of "{}" "k + 5" s' k] by auto
next
  case zero: True
  show ?thesis
  proof (cases "unat bn < NDIRECT")
    case True
    then have a0: "addrs (inodes s ip) ! unat bn = 0" using zero by (simp add: file_addr_def)
    have t': "tx {} (Suc (Suc k)) s" using tx_less [OF t] by simp
    show ?thesis using bmap_direct [OF t' f ok _ True a0] free by fastforce
  next
    case False
    define m where "m = unat bn - NDIRECT"
    have m: "m < NINDIRECT" "unat bn = NDIRECT + m" using False n by (simp_all add: m_def)
    have t3: "tx {} (Suc (Suc (Suc k))) s" using tx_less [OF t] by simp
    show ?thesis
    proof (cases "addrs (inodes s ip) ! NDIRECT = 0")
      case ind: False
      show ?thesis using bmap_new_entry [OF t3 f ok _ n m zero ind] free by fastforce
    next
      case ind: True
      show ?thesis by (rule bmap_new_indirect [OF t f ok free n m zero ind])
    qed
  qed
qed

end
