(* ===== verification/FsFile.thy ===== *)
theory FsFile
  imports FsSpec VmCopy
begin

text \<open>
  The contents of files: \<open>readi\<close> and \<open>writei\<close> of \<^verbatim>\<open>kernel/fs.c\<close> against the abstract view of a file as a function
  from positions to bytes, and directories as lists of entries.
\<close>

section \<open>A file as its bytes\<close>

definition fdata :: "'a fs_scheme \<Rightarrow> nat \<Rightarrow> nat \<Rightarrow> u8" where
  "fdata s ip j =
     (let a = file_addr (content s) (inodes s ip) (j div BSIZE) in if a = 0 then 0 else content s a ! (j mod BSIZE))"

text \<open>The position exists: it lies below the largest size of a file.\<close>

abbreviation (input) FILEMAX :: nat where "FILEMAX \<equiv> MAXFILE * BSIZE"

text \<open>A file without holes: every block below its size is allocated.\<close>

definition no_holes :: "'a fs_scheme \<Rightarrow> nat \<Rightarrow> bool" where
  "no_holes s ip \<longleftrightarrow> unat (isize (inodes s ip)) \<le> FILEMAX \<and>
     (\<forall>j<unat (isize (inodes s ip)). file_addr (content s) (inodes s ip) (j div BSIZE) \<noteq> 0)"

lemma bmapped_fdata:
  assumes f: "file_ok (content s) (sb s) (inodes s ip)" and m: "bmapped ip bn a s s'" and j: "j < FILEMAX"
  shows "fdata s' ip j = fdata s ip j"
proof -
  define i where "i = j div BSIZE"
  define old where "old = file_addr (content s) (inodes s ip) i"
  have i: "i < MAXFILE" using j by (simp add: i_def less_mult_imp_div_less)
  have jm: "j mod BSIZE < BSIZE" by simp
  have keep: "content s' old = content s old" if "old \<noteq> 0"
    using f m i that by (simp add: file_ok_def bmapped_def old_def)
  have new: "file_addr (content s') (inodes s' ip) i = (if i = bn then a else old)"
    using m i by (simp add: bmapped_def old_def)
  have a: "a \<noteq> 0" "if old \<noteq> 0 then a = old else content s' a = replicate BSIZE 0" if "i = bn"
    using m that by (simp_all add: bmapped_def old_def)
  have fd: "fdata s ip j = (if old = 0 then 0 else content s old ! (j mod BSIZE))" by (simp add: fdata_def old_def i_def Let_def)
  have fd': "fdata s' ip j = (if (if i = bn then a else old) = 0 then 0 else content s' (if i = bn then a else old) ! (j mod BSIZE))"
    using new by (simp add: fdata_def i_def Let_def)
  show ?thesis unfolding fd fd' using a keep jm by (cases "i = bn"; cases "old = 0") simp_all
qed

text \<open>Overwriting the block \<open>a\<close> of the file.\<close>

lemma file_block_write:
  assumes f: "file_ok (content s) (sb s) (inodes s ip)" and ok: "bitmap_ok {} s" and bn: "bn < MAXFILE"
    and a: "a = file_addr (content s) (inodes s ip) bn" "a \<noteq> 0"
    and s': "content s' = (content s)(a := d)" "frame s' = frame s" and d: "length d = BSIZE"
  shows "file_ok (content s') (sb s') (inodes s' ip)" "bitmap_ok {} s'" "nfree (content s') (sb s) = nfree (content s) (sb s)"
    "others ip s b \<Longrightarrow> others ip s' b \<and> content s' b = content s b"
    "j < FILEMAX \<Longrightarrow> fdata s' ip j = (if j div BSIZE = bn then d ! (j mod BSIZE) else fdata s ip j)"
    "file_addr (content s') (inodes s' ip) i = file_addr (content s) (inodes s ip) i"
proof -
  define x where "x = inodes s ip"
  have k: "sb s' = sb s" "inodes s' = inodes s" using frame_fs [OF s'(2)] by simp_all
  have da: "data_block (content s) (sb s) a" "a \<noteq> addrs x ! NDIRECT" using f a bn by (auto simp: file_ok_def x_def)
  have bm: "content s' c = content s c" if "c \<in> bmap_blocks (sb s)" for c
    using that da(1) by (auto simp: s'(1) data_block_def)
  have db: "data_block (content s') (sb s) = data_block (content s) (sb s)" by (intro ext data_block_other [OF bm])
  have fa: "file_addr (content s') x i = file_addr (content s) x i" for i
    by (rule file_addr_cong) (use da(2) in \<open>auto simp: s'(1)\<close>)
  then show "file_addr (content s') (inodes s' ip) i = file_addr (content s) (inodes s ip) i" by (simp add: k x_def)
  show "file_ok (content s') (sb s') (inodes s' ip)" using f fa db by (simp add: file_ok_def k x_def)
  show "bitmap_ok {} s'" by (rule bitmap_ok_other [OF ok k(1) _ bm]) (simp_all add: frame_fs [OF s'(2)])
  show "nfree (content s') (sb s) = nfree (content s) (sb s)" by (rule nfree_other [OF bm])
  show "others ip s' b \<and> content s' b = content s b" if "others ip s b"
  proof -
    have "b \<noteq> a" using that a bn by (auto simp: others_def)
    then show ?thesis using that db fa by (simp add: others_def k x_def s'(1))
  qed
  show "fdata s' ip j = (if j div BSIZE = bn then d ! (j mod BSIZE) else fdata s ip j)" if j: "j < FILEMAX"
  proof -
    define i where "i = j div BSIZE"
    have i: "i < MAXFILE" using j by (simp add: i_def less_mult_imp_div_less)
    have "file_addr (content s) x i \<noteq> a" if "file_addr (content s) x i \<noteq> 0" "i \<noteq> bn"
      using f a bn i that unfolding file_ok_def x_def by metis
    then show ?thesis using a fa by (auto simp: fdata_def Let_def k s'(1) simp flip: i_def x_def)
  qed
qed

section \<open>Sources of a write\<close>

text \<open>\<open>supplies src obj data m\<close>: from \<open>src\<close> the bytes \<open>data\<close> can be copied in any pieces.\<close>

definition supplies :: "addr \<Rightarrow> u8 list \<Rightarrow> u8 list \<Rightarrow> kmem \<Rightarrow> bool" where
  "supplies src obj data k \<longleftrightarrow>
     (\<forall>t m. t + m \<le> length data \<longrightarrow>
        (case addr_add src t of
           User pt a \<Rightarrow> copy_from_user pt a m k = Some ((0, get_at t m data), k)
         | Phys a \<Rightarrow> ld_bytes (pmem k) a m = get_at t m data
         | Local i \<Rightarrow> get_at i m obj = get_at t m data))"

lemma addr_add_add: "addr_add (addr_add a t) u = addr_add a (t + u)"
  by (cases a) simp_all

lemma addr_add_0 [simp]: "addr_add a 0 = a"
  by (cases a) simp_all

lemma get_at_drop: "get_at t m (drop n d) = get_at (n + t) m d"
  by (simp add: get_at_def add.commute)

lemma supplies_step: "supplies src obj data k \<Longrightarrow> n \<le> length data \<Longrightarrow> supplies (addr_add src n) obj (drop n data) k"
  unfolding supplies_def addr_add_add get_at_drop by auto

lemma supplies_copyin:
  assumes "supplies src obj data (km s)" and "m \<le> length data"
  shows "either_copyin src m obj s = Some (0, take m data, s)"
proof -
  have "case src of User pt a \<Rightarrow> copy_from_user pt a m (km s) = Some ((0, get_at 0 m data), km s)
         | Phys a \<Rightarrow> ld_bytes (pmem (km s)) a m = get_at 0 m data
         | Local i \<Rightarrow> get_at i m obj = get_at 0 m data"
    using assms(1) [unfolded supplies_def, THEN spec, THEN spec, of 0 m] assms(2) by simp
  then show ?thesis by (cases src) (simp_all add: either_copyin_def get_at_def)
qed

lemma supplies_local:
  assumes "get_at i (length data) obj = data"
  shows "supplies (Local i) obj data k"
proof -
  have "get_at (i + t) m obj = get_at t m data" if "t + m \<le> length data" for t m
  proof -
    have "get_at t m data = take m (drop t (take (length data) (drop i obj)))"
      using assms by (metis get_at_def)
    also have "\<dots> = take m (drop (i + t) obj)" using that by (simp add: drop_take add.commute min_def)
    finally show ?thesis by (simp add: get_at_def)
  qed
  then show ?thesis by (simp add: supplies_def)
qed

lemma uaddrs_part:
  "length (uaddrs m root va n) = n \<Longrightarrow> t + l \<le> n \<Longrightarrow> uaddrs m root (va + of_nat t) l = take l (drop t (uaddrs m root va n))"
proof (induction n arbitrary: va t l)
  case (Suc n)
  obtain p where p: "uaddr m root va = Some p" using Suc.prems(1) by (cases "uaddr m root va") simp_all
  have full: "length (uaddrs m root (va + 1) n) = n" using Suc.prems(1) p by simp
  show ?case
  proof (cases t)
    case 0
    show ?thesis
    proof (cases l)
      case (Suc l')
      then have "uaddrs m root (va + 1) l' = take l' (uaddrs m root (va + 1) n)"
        using Suc.IH [OF full, of 0 l'] Suc.prems(2) 0 by simp
      then show ?thesis using 0 Suc p by simp
    qed simp
  next
    case (Suc t')
    then show ?thesis using Suc.IH [OF full, of t' l] Suc.prems(2) p by (simp add: add.assoc)
  qed
qed simp

lemma supplies_user:
  assumes "pt_inv kend F (pmem k) pt" and "length (uaddrs (pmem k) pt va n) = n" and "data = map (pmem k) (uaddrs (pmem k) pt va n)"
  shows "supplies (User pt va) obj data k"
proof -
  have "copy_from_user pt (va + of_nat t) m k = Some ((0, get_at t m data), k)" if "t + m \<le> length data" for t m
  proof -
    have le: "t + m \<le> n" using that assms(2,3) by simp
    note part = uaddrs_part [OF assms(2) le]
    have "length (uaddrs (pmem k) pt (va + of_nat t) m) = m" unfolding part using le assms(2) by simp
    moreover have "map (pmem k) (uaddrs (pmem k) pt (va + of_nat t) m) = get_at t m data"
      unfolding part assms(3) by (simp add: get_at_def take_map drop_map)
    ultimately show ?thesis using copy_from_user_eq [OF assms(1), of "va + of_nat t" m] by simp
  qed
  then show ?thesis by (simp add: supplies_def)
qed

section \<open>Writing\<close>

text \<open>How many blocks a range of \<open>n\<close> bytes from \<open>off\<close> on touches.\<close>

definition blocks_touched :: "nat \<Rightarrow> nat \<Rightarrow> nat" where
  "blocks_touched off n = (if n = 0 then 0 else Suc ((off + n - 1) div BSIZE - off div BSIZE))"

lemma unat_chunk_in_block: "unat (chunk_in_block left off) = min (unat left) (BSIZE - unat off mod BSIZE)"
proof -
  have "unat (off mod of_nat BSIZE) = unat off mod BSIZE" by (simp add: unat_mod)
  moreover have "unat (of_nat BSIZE - off mod of_nat BSIZE :: u32) = BSIZE - unat (off mod of_nat BSIZE)"
  proof -
    have "off mod 1024 \<le> 1024" by (simp add: word_le_nat_alt unat_mod)
    then show ?thesis by (simp add: unat_sub)
  qed
  ultimately show ?thesis unfolding chunk_in_block_def by (simp add: min_def word_le_nat_alt)
qed

lemma blocks_touched_step:
  assumes "0 < n" and "m = min n (BSIZE - off mod BSIZE)"
  shows "blocks_touched off n = Suc (blocks_touched (off + m) (n - m))" "0 < m" "m \<le> n"
    "off mod BSIZE + m \<le> BSIZE" "m < n \<Longrightarrow> (off + m) mod BSIZE = 0"
proof -
  have o: "off mod BSIZE < BSIZE" by simp
  then show m: "0 < m" "m \<le> n" "off mod BSIZE + m \<le> BSIZE" using assms by auto
  define q where "q = off div BSIZE"
  define r where "r = off mod BSIZE"
  have off: "off = q * BSIZE + r" "r < BSIZE" by (simp_all add: q_def r_def)
  show "(off + m) mod BSIZE = 0" if "m < n" using that assms(2) off by (simp add: r_def [symmetric])
  show "blocks_touched off n = Suc (blocks_touched (off + m) (n - m))"
  proof (cases "m < n")
    case True
    then have "m = BSIZE - r" using assms(2) by (simp add: r_def min_def split: if_splits)
    then have e: "off + m = (q + 1) * BSIZE" using off by (simp add: algebra_simps)
    have "(off + n - 1) div BSIZE \<ge> q + 1"
    proof -
      have "(q + 1) * BSIZE \<le> off + n - 1" using e True by linarith
      then have "(q + 1) * BSIZE div BSIZE \<le> (off + n - 1) div BSIZE" by (rule div_le_mono)
      then show ?thesis by simp
    qed
    moreover have "off + m + (n - m) = off + n" using True by simp
    moreover have "(off + m) div BSIZE = q + 1" using e by simp
    ultimately show ?thesis using True assms(1) by (simp add: blocks_touched_def q_def [symmetric])
  next
    case False
    then have "n = m" using m(2) by simp
    moreover from this have "(off + n - 1) div BSIZE = q" using m(1,3) off unfolding r_def [symmetric] by (intro div_nat_eqI) (simp_all add: algebra_simps)
    ultimately show ?thesis using assms(1) by (simp add: blocks_touched_def q_def [symmetric])
  qed
qed

text \<open>The bytes \<open>bs\<close> were written at \<open>off\<close>: the file has them there, and everything else is as it was.\<close>

definition mapped :: "'a fs_scheme \<Rightarrow> nat \<Rightarrow> nat \<Rightarrow> bool" where
  "mapped s ip i \<longleftrightarrow> file_addr (content s) (inodes s ip) i \<noteq> 0"

definition wrote :: "nat \<Rightarrow> nat \<Rightarrow> u8 list \<Rightarrow> 'a fs_scheme \<Rightarrow> 'a fs_scheme \<Rightarrow> bool" where
  "wrote ip off bs s s' \<longleftrightarrow>
     kept s s' \<and> (\<exists>as. inodes s' = (inodes s)(ip := (inodes s ip)\<lparr>addrs := as\<rparr>)) \<and>
     file_ok (content s') (sb s') (inodes s' ip) \<and> bitmap_ok {} s' \<and>
     (\<forall>j<FILEMAX. fdata s' ip j = (if off \<le> j \<and> j < off + length bs then bs ! (j - off) else fdata s ip j)) \<and>
     (\<forall>b. others ip s b \<longrightarrow> others ip s' b \<and> content s' b = content s b) \<and>
     (\<forall>i<MAXFILE. mapped s ip i \<longrightarrow> mapped s' ip i) \<and>
     (\<forall>j<FILEMAX. off \<le> j \<longrightarrow> j < off + length bs \<longrightarrow> mapped s' ip (j div BSIZE))"

lemma wrote_trans:
  assumes a: "wrote ip off bs s s1" and b: "wrote ip (off + length bs) cs s1 s2"
  shows "wrote ip off (bs @ cs) s s2"
proof -
  obtain as bs' where "inodes s1 = (inodes s)(ip := (inodes s ip)\<lparr>addrs := as\<rparr>)"
      "inodes s2 = (inodes s1)(ip := (inodes s1 ip)\<lparr>addrs := bs'\<rparr>)"
    using a b by (auto simp: wrote_def)
  then have "\<exists>as. inodes s2 = (inodes s)(ip := (inodes s ip)\<lparr>addrs := as\<rparr>)" by (intro exI [of _ bs']) simp
  moreover have "kept s s2" using a b by (simp add: wrote_def kept_def)
  moreover have "fdata s2 ip j = (if off \<le> j \<and> j < off + length (bs @ cs) then (bs @ cs) ! (j - off) else fdata s ip j)"
    if "j < FILEMAX" for j
  proof -
    have "fdata s2 ip j = (if off + length bs \<le> j \<and> j < off + length bs + length cs then cs ! (j - (off + length bs)) else fdata s1 ip j)"
      "fdata s1 ip j = (if off \<le> j \<and> j < off + length bs then bs ! (j - off) else fdata s ip j)"
      using a b that by (simp_all add: wrote_def)
    then show ?thesis by (auto simp: nth_append diff_diff_left)
  qed
  moreover have "others ip s2 c \<and> content s2 c = content s c" if "others ip s c" for c using a b that by (simp add: wrote_def)
  moreover have "mapped s2 ip i" if "i < MAXFILE" "mapped s ip i \<or> mapped s1 ip i" for i
    using a b that by (auto simp: wrote_def)
  moreover have "mapped s2 ip (j div BSIZE)" if "j < FILEMAX" "off \<le> j" "j < off + length (bs @ cs)" for j
  proof (cases "j < off + length bs")
    case True
    moreover have "j div BSIZE < MAXFILE" using that(1) by (simp add: less_mult_imp_div_less)
    ultimately show ?thesis using a b that by (simp add: wrote_def)
  next
    case False
    then show ?thesis using b that by (simp add: wrote_def)
  qed
  ultimately show ?thesis using b unfolding wrote_def by (intro conjI) simp_all
qed

lemma in_block_iff:
  assumes "off mod BSIZE + m \<le> BSIZE"
  shows "off \<le> j \<and> j < off + m \<longleftrightarrow> j div BSIZE = off div BSIZE \<and> off mod BSIZE \<le> j mod BSIZE \<and> j mod BSIZE < off mod BSIZE + m"
    "j div BSIZE = off div BSIZE \<Longrightarrow> off mod BSIZE \<le> j mod BSIZE \<Longrightarrow> j mod BSIZE - off mod BSIZE = j - off"
proof -
  have e: "off = off div BSIZE * BSIZE + off mod BSIZE" "j = j div BSIZE * BSIZE + j mod BSIZE" by simp_all
  have o: "off mod BSIZE < BSIZE" "j mod BSIZE < BSIZE" by simp_all
  show "off \<le> j \<and> j < off + m \<longleftrightarrow> j div BSIZE = off div BSIZE \<and> off mod BSIZE \<le> j mod BSIZE \<and> j mod BSIZE < off mod BSIZE + m"
  proof (cases "j div BSIZE = off div BSIZE")
    case True
    then show ?thesis using e by linarith
  next
    case False
    then have "j div BSIZE < off div BSIZE \<or> off div BSIZE < j div BSIZE" by linarith
    then have "j div BSIZE * BSIZE + BSIZE \<le> off div BSIZE * BSIZE \<or> off div BSIZE * BSIZE + BSIZE \<le> j div BSIZE * BSIZE"
      by (auto simp: Suc_le_eq simp flip: mult_Suc)
    then have "j < off \<or> off + m \<le> j" using e o assms by linarith
    then show ?thesis using False by auto
  qed
  show "j mod BSIZE - off mod BSIZE = j - off" if "j div BSIZE = off div BSIZE" "off mod BSIZE \<le> j mod BSIZE"
    using e that by (metis add_diff_cancel_left)
qed

lemma wrote_block:
  assumes f: "file_ok (content s) (sb s) (inodes s ip)" and m: "bmapped ip (off div BSIZE) a s s1"
    and o: "off mod BSIZE + length bs \<le> BSIZE" "off div BSIZE < MAXFILE" and len: "length (content s1 a) = BSIZE"
    and s': "content s' = (content s1)(a := put_at (off mod BSIZE) bs (content s1 a))" "frame s' = frame s1"
  shows "wrote ip off bs s s'" "nfree (content s') (sb s) = nfree (content s1) (sb s)"
proof -
  define d where "d = put_at (off mod BSIZE) bs (content s1 a)"
  have d: "length d = BSIZE" using o len by (simp add: d_def)
  have sb1: "sb s1 = sb s" and a: "a = file_addr (content s1) (inodes s1 ip) (off div BSIZE)" "a \<noteq> 0"
    and f1: "file_ok (content s1) (sb s1) (inodes s1 ip)" and ok1: "bitmap_ok {} s1"
    using m o(2) by (auto simp: bmapped_def kept_def)
  note w = file_block_write [OF f1 ok1 o(2) a s'(1) [folded d_def] s'(2) d]
  have k: "kept s1 s'" "inodes s' = inodes s1" using frame_kept [OF s'(2)] by simp_all
  have fd: "fdata s' ip j = (if off \<le> j \<and> j < off + length bs then bs ! (j - off) else fdata s ip j)" if j: "j < FILEMAX" for j
  proof (cases "j div BSIZE = off div BSIZE")
    case True
    have "fdata s1 ip j = content s1 a ! (j mod BSIZE)" using a True by (simp add: fdata_def Let_def)
    moreover have "d ! (j mod BSIZE) = (if off mod BSIZE \<le> j mod BSIZE \<and> j mod BSIZE < off mod BSIZE + length bs
        then bs ! (j mod BSIZE - off mod BSIZE) else content s1 a ! (j mod BSIZE))"
      unfolding d_def using o(1) len by (intro nth_put_at) simp_all
    ultimately show ?thesis
      using w(5) [OF j] True in_block_iff [OF o(1), of j] bmapped_fdata [OF f m j] by auto
  next
    case False
    then show ?thesis using w(5) [OF j] in_block_iff(1) [OF o(1), of j] bmapped_fdata [OF f m j] by auto
  qed
  have oth: "others ip s' b \<and> content s' b = content s b" if "others ip s b" for b
  proof -
    have "others ip s1 b" "content s1 b = content s b" using m that by (simp_all add: bmapped_def) (simp add: others_def)
    then show ?thesis using w(4) by simp
  qed
  have map: "mapped s' ip i" if "i < MAXFILE" "mapped s ip i \<or> i = off div BSIZE" for i
  proof -
    have "file_addr (content s1) (inodes s1 ip) i = (if i = off div BSIZE then a else file_addr (content s) (inodes s ip) i)"
      using m that(1) by (simp add: bmapped_def)
    then show ?thesis using w(6) [of i] a(2) that(2) by (auto simp: mapped_def split: if_splits)
  qed
  have map': "mapped s' ip (j div BSIZE)" if "off \<le> j" "j < off + length bs" for j
    using map [of "off div BSIZE"] o(2) in_block_iff(1) [OF o(1), of j] that by auto
  show "nfree (content s') (sb s) = nfree (content s1) (sb s)" using w(3) sb1 by simp
  have "kept s s'" "\<exists>as. inodes s' = (inodes s)(ip := (inodes s ip)\<lparr>addrs := as\<rparr>)"
    using m k by (auto simp: bmapped_def kept_def)
  then show "wrote ip off bs s s'" unfolding wrote_def using w(1,2) fd oth map map' by simp
qed

lemma file_ok_home:
  assumes "file_ok c x y" "i < MAXFILE" "file_addr c y i \<noteq> 0"
  shows "home (sb_logstart x) (file_addr c y i)"
  using assms unfolding file_ok_def data_block_def by blast

lemma bmapped_home:
  assumes m: "bmapped ip n a s s'" and ok: "bitmap_ok {} s" and n: "n < MAXFILE"
  shows "home (log_start s') a"
proof -
  have "file_ok (content s') (sb s) (inodes s' ip)" "file_addr (content s') (inodes s' ip) n = a" "a \<noteq> 0" "log_start s' = log_start s"
    using m n by (simp_all add: bmapped_def kept_def)
  then show ?thesis using file_ok_home [of "content s'" "sb s" "inodes s' ip" n] n bitmap_okD(1) [OF ok] by simp
qed

lemma writei_step:
  assumes t: "tx {} (k + 6) s" and f: "file_ok (content s) (sb s) (inodes s ip)" and ok: "bitmap_ok {} s"
    and free: "2 \<le> nfree (content s) (sb s)" and n: "tot < n" "left = unat n - unat tot" "unat off + left \<le> FILEMAX"
    and src: "supplies src obj data (km s)" "length data = left" and m: "m = min left (BSIZE - unat off mod BSIZE)"
  shows "\<exists>s'. writei_loop (Suc fuel) tot n off src ip obj s =
      writei_loop fuel (tot + of_nat m) n (off + of_nat m) (addr_add src m) ip obj s' \<and>
    tx {} k s' \<and> wrote ip (unat off) (take m data) s s' \<and> nfree (content s) (sb s) \<le> nfree (content s') (sb s) + 2"
proof -
  define bn where "bn = off div of_nat BSIZE"
  have left: "0 < left" using n(1,2) by (simp add: word_less_nat_alt)
  note st = blocks_touched_step [OF left m]
  have ubn: "unat bn = unat off div BSIZE" by (simp add: bn_def unat_div)
  have obn: "unat off div BSIZE < MAXFILE" using n(3) left by (simp add: less_mult_imp_div_less)
  have t': "tx {} (Suc k + 5) s" using t by (simp add: add.commute)
  obtain a s1 where b: "bmap ip bn s = Some (a, s1)" "tx {} (Suc k) s1" "bmapped ip (unat off div BSIZE) a s s1"
      "nfree (content s) (sb s) \<le> nfree (content s1) (sb s) + 2"
    using bmap_ok [OF t' f ok free, of bn] obn unfolding ubn by blast
  have a: "a \<noteq> 0" and km1: "km s1 = km s" using b(3) by (simp_all add: bmapped_def kept_def)
  note h = bmapped_home [OF b(3) ok obn]
  define d where "d = put_at (unat off mod BSIZE) (take m data) (content s1 a)"
  have lt: "length (take m data) = m" using src(2) st(3) by simp
  have len: "length (content s1 a) = BSIZE" using tx_length [OF b(2)] .
  have ld: "length d = BSIZE" using st(4) lt len by (simp add: d_def)
  obtain i s2 s3 s4 where q: "bufcache_read a s1 = Some (i, s2)" "bdata (bufs s2 i) = content s1 a" "frame s2 = frame s1"
      "log_write i (set_data i d s2) = Some s3" "bufcache_release i s3 = Some s4" "tx {} k s4"
      "content s4 = (content s1)(a := d)" "frame s4 = frame s1"
    using tx_modify [OF b(2) h _ _ ld] by auto
  have km2: "km s2 = km s" using frame_fs(4) [OF q(3)] km1 by simp
  have c: "either_copyin src m obj s2 = Some (0, take m data, s2)"
    using supplies_copyin [of src obj data s2 m] src st(3) km2 by simp
  have um: "unat (chunk_in_block (n - tot) off) = m" unfolding unat_chunk_in_block m
    using n(1,2) by (simp add: unat_sub less_imp_le)
  then have cm: "chunk_in_block (n - tot) off = of_nat m" by auto
  have uo: "unat (off mod of_nat BSIZE) = unat off mod BSIZE" by (simp add: unat_mod)
  have "writei_loop (Suc fuel) tot n off src ip obj s =
      writei_loop fuel (tot + of_nat m) n (off + of_nat m) (addr_add src m) ip obj s4"
    using b(1) a q(1,2,4,5) c n(1) uo um cm by (simp add: Let_def d_def bn_def)
  moreover have "wrote ip (unat off) (take m data) s s4" "nfree (content s4) (sb s) = nfree (content s1) (sb s)"
    using wrote_block [OF f b(3) _ obn len q(7) [unfolded d_def] q(8)] st(4) lt by auto
  ultimately show ?thesis using q(6) b(4) by (intro exI [of _ s4]) simp
qed

lemma wrote_nothing:
  assumes "file_ok (content s) (sb s) (inodes s ip)" "bitmap_ok {} s"
  shows "wrote ip off [] s s"
  using assms by (auto simp: wrote_def kept_def intro!: exI [of _ "addrs (inodes s ip)"])

lemma writei_loop_ok:
  assumes "tx {} (k + 6 * c) s" and "file_ok (content s) (sb s) (inodes s ip)" and "bitmap_ok {} s"
    and "2 * c \<le> nfree (content s) (sb s)" and "tot \<le> n" "left = unat n - unat tot" "unat off + left \<le> FILEMAX"
    and "supplies src obj data (km s)" "length data = left" and "c = blocks_touched (unat off) left" and "left \<le> fuel"
  shows "\<exists>s'. writei_loop fuel tot n off src ip obj s = Some (n, off + (n - tot), s') \<and> tx {} k s' \<and>
    wrote ip (unat off) data s s' \<and> nfree (content s) (sb s) \<le> nfree (content s') (sb s) + 2 * c"
  using assms
proof (induction fuel arbitrary: c s tot off src data left)
  case 0
  then have e: "unat n = unat tot" "data = []" "c = 0" by (auto simp: word_le_nat_alt blocks_touched_def)
  then have "n = tot" by (intro unsigned_word_eqI [where 'a = nat])
  then show ?case using 0 e wrote_nothing [OF 0(2,3)] by simp
next
  case (Suc fuel)
  show ?case
  proof (cases "left = 0")
    case True
    then have e: "unat n = unat tot" "data = []" "c = 0" using Suc.prems by (auto simp: word_le_nat_alt blocks_touched_def)
    then have "n = tot" by (intro unsigned_word_eqI [where 'a = nat])
    then show ?thesis using Suc.prems e wrote_nothing [OF Suc.prems(2,3)] by simp
  next
    case False
    define m where "m = min left (BSIZE - unat off mod BSIZE)"
    note st = blocks_touched_step [OF False [unfolded neq0_conv] m_def]
    define c' where "c' = blocks_touched (unat off + m) (left - m)"
    have c: "c = Suc c'" using st(1) Suc.prems(10) by (simp add: c'_def)
    have lt: "tot < n" using False Suc.prems(6) by (simp add: word_less_nat_alt)
    have t: "tx {} (k + 6 * c' + 6) s" and fr: "2 \<le> nfree (content s) (sb s)" using Suc.prems(1,4) by (simp_all add: c ac_simps)
    obtain s1 where w: "writei_loop (Suc fuel) tot n off src ip obj s =
        writei_loop fuel (tot + of_nat m) n (off + of_nat m) (addr_add src m) ip obj s1"
      "tx {} (k + 6 * c') s1" "wrote ip (unat off) (take m data) s s1" "nfree (content s) (sb s) \<le> nfree (content s1) (sb s) + 2"
      using writei_step [OF t Suc.prems(2,3) fr lt Suc.prems(6-9) m_def] by blast
    have um: "unat (of_nat m :: u32) = m" using st(3) Suc.prems(6) unat_of_nat_less [of m n] by (cases "m = unat n") auto
    have ut: "unat (tot + of_nat m) = unat tot + m"
      using st(3) Suc.prems(6) lt unsigned_less [where 'a = nat and w = n] by (subst unat_plus_no_wrap) (simp_all add: um word_less_nat_alt)
    have uo: "unat (off + of_nat m) = unat off + m"
      using st(3) Suc.prems(7) by (subst unat_plus_no_wrap) (simp_all add: um)
    have k1: "km s1 = km s" "sb s1 = sb s" using w(3) by (simp_all add: wrote_def kept_def)
    have "\<exists>s'. writei_loop fuel (tot + of_nat m) n (off + of_nat m) (addr_add src m) ip obj s1 =
        Some (n, off + of_nat m + (n - (tot + of_nat m)), s') \<and> tx {} k s' \<and>
        wrote ip (unat (off + of_nat m)) (drop m data) s1 s' \<and> nfree (content s1) (sb s1) \<le> nfree (content s') (sb s1) + 2 * c'"
    proof (rule Suc.IH [OF w(2)])
      show "file_ok (content s1) (sb s1) (inodes s1 ip)" "bitmap_ok {} s1" using w(3) by (simp_all add: wrote_def)
      show "2 * c' \<le> nfree (content s1) (sb s1)" using w(4) Suc.prems(4) k1 by (simp add: c)
      show "tot + of_nat m \<le> n" using ut st(3) Suc.prems(6) lt by (simp add: word_le_nat_alt word_less_nat_alt)
      show "supplies (addr_add src m) obj (drop m data) (km s1)"
        using supplies_step [OF Suc.prems(8)] st(3) Suc.prems(9) k1 by simp
      show "c' = blocks_touched (unat (off + of_nat m)) (left - m)" by (simp add: c'_def uo)
      show "left - m = unat n - unat (tot + of_nat m)" using ut Suc.prems(6) by simp
      show "unat (off + of_nat m) + (left - m) \<le> FILEMAX" unfolding uo using st(3) Suc.prems(7) by simp
      show "length (drop m data) = left - m" using Suc.prems(9) by simp
      show "left - m \<le> fuel" using st(2) Suc.prems(11) by linarith
    qed
    moreover have "off + of_nat m + (n - (tot + of_nat m)) = off + (n - tot)" by (simp add: algebra_simps)
    ultimately obtain s' where r: "writei_loop fuel (tot + of_nat m) n (off + of_nat m) (addr_add src m) ip obj s1 =
        Some (n, off + (n - tot), s')" "tx {} k s'" "wrote ip (unat off + m) (drop m data) s1 s'"
        "nfree (content s1) (sb s1) \<le> nfree (content s') (sb s1) + 2 * c'" unfolding uo by auto
    have "length (take m data) = m" using st(3) Suc.prems(9) by simp
    then have "wrote ip (unat off) (take m data @ drop m data) s s'" using wrote_trans [OF w(3)] r(3) by metis
    then show ?thesis using w(1,4) r(1,2,4) k1 by (simp add: c)
  qed
qed

text \<open>Storing the inode changes nothing of the file.\<close>

lemma file_inode_write:
  assumes f: "file_ok (content s) (sb s) (inodes s ip)" and ok: "bitmap_ok {} s"
    and s': "\<forall>c. c \<noteq> IBLOCK (inum (inodes s ip)) (sb s) \<longrightarrow> content s' c = content s c" "frame s' = frame s"
  shows "file_ok (content s') (sb s') (inodes s' ip)" "bitmap_ok {} s'" "others ip s' = others ip s"
    "j < FILEMAX \<Longrightarrow> fdata s' ip j = fdata s ip j" "mapped s' ip i = mapped s ip i"
    "nfree (content s') (sb s) = nfree (content s) (sb s)"
proof -
  define x where "x = inodes s ip"
  have k: "sb s' = sb s" "inodes s' = inodes s" using frame_fs [OF s'(2)] by simp_all
  have "IBLOCK (inum (inodes s ip)) (sb s) \<notin> bmap_blocks (sb s)" using f by (simp add: file_ok_def data_block_def)
  then have bm: "content s' c = content s c" if "c \<in> bmap_blocks (sb s)" for c using that s'(1) by metis
  then show "nfree (content s') (sb s) = nfree (content s) (sb s)" by (rule nfree_other)
  have db: "data_block (content s') (sb s) = data_block (content s) (sb s)" by (intro ext data_block_other [OF bm])
  have fa: "file_addr (content s') x i = file_addr (content s) x i" for i
    by (rule file_addr_cong) (use f s'(1) in \<open>auto simp: file_ok_def x_def\<close>)
  then show "mapped s' ip i = mapped s ip i" by (simp add: mapped_def k x_def)
  show "file_ok (content s') (sb s') (inodes s' ip)" using f fa db by (simp add: file_ok_def k x_def)
  show "bitmap_ok {} s'" by (rule bitmap_ok_other [OF ok k(1) _ bm]) (simp_all add: frame_fs [OF s'(2)])
  show "others ip s' = others ip s" using db fa by (intro ext) (simp add: others_def k x_def)
  show "fdata s' ip j = fdata s ip j" if "j < FILEMAX"
  proof -
    have "j div BSIZE < MAXFILE" using that by (simp add: less_mult_imp_div_less)
    then have "content s' (file_addr (content s) x (j div BSIZE)) = content s (file_addr (content s) x (j div BSIZE))"
      if "file_addr (content s) x (j div BSIZE) \<noteq> 0" using f s'(1) that by (simp add: file_ok_def x_def)
    then show ?thesis using fa by (simp add: fdata_def Let_def k flip: x_def)
  qed
qed

lemma file_ok_isize: "file_ok c x (y\<lparr>isize := z\<rparr>) = file_ok c x y"
  by (simp add: file_ok_def file_addr_def)

lemma wrote_isize:
  "fdata (upd_inode ip (\<lambda>x. x\<lparr>isize := z\<rparr>) s) ip = fdata s ip" "mapped (upd_inode ip (\<lambda>x. x\<lparr>isize := z\<rparr>) s) ip = mapped s ip" "others ip (upd_inode ip (\<lambda>x. x\<lparr>isize := z\<rparr>) s) = others ip s"
proof -
  have fa: "file_addr c (y\<lparr>isize := z\<rparr>) i = file_addr c y i" for c y i by (simp add: file_addr_def)
  show "fdata (upd_inode ip (\<lambda>x. x\<lparr>isize := z\<rparr>) s) ip = fdata s ip" by (rule ext) (simp add: fdata_def fa Let_def)
  show "mapped (upd_inode ip (\<lambda>x. x\<lparr>isize := z\<rparr>) s) ip = mapped s ip" by (rule ext) (simp add: mapped_def fa)
  show "others ip (upd_inode ip (\<lambda>x. x\<lparr>isize := z\<rparr>) s) = others ip s" by (rule ext) (simp add: others_def fa)
qed

lemma sint_small: "unat n < 2 ^ 31 \<Longrightarrow> sint (n :: u32) = int (unat n)"
proof -
  assume "unat n < 2 ^ 31"
  then have "int (unat n) < int (2 ^ 31)" by (simp only: of_nat_less_iff)
  then show ?thesis using sint_u32 [of n] by simp
qed

lemma writei_ok:
  assumes t: "tx {} (k + 6 * c + 1) s" and f: "file_ok (content s) (sb s) (inodes s ip)" and ok: "bitmap_ok {} s"
    and free: "2 * c \<le> nfree (content s) (sb s)" and x: "x = inodes s ip" "off \<le> isize x" and n: "unat off + unat n \<le> FILEMAX"
    and src: "supplies src obj data (km s)" "length data = unat n" and c: "c = blocks_touched (unat off) (unat n)"
  shows "\<exists>s' as. writei ip src off n obj s = Some (int (unat n), s') \<and> tx {} k s' \<and> kept s s' \<and>
    inodes s' = (inodes s)(ip := x\<lparr>addrs := as, isize := max (isize x) (off + n)\<rparr>) \<and>
    file_ok (content s') (sb s') (inodes s' ip) \<and> bitmap_ok {} s' \<and>
    (\<forall>y. dinode (content s') (sb s) (inum x) y = same_dinode (inodes s' ip) y) \<and>
    (\<forall>j<FILEMAX. fdata s' ip j = (if unat off \<le> j \<and> j < unat off + unat n then data ! (j - unat off) else fdata s ip j)) \<and>
    (\<forall>b. others ip s b \<longrightarrow> b \<noteq> IBLOCK (inum x) (sb s) \<longrightarrow> others ip s' b \<and> content s' b = content s b) \<and>
    (no_holes s ip \<longrightarrow> no_holes s' ip) \<and> nfree (content s) (sb s) \<le> nfree (content s') (sb s) + 2 * c \<and>
    (\<forall>b. others ip s b \<longrightarrow> others ip s' b) \<and>
    (\<forall>j y. j \<noteq> inum x \<longrightarrow> others ip s (IBLOCK j (sb s)) \<longrightarrow> dinode (content s') (sb s) j y = dinode (content s) (sb s) j y)"
proof -
  have un: "unat (off + n) = unat off + unat n" using n by (subst unat_plus_no_wrap) simp_all
  have guards: "\<not> (off > isize x \<or> off + n < off)" "\<not> off + n > of_nat FILEMAX"
    using x(2) un n by (auto simp: word_less_nat_alt not_less word_le_nat_alt)
  have t': "tx {} ((k + 1) + 6 * c) s" using t by (simp add: ac_simps)
  obtain s1 where w: "writei_loop (unat n) 0 n off src ip obj s = Some (n, off + n, s1)" "tx {} (k + 1) s1"
      "wrote ip (unat off) data s s1" "nfree (content s) (sb s) \<le> nfree (content s1) (sb s) + 2 * c"
    using writei_loop_ok [OF t' f ok free, of 0 n "unat n" off src obj data "unat n"] n src c by auto
  obtain as where i1: "inodes s1 = (inodes s)(ip := x\<lparr>addrs := as\<rparr>)" and k1: "kept s s1"
    and f1: "file_ok (content s1) (sb s1) (inodes s1 ip)" "bitmap_ok {} s1"
    using w(3) x(1) by (auto simp: wrote_def)
  define z where "z = max (isize x) (off + n)"
  define s2 where "s2 = upd_inode ip (\<lambda>x. x\<lparr>isize := z\<rparr>) s1"
  have if_eq: "(if off + n > isize (inodes s1 ip) then upd_inode ip (\<lambda>x. x\<lparr>isize := off + n\<rparr>) s1 else s1) = s2"
    using i1 by (auto simp: s2_def z_def max_def upd_inode_def intro!: ext)
  have sb2: "sb s2 = sb s" using k1 by (simp add: s2_def kept_def)
  have i2: "inodes s2 = (inodes s)(ip := x\<lparr>addrs := as, isize := z\<rparr>)" using i1 by (simp add: s2_def)
  have f2: "file_ok (content s2) (sb s2) (inodes s2 ip)" and ok2: "bitmap_ok {} s2" using f1 by (simp_all add: s2_def file_ok_isize)
  define x2 where "x2 = inodes s2 ip"
  have x2: "inum x2 = inum x" "x2 = inodes s2 ip" using i2 by (simp_all add: x2_def)
  have t2: "tx {} (Suc k) s2" using w(2) by (simp add: s2_def)
  have ib: "length (addrs x2) = 13" "home (log_start s2) (IBLOCK (inum x2) (sb s2))"
    using f2 bitmap_okD(1) [OF ok2] by (simp_all add: file_ok_def data_block_def x2_def)
  obtain s3 where u: "iupdate ip s2 = Some s3" "tx {} k s3" "frame s3 = frame s2"
      "\<forall>c. c \<noteq> IBLOCK (inum x2) (sb s2) \<longrightarrow> content s3 c = content s2 c"
      "\<forall>i y. dinode (content s3) (sb s2) i y = (if i = inum x2 then same_dinode x2 y else dinode (content s2) (sb s2) i y)"
    using iupdate_ok [OF t2 x2(2) ib(1,2)] by auto
  note fi = file_inode_write [OF f2 ok2 u(4) [unfolded x2_def] u(3)]
  have i3: "inodes s3 = inodes s2" and k3: "kept s s3" using frame_kept [OF u(3)] k1 by (simp_all add: s2_def kept_def upd_inode_def)
  have small: "sint n = int (unat n)" using n by (intro sint_small) simp
  have "writei ip src off n obj s = Some (int (unat n), s3)"
    unfolding writei_def using guards w(1) if_eq u(1) small x(1) by (simp add: Let_def)
  moreover have "\<forall>y. dinode (content s3) (sb s) (inum x) y = same_dinode (inodes s3 ip) y"
    using u(5) x2 i3 sb2 by simp
  moreover have "fdata s3 ip j = (if unat off \<le> j \<and> j < unat off + unat n then data ! (j - unat off) else fdata s ip j)"
    if "j < FILEMAX" for j
    using fi(4) [OF that] w(3) that src(2) by (simp add: s2_def wrote_isize wrote_def)
  moreover have "others ip s3 b \<and> content s3 b = content s b" if "others ip s b" "b \<noteq> IBLOCK (inum x) (sb s)" for b
  proof -
    have "others ip s1 b" "content s1 b = content s b" using w(3) that(1) by (simp_all add: wrote_def)
    then show ?thesis using fi(3) u(4) that(2) x2(1) sb2 by (simp add: s2_def wrote_isize)
  qed
  moreover have "no_holes s3 ip" if h: "no_holes s ip"
  proof -
    have z: "unat z = max (unat (isize x)) (unat off + unat n)" unfolding z_def max_def using un by (simp add: word_le_nat_alt)
    have "mapped s3 ip (j div BSIZE)" if j: "j < unat z" for j
    proof -
      have l: "j < FILEMAX" "j div BSIZE < MAXFILE" using j z h n x(1) by (auto simp: no_holes_def less_mult_imp_div_less)
      show ?thesis
      proof (cases "j < unat (isize x)")
        case True
        then have "mapped s ip (j div BSIZE)" using h x(1) by (simp add: no_holes_def mapped_def)
        then show ?thesis using w(3) l fi(5) by (simp add: wrote_def s2_def wrote_isize)
      next
        case False
        then have "unat off \<le> j" "j < unat off + length data" using j z x(2) src(2) by (simp_all add: word_le_nat_alt)
        then show ?thesis using w(3) l fi(5) by (simp add: wrote_def s2_def wrote_isize)
      qed
    qed
    then show ?thesis using z h n x(1) i3 i2 by (simp add: no_holes_def mapped_def)
  qed
  moreover have "nfree (content s) (sb s) \<le> nfree (content s3) (sb s) + 2 * c" using w(4) fi(6) sb2 by (simp add: s2_def)
  moreover have "others ip s3 b" if "others ip s b" for b using w(3) that fi(3) by (simp add: wrote_def s2_def wrote_isize)
  moreover have "dinode (content s3) (sb s) j y = dinode (content s) (sb s) j y" if "j \<noteq> inum x" "others ip s (IBLOCK j (sb s))" for j y
  proof -
    have "content s2 (IBLOCK j (sb s)) = content s (IBLOCK j (sb s))" using w(3) that(2) by (simp add: wrote_def s2_def)
    then show ?thesis using u(5) x2(1) sb2 that(1) by (simp add: dinode_def)
  qed
  ultimately show ?thesis using u(2) k3 fi(1,2) i3 i2 by - (rule exI [of _ s3], rule exI [of _ as], simp add: z_def)
qed

section \<open>Reading\<close>

text \<open>Where \<open>readi\<close> puts the bytes, and when it can: an accessible user range, a kernel address or an object of
  the caller.\<close>

definition deliver :: "addr \<Rightarrow> u8 list \<Rightarrow> u8 list \<times> kmem \<Rightarrow> u8 list \<times> kmem" where
  "deliver dst bs ok =
     (case dst of
        User pt a \<Rightarrow> (fst ok, (snd ok)\<lparr>pmem := wr (uaddrs (pmem (snd ok)) pt a (length bs)) bs (pmem (snd ok))\<rparr>)
      | Phys a \<Rightarrow> (fst ok, (snd ok)\<lparr>pmem := st_bytes a bs (pmem (snd ok))\<rparr>)
      | Local i \<Rightarrow> (put_at i bs (fst ok), snd ok))"

definition takes :: "u64 \<Rightarrow> addr \<Rightarrow> nat \<Rightarrow> u8 list \<times> kmem \<Rightarrow> bool" where
  "takes kend dst n ok \<longleftrightarrow>
     (case dst of
        User pt a \<Rightarrow> pt_inv kend {} (pmem (snd ok)) pt \<and> user_space (pmem (snd ok)) pt \<and>
          length (uaddrs (pmem (snd ok)) pt a n) = n
      | Phys a \<Rightarrow> n < 2 ^ 64
      | Local i \<Rightarrow> i + n \<le> length (fst ok))"

lemma takes_copyout:
  assumes t: "takes kend dst n (obj, km s)" and n: "length bs \<le> n"
  shows "either_copyout dst bs obj s =
    Some (0, fst (deliver dst bs (obj, km s)), s\<lparr>km := snd (deliver dst bs (obj, km s))\<rparr>)"
proof (cases dst)
  case (User pt a)
  have u: "pt_inv kend {} (pmem (km s)) pt" "user_space (pmem (km s)) pt" "length (uaddrs (pmem (km s)) pt a n) = n"
    using t User by (simp_all add: takes_def)
  have "uaddrs (pmem (km s)) pt a (length bs) = take (length bs) (uaddrs (pmem (km s)) pt a n)"
    using uaddrs_part [OF u(3), of 0 "length bs"] n by simp
  then have "length (uaddrs (pmem (km s)) pt a (length bs)) = length bs" using u(3) n by simp
  then show ?thesis using copy_to_user_eq [OF u(1,2), of a bs] User by (simp add: either_copyout_def deliver_def)
qed (simp_all add: either_copyout_def deliver_def)

lemma uaddrs_split:
  assumes "length (uaddrs m pt a n) = n" and "l + r \<le> n"
  shows "uaddrs m pt a (l + r) = uaddrs m pt a l @ uaddrs m pt (a + of_nat l) r" "length (uaddrs m pt a l) = l"
proof -
  have e: "uaddrs m pt a l = take l (uaddrs m pt a n)" "uaddrs m pt (a + of_nat l) r = take r (drop l (uaddrs m pt a n))"
      "uaddrs m pt a (l + r) = take (l + r) (uaddrs m pt a n)"
    using uaddrs_part [OF assms(1), of 0 l] uaddrs_part [OF assms(1), of l r] uaddrs_part [OF assms(1), of 0 "l + r"] assms(2) by simp_all
  show "uaddrs m pt a (l + r) = uaddrs m pt a l @ uaddrs m pt (a + of_nat l) r" unfolding e by (simp add: take_add)
  show "length (uaddrs m pt a l) = l" unfolding e(1) using assms by simp
qed

lemma st_bytes_append:
  assumes small: "length bs + length cs < 2 ^ 64"
  shows "st_bytes (a + of_nat (length bs)) cs (st_bytes a bs m) = st_bytes a (bs @ cs) m"
proof
  fix x
  define r where "r = x - a"
  have r: "x - (a + of_nat (length bs)) = r - of_nat (length bs)" by (simp add: r_def)
  have ul: "unat (of_nat (length bs) :: u64) = length bs" using small by (simp add: unat_of_nat take_bit_nat_eq_self)
  show "st_bytes (a + of_nat (length bs)) cs (st_bytes a bs m) x = st_bytes a (bs @ cs) m x"
  proof (cases "length bs \<le> unat r")
    case True
    then have "of_nat (length bs) \<le> r" using ul by (simp add: word_le_nat_alt)
    then have "unat (r - of_nat (length bs)) = unat r - length bs" using ul by (simp add: unat_sub)
    then show ?thesis using True by (auto simp: st_bytes_def r nth_append simp flip: r_def)
  next
    case False
    have "unat (r - of_nat (length bs)) = 2 ^ 64 + unat r - length bs"
      using False ul unsigned_less [where 'a = nat and w = r] small
      by (simp add: unat_sub_if' word_le_nat_alt)
    then have "\<not> unat (r - of_nat (length bs)) < length cs" using small by simp
    then show ?thesis using False by (auto simp: st_bytes_def r nth_append simp flip: r_def)
  qed
qed

lemma deliver_append:
  assumes t: "takes kend dst n ok" and n: "length bs + length cs \<le> n"
  shows "deliver (addr_add dst (length bs)) cs (deliver dst bs ok) = deliver dst (bs @ cs) ok"
    "takes kend (addr_add dst (length bs)) (n - length bs) (deliver dst bs ok)"
proof -
  obtain obj k where ok: "ok = (obj, k)" by (cases ok)
  have "deliver (addr_add dst (length bs)) cs (deliver dst bs ok) = deliver dst (bs @ cs) ok \<and>
      takes kend (addr_add dst (length bs)) (n - length bs) (deliver dst bs ok)"
  proof (cases dst)
    case (User pt a)
    define m where "m = pmem k"
    define m1 where "m1 = wr (uaddrs m pt a (length bs)) bs m"
    have u: "pt_inv kend {} m pt" "user_space m pt" "length (uaddrs m pt a n) = n"
      using t User ok by (simp_all add: takes_def m_def)
    note sp = uaddrs_split [OF u(3) n]
    have "\<forall>q\<in>set (uaddrs m pt a (length bs)). \<exists>va. uaddr m pt va = Some q" using set_uaddrs by blast
    note uw = user_write [OF u(1,2) this, of bs, folded m1_def]
    have same: "uaddrs m1 pt b l = uaddrs m pt b l" for b l by (rule uaddrs_cong) (rule uw(3))
    have "wr (uaddrs m pt a (length bs + length cs)) (bs @ cs) m = wr (uaddrs m pt (a + of_nat (length bs)) (length cs)) cs m1"
      unfolding sp(1) m1_def by (rule wr_append) (rule sp(2))
    moreover have "length (uaddrs m pt (a + of_nat (length bs)) (n - length bs)) = n - length bs"
      using uaddrs_part [OF u(3), of "length bs" "n - length bs"] u(3) n by simp
    ultimately show ?thesis using User ok same uw(1,2) by (simp add: deliver_def takes_def flip: m_def m1_def)
  next
    case (Phys a)
    have "st_bytes (a + of_nat (length bs)) cs (st_bytes a bs (pmem k)) = st_bytes a (bs @ cs) (pmem k)"
      by (rule st_bytes_append) (use t Phys n in \<open>simp add: takes_def\<close>)
    then show ?thesis using Phys ok t by (simp add: deliver_def takes_def)
  next
    case (Local i)
    then have le: "i + n \<le> length obj" using t ok by (simp add: takes_def)
    have "i + (length bs + length cs) \<le> length obj" using le n by linarith
    then have "put_at (i + length bs) cs (put_at i bs obj) = put_at i (bs @ cs) obj"
      by (cases bs) (simp_all add: put_at_def min_def ac_simps)
    then show ?thesis using Local ok le n by (simp add: deliver_def takes_def)
  qed
  then show "deliver (addr_add dst (length bs)) cs (deliver dst bs ok) = deliver dst (bs @ cs) ok"
    "takes kend (addr_add dst (length bs)) (n - length bs) (deliver dst bs ok)" by simp_all
qed

lemma file_bytes_chunk:
  assumes "off mod BSIZE + m \<le> BSIZE" and "file_addr (content s) (inodes s ip) (off div BSIZE) = a" "a \<noteq> 0"
    and "length (content s a) = BSIZE"
  shows "get_at (off mod BSIZE) m (content s a) = map (fdata s ip) [off..<off + m]"
proof (rule nth_equalityI)
  fix i assume "i < length (get_at (off mod BSIZE) m (content s a))"
  then have i: "i < m" using assms(1,4) by simp
  have c: "(off + i) div BSIZE = off div BSIZE" "off mod BSIZE \<le> (off + i) mod BSIZE"
    using in_block_iff(1) [OF assms(1), of "off + i"] i by auto
  then have q: "(off + i) div BSIZE = off div BSIZE" "(off + i) mod BSIZE = off mod BSIZE + i"
    using in_block_iff(2) [OF assms(1) c] by linarith+
  show "get_at (off mod BSIZE) m (content s a) ! i = map (fdata s ip) [off..<off + m] ! i"
    using i assms q by (simp add: nth_get_at fdata_def Let_def)
qed (use assms in simp)

lemma readi_step:
  assumes t: "tx {} k s" and f: "file_ok (content s) (sb s) (inodes s ip)"
    and n: "tot < n" "left = unat n - unat tot" "unat off + left \<le> FILEMAX"
    and full: "file_addr (content s) (inodes s ip) (unat off div BSIZE) \<noteq> 0"
    and dst: "takes kend dst left (obj, km s)" and m: "m = min left (BSIZE - unat off mod BSIZE)"
    and bs: "bs = map (fdata s ip) [unat off..<unat off + m]" and d: "d = deliver dst bs (obj, km s)"
  shows "\<exists>s'. readi_loop (Suc fuel) tot n off dst ip obj s =
      readi_loop fuel (tot + of_nat m) n (off + of_nat m) (addr_add dst m) ip (fst d) s' \<and>
    tx {} k s' \<and> content s' = content s \<and> frame s' = frame (s\<lparr>km := snd d\<rparr>)"
proof -
  define bn where "bn = off div of_nat BSIZE"
  have left: "0 < left" using n(1,2) by (simp add: word_less_nat_alt)
  note st = blocks_touched_step [OF left m]
  have ubn: "unat bn = unat off div BSIZE" by (simp add: bn_def unat_div)
  have obn: "unat off div BSIZE < MAXFILE" using n(3) left by (simp add: less_mult_imp_div_less)
  define a where "a = file_addr (content s) (inodes s ip) (unat off div BSIZE)"
  obtain s1 where b: "bmap ip bn s = Some (a, s1)" "tx {} k s1" "content s1 = content s" "frame s1 = frame s"
    using bmap_hit [OF t f, of bn a] obn full unfolding ubn a_def by blast
  have a: "a \<noteq> 0" using full by (simp add: a_def)
  obtain i s2 where q: "bufcache_read a s1 = Some (i, s2)" "tx {a} k s2" "content s2 = content s" "frame s2 = frame s"
      "bdata (bufs s2 i) = content s a" "bat s2 i a"
    using tx_read [OF b(2) a] b(3,4) by auto
  have km2: "km s2 = km s" using frame_fs(4) [OF q(4)] .
  have uo: "unat (off mod of_nat BSIZE) = unat off mod BSIZE" by (simp add: unat_mod)
  have um: "unat (chunk_in_block (n - tot) off) = m" unfolding unat_chunk_in_block m
    using n(1,2) by (simp add: unat_sub less_imp_le)
  then have cm: "chunk_in_block (n - tot) off = of_nat m" by auto
  have g: "get_at (unat off mod BSIZE) m (content s a) = bs"
    unfolding bs by (rule file_bytes_chunk [OF st(4) _ a]) (use tx_length [OF t] in \<open>simp_all add: a_def\<close>)
  have c: "either_copyout dst bs obj s2 = Some (0, fst d, s2\<lparr>km := snd d\<rparr>)"
    using takes_copyout [of kend dst left obj s2 bs] dst km2 st(3) d bs by simp
  have t3: "tx {a} k (s2\<lparr>km := snd d\<rparr>)" "bat (s2\<lparr>km := snd d\<rparr>) i a" using q(2,6) by simp_all
  obtain s4 where r: "bufcache_release i (s2\<lparr>km := snd d\<rparr>) = Some s4" "tx {} k s4" "content s4 = content s"
      "frame s4 = frame (s2\<lparr>km := snd d\<rparr>)"
    using tx_release [OF t3(1) _ t3(2)] q(3) by auto
  have "frame s4 = frame (s\<lparr>km := snd d\<rparr>)" using r(4) q(4) by (cases s; cases s2) (simp add: frame_def)
  moreover have "readi_loop (Suc fuel) tot n off dst ip obj s =
      readi_loop fuel (tot + of_nat m) n (off + of_nat m) (addr_add dst m) ip (fst d) s4"
    using b(1) a q(1,5) c r(1) n(1) uo um cm g by (simp add: Let_def bn_def)
  ultimately show ?thesis using r(2,3) by (intro exI [of _ s4]) simp
qed

lemma deliver_nil [simp]: "deliver dst [] ok = ok"
  by (cases dst; cases ok) (auto simp: deliver_def wr_def st_bytes_def put_at_def)

lemma km_idem [simp]: "s\<lparr>km := km s\<rparr> = s"
  by (cases s) simp

lemma readi_loop_ok:
  assumes "tx {} k s" and "file_ok (content s) (sb s) (inodes s ip)"
    and "tot \<le> n" "left = unat n - unat tot" "unat off + left \<le> FILEMAX"
    and "\<forall>j. unat off \<le> j \<longrightarrow> j < unat off + left \<longrightarrow> file_addr (content s) (inodes s ip) (j div BSIZE) \<noteq> 0"
    and "takes kend dst left (obj, km s)" and "left \<le> fuel"
    and "d = deliver dst (map (fdata s ip) [unat off..<unat off + left]) (obj, km s)"
  shows "\<exists>s'. readi_loop fuel tot n off dst ip obj s = Some (sint n, fst d, s') \<and> tx {} k s' \<and>
    content s' = content s \<and> frame s' = frame (s\<lparr>km := snd d\<rparr>)"
  using assms
proof (induction fuel arbitrary: s tot off dst obj left d)
  case 0
  then have e: "unat n = unat tot" "left = 0" by (auto simp: word_le_nat_alt)
  then have "n = tot" by (intro unsigned_word_eqI [where 'a = nat])
  then show ?case using 0 e by simp
next
  case (Suc fuel)
  show ?case
  proof (cases "left = 0")
    case True
    then have e: "unat n = unat tot" using Suc.prems(3,4) by (simp add: word_le_nat_alt)
    then have "n = tot" by (intro unsigned_word_eqI [where 'a = nat])
    then show ?thesis using Suc.prems True by simp
  next
    case False
    define m where "m = min left (BSIZE - unat off mod BSIZE)"
    note st = blocks_touched_step [OF False [unfolded neq0_conv] m_def]
    define bs where "bs = map (fdata s ip) [unat off..<unat off + m]"
    define d1 where "d1 = deliver dst bs (obj, km s)"
    have lt: "tot < n" using False Suc.prems(4) by (simp add: word_less_nat_alt)
    have full: "file_addr (content s) (inodes s ip) (unat off div BSIZE) \<noteq> 0" using Suc.prems(6) False by simp
    obtain s1 where w: "readi_loop (Suc fuel) tot n off dst ip obj s =
        readi_loop fuel (tot + of_nat m) n (off + of_nat m) (addr_add dst m) ip (fst d1) s1"
      "tx {} k s1" "content s1 = content s" "frame s1 = frame (s\<lparr>km := snd d1\<rparr>)"
      using readi_step [OF Suc.prems(1,2) lt Suc.prems(4,5) full Suc.prems(7) m_def bs_def d1_def] by blast
    have k1: "sb s1 = sb s" "inodes s1 = inodes s" "km s1 = snd d1" using frame_fs [OF w(4)] by simp_all
    have um: "unat (of_nat m :: u32) = m" using st(3) Suc.prems(4) unat_of_nat_less [of m n] by (cases "m = unat n") auto
    have ut: "unat (tot + of_nat m) = unat tot + m"
      using st(3) Suc.prems(4) lt unsigned_less [where 'a = nat and w = n] by (subst unat_plus_no_wrap) (simp_all add: um word_less_nat_alt)
    have uo: "unat (off + of_nat m) = unat off + m"
      using st(3) Suc.prems(5) by (subst unat_plus_no_wrap) (simp_all add: um)
    have fd: "fdata s1 ip = fdata s ip" by (rule ext) (simp add: fdata_def w(3) k1 Let_def)
    define cs where "cs = map (fdata s ip) [unat off + m..<unat off + left]"
    have split: "map (fdata s ip) [unat off..<unat off + left] = bs @ cs"
      using st(3) upt_add_eq_append [of "unat off" "unat off + m" "left - m"] by (simp add: bs_def cs_def)
    have lb: "length bs = m" "length bs + length cs \<le> left" using st(3) by (simp_all add: bs_def cs_def)
    note da = deliver_append [OF Suc.prems(7) lb(2), folded d1_def, unfolded lb(1)]
    have d: "d = deliver (addr_add dst m) cs d1" using Suc.prems(9) da(1) by (simp add: split)
    have "\<exists>s'. readi_loop fuel (tot + of_nat m) n (off + of_nat m) (addr_add dst m) ip (fst d1) s1 = Some (sint n, fst d, s') \<and>
        tx {} k s' \<and> content s' = content s1 \<and> frame s' = frame (s1\<lparr>km := snd d\<rparr>)"
    proof (rule Suc.IH [OF w(2)])
      show "file_ok (content s1) (sb s1) (inodes s1 ip)" using Suc.prems(2) by (simp add: w(3) k1)
      show "tot + of_nat m \<le> n" using ut st(3) Suc.prems(4) lt by (simp add: word_le_nat_alt word_less_nat_alt)
      show "left - m = unat n - unat (tot + of_nat m)" using ut Suc.prems(4) by simp
      show "unat (off + of_nat m) + (left - m) \<le> FILEMAX" unfolding uo using st(3) Suc.prems(5) by simp
      show "\<forall>j. unat (off + of_nat m) \<le> j \<longrightarrow> j < unat (off + of_nat m) + (left - m) \<longrightarrow>
          file_addr (content s1) (inodes s1 ip) (j div BSIZE) \<noteq> 0"
        using Suc.prems(6) st(3) by (simp add: uo w(3) k1)
      show "takes kend (addr_add dst m) (left - m) (fst d1, km s1)" using da(2) k1(3) by simp
      show "left - m \<le> fuel" using st(2) Suc.prems(8) by linarith
      show "d = deliver (addr_add dst m) (map (fdata s1 ip) [unat (off + of_nat m)..<unat (off + of_nat m) + (left - m)]) (fst d1, km s1)"
        using d st(3) by (simp add: uo fd k1(3) cs_def)
    qed
    then obtain s' where r: "readi_loop fuel (tot + of_nat m) n (off + of_nat m) (addr_add dst m) ip (fst d1) s1 = Some (sint n, fst d, s')"
        "tx {} k s'" "content s' = content s1" "frame s' = frame (s1\<lparr>km := snd d\<rparr>)" by blast
    have "frame s' = frame (s\<lparr>km := snd d\<rparr>)" using r(4) w(4) by (cases s; cases s1) (simp add: frame_def)
    then show ?thesis using w(1,3) r by simp
  qed
qed

lemma readi_ok:
  assumes t: "tx {} k s" and f: "file_ok (content s) (sb s) (inodes s ip)" "no_holes s ip"
    and off: "off \<le> isize (inodes s ip)" "unat off + unat n < 2 ^ 32" and m: "m = min (unat n) (unat (isize (inodes s ip)) - unat off)"
    and dst: "takes kend dst m (obj, km s)" and d: "d = deliver dst (map (fdata s ip) [unat off..<unat off + m]) (obj, km s)"
  shows "\<exists>s'. readi ip dst off n obj s = Some (int m, fst d, s') \<and> tx {} k s' \<and> content s' = content s \<and>
    frame s' = frame (s\<lparr>km := snd d\<rparr>)"
proof -
  define sz where "sz = isize (inodes s ip)"
  have le: "unat off \<le> unat sz" "unat sz \<le> FILEMAX" using off(1) f(2) by (simp_all add: word_le_nat_alt sz_def no_holes_def)
  have un: "unat (off + n) = unat off + unat n" using off(2) by (subst unat_plus_no_wrap) simp_all
  define n' where "n' = (if off + n > sz then sz - off else n)"
  have us: "unat (sz - off) = unat sz - unat off" using off(1) by (simp add: unat_sub sz_def)
  have un': "unat n' = m" unfolding n'_def m sz_def [symmetric] using un us le by (auto simp: word_less_nat_alt min_def)
  have guards: "\<not> (off > sz \<or> off + n < off)" using off(1) un by (simp add: word_less_nat_alt not_less word_le_nat_alt sz_def)
  have bound: "unat off + m \<le> unat sz" using le(1) m by (simp add: sz_def min_def split: if_splits)
  have small: "sint n' = int m" using bound le(2) un' sint_small [of n'] by simp
  have "\<exists>s'. readi_loop (unat n') 0 n' off dst ip obj s = Some (sint n', fst d, s') \<and> tx {} k s' \<and> content s' = content s \<and>
      frame s' = frame (s\<lparr>km := snd d\<rparr>)"
    by (rule readi_loop_ok [OF t f(1), where left = m])
      (use un' bound le f(2) dst d in \<open>auto simp: no_holes_def sz_def\<close>)
  then show ?thesis unfolding readi_def sz_def [symmetric] Let_def n'_def [symmetric] using guards small un' by simp
qed

section \<open>The file of the example\<close>

lemma img_file_addr: "i < MAXFILE \<Longrightarrow> file_addr (content img_fs) (inodes img_fs 1) i = (if i = 0 then 47 else if i = 1 then 48 else 0)"
proof -
  assume "i < MAXFILE"
  have "(47 # 48 # replicate 11 0 :: u32 list) ! i = (if i = 0 then 47 else if i = 1 then 48 else 0)" if "i < 13" for i
    using that by (simp add: nth_Cons')
  then show ?thesis by (simp add: file_addr_def img_ok img_inodes_def img_inode_def)
qed

lemma img_data_block: "32 \<le> b \<Longrightarrow> b < 50 \<Longrightarrow> b \<noteq> 45 \<Longrightarrow> data_block (content img_fs) (sb img_fs) b"
proof -
  assume b32: "32 \<le> b" and b: "b < 50" "b \<noteq> 45"
  have h: "home (sb_logstart (sb img_fs)) b"
    using b32 home_above [of 2 b] by (simp add: img_ok img_sb_def log_fits_def word_le_nat_alt)
  have "b' < 60 \<Longrightarrow> BBLOCK b' (sb img_fs) = 45" for b' by (simp add: BBLOCK_def img_ok img_sb_def)
  then have "bmap_blocks (sb img_fs) \<subseteq> {45}" by (auto simp: bmap_blocks_def img_ok img_sb_def)
  moreover have "unat b < 50" using b(1) by (simp add: word_less_nat_alt)
  ultimately show ?thesis using b(2) h img_used [of "unat b"] by (auto simp: data_block_def) (simp add: img_ok img_sb_def)
qed

lemma img_file_ok: "file_ok (content img_fs) (sb img_fs) (inodes img_fs 1)"
proof -
  have x: "addrs (inodes img_fs 1) ! NDIRECT = 0" "length (addrs (inodes img_fs 1)) = 13" "IBLOCK (inum (inodes img_fs 1)) (sb img_fs) = 32"
    by (simp_all add: img_ok img_inodes_def img_inode_def IBLOCK_def img_sb_def)
  have "data_block (content img_fs) (sb img_fs) 32" "data_block (content img_fs) (sb img_fs) 47" "data_block (content img_fs) (sb img_fs) 48"
    by (simp_all add: img_data_block)
  then show ?thesis using x img_file_addr by (auto simp: file_ok_def split: if_splits)
qed

lemma img_nfree: "nfree (content img_fs) (sb img_fs) = 10"
proof -
  have "{b. b < unat (sb_size (sb img_fs)) \<and> \<not> block_used (content img_fs) (sb img_fs) b} = {50..<60}"
    using img_used by (auto simp: img_ok img_sb_def)
  then show ?thesis by (simp add: nfree_def)
qed

lemma img_size: "isize (inodes img_fs 1) = 1500"
  by (simp add: img_ok img_inodes_def img_inode_def)

lemma img_no_holes: "no_holes img_fs 1"
proof -
  have "file_addr (content img_fs) (inodes img_fs 1) (j div BSIZE) \<noteq> 0" if "j < 1500" for j
  proof -
    have "j div BSIZE < 2" using that by (simp add: less_mult_imp_div_less)
    then have "j div BSIZE = 0 \<or> j div BSIZE = 1" by linarith
    then show ?thesis using img_file_addr [of 0] img_file_addr [of 1] by auto
  qed
  then show ?thesis unfolding no_holes_def img_size by simp
qed

lemma img_fdata: "j < 2048 \<Longrightarrow> fdata img_fs 1 j = (if j < 1024 then 65 else 66)"
proof -
  assume j: "j < 2048"
  then have "j div BSIZE < 2" by (simp add: less_mult_imp_div_less)
  then consider "j div BSIZE = 0" | "j div BSIZE = 1" by linarith
  then show ?thesis
  proof cases
    case 1
    then have "j < 1024" by simp
    then show ?thesis using 1 img_file_addr [of 0] by (simp add: fdata_def Let_def img_ok img_disk_def)
  next
    case 2
    then have "\<not> j < 1024" by auto
    then show ?thesis using 2 img_file_addr [of 1] by (simp add: fdata_def Let_def img_ok img_disk_def)
  qed
qed

section \<open>Properties\<close>

text \<open>C18. \<open>writei\<close> inside a transaction with room in the log and enough free blocks returns \<open>n\<close>.  The file then
  has the data at the offset and its old bytes everywhere else, growing if need be; the inode on the
  disk is the one in memory; the blocks of the file are still different data blocks in use; and no
  block of any other file changed, nor any other inode, those in the same block included.  A file without holes stays one.  At most two free blocks are used
  for each block of the file that is touched.\<close>

theorem writei_spec:
  assumes "tx {} (k + 6 * c + 1) s" and "file_ok (content s) (sb s) (inodes s ip)" and "bitmap_ok {} s"
    and "2 * c \<le> nfree (content s) (sb s)" and "x = inodes s ip" "off \<le> isize x" and "unat off + unat n \<le> FILEMAX"
    and "supplies src obj data (km s)" "length data = unat n" and "c = blocks_touched (unat off) (unat n)"
  shows "\<exists>s' as. writei ip src off n obj s = Some (int (unat n), s') \<and> tx {} k s' \<and> kept s s' \<and>
    inodes s' = (inodes s)(ip := x\<lparr>addrs := as, isize := max (isize x) (off + n)\<rparr>) \<and>
    file_ok (content s') (sb s') (inodes s' ip) \<and> bitmap_ok {} s' \<and>
    (\<forall>y. dinode (content s') (sb s) (inum x) y = same_dinode (inodes s' ip) y) \<and>
    (\<forall>j<FILEMAX. fdata s' ip j = (if unat off \<le> j \<and> j < unat off + unat n then data ! (j - unat off) else fdata s ip j)) \<and>
    (\<forall>b. others ip s b \<longrightarrow> b \<noteq> IBLOCK (inum x) (sb s) \<longrightarrow> others ip s' b \<and> content s' b = content s b) \<and>
    (no_holes s ip \<longrightarrow> no_holes s' ip) \<and> nfree (content s) (sb s) \<le> nfree (content s') (sb s) + 2 * c \<and>
    (\<forall>b. others ip s b \<longrightarrow> others ip s' b) \<and>
    (\<forall>j y. j \<noteq> inum x \<longrightarrow> others ip s (IBLOCK j (sb s)) \<longrightarrow> dinode (content s') (sb s) j y = dinode (content s) (sb s) j y)"
  using assms by (rule writei_ok)

theorem writei_spec_witness:
  "\<exists>s'. writei 1 (Local 0) 1499 3 [1, 2, 3] img_fs = Some (3, s') \<and> isize (inodes s' 1) = 1502 \<and>
     fdata s' 1 1498 = 66 \<and> fdata s' 1 1500 = 2"
proof -
  have t: "tx {} (22 + 6 * 1 + 1) img_fs" and c: "1 = blocks_touched (unat (1499 :: u32)) (unat (3 :: u32))"
    and sup: "supplies (Local 0) [1, 2, 3] [1, 2, 3] (km img_fs)"
    using img_ok(1) by (simp_all add: blocks_touched_def) (rule supplies_local, simp add: get_at_def)
  have f: "2 * 1 \<le> nfree (content img_fs) (sb img_fs)" and z: "1499 \<le> isize (inodes img_fs 1)"
    and m: "unat (1499 :: u32) + unat (3 :: u32) \<le> FILEMAX" and l: "length [1, 2, 3 :: u8] = unat (3 :: u32)"
    unfolding img_size img_nfree by simp_all
  obtain s' as where "writei 1 (Local 0) 1499 3 [1, 2, 3] img_fs = Some (int (unat (3 :: u32)), s')"
      "inodes s' = (inodes img_fs)(1 := (inodes img_fs 1)\<lparr>addrs := as, isize := max (isize (inodes img_fs 1)) (1499 + 3)\<rparr>)"
      "\<forall>j<FILEMAX. fdata s' 1 j = (if unat (1499 :: u32) \<le> j \<and> j < unat (1499 :: u32) + unat (3 :: u32)
         then [1, 2, 3] ! (j - unat (1499 :: u32)) else fdata img_fs 1 j)"
    using writei_spec [OF t img_file_ok img_bitmap(1) f refl z m sup l c] by blast
  then show ?thesis using img_fdata [of 1498] unfolding img_size by (auto simp: max_def)
qed

text \<open>C19. \<open>readi\<close> delivers the bytes of the file from the offset on, up to its end, to a user range, a kernel
  address or an object of the caller, returns their number, and changes no block.\<close>

theorem readi_spec:
  assumes "tx {} k s" and "file_ok (content s) (sb s) (inodes s ip)" and "no_holes s ip"
    and "off \<le> isize (inodes s ip)" and "unat off + unat n < 2 ^ 32" and "m = min (unat n) (unat (isize (inodes s ip)) - unat off)"
    and "takes kend dst m (obj, km s)" and "d = deliver dst (map (fdata s ip) [unat off..<unat off + m]) (obj, km s)"
  shows "\<exists>s'. readi ip dst off n obj s = Some (int m, fst d, s') \<and> tx {} k s' \<and> content s' = content s \<and>
    frame s' = frame (s\<lparr>km := snd d\<rparr>)"
  using assms by (rule readi_ok)

theorem readi_spec_witness:
  "\<exists>s'. readi 1 (Local 0) 1022 4 [0, 0, 0, 0] img_fs = Some (4, [65, 65, 66, 66], s') \<and> content s' = content img_fs"
proof -
  have t: "takes 0 (Local 0) 4 ([0, 0, 0, 0], km img_fs)" by (simp add: takes_def)
  have u: "[1022..<1026] = [1022, 1023, 1024, 1025 :: nat]" by (simp add: upt_conv_Cons)
  have m: "4 = min (unat (4 :: u32)) (unat (isize (inodes img_fs 1)) - unat (1022 :: u32))"
    and z: "1022 \<le> isize (inodes img_fs 1)" and b: "unat (1022 :: u32) + unat (4 :: u32) < 2 ^ 32"
    unfolding img_size by simp_all
  have d: "deliver (Local 0) (map (fdata img_fs 1) [unat (1022 :: u32)..<unat (1022 :: u32) + 4]) ([0, 0, 0, 0], km img_fs) =
      ([65, 65, 66, 66], km img_fs)"
    using img_fdata [of 1022] img_fdata [of 1023] img_fdata [of 1024] img_fdata [of 1025]
    by (simp add: deliver_def put_at_def u)
  show ?thesis using readi_spec [OF img_ok(1) img_file_ok img_no_holes z b m t refl] unfolding d by auto
qed

end
