(* ===== verification/FsDir.thy ===== *)
theory FsDir
  imports FsFile
begin

text \<open>
  Directories of \<^verbatim>\<open>kernel/fs.c\<close> as lists of entries: \<open>dirlookup\<close> finds the first entry with the name, and
  \<open>dirlink\<close> adds one in the first free slot, so that the name is found afterwards and every other name as before.
\<close>

section \<open>A directory as its entries\<close>

text \<open>\<open>fdata\<close> with the inode in place of its index in the table.\<close>

definition idata :: "(u32 \<Rightarrow> blk) \<Rightarrow> inode \<Rightarrow> nat \<Rightarrow> u8" where
  "idata c y j = (let a = file_addr c y (j div BSIZE) in if a = 0 then 0 else c a ! (j mod BSIZE))"

lemma fdata_idata: "fdata s ip = idata (content s) (inodes s ip)"
  by (simp add: fun_eq_iff fdata_def idata_def)

definition dir_entry :: "(u32 \<Rightarrow> blk) \<Rightarrow> inode \<Rightarrow> nat \<Rightarrow> u8 list" where
  "dir_entry c y i = map (idata c y) [16 * i..<16 * i + 16]"

text \<open>A name is a string of at most 14 bytes; what lies behind a NUL does not count.\<close>

definition fname :: "u8 list \<Rightarrow> u8 list" where
  "fname bs = cstring (arr bs) (0 :: nat) DIRSIZ"

definition dir_find :: "(u32 \<Rightarrow> blk) \<Rightarrow> inode \<Rightarrow> u8 list \<Rightarrow> nat option" where
  "dir_find c y name =
     find (\<lambda>i. de_inum (dir_entry c y i) \<noteq> 0 \<and> fname (de_name (dir_entry c y i)) = fname name) [0..<unat (isize y) div 16]"

definition dir_slot :: "(u32 \<Rightarrow> blk) \<Rightarrow> inode \<Rightarrow> nat" where
  "dir_slot c y =
     (case find (\<lambda>i. de_inum (dir_entry c y i) = 0) [0..<unat (isize y) div 16] of None \<Rightarrow> unat (isize y) div 16 | Some i \<Rightarrow> i)"

definition dir_ok :: "'a fs_scheme \<Rightarrow> nat \<Rightarrow> bool" where
  "dir_ok s dp \<longleftrightarrow> itype (inodes s dp) = T_DIR \<and> file_ok (content s) (sb s) (inodes s dp) \<and> no_holes s dp \<and>
     16 dvd unat (isize (inodes s dp))"

text \<open>Two states that differ only in the buffers.\<close>

definition reread :: "nat \<Rightarrow> 'a fs_scheme \<Rightarrow> 'a fs_scheme \<Rightarrow> bool" where
  "reread k s s' \<longleftrightarrow> tx {} k s' \<and> content s' = content s \<and> frame s' = frame s"

lemma reread_trans: "reread k s s' \<Longrightarrow> reread k s' s'' \<Longrightarrow> reread k s s''"
  by (simp add: reread_def)

lemma rereadD:
  assumes "reread k s s'"
  shows "tx {} k s'" "content s' = content s" "frame s' = frame s" "inodes s' = inodes s" "sb s' = sb s"
  using assms frame_fs [of s' s] by (simp_all add: reread_def)

lemma dir_ok_reread: "reread k s s' \<Longrightarrow> dir_ok s' dp = dir_ok s dp"
  using rereadD [of k s s'] by (simp add: dir_ok_def no_holes_def)

lemma namecmp_eq: "namecmp s t = 0 \<longleftrightarrow> fname t = fname s"
  by (auto simp: namecmp_def strncmp_eq_0 fname_def)

lemma dir_read:
  assumes "tx {} k s" and d: "dir_ok s dp" and i: "i < unat (isize (inodes s dp)) div 16"
  shows "\<exists>s'. readi dp (Local 0) (of_nat (16 * i)) 16 no_dirent s = Some (16, dir_entry (content s) (inodes s dp) i, s') \<and> reread k s s'"
proof -
  define sz where "sz = unat (isize (inodes s dp))"
  have sz: "16 * i + 16 \<le> sz" "sz < 2 ^ 32" using i d by (auto simp: sz_def dir_ok_def no_holes_def elim!: dvdE)
  have off: "unat (of_nat (16 * i) :: u32) = 16 * i" using sz by (intro unat_of_nat_small) simp
  have le: "of_nat (16 * i) \<le> isize (inodes s dp)" using sz off by (simp add: word_le_nat_alt sz_def)
  have m: "16 = min (unat (16 :: u32)) (unat (isize (inodes s dp)) - unat (of_nat (16 * i) :: u32))" using sz off by (simp add: sz_def)
  have dst: "takes 0 (Local 0) 16 (no_dirent, km s)" by (simp add: takes_def no_dirent_def)
  have dl: "deliver (Local 0) (map (fdata s dp) [unat (of_nat (16 * i) :: u32)..<unat (of_nat (16 * i) :: u32) + 16]) (no_dirent, km s) =
      (dir_entry (content s) (inodes s dp) i, km s)"
    unfolding off by (simp add: deliver_def put_at_def no_dirent_def dir_entry_def fdata_idata)
  have sm: "unat (of_nat (16 * i) :: u32) + unat (16 :: u32) < 2 ^ 32"
    unfolding off using sz d by (simp add: dir_ok_def no_holes_def sz_def)
  obtain s' where "readi dp (Local 0) (of_nat (16 * i)) 16 no_dirent s = Some (int 16, dir_entry (content s) (inodes s dp) i, s')"
      "tx {} k s'" "content s' = content s" "frame s' = frame (s\<lparr>km := km s\<rparr>)"
    using readi_ok [OF assms(1) _ _ le sm m dst refl] d unfolding dl by (auto simp: dir_ok_def)
  then show ?thesis by (auto simp: reread_def)
qed

lemma dirlookup_loop_ok:
  assumes "tx {} k s" and "dir_ok s dp" and "i + n = unat (isize (inodes s dp)) div 16"
  shows "\<exists>s'. reread k s s' \<and> dirlookup_loop n (of_nat (16 * i)) dp name s =
    (case find (\<lambda>i. de_inum (dir_entry (content s) (inodes s dp) i) \<noteq> 0 \<and>
        fname (de_name (dir_entry (content s) (inodes s dp) i)) = fname name) [i..<i + n] of
       None \<Rightarrow> Some (None, s')
     | Some i \<Rightarrow> iget (idev (inodes s dp)) (ucast (de_inum (dir_entry (content s) (inodes s dp) i))) s' \<bind> (\<lambda>(ip, s'). Some (Some (ip, of_nat (16 * i)), s')))"
  using assms
proof (induction n arbitrary: i s)
  case 0
  then show ?case by (intro exI [of _ s]) (simp add: reread_def)
next
  case (Suc n)
  let ?e = "dir_entry (content s) (inodes s dp)"
  obtain s1 where r: "readi dp (Local 0) (of_nat (16 * i)) 16 no_dirent s = Some (16, ?e i, s1)" "reread k s s1"
    using dir_read [OF Suc.prems(1,2), of i] Suc.prems(3) by auto
  note r1 = rereadD [OF r(2)]
  have u: "[i..<i + Suc n] = i # [Suc i..<Suc i + n]" by (simp add: upt_conv_Cons del: upt_Suc)
  have o: "of_nat (16 * i) + (16 :: u32) = of_nat (16 * Suc i)" by simp
  show ?case
  proof (cases "de_inum (?e i) \<noteq> 0 \<and> fname (de_name (?e i)) = fname name")
    case True
    then show ?thesis unfolding u using r r1 by (intro exI [of _ s1]) (simp add: namecmp_eq)
  next
    case False
    have d1: "dir_ok s1 dp" and n1: "Suc i + n = unat (isize (inodes s1 dp)) div 16"
      using dir_ok_reread [OF r(2), of dp] Suc.prems(2,3) r1(4) by simp_all
    obtain s' where "reread k s1 s'" "dirlookup_loop n (of_nat (16 * Suc i)) dp name s1 =
      (case find (\<lambda>i. de_inum (?e i) \<noteq> 0 \<and> fname (de_name (?e i)) = fname name) [Suc i..<Suc i + n] of
         None \<Rightarrow> Some (None, s')
       | Some i \<Rightarrow> iget (idev (inodes s dp)) (ucast (de_inum (?e i))) s' \<bind> (\<lambda>(ip, s'). Some (Some (ip, of_nat (16 * i)), s')))"
      using Suc.IH [OF r1(1) d1 n1, unfolded r1(2,4)] by blast
    moreover have "dirlookup_loop (Suc n) (of_nat (16 * i)) dp name s = dirlookup_loop n (of_nat (16 * Suc i)) dp name s1"
      unfolding o [symmetric] using False r(1) by (auto simp: namecmp_eq simp del: of_nat_mult)
    ultimately show ?thesis using reread_trans [OF r(2)] unfolding u find.simps(2) if_not_P [OF False] by (intro exI [of _ s']) simp
  qed
qed

lemma dir_turns_eq: "dir_ok s dp \<Longrightarrow> dir_turns dp s = unat (isize (inodes s dp)) div 16"
  by (auto simp: dir_turns_def dir_ok_def elim!: dvdE)

lemma dirlookup_ok:
  assumes "tx {} k s" and "dir_ok s dp"
  shows "\<exists>s'. reread k s s' \<and> dirlookup dp name s =
    (case dir_find (content s) (inodes s dp) name of
       None \<Rightarrow> Some (None, s')
     | Some i \<Rightarrow> iget (idev (inodes s dp)) (ucast (de_inum (dir_entry (content s) (inodes s dp) i))) s' \<bind> (\<lambda>(ip, s'). Some (Some (ip, of_nat (16 * i)), s')))"
  using dirlookup_loop_ok [OF assms, of 0 "unat (isize (inodes s dp)) div 16" name] assms(2)
  by (simp add: dirlookup_def dir_find_def dir_turns_eq dir_ok_def)

section \<open>Adding an entry\<close>

lemma dirlink_loop_ok:
  assumes "tx {} k s" and "dir_ok s dp" and "i + n = unat (isize (inodes s dp)) div 16"
  shows "\<exists>s'. reread k s s' \<and> dirlink_loop n (of_nat (16 * i)) dp s =
    Some (of_nat (16 * (case find (\<lambda>i. de_inum (dir_entry (content s) (inodes s dp) i) = 0) [i..<i + n] of
      None \<Rightarrow> i + n | Some i \<Rightarrow> i)), s')"
  using assms
proof (induction n arbitrary: i s)
  case 0
  then show ?case by (intro exI [of _ s]) (simp add: reread_def)
next
  case (Suc n)
  let ?e = "dir_entry (content s) (inodes s dp)"
  obtain s1 where r: "readi dp (Local 0) (of_nat (16 * i)) 16 no_dirent s = Some (16, ?e i, s1)" "reread k s s1"
    using dir_read [OF Suc.prems(1,2), of i] Suc.prems(3) by auto
  note r1 = rereadD [OF r(2)]
  have u: "[i..<i + Suc n] = i # [Suc i..<Suc i + n]" by (simp add: upt_conv_Cons del: upt_Suc)
  have o: "of_nat (16 * i) + (16 :: u32) = of_nat (16 * Suc i)" by simp
  show ?case
  proof (cases "de_inum (?e i) = 0")
    case True
    then show ?thesis unfolding u using r by (intro exI [of _ s1]) simp
  next
    case False
    have d1: "dir_ok s1 dp" and n1: "Suc i + n = unat (isize (inodes s1 dp)) div 16"
      using dir_ok_reread [OF r(2), of dp] Suc.prems(2,3) r1(4) by simp_all
    obtain s' where "reread k s1 s'" "dirlink_loop n (of_nat (16 * Suc i)) dp s1 =
        Some (of_nat (16 * (case find (\<lambda>i. de_inum (?e i) = 0) [Suc i..<Suc i + n] of None \<Rightarrow> Suc i + n | Some i \<Rightarrow> i)), s')"
      using Suc.IH [OF r1(1) d1 n1, unfolded r1(2,4)] by blast
    moreover have "dirlink_loop (Suc n) (of_nat (16 * i)) dp s = dirlink_loop n (of_nat (16 * Suc i)) dp s1"
      unfolding o [symmetric] using False r(1) by (auto simp del: of_nat_mult)
    ultimately show ?thesis using reread_trans [OF r(2)] unfolding u find.simps(2) if_not_P [OF False] add_Suc_shift
      by (intro exI [of _ s']) simp
  qed
qed

lemma dirlink_slot:
  assumes "tx {} k s" and "dir_ok s dp"
  shows "\<exists>s'. reread k s s' \<and> dirlink_loop (dir_turns dp s) 0 dp s = Some (of_nat (16 * dir_slot (content s) (inodes s dp)), s')"
  using dirlink_loop_ok [OF assms, of 0 "unat (isize (inodes s dp)) div 16"] assms(2)
  by (simp add: dir_slot_def dir_turns_eq cong: option.case_cong)

lemma dir_slot_le: "dir_slot c y \<le> unat (isize y) div 16"
  by (auto simp: dir_slot_def split: option.splits dest!: find_SomeD)

lemma dir_slot_free: "dir_slot c y < unat (isize y) div 16 \<Longrightarrow> de_inum (dir_entry c y (dir_slot c y)) = 0"
  by (auto simp: dir_slot_def split: option.splits dest!: find_SomeD)

lemma fname_eq: "fname bs = takeWhile (\<lambda>c. c \<noteq> 0) (take DIRSIZ bs)"
proof -
  have "map (\<lambda>i. arr bs (0 + of_nat i)) [0..<DIRSIZ] = take DIRSIZ bs @ replicate (DIRSIZ - length bs) 0"
    by (rule nth_equalityI) (auto simp: arr_def nth_append min_def simp del: upt_rec_numeral)
  then have "fname bs = takeWhile (\<lambda>c. c \<noteq> 0) (take DIRSIZ bs @ replicate (DIRSIZ - length bs) 0)"
    unfolding fname_def cstring_def by (simp only:)
  also have "\<dots> = takeWhile (\<lambda>c. c \<noteq> 0) (take DIRSIZ bs)" by (auto simp: takeWhile_append takeWhile_replicate takeWhile_eq_all_conv [THEN iffD2])
  finally show ?thesis .
qed

text \<open>The new entry.\<close>

lemma cstring_pad: "fname (fname name @ replicate (DIRSIZ - length (fname name)) 0) = fname name"
proof -
  have nz: "0 \<notin> set (fname name)" unfolding fname_def cstring_def by (auto dest: set_takeWhileD simp del: upt_Suc upt_rec_numeral)
  have l: "length (fname name) \<le> DIRSIZ"
    unfolding fname_def cstring_def by (rule order_trans [OF length_takeWhile_le]) (simp del: upt_rec_numeral)
  define w where "w = fname name"
  have e: "map (\<lambda>i. arr (w @ replicate (DIRSIZ - length w) 0) (0 + of_nat i)) [0..<DIRSIZ] = w @ replicate (DIRSIZ - length w) 0"
    by (rule nth_equalityI) (use l in \<open>simp_all add: w_def arr_def\<close>)
  have "takeWhile (\<lambda>c. c \<noteq> 0) (w @ replicate n 0) = w" for n
    using nz by (subst takeWhile_append2) (auto simp: w_def)
  then show ?thesis unfolding w_def [symmetric] fname_def [of "w @ _"] cstring_def e .
qed

lemma mk_dirent_fields:
  "de_inum (mk_dirent name ino) = ucast ino" "fname (de_name (mk_dirent name ino)) = fname name"
proof -
  show "de_inum (mk_dirent name ino) = ucast ino"
    by (simp add: de_inum_def mk_dirent_def get16_def get_at_def)
  have "de_name (mk_dirent name ino) = fname name @ replicate (DIRSIZ - length (fname name)) 0"
    using strncpy_eq [of 0 0 "arr name" DIRSIZ "\<lambda>_. 0"] by (simp add: de_name_def mk_dirent_def fname_def)
  then show "fname (de_name (mk_dirent name ino)) = fname name" using cstring_pad by simp
qed

lemma one_block: "16 dvd off \<Longrightarrow> blocks_touched off 16 = 1"
proof -
  assume "16 dvd off"
  then obtain q where q: "off = 16 * q" by (rule dvdE)
  have "(16 * q + 15) div 1024 = 16 * q div 1024"
  proof -
    have "(16 * q + 15) div 16 div 64 = 16 * q div 16 div 64" by simp
    then have "(16 * q + 15) div (16 * 64) = 16 * q div (16 * 64)" by (simp only: div_mult2_eq)
    then show ?thesis by simp
  qed
  then show ?thesis by (simp add: blocks_touched_def q)
qed

text \<open>The effect of \<open>dirlink\<close> on the entries: one slot has the new entry.\<close>

definition linked :: "nat \<Rightarrow> u8 list \<Rightarrow> u32 \<Rightarrow> 'a fs_scheme \<Rightarrow> 'a fs_scheme \<Rightarrow> bool" where
  "linked dp name ino s s' \<longleftrightarrow>
     (let slot = dir_slot (content s) (inodes s dp); sz = unat (isize (inodes s dp)) in
      unat (isize (inodes s' dp)) = max sz (16 * slot + 16) \<and>
      (\<forall>i<max (sz div 16) (slot + 1). dir_entry (content s') (inodes s' dp) i =
        (if i = slot then mk_dirent name ino else dir_entry (content s) (inodes s dp) i)))"

lemma dir_entry_after:
  assumes "\<forall>j<FILEMAX. fdata s' dp j = (if 16 * k \<le> j \<and> j < 16 * k + 16 then data ! (j - 16 * k) else fdata s dp j)"
    and "length data = 16" and "16 * i + 16 \<le> FILEMAX"
  shows "dir_entry (content s') (inodes s' dp) i = (if i = k then data else dir_entry (content s) (inodes s dp) i)"
proof (cases "i = k")
  case True
  then show ?thesis using assms by (intro nth_equalityI) (simp_all add: dir_entry_def fdata_idata)
next
  case False
  have "fdata s' dp (16 * i + j) = fdata s dp (16 * i + j)" if "j < 16" for j
  proof -
    have "\<not> (16 * k \<le> 16 * i + j \<and> 16 * i + j < 16 * k + 16)" "16 * i + j < FILEMAX" using that False assms(3) by linarith+
    then show ?thesis using assms(1) by presburger
  qed
  then show ?thesis using False by (intro nth_equalityI) (simp_all add: dir_entry_def fdata_idata)
qed

lemma dirlink_write:
  assumes t: "tx {} (k + 7) s" and d: "dir_ok s dp" and ok: "bitmap_ok {} s" and free: "2 \<le> nfree (content s) (sb s)"
    and room: "unat (isize (inodes s dp)) + 16 \<le> FILEMAX" and slot: "slot = dir_slot (content s) (inodes s dp)"
  shows "\<exists>s'. writei dp (Local 0) (of_nat (16 * slot)) 16 (mk_dirent name ino) s = Some (16, s') \<and> tx {} k s' \<and> kept s s' \<and>
    dir_ok s' dp \<and> bitmap_ok {} s' \<and> linked dp name ino s s' \<and> (\<forall>i. i \<noteq> dp \<longrightarrow> inodes s' i = inodes s i) \<and>
    (\<forall>y. dinode (content s') (sb s) (inum (inodes s dp)) y = same_dinode (inodes s' dp) y) \<and>
    (\<forall>b. others dp s b \<longrightarrow> b \<noteq> IBLOCK (inum (inodes s dp)) (sb s) \<longrightarrow> others dp s' b \<and> content s' b = content s b)"
proof -
  define x where "x = inodes s dp"
  define off where "off = (of_nat (16 * slot) :: u32)"
  obtain q where q: "unat (isize x) = 16 * q" using d by (auto simp: dir_ok_def x_def elim!: dvdE)
  have sl: "slot \<le> q" using dir_slot_le [of "content s" x] q by (simp add: slot x_def)
  have uo: "unat off = 16 * slot" unfolding off_def using sl q room by (intro unat_of_nat_small) (simp add: x_def)
  have f: "file_ok (content s) (sb s) (inodes s dp)" "no_holes s dp" using d by (simp_all add: dir_ok_def)
  have t': "tx {} (k + 6 * 1 + 1) s" and fr: "2 * 1 \<le> nfree (content s) (sb s)" using t free by (simp_all add: add.commute)
  have le: "off \<le> isize x" using sl q uo by (simp add: word_le_nat_alt)
  have n: "unat off + unat (16 :: u32) \<le> FILEMAX" using sl q uo room by (simp add: x_def)
  have src: "supplies (Local 0) (mk_dirent name ino) (mk_dirent name ino) (km s)" by (rule supplies_local) (simp add: get_at_def)
  have len: "length (mk_dirent name ino) = unat (16 :: u32)" by simp
  have c: "1 = blocks_touched (unat off) (unat (16 :: u32))" using one_block [of "unat off"] uo by simp
  obtain s' as where w: "writei dp (Local 0) off 16 (mk_dirent name ino) s = Some (int (unat (16 :: u32)), s')" "tx {} k s'" "kept s s'"
      "inodes s' = (inodes s)(dp := x\<lparr>addrs := as, isize := max (isize x) (off + 16)\<rparr>)"
      "file_ok (content s') (sb s') (inodes s' dp)" "bitmap_ok {} s'"
      "\<forall>y. dinode (content s') (sb s) (inum x) y = same_dinode (inodes s' dp) y"
      "\<forall>j<FILEMAX. fdata s' dp j = (if unat off \<le> j \<and> j < unat off + unat (16 :: u32) then mk_dirent name ino ! (j - unat off) else fdata s dp j)"
      "\<forall>b. others dp s b \<longrightarrow> b \<noteq> IBLOCK (inum x) (sb s) \<longrightarrow> others dp s' b \<and> content s' b = content s b"
      "no_holes s dp \<longrightarrow> no_holes s' dp"
    using writei_ok [OF t' f(1) ok fr x_def le n src len c] by blast
  have us: "unat (off + 16) = unat off + 16" using n by (subst unat_plus_no_wrap) simp_all
  have sz: "unat (isize (inodes s' dp)) = max (16 * q) (16 * slot + 16)"
    using w(4) us uo q by (simp add: max_def word_le_nat_alt)
  have e: "dir_entry (content s') (inodes s' dp) i = (if i = slot then mk_dirent name ino else dir_entry (content s) (inodes s dp) i)"
    if "i < max q (slot + 1)" for i
    by (rule dir_entry_after) (use w(8) uo that sl q room in \<open>auto simp: x_def\<close>)
  have "16 dvd unat (isize (inodes s' dp))" unfolding sz by (simp add: max_def)
  then have "dir_ok s' dp" using w f d by (simp add: dir_ok_def x_def)
  moreover have "linked dp name ino s s'" using sz e q by (simp add: linked_def Let_def x_def slot [symmetric])
  ultimately show ?thesis using w unfolding off_def [symmetric] x_def [symmetric] by (intro exI [of _ s']) simp
qed

lemma find_single: "k \<in> set xs \<Longrightarrow> (\<And>i. i \<in> set xs \<Longrightarrow> P i \<longleftrightarrow> i = k) \<Longrightarrow> find P xs = Some k"
  by (induction xs) auto

text \<open>The name is then found in its slot, and every other name where it was.\<close>

lemma linked_find:
  assumes l: "linked dp name ino s s'" and d: "16 dvd unat (isize (inodes s dp))" and ino: "(ucast ino :: u16) \<noteq> 0"
    and new: "dir_find (content s) (inodes s dp) name = None" and slot: "slot = dir_slot (content s) (inodes s dp)"
  shows "dir_find (content s') (inodes s' dp) name' =
    (if fname name' = fname name then Some slot else dir_find (content s) (inodes s dp) name')"
proof -
  define q where "q = unat (isize (inodes s dp)) div 16"
  define e where "e = dir_entry (content s) (inodes s dp)"
  define P where "P = (\<lambda>w i. de_inum (e i) \<noteq> 0 \<and> fname (de_name (e i)) = w)"
  have sl: "slot \<le> q" using dir_slot_le by (simp add: slot q_def)
  have q': "unat (isize (inodes s' dp)) div 16 = max q (slot + 1)"
    using l d by (auto simp: linked_def Let_def slot q_def max_def elim!: dvdE)
  have find': "dir_find (content s') (inodes s' dp) name' =
      find (\<lambda>i. if i = slot then fname name' = fname name else P (fname name') i) [0..<max q (slot + 1)]"
    unfolding dir_find_def q' by (rule find_cong_some) (use l ino in \<open>auto simp: linked_def Let_def slot q_def P_def e_def mk_dirent_fields\<close>)
  have old: "dir_find (content s) (inodes s dp) w = find (P (fname w)) [0..<q]" for w
    by (simp add: dir_find_def P_def e_def q_def)
  have free: "\<not> P w slot" if "slot < q" for w using dir_slot_free that by (simp add: P_def e_def slot q_def)
  show ?thesis
  proof (cases "fname name' = fname name")
    case True
    have "\<not> P (fname name) i" if "i < q" for i using new that by (auto simp: old find_None_iff)
    then have "find (\<lambda>i. if i = slot then fname name' = fname name else P (fname name') i) [0..<max q (slot + 1)] = Some slot"
      by (intro find_single) (use True sl in \<open>auto simp: max_def split: if_splits\<close>)
    then show ?thesis using find' True by simp
  next
    case False
    have c: "find (\<lambda>i. if i = slot then fname name' = fname name else P (fname name') i) [0..<q] = find (P (fname name')) [0..<q]"
      by (rule find_cong_some) (use False free in auto)
    have "find (\<lambda>i. if i = slot then fname name' = fname name else P (fname name') i) [0..<max q (slot + 1)] = find (P (fname name')) [0..<q]"
    proof (cases "slot = q")
      case True
      then have "max q (slot + 1) = Suc q" by simp
      then show ?thesis using c True False by (simp add: find_append split: option.splits)
    next
      case False
      then have "max q (slot + 1) = q" using sl by simp
      then show ?thesis using c by simp
    qed
    then show ?thesis using find' old False by simp
  qed
qed

lemma dirlink_ok:
  assumes t: "tx {} (k + 7) s" and d: "dir_ok s dp" and ok: "bitmap_ok {} s" and free: "2 \<le> nfree (content s) (sb s)"
    and room: "unat (isize (inodes s dp)) + 16 \<le> FILEMAX" and new: "dir_find (content s) (inodes s dp) name = None"
  shows "\<exists>s'. dirlink dp name ino s = Some (0, s') \<and> tx {} k s' \<and> kept s s' \<and>
    dir_ok s' dp \<and> bitmap_ok {} s' \<and> linked dp name ino s s' \<and> (\<forall>i. i \<noteq> dp \<longrightarrow> inodes s' i = inodes s i) \<and>
    (\<forall>y. dinode (content s') (sb s) (inum (inodes s dp)) y = same_dinode (inodes s' dp) y) \<and>
    (\<forall>b. others dp s b \<longrightarrow> b \<noteq> IBLOCK (inum (inodes s dp)) (sb s) \<longrightarrow> others dp s' b \<and> content s' b = content s b)"
proof -
  obtain s1 where a: "dirlookup dp name s = Some (None, s1)" "reread (k + 7) s s1"
    using dirlookup_ok [OF t d, of name] new by auto
  note a1 = rereadD [OF a(2)]
  have d1: "dir_ok s1 dp" using dir_ok_reread [OF a(2)] d by blast
  obtain s2 where b: "dirlink_loop (dir_turns dp s1) 0 dp s1 = Some (of_nat (16 * dir_slot (content s1) (inodes s1 dp)), s2)" "reread (k + 7) s1 s2"
    using dirlink_slot [OF a1(1) d1] by blast
  note b1 = rereadD [OF b(2)]
  have d2: "dir_ok s2 dp" using dir_ok_reread [OF b(2)] d1 by blast
  have ok2: "bitmap_ok {} s2" using ok bitmap_ok_cong [of s2 s] a1(2,3) b1(2,3) by simp
  have eq: "content s2 = content s" "inodes s2 = inodes s" "sb s2 = sb s" "frame s2 = frame s" using a1 b1 by simp_all
  have fr2: "2 \<le> nfree (content s2) (sb s2)" and room2: "unat (isize (inodes s2 dp)) + 16 \<le> FILEMAX" using free room eq by simp_all
  have slot2: "dir_slot (content s1) (inodes s1 dp) = dir_slot (content s2) (inodes s2 dp)" using a1 b1 by simp
  obtain s3 where c: "writei dp (Local 0) (of_nat (16 * dir_slot (content s1) (inodes s1 dp))) 16 (mk_dirent name ino) s2 = Some (16, s3)"
      "tx {} k s3" "kept s2 s3" "dir_ok s3 dp" "bitmap_ok {} s3" "linked dp name ino s2 s3" "\<forall>i. i \<noteq> dp \<longrightarrow> inodes s3 i = inodes s2 i"
      "\<forall>y. dinode (content s3) (sb s2) (inum (inodes s2 dp)) y = same_dinode (inodes s3 dp) y"
      "\<forall>b. others dp s2 b \<longrightarrow> b \<noteq> IBLOCK (inum (inodes s2 dp)) (sb s2) \<longrightarrow> others dp s3 b \<and> content s3 b = content s2 b"
    using dirlink_write [OF b1(1) d2 ok2 fr2 room2 slot2] by blast
  have k: "kept s s3" using c(3) frame_kept [OF eq(4)] by (simp add: kept_def)
  have li: "linked dp name ino s s3" using c(6) unfolding linked_def eq .
  have oth: "others dp s2 = others dp s" by (intro ext) (simp add: others_def eq)
  have "dirlink dp name ino s = Some (0, s3)" unfolding dirlink_def using a(1) b(1) c(1) by simp
  then show ?thesis using c(2,4,5,7-9) k li unfolding oth eq by (intro exI [of _ s3] conjI) simp_all
qed

section \<open>The directory of the example\<close>

lemma img_dir_addr: "i < MAXFILE \<Longrightarrow> file_addr (content img_fs) (inodes img_fs 0) i = (if i = 0 then 46 else 0)"
proof -
  assume "i < MAXFILE"
  have "(46 # replicate 12 0 :: u32 list) ! i = (if i = 0 then 46 else 0)" if "i < 13" for i
    using that by (simp add: nth_Cons')
  then show ?thesis by (simp add: file_addr_def img_ok img_inodes_def img_inode_def)
qed

lemma img_dir_size: "isize (inodes img_fs 0) = 48" "itype (inodes img_fs 0) = T_DIR" "inum (inodes img_fs 0) = 1" "idev (inodes img_fs 0) = 1"
  by (simp_all add: img_ok img_inodes_def img_inode_def)

lemma img_dir_file: "file_ok (content img_fs) (sb img_fs) (inodes img_fs 0)"
proof -
  have x: "addrs (inodes img_fs 0) ! NDIRECT = 0" "length (addrs (inodes img_fs 0)) = 13" "IBLOCK (inum (inodes img_fs 0)) (sb img_fs) = 32"
    by (simp_all add: img_ok img_inodes_def img_inode_def IBLOCK_def img_sb_def)
  have "data_block (content img_fs) (sb img_fs) 32" "data_block (content img_fs) (sb img_fs) 46"
    by (simp_all add: img_data_block)
  then show ?thesis using x img_dir_addr by (auto simp: file_ok_def split: if_splits)
qed

lemma img_dir_ok: "dir_ok img_fs 0"
proof -
  have "no_holes img_fs 0" unfolding no_holes_def img_dir_size using img_dir_addr by auto
  then show ?thesis using img_dir_file img_dir_size by (simp add: dir_ok_def)
qed

lemma img_dir_entry:
  "dir_entry (content img_fs) (inodes img_fs 0) 0 = mk_dirent [46] 1"
  "dir_entry (content img_fs) (inodes img_fs 0) 1 = mk_dirent [46, 46] 1"
  "dir_entry (content img_fs) (inodes img_fs 0) 2 = mk_dirent [102] 2"
proof -
  have b: "content img_fs 46 = img_dir" by (simp add: img_ok img_disk_def)
  have l: "length img_dir = BSIZE" by (simp add: img_dir_def)
  have e: "dir_entry (content img_fs) (inodes img_fs 0) i = take 16 (drop (16 * i) img_dir)" if "i < 3" for i
    using that l by (intro nth_equalityI) (simp_all add: dir_entry_def idata_def img_dir_addr b)
  show "dir_entry (content img_fs) (inodes img_fs 0) 0 = mk_dirent [46] 1"
    "dir_entry (content img_fs) (inodes img_fs 0) 1 = mk_dirent [46, 46] 1"
    "dir_entry (content img_fs) (inodes img_fs 0) 2 = mk_dirent [102] 2"
    using e [of 0] e [of 1] e [of 2] by (simp_all add: img_dir_def)
qed

lemma img_dir_find: "dir_find (content img_fs) (inodes img_fs 0) name =
    (if fname name = [46] then Some 0 else if fname name = [46, 46] then Some 1 else if fname name = [102] then Some 2 else None)"
proof -
  have u: "[0..<unat (48 :: u32) div 16] = [0, 1, 2]" by (simp add: upt_rec)
  have f: "fname [46] = [46]" "fname [46, 46] = [46, 46]" "fname [102] = [102]" by (simp_all add: fname_eq)
  show ?thesis unfolding dir_find_def img_dir_size u using img_dir_entry f by (auto simp: mk_dirent_fields)
qed

section \<open>Properties\<close>

text \<open>C16. A name that is linked is found.  \<open>dirlink\<close> of a new name, in a transaction with room in the log and two free
  blocks, returns 0; a lookup of this name then goes to the inode with the given number, every other name is found
  where it was before or not at all, and no block of another file changed.\<close>

theorem dirlink_spec:
  assumes "tx {} (k + 7) s" and "dir_ok s dp" and "bitmap_ok {} s" and "2 \<le> nfree (content s) (sb s)"
    and "unat (isize (inodes s dp)) + 16 \<le> FILEMAX" and "dir_find (content s) (inodes s dp) name = None"
    and "(ucast ino :: u16) \<noteq> 0" and "slot = dir_slot (content s) (inodes s dp)"
  shows "\<exists>s' s''. dirlink dp name ino s = Some (0, s') \<and> tx {} k s' \<and> dir_ok s' dp \<and> bitmap_ok {} s' \<and>
    (\<forall>name'. dir_find (content s') (inodes s' dp) name' =
       (if fname name' = fname name then Some slot else dir_find (content s) (inodes s dp) name')) \<and>
    reread k s' s'' \<and> dirlookup dp name s' =
      iget (idev (inodes s' dp)) (ucast (ucast ino :: u16)) s'' \<bind> (\<lambda>(ip, s'). Some (Some (ip, of_nat (16 * slot)), s')) \<and>
    (\<forall>b. others dp s b \<longrightarrow> b \<noteq> IBLOCK (inum (inodes s dp)) (sb s) \<longrightarrow> others dp s' b \<and> content s' b = content s b)"
proof -
  obtain s' where a: "dirlink dp name ino s = Some (0, s')" "tx {} k s'" "dir_ok s' dp" "bitmap_ok {} s'" "linked dp name ino s s'"
      "\<forall>b. others dp s b \<longrightarrow> b \<noteq> IBLOCK (inum (inodes s dp)) (sb s) \<longrightarrow> others dp s' b \<and> content s' b = content s b"
    using dirlink_ok [OF assms(1-6)] by blast
  have f: "dir_find (content s') (inodes s' dp) name' =
      (if fname name' = fname name then Some slot else dir_find (content s) (inodes s dp) name')" for name'
    by (rule linked_find [OF a(5) _ assms(7,6,8)]) (use assms(2) in \<open>simp add: dir_ok_def\<close>)
  have e: "dir_entry (content s') (inodes s' dp) slot = mk_dirent name ino" using a(5) assms(8) by (simp add: linked_def Let_def)
  obtain s'' where "reread k s' s''" "dirlookup dp name s' =
      iget (idev (inodes s' dp)) (ucast (ucast ino :: u16)) s'' \<bind> (\<lambda>(ip, s'). Some (Some (ip, of_nat (16 * slot)), s'))"
    using dirlookup_ok [OF a(2,3), of name] f [of name] by (auto simp: e mk_dirent_fields)
  then show ?thesis using a f by blast
qed

theorem dirlink_spec_witness:
  "\<exists>s'. dirlink 0 [103] 3 img_fs = Some (0, s') \<and> dir_find (content s') (inodes s' 0) [103] = Some 3 \<and>
     dir_find (content s') (inodes s' 0) [102] = Some 2"
proof -
  have t: "tx {} (22 + 7) img_fs" using img_ok(1) by simp
  have f: "2 \<le> nfree (content img_fs) (sb img_fs)" unfolding img_nfree by simp
  have z: "unat (isize (inodes img_fs 0)) + 16 \<le> FILEMAX" unfolding img_dir_size by simp
  have n: "fname [103] = [103]" "fname [102] = [102]" by (simp_all add: fname_eq)
  have g: "dir_find (content img_fs) (inodes img_fs 0) [103] = None" unfolding img_dir_find n by simp
  have i: "(ucast (3 :: u32) :: u16) \<noteq> 0" by simp
  have "[0..<unat (48 :: u32) div 16] = [0, 1, 2]" by (simp add: upt_rec)
  then have sl: "3 = dir_slot (content img_fs) (inodes img_fs 0)"
    unfolding dir_slot_def img_dir_size using img_dir_entry by (simp add: mk_dirent_fields)
  show ?thesis using dirlink_spec [OF t img_dir_ok img_bitmap(1) f z g i sl] n unfolding img_dir_find by (auto simp: n)
qed

end
