(* ===== verification/FsPath.thy ===== *)
theory FsPath
  imports FsDir
begin

text \<open>
  Path names.  The reference is the tree on the disk: \<open>resolve\<close> follows the components of a path from directory to
  directory, over inode numbers and the contents of blocks.  \<open>namei\<close> and \<open>nameiparent\<close> walk it through the
  inode table, taking and giving up references and locks; they find the inode of the reference, and in
  the table only the reference they return is new.
\<close>

section \<open>The tree on the disk\<close>

definition dnode :: "(u32 \<Rightarrow> blk) \<Rightarrow> superblock \<Rightarrow> u32 \<Rightarrow> inode" where
  "dnode c x i = dinode c x i \<lparr>idev = ROOTDEV, inum = i, iref = 0, ilck = \<lparr>slocked = 0, spid = 0\<rparr>, ivalid = False,
     itype = 0, imajor = 0, iminor = 0, inlink = 0, isize = 0, addrs = []\<rparr>"

definition dir_lookup :: "(u32 \<Rightarrow> blk) \<Rightarrow> superblock \<Rightarrow> u32 \<Rightarrow> u8 list \<Rightarrow> u32 option" where
  "dir_lookup c x i name =
     map_option (\<lambda>k. ucast (de_inum (dir_entry c (dnode c x i) k))) (dir_find c (dnode c x i) name)"

primrec resolve :: "(u32 \<Rightarrow> blk) \<Rightarrow> superblock \<Rightarrow> u32 \<Rightarrow> u8 list list \<Rightarrow> u32 option" where
  "resolve c x i [] = Some i"
| "resolve c x i (w # ws) =
     (if itype (dnode c x i) \<noteq> T_DIR then None
      else case dir_lookup c x i w of None \<Rightarrow> None | Some j \<Rightarrow> resolve c x j ws)"

text \<open>The directory that holds the last component.\<close>

definition resolve_parent :: "(u32 \<Rightarrow> blk) \<Rightarrow> superblock \<Rightarrow> u32 \<Rightarrow> u8 list list \<Rightarrow> u32 option" where
  "resolve_parent c x i ws =
     (if ws = [] then None
      else case resolve c x i (butlast ws) of
        None \<Rightarrow> None | Some j \<Rightarrow> if itype (dnode c x j) = T_DIR then Some j else None)"

text \<open>The components of a path: the longest pieces without a slash.\<close>

function components :: "u8 list \<Rightarrow> u8 list list" where
  "components p =
     (case p of
        [] \<Rightarrow> []
      | c # q \<Rightarrow> if c = SLASH then components q
                else (c # takeWhile (\<lambda>c. c \<noteq> SLASH) q) # components (dropWhile (\<lambda>c. c \<noteq> SLASH) q))"
  by pat_completeness auto

termination components
  by (relation "measure length") (auto simp: le_imp_less_Suc length_dropWhile_le)

declare components.simps [simp del]

lemma components_Nil [simp]: "components [] = []"
  by (simp add: components.simps)

lemma components_slash [simp]: "components (SLASH # p) = components p"
  by (simp add: components.simps [of "SLASH # p"])

lemma components_drop_slash: "components (dropWhile (\<lambda>c. c = SLASH) p) = components p"
  by (induction p) (auto simp: components.simps [of "SLASH # _"])

text \<open>Every inode of the set \<open>U\<close> is in use, linked and well-formed, and its entries lead to inodes of the set.\<close>

definition tree_ok :: "(u32 \<Rightarrow> blk) \<Rightarrow> superblock \<Rightarrow> u32 set \<Rightarrow> bool" where
  "tree_ok c x U \<longleftrightarrow>
     (\<forall>i\<in>U. let y = dnode c x i in itype y \<noteq> 0 \<and> inlink y \<noteq> 0 \<and> file_ok c x y \<and>
        (itype y = T_DIR \<longrightarrow> unat (isize y) \<le> FILEMAX \<and> 16 dvd unat (isize y) \<and>
           (\<forall>j<unat (isize y). file_addr c y (j div BSIZE) \<noteq> 0) \<and>
           (\<forall>k<unat (isize y) div 16. de_inum (dir_entry c y k) \<noteq> 0 \<longrightarrow> ucast (de_inum (dir_entry c y k)) \<in> U)))"

lemma tree_okD:
  assumes "tree_ok c x U" and "i \<in> U"
  shows "itype (dnode c x i) \<noteq> 0" "inlink (dnode c x i) \<noteq> 0" "file_ok c x (dnode c x i)"
  using assms by (auto simp: tree_ok_def Let_def)

lemma dir_lookup_in:
  assumes "tree_ok c x U" and "i \<in> U" and "itype (dnode c x i) = T_DIR" and "dir_lookup c x i w = Some j"
  shows "j \<in> U"
  using assms by (auto simp: tree_ok_def Let_def dir_lookup_def dir_find_def dest!: find_SomeD)

section \<open>The inode table during a walk\<close>

definition on_disk :: "(u32 \<Rightarrow> blk) \<Rightarrow> superblock \<Rightarrow> inode \<Rightarrow> bool" where
  "on_disk c x y \<longleftrightarrow> dinode c x (inum y) y = y"

lemma dinode_eq: "dinode c x i y = same_dinode (dnode c x i) y"
  by (simp add: dnode_def dinode_def get_dinode_def same_dinode_def)

lemma inum_dnode [simp]: "inum (dnode c x i) = i"
  by (simp add: dnode_def dinode_def get_dinode_def)

lemma inum_same_dinode [simp]: "inum (same_dinode z y) = inum y"
  by (simp add: same_dinode_def)

lemma on_disk_fields:
  assumes "on_disk c x y"
  shows "itype y = itype (dnode c x (inum y))" "inlink y = inlink (dnode c x (inum y))"
    "isize y = isize (dnode c x (inum y))" "addrs y = addrs (dnode c x (inum y))"
proof -
  have e: "same_dinode (dnode c x (inum y)) y = y" using assms by (simp add: on_disk_def dinode_eq)
  show "itype y = itype (dnode c x (inum y))" using arg_cong [OF e, of itype] by (simp add: same_dinode_def)
  show "inlink y = inlink (dnode c x (inum y))" using arg_cong [OF e, of inlink] by (simp add: same_dinode_def)
  show "isize y = isize (dnode c x (inum y))" using arg_cong [OF e, of isize] by (simp add: same_dinode_def)
  show "addrs y = addrs (dnode c x (inum y))" using arg_cong [OF e, of addrs] by (simp add: same_dinode_def)
qed

lemma file_view_cong:
  assumes "addrs y = addrs z" and "isize y = isize z" and "inum y = inum z"
  shows "file_ok c x y = file_ok c x z" "file_addr c y = file_addr c z" "dir_entry c y = dir_entry c z" "dir_find c y = dir_find c z"
proof -
  show a: "file_addr c y = file_addr c z" using assms by (simp add: fun_eq_iff file_addr_def)
  show "file_ok c x y = file_ok c x z" using assms by (simp add: file_ok_def a)
  show e: "dir_entry c y = dir_entry c z" by (simp add: fun_eq_iff dir_entry_def idata_def a)
  show "dir_find c y = dir_find c z" using assms by (simp add: fun_eq_iff dir_find_def e)
qed

text \<open>\<open>tab k s0 m L s\<close>: since \<open>s0\<close> a walk has taken \<open>m i\<close> references to entry \<open>i\<close> and holds the locks of the entries in
  \<open>L\<close>; entries in use are unique, of the one device, and like their inodes on the disk once read.\<close>

definition entry_ok :: "'a fs_scheme \<Rightarrow> nat set \<Rightarrow> nat \<Rightarrow> inode \<Rightarrow> bool" where
  "entry_ok s0 L i y \<longleftrightarrow>
     (0 < iref y \<longrightarrow> idev y = ROOTDEV \<and> (ivalid y \<longrightarrow> on_disk (content s0) (sb s0) y)) \<and>
     (if i \<in> L then holdingsleep (mypid s0) (ilck y) else slocked (ilck y) = 0)"

definition tab :: "nat \<Rightarrow> 'a fs_scheme \<Rightarrow> (nat \<Rightarrow> int) \<Rightarrow> nat set \<Rightarrow> 'a fs_scheme \<Rightarrow> bool" where
  "tab k s0 m L s \<longleftrightarrow>
     tx {} k s \<and> content s = content s0 \<and> kept s0 s \<and> itable_ok (inodes s) \<and>
     (\<forall>i<NINODE. entry_ok s0 L i (inodes s i)) \<and>
     (\<forall>i. 0 \<le> m i \<and> iref (inodes s i) = iref (inodes s0 i) + m i \<and>
        (0 < iref (inodes s0 i) \<longrightarrow> inum (inodes s i) = inum (inodes s0 i)))"

lemma tabD:
  assumes "tab k s0 m L s"
  shows "tx {} k s" "content s = content s0" "kept s0 s" "itable_ok (inodes s)" "sb s = sb s0" "mypid s = mypid s0"
    "i < NINODE \<Longrightarrow> 0 < iref (inodes s i) \<Longrightarrow> idev (inodes s i) = ROOTDEV"
    "i < NINODE \<Longrightarrow> 0 < iref (inodes s i) \<Longrightarrow> ivalid (inodes s i) \<Longrightarrow> on_disk (content s0) (sb s0) (inodes s i)"
    "i < NINODE \<Longrightarrow> i \<in> L \<Longrightarrow> holdingsleep (mypid s0) (ilck (inodes s i))"
    "i < NINODE \<Longrightarrow> i \<notin> L \<Longrightarrow> slocked (ilck (inodes s i)) = 0"
    "0 \<le> m i" "iref (inodes s i) = iref (inodes s0 i) + m i"
    "0 < iref (inodes s0 i) \<Longrightarrow> inum (inodes s i) = inum (inodes s0 i)"
  using assms by (auto simp: tab_def kept_def entry_ok_def)

lemma tab_reread:
  assumes T: "tab k s0 m L s" and r: "tx {} k s'" "content s' = content s" "frame s' = frame s"
  shows "tab k s0 m L s'"
  using T r(1) unfolding tab_def kept_def frame_fs [OF r(3)] r(2) by blast

text \<open>A step on one entry in use.\<close>

lemma tab_upd:
  assumes T: "tab k s0 m L s" and i: "i < NINODE" "0 < iref (inodes s i)"
    and y: "inum y = inum (inodes s i)" "idev y = idev (inodes s i)" "iref y = iref (inodes s i) + d" "0 \<le> m i + d" "0 \<le> iref y"
    and v: "ivalid y \<Longrightarrow> on_disk (content s0) (sb s0) y"
    and l: "if i \<in> L' then holdingsleep (mypid s0) (ilck y) else slocked (ilck y) = 0" "\<And>j. j \<noteq> i \<Longrightarrow> j \<in> L' \<longleftrightarrow> j \<in> L"
  shows "tab k s0 (m(i := m i + d)) L' (upd_inode i (\<lambda>_. y) s)"
proof -
  note D = tabD [OF T]
  have tb: "itable_ok ((inodes s)(i := y))" using D(4) i y(1,2,5) unfolding itable_ok_def by (auto split: if_splits)
  have row: "entry_ok s0 L' j (((inodes s)(i := y)) j)" if "j < NINODE" for j
  proof (cases "j = i")
    case True
    then show ?thesis using D(7) [OF i] y(2) v l(1) by (simp add: entry_ok_def)
  next
    case False
    then show ?thesis using D(7-10) [OF that] l(2) by (auto simp: entry_ok_def)
  qed
  have cnt: "0 \<le> (m(i := m i + d)) j \<and> iref (((inodes s)(i := y)) j) = iref (inodes s0 j) + (m(i := m i + d)) j \<and>
        (0 < iref (inodes s0 j) \<longrightarrow> inum (((inodes s)(i := y)) j) = inum (inodes s0 j))" for j
    using D(11-13) [of j] y by (cases "j = i") auto
  show ?thesis unfolding tab_def upd_inode_fields using D(1-6) tb row cnt by (intro conjI allI impI) simp_all
qed

lemma same_dinode_iref: "same_dinode z (y\<lparr>iref := r\<rparr>) = (same_dinode z y)\<lparr>iref := r\<rparr>" "same_dinode z (y\<lparr>ilck := l\<rparr>) = (same_dinode z y)\<lparr>ilck := l\<rparr>"
  "same_dinode z (y\<lparr>ivalid := v\<rparr>) = (same_dinode z y)\<lparr>ivalid := v\<rparr>" "same_dinode z (same_dinode z y) = same_dinode z y"
  by (simp_all add: same_dinode_def)

lemma on_disk_upd:
  "on_disk c x y \<Longrightarrow> on_disk c x (y\<lparr>iref := r\<rparr>)" "on_disk c x y \<Longrightarrow> on_disk c x (y\<lparr>ilck := l\<rparr>)"
  "on_disk c x y \<Longrightarrow> on_disk c x (y\<lparr>ivalid := v\<rparr>)" "on_disk c x (dinode c x (inum y) y)"
  by (simp_all add: on_disk_def dinode_eq same_dinode_iref)

lemma upd_inode_at: "upd_inode i f s = upd_inode i (\<lambda>_. f (inodes s i)) s"
  by (simp add: upd_inode_def)

lemma tab_take:
  assumes "tab k s0 m L s" and "i < NINODE" "0 < iref (inodes s i)"
  shows "tab k s0 (m(i := m i + 1)) L (upd_inode i (\<lambda>x. x\<lparr>iref := iref x + 1\<rparr>) s)"
  unfolding upd_inode_at [of i "\<lambda>x. x\<lparr>iref := iref x + 1\<rparr>"]
  by (rule tab_upd [OF assms]) (use tabD [OF assms(1)] assms(2,3) in \<open>auto simp: on_disk_upd\<close>)

lemma tab_iget:
  assumes T: "tab k s0 m L s" and fr: "j < NINODE" "iref (inodes s j) = 0"
  shows "\<exists>ip s'. iget ROOTDEV ino s = Some (ip, s') \<and> ip < NINODE \<and> inum (inodes s' ip) = ino \<and>
    tab k s0 (m(ip := m ip + 1)) L s' \<and> (\<forall>i. i \<noteq> ip \<longrightarrow> inodes s' i = inodes s i)"
proof (cases "find (\<lambda>j. names_inode ROOTDEV ino (inodes s j)) [0..<NINODE]")
  case (Some ip)
  then have ip: "ip < NINODE" "0 < iref (inodes s ip)" "inum (inodes s ip) = ino" by (auto simp: names_inode_def dest!: find_SomeD)
  have "iget ROOTDEV ino s = Some (ip, upd_inode ip (\<lambda>x. x\<lparr>iref := iref x + 1\<rparr>) s)" by (simp add: iget_ok Some)
  then show ?thesis using tab_take [OF T ip(1,2)] ip by auto
next
  case None
  note D = tabD [OF T]
  obtain ip where f: "find (\<lambda>j. iref (inodes s j) = 0) [0..<NINODE] = Some ip"
    using fr by (cases "find (\<lambda>j. iref (inodes s j) = 0) [0..<NINODE]") (auto simp: find_None_iff)
  then have ip: "ip < NINODE" "iref (inodes s ip) = 0" by (auto dest!: find_SomeD)
  define y where "y = (inodes s ip)\<lparr>idev := ROOTDEV, inum := ino, iref := 1, ivalid := False\<rparr>"
  define s' where "s' = upd_inode ip (\<lambda>x. x\<lparr>idev := ROOTDEV, inum := ino, iref := 1, ivalid := False\<rparr>) s"
  have g: "iget ROOTDEV ino s = Some (ip, s')" by (simp add: iget_ok None f s'_def)
  have i': "inodes s' = (inodes s)(ip := y)" by (simp add: s'_def y_def)
  have other: "\<not> (0 < iref (inodes s j) \<and> idev (inodes s j) = ROOTDEV \<and> inum (inodes s j) = ino)" if "j < NINODE" for j
    using None that by (auto simp: find_None_iff names_inode_def)
  have tb: "itable_ok (inodes s')" unfolding i' using D(4) other unfolding itable_ok_def y_def by auto
  have iref0: "iref (inodes s0 ip) = 0" "m ip = 0" if "0 \<le> iref (inodes s0 ip)" using D(11,12) [of ip] ip(2) that by auto
  have cnt: "0 \<le> (m(ip := m ip + 1)) j \<and> iref (inodes s' j) = iref (inodes s0 j) + (m(ip := m ip + 1)) j \<and>
        (0 < iref (inodes s0 j) \<longrightarrow> inum (inodes s' j) = inum (inodes s0 j))" for j
    using D(11-13) [of j] ip(2) unfolding i' by (cases "j = ip") (auto simp: y_def)
  have row: "entry_ok s0 L j (inodes s' j)" if "j < NINODE" for j
    using D(7-10) [OF that] unfolding i' by (cases "j = ip") (auto simp: y_def entry_ok_def)
  have "tx {} k s'" "content s' = content s0" "kept s0 s'" "sb s' = sb s0" "mypid s' = mypid s0" using D(1-6) by (simp_all add: s'_def)
  then have "tab k s0 (m(ip := m ip + 1)) L s'" unfolding tab_def using tb row cnt by blast
  then show ?thesis using g ip i' by (intro exI [of _ ip] exI [of _ s']) (simp add: y_def)
qed

lemma tab_ilock:
  assumes T: "tab k s0 m L s" and ip: "ip < NINODE" "0 < iref (inodes s ip)" "ip \<notin> L"
    and U: "tree_ok (content s0) (sb s0) U" "inum (inodes s ip) \<in> U"
  shows "\<exists>s'. ilock ip s = Some s' \<and> tab k s0 m (insert ip L) s' \<and> ivalid (inodes s' ip) \<and> inum (inodes s' ip) = inum (inodes s ip)"
proof -
  note D = tabD [OF T]
  define x where "x = inodes s ip"
  define y where "y = (if ivalid x then x else dinode (content s) (sb s) (inum x) x)\<lparr>ivalid := True, ilck := \<lparr>slocked = 1, spid = mypid s\<rparr>\<rparr>"
  have f: "IBLOCK (inum x) (sb s) \<noteq> 0" using tree_okD(3) [OF U] D(5) by (simp add: file_ok_def x_def)
  have ty: "itype (dinode (content s) (sb s) (inum x) x) \<noteq> 0"
    using tree_okD(1) [OF U] D(2,5) by (simp add: dinode_eq same_dinode_def x_def)
  have r: "1 \<le> iref x" "slocked (ilck x) = 0" using ip D(10) by (auto simp: x_def)
  obtain s' where s': "ilock ip s = Some s'" "tx {} k s'" "content s' = content s" "frame s' = frame (upd_inode ip (\<lambda>_. y) s)"
    using ilock_ok [OF D(1) x_def r f _ _ ty] by (auto simp: y_def)
  have yf: "inum y = inum x" "idev y = idev x" "iref y = iref x" "ivalid y"
    by (simp_all add: y_def dinode_eq same_dinode_def)
  have od: "on_disk (content s0) (sb s0) y"
    using D(8) [OF ip(1,2)] D(2,5) by (auto simp: y_def x_def on_disk_upd)
  have "tab k s0 (m(ip := m ip + 0)) (insert ip L) (upd_inode ip (\<lambda>_. y) s)"
    by (rule tab_upd [OF T ip(1,2)]) (use yf od D(6,11) ip in \<open>auto simp: x_def y_def holdingsleep_def\<close>)
  then have "tab k s0 m (insert ip L) (upd_inode ip (\<lambda>_. y) s)" by simp
  then have "tab k s0 m (insert ip L) s'" by (rule tab_reread) (use s' in simp_all)
  moreover have "inodes s' ip = y" using frame_fs(2) [OF s'(4)] by simp
  ultimately show ?thesis using s'(1) yf by (auto simp: x_def)
qed

lemma tab_iunlock:
  assumes T: "tab k s0 m L s" and ip: "ip < NINODE" "0 < iref (inodes s ip)" "ip \<in> L"
  shows "\<exists>s'. iunlock ip s = Some s' \<and> tab k s0 m (L - {ip}) s' \<and>
    inodes s' = (inodes s)(ip := (inodes s ip)\<lparr>ilck := releasesleep (ilck (inodes s ip))\<rparr>)"
proof -
  note D = tabD [OF T]
  define y where "y = (inodes s ip)\<lparr>ilck := releasesleep (ilck (inodes s ip))\<rparr>"
  have "tab k s0 (m(ip := m ip + 0)) (L - {ip}) (upd_inode ip (\<lambda>_. y) s)"
    by (rule tab_upd [OF T ip(1,2)]) (use D(8) [OF ip(1,2)] D(11) ip in \<open>auto simp: y_def releasesleep_def on_disk_upd\<close>)
  moreover have "iunlock ip s = Some (upd_inode ip (\<lambda>_. y) s)"
    using D(6) D(9) [OF ip(1,3)] ip(2) by (simp add: iunlock_def y_def upd_inode_def)
  ultimately show ?thesis by (auto simp: y_def)
qed

lemma tab_iput:
  assumes T: "tab k s0 m L s" and ip: "ip < NINODE" "0 < iref (inodes s ip)" "1 \<le> m ip" "ip \<notin> L"
    and U: "tree_ok (content s0) (sb s0) U" "inum (inodes s ip) \<in> U"
  shows "\<exists>s'. iput ip s = Some s' \<and> tab k s0 (m(ip := m ip - 1)) L s' \<and> inodes s' = (inodes s)(ip := (inodes s ip)\<lparr>iref := iref (inodes s ip) - 1\<rparr>)"
proof -
  note D = tabD [OF T]
  define y where "y = (inodes s ip)\<lparr>iref := iref (inodes s ip) - 1\<rparr>"
  have "inlink (inodes s ip) \<noteq> 0" if "ivalid (inodes s ip)"
    using on_disk_fields(2) [OF D(8) [OF ip(1,2) that]] tree_okD(2) [OF U] by simp
  then have "iput ip s = Some (upd_inode ip (\<lambda>_. y) s)" by (auto simp: iput_def y_def upd_inode_def)
  moreover have "tab k s0 (m(ip := m ip + - 1)) L (upd_inode ip (\<lambda>_. y) s)"
    by (rule tab_upd [OF T ip(1,2)]) (use D(8) [OF ip(1,2)] D(10) [OF ip(1,4)] ip in \<open>auto simp: y_def on_disk_upd\<close>)
  ultimately show ?thesis by (auto simp: y_def)
qed

section \<open>Components\<close>

lemma fname_word: "0 \<notin> set w \<Longrightarrow> fname w = take DIRSIZ w"
  unfolding fname_eq by (rule takeWhile_eq_all_conv [THEN iffD2]) (auto dest: in_set_takeD)

lemma components_none: "hd p \<noteq> SLASH \<Longrightarrow> components p = [] \<longleftrightarrow> p = []"
  by (subst components.simps) (auto split: list.splits)

lemma skipelem_components:
  assumes z: "0 \<notin> set path" and l: "length name = DIRSIZ"
  shows "case skipelem path name of
      None \<Rightarrow> components path = []
    | Some (path', name') \<Rightarrow> (\<exists>w. components path = w # components path' \<and> fname name' = fname w) \<and>
        (path' = [] \<longleftrightarrow> components path' = []) \<and> 0 \<notin> set path' \<and> length name' = DIRSIZ"
proof -
  define p where "p = dropWhile (\<lambda>c. c = SLASH) path"
  have cp: "components path = components p" by (simp add: p_def components_drop_slash)
  show ?thesis
  proof (cases p)
    case Nil
    then show ?thesis using cp by (simp add: skipelem_def flip: p_def)
  next
    case (Cons c q)
    have c: "c \<noteq> SLASH" using Cons hd_dropWhile [of "\<lambda>c. c = SLASH" path] by (simp add: p_def)
    define w where "w = takeWhile (\<lambda>c. c \<noteq> SLASH) p"
    define r where "r = dropWhile (\<lambda>c. c \<noteq> SLASH) p"
    define path' where "path' = dropWhile (\<lambda>c. c = SLASH) r"
    define name' where "name' = (if DIRSIZ \<le> length w then put_at 0 (take DIRSIZ w) name else put_at 0 (w @ [0]) name)"
    have r: "drop (length w) p = r" by (simp add: w_def r_def dropWhile_eq_drop)
    have sk: "skipelem path name = Some (path', name')"
      unfolding skipelem_def Let_def p_def [symmetric] w_def [symmetric] r path'_def [symmetric] name'_def [symmetric] using Cons by simp
    have sub: "set p \<subseteq> set path" "set w \<subseteq> set p" "set path' \<subseteq> set p"
      by (auto simp: p_def w_def path'_def r_def dest: set_dropWhileD set_takeWhileD)
    have wz: "0 \<notin> set w" "0 \<notin> set path'" using sub z by auto
    have "components p = w # components r" using Cons c by (simp add: components.simps [of "c # q"] w_def r_def)
    then have comp: "components path = w # components path'" using cp by (simp add: path'_def components_drop_slash)
    have len: "length name' = DIRSIZ" using l by (auto simp: name'_def put_at_def)
    have "fname name' = fname w"
    proof (cases "DIRSIZ \<le> length w")
      case True
      then show ?thesis using l wz by (simp add: fname_word name'_def put_at_def min_def) (simp add: fname_eq takeWhile_eq_all_conv, metis in_set_takeD)
    next
      case False
      have "takeWhile (\<lambda>c. c \<noteq> 0) (take DIRSIZ (w @ 0 # u)) = w" for u
        using False wz by (auto simp: take_Cons' takeWhile_append)
      then have "fname name' = w" using False by (simp add: name'_def put_at_def fname_eq)
      then show ?thesis using False wz by (simp add: fname_word)
    qed
    moreover have "path' = [] \<longleftrightarrow> components path' = []"
    proof (cases "path' = []")
      case False
      then have "hd path' \<noteq> SLASH" using hd_dropWhile [of "\<lambda>c. c = SLASH" r] by (simp only: path'_def not_False_eq_True)
      then show ?thesis using components_none by blast
    qed simp
    ultimately show ?thesis using sk comp wz len by simp
  qed
qed

section \<open>Walking a path\<close>

text \<open>What a walk ends with: nothing taken, or one reference to the inode.\<close>

definition one_ref :: "nat \<Rightarrow> nat \<Rightarrow> int" where
  "one_ref ip = (\<lambda>i. if i = ip then 1 else 0)"

definition found :: "nat \<Rightarrow> 'a fs_scheme \<Rightarrow> u32 option \<Rightarrow> nat option \<Rightarrow> 'a fs_scheme \<Rightarrow> bool" where
  "found k s0 tgt r s \<longleftrightarrow>
     (case tgt of
        None \<Rightarrow> r = None \<and> tab k s0 (\<lambda>_. 0) {} s
      | Some j \<Rightarrow> \<exists>ip. r = Some ip \<and> ip < NINODE \<and> inum (inodes s ip) = j \<and> tab k s0 (one_ref ip) {} s)"

definition walk_target :: "bool \<Rightarrow> (u32 \<Rightarrow> blk) \<Rightarrow> superblock \<Rightarrow> u32 \<Rightarrow> u8 list list \<Rightarrow> u32 option" where
  "walk_target parent c x i ws = (if parent then resolve_parent c x i ws else resolve c x i ws)"

lemma walk_target_step:
  "walk_target parent c x i (w # ws) =
     (if itype (dnode c x i) \<noteq> T_DIR then None
      else if parent \<and> ws = [] then Some i
      else case dir_lookup c x i w of None \<Rightarrow> None | Some j \<Rightarrow> walk_target parent c x j ws)"
  by (cases ws) (auto simp: walk_target_def resolve_parent_def split: option.splits)

lemma one_ref_pos:
  assumes "itable_ok (inodes s0)" and "tab k s0 (one_ref ip) L s" and "ip < NINODE"
  shows "0 < iref (inodes s ip)"
  using assms tabD(12) [OF assms(2), of ip] by (auto simp: itable_ok_def one_ref_def)

lemma dir_ok_disk:
  assumes T: "tab k s0 m L s" and ip: "ip < NINODE" "0 < iref (inodes s ip)" "ivalid (inodes s ip)"
    and U: "tree_ok (content s0) (sb s0) U" "inum (inodes s ip) \<in> U" and d: "itype (inodes s ip) = T_DIR"
  shows "dir_ok s ip" "dir_find (content s) (inodes s ip) = dir_find (content s0) (dnode (content s0) (sb s0) (inum (inodes s ip)))"
    "dir_entry (content s) (inodes s ip) = dir_entry (content s0) (dnode (content s0) (sb s0) (inum (inodes s ip)))"
proof -
  note D = tabD [OF T]
  note f = on_disk_fields [OF D(8) [OF ip]]
  note c = file_view_cong [OF f(4,3), simplified]
  have "let y = dnode (content s0) (sb s0) (inum (inodes s ip)) in itype y \<noteq> 0 \<and> inlink y \<noteq> 0 \<and> file_ok (content s0) (sb s0) y \<and>
        (itype y = T_DIR \<longrightarrow> unat (isize y) \<le> FILEMAX \<and> 16 dvd unat (isize y) \<and>
           (\<forall>j<unat (isize y). file_addr (content s0) y (j div BSIZE) \<noteq> 0))"
    using U unfolding tree_ok_def Let_def by blast
  then show "dir_ok s ip" using d f c D(2,5) unfolding dir_ok_def no_holes_def Let_def by metis
  show "dir_find (content s) (inodes s ip) = dir_find (content s0) (dnode (content s0) (sb s0) (inum (inodes s ip)))"
    "dir_entry (content s) (inodes s ip) = dir_entry (content s0) (dnode (content s0) (sb s0) (inum (inodes s ip)))"
    using c(3,4) D(2) by simp_all
qed

lemma tab_iunlockput:
  assumes T: "tab k s0 m {ip} s" and ip: "ip < NINODE" "0 < iref (inodes s ip)" "1 \<le> m ip"
    and U: "tree_ok (content s0) (sb s0) U" "inum (inodes s ip) \<in> U"
  shows "\<exists>s'. iunlockput ip s = Some s' \<and> tab k s0 (m(ip := m ip - 1)) {} s' \<and> (\<forall>i. inum (inodes s' i) = inum (inodes s i))"
proof -
  obtain s1 where a: "iunlock ip s = Some s1" "tab k s0 m {} s1" "inodes s1 = (inodes s)(ip := (inodes s ip)\<lparr>ilck := releasesleep (ilck (inodes s ip))\<rparr>)"
    using tab_iunlock [OF T ip(1,2)] by auto
  obtain s2 where b: "iput ip s1 = Some s2" "tab k s0 (m(ip := m ip - 1)) {} s2"
      "inodes s2 = (inodes s1)(ip := (inodes s1 ip)\<lparr>iref := iref (inodes s1 ip) - 1\<rparr>)"
    using tab_iput [OF a(2) ip(1) _ ip(3) _ U(1)] ip(2) U(2) a(3) by auto
  show ?thesis using a b by (intro exI [of _ s2]) (auto simp: iunlockput_def)
qed

lemma another_free:
  assumes "2 \<le> card {j. j < NINODE \<and> P j}"
  shows "\<exists>f<NINODE. P f \<and> f \<noteq> i"
proof (rule ccontr)
  assume "\<not> ?thesis"
  then have "{j. j < NINODE \<and> P j} \<subseteq> {i}" by auto
  then have "card {j. j < NINODE \<and> P j} \<le> card {i}" by (intro card_mono) simp_all
  then show False using assms by simp
qed

text \<open>One step: the locked directory is searched, and its reference is given up for the one to the inode found.\<close>

lemma path_step:
  assumes I0: "itable_ok (inodes s0)" and T: "tab k s0 (one_ref ip) {ip} s" and ip: "ip < NINODE" "ivalid (inodes s ip)"
    and U: "tree_ok (content s0) (sb s0) U" "i = inum (inodes s ip)" "i \<in> U" and d: "itype (inodes s ip) = T_DIR"
    and sp: "2 \<le> card {j. j < NINODE \<and> iref (inodes s0 j) = 0}"
  shows "\<exists>r s1 s'. dirlookup ip name s = Some (r, s1) \<and> iunlockput ip s1 = Some s' \<and>
    (case dir_lookup (content s0) (sb s0) i name of
       None \<Rightarrow> r = None \<and> tab k s0 (\<lambda>_. 0) {} s'
     | Some j \<Rightarrow> \<exists>nip off. r = Some (nip, off) \<and> nip < NINODE \<and> inum (inodes s' nip) = j \<and> j \<in> U \<and> tab k s0 (one_ref nip) {} s')"
proof -
  note pos = one_ref_pos [OF I0 T ip(1)]
  note dk = dir_ok_disk [OF T ip(1) pos ip(2) U(1) U(3) [unfolded U(2)] d]
  let ?f = "dir_find (content s) (inodes s ip) name"
  have lk: "dir_lookup (content s0) (sb s0) i name = map_option (\<lambda>k. ucast (de_inum (dir_entry (content s) (inodes s ip) k))) ?f"
    using dk(2,3) U(2) by (simp add: dir_lookup_def)
  have ty: "itype (dnode (content s0) (sb s0) i) = T_DIR"
    using on_disk_fields(1) [OF tabD(8) [OF T ip(1) pos ip(2)]] d U(2) by simp
  obtain s1 where r: "reread k s s1" and e: "dirlookup ip name s = (case ?f of None \<Rightarrow> Some (None, s1)
      | Some i \<Rightarrow> iget (idev (inodes s ip)) (ucast (de_inum (dir_entry (content s) (inodes s ip) i))) s1 \<bind> (\<lambda>(ip, s'). Some (Some (ip, of_nat (16 * i)), s')))"
    using dirlookup_ok [OF tabD(1) [OF T] dk(1), of name] by blast
  have T1: "tab k s0 (one_ref ip) {ip} s1" and i1: "inodes s1 = inodes s" using tab_reread [OF T] rereadD [OF r] by simp_all
  show ?thesis
  proof (cases ?f)
    case None
    have "(one_ref ip)(ip := one_ref ip ip - 1) = (\<lambda>_. 0)" by (auto simp: one_ref_def)
    then obtain s' where "iunlockput ip s1 = Some s'" "tab k s0 (\<lambda>_. 0) {} s'"
      using tab_iunlockput [OF T1 ip(1) _ _ U(1)] pos U(2,3) i1 by (auto simp: one_ref_def)
    then show ?thesis using None e lk by auto
  next
    case (Some q)
    define j where "j = (ucast (de_inum (dir_entry (content s) (inodes s ip) q)) :: u32)"
    have lj: "dir_lookup (content s0) (sb s0) i name = Some j" using lk Some by (simp add: j_def)
    have jU: "j \<in> U" by (rule dir_lookup_in [OF U(1,3) ty lj])
    have dev: "idev (inodes s ip) = ROOTDEV" by (rule tabD(7) [OF T ip(1) pos])
    obtain f where f: "f < NINODE" "iref (inodes s0 f) = 0" "f \<noteq> ip" using another_free [OF sp] by blast
    have f0: "iref (inodes s1 f) = 0" using tabD(12) [OF T1, of f] f by (simp add: one_ref_def)
    obtain nip s2 where g: "iget ROOTDEV j s1 = Some (nip, s2)" "nip < NINODE" "inum (inodes s2 nip) = j"
        "tab k s0 ((one_ref ip)(nip := one_ref ip nip + 1)) {ip} s2" "\<forall>i. i \<noteq> nip \<longrightarrow> inodes s2 i = inodes s1 i"
      using tab_iget [OF T1 f(1) f0, of j] by blast
    have pos2: "0 < iref (inodes s2 ip)" using tabD(12) [OF g(4), of ip] tabD(12) [OF T, of ip] pos by (auto simp: one_ref_def split: if_splits)
    have in2: "inum (inodes s2 ip) \<in> U" using g(3,5) jU U(2,3) i1 by (cases "ip = nip") auto
    have m: "((one_ref ip)(nip := one_ref ip nip + 1))(ip := ((one_ref ip)(nip := one_ref ip nip + 1)) ip - 1) = one_ref nip"
      by (auto simp: one_ref_def)
    have m1: "1 \<le> ((one_ref ip)(nip := one_ref ip nip + 1)) ip" by (auto simp: one_ref_def)
    obtain s' where u: "iunlockput ip s2 = Some s'" "tab k s0 (one_ref nip) {} s'" "\<forall>i. inum (inodes s' i) = inum (inodes s2 i)"
      using tab_iunlockput [OF g(4) ip(1) pos2 m1 U(1) in2] unfolding m by blast
    have "dirlookup ip name s = Some (Some (nip, of_nat (16 * q)), s2)" using e Some g(1) dev by (simp add: j_def)
    then show ?thesis using u g(2,3) lj jU by (intro exI [of _ "Some (nip, of_nat (16 * q))"] exI [of _ s2] exI [of _ s']) auto
  qed
qed

declare namex_loop.simps [simp del]

lemma dir_lookup_cong: "fname w = fname w' \<Longrightarrow> dir_lookup c x i w = dir_lookup c x i w'"
  by (simp add: dir_lookup_def dir_find_def)

lemma namex_loop_ok:
  assumes I0: "itable_ok (inodes s0)" and U: "tree_ok (content s0) (sb s0) U"
    and sp: "2 \<le> card {j. j < NINODE \<and> iref (inodes s0 j) = 0}"
    and "tab k s0 (one_ref ip) {} s" and "ip < NINODE" and "inum (inodes s ip) \<in> U"
    and "0 \<notin> set path" and "length name = DIRSIZ"
  shows "\<exists>r nm s'. namex_loop path parent name ip s = Some ((r, nm), s') \<and>
    found k s0 (walk_target parent (content s0) (sb s0) (inum (inodes s ip)) (components path)) r s' \<and>
    (parent \<longrightarrow> r \<noteq> None \<longrightarrow> fname nm = fname (last (components path)))"
  using assms(4-)
proof (induction "length path" arbitrary: path name ip s rule: less_induct)
  case less
  note T = less.prems(1) and ip = less.prems(2)
  let ?c = "content s0" and ?x = "sb s0" and ?i = "inum (inodes s ip)"
  note pos = one_ref_pos [OF I0 T ip]
  note sk = skipelem_components [OF less.prems(4,5)]
  show ?case
  proof (cases "skipelem path name")
    case None
    then have c: "components path = []" using sk by simp
    show ?thesis
    proof (cases parent)
      case True
      have z: "(one_ref ip)(ip := one_ref ip ip - 1) = (\<lambda>_. 0)" by (auto simp: one_ref_def)
      obtain s' where "iput ip s = Some s'" "tab k s0 (\<lambda>_. 0) {} s'"
        using tab_iput [OF T ip pos _ _ U less.prems(3)] unfolding z by (auto simp: one_ref_def)
      then show ?thesis using None True c
        by (simp add: namex_loop.simps [of path] found_def walk_target_def resolve_parent_def)
    next
      case False
      then show ?thesis using None c T ip
        by (simp add: namex_loop.simps [of path] found_def walk_target_def)
    qed
  next
    case (Some pn)
    obtain path' name' where pn: "skipelem path name = Some (path', name')" using Some by (cases pn) simp
    obtain w where w: "components path = w # components path'" "fname name' = fname w" and e: "path' = [] \<longleftrightarrow> components path' = []"
      and z: "0 \<notin> set path'" and l: "length name' = DIRSIZ" using sk pn by auto
    obtain s1 where lk: "ilock ip s = Some s1" "tab k s0 (one_ref ip) {ip} s1" "ivalid (inodes s1 ip)" "inum (inodes s1 ip) = ?i"
      using tab_ilock [OF T ip pos _ U less.prems(3)] by auto
    note pos1 = one_ref_pos [OF I0 lk(2) ip]
    have ty: "itype (inodes s1 ip) = itype (dnode ?c ?x ?i)" using on_disk_fields(1) [OF tabD(8) [OF lk(2) ip pos1 lk(3)]] lk(4) by simp
    show ?thesis
    proof (cases "itype (inodes s1 ip) = T_DIR")
      case False
      have m: "(one_ref ip)(ip := one_ref ip ip - 1) = (\<lambda>_. 0)" by (auto simp: one_ref_def)
      obtain s2 where "iunlockput ip s1 = Some s2" "tab k s0 (\<lambda>_. 0) {} s2"
        using tab_iunlockput [OF lk(2) ip pos1 _ U] less.prems(3) lk(4) unfolding m by (auto simp: one_ref_def)
      then show ?thesis using pn lk(1) False ty w(1) by (simp add: namex_loop.simps [of path] found_def walk_target_step)
    next
      case True
      show ?thesis
      proof (cases "parent \<and> path' = []")
        case last: True
        obtain s2 where "iunlock ip s1 = Some s2" "tab k s0 (one_ref ip) {} s2" "inum (inodes s2 ip) = ?i"
          using tab_iunlock [OF lk(2) ip pos1] lk(4) by auto
        then show ?thesis using pn lk(1) True ty w e last ip by (simp add: namex_loop.simps [of path] found_def walk_target_step)
      next
        case more: False
        have i1: "?i = inum (inodes s1 ip)" using lk(4) by simp
        obtain r s2 s3 where dl: "dirlookup ip name' s1 = Some (r, s2)" "iunlockput ip s2 = Some s3"
            "case dir_lookup ?c ?x ?i name' of None \<Rightarrow> r = None \<and> tab k s0 (\<lambda>_. 0) {} s3
             | Some j \<Rightarrow> \<exists>nip off. r = Some (nip, off) \<and> nip < NINODE \<and> inum (inodes s3 nip) = j \<and> j \<in> U \<and> tab k s0 (one_ref nip) {} s3"
          using path_step [OF I0 lk(2) ip lk(3) U i1 less.prems(3) True sp] by blast
        have step: "namex_loop path parent name ip s =
            (case r of None \<Rightarrow> Some ((None, name'), s3) | Some (nip, _) \<Rightarrow> namex_loop path' parent name' nip s3)"
          unfolding namex_loop.simps [of path] using pn lk(1) True more dl(1,2) by (auto split: option.splits)
        have tgt: "walk_target parent ?c ?x ?i (components path) =
            (case dir_lookup ?c ?x ?i name' of None \<Rightarrow> None | Some j \<Rightarrow> walk_target parent ?c ?x j (components path'))"
          using w e more ty True dir_lookup_cong [OF w(2)] by (auto simp: walk_target_step)
        show ?thesis
        proof (cases "dir_lookup ?c ?x ?i name'")
          case None
          then show ?thesis using dl(3) step tgt by (simp add: found_def)
        next
          case (Some j)
          then obtain nip off where n: "r = Some (nip, off)" "nip < NINODE" "inum (inodes s3 nip) = j" "j \<in> U" "tab k s0 (one_ref nip) {} s3"
            using dl(3) by auto
          have "\<exists>r nm s'. namex_loop path' parent name' nip s3 = Some ((r, nm), s') \<and>
              found k s0 (walk_target parent ?c ?x (inum (inodes s3 nip)) (components path')) r s' \<and>
              (parent \<longrightarrow> r \<noteq> None \<longrightarrow> fname nm = fname (last (components path')))"
            by (rule less.hyps) (use skipelem_shorter [OF pn] n z l in auto)
          then show ?thesis using step tgt Some n(1,3) w(1) e more by auto
        qed
      qed
    qed
  qed
qed

lemma namex_ok:
  assumes I0: "itable_ok (inodes s)" and U: "tree_ok (content s) (sb s) U" "ROOTINO \<in> U" and T: "tab k s (\<lambda>_. 0) {} s"
    and sp: "2 \<le> card {j. j < NINODE \<and> iref (inodes s j) = 0}"
    and cwd: "cwd < NINODE" "0 < iref (inodes s cwd)" "inum (inodes s cwd) \<in> U"
    and path: "0 \<notin> set path" and name: "length name = DIRSIZ"
    and start: "i = (if path \<noteq> [] \<and> hd path = SLASH then ROOTINO else inum (inodes s cwd))"
  shows "\<exists>r nm s'. namex cwd path parent name s = Some ((r, nm), s') \<and>
    found k s (walk_target parent (content s) (sb s) i (components path)) r s' \<and>
    (parent \<longrightarrow> r \<noteq> None \<longrightarrow> fname nm = fname (last (components path)))"
proof -
  have e: "(\<lambda>_. 0)(ip := (\<lambda>_. 0 :: int) ip + 1) = one_ref ip" for ip :: nat by (auto simp: one_ref_def)
  have "\<exists>ip s1. (case path of c # _ \<Rightarrow> if c = SLASH then iget ROOTDEV ROOTINO s else Some (idup cwd s) | [] \<Rightarrow> Some (idup cwd s)) = Some (ip, s1) \<and>
      ip < NINODE \<and> inum (inodes s1 ip) = i \<and> tab k s (one_ref ip) {} s1"
  proof (cases "path \<noteq> [] \<and> hd path = SLASH")
    case True
    then obtain q where q: "path = SLASH # q" by (cases path) auto
    obtain f where f: "f < NINODE" "iref (inodes s f) = 0" using another_free [OF sp] by blast
    show ?thesis using tab_iget [OF T f, of ROOTINO] True start unfolding q e by auto
  next
    case False
    then have "(case path of c # _ \<Rightarrow> if c = SLASH then iget ROOTDEV ROOTINO s else Some (idup cwd s) | [] \<Rightarrow> Some (idup cwd s)) = Some (idup cwd s)"
      by (cases path) auto
    then show ?thesis using tab_take [OF T cwd(1,2)] False start cwd unfolding e by (auto simp: idup_def)
  qed
  then obtain ip s1 where b: "(case path of c # _ \<Rightarrow> if c = SLASH then iget ROOTDEV ROOTINO s else Some (idup cwd s) | [] \<Rightarrow> Some (idup cwd s)) = Some (ip, s1)"
      "ip < NINODE" "inum (inodes s1 ip) = i" "tab k s (one_ref ip) {} s1" by blast
  have "i \<in> U" using start U(2) cwd(3) by simp
  then show ?thesis
    using namex_loop_ok [OF I0 U(1) sp b(4,2) _ path name, of parent] b(1,3) unfolding namex_def by simp
qed

section \<open>The tree of the example\<close>

lemma img_dnode: "dnode (content img_fs) (sb img_fs) 1 = same_dinode (inodes img_fs 0) (dnode (content img_fs) (sb img_fs) 1)"
  "dnode (content img_fs) (sb img_fs) 2 = same_dinode (inodes img_fs 1) (dnode (content img_fs) (sb img_fs) 2)"
  "i < 2 \<Longrightarrow> on_disk (content img_fs) (sb img_fs) (inodes img_fs i)"
proof -
  have len: "length (addrs (img_inodes 0)) = 13" "length (addrs (img_inodes 1)) = 13" by (simp_all add: img_inodes_def img_inode_def)
  define d0 where "d0 = put_dinode (img_inodes 0) 64 (replicate BSIZE 0)"
  have d0: "length d0 = BSIZE" using len by (simp add: d0_def length_put_dinode)
  have b: "content img_fs 32 = put_dinode (img_inodes 1) 128 d0" by (simp add: img_ok img_disk_def d0_def)
  have g1: "get_dinode (content img_fs 32) 64 y = same_dinode (img_inodes 0) y" for y
    unfolding b using len d0 by (subst get_put_dinode_other) (simp_all add: d0_def get_put_dinode)
  have g2: "get_dinode (content img_fs 32) 128 y = same_dinode (img_inodes 1) y" for y
    unfolding b using len d0 by (simp add: get_put_dinode)
  have e1: "dinode (content img_fs) (sb img_fs) 1 y = same_dinode (img_inodes 0) y" for y
    using g1 by (simp add: dinode_def IBLOCK_def dinode_at_def img_ok(3) img_sb_def)
  have e2: "dinode (content img_fs) (sb img_fs) 2 y = same_dinode (img_inodes 1) y" for y
    using g2 by (simp add: dinode_def IBLOCK_def dinode_at_def img_ok(3) img_sb_def)
  show "dnode (content img_fs) (sb img_fs) 1 = same_dinode (inodes img_fs 0) (dnode (content img_fs) (sb img_fs) 1)"
    "dnode (content img_fs) (sb img_fs) 2 = same_dinode (inodes img_fs 1) (dnode (content img_fs) (sb img_fs) 2)"
    unfolding img_ok(4) by (simp_all only: dnode_def e1 e2 same_dinode_iref)
  have i: "inum (img_inodes 0) = 1" "inum (img_inodes 1) = 2" by (simp_all add: img_inodes_def img_inode_def)
  have s: "same_dinode y y = y" for y by (simp add: same_dinode_def)
  show "on_disk (content img_fs) (sb img_fs) (inodes img_fs i)" if "i < 2"
    using that i e1 e2 s unfolding on_disk_def img_ok(4) by (auto simp: less_2_cases_iff)
qed

lemma img_dnode_fields:
  "itype (dnode (content img_fs) (sb img_fs) 1) = T_DIR" "inlink (dnode (content img_fs) (sb img_fs) 1) = 1"
  "isize (dnode (content img_fs) (sb img_fs) 1) = isize (inodes img_fs 0)" "addrs (dnode (content img_fs) (sb img_fs) 1) = addrs (inodes img_fs 0)"
  "itype (dnode (content img_fs) (sb img_fs) 2) = T_FILE" "inlink (dnode (content img_fs) (sb img_fs) 2) = 1"
  "isize (dnode (content img_fs) (sb img_fs) 2) = isize (inodes img_fs 1)" "addrs (dnode (content img_fs) (sb img_fs) 2) = addrs (inodes img_fs 1)"
  using img_dnode(1,2) [THEN arg_cong, of itype] img_dnode(1,2) [THEN arg_cong, of inlink]
    img_dnode(1,2) [THEN arg_cong, of isize] img_dnode(1,2) [THEN arg_cong, of addrs]
  by (simp_all add: same_dinode_def img_ok(4) img_inodes_def img_inode_def)

lemma img_view:
  "file_ok (content img_fs) (sb img_fs) (dnode (content img_fs) (sb img_fs) 1)"
  "file_ok (content img_fs) (sb img_fs) (dnode (content img_fs) (sb img_fs) 2)"
  "file_addr (content img_fs) (dnode (content img_fs) (sb img_fs) 1) = file_addr (content img_fs) (inodes img_fs 0)"
  "dir_entry (content img_fs) (dnode (content img_fs) (sb img_fs) 1) = dir_entry (content img_fs) (inodes img_fs 0)"
  "dir_find (content img_fs) (dnode (content img_fs) (sb img_fs) 1) = dir_find (content img_fs) (inodes img_fs 0)"
proof -
  have i: "inum (inodes img_fs 0) = 1" "inum (inodes img_fs 1) = 2" by (simp_all add: img_ok(4) img_inodes_def img_inode_def)
  note a = file_view_cong [OF img_dnode_fields(4,3), unfolded inum_dnode i, OF refl]
  note b = file_view_cong [OF img_dnode_fields(8,7), unfolded inum_dnode i, OF refl]
  show "file_ok (content img_fs) (sb img_fs) (dnode (content img_fs) (sb img_fs) 1)"
    "file_ok (content img_fs) (sb img_fs) (dnode (content img_fs) (sb img_fs) 2)"
    using a(1) b(1) img_dir_file img_file_ok by simp_all
  show "file_addr (content img_fs) (dnode (content img_fs) (sb img_fs) 1) = file_addr (content img_fs) (inodes img_fs 0)"
    "dir_entry (content img_fs) (dnode (content img_fs) (sb img_fs) 1) = dir_entry (content img_fs) (inodes img_fs 0)"
    "dir_find (content img_fs) (dnode (content img_fs) (sb img_fs) 1) = dir_find (content img_fs) (inodes img_fs 0)"
    using a(2-4) by simp_all
qed

lemma img_tree: "tree_ok (content img_fs) (sb img_fs) {1, 2}"
proof -
  have e: "de_inum (dir_entry (content img_fs) (inodes img_fs 0) k) \<in> {1, 2}" if "k < 3" for k
  proof -
    from that consider "k = 0" | "k = 1" | "k = 2" by linarith
    then show ?thesis using img_dir_entry by cases (simp_all add: mk_dirent_fields)
  qed
  have "(ucast (de_inum (dir_entry (content img_fs) (inodes img_fs 0) k)) :: u32) \<in> {1, 2}" if "k < 3" for k
    using e [OF that] by auto
  moreover have "file_addr (content img_fs) (inodes img_fs 0) (j div BSIZE) \<noteq> 0" if "j < 48" for j
    using that img_dir_addr [of "j div BSIZE"] by simp
  ultimately show ?thesis unfolding tree_ok_def Let_def using img_dnode_fields img_view img_dir_size(1) by auto
qed

lemma img_tab: "tab 29 img_fs (\<lambda>_. 0) {} img_fs"
proof -
  have e: "entry_ok img_fs {} i (inodes img_fs i)" for i
    using img_dnode(3) [of i] by (auto simp: entry_ok_def img_ok(4) img_inodes_def img_inode_def)
  have "itable_ok (inodes img_fs)" by (auto simp: itable_ok_def img_ok(4) img_inodes_def img_inode_def)
  then show ?thesis using e img_ok(1) by (simp add: tab_def kept_def)
qed

section \<open>Properties\<close>

text \<open>C15. Path names.  In a file system whose directories are well-formed, with the inode table idle and two of its entries
  free, \<open>namei\<close> returns a reference to the inode to which the path leads on the disk, from the root or from
  the current directory, and nothing when it leads nowhere; \<open>nameiparent\<close> does so for the directory of the
  last component and leaves its name.  No block changes, every lock is free again, and no other
  reference count of the table is different.\<close>

theorem path_resolution:
  assumes "tab k s (\<lambda>_. 0) {} s" and "tree_ok (content s) (sb s) U" and "ROOTINO \<in> U"
    and "2 \<le> card {j. j < NINODE \<and> iref (inodes s j) = 0}"
    and "cwd < NINODE" and "0 < iref (inodes s cwd)" and "inum (inodes s cwd) \<in> U" and "0 \<notin> set path"
    and "i = (if path \<noteq> [] \<and> hd path = SLASH then ROOTINO else inum (inodes s cwd))" and "length name = DIRSIZ"
  shows "(\<exists>r s'. namei cwd path s = Some (r, s') \<and> found k s (resolve (content s) (sb s) i (components path)) r s') \<and>
    (\<exists>r name' s'. nameiparent cwd path name s = Some ((r, name'), s') \<and>
       found k s (resolve_parent (content s) (sb s) i (components path)) r s' \<and>
       (r \<noteq> None \<longrightarrow> fname name' = fname (last (components path))))"
proof -
  have I: "itable_ok (inodes s)" by (rule tabD(4) [OF assms(1)])
  note n = namex_ok [OF I assms(2,3,1,4-8) _ assms(9)]
  show ?thesis using n [of "replicate DIRSIZ 0" False] n [OF assms(10), of True]
    by (fastforce simp: namei_def nameiparent_def walk_target_def)
qed

theorem path_resolution_witness:
  "\<exists>ip s'. namei 0 [47, 102] img_fs = Some (Some ip, s') \<and> inum (inodes s' ip) = 2 \<and> content s' = content img_fs"
proof -
  have c: "components [102] = [[102]]" by (simp add: components.simps [of "[102]"])
  have "{j. j < NINODE \<and> iref (inodes img_fs j) = 0} = {2..<NINODE}" by (auto simp: img_ok(4) img_inodes_def img_inode_def)
  then have sp: "2 \<le> card {j. j < NINODE \<and> iref (inodes img_fs j) = 0}" by simp
  have w: "0 < iref (inodes img_fs 0)" "inum (inodes img_fs 0) \<in> {1, 2}" by (simp_all add: img_ok(4) img_inodes_def img_inode_def)
  have "fname [102] = [102]" by (simp add: fname_eq)
  then have "dir_lookup (content img_fs) (sb img_fs) 1 [102] = Some 2"
    using img_dir_entry(3) by (simp add: dir_lookup_def img_view img_dir_find mk_dirent_fields)
  then have r: "resolve (content img_fs) (sb img_fs) 1 (components [47, 102]) = Some 2"
    by (simp add: c img_dnode_fields)
  have "\<exists>r s'. namei 0 [47, 102] img_fs = Some (r, s') \<and> found 29 img_fs (resolve (content img_fs) (sb img_fs) 1 (components [47, 102])) r s'"
    using path_resolution [OF img_tab img_tree _ sp _ w, of "[47, 102]" 1 "replicate DIRSIZ 0"] by simp
  then show ?thesis unfolding r found_def using tabD(2) by fastforce
qed

end
