(* ===== verification/FsCrash.thy ===== *)
theory FsCrash imports FsDir KernSpec File
begin

text \<open>
  Transactions from \<^verbatim>\<open>begin_op\<close> to \<^verbatim>\<open>end_op\<close>, and what a crash in the middle of \<^verbatim>\<open>filewrite\<close> leaves on the disk:
  the log of \<^verbatim>\<open>log.c\<close>, the inode layer of \<^verbatim>\<open>fs.c\<close> and \<^verbatim>\<open>file.c\<close> put together.  At the end, how many blocks the
  operations that \<^verbatim>\<open>begin_op\<close> admits together can log.
\<close>

section \<open>A whole transaction\<close>

text \<open>Between two operations of the file system: the log is empty, no buffer is in use, and the cache holds what is
  on the disk.\<close>

definition log_idle :: "'a log_scheme \<Rightarrow> bool" where
  "log_idle s \<longleftrightarrow> quiet s \<and> (\<forall>b. refs s b = 0) \<and> content s = disk s \<and> lh_n s = 0 \<and> outstanding s = 0 \<and> \<not> committing s \<and>
     log_size s = int LOGSIZE \<and> head_n (disk s (log_start s)) = 0"

text \<open>Disks that agree outside the log; the disk writes of a run.\<close>

definition off_log :: "u32 \<Rightarrow> (u32 \<Rightarrow> blk) \<Rightarrow> (u32 \<Rightarrow> blk) \<Rightarrow> bool" where
  "off_log st d e \<longleftrightarrow> (\<forall>b. b \<notin> log_area (LOGSIZE - 1) st \<longrightarrow> d b = e b)"

definition ran :: "'a log_scheme \<Rightarrow> (u32 \<times> blk) list \<Rightarrow> 'a log_scheme \<Rightarrow> bool" where
  "ran s w s' \<longleftrightarrow> dwrites s' = dwrites s @ w \<and> disk s' = writes w (disk s) \<and> log_start s' = log_start s"

text \<open>What holds of the disk after a crash at any of the writes of a run and the recovery of the next boot.\<close>

definition recovers_to :: "'a log_scheme \<Rightarrow> (u32 \<times> blk) list \<Rightarrow> ((u32 \<Rightarrow> blk) \<Rightarrow> bool) \<Rightarrow> bool" where
  "recovers_to s w P \<longleftrightarrow>
     (\<forall>k (r :: 'a log_scheme). booted (log_start s) (writes (take k w) (disk s)) r \<longrightarrow>
        (\<exists>r'. recover_from_log r = Some r' \<and> P (disk r')))"

lemma ran_trans: "ran s v s1 \<Longrightarrow> ran s1 w s2 \<Longrightarrow> ran s (v @ w) s2"
  by (simp add: ran_def)

lemma recovers_mono: "recovers_to s w P \<Longrightarrow> (\<And>d. P d \<Longrightarrow> Q d) \<Longrightarrow> recovers_to s w Q"
  unfolding recovers_to_def by blast

lemma recovers_trans:
  fixes s :: "'a log_scheme"
  assumes r: "ran s v s1" and a: "recovers_to s v P" and b: "recovers_to s1 w P"
  shows "recovers_to s (v @ w) P"
  unfolding recovers_to_def
proof (intro allI impI)
  fix k and r :: "'a log_scheme"
  assume k: "booted (log_start s) (writes (take k (v @ w)) (disk s)) r"
  show "\<exists>r'. recover_from_log r = Some r' \<and> P (disk r')"
  proof (cases "k \<le> length v")
    case True
    then have "booted (log_start s) (writes (take k v) (disk s)) r" using k by simp
    then show ?thesis using a unfolding recovers_to_def by blast
  next
    case False
    then have "booted (log_start s1) (writes (take (k - length v) w) (disk s1)) r" using k r by (simp add: ran_def)
    then show ?thesis using b unfolding recovers_to_def by blast
  qed
qed

lemma begin_op_idle:
  assumes "log_idle s"
  shows "begin_op s = Some (s\<lparr>outstanding := 1\<rparr>)" "tx {} 29 (s\<lparr>outstanding := 1\<rparr>)"
proof -
  have "bc_inv (s\<lparr>outstanding := 1\<rparr>)" "content (s\<lparr>outstanding := 1\<rparr>) = content s" "refs (s\<lparr>outstanding := 1\<rparr>) = refs s"
      "held (s\<lparr>outstanding := 1\<rparr>) = held s"
    using assms view_cong [of "s\<lparr>outstanding := 1\<rparr>" s] by (simp_all add: log_idle_def quiet_def)
  then show "begin_op s = Some (s\<lparr>outstanding := 1\<rparr>)" "tx {} 29 (s\<lparr>outstanding := 1\<rparr>)"
    using assms by (simp_all add: begin_op_def log_idle_def quiet_def tx_def logged_def)
qed

lemma log_area_mono: "n \<le> m \<Longrightarrow> log_area n st \<subseteq> log_area m st"
  by (auto simp: log_area_def)

lemma tx_committable:
  assumes t: "tx {} k s" and n: "lh_n s = int n" "0 < n" and fits: "log_fits (log_start s)"
  shows "committable s n"
proof -
  have le: "n \<le> LOGSIZE - 1" using t n(1) by (simp add: tx_def)
  have lg: "logged s = set (take n (lh_block s))" using n(1) by (simp add: logged_def)
  have home: "loggable n (log_start s) b" if "b \<in> logged s" for b
    using that t log_area_mono [OF le, of "log_start s"] by (auto simp: tx_def home_def loggable_def)
  have r: "refs s b = (if b \<in> logged s then 1 else 0)" for b using t by (simp add: tx_def)
  have "refs s b = 0" if "b \<in> log_area n (log_start s)" for b using home that r by (auto simp: loggable_def)
  moreover have "card {b. 0 < refs s b} < NBUF" by (rule tx_room [OF t]) simp
  moreover have "quiet s" using t fits r by (simp add: quiet_def tx_def)
  ultimately show ?thesis using t n le home r lg by (simp add: committable_def tx_def)
qed

lemma quiet_cong:
  assumes "bufs s' = bufs s" "disk s' = disk s" "mypid s' = mypid s" "log_start s' = log_start s" "lh_block s' = lh_block s"
  shows "quiet s' = quiet s"
  using view_cong [OF assms(1-3)] assms(4,5) by (simp add: quiet_def)

lemma commit_cong: "rest s' = rest (s\<lparr>lh_n := 0\<rparr>) \<Longrightarrow> lh_n s' = 0 \<and> outstanding s' = outstanding s \<and> committing s' = committing s \<and>
    log_size s' = log_size s \<and> log_start s' = log_start s \<and> mypid s' = mypid s \<and> log.more s' = log.more s"
  for s s' :: "'a log_scheme"
  by (cases s; cases s') (simp add: rest_def)

lemma recover_off_log:
  assumes "log_fits st" and "\<And>b. b \<notin> log_area (LOGSIZE - 1) st \<Longrightarrow> \<exists>r'. recover_from_log r = Some r' \<and> disk r' b = d b"
  shows "\<exists>r'. recover_from_log r = Some r' \<and> off_log st (disk r') d"
proof -
  have "log_block st t \<noteq> 0" if "t < LOGSIZE - 1" for t using log_block_facts(1) [OF assms(1)] that by simp
  then have "0 \<notin> log_area (LOGSIZE - 1) st" using assms(1) by (force simp: log_area_def log_fits_def)
  then obtain r' where "recover_from_log r = Some r'" using assms(2) by blast
  then show ?thesis using assms(2) by (auto simp: off_log_def)
qed

lemma nothing_recovers:
  assumes fits: "log_fits (log_start s)" and head: "head_n (disk s (log_start s)) = 0"
  shows "recovers_to s [] (\<lambda>d. off_log (log_start s) d (disk s))"
  unfolding recovers_to_def
proof (intro allI impI)
  fix k :: nat and r
  assume "booted (log_start s) (writes (take k []) (disk s)) r"
  then have b: "booted (log_start s) (disk s) r" by simp
  show "\<exists>r'. recover_from_log r = Some r' \<and> off_log (log_start s) (disk r') (disk s)"
    by (rule recover_off_log [OF fits], rule recover_none [OF b head]) (use log_area_start in metis)
qed

text \<open>Only the blocks of the transaction are in use, and only they differ from the disk.\<close>

definition pinned :: "'a log_scheme \<Rightarrow> bool" where
  "pinned s \<longleftrightarrow> (\<forall>b. refs s b = (if b \<in> logged s then 1 else 0)) \<and> (\<forall>b. b \<notin> logged s \<longrightarrow> content s b = disk s b) \<and>
     lh_n s \<le> int (LOGSIZE - 1)"

lemma commit_recovers:
  assumes t: "pinned s" and c: "committable s n" and head: "head_n (disk s (log_start s)) = 0"
    and s': "commit s = Some s'" "dwrites s' = dwrites s @ w"
  shows "recovers_to s w (\<lambda>d. off_log (log_start s) d (disk s) \<or> off_log (log_start s) d (content s))"
  unfolding recovers_to_def
proof (intro allI impI)
  fix k :: nat and r
  assume "booted (log_start s) (writes (take k w) (disk s)) r"
  then have b: "booted (log_start s) (writes (take k (drop (length (dwrites s)) (dwrites s'))) (disk s)) r" using s'(2) by simp
  have n: "lh_n s = int n" and fits: "log_fits (log_start s)" using c by (simp_all add: committable_def quiet_def)
  then have le: "n \<le> LOGSIZE - 1" using t by (simp add: pinned_def)
  define d where "d = (if n < k then content s else disk s)"
  have "\<exists>r'. recover_from_log r = Some r' \<and> disk r' b = d b" if "b \<notin> log_area (LOGSIZE - 1) (log_start s)" for b
  proof -
    have "b \<notin> log_area n (log_start s)" using that log_area_mono [OF le] by blast
    moreover have "content s b = disk s b" if "b \<notin> set (take n (lh_block s))" using t n that by (simp add: pinned_def logged_def)
    ultimately show ?thesis using commit_crash [OF c head s'(1) refl b, of b]
      by (cases "b \<in> set (take n (lh_block s))") (auto simp: d_def)
  qed
  then have "\<exists>r'. recover_from_log r = Some r' \<and> off_log (log_start s) (disk r') d" by (rule recover_off_log [OF fits])
  then show "\<exists>r'. recover_from_log r = Some r' \<and>
      (off_log (log_start s) (disk r') (disk s) \<or> off_log (log_start s) (disk r') (content s))"
    by (auto simp: d_def split: if_splits)
qed

lemma writes_cong: "f b = g b \<Longrightarrow> writes w f b = writes w g b"
proof (induction w arbitrary: f g)
  case (Cons a w)
  show ?case by (cases a) (simp, rule Cons.IH, simp add: Cons.prems)
qed simp

lemma commit_clean:
  assumes t: "pinned s" and c: "committable s n"
  shows "\<exists>s' w. commit s = Some s' \<and> quiet s' \<and> rest s' = rest (s\<lparr>lh_n := 0\<rparr>) \<and> (\<forall>b. refs s' b = 0) \<and> content s' = disk s' \<and>
    head_n (disk s' (log_start s)) = 0 \<and> dwrites s' = dwrites s @ w \<and> disk s' = writes w (disk s) \<and>
    off_log (log_start s) (disk s') (content s)"
proof -
  define st bs where "st = log_start s" and "bs = take n (lh_block s)"
  obtain s' h h0 where q: "commit s = Some s'" "quiet s'" "rest s' = rest (s\<lparr>lh_n := 0\<rparr>)" "head_n h0 = 0"
    and w: "dwrites s' = dwrites s @ log_copy st bs (content s) @ [(st, h)] @ home_copy bs (content s) @ [(st, h0)]"
      "disk s' = writes (log_copy st bs (content s) @ [(st, h)] @ home_copy bs (content s) @ [(st, h0)]) (disk s)"
      "content s' = writes (log_copy st bs (content s) @ [(st, h)] @ home_copy bs (content s) @ [(st, h0)]) (content s)"
    and r: "refs s' = (\<lambda>b. if b \<in> set bs then refs s b - 1 else refs s b)"
    using commit_spec [OF c bs_def st_def] by blast
  have n: "lh_n s = int n" and le: "n \<le> LOGSIZE - 1" and len: "length bs = n"
    using c t by (auto simp: committable_def quiet_def pinned_def bs_def)
  have lg: "logged s = set bs" using n by (simp add: logged_def bs_def)
  have refs: "refs s' b = 0" for b using t r lg by (simp add: pinned_def)
  have same: "content s b = disk s b" if "b \<notin> set bs" for b using t that lg by (simp add: pinned_def)
  have eq: "writes (log_copy st bs (content s)) (content s) b = writes (log_copy st bs (content s)) (disk s) b" if "b \<notin> set bs" for b
    using same [OF that] by (rule writes_cong)
  have "content s' = disk s'" unfolding w using eq by (auto simp: home_copy_get)
  moreover have "off_log st (disk s') (content s)"
  proof -
    have "disk s' b = content s b" if "b \<notin> log_area (LOGSIZE - 1) st" for b
    proof -
      have b: "b \<notin> log_area n st" using that log_area_mono [OF le] by blast
      then have "b \<noteq> st" "b \<notin> fst ` set (log_copy st bs (content s))"
        using log_area_start log_copy_area [OF len] by (metis, blast)
      then show ?thesis unfolding w using same by (simp add: home_copy_get writes_other)
    qed
    then show ?thesis by (simp add: off_log_def)
  qed
  moreover have "head_n (disk s' st) = 0" unfolding w using q(4) by simp
  ultimately show ?thesis using q w refs unfolding st_def by blast
qed

text \<open>The end of the last operation commits: what the transaction left in the cache goes to the disk, and a crash at
  any of the writes loses or keeps all of it.\<close>

lemma end_op_commits:
  fixes s :: "'a log_scheme"
  assumes t: "tx {} k s" and one: "outstanding s = 1" "\<not> committing s" "log_size s = int LOGSIZE"
    and fits: "log_fits (log_start s)" and head: "head_n (disk s (log_start s)) = 0"
  shows "\<exists>s' w. end_op s = Some s' \<and> log_idle s' \<and> ran s w s' \<and> off_log (log_start s) (disk s') (content s) \<and>
    recovers_to s w (\<lambda>d. off_log (log_start s) d (disk s) \<or> off_log (log_start s) d (content s)) \<and> mypid s' = mypid s \<and> log.more s' = log.more s"
proof -
  obtain n where n: "lh_n s = int n" using t zero_le_imp_eq_int [of "lh_n s"] by (auto simp: tx_def)
  define s0 where "s0 = s\<lparr>outstanding := 0, committing := True\<rparr>"
  have e: "end_op s = do { s \<leftarrow> commit s0; Some (s\<lparr>committing := False\<rparr>) }" using one by (simp add: end_op_def s0_def Let_def)
  have v: "bc_inv s0 = bc_inv s" "content s0 = content s" "refs s0 = refs s" "held s0 = held s" "logged s0 = logged s" "quiet s0 = quiet s"
    using view_cong [of s0 s] quiet_cong [of s0 s] by (simp_all add: s0_def logged_def)
  have f: "disk s0 = disk s" "dwrites s0 = dwrites s" "log_start s0 = log_start s" "lh_n s0 = lh_n s" "lh_block s0 = lh_block s"
    "mypid s0 = mypid s" "log.more s0 = log.more s" "log_size s0 = log_size s" "outstanding s0 = 0"
    by (simp_all add: s0_def)
  have p: "pinned s0" using t v f by (simp add: pinned_def tx_def)
  show ?thesis
  proof (cases "n = 0")
    case True
    define s' where "s' = s\<lparr>outstanding := 0, committing := False\<rparr>"
    have "end_op s = Some s'" using True n by (simp add: e s0_def s'_def commit_def)
    moreover have c: "content s = disk s" using t True n by (auto simp: fun_eq_iff tx_def logged_def)
    moreover have "log_idle s'"
      using t one(3) fits head True n view_cong [of s' s] c by (simp add: log_idle_def quiet_def s'_def tx_def logged_def)
    moreover have "recovers_to s [] (\<lambda>d. off_log (log_start s) d (disk s) \<or> off_log (log_start s) d (content s))"
      by (rule recovers_mono [OF nothing_recovers [OF fits head]]) simp
    ultimately show ?thesis by (intro exI [of _ s'] exI [of _ "[]"]) (simp add: s'_def off_log_def ran_def)
  next
    case False
    then have "committable s n" using tx_committable [OF t n _ fits] by simp
    then have cm: "committable s0 n" using v f by (simp add: committable_def)
    obtain s1 w where q: "commit s0 = Some s1" "quiet s1" "rest s1 = rest (s0\<lparr>lh_n := 0\<rparr>)" "\<forall>b. refs s1 b = 0" "content s1 = disk s1"
        "head_n (disk s1 (log_start s)) = 0" "dwrites s1 = dwrites s @ w" "disk s1 = writes w (disk s)"
        "off_log (log_start s) (disk s1) (content s)"
      using commit_clean [OF p cm] unfolding f v by blast
    define s' where "s' = s1\<lparr>committing := False\<rparr>"
    note c = commit_cong [OF q(3)]
    have v': "quiet s' = quiet s1" "content s' = content s1" "refs s' = refs s1"
      using view_cong [of s' s1] quiet_cong [of s' s1] by (simp_all add: s'_def)
    have "log_idle s'" unfolding log_idle_def v' using q c f one(3) by (simp add: s'_def)
    moreover have "recovers_to s0 w (\<lambda>d. off_log (log_start s) d (disk s) \<or> off_log (log_start s) d (content s))"
      using commit_recovers [OF p cm _ q(1)] head q(7) unfolding f v by simp
    then have "recovers_to s w (\<lambda>d. off_log (log_start s) d (disk s) \<or> off_log (log_start s) d (content s))" by (simp add: recovers_to_def f)
    moreover have "ran s w s'" using q(7,8) c f by (simp add: ran_def s'_def)
    moreover have "end_op s = Some s'" using e q(1) by (simp add: s'_def)
    ultimately show ?thesis using q(9) c f by (intro exI [of _ s'] exI [of _ w]) (simp add: s'_def)
  qed
qed

section \<open>A file on the disk\<close>

definition blank_inode :: inode where
  "blank_inode = \<lparr>idev = 0, inum = 0, iref = 0, ilck = \<lparr>slocked = 0, spid = 0\<rparr>, ivalid = False, itype = 0, imajor = 0, iminor = 0,
     inlink = 0, isize = 0, addrs = []\<rparr>"

text \<open>The bytes of file \<open>i\<close>, read off the disk alone.\<close>

definition file_on :: "(u32 \<Rightarrow> blk) \<Rightarrow> superblock \<Rightarrow> u32 \<Rightarrow> u8 list" where
  "file_on d x i = (let y = dinode d x i blank_inode in map (idata d y) [0..<unat (isize y)])"

definition overlay :: "nat \<Rightarrow> u8 list \<Rightarrow> u8 list \<Rightarrow> u8 list" where
  "overlay off bs old = take off old @ bs @ drop (off + length bs) old"

lemma length_overlay: "off \<le> length old \<Longrightarrow> length (overlay off bs old) = max (length old) (off + length bs)"
  by (simp add: overlay_def)

lemma nth_overlay:
  assumes "off \<le> length old" "j < max (length old) (off + length bs)"
  shows "overlay off bs old ! j = (if off \<le> j \<and> j < off + length bs then bs ! (j - off) else old ! j)"
proof -
  consider "j < off" | "off \<le> j" "j < off + length bs" | "off + length bs \<le> j" "j < length old" using assms by linarith
  then show ?thesis using assms(1) by cases (auto simp: overlay_def nth_append)
qed

lemma overlay_nothing [simp]: "overlay off [] old = old"
  by (simp add: overlay_def)

lemma overlay_overlay:
  "off \<le> length old \<Longrightarrow> overlay (off + length bs) cs (overlay off bs old) = overlay off (bs @ cs) old"
  by (simp add: overlay_def ac_simps)

lemma overlay_map:
  assumes "off \<le> z" and "\<And>j. j < max z (off + length bs) \<Longrightarrow> g j = (if off \<le> j \<and> j < off + length bs then bs ! (j - off) else h j)"
  shows "map g [0..<max z (off + length bs)] = overlay off bs (map h [0..<z])"
proof (rule nth_equalityI)
  show "length (map g [0..<max z (off + length bs)]) = length (overlay off bs (map h [0..<z]))"
    using assms(1) by (simp add: length_overlay)
next
  fix j assume "j < length (map g [0..<max z (off + length bs)])"
  then have j: "j < max z (off + length bs)" by simp
  show "map g [0..<max z (off + length bs)] ! j = overlay off bs (map h [0..<z]) ! j"
    using j assms(1) assms(2) [OF j] by (subst nth_overlay) auto
qed

lemma home_off_log: "off_log st d c \<Longrightarrow> home st b \<Longrightarrow> d b = c b"
  by (simp add: off_log_def home_def loggable_def)

text \<open>The inode and the blocks of a file lie outside the log.\<close>

lemma file_off_log:
  assumes o: "off_log (sb_logstart x) d c" and f: "file_ok c x y"
    and bm: "\<And>b. b < unat (sb_size x) \<Longrightarrow> home (sb_logstart x) (BBLOCK b x)"
  shows "file_addr d y i = file_addr c y i" "j < FILEMAX \<Longrightarrow> idata d y j = idata c y j" "dinode d x (inum y) z = dinode c x (inum y) z"
    "nfree d x = nfree c x" "data_block d x = data_block c x" "file_ok d x y"
proof -
  have b: "d b = c b" if "b \<in> bmap_blocks x" for b using that bm home_off_log [OF o] by (auto simp: bmap_blocks_def)
  have h: "d (IBLOCK (inum y) x) = c (IBLOCK (inum y) x)" "addrs y ! NDIRECT \<noteq> 0 \<Longrightarrow> d (addrs y ! NDIRECT) = c (addrs y ! NDIRECT)"
    using f home_off_log [OF o] by (simp_all add: file_ok_def data_block_def)
  show fa: "file_addr d y i = file_addr c y i" for i by (rule file_addr_cong) (simp_all add: h(2))
  show "idata d y j = idata c y j" if "j < FILEMAX"
  proof -
    have "j div BSIZE < MAXFILE" using that by (simp add: less_mult_imp_div_less)
    then show ?thesis using fa home_off_log [OF o file_ok_home [OF f]] by (simp add: idata_def Let_def)
  qed
  show "dinode d x (inum y) z = dinode c x (inum y) z" using h(1) by (simp add: dinode_def)
  show "nfree d x = nfree c x" by (rule nfree_other [OF b])
  show db: "data_block d x = data_block c x" by (intro ext data_block_other [OF b])
  show "file_ok d x y" using f by (simp add: file_ok_def fa db)
qed

text \<open>A file that is open, and not locked: its inode is in memory and the same on the disk, its blocks are different
  blocks in use, and it has no holes.\<close>

definition idle_inode :: "nat \<Rightarrow> 'a fs_scheme \<Rightarrow> bool" where
  "idle_inode ip s \<longleftrightarrow> 1 \<le> iref (inodes s ip) \<and> slocked (ilck (inodes s ip)) = 0 \<and> ivalid (inodes s ip) \<and>
     file_ok (content s) (sb s) (inodes s ip) \<and> bitmap_ok {} s \<and> no_holes s ip \<and>
     (\<forall>y. dinode (content s) (sb s) (inum (inodes s ip)) y = same_dinode (inodes s ip) y)"

abbreviation (input) bytes :: "'a fs_scheme \<Rightarrow> nat \<Rightarrow> u8 list" where
  "bytes s ip \<equiv> map (fdata s ip) [0..<unat (isize (inodes s ip))]"

lemma idata_addrs: "addrs y = addrs z \<Longrightarrow> idata c y = idata c z"
  by (simp add: fun_eq_iff idata_def file_addr_def)

lemma file_on_off_log:
  assumes o: "idle_inode ip s" and d: "off_log (log_start s) d (content s)"
  shows "file_on d (sb s) (inum (inodes s ip)) = bytes s ip"
proof -
  define x where "x = inodes s ip"
  have ok: "bitmap_ok {} s" and f: "file_ok (content s) (sb s) x" and z: "unat (isize x) \<le> FILEMAX"
    and di: "dinode (content s) (sb s) (inum x) blank_inode = same_dinode x blank_inode"
    using o by (simp_all add: idle_inode_def no_holes_def x_def)
  note b = bitmap_okD(1,2) [OF ok]
  have d': "off_log (sb_logstart (sb s)) d (content s)" using d b(1) by simp
  note t = file_off_log [OF d' f b(2) [unfolded b(1)]]
  have "addrs (same_dinode x blank_inode) = addrs x" by (simp add: same_dinode_def)
  then have "idata d (same_dinode x blank_inode) = idata d x" by (rule idata_addrs)
  then have "file_on d (sb s) (inum x) = map (idata d x) [0..<unat (isize x)]"
    using t(3) di by (simp add: file_on_def same_dinode_def)
  also have "\<dots> = bytes s ip" using t(2) z by (simp add: fdata_idata x_def)
  finally show ?thesis by (simp add: x_def)
qed

lemma open_file_off_log:
  assumes o: "idle_inode ip s" and d: "off_log (log_start s) (content s') (content s)"
    and e: "sb s' = sb s" "log_start s' = log_start s" "inodes s' ip = inodes s ip"
  shows "idle_inode ip s'" "nfree (content s') (sb s) = nfree (content s) (sb s)" "bytes s' ip = bytes s ip"
    "others ip s' = others ip s"
proof -
  define x where "x = inodes s ip"
  have ok: "bitmap_ok {} s" and f: "file_ok (content s) (sb s) x" and h: "no_holes s ip" using o by (simp_all add: idle_inode_def x_def)
  note b = bitmap_okD(1,2) [OF ok]
  have d': "off_log (sb_logstart (sb s)) (content s') (content s)" using d b(1) by simp
  note t = file_off_log [OF d' f b(2) [unfolded b(1)]]
  show "nfree (content s') (sb s) = nfree (content s) (sb s)" by (rule t(4))
  have "content s' c = content s c" if "c \<in> bmap_blocks (sb s)" for c
    using that b(2) home_off_log [OF d] by (auto simp: bmap_blocks_def)
  then have "bitmap_ok {} s'" by (intro bitmap_ok_other [OF ok e(1,2)]) simp_all
  moreover have "no_holes s' ip" using h t(1) e(3) by (simp add: no_holes_def x_def)
  ultimately show "idle_inode ip s'" using o t(3,6) e by (simp add: idle_inode_def x_def)
  show "bytes s' ip = bytes s ip" using t(2) h e by (simp add: fdata_idata no_holes_def x_def)
  show "others ip s' = others ip s" using t(1,5) e by (simp add: fun_eq_iff others_def x_def)
qed

section \<open>One turn of \<open>filewrite\<close>\<close>

lemma log_more_fs:
  fixes s s' :: "'a fs_scheme"
  assumes "log.more s' = log.more s"
  shows "sb s' = sb s" "inodes s' = inodes s" "uart_out s' = uart_out s" "km s' = km s" "fs.more s' = fs.more s"
  using assms by (cases s; cases s'; simp)+

lemma tx_upd_file [simp]:
  "tx H k (upd_file i g s) = tx H k s" "content (upd_file i g s) = content s" "bat (upd_file i g s) = bat s"
  by (rule tx_cong; simp add: upd_file_def)+

lemma upd_file_kept:
  "sb (upd_file i g s) = sb s" "mypid (upd_file i g s) = mypid s" "uart_out (upd_file i g s) = uart_out s"
  "log_start (upd_file i g s) = log_start s" "log_size (upd_file i g s) = log_size s" "outstanding (upd_file i g s) = outstanding s"
  "committing (upd_file i g s) = committing s" "disk (upd_file i g s) = disk s" "dwrites (upd_file i g s) = dwrites s"
  "bufs (upd_file i g s) = bufs s" "lh_n (upd_file i g s) = lh_n s" "lh_block (upd_file i g s) = lh_block s"
  by (simp_all add: upd_file_def)

lemma uart_upd_inode [simp]: "uart_out (upd_inode ip g s) = uart_out s"
  by (simp add: upd_inode_def)

lemma blocks_touched_chunk: "n \<le> 3072 \<Longrightarrow> blocks_touched off n \<le> 4"
proof -
  assume n: "n \<le> 3072"
  have "(off + n - 1) div BSIZE \<le> (off + 3 * BSIZE) div BSIZE" using n by (intro div_le_mono) simp
  also have "\<dots> = off div BSIZE + 3" by simp
  finally have "(off + n - 1) div BSIZE - off div BSIZE \<le> 3" by linarith
  then show ?thesis by (simp add: blocks_touched_def)
qed

lemma lock_open_file:
  assumes o: "idle_inode ip s" and t: "tx {} k s"
  shows "\<exists>s'. ilock ip s = Some s' \<and> tx {} k s' \<and> content s' = content s \<and>
    frame s' = frame (upd_inode ip (\<lambda>x. x\<lparr>ilck := \<lparr>slocked = 1, spid = mypid s\<rparr>\<rparr>) s)"
proof -
  define x where "x = inodes s ip"
  have v: "ivalid x" and r: "1 \<le> iref x" "slocked (ilck x) = 0" and b: "IBLOCK (inum x) (sb s) \<noteq> 0"
    using o by (simp_all add: idle_inode_def file_ok_def x_def)
  have "x\<lparr>ivalid := True\<rparr> = x" using v by (cases x) simp
  then have "upd_inode ip (\<lambda>_. x\<lparr>ivalid := True, ilck := l\<rparr>) s = upd_inode ip (\<lambda>x. x\<lparr>ilck := l\<rparr>) s" for l
    by (simp add: upd_inode_def x_def)
  then show ?thesis using ilock_ok [OF t x_def r b] v by simp
qed

lemma ilck_file:
  "file_addr c (x\<lparr>ilck := l\<rparr>) i = file_addr c x i" "file_ok c b (x\<lparr>ilck := l\<rparr>) = file_ok c b x" "idata c (x\<lparr>ilck := l\<rparr>) = idata c x"
  "same_dinode (x\<lparr>ilck := l\<rparr>) y = same_dinode x y"
  by (simp_all add: file_addr_def file_ok_def same_dinode_def idata_def fun_eq_iff)

lemma lock_fs:
  fixes s :: "'a fs_scheme"
  assumes e: "inodes s' ip = (inodes s ip)\<lparr>ilck := l\<rparr>" "content s' = content s" "sb s' = sb s" "log_start s' = log_start s"
  shows "file_ok (content s') (sb s') (inodes s' ip) = file_ok (content s) (sb s) (inodes s ip)" "bitmap_ok {} s' = bitmap_ok {} s"
    "no_holes s' ip = no_holes s ip" "fdata s' ip = fdata s ip" "others ip s' = others ip s"
    "dinode (content s') (sb s') (inum (inodes s' ip)) y = same_dinode (inodes s' ip) y \<longleftrightarrow>
      dinode (content s) (sb s) (inum (inodes s ip)) y = same_dinode (inodes s ip) y"
  by (simp_all add: e ilck_file bitmap_ok_def no_holes_def fdata_idata others_def fun_eq_iff)

lemma lock_idle:
  fixes s :: "'a fs_scheme"
  assumes i: "log_idle s" and o: "idle_inode ip s" and s1: "s1 = s\<lparr>outstanding := 1\<rparr>" and l: "l = \<lparr>slocked = 1, spid = mypid s\<rparr>"
  shows "\<exists>s2. ilock ip s1 = Some s2 \<and> tx {} 29 s2 \<and> content s2 = content s \<and> inodes s2 = (inodes s)(ip := (inodes s ip)\<lparr>ilck := l\<rparr>) \<and>
    kept s1 s2"
proof -
  have c1: "content s1 = content s" using view_cong [of s1 s] by (simp add: s1)
  have o1: "idle_inode ip s1" by (rule open_file_off_log [OF o]) (simp_all add: c1 off_log_def, simp_all add: s1)
  obtain s2 where r: "ilock ip s1 = Some s2" "tx {} 29 s2" "content s2 = content s1"
      "frame s2 = frame (upd_inode ip (\<lambda>x. x\<lparr>ilck := \<lparr>slocked = 1, spid = mypid s1\<rparr>\<rparr>) s1)"
    using lock_open_file [OF o1] begin_op_idle(2) [OF i] s1 by blast
  note fr = frame_fs [OF r(4)]
  have "kept s1 s2" using fr by (simp add: kept_def upd_inode_def)
  then show ?thesis using r(1-3) c1 fr(2) by (intro exI [of _ s2]) (simp add: s1 l)
qed

text \<open>From the blocks \<open>c\<close> to the blocks \<open>d\<close>, nothing of other files has changed: neither their blocks nor their inodes, those in
  the block of this file's inode included.\<close>

definition spares :: "nat \<Rightarrow> 'a fs_scheme \<Rightarrow> (u32 \<Rightarrow> blk) \<Rightarrow> (u32 \<Rightarrow> blk) \<Rightarrow> bool" where
  "spares ip s c d \<longleftrightarrow>
     (\<forall>b. others ip s b \<longrightarrow> b \<noteq> IBLOCK (inum (inodes s ip)) (sb s) \<longrightarrow> d b = c b) \<and>
     (\<forall>j y. j \<noteq> inum (inodes s ip) \<longrightarrow> others ip s (IBLOCK j (sb s)) \<longrightarrow> dinode d (sb s) j y = dinode c (sb s) j y)"

lemma spares_refl [simp]: "spares ip s c c"
  by (simp add: spares_def)

lemma spares_trans:
  assumes "spares ip s c d" and "spares ip s' d e" and "\<forall>b. others ip s b \<longrightarrow> others ip s' b"
    and "sb s' = sb s" "inum (inodes s' ip) = inum (inodes s ip)"
  shows "spares ip s c e"
  using assms by (simp add: spares_def)

text \<open>In the transaction, with the inode locked: the bytes \<open>bs\<close> have been written at \<open>off\<close>.\<close>

definition tx_wrote :: "nat \<Rightarrow> nat \<Rightarrow> u8 list \<Rightarrow> 'a fs_scheme \<Rightarrow> 'a fs_scheme \<Rightarrow> bool" where
  "tx_wrote ip off bs s s3 \<longleftrightarrow> kept (s\<lparr>outstanding := 1\<rparr>) s3 \<and> ilck (inodes s3 ip) = \<lparr>slocked = 1, spid = mypid s\<rparr> \<and>
     (\<forall>j. j \<noteq> ip \<longrightarrow> inodes s3 j = inodes s j) \<and> inum (inodes s3 ip) = inum (inodes s ip) \<and>
     idle_inode ip (upd_inode ip (\<lambda>x. x\<lparr>ilck := releasesleep (ilck x)\<rparr>) s3) \<and>
     bytes s3 ip = overlay off bs (bytes s ip) \<and> nfree (content s) (sb s) \<le> nfree (content s3) (sb s) + 8 \<and>
     (\<forall>b. others ip s b \<longrightarrow> others ip s3 b) \<and> spares ip s (content s) (content s3)"

lemma overlay_bytes:
  assumes n: "off \<le> isize (inodes s ip)" "unat off + unat n \<le> FILEMAX" "length data = unat n" and h: "no_holes s ip"
    and z: "isize (inodes s' ip) = max (isize (inodes s ip)) (off + n)"
    and d: "\<And>j. j < FILEMAX \<Longrightarrow> fdata s' ip j = (if unat off \<le> j \<and> j < unat off + unat n then data ! (j - unat off) else fdata s ip j)"
  shows "bytes s' ip = overlay (unat off) data (bytes s ip)"
proof -
  define k where "k = unat (isize (inodes s ip))"
  have "unat (off + n) = unat off + unat n" using n(2) by (subst unat_plus_no_wrap) simp_all
  then have z': "unat (isize (inodes s' ip)) = max k (unat off + length data)"
    using n(3) by (simp add: z max_def word_le_nat_alt k_def)
  have m: "max k (unat off + length data) \<le> FILEMAX" using h n(2,3) by (simp add: no_holes_def k_def)
  have "fdata s' ip j = (if unat off \<le> j \<and> j < unat off + length data then data ! (j - unat off) else fdata s ip j)"
    if "j < max k (unat off + length data)" for j
    using d [OF less_le_trans [OF that m]] n(3) by simp
  note g = this
  have "unat off \<le> k" using n(1) by (simp add: word_le_nat_alt k_def)
  from overlay_map [OF this g] show ?thesis unfolding z' k_def .
qed

lemma write_open_file:
  fixes s :: "'a fs_scheme"
  assumes i: "log_idle s" and o: "idle_inode ip s" and n: "off \<le> isize (inodes s ip)" "unat off + unat n \<le> FILEMAX" "unat n \<le> 3072"
    and src: "supplies src obj data (km s)" "length data = unat n" and free: "8 \<le> nfree (content s) (sb s)"
    and s1: "s1 = s\<lparr>outstanding := 1\<rparr>"
  shows "\<exists>s2 s3. ilock ip s1 = Some s2 \<and> fs.more s2 = fs.more s \<and> writei ip src off n obj s2 = Some (int (unat n), s3) \<and>
    tx {} 0 s3 \<and> tx_wrote ip (unat off) data s s3"
proof -
  define x l where "x = inodes s ip" and "l = \<lparr>slocked = 1, spid = mypid s\<rparr>"
  obtain s2 where r: "ilock ip s1 = Some s2" "tx {} 29 s2" "content s2 = content s" "inodes s2 = (inodes s)(ip := x\<lparr>ilck := l\<rparr>)" "kept s1 s2"
    using lock_idle [OF i o s1 l_def] unfolding x_def by blast
  have e2: "sb s2 = sb s" "km s2 = km s" "log_start s2 = log_start s" "fs.more s2 = fs.more s" using r(5) by (simp_all add: kept_def s1)
  have "inodes s2 ip = (inodes s ip)\<lparr>ilck := l\<rparr>" using r(4) by (simp add: x_def)
  note lk = lock_fs [OF this r(3) e2(1,3)]
  define c where "c = blocks_touched (unat off) (unat n)"
  have c4: "c \<le> 4" using blocks_touched_chunk [OF n(3)] by (simp add: c_def)
  have t: "tx {} (0 + 6 * c + 1) s2" by (rule tx_less [OF r(2)]) (use c4 in simp)
  have f2: "file_ok (content s2) (sb s2) (inodes s2 ip)" and ok2: "bitmap_ok {} s2" and h: "no_holes s2 ip" "no_holes s ip"
    using o by (simp_all add: idle_inode_def lk)
  have fr2: "2 * c \<le> nfree (content s2) (sb s2)" and le2: "off \<le> isize (inodes s2 ip)" and src2: "supplies src obj data (km s2)"
    using free c4 n(1) src(1) by (simp_all add: r(3,4) e2 x_def)
  obtain s3 as where w: "writei ip src off n obj s2 = Some (int (unat n), s3)" "tx {} 0 s3" "kept s2 s3"
      "inodes s3 = (inodes s2)(ip := (inodes s2 ip)\<lparr>addrs := as, isize := max (isize (inodes s2 ip)) (off + n)\<rparr>)"
      "file_ok (content s3) (sb s3) (inodes s3 ip)" "bitmap_ok {} s3"
      "\<forall>y. dinode (content s3) (sb s2) (inum (inodes s2 ip)) y = same_dinode (inodes s3 ip) y"
      "\<forall>j<FILEMAX. fdata s3 ip j = (if unat off \<le> j \<and> j < unat off + unat n then data ! (j - unat off) else fdata s2 ip j)"
      "\<forall>b. others ip s2 b \<longrightarrow> b \<noteq> IBLOCK (inum (inodes s2 ip)) (sb s2) \<longrightarrow> others ip s3 b \<and> content s3 b = content s2 b"
      "no_holes s3 ip" "nfree (content s2) (sb s2) \<le> nfree (content s3) (sb s2) + 2 * c" "\<forall>b. others ip s2 b \<longrightarrow> others ip s3 b"
      "\<forall>j y. j \<noteq> inum (inodes s2 ip) \<longrightarrow> others ip s2 (IBLOCK j (sb s2)) \<longrightarrow> dinode (content s3) (sb s2) j y = dinode (content s2) (sb s2) j y"
    using writei_ok [OF t f2 ok2 fr2 refl le2 n(2) src2 src(2) c_def] h(1) by blast
  have x3: "inodes s3 ip = x\<lparr>ilck := l, addrs := as, isize := max (isize x) (off + n)\<rparr>" by (simp add: w(4) r(4))
  have k3: "kept s1 s3" "sb s2 = sb s3" using w(3) r(5) by (simp_all add: kept_def)
  have "bytes s3 ip = overlay (unat off) data (bytes s ip)"
    by (rule overlay_bytes [OF n(1,2) src(2) h(2)]) (use x3 w(8) lk(4) in \<open>simp_all add: x_def\<close>)
  moreover have "idle_inode ip (upd_inode ip (\<lambda>x. x\<lparr>ilck := releasesleep (ilck x)\<rparr>) s3)" (is "idle_inode ip ?s")
  proof -
    have "inodes ?s ip = (inodes s3 ip)\<lparr>ilck := releasesleep (ilck (inodes s3 ip))\<rparr>" "content ?s = content s3" "sb ?s = sb s3"
      "log_start ?s = log_start s3" by (simp_all add: upd_inode_def)
    note u = lock_fs [OF this]
    have "inum (inodes s2 ip) = inum (inodes s3 ip)" by (simp add: x3 r(4))
    then show ?thesis using w(5,6,7,10) k3(2) o unfolding idle_inode_def u by (simp add: x3 releasesleep_def x_def)
  qed
  moreover have "nfree (content s) (sb s) \<le> nfree (content s3) (sb s) + 8" using w(11) c4 e2 r(3) by simp
  moreover have "spares ip s (content s) (content s3)" using w(9,13) r(3,4) e2 lk(5) by (simp add: spares_def x_def)
  ultimately have "tx_wrote ip (unat off) data s s3"
    using k3(1) x3 w(4,12) r(3,4) e2 lk(5) by (simp add: tx_wrote_def s1 x_def l_def)
  then show ?thesis using r(1) e2(4) w(1,2) by blast
qed

lemma others_home:
  assumes "idle_inode ip s" "others jp s b"
  shows "home (log_start s) b"
proof -
  have "bitmap_ok {} s" "home (sb_logstart (sb s)) b" using assms by (simp_all add: idle_inode_def others_def data_block_def)
  then show ?thesis using bitmap_okD(1) [of "{}" s] by simp
qed

lemma spares_off_log:
  assumes "spares ip s c d" and "idle_inode ip s" and "off_log (log_start s) e d"
  shows "spares ip s c e"
proof -
  have "e b = d b" if "others ip s b" for b using home_off_log [OF assms(3) others_home [OF assms(2) that]] .
  then show ?thesis using assms(1) by (simp add: spares_def dinode_def)
qed

text \<open>From one idle state to another, the bytes \<open>bs\<close> have been written through the open file \<open>f\<close>.\<close>

definition wrote_file :: "nat \<Rightarrow> u8 list \<Rightarrow> 'a kern_scheme \<Rightarrow> 'a kern_scheme \<Rightarrow> bool" where
  "wrote_file f bs s s' \<longleftrightarrow>
     (let ip = fip (files s f) in
      log_idle s' \<and> idle_inode ip s' \<and> sb s' = sb s \<and> km s' = km s \<and> uart_out s' = uart_out s \<and> mypid s' = mypid s \<and>
      log_start s' = log_start s \<and> fs.more s' = fs.more (upd_file f (\<lambda>x. x\<lparr>foff := foff x + of_nat (length bs)\<rparr>) s) \<and>
      (\<forall>j. j \<noteq> ip \<longrightarrow> inodes s' j = inodes s j) \<and> inum (inodes s' ip) = inum (inodes s ip) \<and>
      bytes s' ip = overlay (unat (foff (files s f))) bs (bytes s ip) \<and>
      (\<forall>b. others ip s b \<longrightarrow> others ip s' b) \<and> spares ip s (disk s) (disk s'))"

lemma supplies_take: "supplies src obj data k \<Longrightarrow> supplies src obj (take m data) k"
proof -
  assume s: "supplies src obj data k"
  have "get_at t n (take m data) = get_at t n data" if "t + n \<le> length (take m data)" for t n
  proof -
    have "n \<le> m - t" using that by auto
    then show ?thesis by (simp add: get_at_def drop_take min_absorb1)
  qed
  then show ?thesis using s unfolding supplies_def by (auto split: addr.splits)
qed

lemma more_kern:
  fixes s s' :: "'a kern_scheme"
  assumes "fs.more s' = fs.more s"
  shows "files s' = files s" "procs s' = procs s"
  using assms by (cases s; cases s'; simp)+

lemma more_upd_file:
  fixes s s' :: "'a kern_scheme"
  assumes "fs.more s' = fs.more s"
  shows "fs.more (upd_file f g s') = fs.more (upd_file f g s)"
  using assms by (cases s; cases s') (simp add: upd_file_def)

lemma off_log_trans: "off_log st d c \<Longrightarrow> off_log st e c \<Longrightarrow> off_log st d e"
  by (simp add: off_log_def)

text \<open>The end of the transaction, after the offset of the open file has moved.\<close>

lemma write_ends:
  fixes s :: "'a kern_scheme"
  assumes i: "log_idle s" and t: "tx {} 0 s3" and x: "tx_wrote ip off bs s s3" and s4: "s4 = upd_file f g s3"
  shows "\<exists>s5 s6 w. iunlock ip s4 = Some s5 \<and> end_op s5 = Some s6 \<and> log_idle s6 \<and> ran s w s6 \<and> off_log (log_start s) (disk s6) (content s3) \<and>
    recovers_to s w (\<lambda>d. off_log (log_start s) d (disk s) \<or> off_log (log_start s) d (content s3)) \<and>
    log.more s6 = log.more (upd_inode ip (\<lambda>x. x\<lparr>ilck := releasesleep (ilck x)\<rparr>) s4) \<and> mypid s6 = mypid s"
proof -
  define s5 where "s5 = upd_inode ip (\<lambda>x. x\<lparr>ilck := releasesleep (ilck x)\<rparr>) s4"
  have k: "kept (s\<lparr>outstanding := 1\<rparr>) s3" and l: "ilck (inodes s3 ip) = \<lparr>slocked = 1, spid = mypid s\<rparr>" and "1 \<le> iref (inodes s3 ip)"
    using x by (simp_all add: tx_wrote_def idle_inode_def)
  moreover have "mypid s4 = mypid s" using k by (simp add: s4 upd_file_kept kept_def)
  ultimately have u: "iunlock ip s4 = Some s5" by (simp add: iunlock_def s5_def s4 holdingsleep_def)
  have e: "disk s5 = disk s" "dwrites s5 = dwrites s" "log_start s5 = log_start s" "log_size s5 = log_size s" "outstanding s5 = 1"
      "\<not> committing s5" "mypid s5 = mypid s"
    using k i by (simp_all add: kept_def s5_def s4 upd_inode_def upd_file_kept log_idle_def)
  have c: "content s5 = content s3" and t5: "tx {} 0 s5" using t by (simp_all add: s5_def s4)
  have "log_size s5 = int LOGSIZE" "log_fits (log_start s5)" "head_n (disk s5 (log_start s5)) = 0"
    using i e by (simp_all add: log_idle_def quiet_def)
  from end_op_commits [OF t5 e(5,6) this] obtain s6 w where "end_op s5 = Some s6" "log_idle s6" "ran s5 w s6"
      "off_log (log_start s) (disk s6) (content s3)"
      "recovers_to s5 w (\<lambda>d. off_log (log_start s) d (disk s) \<or> off_log (log_start s) d (content s3))"
      "mypid s6 = mypid s5" "log.more s6 = log.more s5"
    unfolding c e by blast
  then show ?thesis using u e
    by - (rule exI [of _ s5], rule exI [of _ s6], rule exI [of _ w], simp add: ran_def recovers_to_def s5_def)
qed

lemma tx_wrote_file:
  fixes s :: "'a kern_scheme"
  assumes i: "log_idle s" and o: "idle_inode ip s" and ip: "ip = fip (files s f)" and x: "tx_wrote ip (unat (foff (files s f))) bs s s3"
    and s4: "s4 = upd_file f (\<lambda>x. x\<lparr>foff := foff x + of_nat (length bs)\<rparr>) s3"
    and s6: "log_idle s6" "ran s w s6" "off_log (log_start s) (disk s6) (content s3)" "mypid s6 = mypid s"
      "log.more s6 = log.more (upd_inode ip (\<lambda>x. x\<lparr>ilck := releasesleep (ilck x)\<rparr>) s4)"
  shows "wrote_file f bs s s6" "nfree (content s) (sb s) \<le> nfree (content s6) (sb s) + 8"
proof -
  define S where "S = upd_inode ip (\<lambda>x. x\<lparr>ilck := releasesleep (ilck x)\<rparr>) s3"
  have k: "kept (s\<lparr>outstanding := 1\<rparr>) s3" and oS: "idle_inode ip S" and n: "\<And>j. j \<noteq> ip \<Longrightarrow> inodes s3 j = inodes s j"
    and bys: "bytes s3 ip = overlay (unat (foff (files s f))) bs (bytes s ip)" and nu: "inum (inodes s3 ip) = inum (inodes s ip)"
    and fr: "nfree (content s) (sb s) \<le> nfree (content s3) (sb s) + 8"
    and ot: "\<And>b. others ip s b \<Longrightarrow> others ip s3 b" and sp: "spares ip s (content s) (content s3)"
    using x by (simp_all add: tx_wrote_def S_def)
  note m = log_more_fs [OF s6(5)]
  have m3: "fs.more s3 = fs.more s" using k by (simp add: kept_def)
  have eS: "sb S = sb s" "log_start S = log_start s" "km S = km s" "uart_out S = uart_out s" "content S = content s3" "bytes S ip = bytes s3 ip"
      "others ip S = others ip s3" "inum (inodes S ip) = inum (inodes s ip)"
    using k nu by (simp_all add: S_def kept_def upd_inode_def fdata_idata ilck_file others_def fun_eq_iff)
  have e6: "sb s6 = sb S" "inodes s6 = inodes S" "km s6 = km S" "uart_out s6 = uart_out S" "log_start s6 = log_start S" "content s6 = disk s6"
    using m s6(1,2) eS by (simp_all add: s4 S_def upd_file_kept ran_def log_idle_def)
  have m6: "fs.more s6 = fs.more (upd_file f (\<lambda>x. x\<lparr>foff := foff x + of_nat (length bs)\<rparr>) s)"
    using m(5) more_upd_file [OF m3] by (simp add: s4 upd_inode_def)
  have "off_log (log_start S) (content s6) (content S)" using s6(3) e6 eS by simp
  note o6 = open_file_off_log [OF oS this e6(1,5) fun_cong [OF e6(2)]]
  show "nfree (content s) (sb s) \<le> nfree (content s6) (sb s) + 8" using fr o6(2) eS e6 by simp
  show "wrote_file f bs s s6"
    unfolding wrote_file_def Let_def ip [symmetric]
  proof (intro conjI allI impI)
    fix b assume b: "others ip s b"
    show "others ip s6 b" using ot [OF b] o6(4) eS by simp
  next
    have "content s = disk s" using i by (simp add: log_idle_def)
    then show "spares ip s (disk s) (disk s6)" using spares_off_log [OF sp o s6(3)] by simp
  next
    show "bytes s6 ip = overlay (unat (foff (files s f))) bs (bytes s ip)" by (rule trans [OF trans [OF o6(3) eS(6)] bys])
  qed (use s6(1,4) o6(1) e6 eS m6 n in \<open>simp_all add: S_def\<close>)
qed

lemma filewrite_turn:
  fixes s :: "'a kern_scheme"
  assumes i: "log_idle s" and o: "idle_inode ip s" and ip: "ip = fip (files s f)" and off: "off = foff (files s f)" "off \<le> isize (inodes s ip)"
    and n: "j < n" "m = min (n - j) 3072" "unat off + m \<le> FILEMAX"
    and src: "supplies (User (pagetable (procs s p)) (addr + of_nat j)) [] data (km s)" "length data = n - j"
    and free: "8 \<le> nfree (content s) (sb s)"
  shows "\<exists>s' w. filewrite_loop (Suc fuel) (int j) p f addr (int n) s = filewrite_loop fuel (int (j + m)) p f addr (int n) s' \<and>
    wrote_file f (take m data) s s' \<and> ran s w s' \<and> recovers_to s w (\<lambda>d. off_log (log_start s) d (disk s) \<or> off_log (log_start s) d (disk s')) \<and>
    nfree (content s) (sb s) \<le> nfree (content s') (sb s) + 8"
proof -
  define nn :: u32 where "nn = of_nat m"
  have un: "unat nn = m" using n(2) by (simp add: nn_def unat_of_nat_small)
  have lm: "length (take m data) = m" and len: "length (take m data) = unat nn" using n(2) src(2) un by simp_all
  have lim: "unat off + unat nn \<le> FILEMAX" "unat nn \<le> 3072" using n un by simp_all
  define s1 where "s1 = s\<lparr>outstanding := 1\<rparr>"
  obtain s2 s3 where a: "ilock ip s1 = Some s2" "fs.more s2 = fs.more s"
      "writei ip (User (pagetable (procs s p)) (addr + of_nat j)) off nn [] s2 = Some (int (unat nn), s3)" "tx {} 0 s3"
      "tx_wrote ip (unat off) (take m data) s s3"
    using write_open_file [OF i o off(2) lim supplies_take [OF src(1)] len free s1_def] by blast
  define s4 where "s4 = upd_file f (\<lambda>x. x\<lparr>foff := foff x + of_nat m\<rparr>) s3"
  obtain s5 s6 w where b: "iunlock ip s4 = Some s5" "end_op s5 = Some s6" "log_idle s6" "ran s w s6" "off_log (log_start s) (disk s6) (content s3)"
      "recovers_to s w (\<lambda>d. off_log (log_start s) d (disk s) \<or> off_log (log_start s) d (content s3))" "mypid s6 = mypid s"
      "log.more s6 = log.more (upd_inode ip (\<lambda>x. x\<lparr>ilck := releasesleep (ilck x)\<rparr>) s4)"
    using write_ends [OF i a(4,5) s4_def] by blast
  have "fs.more s3 = fs.more s" using a(5) by (simp add: tx_wrote_def kept_def)
  then have k: "files s2 = files s" "procs s2 = procs s" "files s3 = files s" "files s1 = files s"
    using more_kern [OF a(2)] more_kern [of s3 s] by (simp_all add: s1_def)
  have m: "0 < m" "min (int n - int j) 3072 = int m" using n(1,2) by (simp, linarith)
  have "filewrite_loop (Suc fuel) (int j) p f addr (int n) s = filewrite_loop fuel (int (j + m)) p f addr (int n) s6"
    using n(1) a(1,3) b(1,2) begin_op_idle(1) [OF i] m(1) unfolding un
    by (simp add: k m(2) s4_def nn_def files_upd_file Let_def flip: ip off(1) s1_def)
  moreover have "recovers_to s w (\<lambda>d. off_log (log_start s) d (disk s) \<or> off_log (log_start s) d (disk s6))"
    by (rule recovers_mono [OF b(6)]) (use off_log_trans [OF _ b(5)] in blast)
  moreover note tx_wrote_file [OF i o ip a(5) [unfolded off(1)] _ b(3,4,5,7,8)] lm s4_def
  ultimately show ?thesis using b(4) by (intro exI [of _ s6] exI [of _ w]) simp
qed

section \<open>The whole of \<open>filewrite\<close>\<close>

lemma wrote_file_files:
  fixes s s' :: "'a kern_scheme"
  assumes "wrote_file f bs s s'"
  shows "files s' f = (files s f)\<lparr>foff := foff (files s f) + of_nat (length bs)\<rparr>" "procs s' = procs s"
proof -
  have m: "fs.more s' = fs.more (upd_file f (\<lambda>x. x\<lparr>foff := foff x + of_nat (length bs)\<rparr>) s)"
    using assms by (simp add: wrote_file_def Let_def)
  show "files s' f = (files s f)\<lparr>foff := foff (files s f) + of_nat (length bs)\<rparr>" "procs s' = procs s"
    using more_kern [OF m] by (simp_all add: files_upd_file)
qed

lemma wrote_file_trans:
  fixes s s1 s2 :: "'a kern_scheme"
  assumes a: "wrote_file f bs s s1" and b: "wrote_file f cs s1 s2" and ip: "ip = fip (files s f)"
    and off: "unat (foff (files s f)) \<le> unat (isize (inodes s ip))" "unat (foff (files s f)) + length bs < 2 ^ 32"
  shows "wrote_file f (bs @ cs) s s2"
proof -
  note fl = wrote_file_files [OF a]
  have ub: "unat (of_nat (length bs) :: u32) = length bs" using off(2) by (intro unat_of_nat_small) simp
  then have uo: "unat (foff (files s1 f)) = unat (foff (files s f)) + length bs"
    using off(2) unfolding fl(1) by (simp add: unat_plus_no_wrap)
  have m1: "fs.more s1 = fs.more (upd_file f (\<lambda>x. x\<lparr>foff := foff x + of_nat (length bs)\<rparr>) s)"
    and m2: "fs.more s2 = fs.more (upd_file f (\<lambda>x. x\<lparr>foff := foff x + of_nat (length cs)\<rparr>) s1)"
    and i1: "fip (files s1 f) = ip"
    using a b fl(1) by (simp_all add: wrote_file_def Let_def ip)
  have m: "fs.more s2 = fs.more (upd_file f (\<lambda>x. x\<lparr>foff := foff x + of_nat (length (bs @ cs))\<rparr>) s)"
    unfolding m2 more_upd_file [OF m1] by (simp add: upd_file_def add.assoc)
  have bys: "bytes s2 ip = overlay (unat (foff (files s f))) (bs @ cs) (bytes s ip)"
    using a b off(1) unfolding wrote_file_def Let_def i1 uo ip [symmetric] by (simp add: overlay_overlay)
  have "spares ip s (disk s) (disk s2)"
    by (rule spares_trans [where s' = s1 and d = "disk s1"]) (use a b in \<open>simp_all add: wrote_file_def Let_def i1 flip: ip\<close>)
  then show ?thesis using a b bys m unfolding wrote_file_def Let_def i1 uo ip [symmetric] by simp
qed

text \<open>The disk holds the file with some of the chunks of the data written, from the first on.\<close>

definition saved :: "nat \<Rightarrow> u8 list \<Rightarrow> 'a kern_scheme \<Rightarrow> (u32 \<Rightarrow> blk) \<Rightarrow> bool" where
  "saved f data s d \<longleftrightarrow>
     (let ip = fip (files s f); i = inum (inodes s ip) in
      \<exists>m. m \<le> length data \<and> (m = length data \<or> 3072 dvd m) \<and>
        file_on d (sb s) i = overlay (unat (foff (files s f))) (take m data) (file_on (disk s) (sb s) i) \<and>
        spares ip s (disk s) d)"

lemma idle_file_on:
  assumes "log_idle s" "idle_inode ip s"
  shows "file_on (disk s) (sb s) (inum (inodes s ip)) = bytes s ip"
    "off_log (log_start s) d (disk s) \<Longrightarrow> file_on d (sb s) (inum (inodes s ip)) = bytes s ip"
  using file_on_off_log [OF assms(2)] assms(1) by (simp_all add: log_idle_def off_log_def)

lemma saved_nothing:
  assumes "log_idle s" and o: "idle_inode (fip (files s f)) s" and d: "off_log (log_start s) d (disk s)"
  shows "saved f data s d"
  unfolding saved_def Let_def
  using idle_file_on [OF assms(1,2)] d spares_off_log [OF spares_refl o d] by (intro exI [of _ 0]) simp

lemma saved_chunk:
  assumes i: "log_idle s" and o: "idle_inode (fip (files s f)) s" and w: "wrote_file f (take m data) s s'"
    and m: "m \<le> length data" "m = length data \<or> 3072 dvd m" and d: "off_log (log_start s) d (disk s')"
  shows "saved f data s d"
proof -
  define ip where "ip = fip (files s f)"
  have e: "log_idle s'" "idle_inode ip s'" "sb s' = sb s" "log_start s' = log_start s" "inum (inodes s' ip) = inum (inodes s ip)"
      "bytes s' ip = overlay (unat (foff (files s f))) (take m data) (bytes s ip)"
    and sp: "spares ip s (disk s) (disk s')"
    using w by (simp_all add: wrote_file_def Let_def flip: ip_def)
  note o' = o [folded ip_def]
  have "file_on d (sb s) (inum (inodes s ip)) = overlay (unat (foff (files s f))) (take m data) (file_on (disk s) (sb s) (inum (inodes s ip)))"
    using idle_file_on(2) [OF e(1,2), of d] d e idle_file_on(1) [OF i o'] by simp
  then show ?thesis unfolding saved_def Let_def ip_def [symmetric]
    using m spares_off_log [OF sp o' d] by (intro exI [of _ m]) simp
qed

lemma saved_trans:
  fixes s s1 :: "'a kern_scheme"
  assumes i: "log_idle s" and o: "idle_inode (fip (files s f)) s" and w: "wrote_file f bs s s1" and d: "saved f cs s1 d"
    and len: "3072 dvd length bs \<or> cs = []" and ip: "ip = fip (files s f)"
    and off: "unat (foff (files s f)) \<le> unat (isize (inodes s ip))" "unat (foff (files s f)) + length bs < 2 ^ 32"
  shows "saved f (bs @ cs) s d"
proof -
  note fl = wrote_file_files [OF w]
  have ub: "unat (of_nat (length bs) :: u32) = length bs" using off(2) by (intro unat_of_nat_small) simp
  then have uo: "unat (foff (files s1 f)) = unat (foff (files s f)) + length bs" "fip (files s1 f) = ip"
    using off(2) ip unfolding fl(1) by (simp_all add: unat_plus_no_wrap)
  have e: "log_idle s1" "idle_inode ip s1" "sb s1 = sb s" "inum (inodes s1 ip) = inum (inodes s ip)"
      "bytes s1 ip = overlay (unat (foff (files s f))) bs (bytes s ip)"
    and ot: "\<forall>b. others ip s b \<longrightarrow> others ip s1 b" and sp: "spares ip s (disk s) (disk s1)"
    using w by (simp_all add: wrote_file_def Let_def flip: ip)
  obtain m where m: "m \<le> length cs" "m = length cs \<or> 3072 dvd m"
    and fo: "file_on d (sb s) (inum (inodes s ip)) =
        overlay (unat (foff (files s f)) + length bs) (take m cs) (file_on (disk s1) (sb s1) (inum (inodes s1 ip)))"
    and od: "spares ip s1 (disk s1) d"
    using d unfolding saved_def Let_def uo e(3,4) by blast
  have "file_on d (sb s) (inum (inodes s ip)) =
      overlay (unat (foff (files s f))) (take (length bs + m) (bs @ cs)) (file_on (disk s) (sb s) (inum (inodes s ip)))"
    unfolding fo idle_file_on(1) [OF e(1,2)] e(5) idle_file_on(1) [OF i o [folded ip]]
    using off(1) by (simp add: overlay_overlay)
  moreover have "length bs + m \<le> length (bs @ cs)" "length bs + m = length (bs @ cs) \<or> 3072 dvd (length bs + m)"
    using m len by (auto intro: dvd_add)
  ultimately show ?thesis unfolding saved_def Let_def ip [symmetric]
    using spares_trans [OF sp od ot e(3,4)] by (intro exI [of _ "length bs + m"]) simp
qed

definition turns :: "nat \<Rightarrow> nat" where
  "turns n = (n + 3071) div 3072"

lemma turns_step: "0 < n \<Longrightarrow> turns n = Suc (turns (n - min n 3072))"
proof (cases "n \<le> 3072")
  case True
  assume "0 < n"
  then have "n + 3071 = 3072 + (n - 1)" "n - 1 < 3072" using True by auto
  then have "turns n = 1" by (simp add: turns_def)
  then show ?thesis using True by (simp add: turns_def)
next
  case False
  then have "n + 3071 = 3072 + (n - 3072 + 3071)" by simp
  then show ?thesis using False unfolding turns_def by (simp only: div_add_self1)
qed

lemma wrote_nothing_file:
  fixes s :: "'a kern_scheme"
  assumes "log_idle s" "idle_inode (fip (files s f)) s"
  shows "wrote_file f [] s s"
  using assms by (simp add: wrote_file_def Let_def upd_file_def)

lemma filewrite_nothing:
  fixes s :: "'a kern_scheme"
  assumes i: "log_idle s" and o: "idle_inode (fip (files s f)) s"
  shows "\<exists>s' w. filewrite_loop fuel (int n) p f addr (int n) s = Some (int n, s') \<and> wrote_file f [] s s' \<and> ran s w s' \<and>
    recovers_to s w (saved f [] s)"
proof -
  have "filewrite_loop fuel (int n) p f addr (int n) s = Some (int n, s)" by (cases fuel) simp_all
  moreover have "log_fits (log_start s)" "head_n (disk s (log_start s)) = 0" using i by (simp_all add: log_idle_def quiet_def)
  then have "recovers_to s [] (saved f [] s)" by (rule recovers_mono [OF nothing_recovers]) (rule saved_nothing [OF i o])
  moreover have "ran s [] s" by (simp add: ran_def)
  ultimately show ?thesis using wrote_nothing_file [OF i o] by blast
qed

lemma filewrite_loop_ok:
  fixes s :: "'a kern_scheme"
  assumes "log_idle s" and "idle_inode (fip (files s f)) s" and "foff (files s f) \<le> isize (inodes s (fip (files s f)))"
    and "j \<le> n" "unat (foff (files s f)) + (n - j) \<le> FILEMAX" "n - j \<le> fuel"
    and "supplies (User (pagetable (procs s p)) (addr + of_nat j)) [] data (km s)" "length data = n - j"
    and "8 * turns (n - j) \<le> nfree (content s) (sb s)"
  shows "\<exists>s' w. filewrite_loop fuel (int j) p f addr (int n) s = Some (int n, s') \<and> wrote_file f data s s' \<and> ran s w s' \<and>
    recovers_to s w (saved f data s)"
  using assms
proof (induction fuel arbitrary: j s data)
  case 0
  then have "j = n" "data = []" by simp_all
  then show ?case using filewrite_nothing [OF 0(1,2), of 0 n p addr] by simp
next
  case (Suc fuel)
  show ?case
  proof (cases "j = n")
    case True
    then have "data = []" using Suc.prems(8) by simp
    then show ?thesis using filewrite_nothing [OF Suc.prems(1,2), of "Suc fuel" n p addr] True by simp
  next
    case False
    define m ip where "m = min (n - j) 3072" and "ip = fip (files s f)"
    note P = Suc.prems [folded ip_def]
    have lt: "j < n" and m0: "0 < m" "m \<le> n - j" using False P(4) by (simp_all add: m_def)
    have t: "turns (n - j) = Suc (turns (n - (j + m)))" using turns_step [of "n - j"] lt by (simp add: m_def)
    have fr: "8 \<le> nfree (content s) (sb s)" and fm: "unat (foff (files s f)) + m \<le> FILEMAX" using P(5,9) t m0 by simp_all
    obtain s1 v where a: "filewrite_loop (Suc fuel) (int j) p f addr (int n) s = filewrite_loop fuel (int (j + m)) p f addr (int n) s1"
        "wrote_file f (take m data) s s1" "ran s v s1"
        "recovers_to s v (\<lambda>d. off_log (log_start s) d (disk s) \<or> off_log (log_start s) d (disk s1))"
        "nfree (content s) (sb s) \<le> nfree (content s1) (sb s) + 8"
      using filewrite_turn [OF P(1,2) ip_def refl P(3) lt m_def fm P(7,8) fr] by blast
    have e: "log_idle s1" "idle_inode ip s1" "sb s1 = sb s" "km s1 = km s" "bytes s1 ip = overlay (unat (foff (files s f))) (take m data) (bytes s ip)"
      using a(2) by (simp_all add: wrote_file_def Let_def flip: ip_def)
    have lm: "length (take m data) = m" using m0 P(8) by simp
    note fl = wrote_file_files [OF a(2), unfolded lm]
    have ub: "unat (of_nat m :: u32) = m" using fm by (intro unat_of_nat_small) simp
    then have uo: "unat (foff (files s1 f)) = unat (foff (files s f)) + m" "fip (files s1 f) = ip"
      using fm unfolding fl(1) by (simp_all add: unat_plus_no_wrap ip_def)
    have le: "unat (foff (files s f)) \<le> unat (isize (inodes s ip))" using P(3) by (simp add: word_le_nat_alt)
    have "unat (isize (inodes s1 ip)) = max (unat (isize (inodes s ip))) (unat (foff (files s f)) + m)"
      using arg_cong [OF e(5), of length] le lm by (simp add: length_overlay)
    then have le1: "foff (files s1 f) \<le> isize (inodes s1 ip)" using uo by (simp add: word_le_nat_alt)
    have "\<exists>s' w. filewrite_loop fuel (int (j + m)) p f addr (int n) s1 = Some (int n, s') \<and> wrote_file f (drop m data) s1 s' \<and> ran s1 w s' \<and>
        recovers_to s1 w (saved f (drop m data) s1)"
    proof (rule Suc.IH)
      show "supplies (User (pagetable (procs s1 p)) (addr + of_nat (j + m))) [] (drop m data) (km s1)"
        using supplies_step [OF P(7), of m] m0 P(8) fl(2) e(4) by (simp add: add.assoc)
      show "8 * turns (n - (j + m)) \<le> nfree (content s1) (sb s1)" using a(5) P(9) t e(3) by simp
    qed (use e le1 uo m0 P in simp_all)
    then obtain s' w where b: "filewrite_loop fuel (int (j + m)) p f addr (int n) s1 = Some (int n, s')" "wrote_file f (drop m data) s1 s'"
        "ran s1 w s'" "recovers_to s1 w (saved f (drop m data) s1)" by blast
    have big: "unat (foff (files s f)) + length (take m data) < 2 ^ 32" using fm lm by simp
    have ch: "m = length data \<or> 3072 dvd m" and ch': "3072 dvd length (take m data) \<or> drop m data = []"
      using P(8) lm by (auto simp: m_def min_def)
    have "recovers_to s v (saved f data s)"
      by (rule recovers_mono [OF a(4)])
        (use saved_nothing [OF Suc.prems(1,2)] saved_chunk [OF Suc.prems(1,2) a(2) _ ch] m0 P(8) in auto)
    moreover have "recovers_to s1 w (saved f data s)"
      by (rule recovers_mono [OF b(4)])
        (use saved_trans [OF Suc.prems(1,2) a(2) _ ch' ip_def le big] in simp)
    ultimately have "recovers_to s (v @ w) (saved f data s)" by (rule recovers_trans [OF a(3)])
    moreover have "wrote_file f data s s'" using wrote_file_trans [OF a(2) b(2) ip_def le big] by simp
    ultimately show ?thesis using a(1) b(1) ran_trans [OF a(3) b(3)] by metis
  qed
qed

lemma filewrite_ok:
  fixes s :: "'a kern_scheme"
  assumes i: "log_idle s" and o: "idle_inode ip s" and f: "fl = files s f" "ip = fip fl" "writable fl" "ftype fl = FD_INODE"
    and off: "foff fl \<le> isize (inodes s ip)" "unat (foff fl) + n \<le> FILEMAX"
    and u: "pt_inv kend F (pmem (km s)) pt" "pt = pagetable (procs s p)" "us = uaddrs (pmem (km s)) pt addr n" "length us = n"
    and free: "8 * turns n \<le> nfree (content s) (sb s)"
  shows "\<exists>s' w. filewrite p f addr (int n) s = Some (Returns (int n), s') \<and> wrote_file f (map (pmem (km s)) us) s s' \<and> ran s w s' \<and>
    recovers_to s w (saved f (map (pmem (km s)) us) s)"
proof -
  have src: "supplies (User (pagetable (procs s p)) (addr + of_nat 0)) [] (map (pmem (km s)) us) (km s)"
    using supplies_user [OF u(1), of addr n] u(2-4) by simp
  obtain s' w where "filewrite_loop n (int 0) p f addr (int n) s = Some (int n, s')" "wrote_file f (map (pmem (km s)) us) s s'" "ran s w s'"
      "recovers_to s w (saved f (map (pmem (km s)) us) s)"
    using filewrite_loop_ok [OF i, of f 0 n n p addr "map (pmem (km s)) us"] o f off src u(4) free by auto
  then show ?thesis using f by (intro exI [of _ s'] exI [of _ w]) (simp add: filewrite_def)
qed

section \<open>Other files\<close>

text \<open>Another file than the open one, by its inode on the disk: the block of its inode is in use, and so are its
  blocks, which are not blocks of the open file.\<close>

definition apart :: "nat \<Rightarrow> 'a fs_scheme \<Rightarrow> u32 \<Rightarrow> bool" where
  "apart ip s j \<longleftrightarrow>
     (let i = inum (inodes s ip); y = dinode (disk s) (sb s) j blank_inode; elsewhere = (\<lambda>b. others ip s b \<and> b \<noteq> IBLOCK i (sb s)) in
      j \<noteq> i \<and> (IBLOCK j (sb s) = IBLOCK i (sb s) \<or> others ip s (IBLOCK j (sb s))) \<and> unat (isize y) \<le> FILEMAX \<and>
      (addrs y ! NDIRECT \<noteq> 0 \<longrightarrow> elsewhere (addrs y ! NDIRECT)) \<and>
      (\<forall>k<MAXFILE. file_addr (disk s) y k \<noteq> 0 \<longrightarrow> elsewhere (file_addr (disk s) y k)))"

lemma inode_block_others: "idle_inode ip s \<Longrightarrow> others ip s (IBLOCK (inum (inodes s ip)) (sb s))"
  by (auto simp: idle_inode_def file_ok_def others_def)

lemma spares_others:
  assumes sp: "spares ip s (disk s) d" and o: "idle_inode ip s" and i: "i = inum (inodes s ip)"
  shows "others ip s b \<Longrightarrow> b \<noteq> IBLOCK i (sb s) \<Longrightarrow> d b = disk s b"
    and "j \<noteq> i \<Longrightarrow> IBLOCK j (sb s) = IBLOCK i (sb s) \<or> others ip s (IBLOCK j (sb s)) \<Longrightarrow> dinode d (sb s) j y = dinode (disk s) (sb s) j y"
    and "apart ip s j \<Longrightarrow> file_on d (sb s) j = file_on (disk s) (sb s) j"
proof -
  show blk: "d b = disk s b" if "others ip s b" "b \<noteq> IBLOCK i (sb s)" for b using sp that i by (simp add: spares_def)
  show din: "dinode d (sb s) j y = dinode (disk s) (sb s) j y" if "j \<noteq> i" "IBLOCK j (sb s) = IBLOCK i (sb s) \<or> others ip s (IBLOCK j (sb s))" for y
    using sp that inode_block_others [OF o] i by (auto simp: spares_def)
  show "file_on d (sb s) j = file_on (disk s) (sb s) j" if a: "apart ip s j"
  proof -
    define y where "y = dinode (disk s) (sb s) j blank_inode"
    have y: "dinode d (sb s) j blank_inode = y" using din a i unfolding apart_def Let_def y_def by simp
    have in1: "d (addrs y ! NDIRECT) = disk s (addrs y ! NDIRECT)" if "addrs y ! NDIRECT \<noteq> 0"
      using a that i by (intro blk) (simp_all add: apart_def Let_def y_def)
    have fa: "file_addr d y k = file_addr (disk s) y k" for k by (rule file_addr_cong) (simp_all add: in1)
    have "idata d y n = idata (disk s) y n" if "n < unat (isize y)" for n
    proof -
      have "n < FILEMAX" using that a by (simp add: apart_def Let_def y_def)
      then have "n div BSIZE < MAXFILE" by (simp add: less_mult_imp_div_less)
      then have "d (file_addr (disk s) y (n div BSIZE)) = disk s (file_addr (disk s) y (n div BSIZE))" if "file_addr (disk s) y (n div BSIZE) \<noteq> 0"
        using a that i by (intro blk) (simp_all add: apart_def Let_def y_def)
      then show ?thesis by (auto simp: idata_def Let_def fa)
    qed
    then show ?thesis by (simp add: file_on_def y Let_def flip: y_def)
  qed
qed

section \<open>The reservation of log blocks\<close>

text \<open>Operations that clear the blocks of a list, one after another.\<close>

primrec bzeros :: "u32 list \<Rightarrow> 'a fs_scheme \<Rightarrow> 'a fs_scheme option" where
  "bzeros [] s = Some s"
| "bzeros (b # bs) s = bzero b s \<bind> bzeros bs"

lemma bzeros_append: "bzeros (bs @ cs) s = bzeros bs s \<bind> bzeros cs"
  by (induction bs arbitrary: s) (simp_all cong: Option.bind_cong)

lemma tx_lh_n: "tx H k s \<Longrightarrow> lh_n s = int (card (logged s))"
  by (auto simp: tx_def logged_def distinct_card)

lemma bzeros_room:
  assumes "tx {} k s" and "length bs \<le> k" and "\<forall>b \<in> set bs. home (log_start s) b"
  shows "\<exists>s'. bzeros bs s = Some s' \<and> tx {} (k - length bs) s' \<and> logged s' = logged s \<union> set bs \<and> frame s' = frame s"
  using assms
proof (induction bs arbitrary: k s)
  case (Cons b bs)
  then have t: "tx {} (Suc (k - 1)) s" and b: "home (log_start s) b" by simp_all
  obtain s1 where s1: "bzero b s = Some s1" "tx {} (k - 1) s1" "frame s1 = frame s" "logged s1 = insert b (logged s)"
    using tx_modify [OF t b, of "replicate BSIZE 0"] by (auto simp: bzero_def)
  have "log_start s1 = log_start s" using s1(3) by (simp add: frame_def)
  moreover have "length bs \<le> k - 1" using Cons.prems(2) by simp
  ultimately obtain s' where "bzeros bs s1 = Some s'" "tx {} (k - 1 - length bs) s'" "logged s' = logged s1 \<union> set bs" "frame s' = frame s1"
    using Cons.IH [OF s1(2)] Cons.prems(3) by auto
  then show ?case using s1 by simp
qed simp

lemma bzero_full:
  assumes t: "tx {} 0 s" and b: "home (log_start s) b" and full: "int (card (logged s)) + 1 = log_size s"
  shows "bzero b s = None"
proof -
  obtain i s1 where r: "bufcache_read b s = Some (i, s1)" "tx (insert b {}) 0 s1" "logged s1 = logged s" "frame s1 = frame s"
    using tx_read [OF t home_nz [OF b], simplified] by auto
  have "lh_n s1 = log_size s1 - 1" using tx_lh_n [OF r(2)] r(3,4) full by (simp add: frame_def)
  then show ?thesis using r(1) by (simp add: bzero_def log_write_def panic_def set_data_def upd_def)
qed

lemma begin_op_three:
  assumes "log_idle s"
  shows "begin_op s \<bind> begin_op \<bind> begin_op = Some (s\<lparr>outstanding := 3\<rparr>)" "tx {} 29 (s\<lparr>outstanding := 3\<rparr>)"
proof -
  have v: "bc_inv (s\<lparr>outstanding := 3\<rparr>)" "content (s\<lparr>outstanding := 3\<rparr>) = content s" "refs (s\<lparr>outstanding := 3\<rparr>) = refs s"
      "held (s\<lparr>outstanding := 3\<rparr>) = held s"
    using assms view_cong [of "s\<lparr>outstanding := 3\<rparr>" s] by (simp_all add: log_idle_def quiet_def)
  show "begin_op s \<bind> begin_op \<bind> begin_op = Some (s\<lparr>outstanding := 3\<rparr>)" using assms by (simp add: begin_op_def log_idle_def)
  show "tx {} 29 (s\<lparr>outstanding := 3\<rparr>)" using assms v by (simp add: log_idle_def quiet_def tx_def logged_def)
qed

lemma reserved_run:
  fixes s :: "'a fs_scheme"
  assumes i: "log_idle s" and d: "distinct bs" and h: "\<forall>b \<in> set bs. home (log_start s) b"
  shows "bzeros bs (s\<lparr>outstanding := 3\<rparr>) = None \<longleftrightarrow> 30 \<le> length bs"
proof (cases "length bs \<le> 29")
  case True
  then show ?thesis using bzeros_room [OF begin_op_three(2) [OF i], of bs] h by auto
next
  case False
  let ?s = "s\<lparr>outstanding := 3\<rparr>"
  have "bs = take 29 bs @ drop 29 bs" "drop 29 bs \<noteq> []" using False by simp_all
  then obtain b cs where bs: "bs = take 29 bs @ b # cs" by (metis neq_Nil_conv)
  have h': "\<forall>b \<in> set (take 29 bs). home (log_start ?s) b" using h by (auto dest: in_set_takeD)
  obtain t where t: "bzeros (take 29 bs) ?s = Some t" "tx {} 0 t" "logged t = logged ?s \<union> set (take 29 bs)" "frame t = frame ?s"
    using bzeros_room [OF begin_op_three(2) [OF i] _ h'] False by auto
  have "card (set (take 29 bs)) = 29" using d False by (simp add: distinct_card)
  then have "int (card (logged t)) + 1 = log_size t" using t(3,4) i by (simp add: logged_def frame_def log_idle_def)
  moreover have "b \<in> set bs" by (subst bs) simp
  then have "home (log_start t) b" using h t(4) by (simp add: frame_def)
  ultimately have "bzero b t = None" using bzero_full [OF t(2)] by blast
  then have "bzeros (take 29 bs @ b # cs) ?s = None" using t(1) by (simp add: bzeros_append)
  then show ?thesis using bs False by simp
qed

section \<open>An open file for the examples\<close>

text \<open>The disk of the examples with its file open for writing at 1499, and a process with one page of memory.\<close>

definition ex_open :: kern where
  "ex_open = ex_kern\<lparr>bufs := bufs boot_cache, disk := img_disk, sb := img_sb, inodes := img_inodes,
     files := (\<lambda>_. \<lparr>ftype = FD_INODE, fref = 1, readable = True, writable = True, fpipe = 0, fip = 1, foff = 1499, fmajor = 0\<rparr>)\<rparr>"

definition ex_write :: kern where
  "ex_write = bufcache_init ex_open"

lemma rest_kern:
  fixes s s' :: "'a kern_scheme"
  assumes "rest s' = rest s"
  shows "mypid s' = mypid s" "log.more s' = log.more s" "files s' = files s" "procs s' = procs s"
    "log_start s' = log_start s" "log_size s' = log_size s" "outstanding s' = outstanding s" "committing s' = committing s"
    "lh_n s' = lh_n s" "lh_block s' = lh_block s"
  using assms by (cases s; cases s'; simp add: rest_def)+

lemma ex_write_fields:
  "files ex_write 0 = \<lparr>ftype = FD_INODE, fref = 1, readable = True, writable = True, fpipe = 0, fip = 1, foff = 1499, fmajor = 0\<rparr>"
  "sb ex_write = img_sb" "inodes ex_write = img_inodes" "km ex_write = ex_mapped" "pagetable (procs ex_write 0) = ex_root"
  "disk ex_write = img_disk" "log_start ex_write = 2"
proof -
  note r = rest_kern [OF bufcache_init_frame(2) [of ex_open], folded ex_write_def]
  note m = log_more_fs [OF r(2)]
  show "files ex_write 0 = \<lparr>ftype = FD_INODE, fref = 1, readable = True, writable = True, fpipe = 0, fip = 1, foff = 1499, fmajor = 0\<rparr>"
    "sb ex_write = img_sb" "inodes ex_write = img_inodes" "km ex_write = ex_mapped" "pagetable (procs ex_write 0) = ex_root"
    "disk ex_write = img_disk" "log_start ex_write = 2"
    using r m by (simp_all add: ex_open_def ex_kern_def ex_proc_def) (simp_all add: ex_write_def ex_open_def)
qed

lemma ex_write_view: "content ex_write = content img_fs" "log_idle ex_write"
proof -
  note r = rest_kern [OF bufcache_init_frame(2) [of ex_open], folded ex_write_def]
  have len: "length (img_disk b) = BSIZE" for b
    by (simp add: img_disk_def img_dir_def length_put_dinode img_inodes_def img_inode_def)
  have b: "bufs ex_open = bufs boot_cache" "disk ex_open = img_disk" by (simp_all add: ex_open_def)
  have inv: "bc_inv ex_write" unfolding ex_write_def by (rule bufcache_init_inv) (use b len in \<open>simp_all add: boot_cache_def\<close>)
  have none: "buf_of ex_write c = None" for c
    unfolding ex_write_def by (auto simp: buf_of_None bufcache_init_blockno b boot_cache_def)
  then have v: "content ex_write = img_disk" "refs ex_write c = 0" "\<not> held ex_write c" for c
    by (simp_all add: fun_eq_iff content_def refs_def held_def ex_write_fields)
  then show "content ex_write = content img_fs" by (simp add: img_ok)
  have "head_n (img_disk 2) = 0" by (simp add: head_n_def img_disk_def get32_zero)
  then show "log_idle ex_write" using inv v r
    by (simp add: log_idle_def quiet_def ex_write_fields log_fits_def) (simp add: ex_open_def ex_kern_def)
qed

lemma ex_write_open: "idle_inode 1 ex_write"
proof -
  have e: "content ex_write = content img_fs" "sb ex_write = sb img_fs" "inodes ex_write = inodes img_fs" "log_start ex_write = log_start img_fs"
    by (simp_all add: ex_write_view ex_write_fields img_ok)
  have "length (addrs (img_inodes 1)) = 13" by (simp add: img_inodes_def img_inode_def)
  then have "get_dinode (img_disk 32) 128 y = same_dinode (img_inodes 1) y" for y
    unfolding img_disk_def by (simp add: get_put_dinode length_put_dinode img_inodes_def img_inode_def)
  then have "dinode (content ex_write) (sb ex_write) (inum (inodes ex_write 1)) y = same_dinode (inodes ex_write 1) y" for y
    unfolding e by (simp add: dinode_def IBLOCK_def dinode_at_def img_ok img_sb_def) (simp add: img_inodes_def img_inode_def)
  moreover have "no_holes ex_write 1" using img_no_holes unfolding no_holes_def e .
  moreover have "bitmap_ok {} ex_write" using img_bitmap(1) unfolding bitmap_ok_def e .
  moreover have "1 \<le> iref (inodes ex_write 1)" "slocked (ilck (inodes ex_write 1)) = 0" "ivalid (inodes ex_write 1)"
    by (simp_all add: ex_write_fields img_inodes_def img_inode_def)
  ultimately show ?thesis using img_file_ok by (simp add: idle_inode_def e)
qed

lemma ex_write_conditions:
  "files ex_write 0 = files ex_write 0" "1 = fip (files ex_write 0)" "writable (files ex_write 0)" "ftype (files ex_write 0) = FD_INODE"
  "foff (files ex_write 0) \<le> isize (inodes ex_write 1)" "unat (foff (files ex_write 0)) + 2 \<le> FILEMAX"
  "pt_inv ex_kend {} (pmem (km ex_write)) ex_root" "ex_root = pagetable (procs ex_write 0)"
  "[0x87000000, 0x87000001] = uaddrs (pmem (km ex_write)) ex_root 0x1000 2" "length [0x87000000 :: u64, 0x87000001] = 2"
  "8 * turns 2 \<le> nfree (content ex_write) (sb ex_write)"
proof -
  show "[0x87000000, 0x87000001] = uaddrs (pmem (km ex_write)) ex_root 0x1000 2"
    unfolding ex_write_fields by (simp only: numeral_2_eq_2) (simp add: ex_mapped_uaddr PGROUNDDOWN_def)
  show "8 * turns 2 \<le> nfree (content ex_write) (sb ex_write)"
    using img_nfree by (simp add: ex_write_view ex_write_fields img_ok(3) turns_def)
qed (simp_all add: ex_write_fields ex_mapped_ok img_inodes_def img_inode_def)

lemma ex_write_size: "length (file_on (disk ex_write) (sb ex_write) 2) = 1500" "dwrites ex_write = []"
proof -
  have "2 = inum (inodes ex_write 1)" "unat (isize (inodes ex_write 1)) = 1500"
    by (simp_all add: ex_write_fields img_inodes_def img_inode_def)
  then show "length (file_on (disk ex_write) (sb ex_write) 2) = 1500"
    using idle_file_on(1) [OF ex_write_view(2) ex_write_open] by simp
  show "dwrites ex_write = []" by (simp add: ex_write_def ex_open_def ex_kern_def)
qed

section \<open>Properties\<close>

text \<open>C17. \<open>filewrite\<close> to an open file, with no operation of the file system under way and room on the disk, returns
  \<open>n\<close> and leaves the file on the disk with the user's bytes at the offset and its old bytes elsewhere.  The offset
  has moved on by \<open>n\<close>, and the log is empty again.  Nothing of another file has changed on the disk: no block in use
  that is not the file's own, no other inode, those in the block of this inode included, and so not the bytes of any file that
  shares no block with this one.\<close>

theorem filewrite_spec:
  fixes s :: "'a kern_scheme"
  assumes "log_idle s" and "idle_inode ip s" and "fl = files s f" "ip = fip fl" "writable fl" "ftype fl = FD_INODE"
    and "foff fl \<le> isize (inodes s ip)" "unat (foff fl) + n \<le> FILEMAX"
    and "pt_inv kend F (pmem (km s)) pt" "pt = pagetable (procs s p)" "us = uaddrs (pmem (km s)) pt addr n" "length us = n"
    and "8 * turns n \<le> nfree (content s) (sb s)"
    and "data = map (pmem (km s)) us" and "i = inum (inodes s ip)"
  shows "\<exists>s'. filewrite p f addr (int n) s = Some (Returns (int n), s') \<and> log_idle s' \<and> idle_inode ip s' \<and>
    files s' f = fl\<lparr>foff := foff fl + of_nat n\<rparr> \<and>
    file_on (disk s') (sb s) i = overlay (unat (foff fl)) data (file_on (disk s) (sb s) i) \<and>
    (\<forall>b. others ip s b \<longrightarrow> b \<noteq> IBLOCK i (sb s) \<longrightarrow> disk s' b = disk s b) \<and>
    (\<forall>j y. j \<noteq> i \<longrightarrow> IBLOCK j (sb s) = IBLOCK i (sb s) \<or> others ip s (IBLOCK j (sb s)) \<longrightarrow>
      dinode (disk s') (sb s) j y = dinode (disk s) (sb s) j y) \<and>
    (\<forall>j. apart ip s j \<longrightarrow> file_on (disk s') (sb s) j = file_on (disk s) (sb s) j)"
proof -
  obtain s' where "filewrite p f addr (int n) s = Some (Returns (int n), s')" and w: "wrote_file f data s s'"
    using filewrite_ok [OF assms(1-13)] assms(14) by blast
  moreover have e: "log_idle s'" "idle_inode ip s'" "sb s' = sb s" "inum (inodes s' ip) = i" "bytes s' ip = overlay (unat (foff fl)) data (bytes s ip)"
      "spares ip s (disk s) (disk s')"
    using w assms(3,4,15) by (simp_all add: wrote_file_def Let_def)
  moreover have "file_on (disk s') (sb s) i = overlay (unat (foff fl)) data (file_on (disk s) (sb s) i)"
    using idle_file_on(1) [OF e(1,2)] idle_file_on(1) [OF assms(1,2)] e(3-5) assms(15) by simp
  moreover have "length data = n" using assms(12,14) by simp
  ultimately show ?thesis using wrote_file_files(1) [OF w] assms(3) spares_others [OF e(6) assms(2,15)]
    by (intro exI [of _ s']) simp
qed

theorem filewrite_spec_witness:
  "\<exists>s'. filewrite 0 0 0x1000 2 ex_write = Some (Returns 2, s') \<and> foff (files s' 0) = 1501 \<and>
     length (file_on (disk s') img_sb 2) = 1501 \<and> file_on (disk s') img_sb 2 ! 1500 = pmem ex_mapped 0x87000001"
proof -
  have i: "2 = inum (inodes ex_write 1)" by (simp add: ex_write_fields img_inodes_def img_inode_def)
  show ?thesis using filewrite_spec [OF ex_write_view(2) ex_write_open ex_write_conditions refl i] ex_write_size(1)
    by (auto simp: ex_write_fields length_overlay nth_overlay)
qed

text \<open>C2. Writes survive crashes in whole chunks.  If the machine stops after any number \<open>k\<close> of the disk writes that
  \<open>filewrite\<close> issues, then after the recovery of the next boot the file on the disk is the old one with the first \<open>m\<close>
  bytes of the data written, where \<open>m\<close> is all of them or a multiple of 3072, the size of a transaction: no transaction
  is there in part.  Nothing of another file has changed: no block in use that is not the file's own, no other inode, those in
  the block of this inode included, and so not the bytes of any file that shares no block with this one.\<close>

theorem filewrite_crash:
  fixes s :: "'a kern_scheme"
  assumes "log_idle s" and "idle_inode ip s" and "fl = files s f" "ip = fip fl" "writable fl" "ftype fl = FD_INODE"
    and "foff fl \<le> isize (inodes s ip)" "unat (foff fl) + n \<le> FILEMAX"
    and "pt_inv kend F (pmem (km s)) pt" "pt = pagetable (procs s p)" "us = uaddrs (pmem (km s)) pt addr n" "length us = n"
    and "8 * turns n \<le> nfree (content s) (sb s)"
    and "data = map (pmem (km s)) us" and "i = inum (inodes s ip)"
  shows "\<exists>s'. filewrite p f addr (int n) s = Some (Returns (int n), s') \<and>
    (\<forall>k (r :: 'a kern_scheme).
       booted (log_start s) (writes (take k (drop (length (dwrites s)) (dwrites s'))) (disk s)) r \<longrightarrow>
       (\<exists>r' m. recover_from_log r = Some r' \<and> m \<le> n \<and> (m = n \<or> 3072 dvd m) \<and>
         file_on (disk r') (sb s) i = overlay (unat (foff fl)) (take m data) (file_on (disk s) (sb s) i) \<and>
         (\<forall>b. others ip s b \<longrightarrow> b \<noteq> IBLOCK i (sb s) \<longrightarrow> disk r' b = disk s b) \<and>
         (\<forall>j y. j \<noteq> i \<longrightarrow> IBLOCK j (sb s) = IBLOCK i (sb s) \<or> others ip s (IBLOCK j (sb s)) \<longrightarrow>
           dinode (disk r') (sb s) j y = dinode (disk s) (sb s) j y) \<and>
         (\<forall>j. apart ip s j \<longrightarrow> file_on (disk r') (sb s) j = file_on (disk s) (sb s) j)))"
proof -
  obtain s' w where a: "filewrite p f addr (int n) s = Some (Returns (int n), s')" "ran s w s'" "recovers_to s w (saved f data s)"
    using filewrite_ok [OF assms(1-13)] assms(14) by blast
  have dr: "drop (length (dwrites s)) (dwrites s') = w" and len: "length data = n" using assms(12,14) a(2) by (simp_all add: ran_def)
  show ?thesis
  proof (rule exI [of _ s'], rule conjI [OF a(1)], intro allI impI)
    fix k and r :: "'a kern_scheme"
    assume "booted (log_start s) (writes (take k (drop (length (dwrites s)) (dwrites s'))) (disk s)) r"
    then obtain r' where r': "recover_from_log r = Some r'" "saved f data s (disk r')" using a(3) unfolding recovers_to_def dr by blast
    then obtain m where m: "m \<le> n" "m = n \<or> 3072 dvd m" "spares ip s (disk s) (disk r')"
        "file_on (disk r') (sb s) i = overlay (unat (foff fl)) (take m data) (file_on (disk s) (sb s) i)"
      using assms(3,4,15) len by (auto simp: saved_def Let_def)
    show "\<exists>r' m. recover_from_log r = Some r' \<and> m \<le> n \<and> (m = n \<or> 3072 dvd m) \<and>
         file_on (disk r') (sb s) i = overlay (unat (foff fl)) (take m data) (file_on (disk s) (sb s) i) \<and>
         (\<forall>b. others ip s b \<longrightarrow> b \<noteq> IBLOCK i (sb s) \<longrightarrow> disk r' b = disk s b) \<and>
         (\<forall>j y. j \<noteq> i \<longrightarrow> IBLOCK j (sb s) = IBLOCK i (sb s) \<or> others ip s (IBLOCK j (sb s)) \<longrightarrow>
           dinode (disk r') (sb s) j y = dinode (disk s) (sb s) j y) \<and>
         (\<forall>j. apart ip s j \<longrightarrow> file_on (disk r') (sb s) j = file_on (disk s) (sb s) j)"
      using r'(1) m spares_others [OF m(3) assms(2,15)] by (intro exI [of _ r'] exI [of _ m]) simp
  qed
qed

theorem filewrite_crash_witness:
  "\<exists>s'. filewrite 0 0 0x1000 2 ex_write = Some (Returns 2, s') \<and>
     (\<forall>k (r :: kern). booted 2 (writes (take k (dwrites s')) img_disk) r \<longrightarrow>
        (\<exists>r'. recover_from_log r = Some r' \<and> length (file_on (disk r') img_sb 2) \<in> {1500, 1501} \<and>
          (\<forall>y. dinode (disk r') img_sb 1 y = dinode img_disk img_sb 1 y)))"
proof -
  have i: "2 = inum (inodes ex_write 1)" by (simp add: ex_write_fields img_inodes_def img_inode_def)
  have two: "length (overlay 1499 (take m [a, b]) xs) \<in> {1500, 1501}" if "m \<le> 2" "length xs = 1500" for m a b and xs :: "u8 list"
    using that by (auto simp: length_overlay)
  have len: "length (file_on img_disk img_sb 2) = 1500" using ex_write_size(1) unfolding ex_write_fields .
  have ib: "IBLOCK 1 img_sb = IBLOCK 2 img_sb" by (simp add: IBLOCK_def img_sb_def)
  from filewrite_crash [OF ex_write_view(2) ex_write_open ex_write_conditions refl i]
  obtain s' where s': "filewrite 0 0 0x1000 (int 2) ex_write = Some (Returns (int 2), s')"
    and c: "\<forall>k (r :: kern). booted 2 (writes (take k (drop (length ([] :: (u32 \<times> blk) list)) (dwrites s'))) img_disk) r \<longrightarrow>
      (\<exists>r' m. recover_from_log r = Some r' \<and> m \<le> 2 \<and> (m = 2 \<or> 3072 dvd m) \<and>
         file_on (disk r') img_sb 2 = overlay (unat (1499 :: u32)) (take m (map (pmem ex_mapped) [0x87000000, 0x87000001])) (file_on img_disk img_sb 2) \<and>
         (\<forall>b. others 1 ex_write b \<longrightarrow> b \<noteq> IBLOCK 2 img_sb \<longrightarrow> disk r' b = img_disk b) \<and>
         (\<forall>j y. j \<noteq> 2 \<longrightarrow> IBLOCK j img_sb = IBLOCK 2 img_sb \<or> others 1 ex_write (IBLOCK j img_sb) \<longrightarrow>
           dinode (disk r') img_sb j y = dinode img_disk img_sb j y) \<and>
         (\<forall>j. apart 1 ex_write j \<longrightarrow> file_on (disk r') img_sb j = file_on img_disk img_sb j))"
    unfolding ex_write_fields ex_write_size file_struct.select_convs by blast
  show ?thesis
  proof (rule exI [of _ s'], intro conjI allI impI)
    fix k and r :: kern
    assume "booted 2 (writes (take k (dwrites s')) img_disk) r"
    then obtain r' m where "recover_from_log r = Some r'" "m \<le> 2"
        "file_on (disk r') img_sb 2 = overlay 1499 (take m (map (pmem ex_mapped) [0x87000000, 0x87000001])) (file_on img_disk img_sb 2)"
        "\<forall>y. dinode (disk r') img_sb 1 y = dinode img_disk img_sb 1 y"
      using c [rule_format, of k r] ib by fastforce
    then show "\<exists>r'. recover_from_log r = Some r' \<and> length (file_on (disk r') img_sb 2) \<in> {1500, 1501} \<and>
        (\<forall>y. dinode (disk r') img_sb 1 y = dinode img_disk img_sb 1 y)"
      using two [OF _ len] by (intro exI [of _ r']) simp
  qed (use s' in simp)
qed

text \<open>C32. The reservation of \<open>begin_op\<close> and the bound of \<open>log_write\<close> disagree by one block.  On an idle file system with the log that
  \<^verbatim>\<open>mkfs\<close> makes, three operations are admitted at once, each with a reservation of \<open>MAXOPBLOCKS\<close> blocks.  If together they
  then change different blocks, here by \<open>bzero\<close>, everything goes well up to 29 blocks; but the change of the thirtieth,
  the last of the blocks reserved, panics, in any order and whatever blocks they are.\<close>

theorem log_reservation_off_by_one:
  fixes s :: "'a fs_scheme"
  assumes "log_idle s" and "distinct bs" and "\<forall>b \<in> set bs. home (log_start s) b"
  shows "\<exists>t. begin_op s \<bind> begin_op \<bind> begin_op = Some t \<and> (bzeros bs t = None \<longleftrightarrow> 3 * MAXOPBLOCKS \<le> length bs)"
  using begin_op_three(1) [OF assms(1)] reserved_run [OF assms] by simp

theorem log_reservation_off_by_one_witness:
  "\<exists>t. begin_op ex_write \<bind> begin_op \<bind> begin_op = Some t \<and>
     bzeros (map of_nat [50..<79]) t \<noteq> None \<and> bzeros (map of_nat [50..<80]) t = None"
proof -
  have d: "distinct (map of_nat [50..<n] :: u32 list)" if "n \<le> 80" for n
    using that by (auto simp: distinct_map inj_on_def word_of_nat_eq_iff take_bit_nat_eq_self)
  have h: "\<forall>b \<in> set (map of_nat [50..<n]). home (log_start ex_write) b" if n: "n \<le> 80" for n
  proof
    fix b :: u32 assume "b \<in> set (map of_nat [50..<n])"
    then obtain k where "b = of_nat k" "50 \<le> k" "k < 80" using n by force
    then have "unat b = k" by (simp add: unat_of_nat_small)
    then show "home (log_start ex_write) b" using \<open>50 \<le> k\<close> by (intro home_above) (simp_all add: ex_write_fields log_fits_def)
  qed
  obtain t where t: "begin_op ex_write \<bind> begin_op \<bind> begin_op = Some t"
      "bzeros (map of_nat [50..<79]) t = None \<longleftrightarrow> 3 * MAXOPBLOCKS \<le> length (map of_nat [50..<79] :: u32 list)"
    using log_reservation_off_by_one [OF ex_write_view(2) d h, of 79] by auto
  moreover have "bzeros (map of_nat [50..<80]) t = None"
    using log_reservation_off_by_one [OF ex_write_view(2) d h, of 80] t(1) by auto
  ultimately show ?thesis by (intro exI [of _ t]) simp
qed

end
