(* ===== verification/Virtio.thy ===== *)
theory Virtio
  imports Kern Ring
begin

text \<open>
  The disk driver, \<^verbatim>\<open>kernel/virtio_disk.c\<close> and \<^verbatim>\<open>kernel/virtio.h\<close>: the descriptors, the two rings that the driver
  and the device share, and the calls \<^verbatim>\<open>virtio_disk_rw\<close> and \<^verbatim>\<open>virtio_disk_intr\<close>.  \<^verbatim>\<open>virtio_disk_rw\<close> gives up its lock
  where it sleeps, so it is cut there: \<open>vpc\<close> says where a process stands in it.  The driver's code
  between two sleeps runs under \<^verbatim>\<open>disk.vdisk_lock\<close> and is one step; the steps of the processes, of
  the interrupt handler and of the device interleave.  What the device does with the data of a
  request is a parameter.
\<close>

section \<open>Data\<close>

abbreviation (input) NUM :: nat where "NUM \<equiv> 8"
abbreviation (input) VRING_DESC_F_NEXT :: u16 where "VRING_DESC_F_NEXT \<equiv> 1"
abbreviation (input) VRING_DESC_F_WRITE :: u16 where "VRING_DESC_F_WRITE \<equiv> 2"
abbreviation (input) VIRTIO_BLK_T_IN :: u32 where "VIRTIO_BLK_T_IN \<equiv> 0"
abbreviation (input) VIRTIO_BLK_T_OUT :: u32 where "VIRTIO_BLK_T_OUT \<equiv> 1"

text \<open>What a descriptor points to: an element of \<^verbatim>\<open>disk.ops\<close>, the data of a buffer, or a status byte of
  \<^verbatim>\<open>disk.info\<close>.\<close>

datatype dma = Null | Ops nat | Data nat | Status nat

record virtq_desc =
  daddr :: dma
  dlen :: u32
  dflags :: u16
  dnext :: u16

record virtio_blk_req =
  req_type :: u32
  req_reserved :: u32
  req_sector :: u64

text \<open>Where a process stands in \<^verbatim>\<open>virtio_disk_rw\<close>: outside, in the loop that waits for descriptors, or in
  the loop that waits for the request whose first descriptor is \<open>i\<close>.\<close>

datatype vpc = Outside | InAlloc nat bool | InWait nat nat bool

text \<open>
  The kernel with \<^verbatim>\<open>struct disk\<close>, the pages of the two rings, the field \<^verbatim>\<open>disk\<close> of the buffers, and the
  device: how far it has looked into the ring of available requests, which it has begun to work on, and
  its medium.
\<close>

record 'd vkern = kern +
  desc :: "virtq_desc list"
  avail_idx :: u16
  avail_ring :: "u16 list"
  used_ring_idx :: u16
  used_ring :: "(u32 \<times> u32) list"
  vfree :: "bool list"
  used_idx :: u16
  info_b :: "nat option list"
  info_status :: "u8 list"
  ops :: "virtio_blk_req list"
  bdisk :: "nat \<Rightarrow> bool"
  vpc :: "nat \<Rightarrow> vpc"
  dev_seen :: u16
  dev_work :: "nat list"
  medium :: 'd

definition upd_desc :: "nat \<Rightarrow> (virtq_desc \<Rightarrow> virtq_desc) \<Rightarrow> ('d, 'a) vkern_scheme \<Rightarrow> ('d, 'a) vkern_scheme" where
  "upd_desc i f s = s\<lparr>desc := (desc s)[i := f (desc s ! i)]\<rparr>"

definition set_vpc :: "nat \<Rightarrow> vpc \<Rightarrow> ('d, 'a) vkern_scheme \<Rightarrow> ('d, 'a) vkern_scheme" where
  "set_vpc p x s = s\<lparr>vpc := (vpc s)(p := x)\<rparr>"

section \<open>Descriptors\<close>

primrec alloc_desc_loop :: "nat \<Rightarrow> nat \<Rightarrow> ('d, 'a) vkern_scheme \<Rightarrow> int \<times> ('d, 'a) vkern_scheme" where
  "alloc_desc_loop 0 i s = (- 1, s)"
| "alloc_desc_loop (Suc n) i s =
     (if vfree s ! i then (int i, s\<lparr>vfree := (vfree s)[i := False]\<rparr>) else alloc_desc_loop n (Suc i) s)"

definition alloc_desc :: "('d, 'a) vkern_scheme \<Rightarrow> int \<times> ('d, 'a) vkern_scheme" where
  "alloc_desc s = alloc_desc_loop NUM 0 s"

definition free_desc :: "nat \<Rightarrow> ('d, 'a) vkern_scheme \<Rightarrow> ('d, 'a) vkern_scheme option" where
  "free_desc i s =
     (if NUM \<le> i then panic ''free_desc 1''
      else if vfree s ! i then panic ''free_desc 2''
      else let s = upd_desc i (\<lambda>d. d\<lparr>daddr := Null, dlen := 0, dflags := 0, dnext := 0\<rparr>) s
           in Some (wakeup ChanDisk (s\<lparr>vfree := (vfree s)[i := True]\<rparr>)))"

partial_function (option) free_chain :: "nat \<Rightarrow> ('d, 'a) vkern_scheme \<Rightarrow> ('d, 'a) vkern_scheme option" where
  "free_chain i s =
     (if NUM \<le> i then None
      else let flag = dflags (desc s ! i); nxt = unat (dnext (desc s ! i))
           in do {
             s \<leftarrow> free_desc i s;
             if flag AND VRING_DESC_F_NEXT \<noteq> 0 then free_chain nxt s else Some s
           })"

primrec free_descs :: "nat list \<Rightarrow> ('d, 'a) vkern_scheme \<Rightarrow> ('d, 'a) vkern_scheme option" where
  "free_descs [] s = Some s"
| "free_descs (i # is) s = do { s \<leftarrow> free_desc i s; free_descs is s }"

text \<open>\<open>ids\<close> holds the descriptors that the loop of \<^verbatim>\<open>alloc3_desc\<close> has so far.\<close>

primrec alloc3_loop :: "nat \<Rightarrow> nat list \<Rightarrow> ('d, 'a) vkern_scheme \<Rightarrow> (int \<times> nat list \<times> ('d, 'a) vkern_scheme) option" where
  "alloc3_loop 0 ids s = Some (0, ids, s)"
| "alloc3_loop (Suc n) ids s =
     (let (i, s) = alloc_desc s
      in if i < 0 then do { s \<leftarrow> free_descs ids s; Some (- 1, ids, s) }
         else alloc3_loop n (ids @ [nat i]) s)"

definition alloc3_desc :: "('d, 'a) vkern_scheme \<Rightarrow> (int \<times> nat list \<times> ('d, 'a) vkern_scheme) option" where
  "alloc3_desc s = alloc3_loop 3 [] s"

section \<open>Requests\<close>

text \<open>The request is formatted and handed to the device.\<close>

definition rw_submit :: "nat \<Rightarrow> nat \<Rightarrow> nat \<Rightarrow> nat \<Rightarrow> bool \<Rightarrow> ('d, 'a) vkern_scheme \<Rightarrow> ('d, 'a) vkern_scheme" where
  "rw_submit i0 i1 i2 b wr s =
     (let sector = ucast (blockno (bufs s b) * of_nat (BSIZE div 512));
          s = s\<lparr>ops := (ops s)[i0 := \<lparr>req_type = (if wr then VIRTIO_BLK_T_OUT else VIRTIO_BLK_T_IN),
                                  req_reserved = 0, req_sector = sector\<rparr>]\<rparr>;
          s = upd_desc i0 (\<lambda>d. d\<lparr>daddr := Ops i0, dlen := 16, dflags := VRING_DESC_F_NEXT, dnext := of_nat i1\<rparr>) s;
          s = upd_desc i1 (\<lambda>d. d\<lparr>daddr := Data b, dlen := of_nat BSIZE,
                dflags := (if wr then 0 else VRING_DESC_F_WRITE) OR VRING_DESC_F_NEXT, dnext := of_nat i2\<rparr>) s;
          s = s\<lparr>info_status := (info_status s)[i0 := 0xff]\<rparr>;
          s = upd_desc i2 (\<lambda>d. d\<lparr>daddr := Status i0, dlen := 1, dflags := VRING_DESC_F_WRITE, dnext := 0\<rparr>) s;
          s = s\<lparr>bdisk := (bdisk s)(b := True), info_b := (info_b s)[i0 := Some b]\<rparr>;
          s = s\<lparr>avail_ring := (avail_ring s)[unat (avail_idx s) mod NUM := of_nat i0]\<rparr>
      in s\<lparr>avail_idx := avail_idx s + 1\<rparr>)"

text \<open>The loop that waits for the request, and the rest of \<^verbatim>\<open>virtio_disk_rw\<close>.\<close>

definition rw_wait :: "nat \<Rightarrow> nat \<Rightarrow> nat \<Rightarrow> bool \<Rightarrow> ('d, 'a) vkern_scheme \<Rightarrow> ('d, 'a) vkern_scheme option" where
  "rw_wait p i0 b wr s =
     (if bdisk s b then Some (set_vpc p (InWait i0 b wr) (sleep_enter p (ChanBuf b) s))
      else do {
        s \<leftarrow> free_chain i0 (s\<lparr>info_b := (info_b s)[i0 := None]\<rparr>);
        Some (set_vpc p Outside s)
      })"

text \<open>One turn of the loop that allocates the descriptors, and what follows it up to the next sleep.\<close>

definition rw_alloc :: "nat \<Rightarrow> nat \<Rightarrow> bool \<Rightarrow> ('d, 'a) vkern_scheme \<Rightarrow> ('d, 'a) vkern_scheme option" where
  "rw_alloc p b wr s =
     do {
       (r, ids, s) \<leftarrow> alloc3_desc s;
       if r = 0 then rw_wait p (ids ! 0) b wr (rw_submit (ids ! 0) (ids ! 1) (ids ! 2) b wr s)
       else Some (set_vpc p (InAlloc b wr) (sleep_enter p ChanDisk s))
     }"

definition virtio_disk_rw :: "nat \<Rightarrow> nat \<Rightarrow> bool \<Rightarrow> ('d, 'a) vkern_scheme \<Rightarrow> ('d, 'a) vkern_scheme option" where
  "virtio_disk_rw p b wr s = rw_alloc p b wr s"

text \<open>A process that was asleep in \<^verbatim>\<open>virtio_disk_rw\<close> goes on.\<close>

definition virtio_resume :: "nat \<Rightarrow> ('d, 'a) vkern_scheme \<Rightarrow> ('d, 'a) vkern_scheme option" where
  "virtio_resume p s =
     (case vpc s p of
        Outside \<Rightarrow> Some s
      | InAlloc b wr \<Rightarrow> rw_alloc p b wr s
      | InWait i b wr \<Rightarrow> rw_wait p i b wr s)"

section \<open>Interrupts\<close>

primrec intr_loop :: "nat \<Rightarrow> ('d, 'a) vkern_scheme \<Rightarrow> ('d, 'a) vkern_scheme option" where
  "intr_loop 0 s = Some s"
| "intr_loop (Suc n) s =
     do {
       (id, len) \<leftarrow> idx (used_ring s) (unat (used_idx s) mod NUM);
       st \<leftarrow> idx (info_status s) (unat id);
       if st \<noteq> 0 then panic ''virtio_disk_intr status''
       else do {
         ob \<leftarrow> idx (info_b s) (unat id);
         b \<leftarrow> ob;
         let s = wakeup (ChanBuf b) (s\<lparr>bdisk := (bdisk s)(b := False)\<rparr>);
         intr_loop n (s\<lparr>used_idx := used_idx s + 1\<rparr>)
       }
     }"

text \<open>The loop runs until \<open>used_idx\<close> has caught up with the device's counter.\<close>

definition virtio_disk_intr :: "('d, 'a) vkern_scheme \<Rightarrow> ('d, 'a) vkern_scheme option" where
  "virtio_disk_intr s = intr_loop (unat (used_ring_idx s - used_idx s)) s"

section \<open>Initialisation\<close>

text \<open>
  \<open>rd\<close> is what the device registers read as; the result has the registers written, in order.  The
  shared pages come from \<^verbatim>\<open>kalloc\<close>, cleared.
\<close>

definition NEGOTIATED :: u64 where
  "NEGOTIATED = NOT (push_bit 5 1 OR push_bit 7 1 OR push_bit 11 1 OR push_bit 12 1 OR push_bit 27 1 OR push_bit 28 1 OR push_bit 29 1)"

definition virtio_disk_init :: "(u32 \<Rightarrow> u32) \<Rightarrow> ('d, 'a) vkern_scheme \<Rightarrow> ((u32 \<times> u32) list \<times> ('d, 'a) vkern_scheme) option" where
  "virtio_disk_init rd s =
     (if rd 0x000 \<noteq> 0x74726976 \<or> rd 0x004 \<noteq> 2 \<or> rd 0x008 \<noteq> 2 \<or> rd 0x00c \<noteq> 0x554d4551 then panic ''could not find virtio disk''
      else if rd 0x070 AND 8 = 0 then panic ''virtio disk FEATURES_OK unset''
      else if rd 0x044 \<noteq> 0 then panic ''virtio disk should not be ready''
      else if rd 0x034 = 0 then panic ''virtio disk has no queue 0''
      else if rd 0x034 < of_nat NUM then panic ''virtio disk max queue too short''
      else do {
        (dsc, s) \<leftarrow> on_mem kalloc s;
        (avl, s) \<leftarrow> on_mem kalloc s;
        (usd, s) \<leftarrow> on_mem kalloc s;
        if dsc = 0 \<or> avl = 0 \<or> usd = 0 then panic ''virtio disk kalloc''
        else Some
          ([(0x070, 0), (0x070, 1), (0x070, 3), (0x020, ucast (ucast (rd 0x010) AND NEGOTIATED)), (0x070, 11), (0x030, 0),
            (0x038, of_nat NUM), (0x080, ucast dsc), (0x084, ucast (drop_bit 32 dsc)), (0x090, ucast avl), (0x094, ucast (drop_bit 32 avl)),
            (0x0a0, ucast usd), (0x0a4, ucast (drop_bit 32 usd)), (0x044, 1), (0x070, rd 0x070 OR 4)],
           s\<lparr>desc := replicate NUM \<lparr>daddr = Null, dlen = 0, dflags = 0, dnext = 0\<rparr>,
             avail_idx := 0, avail_ring := replicate NUM 0, used_ring_idx := 0, used_ring := replicate NUM (0, 0),
             vfree := replicate NUM True\<rparr>)
      })"

section \<open>The system\<close>

text \<open>
  The request that starts at descriptor \<open>h\<close>, as the device reads it: type, sector, the buffer, whether
  the device may write its data, and the status byte.
\<close>

definition dev_request :: "nat \<Rightarrow> ('d, 'a) vkern_scheme \<Rightarrow> (u32 \<times> u64 \<times> nat \<times> bool \<times> nat) option" where
  "dev_request h s =
     (let d0 = desc s ! h; d1 = desc s ! unat (dnext d0); d2 = desc s ! unat (dnext d1)
      in case (daddr d0, daddr d1, daddr d2) of
           (Ops i, Data b, Status k) \<Rightarrow>
             if dflags d0 = VRING_DESC_F_NEXT \<and> dflags d1 AND VRING_DESC_F_NEXT \<noteq> 0 \<and> dflags d2 = VRING_DESC_F_WRITE
             then Some (req_type (ops s ! i), req_sector (ops s ! i), b, dflags d1 AND VRING_DESC_F_WRITE \<noteq> 0, k)
             else None
         | _ \<Rightarrow> None)"

text \<open>
  The device: \<open>dev ty sec data m\<close> serves a request of type \<open>ty\<close> at sector \<open>sec\<close> with the data of the buffer on the
  medium \<open>m\<close>, and gives the status, the data and the medium.  It then puts the head of the chain on the used
  ring.
\<close>

type_synonym 'd device = "u32 \<Rightarrow> u64 \<Rightarrow> blk \<Rightarrow> 'd \<Rightarrow> u8 \<times> blk \<times> 'd"

definition dev_fetch :: "('d, 'a) vkern_scheme \<Rightarrow> ('d, 'a) vkern_scheme" where
  "dev_fetch s = s\<lparr>dev_work := dev_work s @ [unat (avail_ring s ! (unat (dev_seen s) mod NUM))], dev_seen := dev_seen s + 1\<rparr>"

definition dev_serve :: "'d device \<Rightarrow> nat \<Rightarrow> ('d, 'a) vkern_scheme \<Rightarrow> (nat \<times> ('d, 'a) vkern_scheme) option" where
  "dev_serve dev h s =
     do {
       (ty, sec, b, wrt, k) \<leftarrow> dev_request h s;
       let (st, data, m) = dev ty sec (bdata (bufs s b)) (medium s);
       let s = (if wrt then upd b (bdata_update (\<lambda>_. data)) s
                else s\<lparr>dwrites := dwrites s @ [(blockno (bufs s b), bdata (bufs s b))]\<rparr>);
       Some (b, s\<lparr>medium := m, info_status := (info_status s)[k := st],
         used_ring := (used_ring s)[unat (used_ring_idx s) mod NUM := (of_nat h, of_nat BSIZE)],
         used_ring_idx := used_ring_idx s + 1, dev_work := remove1 h (dev_work s)\<rparr>)
     }"

text \<open>
  What can be seen from outside the driver: a call with a buffer, the moment the device serves it, the
  return, and the work of other processes on buffers they hold.
\<close>

datatype vlabel = Call nat bool | Serve nat | Return nat | Cache "nat \<Rightarrow> buf" | Tau

text \<open>Whether a process is in \<^verbatim>\<open>virtio_disk_rw\<close> for the buffer; the callers hold the buffer's sleep lock.\<close>

definition busy :: "nat \<Rightarrow> vpc \<Rightarrow> bool" where
  "busy b x = (case x of Outside \<Rightarrow> False | InAlloc c wr \<Rightarrow> c = b | InWait i c wr \<Rightarrow> c = b)"

definition schedule :: "nat \<Rightarrow> ('d, 'a) vkern_scheme \<Rightarrow> ('d, 'a) vkern_scheme" where
  "schedule p s = sleep_leave p (upd_proc p (\<lambda>x. x\<lparr>state := RUNNING\<rparr>) s)\<lparr>cur := Some p\<rparr>"

definition resume_label :: "nat \<Rightarrow> ('d, 'a) vkern_scheme \<Rightarrow> vlabel" where
  "resume_label p s = (case vpc s p of InWait i b wr \<Rightarrow> if bdisk s b then Tau else Return b | _ \<Rightarrow> Tau)"

inductive vstep :: "'d device \<Rightarrow> ('d, 'a) vkern_scheme \<Rightarrow> vlabel \<Rightarrow> ('d, 'a) vkern_scheme \<Rightarrow> bool" for dev where
  vcall: "\<lbrakk>p < NPROC; vpc s p = Outside; state (procs s p) = RUNNING; b < NBUF; \<forall>q. \<not> busy b (vpc s q);
      unat (blockno (bufs s b)) < 2 ^ 31; virtio_disk_rw p b wr (s\<lparr>cur := Some p\<rparr>) = Some s'\<rbrakk> \<Longrightarrow>
    vstep dev s (Call b wr) s'"
| vresume: "\<lbrakk>vpc s p \<noteq> Outside; state (procs s p) = RUNNABLE; virtio_resume p (schedule p s) = Some s'\<rbrakk> \<Longrightarrow>
    vstep dev s (resume_label p s) s'"
| vintr: "virtio_disk_intr (s\<lparr>cur := None\<rparr>) = Some s' \<Longrightarrow> vstep dev s Tau s'"
| vfetch: "dev_seen s \<noteq> avail_idx s \<Longrightarrow> vstep dev s Tau (dev_fetch s)"
| vserve: "\<lbrakk>h \<in> set (dev_work s); dev_serve dev h s = Some (b, s')\<rbrakk> \<Longrightarrow> vstep dev s (Serve b) s'"
| vkill: "vstep dev s Tau (snd (kill i s))"
| vcache: "(\<And>b. \<exists>q. busy b (vpc s q) \<Longrightarrow> f b = bufs s b) \<Longrightarrow> vstep dev s (Cache f) (s\<lparr>bufs := f\<rparr>)"

inductive vreach :: "'d device \<Rightarrow> ('d, 'a) vkern_scheme \<Rightarrow> vlabel list \<Rightarrow> ('d, 'a) vkern_scheme \<Rightarrow> bool" for dev s0 where
  vreach_init: "vreach dev s0 [] s0"
| vreach_step: "vreach dev s0 ls s \<Longrightarrow> vstep dev s l s' \<Longrightarrow> vreach dev s0 (ls @ [l]) s'"

end
