(* ===== verification/VirtioSpec.thy ===== *)
theory VirtioSpec
  imports Virtio KernSpec
begin

text \<open>
  The disk driver and the device under every interleaving: the invariant of the descriptors and rings,
  that the driver never panics, that the whole is an atomic disk to its callers (every request takes
  effect once, between its call and its return, as \<open>disk_rw\<close> of the buffer cache says), and that no
  process is left asleep.
\<close>

section \<open>Descriptors\<close>

definition no_desc :: virtq_desc where
  "no_desc = \<lparr>daddr = Null, dlen = 0, dflags = 0, dnext = 0\<rparr>"

lemma alloc_desc_loop_eq:
  "alloc_desc_loop n i s = (case find (\<lambda>i. vfree s ! i) [i..<i + n] of
     None \<Rightarrow> (- 1, s) | Some i \<Rightarrow> (int i, s\<lparr>vfree := (vfree s)[i := False]\<rparr>))"
  by (induction n arbitrary: i) (simp_all add: upt_conv_Cons del: upt_Suc)

lemma alloc_desc_eq:
  "alloc_desc s = (case find (\<lambda>i. vfree s ! i) [0..<NUM] of
     None \<Rightarrow> (- 1, s) | Some i \<Rightarrow> (int i, s\<lparr>vfree := (vfree s)[i := False]\<rparr>))"
  unfolding alloc_desc_def alloc_desc_loop_eq by (simp del: upt_Suc)

lemma clear_desc: "d\<lparr>daddr := Null, dlen := 0, dflags := 0, dnext := 0\<rparr> = no_desc"
  by (cases d) (simp add: no_desc_def)

definition woken :: "nat option \<Rightarrow> chan \<Rightarrow> (nat \<Rightarrow> proc) \<Rightarrow> nat \<Rightarrow> proc" where
  "woken me c t = (\<lambda>q. if q < NPROC then awake me c q (t q) else t q)"

lemma woken_idem [simp]: "woken me c (woken me c t) = woken me c t"
  by (simp add: woken_def awake_def fun_eq_iff)

lemma wakeup_woken: "wakeup c s = s\<lparr>procs := woken (cur s) c (procs s)\<rparr>"
  by (simp add: wakeup_eq woken_def)

lemma free_desc_eq:
  assumes "i < NUM" and "\<not> vfree s ! i"
  shows "free_desc i s = Some (s\<lparr>desc := (desc s)[i := no_desc], vfree := (vfree s)[i := True],
    procs := woken (cur s) ChanDisk (procs s)\<rparr>)"
  using assms by (simp add: free_desc_def upd_desc_def clear_desc wakeup_woken Let_def)

lemma free_descs_eq:
  assumes "length (vfree s) = NUM" "distinct is" and "\<forall>i \<in> set is. i < NUM \<and> \<not> vfree s ! i"
  shows "free_descs is s = Some (s\<lparr>desc := marked is no_desc (desc s), vfree := marked is True (vfree s),
    procs := (if is = [] then procs s else woken (cur s) ChanDisk (procs s))\<rparr>)"
  using assms
proof (induction "is" arbitrary: s)
  case (Cons i "is")
  let ?s = "s\<lparr>desc := (desc s)[i := no_desc], vfree := (vfree s)[i := True], procs := woken (cur s) ChanDisk (procs s)\<rparr>"
  have "free_descs is ?s = Some (?s\<lparr>desc := marked is no_desc (desc ?s), vfree := marked is True (vfree ?s),
      procs := (if is = [] then procs ?s else woken (cur ?s) ChanDisk (procs ?s))\<rparr>)"
    by (rule Cons.IH) (use Cons.prems in \<open>auto simp: nth_list_update\<close>)
  then show ?case using Cons.prems by (simp add: free_desc_eq)
qed simp

text \<open>The free descriptors, and \<^verbatim>\<open>alloc3_desc\<close> in both cases.\<close>

definition spare :: "('d, 'a) vkern_scheme \<Rightarrow> nat set" where
  "spare s = {i. i < NUM \<and> vfree s ! i}"

lemma finite_spare [simp]: "finite (spare s)"
  by (simp add: spare_def)

lemma find_spare:
  "find (\<lambda>i. vfree s ! i) [0..<NUM] = None \<longleftrightarrow> spare s = {}"
  "find (\<lambda>i. vfree s ! i) [0..<NUM] = Some i \<Longrightarrow> i \<in> spare s"
  by (auto simp: spare_def find_None_iff find_Some_iff simp del: upt_Suc)

lemma spare_take: "length (vfree s) = NUM \<Longrightarrow> i < NUM \<Longrightarrow> spare (s\<lparr>vfree := (vfree s)[i := False]\<rparr>) = spare s - {i}"
  by (auto simp: spare_def nth_list_update)

lemma alloc3_loop_ok:
  assumes "length (vfree s) = NUM" "distinct is" "set is \<inter> spare s = {}" "\<forall>i \<in> set is. i < NUM"
  shows "if n \<le> card (spare s)
    then \<exists>js. alloc3_loop n is s = Some (0, is @ js, s\<lparr>vfree := marked js False (vfree s)\<rparr>) \<and> length js = n \<and> distinct js \<and> set js \<subseteq> spare s
    else \<exists>js. alloc3_loop n is s = Some (- 1, is @ js, s\<lparr>desc := marked (is @ js) no_desc (desc s), vfree := marked (is @ js) True (vfree s),
      procs := (if is @ js = [] then procs s else woken (cur s) ChanDisk (procs s))\<rparr>) \<and> set js = spare s"
  using assms
proof (induction n arbitrary: "is" s)
  case 0
  show ?case by (simp add: exI [of _ "[]"])
next
  case (Suc n)
  show ?case
  proof (cases "find (\<lambda>i. vfree s ! i) [0..<NUM]")
    case None
    then have e: "spare s = {}" by (simp add: find_spare(1) del: upt_Suc)
    have "\<forall>i \<in> set is. i < NUM \<and> \<not> vfree s ! i" using Suc.prems by (auto simp: spare_def)
    then have "alloc3_loop (Suc n) is s = Some (- 1, is, s\<lparr>desc := marked is no_desc (desc s), vfree := marked is True (vfree s),
      procs := (if is = [] then procs s else woken (cur s) ChanDisk (procs s))\<rparr>)"
      using None Suc.prems by (simp add: alloc_desc_eq free_descs_eq del: upt_Suc)
    then show ?thesis using e by auto
  next
    case (Some i)
    let ?s = "s\<lparr>vfree := (vfree s)[i := False]\<rparr>"
    have i: "i \<in> spare s" "i < NUM" using find_spare(2) [OF Some] by (simp_all add: spare_def)
    have st: "alloc3_loop (Suc n) is s = alloc3_loop n (is @ [i]) ?s" using Some by (simp add: alloc_desc_eq del: upt_Suc)
    have sp: "spare ?s = spare s - {i}" using Suc.prems i by (simp add: spare_take)
    have IH: "if n \<le> card (spare ?s)
      then \<exists>js. alloc3_loop n (is @ [i]) ?s = Some (0, (is @ [i]) @ js, ?s\<lparr>vfree := marked js False (vfree ?s)\<rparr>) \<and> length js = n \<and> distinct js \<and> set js \<subseteq> spare ?s
      else \<exists>js. alloc3_loop n (is @ [i]) ?s = Some (- 1, (is @ [i]) @ js, ?s\<lparr>desc := marked ((is @ [i]) @ js) no_desc (desc ?s), vfree := marked ((is @ [i]) @ js) True (vfree ?s),
        procs := (if (is @ [i]) @ js = [] then procs ?s else woken (cur ?s) ChanDisk (procs ?s))\<rparr>) \<and> set js = spare ?s"
      by (rule Suc.IH) (use Suc.prems i sp in auto)
    have c: "n \<le> card (spare ?s) \<longleftrightarrow> Suc n \<le> card (spare s)"
      unfolding sp using i by (simp add: card_Diff_singleton) (metis Suc_le_eq card_gt_0_iff empty_iff finite_spare diff_Suc_1 Suc_le_mono Suc_pred)
    show ?thesis
    proof (cases "Suc n \<le> card (spare s)")
      case True
      then obtain js where "alloc3_loop n (is @ [i]) ?s = Some (0, (is @ [i]) @ js, ?s\<lparr>vfree := marked js False (vfree ?s)\<rparr>)"
        "length js = n" "distinct js" "set js \<subseteq> spare s - {i}" using IH c sp by auto
      then show ?thesis using True st i by (intro if_P [THEN iffD2] exI [of _ "i # js"]) auto
    next
      case False
      then obtain js where js: "alloc3_loop n (is @ [i]) ?s = Some (- 1, (is @ [i]) @ js, ?s\<lparr>desc := marked ((is @ [i]) @ js) no_desc (desc ?s), vfree := marked ((is @ [i]) @ js) True (vfree ?s),
        procs := (if (is @ [i]) @ js = [] then procs ?s else woken (cur ?s) ChanDisk (procs ?s))\<rparr>)" "set js = spare s - {i}" using IH c sp by auto
      have "marked (is @ i # js) True ((vfree s)[i := False]) = marked (is @ i # js) True (vfree s)"
        using Suc.prems by (intro nth_equalityI) (auto simp: nth_marked nth_list_update simp del: marked_simps)
      then show ?thesis using False st i js by (auto intro!: exI [of _ "i # js"] simp del: marked_simps)
    qed
  qed
qed

lemma alloc3_some:
  assumes "length (vfree s) = NUM" "3 \<le> card (spare s)"
  shows "\<exists>i j k. alloc3_desc s = Some (0, [i, j, k], s\<lparr>vfree := marked [i, j, k] False (vfree s)\<rparr>) \<and> distinct [i, j, k] \<and> {i, j, k} \<subseteq> spare s"
proof -
  obtain js where js: "alloc3_loop 3 [] s = Some (0, js, s\<lparr>vfree := marked js False (vfree s)\<rparr>)" "length js = 3" "distinct js" "set js \<subseteq> spare s"
    using alloc3_loop_ok [of s "[]" 3, OF assms(1)] assms(2)
    by (simp only: if_True append_Nil distinct.simps list.set Int_empty_left ball_empty simp_thms) blast
  from js(2) obtain i j k where l: "js = [i, j, k]" by (auto simp: numeral_3_eq_3 length_Suc_conv)
  show ?thesis
    by (rule exI [of _ i], rule exI [of _ j], rule exI [of _ k]) (use js in \<open>simp only: l alloc3_desc_def list.set set_simps simp_thms\<close>)
qed

lemma alloc3_none:
  assumes "length (vfree s) = NUM" "card (spare s) < 3"
  shows "\<exists>js. alloc3_desc s = Some (- 1, js, s\<lparr>desc := marked js no_desc (desc s),
    procs := (if js = [] then procs s else woken (cur s) ChanDisk (procs s))\<rparr>) \<and> set js = spare s"
proof -
  have n: "\<not> 3 \<le> card (spare s)" using assms(2) by simp
  obtain js where js: "alloc3_loop 3 [] s = Some (- 1, js, s\<lparr>desc := marked js no_desc (desc s), vfree := marked js True (vfree s),
      procs := (if js = [] then procs s else woken (cur s) ChanDisk (procs s))\<rparr>)" "set js = spare s"
    using alloc3_loop_ok [of s "[]" 3, OF assms(1)]
    by (simp only: n if_False append_Nil distinct.simps list.set Int_empty_left ball_empty simp_thms) blast
  have "marked js True (vfree s) = vfree s"
    using js(2) assms(1) by (intro nth_equalityI) (auto simp: nth_marked spare_def)
  then show ?thesis using js unfolding alloc3_desc_def by (intro exI [of _ js]) simp
qed

section \<open>The invariant\<close>

definition nx :: "('d, 'a) vkern_scheme \<Rightarrow> nat \<Rightarrow> nat" where
  "nx s i = unat (dnext (desc s ! i))"

definition dchain :: "('d, 'a) vkern_scheme \<Rightarrow> nat \<Rightarrow> nat list" where
  "dchain s i = [i, nx s i, nx s (nx s i)]"

text \<open>The three descriptors that start at \<open>i\<close> are a request for the buffer \<open>b\<close>.\<close>

definition request :: "('d, 'a) vkern_scheme \<Rightarrow> nat \<Rightarrow> nat \<Rightarrow> bool \<Rightarrow> bool" where
  "request s i b w \<longleftrightarrow> distinct (dchain s i) \<and> (\<forall>n \<in> set (dchain s i). n < NUM) \<and>
     daddr (desc s ! i) = Ops i \<and> dflags (desc s ! i) = VRING_DESC_F_NEXT \<and>
     daddr (desc s ! nx s i) = Data b \<and> dflags (desc s ! nx s i) = (if w then 1 else 3) \<and>
     daddr (desc s ! nx s (nx s i)) = Status i \<and> dflags (desc s ! nx s (nx s i)) = VRING_DESC_F_WRITE \<and>
     req_type (ops s ! i) = (if w then VIRTIO_BLK_T_OUT else VIRTIO_BLK_T_IN) \<and>
     req_sector (ops s ! i) = ucast (blockno (bufs s b) * 2) \<and> info_b s ! i = Some b"

text \<open>The requests the device has not served, and all that are not finished, in order.\<close>

definition queued :: "('d, 'a) vkern_scheme \<Rightarrow> nat list" where
  "queued s = map unat (ring_q NUM (avail_ring s) (dev_seen s) (avail_idx s)) @ dev_work s"

definition finished :: "('d, 'a) vkern_scheme \<Rightarrow> nat list" where
  "finished s = map (unat \<circ> fst) (ring_q NUM (used_ring s) (used_idx s) (used_ring_idx s))"

definition lens :: "('d, 'a) vkern_scheme \<Rightarrow> bool" where
  "lens s \<longleftrightarrow> length (desc s) = NUM \<and> length (vfree s) = NUM \<and> length (avail_ring s) = NUM \<and> length (used_ring s) = NUM \<and>
     length (info_b s) = NUM \<and> length (info_status s) = NUM \<and> length (ops s) = NUM"

definition owned :: "('d, 'a) vkern_scheme \<Rightarrow> bool" where
  "owned s \<longleftrightarrow>
     (\<forall>p i b w. vpc s p = InWait i b w \<longrightarrow> request s i b w) \<and>
     (\<forall>p q i b w j c w'. p \<noteq> q \<longrightarrow> vpc s p = InWait i b w \<longrightarrow> vpc s q = InWait j c w' \<longrightarrow> set (dchain s i) \<inter> set (dchain s j) = {}) \<and>
     (\<forall>n<NUM. vfree s ! n \<longleftrightarrow> (\<forall>p i b w. vpc s p = InWait i b w \<longrightarrow> n \<notin> set (dchain s i)))"

definition exclusive :: "('d, 'a) vkern_scheme \<Rightarrow> bool" where
  "exclusive s \<longleftrightarrow> (\<forall>p q b. busy b (vpc s p) \<longrightarrow> busy b (vpc s q) \<longrightarrow> p = q) \<and>
     (\<forall>p. vpc s p \<noteq> Outside \<longrightarrow> p < NPROC) \<and> (\<forall>p b. busy b (vpc s p) \<longrightarrow> unat (blockno (bufs s b)) < 2 ^ 31)"

definition rings :: "(u8 \<Rightarrow> bool) \<Rightarrow> ('d, 'a) vkern_scheme \<Rightarrow> bool" where
  "rings A s \<longleftrightarrow> distinct (queued s @ finished s) \<and>
     (\<forall>h. h \<in> set (queued s @ finished s) \<longleftrightarrow> (\<exists>p b w. vpc s p = InWait h b w \<and> bdisk s b)) \<and>
     (\<forall>p i b w. vpc s p = InWait i b w \<longrightarrow> (if i \<in> set (queued s) then info_status s ! i = 0xff else A (info_status s ! i)))"

text \<open>\<open>A\<close> says which status bytes the device may answer with.

  A process that sleeps in the driver waits for something that is still to happen.\<close>

definition rests :: "('d, 'a) vkern_scheme \<Rightarrow> nat \<Rightarrow> bool" where
  "rests s p =
     (case vpc s p of
        Outside \<Rightarrow> True
      | InAlloc b w \<Rightarrow> state (procs s p) = RUNNABLE \<or>
          state (procs s p) = SLEEPING \<and> channel (procs s p) = Some ChanDisk \<and> card (spare s) < 3
      | InWait i b w \<Rightarrow> state (procs s p) = RUNNABLE \<or>
          state (procs s p) = SLEEPING \<and> channel (procs s p) = Some (ChanBuf b) \<and> bdisk s b)"

definition vinv :: "(u8 \<Rightarrow> bool) \<Rightarrow> ('d, 'a) vkern_scheme \<Rightarrow> bool" where
  "vinv A s \<longleftrightarrow> lens s \<and> owned s \<and> exclusive s \<and> rings A s \<and> (\<forall>p. rests s p)"

lemma lensD:
  "lens s \<Longrightarrow> length (desc s) = NUM" "lens s \<Longrightarrow> length (vfree s) = NUM" "lens s \<Longrightarrow> length (avail_ring s) = NUM"
  "lens s \<Longrightarrow> length (used_ring s) = NUM" "lens s \<Longrightarrow> length (info_b s) = NUM" "lens s \<Longrightarrow> length (info_status s) = NUM"
  "lens s \<Longrightarrow> length (ops s) = NUM"
  by (simp_all add: lens_def)

lemma ownedD:
  assumes "owned s"
  shows "vpc s p = InWait i b w \<Longrightarrow> request s i b w"
    and "p \<noteq> q \<Longrightarrow> vpc s p = InWait i b w \<Longrightarrow> vpc s q = InWait j c w' \<Longrightarrow> set (dchain s i) \<inter> set (dchain s j) = {}"
    and "n < NUM \<Longrightarrow> vfree s ! n \<longleftrightarrow> (\<forall>p i b w. vpc s p = InWait i b w \<longrightarrow> n \<notin> set (dchain s i))"
  using assms by (auto simp: owned_def)

lemma head_in_chain [simp]: "i \<in> set (dchain s i)"
  by (simp add: dchain_def)

lemma request_small: "request s i b w \<Longrightarrow> n \<in> set (dchain s i) \<Longrightarrow> n < NUM"
  by (simp add: request_def)

lemma owner_unique:
  "owned s \<Longrightarrow> vpc s p = InWait i b w \<Longrightarrow> vpc s q = InWait i c w' \<Longrightarrow> p = q"
  using ownedD(2) [of s p q i b w i c w'] head_in_chain [of i s] by blast

lemma not_spare: "owned s \<Longrightarrow> vpc s p = InWait i b w \<Longrightarrow> n \<in> set (dchain s i) \<Longrightarrow> n \<notin> spare s"
  using ownedD(3) [of s n] by (auto simp: spare_def)

lemma ringsD:
  assumes "rings A s"
  shows "distinct (queued s @ finished s)"
    and "h \<in> set (queued s @ finished s) \<longleftrightarrow> (\<exists>p b w. vpc s p = InWait h b w \<and> bdisk s b)"
    and "vpc s p = InWait i b w \<Longrightarrow> if i \<in> set (queued s) then info_status s ! i = 0xff else A (info_status s ! i)"
  using assms unfolding rings_def by blast+

text \<open>Three descriptors for each request out of eight: at most two requests are under way, and the
  rings never overflow.\<close>

definition heads :: "('d, 'a) vkern_scheme \<Rightarrow> nat set" where
  "heads s = {i. \<exists>p b w. vpc s p = InWait i b w}"

lemma heads_small:
  assumes "owned s"
  shows "finite (heads s)" and "3 * card (heads s) + card (spare s) \<le> NUM"
proof -
  have sub: "set (dchain s i) \<subseteq> {..<NUM} - spare s" "card (set (dchain s i)) = 3" if "i \<in> heads s" for i
  proof -
    from that obtain p b w where p: "vpc s p = InWait i b w" by (auto simp: heads_def)
    then have r: "request s i b w" using ownedD(1) [OF assms] by blast
    show "set (dchain s i) \<subseteq> {..<NUM} - spare s" using request_small [OF r] not_spare [OF assms p] by auto
    have "card (set (dchain s i)) = length (dchain s i)" using r by (intro distinct_card) (simp add: request_def)
    then show "card (set (dchain s i)) = 3" by (simp add: dchain_def)
  qed
  have "heads s \<subseteq> {..<NUM}" using sub(1) head_in_chain by blast
  then show fin: "finite (heads s)" using finite_subset by blast
  have apart: "set (dchain s i) \<inter> set (dchain s j) = {}" if ij: "i \<in> heads s" "j \<in> heads s" "i \<noteq> j" for i j
  proof -
    from ij obtain p b w q c w' where w: "vpc s p = InWait i b w" "vpc s q = InWait j c w'" by (auto simp: heads_def)
    then have "p \<noteq> q" using ij(3) by auto
    then show ?thesis using ownedD(2) [OF assms _ w] by simp
  qed
  have "card (\<Union>i\<in>heads s. set (dchain s i)) = (\<Sum>i\<in>heads s. card (set (dchain s i)))"
    by (rule card_UN_disjoint [OF fin]) (use apart in auto)
  also have "\<dots> = 3 * card (heads s)" using sub(2) by simp
  finally have "3 * card (heads s) \<le> card ({..<NUM} - spare s)"
    using sub(1) by (metis UN_least card_mono finite_Diff finite_lessThan)
  also have "\<dots> = NUM - card (spare s)" by (subst card_Diff_subset) (auto simp: spare_def)
  finally have "3 * card (heads s) \<le> NUM - card (spare s)" .
  moreover have "spare s \<subseteq> {..<NUM}" by (auto simp: spare_def)
  then have "card (spare s) \<le> NUM" using card_mono [of "{..<NUM}" "spare s"] by simp
  ultimately show "3 * card (heads s) + card (spare s) \<le> NUM" by simp
qed

lemma few_queued:
  assumes "owned s" and "rings A s"
  shows "length (queued s) + length (finished s) \<le> 2"
proof -
  have "card (set (queued s @ finished s)) = length (queued s @ finished s)"
    using assms(2) by (intro distinct_card) (simp add: rings_def)
  moreover have "set (queued s @ finished s) \<subseteq> heads s" unfolding heads_def using ringsD(2) [OF assms(2)] by blast
  ultimately have "length (queued s @ finished s) \<le> card (heads s)"
    using heads_small(1) [OF assms(1)] by (metis card_mono)
  then show ?thesis using heads_small(2) [OF assms(1)] by simp
qed

section \<open>The steps keep the invariant\<close>

lemma request_cong:
  assumes "\<forall>n \<in> set (dchain s i). desc s' ! n = desc s ! n" 
  shows "dchain s' i = dchain s i"
    and "ops s' ! i = ops s ! i \<Longrightarrow> info_b s' ! i = info_b s ! i \<Longrightarrow> blockno (bufs s' b) = blockno (bufs s b) \<Longrightarrow>
      request s i b w \<Longrightarrow> request s' i b w"
proof -
  have n: "nx s' i = nx s i" "nx s' (nx s i) = nx s (nx s i)" using assms by (simp_all add: nx_def dchain_def)
  show d: "dchain s' i = dchain s i" by (simp add: dchain_def n)
  have e: "desc s' ! i = desc s ! i" "desc s' ! nx s i = desc s ! nx s i" "desc s' ! nx s (nx s i) = desc s ! nx s (nx s i)"
    using assms by (simp_all add: dchain_def)
  show "request s' i b w" if "ops s' ! i = ops s ! i" "info_b s' ! i = info_b s ! i" "blockno (bufs s' b) = blockno (bufs s b)" "request s i b w"
    using that unfolding request_def d n e by simp
qed

text \<open>A new request.\<close>

lemma rw_submit_eq:
  assumes "lens s" "distinct [i, j, k]" "i < NUM" "j < NUM" "k < NUM"
  shows "rw_submit i j k b w s = s\<lparr>
    desc := (desc s)[i := \<lparr>daddr = Ops i, dlen = 16, dflags = 1, dnext = of_nat j\<rparr>,
      j := \<lparr>daddr = Data b, dlen = 1024, dflags = (if w then 1 else 3), dnext = of_nat k\<rparr>,
      k := \<lparr>daddr = Status i, dlen = 1, dflags = 2, dnext = 0\<rparr>],
    avail_idx := avail_idx s + 1, avail_ring := (avail_ring s)[unat (avail_idx s) mod NUM := of_nat i],
    info_b := (info_b s)[i := Some b], info_status := (info_status s)[i := 0xff],
    ops := (ops s)[i := \<lparr>req_type = (if w then 1 else 0), req_reserved = 0, req_sector = ucast (blockno (bufs s b) * 2)\<rparr>],
    bdisk := (bdisk s)(b := True)\<rparr>"
proof -
  have d: "d\<lparr>daddr := a, dlen := l, dflags := f, dnext := n\<rparr> = \<lparr>daddr = a, dlen = l, dflags = f, dnext = n\<rparr>" for d :: virtq_desc and a l f n
    by (cases d) simp
  show ?thesis using assms by (simp add: rw_submit_def upd_desc_def d Let_def)
qed

definition submitted :: "nat \<Rightarrow> nat \<Rightarrow> nat \<Rightarrow> nat \<Rightarrow> nat \<Rightarrow> bool \<Rightarrow> ('d, 'a) vkern_scheme \<Rightarrow> ('d, 'a) vkern_scheme" where
  "submitted p i j k b w s = set_vpc p (InWait i b w) (sleep_enter p (ChanBuf b)
     (rw_submit i j k b w (s\<lparr>vfree := marked [i, j, k] False (vfree s)\<rparr>)))"

lemma submitted_eq:
  assumes "lens s" "distinct [i, j, k]" "i < NUM" "j < NUM" "k < NUM"
  shows "submitted p i j k b w s = s\<lparr>
    desc := (desc s)[i := \<lparr>daddr = Ops i, dlen = 16, dflags = 1, dnext = of_nat j\<rparr>,
      j := \<lparr>daddr = Data b, dlen = 1024, dflags = (if w then 1 else 3), dnext = of_nat k\<rparr>,
      k := \<lparr>daddr = Status i, dlen = 1, dflags = 2, dnext = 0\<rparr>],
    vfree := marked [i, j, k] False (vfree s),
    avail_idx := avail_idx s + 1, avail_ring := (avail_ring s)[unat (avail_idx s) mod NUM := of_nat i],
    info_b := (info_b s)[i := Some b], info_status := (info_status s)[i := 0xff],
    ops := (ops s)[i := \<lparr>req_type = (if w then 1 else 0), req_reserved = 0, req_sector = ucast (blockno (bufs s b) * 2)\<rparr>],
    bdisk := (bdisk s)(b := True), procs := (procs s)(p := (procs s p)\<lparr>channel := Some (ChanBuf b), state := SLEEPING\<rparr>),
    vpc := (vpc s)(p := InWait i b w)\<rparr>"
proof -
  have "lens (s\<lparr>vfree := marked [i, j, k] False (vfree s)\<rparr>)" using assms(1) by (simp add: lens_def)
  note e = rw_submit_eq [OF this assms(2-5)]
  show ?thesis
    unfolding submitted_def e by (simp add: set_vpc_def sleep_enter_def upd_proc_def)
qed

lemma submitted_owned:
  assumes l: "lens s" and o: "owned s" and d: "distinct [i, j, k]" and sp: "{i, j, k} \<subseteq> spare s"
    and new: "\<forall>i c w. vpc s p \<noteq> InWait i c w"
  shows "owned (submitted p i j k b w s)"
    and "dchain (submitted p i j k b w s) i = [i, j, k]"
    and "\<And>q h c w'. vpc s q = InWait h c w' \<Longrightarrow> dchain (submitted p i j k b w s) h = dchain s h \<and> set (dchain s h) \<inter> {i, j, k} = {} \<and> q \<noteq> p"
proof -
  define s' where "s' = submitted p i j k b w s"
  have b3: "i < NUM" "j < NUM" "k < NUM" using sp by (simp_all add: spare_def)
  note eq = submitted_eq [OF l d b3, of p b w, folded s'_def]
  have pc: "vpc s' = (vpc s)(p := InWait i b w)" by (simp add: eq)
  have ij: "nx s' i = j" "nx s' j = k" using d b3 l by (simp_all add: eq nx_def lens_def unat_of_nat_small)
  show new_chain: "dchain s' i = [i, j, k]" by (simp add: dchain_def ij)
  have new_req: "request s' i b w"
    unfolding request_def new_chain using ij d b3 l by (simp add: eq lens_def)
  have old: "dchain s' h = dchain s h \<and> set (dchain s h) \<inter> {i, j, k} = {} \<and> q \<noteq> p" "request s' h c w'" if q: "vpc s q = InWait h c w'" for q h c w'
  proof -
    have ns: "set (dchain s h) \<inter> {i, j, k} = {}" using not_spare [OF o q] sp by blast
    have de: "\<forall>n \<in> set (dchain s h). desc s' ! n = desc s ! n"
    proof
      fix n assume "n \<in> set (dchain s h)"
      then have "i \<noteq> n" "j \<noteq> n" "k \<noteq> n" using ns by auto
      then show "desc s' ! n = desc s ! n" by (simp add: eq)
    qed
    have hi: "h \<noteq> i" using ns head_in_chain [of h s] by auto
    show "dchain s' h = dchain s h \<and> set (dchain s h) \<inter> {i, j, k} = {} \<and> q \<noteq> p" using request_cong(1) [OF de] ns q new by auto
    show "request s' h c w'" by (rule request_cong(2) [OF de _ _ _ ownedD(1) [OF o q]]) (use hi in \<open>simp_all add: eq\<close>)
  qed
  then show "\<And>q h c w'. vpc s q = InWait h c w' \<Longrightarrow> dchain s' h = dchain s h \<and> set (dchain s h) \<inter> {i, j, k} = {} \<and> q \<noteq> p" by blast
  have req: "request s' h c w'" if "vpc s' q = InWait h c w'" for q h c w'
    using that new_req old(2) [of q h c w'] by (cases "q = p") (auto simp: pc)
  have apart: "set (dchain s' h) \<inter> set (dchain s' h') = {}"
    if ne: "q \<noteq> r" and q: "vpc s' q = InWait h c w'" and r: "vpc s' r = InWait h' c' w''" for q r h c w' h' c' w''
  proof -
    consider "q = p" "r \<noteq> p" | "q \<noteq> p" "r = p" | "q \<noteq> p" "r \<noteq> p" using ne by auto
    then show ?thesis
    proof cases
      case 1
      then have h: "h = i" using q by (simp add: pc)
      show ?thesis unfolding h new_chain using 1 r old(1) [of r h' c' w''] by (auto simp: pc)
    next
      case 2
      then have h: "h' = i" using r by (simp add: pc)
      show ?thesis unfolding h new_chain using 2 q old(1) [of q h c w'] by (auto simp: pc)
    next
      case 3
      then show ?thesis using q r old(1) [of q h c w'] old(1) [of r h' c' w''] ownedD(2) [OF o ne, of h c w' h' c' w''] by (simp add: pc)
    qed
  qed
  have fr: "vfree s' ! n \<longleftrightarrow> (\<forall>q h c w'. vpc s' q = InWait h c w' \<longrightarrow> n \<notin> set (dchain s' h))" if n: "n < NUM" for n
  proof (cases "n \<in> {i, j, k}")
    case True
    have "\<not> vfree s' ! n" using True n l by (simp add: eq nth_marked lens_def del: marked_simps)
    moreover have "vpc s' p = InWait i b w" "n \<in> set (dchain s' i)" using True by (simp_all add: pc new_chain)
    ultimately show ?thesis by blast
  next
    case False
    then have "vfree s' ! n = vfree s ! n" using n l by (simp add: eq nth_marked lens_def del: marked_simps)
    moreover have "(\<forall>q h c w'. vpc s' q = InWait h c w' \<longrightarrow> n \<notin> set (dchain s' h)) \<longleftrightarrow> (\<forall>q h c w'. vpc s q = InWait h c w' \<longrightarrow> n \<notin> set (dchain s h))"
    proof (intro iffI allI impI)
      fix q h c w' assume a: "\<forall>q h c w'. vpc s' q = InWait h c w' \<longrightarrow> n \<notin> set (dchain s' h)" and q: "vpc s q = InWait h c w'"
      have "vpc s' q = InWait h c w'" using old(1) [OF q] q by (simp add: pc)
      then show "n \<notin> set (dchain s h)" using old(1) [OF q] a by metis
    next
      fix q h c w' assume a: "\<forall>q h c w'. vpc s q = InWait h c w' \<longrightarrow> n \<notin> set (dchain s h)" and q: "vpc s' q = InWait h c w'"
      show "n \<notin> set (dchain s' h)"
      proof (cases "q = p")
        case True
        then have h: "h = i" using q by (simp add: pc)
        show ?thesis unfolding h new_chain using False by simp
      next
        case f: False
        then have "vpc s q = InWait h c w'" using q by (simp add: pc)
        then show ?thesis using old(1) a by metis
      qed
    qed
    ultimately show ?thesis using ownedD(3) [OF o n] by simp
  qed
  show "owned s'" unfolding owned_def using req apart fr by blast
qed

lemma submitted_rings:
  assumes l: "lens s" and o: "owned s" and r: "rings A s" and d: "distinct [i, j, k]" and sp: "{i, j, k} \<subseteq> spare s"
    and new: "\<forall>i c w. vpc s p \<noteq> InWait i c w" and b: "\<forall>q. q \<noteq> p \<longrightarrow> \<not> busy b (vpc s q)"
  shows "rings A (submitted p i j k b w s)"
    and "queued (submitted p i j k b w s) = map unat (ring_q NUM (avail_ring s) (dev_seen s) (avail_idx s)) @ [i] @ dev_work s"
    and "finished (submitted p i j k b w s) = finished s"
proof -
  define s' where "s' = submitted p i j k b w s"
  have b3: "i < NUM" "j < NUM" "k < NUM" using sp by (simp_all add: spare_def)
  note eq = submitted_eq [OF l d b3, of p b w, folded s'_def]
  have pc: "vpc s' = (vpc s)(p := InWait i b w)" by (simp add: eq)
  have "unat (avail_idx s - dev_seen s) < NUM"
    using few_queued [OF o r] by (simp add: queued_def)
  then have "ring_q NUM (avail_ring s') (dev_seen s') (avail_idx s') = ring_q NUM (avail_ring s) (dev_seen s) (avail_idx s) @ [of_nat i]"
    using l by (simp add: eq ring_q_put lens_def)
  then show q: "queued s' = map unat (ring_q NUM (avail_ring s) (dev_seen s) (avail_idx s)) @ [i] @ dev_work s"
    using b3 by (simp add: queued_def unat_of_nat_small) (simp add: eq)
  show f: "finished s' = finished s" by (simp add: finished_def eq)
  have set: "set (queued s' @ finished s') = insert i (set (queued s @ finished s))" "set (queued s') = insert i (set (queued s))"
    unfolding q f queued_def [of s] by auto
  have fresh: "h \<noteq> i" if "vpc s q = InWait h c w'" for q h c w'
    using not_spare [OF o that head_in_chain] sp by auto
  then have i: "i \<notin> set (queued s @ finished s)" using ringsD(2) [OF r] by blast
  have dist: "distinct (queued s' @ finished s')"
    using ringsD(1) [OF r] i unfolding q f queued_def [of s] by auto
  have other: "c \<noteq> b \<and> q \<noteq> p" if "vpc s q = InWait h c w'" for q h c w'
    using b new that by (force simp: busy_def)
  have mem: "h \<in> set (queued s' @ finished s') \<longleftrightarrow> (\<exists>q c w'. vpc s' q = InWait h c w' \<and> bdisk s' c)" for h
  proof -
    have "(\<exists>q c w'. vpc s' q = InWait h c w' \<and> bdisk s' c) \<longleftrightarrow> h = i \<or> (\<exists>q c w'. vpc s q = InWait h c w' \<and> bdisk s c)" (is "?L = ?R")
    proof
      assume ?L
      then obtain q c w' where "vpc s' q = InWait h c w'" "bdisk s' c" by blast
      then show ?R using other [of q h c w'] by (cases "q = p") (auto simp: pc eq)
    next
      assume ?R
      then show ?L
      proof
        assume "h = i"
        then have "vpc s' p = InWait h b w \<and> bdisk s' b" by (simp add: pc eq)
        then show ?L by blast
      next
        assume "\<exists>q c w'. vpc s q = InWait h c w' \<and> bdisk s c"
        then obtain q c w' where q: "vpc s q = InWait h c w'" "bdisk s c" by blast
        then have "vpc s' q = InWait h c w' \<and> bdisk s' c" using other [OF q(1)] by (simp add: pc eq)
        then show ?L by blast
      qed
    qed
    then show ?thesis using set(1) ringsD(2) [OF r, of h] by simp
  qed
  have st: "if h \<in> set (queued s') then info_status s' ! h = 0xff else A (info_status s' ! h)" if "vpc s' q = InWait h c w'" for q h c w'
  proof (cases "q = p")
    case True
    then show ?thesis using that b3 l set(2) by (auto simp: pc eq lens_def)
  next
    case False
    then have q: "vpc s q = InWait h c w'" using that by (simp add: pc)
    then have "info_status s' ! h = info_status s ! h" using fresh [OF q] by (simp add: eq)
    then show ?thesis using ringsD(3) [OF r q] fresh [OF q] set(2) by simp
  qed
  show "rings A s'" unfolding rings_def using dist mem st by blast
qed

lemma submitted_vinv:
  assumes l: "lens s" and o: "owned s" and r: "rings A s" and e: "exclusive s" and rs: "\<forall>q. q \<noteq> p \<longrightarrow> rests s q"
    and d: "distinct [i, j, k]" and sp: "{i, j, k} \<subseteq> spare s" and new: "\<forall>i c w. vpc s p \<noteq> InWait i c w"
    and b: "\<forall>q. q \<noteq> p \<longrightarrow> \<not> busy b (vpc s q)" and p: "p < NPROC" "unat (blockno (bufs s b)) < 2 ^ 31"
  shows "vinv A (submitted p i j k b w s)"
proof -
  define s' where "s' = submitted p i j k b w s"
  have b3: "i < NUM" "j < NUM" "k < NUM" using sp by (simp_all add: spare_def)
  note eq = submitted_eq [OF l d b3, of p b w, folded s'_def]
  have pc: "vpc s' = (vpc s)(p := InWait i b w)" by (simp add: eq)
  have l': "lens s'" using l by (simp add: lens_def eq)
  have bz: "busy c (vpc s' q) \<longleftrightarrow> (if q = p then c = b else busy c (vpc s q))" for c q
    by (auto simp: pc busy_def)
  have bf: "bufs s' = bufs s" by (simp add: eq)
  have e': "exclusive s'"
    using e b p unfolding exclusive_def bz bf by (auto simp: pc split: if_splits)
  have "spare s' \<subseteq> spare s" using l by (auto simp: spare_def eq nth_marked lens_def simp del: marked_simps split: if_splits)
  then have c: "card (spare s') \<le> card (spare s)" by (simp add: card_mono)
  have "rests s' q" for q
  proof (cases "q = p")
    case True
    then show ?thesis by (simp add: rests_def eq)
  next
    case False
    then have "rests s q" using rs by blast
    moreover have "vpc s' q = vpc s q" "procs s' q = procs s q" using False by (simp_all add: eq)
    moreover have "bdisk s c \<Longrightarrow> bdisk s' c" for c by (simp add: eq)
    ultimately show ?thesis using c by (auto simp: rests_def split: vpc.splits)
  qed
  then show ?thesis
    using l' e' submitted_owned(1) [OF l o d sp new] submitted_rings(1) [OF l o r d sp new b] by (simp add: vinv_def s'_def)
qed

text \<open>Steps that leave the requests as they are.\<close>

lemma owned_same:
  assumes o: "owned s" and w: "\<And>q h c w. vpc s' q = InWait h c w \<longleftrightarrow> vpc s q = InWait h c w"
    and d: "\<And>n. n \<notin> spare s \<Longrightarrow> desc s' ! n = desc s ! n" and f: "vfree s' = vfree s" "ops s' = ops s" "info_b s' = info_b s"
    and b: "\<And>q h c w. vpc s q = InWait h c w \<Longrightarrow> blockno (bufs s' c) = blockno (bufs s c)"
  shows "owned s'"
proof -
  have de: "\<forall>n \<in> set (dchain s h). desc s' ! n = desc s ! n" if "vpc s q = InWait h c w" for q h c w
    using not_spare [OF o that] d by blast
  have req: "request s' h c w" if "vpc s' q = InWait h c w" for q h c w
  proof -
    have q: "vpc s q = InWait h c w" using that w by simp
    show ?thesis by (rule request_cong(2) [OF de [OF q] _ _ b [OF q] ownedD(1) [OF o q]]) (simp_all add: f)
  qed
  have ch: "dchain s' h = dchain s h" if "vpc s q = InWait h c w" for q h c w
    by (rule request_cong(1) [OF de [OF that]])
  have ap: "set (dchain s' h) \<inter> set (dchain s' h') = {}"
    if "q \<noteq> r" "vpc s' q = InWait h c w" "vpc s' r = InWait h' c' w'" for q r h c w h' c' w'
    using that ownedD(2) [OF o, of q r h c w h' c' w'] ch [of q h c w] ch [of r h' c' w'] by (simp add: assms(2))
  have fr: "vfree s' ! n \<longleftrightarrow> (\<forall>p i b w. vpc s' p = InWait i b w \<longrightarrow> n \<notin> set (dchain s' i))" if "n < NUM" for n
  proof -
    have "(\<forall>p i b w. vpc s' p = InWait i b w \<longrightarrow> n \<notin> set (dchain s' i)) \<longleftrightarrow> (\<forall>p i b w. vpc s p = InWait i b w \<longrightarrow> n \<notin> set (dchain s i))"
      using w ch by (metis (no_types))
    then show ?thesis using ownedD(3) [OF o that] f(1) by simp
  qed
  show ?thesis unfolding owned_def using req ap fr by blast
qed

lemma rings_same:
  assumes r: "rings A s" and w: "\<And>q h c w. vpc s' q = InWait h c w \<longleftrightarrow> vpc s q = InWait h c w"
    and f: "bdisk s' = bdisk s" "info_status s' = info_status s"
    and q: "distinct (queued s' @ finished s')" "set (queued s') = set (queued s)" "set (finished s') = set (finished s)"
  shows "rings A s'"
  using r q(1) unfolding rings_def set_append q(2,3) w f by blast

lemma spare_cong [simp]:
  "spare (s\<lparr>procs := t\<rparr>) = spare s" "spare (s\<lparr>desc := ds\<rparr>) = spare s" "spare (set_vpc p x s) = spare s"
  "spare (s\<lparr>cur := c\<rparr>) = spare s"
  by (simp_all add: spare_def set_vpc_def)

lemma rests_woken: "rests s q \<Longrightarrow> rests (s\<lparr>procs := woken me c (procs s)\<rparr>) q"
  by (auto simp: rests_def woken_def awake_def split: vpc.splits)

lemma rests_cong:
  "\<lbrakk>vpc s' q = vpc s q; procs s' q = procs s q; card (spare s') \<le> card (spare s);
    \<And>i b w. vpc s q = InWait i b w \<Longrightarrow> bdisk s b \<Longrightarrow> bdisk s' b; rests s q\<rbrakk> \<Longrightarrow> rests s' q"
  by (auto simp: rests_def split: vpc.splits)

text \<open>Too few descriptors are free.\<close>

lemma alloc_fail_vinv:
  assumes l: "lens s" and o: "owned s" and r: "rings A s" and e: "exclusive s" and rs: "\<forall>q. q \<noteq> p \<longrightarrow> rests s q"
    and new: "\<forall>i c w. vpc s p \<noteq> InWait i c w" and js: "set js = spare s" and c: "card (spare s) < 3"
    and b: "\<forall>q. q \<noteq> p \<longrightarrow> \<not> busy b (vpc s q)" and p: "p < NPROC" "unat (blockno (bufs s b)) < 2 ^ 31"
    and s': "s' = set_vpc p (InAlloc b w) (sleep_enter p ChanDisk (s\<lparr>desc := marked js no_desc (desc s),
      procs := (if js = [] then procs s else woken (cur s) ChanDisk (procs s))\<rparr>))"
  shows "vinv A s'"
proof -
  have pc: "vpc s' = (vpc s)(p := InAlloc b w)" by (simp add: s' set_vpc_def sleep_enter_def upd_proc_def)
  have wt: "vpc s' q = InWait h c w' \<longleftrightarrow> vpc s q = InWait h c w'" for q h c w' using new by (simp add: pc)
  have de: "desc s' ! n = desc s ! n" if "n \<notin> spare s" for n
  proof (cases "n < length (desc s)")
    case True
    then show ?thesis using js that by (simp add: s' set_vpc_def sleep_enter_def upd_proc_def nth_marked)
  next
    case False
    have "marked is v xs ! n = xs ! n" if "n \<notin> set is" for v :: virtq_desc and "is" xs
      using that by (induction "is" arbitrary: xs) auto
    then show ?thesis using js that by (simp add: s' set_vpc_def sleep_enter_def upd_proc_def)
  qed
  have fields: "vfree s' = vfree s" "ops s' = ops s" "info_b s' = info_b s" "bufs s' = bufs s" "bdisk s' = bdisk s"
      "info_status s' = info_status s" "queued s' = queued s" "finished s' = finished s" "spare s' = spare s"
    by (simp_all add: s' set_vpc_def sleep_enter_def upd_proc_def queued_def finished_def spare_def)
  have "owned s'" by (rule owned_same [OF o wt de]) (simp_all add: fields)
  moreover have "rings A s'" by (rule rings_same [OF r wt]) (use ringsD(1) [OF r] in \<open>simp_all add: fields\<close>)
  moreover have "lens s'" using l by (simp add: lens_def s' set_vpc_def sleep_enter_def upd_proc_def)
  moreover have "exclusive s'"
  proof -
    have bz: "busy c (vpc s' q) \<longleftrightarrow> (if q = p then c = b else busy c (vpc s q))" for c q by (auto simp: pc busy_def)
    show ?thesis using e b p unfolding exclusive_def bz fields by (auto simp: pc split: if_splits)
  qed
  moreover have ps: "procs s' = (\<lambda>q. let t = (if js = [] then procs s else woken (cur s) ChanDisk (procs s))
      in if q = p then (t q)\<lparr>channel := Some ChanDisk, state := SLEEPING\<rparr> else t q)"
    by (simp add: s' set_vpc_def sleep_enter_def procs_upd_proc fun_eq_iff)
  have "rests s' q" for q
  proof (cases "q = p")
    case True
    then show ?thesis using c ps by (simp add: rests_def fields pc)
  next
    case False
    then have "rests s q" using rs by blast
    then have "rests (s\<lparr>procs := (if js = [] then procs s else woken (cur s) ChanDisk (procs s))\<rparr>) q" using rests_woken by auto
    then show ?thesis by (rule rests_cong [rotated -1]) (use False in \<open>simp_all add: fields pc ps Let_def\<close>)
  qed
  ultimately show ?thesis by (simp add: vinv_def)
qed

text \<open>The device takes a request from the ring.\<close>

lemma fetch_vinv:
  assumes v: "vinv A s" and ne: "dev_seen s \<noteq> avail_idx s"
  shows "vinv A (dev_fetch s)" and "set (queued (dev_fetch s)) = set (queued s)"
proof -
  define s' where "s' = dev_fetch s"
  have o: "owned s" and r: "rings A s" using v by (simp_all add: vinv_def)
  have g: "ring_q NUM (avail_ring s) (dev_seen s) (avail_idx s) =
      avail_ring s ! (unat (dev_seen s) mod NUM) # ring_q NUM (avail_ring s) (dev_seen s + 1) (avail_idx s)"
    by (rule ring_q_get [OF _ ne]) simp
  have f: "finished s' = finished s" by (simp add: s'_def dev_fetch_def finished_def)
  have d: "distinct (queued s' @ finished s')" and q: "set (queued s') = set (queued s)"
    using ringsD(1) [OF r] unfolding f by (auto simp: s'_def dev_fetch_def queued_def g)
  show "set (queued (dev_fetch s)) = set (queued s)" using q by (simp add: s'_def)
  have "owned s'" by (rule owned_same [OF o]) (simp_all add: s'_def dev_fetch_def)
  moreover have "rings A s'" by (rule rings_same [OF r _ _ _ d q]) (simp_all add: f, simp_all add: s'_def dev_fetch_def)
  moreover have "lens s'" "exclusive s'" using v by (simp_all add: vinv_def lens_def exclusive_def s'_def dev_fetch_def)
  moreover have "rests s' p" for p
    by (rule rests_cong [of _ _ s]) (use v in \<open>simp_all add: vinv_def s'_def dev_fetch_def spare_def\<close>)
  ultimately show "vinv A (dev_fetch s)" by (simp add: vinv_def s'_def)
qed

text \<open>What the driver relies on: the device serves reads and writes of whole blocks with success.\<close>

definition device_reads :: "'d device \<Rightarrow> ('d \<Rightarrow> u32 \<Rightarrow> blk) \<Rightarrow> bool" where
  "device_reads dev blk \<longleftrightarrow>
     (\<forall>bn data m. unat bn < 2 ^ 31 \<longrightarrow> dev VIRTIO_BLK_T_IN (ucast (bn * 2)) data m = (0, blk m bn, m))"

definition device_writes :: "'d device \<Rightarrow> ('d \<Rightarrow> u32 \<Rightarrow> blk) \<Rightarrow> bool" where
  "device_writes dev blk \<longleftrightarrow>
     (\<forall>bn data m. unat bn < 2 ^ 31 \<longrightarrow> (\<exists>m'. dev VIRTIO_BLK_T_OUT (ucast (bn * 2)) data m = (0, data, m') \<and> blk m' = (blk m)(bn := data)))"

lemma dev_request_eq:
  "request s h b w \<Longrightarrow> dev_request h s = Some (if w then 1 else 0, ucast (blockno (bufs s b) * 2), b, \<not> w, h)"
  by (auto simp: dev_request_def request_def nx_def Let_def)

lemma dev_serve_ok:
  assumes "device_reads dev blk" "device_writes dev blk" and r: "request s h b w" and b: "unat (blockno (bufs s b)) < 2 ^ 31"
  shows "\<exists>m. dev_serve dev h s = Some (b, (if w then s\<lparr>dwrites := dwrites s @ [(blockno (bufs s b), bdata (bufs s b))]\<rparr>
      else upd b (bdata_update (\<lambda>_. blk (medium s) (blockno (bufs s b)))) s)
      \<lparr>medium := m, info_status := (info_status s)[h := 0],
       used_ring := (used_ring s)[unat (used_ring_idx s) mod NUM := (of_nat h, 1024)],
       used_ring_idx := used_ring_idx s + 1, dev_work := remove1 h (dev_work s)\<rparr>) \<and>
     blk m = (if w then (blk (medium s))(blockno (bufs s b) := bdata (bufs s b)) else blk (medium s))"
proof (cases w)
  case True
  obtain m where "dev 1 (ucast (blockno (bufs s b) * 2)) (bdata (bufs s b)) (medium s) = (0, bdata (bufs s b), m)"
    "blk m = (blk (medium s))(blockno (bufs s b) := bdata (bufs s b))"
    using assms(2) b unfolding device_writes_def by blast
  then show ?thesis using True r by (intro exI [of _ m]) (simp add: dev_serve_def dev_request_eq)
next
  case False
  have "dev 0 (ucast (blockno (bufs s b) * 2)) (bdata (bufs s b)) (medium s) = (0, blk (medium s) (blockno (bufs s b)), medium s)"
    using assms(1) b unfolding device_reads_def by blast
  then show ?thesis using False r by (intro exI [of _ "medium s"]) (simp add: dev_serve_def dev_request_eq upd_def)
qed

lemma dev_serve_any:
  assumes "request s h b w"
    and "dev (if w then 1 else 0) (ucast (blockno (bufs s b) * 2)) (bdata (bufs s b)) (medium s) = (st, data, m)"
  shows "dev_serve dev h s = Some (b, (if w then s\<lparr>dwrites := dwrites s @ [(blockno (bufs s b), bdata (bufs s b))]\<rparr>
      else upd b (bdata_update (\<lambda>_. data)) s)
      \<lparr>medium := m, info_status := (info_status s)[h := st],
       used_ring := (used_ring s)[unat (used_ring_idx s) mod NUM := (of_nat h, 1024)],
       used_ring_idx := used_ring_idx s + 1, dev_work := remove1 h (dev_work s)\<rparr>)"
  using assms by (simp add: dev_serve_def dev_request_eq upd_def)

lemma serve_vinv:
  assumes v: "vinv A s" and ans: "A st" and h: "h \<in> set (dev_work s)" and q: "vpc s p = InWait h b w"
    and s': "s' = (if w then s\<lparr>dwrites := ws\<rparr> else upd b (bdata_update (\<lambda>_. data)) s)
      \<lparr>medium := m, info_status := (info_status s)[h := st],
       used_ring := (used_ring s)[unat (used_ring_idx s) mod NUM := (of_nat h, 1024)],
       used_ring_idx := used_ring_idx s + 1, dev_work := remove1 h (dev_work s)\<rparr>"
  shows "vinv A s'" and "set (queued s') = set (queued s) - {h}" and "finished s' = finished s @ [h]"
proof -
  have o: "owned s" and r: "rings A s" and l: "lens s" using v by (simp_all add: vinv_def)
  have h8: "h < NUM" using ownedD(1) [OF o q] request_small head_in_chain by blast
  have fields: "vpc s' = vpc s" "desc s' = desc s" "vfree s' = vfree s" "ops s' = ops s" "info_b s' = info_b s" "bdisk s' = bdisk s"
      "procs s' = procs s" "blockno (bufs s' c) = blockno (bufs s c)" for c
    by (simp_all add: s' upd_def)
  show fin: "finished s' = finished s @ [h]"
  proof -
    have "unat (used_ring_idx s - used_idx s) < NUM" using few_queued [OF o r] by (simp add: finished_def)
    then have "ring_q NUM (used_ring s') (used_idx s') (used_ring_idx s') = ring_q NUM (used_ring s) (used_idx s) (used_ring_idx s) @ [(of_nat h, 1024)]"
      using l by (simp add: s' upd_def ring_q_put lens_def)
    then show ?thesis using h8 by (simp add: finished_def unat_of_nat_small)
  qed
  have qu: "queued s' = map unat (ring_q NUM (avail_ring s) (dev_seen s) (avail_idx s)) @ remove1 h (dev_work s)"
    by (simp add: queued_def s' upd_def)
  have dw: "distinct (dev_work s)" "h \<notin> unat ` set (ring_q NUM (avail_ring s) (dev_seen s) (avail_idx s))" "h \<notin> set (finished s)"
    using ringsD(1) [OF r] h by (auto simp: queued_def)
  show set: "set (queued s') = set (queued s) - {h}" using dw by (auto simp: qu queued_def [of s])
  have dist: "distinct (queued s' @ finished s')"
    using ringsD(1) [OF r] dw unfolding qu fin queued_def [of s] by auto
  have all: "set (queued s' @ finished s') = set (queued s @ finished s)"
    using h unfolding set_append set fin by (auto simp: queued_def)
  have st: "if i \<in> set (queued s') then info_status s' ! i = 0xff else A (info_status s' ! i)" if "vpc s' p = InWait i b w" for p i b w
    using ringsD(3) [OF r] that set l h8 ans by (cases "i = h") (auto simp: fields, auto simp: s' upd_def lens_def)
  have "rings A s'" unfolding rings_def
  proof (intro conjI allI impI)
    show "h \<in> set (queued s' @ finished s') \<longleftrightarrow> (\<exists>p b w. vpc s' p = InWait h b w \<and> bdisk s' b)" for h
      unfolding all using ringsD(2) [OF r] by (simp add: fields)
  qed (use dist st in blast)+
  moreover have "owned s'" by (rule owned_same [OF o]) (simp_all add: fields)
  moreover have "lens s'" "exclusive s'" using v by (simp_all add: vinv_def lens_def exclusive_def fields) (simp add: s' upd_def)
  moreover have "rests s' p" for p
    by (rule rests_cong [of _ _ s]) (use v in \<open>simp_all add: vinv_def fields spare_def\<close>)
  ultimately show "vinv A s'" by (simp add: vinv_def)
qed

text \<open>The interrupt handler.\<close>

lemma intr_turn:
  assumes v: "vinv A s" and c: "cur s = None" and f: "finished s = h # hs" and q: "vpc s p = InWait h b w" "bdisk s b"
    and s': "s' = s\<lparr>bdisk := (bdisk s)(b := False), procs := woken None (ChanBuf b) (procs s), used_idx := used_idx s + 1\<rparr>"
  shows "vinv A s'" and "intr_loop (Suc n) s = (if info_status s ! h = 0 then intr_loop n s' else None)" and "finished s' = hs"
proof -
  have o: "owned s" and r: "rings A s" and l: "lens s" and e: "exclusive s" using v by (simp_all add: vinv_def)
  have ne: "used_idx s \<noteq> used_ring_idx s" using f by (auto simp: finished_def)
  have h8: "h < NUM" using ownedD(1) [OF o q(1)] request_small head_in_chain by blast
  have g: "ring_q NUM (used_ring s) (used_idx s) (used_ring_idx s) =
      used_ring s ! (unat (used_idx s) mod NUM) # ring_q NUM (used_ring s) (used_idx s + 1) (used_ring_idx s)"
    by (rule ring_q_get [OF _ ne]) simp
  then have hd: "unat (fst (used_ring s ! (unat (used_idx s) mod NUM))) = h" and tl: "finished s' = hs"
    using f by (simp_all add: finished_def s')
  show "finished s' = hs" by (rule tl)
  have ib: "info_b s ! h = Some b" using ownedD(1) [OF o q(1)] by (simp add: request_def)
  show "intr_loop (Suc n) s = (if info_status s ! h = 0 then intr_loop n s' else None)"
    using l hd ib h8 c by (simp add: lens_def s' wakeup_woken split_beta)
  have qu: "queued s' = queued s" by (simp add: queued_def s')
  have only: "c' = b \<longleftrightarrow> r = p" if "vpc s r = InWait i c' w'" for r i c' w'
  proof -
    have "busy b (vpc s p)" "busy c' (vpc s r)" using q that by (simp_all add: busy_def)
    then show ?thesis using e q(1) that unfolding exclusive_def by auto
  qed
  have mem: "i \<in> set (queued s' @ finished s') \<longleftrightarrow> (\<exists>p b w. vpc s' p = InWait i b w \<and> bdisk s' b)" for i
  proof -
    have "i \<in> set (queued s' @ finished s') \<longleftrightarrow> i \<noteq> h \<and> i \<in> set (queued s @ finished s)"
      using ringsD(1) [OF r] unfolding qu tl f by auto
    also have "\<dots> \<longleftrightarrow> i \<noteq> h \<and> (\<exists>p b w. vpc s p = InWait i b w \<and> bdisk s b)" using ringsD(2) [OF r] by simp
    also have "\<dots> \<longleftrightarrow> (\<exists>p b w. vpc s' p = InWait i b w \<and> bdisk s' b)" (is "?L = ?R")
    proof
      assume ?L
      then obtain r c' w' where r: "i \<noteq> h" "vpc s r = InWait i c' w'" "bdisk s c'" by blast
      then have "r \<noteq> p" using q(1) by auto
      then have "vpc s' r = InWait i c' w' \<and> bdisk s' c'" using only [OF r(2)] r by (simp add: s')
      then show ?R by blast
    next
      assume ?R
      then obtain r c' w' where "vpc s' r = InWait i c' w'" "bdisk s' c'" by blast
      then have r: "vpc s r = InWait i c' w'" "bdisk s c'" "c' \<noteq> b" by (auto simp: s' split: if_splits)
      then have "i \<noteq> h" using only [OF r(1)] owner_unique [OF o q(1)] by auto
      then show ?L using r by blast
    qed
    finally show ?thesis .
  qed
  have dist: "distinct (queued s' @ finished s')" using ringsD(1) [OF r] unfolding qu tl f by auto
  have st': "if i \<in> set (queued s') then info_status s' ! i = 0xff else A (info_status s' ! i)" if "vpc s' p = InWait i b w" for p i b w
    unfolding qu using ringsD(3) [OF r, of p i b w] that by (simp add: s')
  have "rings A s'" unfolding rings_def using mem dist st' by blast
  moreover have "owned s'" by (rule owned_same [OF o]) (simp_all add: s')
  moreover have "lens s'" "exclusive s'" using v by (simp_all add: vinv_def lens_def exclusive_def s')
  moreover have "rests s' x" for x
  proof (cases "x = p")
    case True
    have "p < NPROC" using e q(1) by (simp add: exclusive_def)
    then show ?thesis using v True q c by (auto simp: vinv_def rests_def s' woken_def awake_def dest: spec [of _ p])
  next
    case False
    have "rests (s\<lparr>procs := woken None (ChanBuf b) (procs s)\<rparr>) x" by (rule rests_woken) (use v in \<open>simp add: vinv_def\<close>)
    then show ?thesis
      by (rule rests_cong [rotated -1]) (use only False in \<open>auto simp: s' spare_def\<close>)
  qed
  ultimately show "vinv A s'" by (simp add: vinv_def)
qed

lemma intr_loop_ok:
  assumes "vinv A s" and "cur s = None" and "n = length (finished s)" and "\<forall>h \<in> set (finished s). info_status s ! h = 0"
  shows "\<exists>bd t u. intr_loop n s = Some (s\<lparr>bdisk := bd, procs := t, used_idx := u\<rparr>) \<and> vinv A (s\<lparr>bdisk := bd, procs := t, used_idx := u\<rparr>) \<and>
    finished (s\<lparr>bdisk := bd, procs := t, used_idx := u\<rparr>) = []"
  using assms
proof (induction n arbitrary: s)
  case 0
  then show ?case by (intro exI [of _ "bdisk s"] exI [of _ "procs s"] exI [of _ "used_idx s"]) simp
next
  case (Suc n)
  then obtain h hs where f: "finished s = h # hs" by (cases "finished s") auto
  have r: "rings A s" using Suc.prems(1) by (simp add: vinv_def)
  have "h \<in> set (queued s @ finished s)" using f by simp
  then obtain p b w where q: "vpc s p = InWait h b w" "bdisk s b" using ringsD(2) [OF r] by blast
  let ?s = "s\<lparr>bdisk := (bdisk s)(b := False), procs := woken None (ChanBuf b) (procs s), used_idx := used_idx s + 1\<rparr>"
  note st = intr_turn [OF Suc.prems(1,2) f q refl]
  have "\<exists>bd t u. intr_loop n ?s = Some (?s\<lparr>bdisk := bd, procs := t, used_idx := u\<rparr>) \<and> vinv A (?s\<lparr>bdisk := bd, procs := t, used_idx := u\<rparr>) \<and>
      finished (?s\<lparr>bdisk := bd, procs := t, used_idx := u\<rparr>) = []"
    by (rule Suc.IH [OF st(1)]) (use Suc.prems f st(3) in simp_all)
  moreover have "info_status s ! h = 0" using Suc.prems(4) f by simp
  ultimately show ?case unfolding st(2) by simp
qed

lemma intr_loop_panics:
  assumes "vinv A s" and "cur s = None" and "n = length (finished s)" and "\<exists>h \<in> set (finished s). info_status s ! h \<noteq> 0"
  shows "intr_loop n s = None"
  using assms
proof (induction n arbitrary: s)
  case 0
  then show ?case by simp
next
  case (Suc n)
  then obtain h hs where f: "finished s = h # hs" by (cases "finished s") auto
  have r: "rings A s" using Suc.prems(1) by (simp add: vinv_def)
  have "h \<in> set (queued s @ finished s)" using f by simp
  then obtain p b w where q: "vpc s p = InWait h b w" "bdisk s b" using ringsD(2) [OF r] by blast
  let ?s = "s\<lparr>bdisk := (bdisk s)(b := False), procs := woken None (ChanBuf b) (procs s), used_idx := used_idx s + 1\<rparr>"
  note st = intr_turn [OF Suc.prems(1,2) f q refl]
  have "intr_loop n ?s = None" if "info_status s ! h = 0"
    by (rule Suc.IH [OF st(1)]) (use Suc.prems f st(3) that in auto)
  then show ?case unfolding st(2) by simp
qed

text \<open>The end of a request.\<close>

lemma free_chain_eq:
  assumes r: "distinct (dchain s i)" and n: "\<forall>n \<in> set (dchain s i). n < NUM \<and> \<not> vfree s ! n"
    and f: "dflags (desc s ! i) = 1" "dflags (desc s ! nx s i) = (if w then 1 else 3)" "dflags (desc s ! nx s (nx s i)) = 2"
  shows "free_chain i s = free_descs (dchain s i) s"
proof -
  let ?j = "nx s i" and ?k = "nx s (nx s i)"
  have d: "i \<noteq> ?j" "i \<noteq> ?k" "?j \<noteq> ?k" "i < NUM" "?j < NUM" "?k < NUM" "\<not> vfree s ! i" "\<not> vfree s ! ?j" "\<not> vfree s ! ?k"
    using r n by (auto simp: dchain_def)
  define s1 where "s1 = s\<lparr>desc := (desc s)[i := no_desc], vfree := (vfree s)[i := True], procs := woken (cur s) ChanDisk (procs s)\<rparr>"
  define s2 where "s2 = s1\<lparr>desc := (desc s1)[?j := no_desc], vfree := (vfree s1)[?j := True], procs := woken (cur s1) ChanDisk (procs s1)\<rparr>"
  have e1: "free_desc i s = Some s1" using d by (simp add: free_desc_eq s1_def)
  have e2: "free_desc ?j s1 = Some s2" unfolding s2_def by (rule free_desc_eq) (use d in \<open>simp_all add: s1_def\<close>)
  have "free_chain i s = free_chain ?j s1" using d f e1 by (subst free_chain.simps) (simp add: nx_def)
  also have "\<dots> = free_chain ?k s2"
    using d f e2 by (subst free_chain.simps) (simp add: s1_def nx_def Let_def)
  also have "\<dots> = free_desc ?k s2"
    using d f by (subst free_chain.simps) (simp add: s1_def s2_def Let_def)
  also have "\<dots> = free_descs (dchain s i) s" by (simp add: dchain_def e1 e2)
  finally show ?thesis .
qed

definition returned :: "nat \<Rightarrow> nat \<Rightarrow> ('d, 'a) vkern_scheme \<Rightarrow> ('d, 'a) vkern_scheme" where
  "returned p i s = s\<lparr>info_b := (info_b s)[i := None], desc := marked (dchain s i) no_desc (desc s),
     vfree := marked (dchain s i) True (vfree s), procs := woken (cur s) ChanDisk (procs s), vpc := (vpc s)(p := Outside)\<rparr>"

lemma rw_wait_done:
  assumes l: "lens s" and o: "owned s" and p: "vpc s p = InWait i b w" and nb: "\<not> bdisk s b"
  shows "rw_wait p i b w s = Some (returned p i s)"
proof -
  let ?s = "s\<lparr>info_b := (info_b s)[i := None]\<rparr>"
  have r: "request s i b w" by (rule ownedD(1) [OF o p])
  have n: "\<forall>n \<in> set (dchain s i). n < NUM \<and> \<not> vfree s ! n"
    using request_small [OF r] ownedD(3) [OF o] p by blast
  have ch: "dchain ?s i = dchain s i" by (simp add: dchain_def nx_def)
  have "free_chain i ?s = free_descs (dchain ?s i) ?s"
    by (rule free_chain_eq [where w = w]) (use r n in \<open>simp_all add: ch request_def, simp_all add: nx_def\<close>)
  then have "free_chain i ?s = free_descs (dchain s i) ?s" unfolding ch .
  moreover have "free_descs (dchain s i) ?s = Some (?s\<lparr>desc := marked (dchain s i) no_desc (desc ?s), vfree := marked (dchain s i) True (vfree ?s),
      procs := (if dchain s i = [] then procs ?s else woken (cur ?s) ChanDisk (procs ?s))\<rparr>)"
    by (rule free_descs_eq) (use l r n in \<open>simp_all add: lens_def request_def\<close>)
  ultimately show ?thesis using nb by (simp add: rw_wait_def set_vpc_def returned_def dchain_def)
qed

lemma returned_owned:
  assumes l: "lens s" and o: "owned s" and p: "vpc s p = InWait i b w"
  shows "owned (returned p i s)"
proof -
  define s' where "s' = returned p i s"
  have r: "request s i b w" by (rule ownedD(1) [OF o p])
  have pc: "vpc s' = (vpc s)(p := Outside)" by (simp add: s'_def returned_def)
  have old: "q \<noteq> p" "vpc s q = InWait h c w'" "set (dchain s i) \<inter> set (dchain s h) = {}" "dchain s' h = dchain s h" "request s' h c w'"
    if q: "vpc s' q = InWait h c w'" for q h c w'
  proof -
    show qp: "q \<noteq> p" and q': "vpc s q = InWait h c w'" using q by (auto simp: pc split: if_splits)
    show ap: "set (dchain s i) \<inter> set (dchain s h) = {}" using ownedD(2) [OF o qp [symmetric] p q'] .
    have "n < NUM" if "n \<in> set (dchain s h)" for n using request_small [OF ownedD(1) [OF o q'] that] .
    then have de: "\<forall>n \<in> set (dchain s h). desc s' ! n = desc s ! n"
      using ap l by (auto simp: s'_def returned_def nth_marked lens_def)
    have hi: "h \<noteq> i" using ap by (auto simp: dchain_def)
    show "dchain s' h = dchain s h" by (rule request_cong(1) [OF de])
    show "request s' h c w'" by (rule request_cong(2) [OF de _ _ _ ownedD(1) [OF o q']]) (use hi in \<open>simp_all add: s'_def returned_def\<close>)
  qed
  have fr: "vfree s' ! n \<longleftrightarrow> (\<forall>q h c w'. vpc s' q = InWait h c w' \<longrightarrow> n \<notin> set (dchain s' h))" if n: "n < NUM" for n
  proof (cases "n \<in> set (dchain s i)")
    case True
    then have "vfree s' ! n" using n l by (simp add: s'_def returned_def nth_marked lens_def)
    moreover have "n \<notin> set (dchain s' h)" if "vpc s' q = InWait h c w'" for q h c w' using old(3,4) [OF that] True by auto
    ultimately show ?thesis by blast
  next
    case False
    then have "vfree s' ! n = vfree s ! n" using n l by (simp add: s'_def returned_def nth_marked lens_def)
    moreover have "(\<forall>q h c w'. vpc s' q = InWait h c w' \<longrightarrow> n \<notin> set (dchain s' h)) \<longleftrightarrow> (\<forall>q h c w'. vpc s q = InWait h c w' \<longrightarrow> n \<notin> set (dchain s h))"
    proof (intro iffI allI impI)
      fix q h c w' assume a: "\<forall>q h c w'. vpc s' q = InWait h c w' \<longrightarrow> n \<notin> set (dchain s' h)" and q: "vpc s q = InWait h c w'"
      show "n \<notin> set (dchain s h)"
      proof (cases "q = p")
        case True
        then have "h = i" using p q by simp
        then show ?thesis using False by simp
      next
        case f: False
        then have q': "vpc s' q = InWait h c w'" using q by (simp add: pc)
        then show ?thesis using a old(4) [OF q'] by metis
      qed
    next
      fix q h c w' assume a: "\<forall>q h c w'. vpc s q = InWait h c w' \<longrightarrow> n \<notin> set (dchain s h)" and q: "vpc s' q = InWait h c w'"
      then show "n \<notin> set (dchain s' h)" using old(2,4) [OF q] by metis
    qed
    ultimately show ?thesis using ownedD(3) [OF o n] by simp
  qed
  have apart: "set (dchain s' h) \<inter> set (dchain s' h') = {}"
    if "q \<noteq> x" and q: "vpc s' q = InWait h c w'" and x: "vpc s' x = InWait h' c' w''" for q x h c w' h' c' w''
    using ownedD(2) [OF o that(1) old(2) [OF q] old(2) [OF x]] old(4) [OF q] old(4) [OF x] by simp
  show "owned s'" unfolding owned_def using old(5) apart fr by blast
qed

lemma returned_vinv:
  assumes l: "lens s" and o: "owned s" and r: "rings A s" and e: "exclusive s" and rs: "\<forall>q. q \<noteq> p \<longrightarrow> rests s q"
    and p: "vpc s p = InWait i b w" "\<not> bdisk s b" and c: "cur s = Some p"
  shows "vinv A (returned p i s)" and "queued (returned p i s) = queued s"
proof -
  define s' where "s' = returned p i s"
  have pc: "vpc s' = (vpc s)(p := Outside)" by (simp add: s'_def returned_def)
  have fields: "queued s' = queued s" "finished s' = finished s" "bdisk s' = bdisk s" "info_status s' = info_status s" "bufs s' = bufs s"
    by (simp_all add: s'_def returned_def queued_def finished_def)
  show "queued (returned p i s) = queued s" using fields(1) by (simp add: s'_def)
  have "(\<exists>q b w. vpc s' q = InWait h b w \<and> bdisk s' b) \<longleftrightarrow> (\<exists>q b w. vpc s q = InWait h b w \<and> bdisk s b)" for h
    using p unfolding pc fields by (metis fun_upd_apply vpc.distinct(3) vpc.inject(2))
  then have "rings A s'" using r unfolding rings_def fields by (auto simp: pc split: if_splits)
  moreover have "lens s'" using l by (simp add: lens_def s'_def returned_def)
  moreover have "exclusive s'"
    using e unfolding exclusive_def fields by (auto simp: pc busy_def split: if_splits)
  moreover have "rests s' q" for q
  proof (cases "q = p")
    case True
    then show ?thesis by (simp add: rests_def pc)
  next
    case False
    have "vpc s q \<noteq> Outside \<longrightarrow> q < NPROC" using e by (simp add: exclusive_def)
    moreover have "rests s q" using rs False by blast
    moreover have "procs s' q = woken (Some p) ChanDisk (procs s) q" by (simp add: s'_def returned_def c)
    ultimately show ?thesis using False
      by (auto simp: rests_def pc fields woken_def awake_def split: vpc.splits)
  qed
  ultimately show "vinv A (returned p i s)" using returned_owned [OF l o p(1)] by (simp add: vinv_def s'_def)
qed

text \<open>The process table and the running process have no part in the first four parts of the invariant.\<close>

lemma core_frame [simp]:
  "nx (s\<lparr>procs := t\<rparr>) = nx s" "dchain (s\<lparr>procs := t\<rparr>) = dchain s" "request (s\<lparr>procs := t\<rparr>) = request s" "queued (s\<lparr>procs := t\<rparr>) = queued s" "finished (s\<lparr>procs := t\<rparr>) = finished s"
  "nx (s\<lparr>cur := c\<rparr>) = nx s" "dchain (s\<lparr>cur := c\<rparr>) = dchain s" "request (s\<lparr>cur := c\<rparr>) = request s" "queued (s\<lparr>cur := c\<rparr>) = queued s" "finished (s\<lparr>cur := c\<rparr>) = finished s"
  by (simp_all add: fun_eq_iff nx_def dchain_def request_def queued_def finished_def)

lemma core_procs [simp]:
  "lens (s\<lparr>procs := t\<rparr>) = lens s" "owned (s\<lparr>procs := t\<rparr>) = owned s" "exclusive (s\<lparr>procs := t\<rparr>) = exclusive s" "rings A (s\<lparr>procs := t\<rparr>) = rings A s"
  "lens (s\<lparr>cur := c\<rparr>) = lens s" "owned (s\<lparr>cur := c\<rparr>) = owned s" "exclusive (s\<lparr>cur := c\<rparr>) = exclusive s" "rings A (s\<lparr>cur := c\<rparr>) = rings A s" "rests (s\<lparr>cur := c\<rparr>) = rests s"
  by (simp_all add: fun_eq_iff lens_def owned_def exclusive_def rings_def rests_def split: vpc.splits)

lemma vinv_cur [simp]: "vinv A (s\<lparr>cur := c\<rparr>) = vinv A s"
  by (simp add: vinv_def)

text \<open>One turn of the allocating loop: it hands the request to the device, or goes to sleep.\<close>

definition same_data :: "('d, 'a) vkern_scheme \<Rightarrow> ('d, 'a) vkern_scheme \<Rightarrow> bool" where
  "same_data s s' \<longleftrightarrow> bufs s' = bufs s \<and> medium s' = medium s \<and> dwrites s' = dwrites s"

definition entered :: "(u8 \<Rightarrow> bool) \<Rightarrow> nat \<Rightarrow> nat \<Rightarrow> bool \<Rightarrow> ('d, 'a) vkern_scheme \<Rightarrow> ('d, 'a) vkern_scheme \<Rightarrow> bool" where
  "entered A p b w s s' \<longleftrightarrow> vinv A s' \<and> same_data s s' \<and> finished s' = finished s \<and>
    (if 3 \<le> card (spare s)
     then \<exists>i. vpc s' = (vpc s)(p := InWait i b w) \<and> set (queued s') = insert i (set (queued s)) \<and> i \<notin> heads s \<and> dev_work s' = dev_work s
     else vpc s' = (vpc s)(p := InAlloc b w) \<and> queued s' = queued s)"

lemma entered_frame [simp]: "entered A p b w (s\<lparr>cur := c\<rparr>) = entered A p b w s" "entered A p b w (s\<lparr>procs := t\<rparr>) = entered A p b w s"
  by (simp_all add: fun_eq_iff entered_def same_data_def heads_def cong: if_cong)

lemma rw_alloc_ok:
  assumes l: "lens s" and o: "owned s" and r: "rings A s" and e: "exclusive s" and rs: "\<forall>q. q \<noteq> p \<longrightarrow> rests s q"
    and new: "\<forall>i c w. vpc s p \<noteq> InWait i c w"
    and b: "\<forall>q. q \<noteq> p \<longrightarrow> \<not> busy b (vpc s q)" and p: "p < NPROC" "unat (blockno (bufs s b)) < 2 ^ 31"
  shows "\<exists>s'. rw_alloc p b w s = Some s' \<and> entered A p b w s s'"
proof (cases "3 \<le> card (spare s)")
  case True
  obtain i j k where a: "alloc3_desc s = Some (0, [i, j, k], s\<lparr>vfree := marked [i, j, k] False (vfree s)\<rparr>)"
      and d: "distinct [i, j, k]" and sp: "{i, j, k} \<subseteq> spare s"
    using alloc3_some [OF _ True] l by (auto simp only: lens_def)
  define s' where "s' = submitted p i j k b w s"
  have b3: "i < NUM" "j < NUM" "k < NUM" using sp by (simp_all add: spare_def)
  note eq = submitted_eq [OF l d b3, of p b w, folded s'_def]
  have "bdisk (rw_submit i j k b w (s\<lparr>vfree := marked [i, j, k] False (vfree s)\<rparr>)) b" by (simp add: rw_submit_def Let_def upd_desc_def)
  then have "rw_alloc p b w s = Some s'" by (simp add: rw_alloc_def a rw_wait_def s'_def submitted_def del: marked_simps)
  moreover have "vinv A s'" unfolding s'_def by (rule submitted_vinv [OF l o r e rs d sp new b p])
  moreover have "same_data s s'" "vpc s' = (vpc s)(p := InWait i b w)" "dev_work s' = dev_work s" by (simp_all add: eq same_data_def)
  moreover have "finished s' = finished s" "set (queued s') = insert i (set (queued s))"
    using submitted_rings(2,3) [OF l o r d sp new b] unfolding s'_def by (auto simp: queued_def [of s])
  moreover have "i \<notin> heads s" using not_spare [OF o] sp unfolding heads_def by fastforce
  ultimately show ?thesis using True by (auto simp: entered_def)
next
  case False
  then have c: "card (spare s) < 3" by simp
  obtain js where a: "alloc3_desc s = Some (- 1, js, s\<lparr>desc := marked js no_desc (desc s),
      procs := (if js = [] then procs s else woken (cur s) ChanDisk (procs s))\<rparr>)" and js: "set js = spare s"
    using alloc3_none [OF _ c] l by (auto simp only: lens_def)
  define s' where "s' = set_vpc p (InAlloc b w) (sleep_enter p ChanDisk (s\<lparr>desc := marked js no_desc (desc s),
      procs := (if js = [] then procs s else woken (cur s) ChanDisk (procs s))\<rparr>))"
  have "rw_alloc p b w s = Some s'" by (simp add: rw_alloc_def a s'_def)
  moreover have "vinv A s'" by (rule alloc_fail_vinv [OF l o r e rs new js c b p s'_def])
  moreover have "same_data s s'" "vpc s' = (vpc s)(p := InAlloc b w)" "finished s' = finished s" "queued s' = queued s"
    by (simp_all add: s'_def same_data_def set_vpc_def sleep_enter_def upd_proc_def queued_def finished_def)
  ultimately show ?thesis using False by (auto simp: entered_def)
qed

lemma virtio_call_ok:
  assumes v: "vinv A s" and p: "p < NPROC" "vpc s p = Outside" "\<forall>q. \<not> busy b (vpc s q)" "unat (blockno (bufs s b)) < 2 ^ 31"
  shows "\<exists>s'. virtio_disk_rw p b w (s\<lparr>cur := Some p\<rparr>) = Some s' \<and> entered A p b w s s'"
proof -
  let ?s = "s\<lparr>cur := Some p\<rparr>"
  have *: "lens ?s" "owned ?s" "rings A ?s" "exclusive ?s" "\<forall>q. q \<noteq> p \<longrightarrow> rests ?s q" "\<forall>i c w. vpc ?s p \<noteq> InWait i c w"
    "\<forall>q. q \<noteq> p \<longrightarrow> \<not> busy b (vpc ?s q)" "unat (blockno (bufs ?s b)) < 2 ^ 31"
    using v p by (simp_all add: vinv_def)
  show ?thesis using rw_alloc_ok [OF *(1-7) p(1) *(8), of w]
    by (simp add: virtio_disk_rw_def)
qed

lemma schedule_eq: "schedule p s = s\<lparr>procs := (procs s)(p := (procs s p)\<lparr>state := RUNNING, channel := None\<rparr>)\<rparr>\<lparr>cur := Some p\<rparr>"
  by (simp add: schedule_def sleep_leave_def upd_proc_def)

lemma virtio_resume_ok:
  assumes v: "vinv A s" and p: "vpc s p \<noteq> Outside"
  shows "\<exists>s'. virtio_resume p (schedule p s) = Some s' \<and> vinv A s' \<and>
    (case vpc s p of InAlloc b w \<Rightarrow> entered A p b w s s'
     | InWait i b w \<Rightarrow> same_data s s' \<and> queued s' = queued s \<and> finished s' = finished s \<and>
         vpc s' = (if bdisk s b then vpc s else (vpc s)(p := Outside))
     | Outside \<Rightarrow> True)"
proof -
  define t where "t = schedule p s"
  have eq: "t = s\<lparr>procs := (procs s)(p := (procs s p)\<lparr>state := RUNNING, channel := None\<rparr>)\<rparr>\<lparr>cur := Some p\<rparr>"
    by (simp add: t_def schedule_eq)
  have c: "lens t" "owned t" "rings A t" "exclusive t" using v by (simp_all add: vinv_def eq)
  have rs: "\<forall>q. q \<noteq> p \<longrightarrow> rests t q"
  proof (intro allI impI)
    fix q assume "q \<noteq> p"
    then show "rests t q" by (intro rests_cong [of t q s]) (use v in \<open>simp_all add: eq vinv_def\<close>)
  qed
  have f: "vpc t = vpc s" "bdisk t = bdisk s" "bufs t = bufs s" "cur t = Some p" "queued t = queued s" "finished t = finished s"
    by (simp_all add: eq)
  show ?thesis
  proof (cases "vpc s p")
    case Outside
    then show ?thesis using p by simp
  next
    case (InAlloc b w)
    then have bz: "busy b (vpc t p)" by (simp add: f busy_def)
    have o: "\<forall>q. q \<noteq> p \<longrightarrow> \<not> busy b (vpc t q)" and q: "p < NPROC" "unat (blockno (bufs t b)) < 2 ^ 31"
      using c(4) bz p unfolding exclusive_def by (auto simp: f)
    have "\<forall>i c w. vpc t p \<noteq> InWait i c w" using InAlloc by (simp add: f)
    from rw_alloc_ok [OF c rs this o q, of w] obtain s' where s': "rw_alloc p b w t = Some s'" "entered A p b w t s'" by blast
    then have e: "entered A p b w s s'" by (simp add: eq)
    then have "vinv A s'" by (simp add: entered_def)
    then show ?thesis using InAlloc s'(1) e by (simp add: virtio_resume_def t_def [symmetric] f)
  next
    case (InWait i b w)
    show ?thesis
    proof (cases "bdisk s b")
      case True
      define s' where "s' = t\<lparr>procs := (procs t)(p := (procs t p)\<lparr>channel := Some (ChanBuf b), state := SLEEPING\<rparr>)\<rparr>"
      have pc: "(vpc s)(p := InWait i b w) = vpc s" using InWait by auto
      have w: "rw_wait p i b w t = Some s'" using True by (simp add: rw_wait_def f pc s'_def set_vpc_def sleep_enter_def upd_proc_def eq)
      have "rests s' q" for q
      proof (cases "q = p")
        case True
        then show ?thesis using InWait \<open>bdisk s b\<close> by (simp add: rests_def s'_def eq)
      next
        case False
        then show ?thesis using rs by (intro rests_cong [of s' q t]) (simp_all add: s'_def)
      qed
      then have "vinv A s'" using c by (simp add: vinv_def s'_def)
      then show ?thesis using InWait True w by (simp add: virtio_resume_def t_def [symmetric] f) (simp add: s'_def eq same_data_def)
    next
      case False
      have q: "vpc t p = InWait i b w" "\<not> bdisk t b" using InWait False by (simp_all add: f)
      have w: "rw_wait p i b w t = Some (returned p i t)" by (rule rw_wait_done [OF c(1,2) q])
      have "vinv A (returned p i t)" "queued (returned p i t) = queued t" by (rule returned_vinv [OF c rs q f(4)])+
      then show ?thesis using InWait False w
        by (simp add: virtio_resume_def t_def [symmetric] f) (simp add: returned_def eq same_data_def finished_def)
    qed
  qed
qed

end
