(* ===== verification/VirtioDisk.thy ===== *)
theory VirtioDisk
  imports VirtioSpec
begin

text \<open>
  The disk driver as its callers see it: an abstract disk that serves each request in one step, with the
  \<open>disk_rw\<close> of the buffer cache, and the simulation of the driver and the device by it.  The invariant of
  \<open>VirtioSpec\<close> holds in every reachable state; the properties follow from it.
\<close>

section \<open>The abstract disk\<close>

datatype areq = NoReq | Pending bool | Served

record adisk = bcache +
  areq :: "nat \<Rightarrow> areq"

inductive astep :: "adisk \<Rightarrow> vlabel \<Rightarrow> adisk \<Rightarrow> bool" where
  acall: "areq a b = NoReq \<Longrightarrow> astep a (Call b w) (a\<lparr>areq := (areq a)(b := Pending w)\<rparr>)"
| aserve: "areq a b = Pending w \<Longrightarrow> astep a (Serve b) ((disk_rw b w a)\<lparr>areq := (areq a)(b := Served)\<rparr>)"
| areturn: "areq a b = Served \<Longrightarrow> astep a (Return b) (a\<lparr>areq := (areq a)(b := NoReq)\<rparr>)"
| acache: "(\<And>b. areq a b \<noteq> NoReq \<Longrightarrow> f b = bufs a b) \<Longrightarrow> astep a (Cache f) (a\<lparr>bufs := f\<rparr>)"
| atau: "astep a Tau a"

inductive areach :: "adisk \<Rightarrow> vlabel list \<Rightarrow> adisk \<Rightarrow> bool" for a0 where
  areach_init: "areach a0 [] a0"
| areach_step: "areach a0 ls a \<Longrightarrow> astep a l a' \<Longrightarrow> areach a0 (ls @ [l]) a'"

inductive_cases astep_TauE: "astep a Tau a'"

definition sim :: "('d \<Rightarrow> u32 \<Rightarrow> blk) \<Rightarrow> ('d, 'a) vkern_scheme \<Rightarrow> adisk \<Rightarrow> bool" where
  "sim blk s a \<longleftrightarrow> bufs a = bufs s \<and> disk a = blk (medium s) \<and> dwrites a = dwrites s \<and>
     (\<forall>b. areq a b = NoReq \<longleftrightarrow> (\<forall>p. \<not> busy b (vpc s p))) \<and>
     (\<forall>p b w. vpc s p = InAlloc b w \<longrightarrow> areq a b = Pending w) \<and>
     (\<forall>p i b w. vpc s p = InWait i b w \<longrightarrow> areq a b = (if i \<in> set (queued s) then Pending w else Served))"

lemma simD:
  assumes "sim blk s a"
  shows "bufs a = bufs s" "disk a = blk (medium s)" "dwrites a = dwrites s"
    "areq a b = NoReq \<longleftrightarrow> (\<forall>p. \<not> busy b (vpc s p))"
    "vpc s p = InAlloc b w \<Longrightarrow> areq a b = Pending w"
    "vpc s p = InWait i b w \<Longrightarrow> areq a b = (if i \<in> set (queued s) then Pending w else Served)"
  using assms unfolding sim_def by blast+

lemma simI:
  assumes "bufs a = bufs s" "disk a = blk (medium s)" "dwrites a = dwrites s"
    "\<And>b. areq a b = NoReq \<longleftrightarrow> (\<forall>p. \<not> busy b (vpc s p))"
    "\<And>p b w. vpc s p = InAlloc b w \<Longrightarrow> areq a b = Pending w"
    "\<And>p i b w. vpc s p = InWait i b w \<Longrightarrow> areq a b = (if i \<in> set (queued s) then Pending w else Served)"
  shows "sim blk s a"
  using assms unfolding sim_def by blast

lemma sim_same:
  assumes "sim blk s a" and "vpc s' = vpc s" "same_data s s'" "set (queued s') = set (queued s)"
  shows "sim blk s' a"
  using assms(1) unfolding sim_def assms(2,4) using assms(3) by (simp add: same_data_def)

section \<open>Simulation\<close>

lemma exclusive_only: "exclusive s \<Longrightarrow> busy b (vpc s p) \<Longrightarrow> q \<noteq> p \<Longrightarrow> \<not> busy b (vpc s q)"
  by (auto simp: exclusive_def)

lemma busy_upd: "busy c (((vpc s)(p := x)) q) \<longleftrightarrow> (if q = p then busy c x else busy c (vpc s q))"
  by simp

text \<open>A process enters the driver, or tries again: its request is pending.\<close>

lemma sim_entered:
  assumes v: "vinv A s" and si: "sim blk s a" and en: "entered A p b w s s'" and new: "\<forall>i c w. vpc s p \<noteq> InWait i c w"
    and p: "\<forall>q. q \<noteq> p \<longrightarrow> \<not> busy b (vpc s q)" "\<forall>c. busy c (vpc s p) \<longrightarrow> c = b" and a': "a' = a\<lparr>areq := (areq a)(b := Pending w)\<rparr>"
  shows "sim blk s' a'"
proof -
  have data: "bufs s' = bufs s" "medium s' = medium s" "dwrites s' = dwrites s" using en by (simp_all add: entered_def same_data_def)
  obtain x where pc: "vpc s' = (vpc s)(p := x)" and x: "x = InAlloc b w \<and> set (queued s') = set (queued s) \<or>
      (\<exists>i. x = InWait i b w \<and> set (queued s') = insert i (set (queued s)) \<and> i \<notin> heads s)"
    using en unfolding entered_def by (auto split: if_splits)
  have bx: "busy c x \<longleftrightarrow> c = b" for c using x by (auto simp: busy_def)
  have nob: "\<exists>p. busy b (vpc s' p)" by (rule exI [of _ p]) (simp add: pc bx)
  have other: "(\<forall>q. \<not> busy c (vpc s' q)) \<longleftrightarrow> (\<forall>q. \<not> busy c (vpc s q))" if "c \<noteq> b" for c
    using that p(2) by (auto simp: pc bx)
  have 1: "areq a' c = NoReq \<longleftrightarrow> (\<forall>q. \<not> busy c (vpc s' q))" for c
    using simD(4) [OF si, of c] nob other [of c] by (cases "c = b") (auto simp: a')
  have ne: "c \<noteq> b" if "vpc s q = InAlloc c w' \<or> vpc s q = InWait i c w'" "q \<noteq> p" for q i c w'
    using p(1) that by (auto simp: busy_def)
  have 2: "areq a' c = Pending w'" if "vpc s' q = InAlloc c w'" for q c w'
    using that x simD(5) [OF si, of q c w'] ne [of q c w'] by (cases "q = p") (auto simp: pc a')
  have 3: "areq a' c = (if i \<in> set (queued s') then Pending w' else Served)" if "vpc s' q = InWait i c w'" for q i c w'
  proof (cases "q = p")
    case True
    then show ?thesis using that x by (auto simp: pc a')
  next
    case False
    then have q: "vpc s q = InWait i c w'" using that by (simp add: pc)
    then have "i \<in> heads s" by (auto simp: heads_def)
    then have "i \<in> set (queued s') \<longleftrightarrow> i \<in> set (queued s)" using x by auto
    then show ?thesis using simD(6) [OF si q] ne [of q c w' i] q False by (simp add: a')
  qed
  show ?thesis
  proof (rule simI)
    show "bufs a' = bufs s'" "disk a' = blk (medium s')" "dwrites a' = dwrites s'" using simD(1-3) [OF si] data by (simp_all add: a')
  qed (fact 1, fact 2, fact 3)
qed

lemma not_flying:
  assumes v: "vinv A s" and p: "vpc s p = InWait i b w" and n: "\<not> bdisk s b"
  shows "i \<notin> set (queued s @ finished s)"
proof
  have r: "rings A s" using v by (simp add: vinv_def)
  assume "i \<in> set (queued s @ finished s)"
  then obtain q c w' where q: "vpc s q = InWait i c w'" "bdisk s c" using ringsD(2) [OF r, of i] by blast
  then have "q = p" using owner_unique [of s q i c w' p b w] v p by (simp add: vinv_def)
  then show False using q p n by simp
qed

lemma sim_return:
  assumes v: "vinv A s" and si: "sim blk s a" and p: "vpc s p = InWait i b w" "\<not> bdisk s b"
    and s': "same_data s s'" "queued s' = queued s" "vpc s' = (vpc s)(p := Outside)"
  shows "astep a (Return b) (a\<lparr>areq := (areq a)(b := NoReq)\<rparr>) \<and> sim blk s' (a\<lparr>areq := (areq a)(b := NoReq)\<rparr>)"
proof
  have "i \<notin> set (queued s)" using not_flying [OF v p] by simp
  then show "astep a (Return b) (a\<lparr>areq := (areq a)(b := NoReq)\<rparr>)" using simD(6) [OF si p(1)] by (intro areturn) simp
  have bp: "busy b (vpc s p)" using p(1) by (simp add: busy_def)
  have only: "\<not> busy b (vpc s q)" if "q \<noteq> p" for q using exclusive_only [OF _ bp that] v by (simp add: vinv_def)
  have free: "\<not> busy b (vpc s' q)" for q using only [of q] by (simp add: s'(3)) (simp add: busy_def)
  have other: "(\<forall>q. \<not> busy c (vpc s' q)) \<longleftrightarrow> (\<forall>q. \<not> busy c (vpc s q))" if "c \<noteq> b" for c
  proof -
    have "busy c (vpc s' q) \<longleftrightarrow> busy c (vpc s q)" for q using that p(1) by (cases "q = p") (simp_all add: s'(3), simp_all add: busy_def)
    then show ?thesis by simp
  qed
  have ne: "c \<noteq> b" if "vpc s' q = InAlloc c w' \<or> vpc s' q = InWait h c w'" for q h c w'
    using free [of q] that by (auto simp: busy_def)
  have q: "vpc s q = vpc s' q" if "vpc s' q \<noteq> Outside" for q using that by (auto simp: s'(3))
  show "sim blk s' (a\<lparr>areq := (areq a)(b := NoReq)\<rparr>)"
  proof (rule simI)
    show "bufs (a\<lparr>areq := (areq a)(b := NoReq)\<rparr>) = bufs s'" "disk (a\<lparr>areq := (areq a)(b := NoReq)\<rparr>) = blk (medium s')"
      "dwrites (a\<lparr>areq := (areq a)(b := NoReq)\<rparr>) = dwrites s'" using simD(1-3) [OF si] s'(1) by (simp_all add: same_data_def)
    show "areq (a\<lparr>areq := (areq a)(b := NoReq)\<rparr>) c = NoReq \<longleftrightarrow> (\<forall>q. \<not> busy c (vpc s' q))" for c
      using simD(4) [OF si, of c] free other [of c] by (cases "c = b") simp_all
    show "areq (a\<lparr>areq := (areq a)(b := NoReq)\<rparr>) c = Pending w'" if "vpc s' q = InAlloc c w'" for q c w'
      using that q [of q] ne [of q c w'] simD(5) [OF si, of q c w'] by simp
    show "areq (a\<lparr>areq := (areq a)(b := NoReq)\<rparr>) c = (if h \<in> set (queued s') then Pending w' else Served)" if "vpc s' q = InWait h c w'" for q h c w'
      using that q [of q] ne [of q c w' h] simD(6) [OF si, of q h c w'] by (simp add: s'(2))
  qed
qed

lemma sim_serve:
  assumes v: "vinv A s" and si: "sim blk s a" and p: "vpc s p = InWait h b w" and h: "h \<in> set (queued s)"
    and s': "vpc s' = vpc s" "set (queued s') = set (queued s) - {h}"
      "bufs s' = (if w then bufs s else (bufs s)(b := (bufs s b)\<lparr>bdata := blk (medium s) (blockno (bufs s b))\<rparr>))"
      "blk (medium s') = (if w then (blk (medium s))(blockno (bufs s b) := bdata (bufs s b)) else blk (medium s))"
      "dwrites s' = (if w then dwrites s @ [(blockno (bufs s b), bdata (bufs s b))] else dwrites s)"
    and a': "a' = (disk_rw b w a)\<lparr>areq := (areq a)(b := Served)\<rparr>"
  shows "astep a (Serve b) a' \<and> sim blk s' a'"
proof
  show "astep a (Serve b) a'" using simD(6) [OF si p] h unfolding a' by (intro aserve) simp
  have data: "bufs a = bufs s" "disk a = blk (medium s)" "dwrites a = dwrites s" by (rule simD [OF si])+
  have r: "areq a' = (areq a)(b := Served)" by (simp add: a')
  have only: "c = b \<longleftrightarrow> q = p" if "vpc s q = InWait i c w'" for q i c w'
    using exclusive_only [of s b p q] v p that by (auto simp: vinv_def busy_def)
  have na: "c \<noteq> b" if "vpc s q = InAlloc c w'" for q c w'
    using exclusive_only [of s b p q] v p that by (cases "q = p") (auto simp: vinv_def busy_def)
  show "sim blk s' a'"
  proof (rule simI)
    show "bufs a' = bufs s'" "disk a' = blk (medium s')" "dwrites a' = dwrites s'"
      by (simp_all add: a' s' disk_rw_def upd_def data Let_def)
    have "\<exists>p. busy b (vpc s p)" by (rule exI [of _ p]) (simp add: p busy_def)
    then show "areq a' c = NoReq \<longleftrightarrow> (\<forall>p. \<not> busy c (vpc s' p))" for c
      using simD(4) [OF si, of c] by (simp add: r s'(1))
    show "areq a' c = Pending w'" if "vpc s' q = InAlloc c w'" for q c w'
      using simD(5) [OF si, of q c w'] that na [of q c w'] by (simp add: r s'(1))
    show "areq a' c = (if i \<in> set (queued s') then Pending w' else Served)" if "vpc s' q = InWait i c w'" for q i c w'
    proof -
      have q: "vpc s q = InWait i c w'" using that by (simp add: s'(1))
      show ?thesis
      proof (cases "c = b")
        case True
        then have "i = h" using only [OF q] q p by simp
        then show ?thesis using True by (simp add: r s'(2))
      next
        case False
        then have "q \<noteq> p" using only [OF q] by simp
        then have "i \<noteq> h" using owner_unique [OF _ q, of p b w] p v by (auto simp: vinv_def)
        then show ?thesis using simD(6) [OF si q] False by (simp add: r s'(2))
      qed
    qed
  qed
qed

text \<open>Every step keeps the invariant and is a step of the abstract disk.\<close>

definition follows :: "('d \<Rightarrow> u32 \<Rightarrow> blk) \<Rightarrow> adisk \<Rightarrow> vlabel \<Rightarrow> ('d, 'a) vkern_scheme \<Rightarrow> bool" where
  "follows blk a l s' \<longleftrightarrow> vinv ((=) 0) s' \<and> (\<exists>a'. astep a l a' \<and> sim blk s' a')"

lemma follows_tau:
  assumes "sim blk s a" "vinv ((=) 0) s'" "vpc s' = vpc s" "same_data s s'" "set (queued s') = set (queued s)"
  shows "follows blk a Tau s'"
  using assms sim_same [OF assms(1,3-5)] atau unfolding follows_def by blast

lemma step_call:
  assumes v: "vinv ((=) 0) s" and si: "sim blk s a" and p: "p < NPROC" "vpc s p = Outside" "\<forall>q. \<not> busy b (vpc s q)" "unat (blockno (bufs s b)) < 2 ^ 31"
    and c: "virtio_disk_rw p b w (s\<lparr>cur := Some p\<rparr>) = Some s'"
  shows "follows blk a (Call b w) s'"
proof -
  have e: "entered ((=) 0) p b w s s'" using virtio_call_ok [OF v p, of w] c by auto
  have "sim blk s' (a\<lparr>areq := (areq a)(b := Pending w)\<rparr>)"
    by (rule sim_entered [OF v si e _ _ _ refl]) (use p in \<open>auto simp: busy_def\<close>)
  moreover have "astep a (Call b w) (a\<lparr>areq := (areq a)(b := Pending w)\<rparr>)" using simD(4) [OF si, of b] p(3) by (intro acall) simp
  ultimately show ?thesis using e unfolding follows_def entered_def by blast
qed

lemma step_resume:
  assumes v: "vinv ((=) 0) s" and si: "sim blk s a" and p: "vpc s p \<noteq> Outside" and c: "virtio_resume p (schedule p s) = Some s'"
  shows "follows blk a (resume_label p s) s'"
proof (cases "vpc s p")
  case Outside
  then show ?thesis using p by simp
next
  case (InAlloc b w)
  have e: "entered ((=) 0) p b w s s'" using virtio_resume_ok [OF v p] c InAlloc by auto
  have b: "busy b (vpc s p)" using InAlloc by (simp add: busy_def)
  have a: "a = a\<lparr>areq := (areq a)(b := Pending w)\<rparr>" using fun_upd_idem [of "areq a" b "Pending w"] simD(5) [OF si InAlloc] by simp
  have "sim blk s' a"
    by (rule sim_entered [OF v si e _ _ _ a]) (use InAlloc exclusive_only [OF _ b] v in \<open>auto simp: vinv_def busy_def\<close>)
  then show ?thesis using e atau [of a] InAlloc unfolding follows_def entered_def resume_label_def by auto
next
  case (InWait i b w)
  have s': "vinv ((=) 0) s'" "same_data s s'" "queued s' = queued s" "vpc s' = (if bdisk s b then vpc s else (vpc s)(p := Outside))"
    using virtio_resume_ok [OF v p] c InWait by auto
  show ?thesis
  proof (cases "bdisk s b")
    case True
    then have "follows blk a Tau s'" using follows_tau [OF si s'(1) _ s'(2)] s'(3,4) by simp
    then show ?thesis using True InWait by (simp add: resume_label_def)
  next
    case False
    then have "vpc s' = (vpc s)(p := Outside)" using s'(4) by simp
    from sim_return [OF v si InWait False s'(2,3) this] show ?thesis
      using s'(1) False InWait unfolding follows_def resume_label_def by auto
  qed
qed

lemma step_serve:
  assumes dr: "device_reads dev blk" and dw: "device_writes dev blk" and v: "vinv ((=) 0) s" and si: "sim blk s a"
    and h: "h \<in> set (dev_work s)" and c: "dev_serve dev h s = Some (b, s')"
  shows "follows blk a (Serve b) s'"
proof -
  have o: "owned s" and r: "rings ((=) 0) s" and e: "exclusive s" using v by (simp_all add: vinv_def)
  have hq: "h \<in> set (queued s)" using h by (simp add: queued_def)
  then obtain p b' w where p: "vpc s p = InWait h b' w" using ringsD(2) [OF r, of h] by auto
  have "busy b' (vpc s p)" using p by (simp add: busy_def)
  then have bn: "unat (blockno (bufs s b')) < 2 ^ 31" using e by (auto simp: exclusive_def)
  from dev_serve_ok [OF dr dw ownedD(1) [OF o p] bn] c obtain m where b: "b' = b" and
    eq: "s' = (if w then s\<lparr>dwrites := dwrites s @ [(blockno (bufs s b), bdata (bufs s b))]\<rparr>
      else upd b (bdata_update (\<lambda>_. blk (medium s) (blockno (bufs s b)))) s)
      \<lparr>medium := m, info_status := (info_status s)[h := 0],
       used_ring := (used_ring s)[unat (used_ring_idx s) mod NUM := (of_nat h, 1024)],
       used_ring_idx := used_ring_idx s + 1, dev_work := remove1 h (dev_work s)\<rparr>"
    and m: "blk m = (if w then (blk (medium s))(blockno (bufs s b) := bdata (bufs s b)) else blk (medium s))" by auto
  note p = p [unfolded b]
  have v': "vinv ((=) 0) s'" and q: "set (queued s') = set (queued s) - {h}" by (rule serve_vinv(1,2) [OF v refl h p eq])+
  have "astep a (Serve b) ((disk_rw b w a)\<lparr>areq := (areq a)(b := Served)\<rparr>) \<and> sim blk s' ((disk_rw b w a)\<lparr>areq := (areq a)(b := Served)\<rparr>)"
    by (rule sim_serve [OF v si p hq _ q _ _ _ refl]) (simp_all add: eq m upd_def)
  then show ?thesis using v' unfolding follows_def by blast
qed

lemma virtio_intr_returns:
  assumes "vinv A s" and "\<forall>h \<in> set (finished s). info_status s ! h = 0"
  shows "\<exists>bd t u. virtio_disk_intr (s\<lparr>cur := None\<rparr>) = Some (s\<lparr>cur := None, bdisk := bd, procs := t, used_idx := u\<rparr>) \<and>
    vinv A (s\<lparr>cur := None, bdisk := bd, procs := t, used_idx := u\<rparr>) \<and>
    finished (s\<lparr>cur := None, bdisk := bd, procs := t, used_idx := u\<rparr>) = []"
  using intr_loop_ok [of A "s\<lparr>cur := None\<rparr>" "length (finished s)"] assms
  by (simp add: virtio_disk_intr_def finished_def)

lemma virtio_intr_panics:
  assumes "vinv A s" and "\<exists>h \<in> set (finished s). info_status s ! h \<noteq> 0"
  shows "virtio_disk_intr (s\<lparr>cur := None\<rparr>) = None"
  using intr_loop_panics [of A "s\<lparr>cur := None\<rparr>" "length (finished s)"] assms
  by (simp add: virtio_disk_intr_def finished_def)

lemma answered:
  assumes "vinv A s" and "h \<in> set (finished s)"
  shows "A (info_status s ! h)"
proof -
  have r: "rings A s" using assms(1) by (simp add: vinv_def)
  obtain p b w where "vpc s p = InWait h b w" using ringsD(2) [OF r, of h] assms(2) by auto
  moreover have "h \<notin> set (queued s)" using ringsD(1) [OF r] assms(2) by auto
  ultimately show ?thesis using ringsD(3) [OF r] by force
qed

lemma virtio_intr_ok:
  assumes "vinv ((=) 0) s"
  shows "\<exists>bd t u. virtio_disk_intr (s\<lparr>cur := None\<rparr>) = Some (s\<lparr>cur := None, bdisk := bd, procs := t, used_idx := u\<rparr>) \<and>
    vinv ((=) 0) (s\<lparr>cur := None, bdisk := bd, procs := t, used_idx := u\<rparr>) \<and>
    finished (s\<lparr>cur := None, bdisk := bd, procs := t, used_idx := u\<rparr>) = []"
  by (rule virtio_intr_returns [OF assms]) (use answered [OF assms] in simp)

lemma step_intr:
  assumes v: "vinv ((=) 0) s" and si: "sim blk s a" and c: "virtio_disk_intr (s\<lparr>cur := None\<rparr>) = Some s'"
  shows "follows blk a Tau s'"
proof -
  obtain bd t u where s': "s' = s\<lparr>cur := None, bdisk := bd, procs := t, used_idx := u\<rparr>" "vinv ((=) 0) s'"
    using virtio_intr_ok [OF v] c by auto
  show ?thesis by (rule follows_tau [OF si s'(2)]) (simp_all add: s'(1) same_data_def queued_def)
qed

lemma step_fetch:
  assumes "vinv ((=) 0) s" and "sim blk s a" and "dev_seen s \<noteq> avail_idx s"
  shows "follows blk a Tau (dev_fetch s)"
  by (rule follows_tau [OF assms(2)]) (use fetch_vinv [OF assms(1,3)] in \<open>simp_all add: dev_fetch_def same_data_def\<close>)

lemma kill_procs: "\<exists>t. snd (kill i s) = s\<lparr>procs := t\<rparr> \<and>
    (\<forall>q. channel (t q) = channel (procs s q) \<and> (state (t q) = state (procs s q) \<or> state (procs s q) = SLEEPING \<and> state (t q) = RUNNABLE))"
proof (cases "kill_slot NPROC 0 i (procs s)")
  case None
  then show ?thesis by (intro exI [of _ "procs s"]) (simp add: kill_def kill_loop_eq)
next
  case (Some p)
  then show ?thesis unfolding kill_def kill_loop_eq by (auto simp: upd_proc_def intro!: exI split: if_splits)
qed

lemma kill_vinv:
  assumes v: "vinv A s"
  shows "vinv A (snd (kill i s))"
proof -
  obtain t where t: "snd (kill i s) = s\<lparr>procs := t\<rparr>"
    "\<forall>q. channel (t q) = channel (procs s q) \<and> (state (t q) = state (procs s q) \<or> state (procs s q) = SLEEPING \<and> state (t q) = RUNNABLE)"
    using kill_procs by blast
  have "rests (s\<lparr>procs := t\<rparr>) q" for q
  proof -
    have "rests s q" using v by (simp add: vinv_def)
    then show ?thesis using t(2) [THEN spec, of q] by (auto simp: rests_def split: vpc.splits)
  qed
  then show ?thesis using v unfolding t(1) by (simp add: vinv_def)
qed

lemma step_kill:
  assumes v: "vinv ((=) 0) s" and si: "sim blk s a"
  shows "follows blk a Tau (snd (kill i s))"
proof -
  obtain t where "snd (kill i s) = s\<lparr>procs := t\<rparr>" using kill_procs by blast
  with follows_tau [OF si kill_vinv [OF v, of i]] show ?thesis by (simp add: same_data_def)
qed

lemma cache_vinv:
  assumes v: "vinv A s" and f: "\<And>b. \<exists>q. busy b (vpc s q) \<Longrightarrow> f b = bufs s b"
  shows "vinv A (s\<lparr>bufs := f\<rparr>)"
proof -
  let ?s = "s\<lparr>bufs := f\<rparr>"
  have o: "owned s" and r: "rings A s" using v by (simp_all add: vinv_def)
  have q: "queued ?s = queued s" "finished ?s = finished s" "spare ?s = spare s" by (simp_all add: queued_def finished_def spare_def)
  have "owned ?s"
  proof (rule owned_same [OF o])
    fix q h c w assume "vpc s q = InWait h c w"
    then have "busy c (vpc s q)" by (simp add: busy_def)
    then have "f c = bufs s c" using f by blast
    then show "blockno (bufs ?s c) = blockno (bufs s c)" by simp
  qed simp_all
  moreover have "rings A ?s" by (rule rings_same [OF r]) (use ringsD(1) [OF r] q in simp_all)
  moreover have "lens ?s" using v by (simp add: vinv_def lens_def)
  moreover have "exclusive ?s" using v f unfolding vinv_def exclusive_def by (simp, metis)
  moreover have "rests ?s p" for p by (rule rests_cong [of _ _ s]) (use v q in \<open>simp_all add: vinv_def\<close>)
  ultimately show ?thesis by (simp add: vinv_def)
qed

lemma step_cache:
  assumes v: "vinv ((=) 0) s" and si: "sim blk s a" and f: "\<And>b. \<exists>q. busy b (vpc s q) \<Longrightarrow> f b = bufs s b"
  shows "follows blk a (Cache f) (s\<lparr>bufs := f\<rparr>)"
proof -
  let ?s = "s\<lparr>bufs := f\<rparr>"
  have q: "queued ?s = queued s" by (simp add: queued_def)
  have "astep a (Cache f) (a\<lparr>bufs := f\<rparr>)"
  proof (rule acache)
    fix b assume "areq a b \<noteq> NoReq"
    then have "\<exists>q. busy b (vpc s q)" using simD(4) [OF si, of b] by auto
    then show "f b = bufs a b" using f simD(1) [OF si] by simp
  qed
  moreover have "sim blk ?s (a\<lparr>bufs := f\<rparr>)"
    using si unfolding sim_def q by simp
  ultimately show ?thesis using cache_vinv [OF v f] unfolding follows_def by blast
qed

lemma vstep_follows:
  assumes "vstep dev s l s'" and "device_reads dev blk" and "device_writes dev blk" and "vinv ((=) 0) s" and "sim blk s a"
  shows "follows blk a l s'"
  using assms(1)
proof cases
  case vcall
  then show ?thesis using step_call [OF assms(4,5)] by blast
next
  case vresume
  then show ?thesis using step_resume [OF assms(4,5)] by blast
next
  case vintr
  then show ?thesis using step_intr [OF assms(4,5)] by blast
next
  case vfetch
  then show ?thesis using step_fetch [OF assms(4,5)] by blast
next
  case vserve
  then show ?thesis using step_serve [OF assms(2-5)] by blast
next
  case vkill
  then show ?thesis using step_kill [OF assms(4,5)] by simp
next
  case vcache
  then show ?thesis using step_cache [OF assms(4,5)] by blast
qed

text \<open>The driver before its first call: all descriptors free and both rings empty.\<close>

definition vidle :: "('d, 'a) vkern_scheme \<Rightarrow> bool" where
  "vidle s \<longleftrightarrow> lens s \<and> (\<forall>p. vpc s p = Outside) \<and> list_all id (vfree s) \<and> dev_seen s = avail_idx s \<and> used_idx s = used_ring_idx s \<and> dev_work s = []"

definition idle_disk :: "('d \<Rightarrow> u32 \<Rightarrow> blk) \<Rightarrow> ('d, 'a) vkern_scheme \<Rightarrow> adisk" where
  "idle_disk blk s = \<lparr>bufs = bufs s, disk = blk (medium s), dwrites = dwrites s, mypid = mypid s, areq = (\<lambda>b. NoReq)\<rparr>"

lemma vidle_vinv:
  assumes "vidle s"
  shows "vinv A s" and "sim blk s (idle_disk blk s)"
proof -
  have q: "queued s = []" "finished s = []" using assms by (simp_all add: vidle_def queued_def finished_def)
  have "owned s" using assms by (auto simp: owned_def vidle_def lens_def list_all_length)
  moreover have "exclusive s" using assms by (simp add: exclusive_def vidle_def busy_def)
  moreover have "rings A s" using assms q by (simp add: rings_def vidle_def)
  moreover have "rests s p" for p using assms by (simp add: rests_def vidle_def)
  ultimately show "vinv A s" using assms by (simp add: vinv_def vidle_def)
  show "sim blk s (idle_disk blk s)" using assms by (simp add: sim_def idle_disk_def vidle_def busy_def)
qed

lemma vreach_follows:
  assumes "vreach dev s0 ls s" and "device_reads dev blk" and "device_writes dev blk" and "vidle s0"
  shows "vinv ((=) 0) s \<and> (\<exists>a. areach (idle_disk blk s0) ls a \<and> sim blk s a)"
  using assms
proof (induction rule: vreach.induct)
  case vreach_init
  then show ?case using vidle_vinv areach_init by blast
next
  case (vreach_step ls s l s')
  then obtain a where "vinv ((=) 0) s" "areach (idle_disk blk s0) ls a" "sim blk s a" by blast
  moreover from this have "follows blk a l s'" using vstep_follows [OF vreach_step.hyps(2) vreach_step.prems(1,2)] by blast
  ultimately show ?case unfolding follows_def using areach_step by blast
qed

text \<open>Whatever the device answers, the driver keeps its invariant.\<close>

lemma serve_any_vinv:
  assumes v: "vinv (\<lambda>_. True) s" and h: "h \<in> set (dev_work s)" and c: "dev_serve dev h s = Some (b, s')"
  shows "vinv (\<lambda>_. True) s'"
proof -
  have o: "owned s" and r: "rings (\<lambda>_. True) s" using v by (simp_all add: vinv_def)
  have "h \<in> set (queued s @ finished s)" using h by (simp add: queued_def)
  then obtain p b' w where p: "vpc s p = InWait h b' w" using ringsD(2) [OF r, of h] by blast
  obtain st data m where d: "dev (if w then 1 else 0) (ucast (blockno (bufs s b') * 2)) (bdata (bufs s b')) (medium s) = (st, data, m)"
    by (cases "dev (if w then 1 else 0) (ucast (blockno (bufs s b') * 2)) (bdata (bufs s b')) (medium s)")
  then show ?thesis using serve_vinv(1) [OF v _ h p refl] dev_serve_any [of s h b' w dev, OF ownedD(1) [OF o p] d] c by simp
qed

lemma vstep_vinv:
  assumes "vstep dev s l s'" and v: "vinv (\<lambda>_. True) s"
  shows "vinv (\<lambda>_. True) s'"
  using assms(1)
proof cases
  case (vcall p b w)
  then show ?thesis using virtio_call_ok [OF v, of p b w] by (auto simp: entered_def)
next
  case (vresume p)
  then show ?thesis using virtio_resume_ok [OF v, of p] by auto
next
  case vintr
  show ?thesis
  proof (cases "\<forall>h \<in> set (finished s). info_status s ! h = 0")
    case True
    then show ?thesis using virtio_intr_returns [OF v] vintr by auto
  next
    case False
    then show ?thesis using virtio_intr_panics [OF v] vintr by auto
  qed
next
  case vfetch
  then show ?thesis using fetch_vinv(1) [OF v] by simp
next
  case vserve
  then show ?thesis using serve_any_vinv [OF v] by blast
next
  case vkill
  then show ?thesis using kill_vinv [OF v] by simp
next
  case vcache
  then show ?thesis using cache_vinv [OF v] by blast
qed

lemma vreach_vinv: "vreach dev s0 ls s \<Longrightarrow> vidle s0 \<Longrightarrow> vinv (\<lambda>_. True) s"
  by (induction rule: vreach.induct) (auto intro: vidle_vinv(1) vstep_vinv)

section \<open>Progress\<close>

text \<open>How far a process is from the end of its call.\<close>

definition unfetched :: "('d, 'a) vkern_scheme \<Rightarrow> nat list" where
  "unfetched s = map unat (ring_q NUM (avail_ring s) (dev_seen s) (avail_idx s))"

lemma queued_split: "queued s = unfetched s @ dev_work s"
  by (simp add: queued_def unfetched_def)

definition weight :: "('d, 'a) vkern_scheme \<Rightarrow> nat \<Rightarrow> nat" where
  "weight s p =
     (case vpc s p of
        Outside \<Rightarrow> 0
      | InAlloc b w \<Rightarrow> 6
      | InWait i b w \<Rightarrow> 2 + (if i \<in> set (unfetched s) then 3 else if i \<in> set (dev_work s) then 2 else if i \<in> set (finished s) then 1 else 0))"

definition work_left :: "('d, 'a) vkern_scheme \<Rightarrow> nat" where
  "work_left s = (\<Sum>p<NPROC. weight s p)"

lemma work_less:
  assumes "\<And>q. weight s' q \<le> weight s q" and "weight s' p < weight s p" and "p < NPROC"
  shows "work_left s' < work_left s"
  unfolding work_left_def by (rule sum_strict_mono_ex1) (use assms in auto)

lemma vinv_small: "vinv ((=) 0) s \<Longrightarrow> vpc s p \<noteq> Outside \<Longrightarrow> p < NPROC"
  by (simp add: vinv_def exclusive_def)

lemma queued_owner:
  assumes "vinv ((=) 0) s" and "h \<in> set (queued s @ finished s)"
  shows "\<exists>p b w. vpc s p = InWait h b w \<and> bdisk s b"
  using assms ringsD(2) [of "(=) 0" s h] unfolding vinv_def by blast

lemma fetch_less:
  assumes v: "vinv ((=) 0) s" and f: "unfetched s = h # hs"
  shows "vstep dev s Tau (dev_fetch s) \<and> work_left (dev_fetch s) < work_left s"
proof
  have ne: "dev_seen s \<noteq> avail_idx s" using f by (auto simp: unfetched_def)
  then show "vstep dev s Tau (dev_fetch s)" by (rule vfetch)
  have g: "ring_q NUM (avail_ring s) (dev_seen s) (avail_idx s) =
      avail_ring s ! (unat (dev_seen s) mod NUM) # ring_q NUM (avail_ring s) (dev_seen s + 1) (avail_idx s)"
    by (rule ring_q_get [OF _ ne]) simp
  have u: "unfetched (dev_fetch s) = hs" "dev_work (dev_fetch s) = dev_work s @ [h]" "finished (dev_fetch s) = finished s" "vpc (dev_fetch s) = vpc s"
    using f g by (simp_all add: unfetched_def dev_fetch_def finished_def)
  have "distinct (queued s @ finished s)" using v ringsD(1) by (auto simp only: vinv_def)
  then have d: "h \<notin> set hs" by (simp add: queued_split f)
  obtain p b w where p: "vpc s p = InWait h b w" using queued_owner [OF v, of h] f by (auto simp: queued_split)
  show "work_left (dev_fetch s) < work_left s"
  proof (rule work_less)
    show "weight (dev_fetch s) q \<le> weight s q" for q by (auto simp: weight_def u f split: vpc.splits)
    show "weight (dev_fetch s) p < weight s p" using d by (simp add: weight_def u f p)
    show "p < NPROC" using vinv_small [OF v, of p] p by simp
  qed
qed

lemma serve_less:
  assumes v: "vinv ((=) 0) s" and dev: "device_reads dev blk" "device_writes dev blk" and f: "dev_work s = h # hs"
  shows "\<exists>b s'. vstep dev s (Serve b) s' \<and> work_left s' < work_left s"
proof -
  have o: "owned s" and e: "exclusive s" and r: "rings ((=) 0) s" using v by (simp_all add: vinv_def)
  obtain p b w where p: "vpc s p = InWait h b w" using queued_owner [OF v, of h] f by (auto simp: queued_split)
  have "busy b (vpc s p)" using p by (simp add: busy_def)
  then have bn: "unat (blockno (bufs s b)) < 2 ^ 31" using e by (auto simp: exclusive_def)
  obtain m where m: "dev_serve dev h s = Some (b, (if w then s\<lparr>dwrites := dwrites s @ [(blockno (bufs s b), bdata (bufs s b))]\<rparr>
      else upd b (bdata_update (\<lambda>_. blk (medium s) (blockno (bufs s b)))) s)
      \<lparr>medium := m, info_status := (info_status s)[h := 0],
       used_ring := (used_ring s)[unat (used_ring_idx s) mod NUM := (of_nat h, 1024)],
       used_ring_idx := used_ring_idx s + 1, dev_work := remove1 h (dev_work s)\<rparr>)" (is "_ = Some (b, ?t)")
    using dev_serve_ok [OF dev ownedD(1) [OF o p] bn] by blast
  define s' where "s' = ?t"
  have v': "vinv ((=) 0) s'" by (rule serve_vinv(1) [OF v refl _ p s'_def]) (simp add: f)
  have d: "distinct (unfetched s @ (h # hs) @ finished s)" using ringsD(1) [OF r] by (simp add: queued_split f)
  have u: "unfetched s' = unfetched s" "dev_work s' = hs" "vpc s' = vpc s" using f by (simp_all add: s'_def unfetched_def upd_def)
  have bd: "bdisk s' = bdisk s" by (simp add: s'_def upd_def)
  have r': "rings ((=) 0) s'" using v' by (simp add: vinv_def)
  have "set (queued s' @ finished s') = set (queued s @ finished s)"
    by (rule set_eqI) (simp only: ringsD(2) [OF r] ringsD(2) [OF r'] bd u)
  then have sub: "set (finished s') \<subseteq> insert h (set (finished s)) \<union> set (unfetched s) \<union> set hs" by (auto simp: queued_split u f)
  have "work_left s' < work_left s"
  proof (rule work_less)
    show "weight s' q \<le> weight s q" for q using sub by (auto simp: weight_def u f split: vpc.splits)
    show "weight s' p < weight s p" using d by (simp add: weight_def u f p)
    show "p < NPROC" using vinv_small [OF v, of p] p by simp
  qed
  moreover have "vstep dev s (Serve b) s'" unfolding s'_def by (rule vserve [OF _ m]) (simp add: f)
  ultimately show ?thesis by blast
qed

lemma intr_less:
  assumes v: "vinv ((=) 0) s" and q: "queued s = []" and f: "finished s = h # hs"
  shows "\<exists>s'. vstep dev s Tau s' \<and> work_left s' < work_left s"
proof -
  obtain bd t u where c: "virtio_disk_intr (s\<lparr>cur := None\<rparr>) = Some (s\<lparr>cur := None, bdisk := bd, procs := t, used_idx := u\<rparr>)"
    and fin: "finished (s\<lparr>cur := None, bdisk := bd, procs := t, used_idx := u\<rparr>) = []" using virtio_intr_ok [OF v] by blast
  let ?s' = "s\<lparr>cur := None, bdisk := bd, procs := t, used_idx := u\<rparr>"
  have w: "unfetched ?s' = unfetched s" "dev_work ?s' = dev_work s" "vpc ?s' = vpc s" by (simp_all add: unfetched_def)
  obtain p b w' where p: "vpc s p = InWait h b w'" using queued_owner [OF v, of h] f by auto
  have "work_left ?s' < work_left s"
  proof (rule work_less)
    show "weight ?s' q \<le> weight s q" for q by (auto simp: weight_def w fin split: vpc.splits)
    show "weight ?s' p < weight s p" using q by (simp add: weight_def w fin p f queued_split)
    show "p < NPROC" using vinv_small [OF v, of p] p by simp
  qed
  then show ?thesis using vintr [OF c] by blast
qed

text \<open>With nothing under way, a process that waits for its request is awake and leaves; with no such
  process, one that waits for descriptors is awake and gets them.\<close>

lemma leave_less:
  assumes v: "vinv ((=) 0) s" and q: "queued s = []" "finished s = []" and p: "vpc s p = InWait i b w"
  shows "\<exists>l s'. vstep dev s l s' \<and> work_left s' < work_left s \<and> (\<forall>b w. l \<noteq> Call b w)"
proof -
  have r: "rings ((=) 0) s" using v by (simp add: vinv_def)
  have "i \<notin> set (queued s @ finished s)" using q by simp
  then have nb: "\<not> bdisk s b" using ringsD(2) [OF r, of i] p by blast
  then have run: "state (procs s p) = RUNNABLE" using v p by (auto simp: vinv_def rests_def dest: spec [of _ p])
  have out: "vpc s p \<noteq> Outside" using p by simp
  obtain s' where s': "virtio_resume p (schedule p s) = Some s'" "queued s' = queued s" "finished s' = finished s" "vpc s' = (vpc s)(p := Outside)"
    using virtio_resume_ok [OF v out] p nb by auto
  have e: "unfetched s = []" "dev_work s = []" "unfetched s' = []" "dev_work s' = []" using q(1) s'(2) by (simp_all add: queued_split)
  have "work_left s' < work_left s"
  proof (rule work_less)
    show "weight s' r \<le> weight s r" for r by (auto simp: weight_def e s'(3,4) split: vpc.splits)
    show "weight s' p < weight s p" by (simp add: weight_def p s'(4))
    show "p < NPROC" by (rule vinv_small [OF v out])
  qed
  moreover have "vstep dev s (resume_label p s) s'" by (rule vresume [OF out run s'(1)])
  moreover have "resume_label p s = Return b" using p nb by (simp add: resume_label_def)
  ultimately show ?thesis by (intro exI [of _ "resume_label p s"] exI [of _ s']) simp
qed

lemma enter_less:
  assumes v: "vinv ((=) 0) s" and n: "\<forall>q i b w. vpc s q \<noteq> InWait i b w" and q: "queued s = []" "finished s = []" and p: "vpc s p = InAlloc b w"
  shows "\<exists>s'. vstep dev s Tau s' \<and> work_left s' < work_left s"
proof -
  have o: "owned s" using v by (simp add: vinv_def)
  have "spare s = {..<NUM}" using ownedD(3) [OF o] n by (auto simp: spare_def)
  then have sp: "3 \<le> card (spare s)" by simp
  then have run: "state (procs s p) = RUNNABLE" using v p by (auto simp: vinv_def rests_def dest: spec [of _ p])
  have out: "vpc s p \<noteq> Outside" using p by simp
  obtain s' where s': "virtio_resume p (schedule p s) = Some s'" "entered ((=) 0) p b w s s'" using virtio_resume_ok [OF v out] p by auto
  then obtain i where i: "vpc s' = (vpc s)(p := InWait i b w)" "finished s' = []" using sp q by (auto simp: entered_def)
  have "work_left s' < work_left s"
  proof (rule work_less)
    show "weight s' r \<le> weight s r" for r using n by (auto simp: weight_def i p split: vpc.splits)
    show "weight s' p < weight s p" by (simp add: weight_def p i)
    show "p < NPROC" by (rule vinv_small [OF v out])
  qed
  moreover have "vstep dev s (resume_label p s) s'" by (rule vresume [OF out run s'(1)])
  ultimately show ?thesis using p by (auto simp: resume_label_def)
qed

lemma progress:
  assumes v: "vinv ((=) 0) s" and dev: "device_reads dev blk" "device_writes dev blk" and p: "vpc s p \<noteq> Outside"
  shows "\<exists>l s'. vstep dev s l s' \<and> work_left s' < work_left s \<and> (\<forall>b w. l \<noteq> Call b w)"
proof -
  consider h hs where "unfetched s = h # hs" | h hs where "dev_work s = h # hs" | h hs where "queued s = []" "finished s = h # hs"
    | "queued s = []" "finished s = []"
    unfolding queued_split by (cases "unfetched s"; cases "dev_work s"; cases "finished s") auto
  then show ?thesis
  proof cases
    case 1
    then show ?thesis using fetch_less [OF v, of _ _ dev] by blast
  next
    case 2
    then show ?thesis using serve_less [OF v dev] by blast
  next
    case 3
    then show ?thesis using intr_less [OF v, of _ _ dev] by blast
  next
    case 4
    show ?thesis
    proof (cases "\<exists>q i b w. vpc s q = InWait i b w")
      case True
      then show ?thesis using leave_less [OF v 4] by blast
    next
      case False
      then obtain b w where "vpc s p = InAlloc b w" using p by (cases "vpc s p") auto
      then show ?thesis using enter_less [OF v _ 4] False by blast
    qed
  qed
qed

lemma completes:
  assumes "device_reads dev blk" and "device_writes dev blk" and "vidle s0" and "vreach dev s0 ls s"
  shows "\<exists>ls' s'. vreach dev s0 (ls @ ls') s' \<and> (\<forall>p. vpc s' p = Outside) \<and> (\<forall>b w. Call b w \<notin> set ls')"
  using assms(4)
proof (induction "work_left s" arbitrary: s ls rule: less_induct)
  case less
  show ?case
  proof (cases "\<forall>p. vpc s p = Outside")
    case True
    then show ?thesis using less.prems by (intro exI [of _ "[]"] exI [of _ s]) simp
  next
    case False
    have "vinv ((=) 0) s" using vreach_follows [OF less.prems assms(1-3)] by blast
    with False obtain l s' where l: "vstep dev s l s'" "work_left s' < work_left s" "\<forall>b w. l \<noteq> Call b w"
      using progress [OF _ assms(1,2)] by blast
    from less.hyps [OF l(2) vreach_step [OF less.prems l(1)]] obtain ls' t where
      "vreach dev s0 ((ls @ [l]) @ ls') t" "\<forall>p. vpc t p = Outside" "\<forall>b w. Call b w \<notin> set ls'" by blast
    then show ?thesis using l(3) by (intro exI [of _ "l # ls'"] exI [of _ t]) auto
  qed
qed

section \<open>Example\<close>

text \<open>A device with its blocks in memory, and the kernel with an idle driver.\<close>

definition ram_dev :: "(u64 \<Rightarrow> blk) device" where
  "ram_dev ty sec data m = (if ty = VIRTIO_BLK_T_OUT then (0, data, m(sec div 2 := data)) else (0, m (sec div 2), m))"

definition ram_blk :: "(u64 \<Rightarrow> blk) \<Rightarrow> u32 \<Rightarrow> blk" where
  "ram_blk m bn = m (ucast bn)"

lemma ram_sector: "unat bn < 2 ^ 31 \<Longrightarrow> ucast (bn * 2 :: u32) div 2 = (ucast bn :: u64)"
proof -
  assume b: "unat bn < 2 ^ 31"
  then have "unat (bn * 2) = 2 * unat bn" by (simp add: unat_word_ariths)
  then have "unat (ucast (bn * 2 :: u32) div 2 :: u64) = unat (ucast bn :: u64)"
    by (simp add: unat_div unat_ucast_up)
  then show ?thesis by (rule unsigned_word_eqI)
qed

lemma ram_ok: "device_reads ram_dev ram_blk" "device_writes ram_dev ram_blk"
proof -
  show "device_reads ram_dev ram_blk" by (simp add: device_reads_def ram_dev_def ram_blk_def ram_sector)
  have "ucast x = (ucast y :: u64) \<longleftrightarrow> x = y" for x y :: u32
  proof
    assume "ucast x = (ucast y :: u64)"
    then have "unat (ucast x :: u64) = unat (ucast y :: u64)" by simp
    then show "x = y" by (simp add: unat_ucast_up unsigned_word_eqI)
  qed simp
  then have "ram_blk (m(ucast bn := data)) = (ram_blk m)(bn := data)" for m bn data
    by (simp add: ram_blk_def fun_eq_iff)
  then show "device_writes ram_dev ram_blk"
    by (simp add: device_writes_def ram_dev_def ram_sector)
qed

definition ex_virtio :: "(u64 \<Rightarrow> blk) vkern" where
  "ex_virtio = kern.extend ex_kern (vkern.fields (replicate NUM no_desc) 0 (replicate NUM 0) 0 (replicate NUM (0, 0))
     (replicate NUM True) 0 (replicate NUM None) (replicate NUM 0)
     (replicate NUM \<lparr>req_type = 0, req_reserved = 0, req_sector = 0\<rparr>) (\<lambda>_. False) (\<lambda>_. Outside) 0 [] (\<lambda>_. replicate BSIZE 0))"

lemma ex_virtio_fields: "lens ex_virtio" "vpc ex_virtio = (\<lambda>_. Outside)" "vidle ex_virtio" "procs ex_virtio = procs ex_kern" "bufs ex_virtio = bufs ex_kern"
  by (simp_all add: ex_virtio_def kern.defs vkern.defs lens_def vidle_def list_all_iff)

text \<open>The run of the example: a process prepares its buffer and asks for a write of block 5.\<close>

definition ex_buf :: buf where
  "ex_buf = \<lparr>valid = True, blockno = 5, block_lock = \<lparr>slocked = 1, spid = 1\<rparr>, refcnt = 1, bprev = 0, bnext = 0, bdata = replicate BSIZE 7\<rparr>"

lemma ex_virtio_call:
  "\<exists>s. vreach dev ex_virtio [Cache (\<lambda>_. ex_buf), Call 3 True] s \<and> entered A 0 3 True (ex_virtio\<lparr>bufs := \<lambda>_. ex_buf\<rparr>) s"
proof -
  let ?s = "ex_virtio\<lparr>bufs := \<lambda>_. ex_buf\<rparr>"
  have 1: "vreach dev ex_virtio ([] @ [Cache (\<lambda>_. ex_buf)]) ?s"
    by (rule vreach_step [OF vreach_init vcache]) (simp add: ex_virtio_fields busy_def)
  have v: "vinv A ?s" by (rule cache_vinv [OF vidle_vinv(1) [OF ex_virtio_fields(3)]]) (simp add: ex_virtio_fields busy_def)
  have p: "(0::nat) < NPROC" "vpc ?s 0 = Outside" "\<forall>q. \<not> busy 3 (vpc ?s q)" "unat (blockno (bufs ?s 3)) < 2 ^ 31" "state (procs ?s 0) = RUNNING"
    by (simp_all add: ex_virtio_fields busy_def ex_buf_def ex_kern_def ex_proc_def)
  obtain s' where s': "virtio_disk_rw 0 3 True (?s\<lparr>cur := Some 0\<rparr>) = Some s'" "entered A 0 3 True ?s s'" using virtio_call_ok [OF v p(1-4)] by blast
  then have "vstep dev ?s (Call 3 True) s'" using p by (intro vcall) simp_all
  then have "vreach dev ex_virtio (([] @ [Cache (\<lambda>_. ex_buf)]) @ [Call 3 True]) s'" by (rule vreach_step [OF 1])
  then show ?thesis using s'(2) by auto
qed

lemma ex_virtio_run: "\<exists>s. vreach ram_dev ex_virtio [Cache (\<lambda>_. ex_buf), Call 3 True] s"
  using ex_virtio_call by blast

text \<open>The same request to a device that fails it.\<close>

definition bad_dev :: "(u64 \<Rightarrow> blk) device" where
  "bad_dev ty sec data m = (1, data, m)"

lemma ex_virtio_error:
  "\<exists>s. vreach bad_dev ex_virtio [Cache (\<lambda>_. ex_buf), Call 3 True, Tau, Serve 3] s \<and> (\<exists>h \<in> set (finished s). info_status s ! h \<noteq> 0)"
proof -
  let ?s = "ex_virtio\<lparr>bufs := \<lambda>_. ex_buf\<rparr>"
  obtain s where r: "vreach bad_dev ex_virtio [Cache (\<lambda>_. ex_buf), Call 3 True] s" and e: "entered (\<lambda>_. True) 0 3 True ?s s"
    using ex_virtio_call by blast
  have "spare ?s = {..<NUM}" and q0: "queued ?s = []" "dev_work ?s = []"
    by (auto simp: ex_virtio_def kern.defs vkern.defs spare_def queued_def)
  then have sp: "3 \<le> card (spare ?s)" by simp
  obtain i where i: "vpc s = (vpc ?s)(0 := InWait i 3 True)" "set (queued s) = {i}" "dev_work s = []" and v: "vinv (\<lambda>_. True) s"
    using e sp q0 by (auto simp: entered_def)
  have "unfetched s \<noteq> []" "set (unfetched s) = {i}" using i(2,3) by (auto simp: queued_split)
  then obtain hs where u: "unfetched s = i # hs" by (cases "unfetched s") auto
  then have ne: "dev_seen s \<noteq> avail_idx s" by (auto simp: unfetched_def)
  have "avail_ring s ! (unat (dev_seen s) mod NUM) # ring_q NUM (avail_ring s) (dev_seen s + 1) (avail_idx s) =
      ring_q NUM (avail_ring s) (dev_seen s) (avail_idx s)" by (rule ring_q_get [OF _ ne, symmetric]) simp
  then have w: "dev_work (dev_fetch s) = [i]" using u i(3) by (auto simp: unfetched_def dev_fetch_def)
  define t where "t = dev_fetch s"
  have vt: "vinv (\<lambda>_. True) t" unfolding t_def by (rule fetch_vinv(1) [OF v ne])
  then have o: "owned t" "lens t" by (simp_all add: vinv_def)
  have p: "vpc t 0 = InWait i 3 True" by (simp add: t_def dev_fetch_def i(1))
  note rq = ownedD(1) [OF o(1) p]
  have i8: "i < length (info_status t)" using request_small [OF rq, of i] o(2) by (simp add: lens_def)
  define s' where "s' = snd (the (dev_serve bad_dev i t))"
  note sv = dev_serve_any [of t i 3 True bad_dev, OF rq bad_dev_def]
  have s': "dev_serve bad_dev i t = Some (3, s')" unfolding s'_def sv by simp
  have eq: "s' = (if True then t\<lparr>dwrites := dwrites t @ [(blockno (bufs t 3), bdata (bufs t 3))]\<rparr> else upd 3 (bdata_update (\<lambda>_. bdata (bufs t 3))) t)
      \<lparr>medium := medium t, info_status := (info_status t)[i := 1],
       used_ring := (used_ring t)[unat (used_ring_idx t) mod NUM := (of_nat i, 1024)],
       used_ring_idx := used_ring_idx t + 1, dev_work := remove1 i (dev_work t)\<rparr>" unfolding s'_def sv by simp
  have "i \<in> set (finished s')" using serve_vinv(3) [OF vt TrueI _ p eq] w by (simp add: t_def)
  moreover have "info_status s' ! i \<noteq> 0" using i8 by (simp add: eq)
  moreover have "vreach bad_dev ex_virtio (([Cache (\<lambda>_. ex_buf), Call 3 True] @ [Tau]) @ [Serve 3]) s'"
  proof (rule vreach_step [OF vreach_step [OF r]])
    show "vstep bad_dev s Tau t" unfolding t_def by (rule vfetch [OF ne])
    show "vstep bad_dev t (Serve 3) s'" by (rule vserve [OF _ s']) (use w in \<open>simp add: t_def\<close>)
  qed
  ultimately show ?thesis by auto
qed

section \<open>Properties\<close>

text \<open>C12. The disk is atomic.  Take any interleaving of the processes in \<^verbatim>\<open>virtio_disk_rw\<close>, of the interrupt handler, of
  the device, which may serve the requests in any order, and of the other users of the buffer cache.
  What can be seen of it is a run of the abstract disk, in which every request takes effect once, as one
  \<open>disk_rw\<close> of its buffer, between its call and its return.\<close>

theorem virtio_atomic:
  assumes "device_reads dev blk" and "device_writes dev blk" and "vidle s0" and "vreach dev s0 ls s"
  shows "\<exists>a. areach (idle_disk blk s0) ls a \<and> sim blk s a"
  using vreach_follows [OF assms(4,1-3)] by blast

theorem virtio_atomic_witness:
  "\<exists>s a. vreach ram_dev ex_virtio [Cache (\<lambda>_. ex_buf), Call 3 True] s \<and>
     areach (idle_disk ram_blk ex_virtio) [Cache (\<lambda>_. ex_buf), Call 3 True] a \<and> sim ram_blk s a"
  using virtio_atomic [OF ram_ok ex_virtio_fields(3)] ex_virtio_run by blast

text \<open>C13. No process is left behind in \<^verbatim>\<open>virtio_disk_rw\<close>: whatever has happened, the requests under way can be completed, by
  steps of the device, of the interrupt handler and of processes that are awake, without any new call.  No
  wakeup is lost, and neither the descriptors nor the rings run out for good.\<close>

theorem virtio_completes:
  assumes "device_reads dev blk" and "device_writes dev blk" and "vidle s0" and "vreach dev s0 ls s"
  shows "\<exists>ls' s'. vreach dev s0 (ls @ ls') s' \<and> (\<forall>p. vpc s' p = Outside) \<and> (\<forall>b w. Call b w \<notin> set ls')"
  using assms by (rule completes)

theorem virtio_completes_witness:
  "\<exists>ls s. vreach ram_dev ex_virtio ([Cache (\<lambda>_. ex_buf), Call 3 True] @ ls) s \<and> (\<forall>p. vpc s p = Outside) \<and> (\<forall>b w. Call b w \<notin> set ls)"
  using virtio_completes [OF ram_ok ex_virtio_fields(3)] ex_virtio_run by blast

text \<open>C14. Only an error of the device stops the driver.  Let the device answer any request with any status and any
  data, in any order: in every reachable state a process that goes on after a sleep and a new call, for a
  buffer that no other process has in the driver, return, and the interrupt handler returns unless one of the
  requests on the used ring has a status other than 0, and panics if one has.  No other panic of
  \<^verbatim>\<open>virtio_disk.c\<close> can be reached after its initialisation: no descriptor is freed twice or out of range, and no
  completion is for a request that the driver does not wait for.\<close>

theorem virtio_no_panic:
  assumes "vidle s0" and "vreach dev s0 ls s"
  shows "(virtio_disk_intr (s\<lparr>cur := None\<rparr>) = None \<longleftrightarrow> (\<exists>h \<in> set (finished s). info_status s ! h \<noteq> 0)) \<and>
    (vpc s p \<noteq> Outside \<longrightarrow> virtio_resume p (schedule p s) \<noteq> None) \<and>
    (vpc s p = Outside \<longrightarrow> p < NPROC \<longrightarrow> (\<forall>q. \<not> busy b (vpc s q)) \<longrightarrow> unat (blockno (bufs s b)) < 2 ^ 31 \<longrightarrow>
       virtio_disk_rw p b w (s\<lparr>cur := Some p\<rparr>) \<noteq> None)"
proof -
  have v: "vinv (\<lambda>_. True) s" by (rule vreach_vinv [OF assms(2,1)])
  have "virtio_disk_intr (s\<lparr>cur := None\<rparr>) = None \<longleftrightarrow> (\<exists>h \<in> set (finished s). info_status s ! h \<noteq> 0)"
    using virtio_intr_returns [OF v] virtio_intr_panics [OF v] by (cases "\<forall>h \<in> set (finished s). info_status s ! h = 0") auto
  then show ?thesis using virtio_resume_ok [OF v, of p] virtio_call_ok [OF v, of p b w] by auto
qed

theorem virtio_no_panic_witness:
  "\<exists>s. vreach bad_dev ex_virtio [Cache (\<lambda>_. ex_buf), Call 3 True, Tau, Serve 3] s \<and> virtio_disk_intr (s\<lparr>cur := None\<rparr>) = None"
  using virtio_no_panic [OF ex_virtio_fields(3)] ex_virtio_error by blast

end
