(* ===== verification/Sh.thy ===== *)
theory Sh
  imports Prelude
begin

text \<open>
  The parser of the shell, \<^verbatim>\<open>user/sh.c\<close>.  The command line is a string without NUL; a pointer into it is a position, and
  the character at the end is the NUL.  A parsed command holds its words as the two pointers of the
  source, the position of the first character and the position after the last; \<^verbatim>\<open>nulterminate\<close> then writes
  NULs into the line.  A parser function that calls \<^verbatim>\<open>panic\<close> gives its message, and it counts its nested calls
  by fuel.
\<close>

section \<open>Commands\<close>

datatype 'a cmd =
    EXEC "'a list"
  | REDIR "'a cmd" 'a int int
  | PIPE "'a cmd" "'a cmd"
  | LIST "'a cmd" "'a cmd"
  | BACK "'a cmd"

type_synonym word_range = "nat \<times> nat"

abbreviation (input) MAXARGS :: nat where "MAXARGS \<equiv> 10"

abbreviation (input) NUL :: char where "NUL \<equiv> CHR 0x00"

section \<open>Tokens\<close>

definition whitespace :: string where
  "whitespace = [CHR 0x20, CHR 0x09, CHR 0x0D, CHR 0x0A, CHR 0x0B]"

definition symbol_chars :: string where
  "symbol_chars = ''<|>&;()''"

text \<open>\<^verbatim>\<open>strchr\<close>, as a test: the end of the string is never found.\<close>

primrec strchr_in :: "string \<Rightarrow> char \<Rightarrow> bool" where
  "strchr_in [] c = False"
| "strchr_in (x # s) c = (x = c \<or> strchr_in s c)"

definition char_at :: "string \<Rightarrow> nat \<Rightarrow> char" where
  "char_at t i = (if i < length t then t ! i else NUL)"

function skip_while :: "(char \<Rightarrow> bool) \<Rightarrow> string \<Rightarrow> nat \<Rightarrow> nat" where
  "skip_while P t i = (if i < length t \<and> P (t ! i) then skip_while P t (Suc i) else i)"
  by auto

termination skip_while
  by (relation "measure (\<lambda>(P, t, i). length t - i)") auto

declare skip_while.simps [simp del]

definition skip_ws :: "string \<Rightarrow> nat \<Rightarrow> nat" where
  "skip_ws t i = skip_while (strchr_in whitespace) t i"

definition word_char :: "char \<Rightarrow> bool" where
  "word_char c = (\<not> strchr_in whitespace c \<and> \<not> strchr_in symbol_chars c)"

text \<open>The token, where its text starts and ends, and where the next one starts.\<close>

definition gettoken :: "string \<Rightarrow> nat \<Rightarrow> char \<times> nat \<times> nat \<times> nat" where
  "gettoken t s =
     (let s = skip_ws t s;
          q = s;
          c = char_at t s;
          (ret, s) =
            (if c = NUL then (NUL, s)
             else if c \<in> set ''|();&<'' then (c, s + 1)
             else if c = CHR ''>'' then (if char_at t (s + 1) = CHR ''>'' then (CHR ''+'', s + 2) else (c, s + 1))
             else (CHR ''a'', skip_while word_char t s))
      in (ret, q, s, skip_ws t s))"

definition peek :: "string \<Rightarrow> nat \<Rightarrow> string \<Rightarrow> bool \<times> nat" where
  "peek t s toks =
     (let s = skip_ws t s in (char_at t s \<noteq> NUL \<and> strchr_in toks (char_at t s), s))"

section \<open>Parsing\<close>

datatype 'a parse = Parsed 'a nat | Panicked string | Unfinished

primrec pbind :: "'a parse \<Rightarrow> ('a \<Rightarrow> nat \<Rightarrow> 'b parse) \<Rightarrow> 'b parse" where
  "pbind (Parsed x i) f = f x i"
| "pbind (Panicked msg) f = Panicked msg"
| "pbind Unfinished f = Unfinished"

lemma pbind_cong [fundef_cong]:
  "m = m' \<Longrightarrow> (\<And>x i. m' = Parsed x i \<Longrightarrow> f x i = g x i) \<Longrightarrow> pbind m f = pbind m' g"
  by (cases m') simp_all

lemma skip_while_step:
  "i < length t \<Longrightarrow> P (t ! i) \<Longrightarrow> skip_while P t i = skip_while P t (Suc i)"
  "\<not> (i < length t \<and> P (t ! i)) \<Longrightarrow> skip_while P t i = i"
  by (auto simp: skip_while.simps [of P t i])

lemma skip_while_spec:
  "i \<le> skip_while P t i \<and> (i \<le> length t \<longrightarrow> skip_while P t i \<le> length t) \<and>
   (skip_while P t i < length t \<longrightarrow> \<not> P (t ! skip_while P t i)) \<and> (\<forall>j. i \<le> j \<and> j < skip_while P t i \<longrightarrow> P (t ! j))"
proof (induction P t i rule: skip_while.induct)
  case (1 P t i)
  show ?case
  proof (cases "i < length t \<and> P (t ! i)")
    case True
    then have e: "skip_while P t i = skip_while P t (Suc i)" using skip_while_step(1) by blast
    have "P (t ! j)" if "i \<le> j" "j < skip_while P t (Suc i)" for j
      using that 1 [OF True] True by (cases "j = i") auto
    then show ?thesis unfolding e using 1 [OF True] True by simp
  next
    case False
    then have "skip_while P t i = i" by (rule skip_while_step(2))
    then show ?thesis using False by auto
  qed
qed

lemma skip_while_le: "i \<le> skip_while P t i"
  using skip_while_spec by blast

lemma skip_while_bound: "i \<le> length t \<Longrightarrow> skip_while P t i \<le> length t"
  using skip_while_spec by blast

lemma skip_while_stops: "skip_while P t i < length t \<Longrightarrow> \<not> P (t ! skip_while P t i)"
  using skip_while_spec by blast

lemma skip_while_all: "i \<le> j \<Longrightarrow> j < skip_while P t i \<Longrightarrow> P (t ! j)"
  using skip_while_spec by blast

lemma char_at_in: "char_at t i \<noteq> NUL \<Longrightarrow> i < length t"
  by (auto simp: char_at_def split: if_splits)

lemma skip_ws_idem: "skip_ws t (skip_ws t i) = skip_ws t i"
proof -
  have "skip_while P t (skip_while P t i) = skip_while P t i" for P
    by (rule skip_while_step(2)) (use skip_while_stops [of P t i] in auto)
  then show ?thesis by (simp add: skip_ws_def)
qed

lemma gettoken_advances:
  assumes "gettoken t s = (ret, q, eq, s')" and "ret \<noteq> NUL"
  shows "skip_ws t s < s'" and "skip_ws t s < length t" and "s' \<le> length t"
proof -
  let ?p = "skip_ws t s"
  have c: "char_at t ?p \<noteq> NUL" using assms by (auto simp: gettoken_def Let_def)
  show b: "?p < length t" by (rule char_at_in [OF c])
  have w: "?p < skip_while word_char t ?p" if "c = char_at t ?p" "c \<notin> set ''|();&<''" "c \<noteq> CHR ''>''" for c
  proof -
    have "\<not> strchr_in whitespace (t ! ?p)" using skip_while_stops [of "strchr_in whitespace" t s] b by (simp add: skip_ws_def)
    then have "word_char (t ! ?p)" using that b by (auto simp: word_char_def symbol_chars_def char_at_def)
    then show ?thesis using b skip_while_le [of "Suc ?p" word_char t] skip_while_step(1) [of ?p t word_char] by simp
  qed
  have e: "?p < eq \<and> eq \<le> length t \<and> s' = skip_ws t eq"
    using assms(1) c b w [OF refl] char_at_in [of t "Suc ?p"] skip_while_bound [of ?p t word_char]
    by (auto simp: gettoken_def Let_def split: if_splits)
  then show "?p < s'" "s' \<le> length t"
    using skip_while_le [of eq "strchr_in whitespace" t] skip_while_bound [of eq t "strchr_in whitespace"] by (auto simp: skip_ws_def)
qed

lemma peek_gettoken:
  assumes "peek t s toks = (True, s1)" and "gettoken t s1 = (ret, q, eq, s')"
  shows "s1 < s'" and "s' \<le> length t" and "s \<le> s1"
proof -
  have s1: "s1 = skip_ws t s" "char_at t s1 \<noteq> NUL" using assms(1) by (auto simp: peek_def Let_def)
  have p: "skip_ws t s1 = s1" using s1(1) skip_ws_idem by simp
  have "ret \<noteq> NUL" using assms(2) s1(2) p by (auto simp: gettoken_def Let_def split: if_splits)
  from gettoken_advances [OF assms(2) this] show "s1 < s'" "s' \<le> length t" by (simp_all add: p)
  show "s \<le> s1" unfolding s1 skip_ws_def by (rule skip_while_le)
qed

lemma two_tokens:
  assumes "peek t s toks = (True, s1)" and "gettoken t s1 = (r, q, eq, s2)" and "gettoken t s2 = (CHR ''a'', q', eq', s3)"
  shows "length t - s3 < length t - s"
proof -
  have "s \<le> s1" "s1 < s2" "s2 \<le> length t" using peek_gettoken [OF assms(1,2)] by simp_all
  moreover have "skip_ws t s2 < s3" using gettoken_advances(1) [OF assms(3)] by simp
  moreover have "s2 \<le> skip_ws t s2" unfolding skip_ws_def by (rule skip_while_le)
  ultimately show ?thesis by simp
qed

text \<open>\<^verbatim>\<open>parseredirs\<close>: the redirections of a command, which the source wraps around it in this order.\<close>

type_synonym redir = "word_range \<times> int \<times> int"

function parseredirs :: "string \<Rightarrow> nat \<Rightarrow> redir list parse" where
  "parseredirs t i =
     (let (b, i) = peek t i ''<>''
      in if \<not> b then Parsed [] i
         else let (tok, _, _, i) = gettoken t i;
                  (ret, q, eq, i) = gettoken t i
              in if ret \<noteq> CHR ''a'' then Panicked ''missing file for redirection''
                 else let r = (if tok = CHR ''<'' then ((q, eq), 0x000, 0)
                               else if tok = CHR ''>'' then ((q, eq), 0x601, 1)
                               else ((q, eq), 0x201, 1))
                      in pbind (parseredirs t i) (\<lambda>rs i. Parsed (r # rs) i))"
  by pat_completeness auto

termination parseredirs
proof (relation "measure (\<lambda>(t, i). length t - i)", goal_cases)
  case 1
  show ?case by simp
next
  case (2 t i x b i1 y tok u q1 v q2 i2 z ret u' q v' eq i3 r)
  then have "peek t i ''<>'' = (True, i1)" "gettoken t i1 = (tok, q1, q2, i2)" "gettoken t i2 = (CHR ''a'', q, eq, i3)" by auto
  from two_tokens [OF this] show ?case by simp
qed

declare parseredirs.simps [simp del]

lemma pbind_Parsed: "pbind m f = Parsed y j \<longleftrightarrow> (\<exists>x i. m = Parsed x i \<and> f x i = Parsed y j)"
  by (cases m) simp_all

lemma peek_le: "peek t s toks = (b, s') \<Longrightarrow> s \<le> s' \<and> s' = skip_ws t s"
  using skip_while_le [of s "strchr_in whitespace" t] by (auto simp: peek_def Let_def skip_ws_def)

lemma parseredirs_le: "parseredirs t i = Parsed rs j \<Longrightarrow> i \<le> j"
proof (induction t i arbitrary: rs j rule: parseredirs.induct)
  case (1 t i)
  obtain b i1 where p: "peek t i ''<>'' = (b, i1)" by force
  show ?case
  proof (cases b)
    case False
    then show ?thesis using 1(2) p peek_le [OF p] by (simp add: parseredirs.simps [of t i])
  next
    case True
    obtain tok q1 q2 i2 where g: "gettoken t i1 = (tok, q1, q2, i2)" by (metis prod_cases4)
    obtain ret q eq i3 where h: "gettoken t i2 = (ret, q, eq, i3)" by (metis prod_cases4)
    have a: "ret = CHR ''a''" using 1(2) p g h True by (simp add: parseredirs.simps [of t i] split: if_splits)
    then obtain rs' where rs': "parseredirs t i3 = Parsed rs' j"
      using 1(2) p g h True by (auto simp: parseredirs.simps [of t i] pbind_Parsed Let_def)
    have "i3 \<le> j" by (rule 1(1) [OF p [symmetric] refl _ g [symmetric] refl refl refl h [symmetric] refl refl refl _ _ rs']) (use True a in simp_all)
    moreover have "length t - i3 < length t - i" using two_tokens p g h True a by auto
    ultimately show ?thesis by simp
  qed
qed

text \<open>The \<open>&\<close> after a command.\<close>

function parse_backs :: "string \<Rightarrow> word_range cmd \<Rightarrow> nat \<Rightarrow> word_range cmd \<times> nat" where
  "parse_backs t c i =
     (let (b, i) = peek t i ''&''
      in if b then let (_, _, _, i) = gettoken t i in parse_backs t (BACK c) i else (c, i))"
  by pat_completeness auto

termination parse_backs
proof (relation "measure (\<lambda>(t, c, i). length t - i)", goal_cases)
  case 1
  show ?case by simp
next
  case (2 t c i x b i1 y tok u q v eq i2)
  then have "peek t i ''&'' = (True, i1)" "gettoken t i1 = (tok, q, eq, i2)" by auto
  from peek_gettoken [OF this] show ?case by simp
qed

declare parse_backs.simps [simp del]

text \<open>The words and redirections of a simple command.  The redirections wrap the command, whose words are
  stored through the pointer that is inside them.\<close>

function parse_args :: "string \<Rightarrow> word_range list \<Rightarrow> redir list \<Rightarrow> nat \<Rightarrow> (word_range list \<times> redir list) parse" where
  "parse_args t args rs i =
     (let (b, i) = peek t i ''|)&;''
      in if b then Parsed (args, rs) i
         else let (tok, q, eq, i) = gettoken t i
              in if tok = NUL then Parsed (args, rs) i
                 else if tok \<noteq> CHR ''a'' then Panicked ''syntax''
                 else let args = args @ [(q, eq)]
                      in if MAXARGS \<le> length args then Panicked ''too many args''
                         else pbind (parseredirs t i) (\<lambda>rs' i. parse_args t args (rs @ rs') i))"
  by pat_completeness auto

termination parse_args
proof (relation "measure (\<lambda>(t, args, rs, i). length t - i)", goal_cases)
  case 1
  show ?case by simp
next
  case (2 t args rs i x b i1 y tok u q v eq i2 args' rs' i3)
  then have g: "gettoken t i1 = (CHR ''a'', q, eq, i2)" "peek t i ''|)&;'' = (b, i1)" "parseredirs t i2 = Parsed rs' i3" by auto
  have "i \<le> i1" "i1 \<le> skip_ws t i1" using peek_le [OF g(2)] skip_while_le by (auto simp: skip_ws_def)
  moreover have "skip_ws t i1 < i2" "skip_ws t i1 < length t" using gettoken_advances [OF g(1)] by simp_all
  moreover have "i2 \<le> i3" by (rule parseredirs_le [OF g(3)])
  ultimately show ?case by simp
qed

declare parse_args.simps [simp del]

definition wrap_redirs :: "'a cmd \<Rightarrow> ('a \<times> int \<times> int) list \<Rightarrow> 'a cmd" where
  "wrap_redirs c rs = fold (\<lambda>(f, mode, fd) c. REDIR c f mode fd) rs c"

text \<open>The grammar: a line is a pipeline with \<open>&\<close>s and an optional \<open>;\<close> and line; a pipeline is a command with an
  optional \<open>|\<close> and pipeline; a command is a simple command or a block in parentheses.\<close>

fun parseline :: "nat \<Rightarrow> string \<Rightarrow> nat \<Rightarrow> word_range cmd parse"
  and parsepipe :: "nat \<Rightarrow> string \<Rightarrow> nat \<Rightarrow> word_range cmd parse"
  and parseblock :: "nat \<Rightarrow> string \<Rightarrow> nat \<Rightarrow> word_range cmd parse"
  and parseexec :: "nat \<Rightarrow> string \<Rightarrow> nat \<Rightarrow> word_range cmd parse" where
  "parseline 0 t i = Unfinished"
| "parseline (Suc n) t i =
     pbind (parsepipe n t i) (\<lambda>c i.
       let (c, i) = parse_backs t c i;
           (b, i) = peek t i '';''
       in if b then let (_, _, _, i) = gettoken t i in pbind (parseline n t i) (\<lambda>c' i. Parsed (LIST c c') i)
          else Parsed c i)"
| "parsepipe 0 t i = Unfinished"
| "parsepipe (Suc n) t i =
     pbind (parseexec n t i) (\<lambda>c i.
       let (b, i) = peek t i ''|''
       in if b then let (_, _, _, i) = gettoken t i in pbind (parsepipe n t i) (\<lambda>c' i. Parsed (PIPE c c') i)
          else Parsed c i)"
| "parseblock 0 t i = Unfinished"
| "parseblock (Suc n) t i =
     (let (b, i) = peek t i ''(''
      in if \<not> b then Panicked ''parseblock''
         else let (_, _, _, i) = gettoken t i
              in pbind (parseline n t i) (\<lambda>c i.
                   let (b, i) = peek t i '')''
                   in if \<not> b then Panicked ''syntax - missing )''
                      else let (_, _, _, i) = gettoken t i
                           in pbind (parseredirs t i) (\<lambda>rs i. Parsed (wrap_redirs c rs) i)))"
| "parseexec 0 t i = Unfinished"
| "parseexec (Suc n) t i =
     (let (b, i) = peek t i ''(''
      in if b then parseblock n t i
         else pbind (parseredirs t i) (\<lambda>rs i.
                pbind (parse_args t [] rs i) (\<lambda>(args, rs) i. Parsed (wrap_redirs (EXEC args) rs) i)))"

text \<open>Four nested calls for every character are enough.\<close>

definition parse_fuel :: "string \<Rightarrow> nat" where
  "parse_fuel t = 4 * length t + 4"

text \<open>\<^verbatim>\<open>nulterminate\<close> on the buffer that holds the line.\<close>

definition put_nuls :: "word_range list \<Rightarrow> string \<Rightarrow> string" where
  "put_nuls ws buf = fold (\<lambda>(q, eq) buf. buf[eq := NUL]) ws buf"

primrec nulterminate :: "word_range cmd \<Rightarrow> string \<Rightarrow> string" where
  "nulterminate (EXEC args) buf = put_nuls args buf"
| "nulterminate (REDIR c f mode fd) buf = put_nuls [f] (nulterminate c buf)"
| "nulterminate (PIPE c c') buf = nulterminate c' (nulterminate c buf)"
| "nulterminate (LIST c c') buf = nulterminate c' (nulterminate c buf)"
| "nulterminate (BACK c) buf = nulterminate c buf"

definition parsecmd :: "string \<Rightarrow> (word_range cmd \<times> string) parse" where
  "parsecmd t =
     pbind (parseline (parse_fuel t) t 0) (\<lambda>c i.
       let (_, i) = peek t i []
       in if i \<noteq> length t then Panicked (''leftovers: '' @ drop i t @ [CHR 0x0A] @ ''syntax'') else Parsed (c, nulterminate c (t @ [NUL])) i)"

end
