(* ===== verification/ShRun.thy ===== *)
theory ShRun
  imports Sh
begin

text \<open>
  The execution of commands, \<^verbatim>\<open>runcmd\<close> and \<^verbatim>\<open>main\<close> of \<^verbatim>\<open>user/sh.c\<close>.  A process is the tree of what it does next: it
  replaces itself by a program with its table of descriptors, exits, prints, forks (the child first), waits or changes its
  directory.
  The calls on descriptors (\<^verbatim>\<open>close\<close>, \<^verbatim>\<open>dup\<close>, \<^verbatim>\<open>open\<close>, \<^verbatim>\<open>pipe\<close>) act on the table, with the lowest free
  number for a new one, as the kernel's \<^verbatim>\<open>fdalloc\<close> gives it.  Whether a call succeeds is a
  parameter.
\<close>

section \<open>Descriptors\<close>

text \<open>What a descriptor stands for: an end of the pipe that the process at a place in the tree of processes made, an
  opened file, or something the shell was started with.\<close>

datatype fobj = PipeR "nat list" | PipeW "nat list" | File string int | Given nat

type_synonym fds = "fobj option list"

primrec lowest_free :: "'a option list \<Rightarrow> nat option" where
  "lowest_free [] = None"
| "lowest_free (x # xs) = (case x of None \<Rightarrow> Some 0 | Some _ \<Rightarrow> map_option Suc (lowest_free xs))"

definition fd_close :: "int \<Rightarrow> fds \<Rightarrow> fds" where
  "fd_close fd t = (if 0 \<le> fd \<and> nat fd < length t then t[nat fd := None] else t)"

definition fd_new :: "fobj \<Rightarrow> fds \<Rightarrow> int \<times> fds" where
  "fd_new x t = (case lowest_free t of None \<Rightarrow> (- 1, t) | Some i \<Rightarrow> (int i, t[i := Some x]))"

definition fd_dup :: "int \<Rightarrow> fds \<Rightarrow> int \<times> fds" where
  "fd_dup fd t =
     (if 0 \<le> fd \<and> nat fd < length t then (case t ! nat fd of None \<Rightarrow> (- 1, t) | Some x \<Rightarrow> fd_new x t) else (- 1, t))"

record sh_env =
  open_ok :: "string \<Rightarrow> int \<Rightarrow> bool"
  pipe_ok :: "nat list \<Rightarrow> bool"
  fork_ok :: "nat list \<Rightarrow> bool"
  exec_ok :: "string \<Rightarrow> string list \<Rightarrow> bool"
  chdir_ok :: "string \<Rightarrow> bool"

definition fd_open :: "sh_env \<Rightarrow> string \<Rightarrow> int \<Rightarrow> fds \<Rightarrow> int \<times> fds" where
  "fd_open e f mode t = (if open_ok e f mode then fd_new (File f mode) t else (- 1, t))"

definition fd_pipe :: "sh_env \<Rightarrow> nat list \<Rightarrow> fds \<Rightarrow> (int \<times> int \<times> fds) option" where
  "fd_pipe e me t =
     (if \<not> pipe_ok e me then None
      else let (r, t') = fd_new (PipeR me) t; (w, t') = fd_new (PipeW me) t'
           in if r < 0 \<or> w < 0 then None else Some (r, w, t'))"

section \<open>Processes\<close>

text \<open>\<open>Says\<close> is a line printed on descriptor 2, \<open>Waits\<close> a call of \<^verbatim>\<open>wait\<close> with the descriptors the process has open
  meanwhile.\<close>

datatype ptree =
    Execs string "string list" fds
  | Quits int
  | Says string ptree
  | Forks ptree ptree
  | Waits fds ptree
  | Chdirs string ptree

text \<open>\<^verbatim>\<open>panic\<close> prints its message and exits; \<^verbatim>\<open>fork1\<close> panics when \<^verbatim>\<open>fork\<close> fails.  The children of the process \<open>me\<close> are
  \<open>me @ [0]\<close>, \<open>me @ [1]\<close> and so on.\<close>

definition panic_exit :: "string \<Rightarrow> ptree" where
  "panic_exit msg = Says msg (Quits 1)"

definition fork1 :: "sh_env \<Rightarrow> nat list \<Rightarrow> ptree \<Rightarrow> ptree \<Rightarrow> ptree" where
  "fork1 e child c p = (if fork_ok e child then Forks c p else panic_exit ''fork'')"

primrec runcmd :: "sh_env \<Rightarrow> string cmd \<Rightarrow> nat list \<Rightarrow> fds \<Rightarrow> ptree" where
  "runcmd e (EXEC argv) me t =
     (case argv of
        [] \<Rightarrow> Quits 1
      | f # _ \<Rightarrow> if exec_ok e f argv then Execs f argv t else Says (''exec '' @ f @ '' failed'') (Quits 0))"
| "runcmd e (REDIR c f mode fd) me t =
     (let t = fd_close fd t;
          (r, t) = fd_open e f mode t
      in if r < 0 then Says (''open '' @ f @ '' failed'') (Quits 1) else runcmd e c me t)"
| "runcmd e (LIST c c') me t =
     fork1 e (me @ [0]) (runcmd e c (me @ [0]) t) (Waits t (runcmd e c' me t))"
| "runcmd e (PIPE c c') me t =
     (case fd_pipe e me t of
        None \<Rightarrow> panic_exit ''pipe''
      | Some (p0, p1, t) \<Rightarrow>
          fork1 e (me @ [0])
            (let t = fd_close 1 t; (_, t) = fd_dup p1 t; t = fd_close p0 t; t = fd_close p1 t in runcmd e c (me @ [0]) t)
            (fork1 e (me @ [1])
              (let t = fd_close 0 t; (_, t) = fd_dup p0 t; t = fd_close p0 t; t = fd_close p1 t in runcmd e c' (me @ [1]) t)
              (let t = fd_close p0 t; t = fd_close p1 t in Waits t (Waits t (Quits 0)))))"
| "runcmd e (BACK c) me t = fork1 e (me @ [0]) (runcmd e c (me @ [0]) t) (Quits 0)"

section \<open>The main loop\<close>

text \<open>\<^verbatim>\<open>gets\<close> of \<^verbatim>\<open>user/ulib.c\<close>: the line that a buffer of \<open>nbuf\<close> bytes receives (its end is marked by a zero), and
  the input that is left.  The input is what successive \<^verbatim>\<open>read\<close>s of a byte return before the end of the file.\<close>

fun gets_loop :: "nat \<Rightarrow> string \<Rightarrow> string \<times> string" where
  "gets_loop 0 inp = ([], inp)"
| "gets_loop (Suc n) [] = ([], [])"
| "gets_loop (Suc n) (c # inp) =
     (if c = CHR 0x0A \<or> c = CHR 0x0D then ([c], inp)
      else let (buf, inp) = gets_loop n inp in (c # buf, inp))"

definition gets :: "nat \<Rightarrow> string \<Rightarrow> string \<times> string" where
  "gets nbuf inp = gets_loop (nbuf - 1) inp"

lemma gets_loop_append: "gets_loop n inp = (buf, inp') \<Longrightarrow> inp = buf @ inp'"
  by (induction n inp arbitrary: buf inp' rule: gets_loop.induct) (auto split: if_splits prod.splits)

definition getcmd :: "string \<Rightarrow> string option \<times> string" where
  "getcmd inp =
     (let (buf, inp) = gets 100 inp; buf = takeWhile (\<lambda>c. c \<noteq> NUL) buf
      in (if buf = [] then None else Some buf, inp))"

lemma getcmd_consumes: "getcmd inp = (Some buf, inp') \<Longrightarrow> length inp' < length inp"
  by (auto simp: getcmd_def gets_def Let_def dest!: gets_loop_append split: prod.splits if_splits)

text \<open>The child that runs a line.  (The parser never returns \<^const>\<open>Unfinished\<close>.)\<close>

definition sh_child :: "sh_env \<Rightarrow> nat list \<Rightarrow> fds \<Rightarrow> string \<Rightarrow> ptree" where
  "sh_child e me t line =
     (case parsecmd line of
        Parsed (c, buf) _ \<Rightarrow> runcmd e (map_cmd (\<lambda>r. takeWhile (\<lambda>c. c \<noteq> NUL) (drop (fst r) buf)) c) me t
      | Panicked msg \<Rightarrow> panic_exit msg
      | Unfinished \<Rightarrow> panic_exit [])"

text \<open>The shell reads lines until the end of the input or an empty string; \<open>n\<close> counts its children.\<close>

function sh_loop :: "sh_env \<Rightarrow> nat \<Rightarrow> fds \<Rightarrow> string \<Rightarrow> ptree" where
  "sh_loop e n t inp =
     (case getcmd inp of
        (None, _) \<Rightarrow> Quits 0
      | (Some buf, inp) \<Rightarrow>
          if take 3 buf = ''cd '' then
            (let dir = drop 3 (butlast buf)
             in Chdirs dir (if chdir_ok e dir then sh_loop e n t inp
                            else Says (''cannot cd '' @ dir) (sh_loop e n t inp)))
          else fork1 e [n] (sh_child e [n] t buf) (Waits t (sh_loop e (Suc n) t inp)))"
  by pat_completeness auto

termination sh_loop
  by (relation "measure (\<lambda>(e, n, t, inp). length inp)") (simp_all add: getcmd_consumes [OF sym])

declare sh_loop.simps [simp del]

text \<open>Before it, the shell opens the console until the three standard descriptors are in use.\<close>

definition free_count :: "fds \<Rightarrow> nat" where
  "free_count t = length (filter (\<lambda>x. x = None) t)"

lemma free_count_take: "t ! i = None \<Longrightarrow> i < length t \<Longrightarrow> free_count t = Suc (free_count (t[i := Some y]))"
  unfolding free_count_def
proof (induction t arbitrary: i)
  case (Cons a t)
  then show ?case by (cases i) auto
qed simp

lemma lowest_free_Some:
  "lowest_free t = Some i \<longleftrightarrow> i < length t \<and> t ! i = None \<and> (\<forall>j<i. t ! j \<noteq> None)"
proof (induction t arbitrary: i)
  case (Cons x t)
  show ?case
  proof (cases x)
    case None
    then show ?thesis by (cases i) auto
  next
    case (Some y)
    show ?thesis
    proof (cases i)
      case 0
      then show ?thesis using Some by auto
    next
      case (Suc k)
      have "(\<forall>j<Suc k. (x # t) ! j \<noteq> None) \<longleftrightarrow> (\<forall>j<k. t ! j \<noteq> None)"
        using Some by (auto simp: less_Suc_eq_0_disj)
      then show ?thesis using Cons [of k] Some Suc by auto
    qed
  qed
qed simp

lemma fd_open_free: "fd_open e f mode t = (fd, t') \<Longrightarrow> 0 \<le> fd \<Longrightarrow> free_count t' < free_count t"
  by (auto simp: fd_open_def fd_new_def lowest_free_Some free_count_take [of t _ "File f mode"]
      split: if_splits option.splits)

function open_console :: "sh_env \<Rightarrow> fds \<Rightarrow> fds" where
  "open_console e t =
     (let (fd, t) = fd_open e ''console'' 0x002 t
      in if fd < 0 then t else if 3 \<le> fd then fd_close fd t else open_console e t)"
  by pat_completeness auto

termination open_console
  by (relation "measure (\<lambda>(e, t). free_count t)") (auto simp: fd_open_free [OF sym])

declare open_console.simps [simp del]

definition sh_main :: "sh_env \<Rightarrow> fds \<Rightarrow> string \<Rightarrow> ptree" where
  "sh_main e t inp = sh_loop e 0 (open_console e t) inp"

end
