(* ===== verification/ShSpec.thy ===== *)
theory ShSpec
  imports Sh
begin

text \<open>
  The shell's parser: it ends on every line, the words it finds are what the command gets after
  \<^verbatim>\<open>nulterminate\<close>, and it is the inverse of a printer of commands.
\<close>

section \<open>Positions\<close>

lemma gettoken_le: "gettoken t s = (ret, q, eq, s') \<Longrightarrow> s \<le> s'"
proof -
  assume g: "gettoken t s = (ret, q, eq, s')"
  have p: "s \<le> skip_ws t s" by (simp add: skip_ws_def skip_while_le)
  show "s \<le> s'"
  proof (cases "ret = NUL")
    case True
    then have "s' = skip_ws t (skip_ws t s)" using g by (auto simp: gettoken_def Let_def split: if_splits)
    then show ?thesis using p by (simp add: skip_ws_idem)
  next
    case False
    then show ?thesis using gettoken_advances(1) [OF g False] p by simp
  qed
qed

lemma parse_backs_le: "parse_backs t c i = (c', j) \<Longrightarrow> i \<le> j"
proof (induction t c i arbitrary: c' j rule: parse_backs.induct)
  case (1 t c i)
  obtain b i1 where p: "peek t i ''&'' = (b, i1)" by force
  obtain tok q eq i2 where g: "gettoken t i1 = (tok, q, eq, i2)" by (metis prod_cases4)
  show ?case
  proof (cases b)
    case True
    then have "parse_backs t (BACK c) i2 = (c', j)" using 1(2) p g by (simp add: parse_backs.simps [of t c i])
    with 1(1) [OF p [symmetric] refl True g [symmetric] refl refl refl] have "i2 \<le> j" .
    then show ?thesis using gettoken_le [OF g] peek_le [OF p] by simp
  next
    case False
    then show ?thesis using 1(2) p peek_le [OF p] by (simp add: parse_backs.simps [of t c i])
  qed
qed

lemma parse_args_le: "parse_args t args rs i = Parsed r j \<Longrightarrow> i \<le> j"
proof (induction t args rs i arbitrary: r j rule: parse_args.induct)
  case (1 t args rs i)
  obtain b i1 where p: "peek t i ''|)&;'' = (b, i1)" by force
  obtain tok q eq i2 where g: "gettoken t i1 = (tok, q, eq, i2)" by (metis prod_cases4)
  have le: "i \<le> i1" "i1 \<le> i2" using peek_le [OF p] gettoken_le [OF g] by simp_all
  show ?case
  proof (cases "b \<or> tok = NUL")
    case True
    then show ?thesis using 1(2) p g le by (cases b) (auto simp: parse_args.simps [of t args rs i])
  next
    case False
    then have a: "\<not> b" "tok \<noteq> NUL" "\<not> tok \<noteq> CHR ''a''" "\<not> MAXARGS \<le> length (args @ [(q, eq)])"
      using 1(2) p g by (auto simp: parse_args.simps [of t args rs i] split: if_splits)
    then obtain rs' i3 where h: "parseredirs t i2 = Parsed rs' i3" "parse_args t (args @ [(q, eq)]) (rs @ rs') i3 = Parsed r j"
      using 1(2) p g by (auto simp: parse_args.simps [of t args rs i] pbind_Parsed Let_def)
    have "i3 \<le> j"
      by (rule 1(1) [OF p [symmetric] refl a(1) g [symmetric] refl refl refl a(2,3) refl a(4) h(1) h(2)])
    then show ?thesis using parseredirs_le [OF h(1)] le by simp
  qed
qed

text \<open>What a call that returned has done.\<close>

lemma parseline_returns:
  "parseline (Suc n) t i = Parsed c j \<longleftrightarrow>
     (\<exists>c1 i1 c2 i2 b i3. parsepipe n t i = Parsed c1 i1 \<and> parse_backs t c1 i1 = (c2, i2) \<and> peek t i2 '';'' = (b, i3) \<and>
        (if b then \<exists>c3. parseline n t (snd (snd (snd (gettoken t i3)))) = Parsed c3 j \<and> c = LIST c2 c3 else c = c2 \<and> j = i3))"
  by (auto simp: pbind_Parsed Let_def split_beta prod_eq_iff)

lemma parsepipe_returns:
  "parsepipe (Suc n) t i = Parsed c j \<longleftrightarrow>
     (\<exists>c1 i1 b i2. parseexec n t i = Parsed c1 i1 \<and> peek t i1 ''|'' = (b, i2) \<and>
        (if b then \<exists>c2. parsepipe n t (snd (snd (snd (gettoken t i2)))) = Parsed c2 j \<and> c = PIPE c1 c2 else c = c1 \<and> j = i2))"
  by (auto simp: pbind_Parsed Let_def split_beta prod_eq_iff)

lemma parseblock_returns:
  "parseblock (Suc n) t i = Parsed c j \<longleftrightarrow>
     (\<exists>i1 c1 i2 i3 rs. peek t i ''('' = (True, i1) \<and> parseline n t (snd (snd (snd (gettoken t i1)))) = Parsed c1 i2 \<and>
        peek t i2 '')'' = (True, i3) \<and> parseredirs t (snd (snd (snd (gettoken t i3)))) = Parsed rs j \<and> c = wrap_redirs c1 rs)"
  by (auto simp: pbind_Parsed Let_def split_beta prod_eq_iff)

lemma parseexec_returns:
  "parseexec (Suc n) t i = Parsed c j \<longleftrightarrow>
     (\<exists>b i1. peek t i ''('' = (b, i1) \<and>
        (if b then parseblock n t i1 = Parsed c j
         else \<exists>rs i2 args rs'. parseredirs t i1 = Parsed rs i2 \<and> parse_args t [] rs i2 = Parsed (args, rs') j \<and> c = wrap_redirs (EXEC args) rs'))"
  by (auto simp: pbind_Parsed Let_def split_beta prod_eq_iff)

lemma token_end_le: "s \<le> snd (snd (snd (gettoken t s)))"
  using gettoken_le [of t s] by (cases "gettoken t s") auto

lemma token_end_less:
  assumes "peek t s toks = (True, s1)"
  shows "length t - snd (snd (snd (gettoken t s1))) < length t - s"
proof -
  obtain ret q eq s2 where g: "gettoken t s1 = (ret, q, eq, s2)" by (metis prod_cases4)
  show ?thesis using peek_gettoken [OF assms g] g by simp
qed

lemma parse_le:
  "(\<forall>t i c j. parseline n t i = Parsed c j \<longrightarrow> i \<le> j) \<and> (\<forall>t i c j. parsepipe n t i = Parsed c j \<longrightarrow> i \<le> j) \<and>
   (\<forall>t i c j. parseblock n t i = Parsed c j \<longrightarrow> i \<le> j) \<and> (\<forall>t i c j. parseexec n t i = Parsed c j \<longrightarrow> i \<le> j)"
proof (induction n)
  case 0
  show ?case by simp
next
  case (Suc n)
  have IH: "\<And>t i c j. parseline n t i = Parsed c j \<Longrightarrow> i \<le> j" "\<And>t i c j. parsepipe n t i = Parsed c j \<Longrightarrow> i \<le> j"
    "\<And>t i c j. parseblock n t i = Parsed c j \<Longrightarrow> i \<le> j" "\<And>t i c j. parseexec n t i = Parsed c j \<Longrightarrow> i \<le> j" using Suc.IH by blast+
  show ?case
  proof (intro conjI allI impI)
    fix t i c j assume "parseline (Suc n) t i = Parsed c j"
    then obtain c1 i1 c2 i2 b i3 where 1: "parsepipe n t i = Parsed c1 i1" "parse_backs t c1 i1 = (c2, i2)" "peek t i2 '';'' = (b, i3)"
        "if b then \<exists>c3. parseline n t (snd (snd (snd (gettoken t i3)))) = Parsed c3 j \<and> c = LIST c2 c3 else c = c2 \<and> j = i3"
      unfolding parseline_returns by blast
    have "i \<le> i3" using IH(2) [OF 1(1)] parse_backs_le [OF 1(2)] peek_le [OF 1(3)] by simp
    moreover have "i3 \<le> j" using 1(4) token_end_le [of i3 t] IH(1) [of t "snd (snd (snd (gettoken t i3)))"] by (auto split: if_splits intro: order_trans)
    ultimately show "i \<le> j" by simp
  next
    fix t i c j assume "parsepipe (Suc n) t i = Parsed c j"
    then obtain c1 i1 b i2 where 1: "parseexec n t i = Parsed c1 i1" "peek t i1 ''|'' = (b, i2)"
        "if b then \<exists>c2. parsepipe n t (snd (snd (snd (gettoken t i2)))) = Parsed c2 j \<and> c = PIPE c1 c2 else c = c1 \<and> j = i2"
      unfolding parsepipe_returns by blast
    have "i \<le> i2" using IH(4) [OF 1(1)] peek_le [OF 1(2)] by simp
    moreover have "i2 \<le> j" using 1(3) token_end_le [of i2 t] IH(2) [of t "snd (snd (snd (gettoken t i2)))"] by (auto split: if_splits intro: order_trans)
    ultimately show "i \<le> j" by simp
  next
    fix t i c j assume "parseblock (Suc n) t i = Parsed c j"
    then obtain i1 c1 i2 i3 rs where 1: "peek t i ''('' = (True, i1)" "parseline n t (snd (snd (snd (gettoken t i1)))) = Parsed c1 i2"
        "peek t i2 '')'' = (True, i3)" "parseredirs t (snd (snd (snd (gettoken t i3)))) = Parsed rs j" unfolding parseblock_returns by blast
    then show "i \<le> j"
      using peek_le [OF 1(1)] token_end_le [of i1 t] IH(1) [OF 1(2)] peek_le [OF 1(3)] token_end_le [of i3 t] parseredirs_le [OF 1(4)] by simp
  next
    fix t i c j assume "parseexec (Suc n) t i = Parsed c j"
    then obtain b i1 where 1: "peek t i ''('' = (b, i1)" "if b then parseblock n t i1 = Parsed c j
         else \<exists>rs i2 args rs'. parseredirs t i1 = Parsed rs i2 \<and> parse_args t [] rs i2 = Parsed (args, rs') j \<and> c = wrap_redirs (EXEC args) rs'"
      unfolding parseexec_returns by blast
    have "i1 \<le> j" using 1(2) IH(3) [of t i1 c j] parseredirs_le [of t i1] parse_args_le by (cases b) (auto, fastforce intro: order_trans)
    then show "i \<le> j" using peek_le [OF 1(1)] by simp
  qed
qed

section \<open>Termination\<close>

lemma pbind_Unfinished: "pbind m f = Unfinished \<longleftrightarrow> m = Unfinished \<or> (\<exists>x i. m = Parsed x i \<and> f x i = Unfinished)"
  by (cases m) simp_all

lemma parseredirs_finishes: "parseredirs t i \<noteq> Unfinished"
proof (induction t i rule: parseredirs.induct)
  case (1 t i)
  obtain b i1 where p: "peek t i ''<>'' = (b, i1)" by force
  obtain tok q1 q2 i2 where g: "gettoken t i1 = (tok, q1, q2, i2)" by (metis prod_cases4)
  obtain ret q eq i3 where h: "gettoken t i2 = (ret, q, eq, i3)" by (metis prod_cases4)
  show ?case
  proof (cases "b \<and> ret = CHR ''a''")
    case True
    have "parseredirs t i3 \<noteq> Unfinished"
      by (rule 1 [OF p [symmetric] refl _ g [symmetric] refl refl refl h [symmetric] refl refl refl _ refl]) (use True in simp_all)
    then show ?thesis using p g h True by (simp add: parseredirs.simps [of t i] pbind_Unfinished Let_def)
  next
    case False
    then show ?thesis using p g h by (cases b) (simp_all add: parseredirs.simps [of t i])
  qed
qed

lemma parse_args_finishes: "parse_args t args rs i \<noteq> Unfinished"
proof (induction t args rs i rule: parse_args.induct)
  case (1 t args rs i)
  obtain b i1 where p: "peek t i ''|)&;'' = (b, i1)" by force
  obtain tok q eq i2 where g: "gettoken t i1 = (tok, q, eq, i2)" by (metis prod_cases4)
  show ?case
  proof (cases "\<not> b \<and> tok = CHR ''a'' \<and> \<not> MAXARGS \<le> length (args @ [(q, eq)])")
    case True
    have "parse_args t (args @ [(q, eq)]) (rs @ rs') i3 \<noteq> Unfinished" if "parseredirs t i2 = Parsed rs' i3" for rs' i3
      by (rule 1 [OF p [symmetric] refl _ g [symmetric] refl refl refl _ _ refl _ that]) (use True in simp_all)
    then show ?thesis using p g True parseredirs_finishes [of t i2] by (simp add: parse_args.simps [of t args rs i] pbind_Unfinished Let_def)
  next
    case False
    then show ?thesis using p g by (cases b) (auto simp: parse_args.simps [of t args rs i] Let_def)
  qed
qed

lemma parse_finishes:
  "(\<forall>i. 4 * (length t - i) + 4 \<le> n \<longrightarrow> parseline n t i \<noteq> Unfinished) \<and>
   (\<forall>i. 4 * (length t - i) + 3 \<le> n \<longrightarrow> parsepipe n t i \<noteq> Unfinished) \<and>
   (\<forall>i. 4 * (length t - i) + 2 \<le> n \<longrightarrow> parseexec n t i \<noteq> Unfinished) \<and>
   (\<forall>i. 4 * (length t - i) + 1 \<le> n \<longrightarrow> parseblock n t i \<noteq> Unfinished)"
proof (induction n)
  case 0
  show ?case by simp
next
  case (Suc n)
  have IH: "\<And>i. 4 * (length t - i) + 4 \<le> n \<Longrightarrow> parseline n t i \<noteq> Unfinished" "\<And>i. 4 * (length t - i) + 3 \<le> n \<Longrightarrow> parsepipe n t i \<noteq> Unfinished"
    "\<And>i. 4 * (length t - i) + 2 \<le> n \<Longrightarrow> parseexec n t i \<noteq> Unfinished" "\<And>i. 4 * (length t - i) + 1 \<le> n \<Longrightarrow> parseblock n t i \<noteq> Unfinished"
    using Suc.IH by blast+
  have le: "\<And>i c j. parsepipe n t i = Parsed c j \<Longrightarrow> i \<le> j" "\<And>i c j. parseexec n t i = Parsed c j \<Longrightarrow> i \<le> j"
    using parse_le [of n] by blast+
  show ?case
  proof (intro conjI allI impI)
    fix i assume n: "4 * (length t - i) + 4 \<le> Suc n"
    show "parseline (Suc n) t i \<noteq> Unfinished"
    proof
      assume "parseline (Suc n) t i = Unfinished"
      then obtain c1 i1 c2 i2 i3 where 1: "parsepipe n t i = Parsed c1 i1" "parse_backs t c1 i1 = (c2, i2)" "peek t i2 '';'' = (True, i3)"
          "parseline n t (snd (snd (snd (gettoken t i3)))) = Unfinished"
        using IH(2) [of i] n by (auto simp: pbind_Unfinished Let_def split_beta prod_eq_iff split: if_splits)
      have "i \<le> i2" using le(1) [OF 1(1)] parse_backs_le [OF 1(2)] by simp
      then have "length t - snd (snd (snd (gettoken t i3))) < length t - i" using token_end_less [OF 1(3)] by simp
      then show False using IH(1) 1(4) n by simp
    qed
  next
    fix i assume n: "4 * (length t - i) + 3 \<le> Suc n"
    show "parsepipe (Suc n) t i \<noteq> Unfinished"
    proof
      assume "parsepipe (Suc n) t i = Unfinished"
      then obtain c1 i1 i2 where 1: "parseexec n t i = Parsed c1 i1" "peek t i1 ''|'' = (True, i2)"
          "parsepipe n t (snd (snd (snd (gettoken t i2)))) = Unfinished"
        using IH(3) [of i] n by (auto simp: pbind_Unfinished Let_def split_beta prod_eq_iff split: if_splits)
      have "length t - snd (snd (snd (gettoken t i2))) < length t - i" using token_end_less [OF 1(2)] le(2) [OF 1(1)] by simp
      then show False using IH(2) 1(3) n by simp
    qed
  next
    fix i assume n: "4 * (length t - i) + 2 \<le> Suc n"
    obtain b i1 where p: "peek t i ''('' = (b, i1)" by force
    have "i \<le> i1" using peek_le [OF p] by blast
    then have "parseblock n t i1 \<noteq> Unfinished" by (intro IH(4)) (use n in linarith)
    then show "parseexec (Suc n) t i \<noteq> Unfinished"
      using p parseredirs_finishes parse_args_finishes by (auto simp: pbind_Unfinished Let_def split_beta)
  next
    fix i assume n: "4 * (length t - i) + 1 \<le> Suc n"
    obtain b i1 where p: "peek t i ''('' = (b, i1)" by force
    have "b \<Longrightarrow> parseline n t (snd (snd (snd (gettoken t i1)))) \<noteq> Unfinished" using token_end_less [of t i "''(''" i1] p n by (intro IH(1)) simp
    then show "parseblock (Suc n) t i \<noteq> Unfinished"
      using p parseredirs_finishes by (auto simp: pbind_Unfinished Let_def split_beta split: if_splits)
  qed
qed

lemma parsecmd_finishes: "parsecmd t \<noteq> Unfinished"
  using parse_finishes [of t "parse_fuel t"] by (auto simp: parsecmd_def parse_fuel_def pbind_Unfinished Let_def split_beta)

section \<open>Words\<close>

text \<open>A range of the line that is a word: word characters up to a character that is none.\<close>

definition is_word :: "string \<Rightarrow> word_range \<Rightarrow> bool" where
  "is_word t r = (case r of (q, eq) \<Rightarrow> q < eq \<and> eq \<le> length t \<and> (\<forall>j. q \<le> j \<and> j < eq \<longrightarrow> word_char (t ! j)) \<and>
     (eq < length t \<longrightarrow> \<not> word_char (t ! eq)))"

lemma gettoken_word:
  assumes "gettoken t s = (CHR ''a'', q, eq, s')"
  shows "is_word t (q, eq)"
proof -
  have c: "char_at t q \<noteq> NUL" "char_at t q \<notin> set ''|();&<''" "char_at t q \<noteq> CHR ''>''" "q = skip_ws t s" "eq = skip_while word_char t q"
    using assms by (auto simp: gettoken_def Let_def split: if_splits)
  have q: "q < length t" by (rule char_at_in [OF c(1)])
  have "\<not> strchr_in whitespace (t ! q)" using skip_while_stops [of "strchr_in whitespace" t s] q c(4) by (simp add: skip_ws_def)
  then have "word_char (t ! q)" using c(2,3) q by (auto simp: word_char_def symbol_chars_def char_at_def)
  then have "Suc q \<le> eq" using c(5) q skip_while_step(1) [of q t word_char] skip_while_le [of "Suc q" word_char t] by simp
  then show ?thesis
    using c(5) q skip_while_bound [of q t word_char] skip_while_stops [of word_char t q] skip_while_all [of q _ word_char t]
    by (auto simp: is_word_def)
qed

lemma parseredirs_words: "parseredirs t i = Parsed rs j \<Longrightarrow> r \<in> set rs \<Longrightarrow> is_word t (fst r)"
proof (induction t i arbitrary: rs j rule: parseredirs.induct)
  case (1 t i)
  obtain b i1 where p: "peek t i ''<>'' = (b, i1)" by force
  obtain tok q1 q2 i2 where g: "gettoken t i1 = (tok, q1, q2, i2)" by (metis prod_cases4)
  obtain ret q eq i3 where h: "gettoken t i2 = (ret, q, eq, i3)" by (metis prod_cases4)
  have a: "b" "ret = CHR ''a''" using 1(2,3) p g h by (cases b; auto simp: parseredirs.simps [of t i] split: if_splits)+
  then obtain rs' m where rs': "parseredirs t i3 = Parsed rs' j" "rs = ((q, eq), m) # rs'"
    using 1(2) p g h by (auto simp: parseredirs.simps [of t i] pbind_Parsed Let_def split: if_splits)
  have "r \<in> set rs' \<Longrightarrow> is_word t (fst r)"
    by (rule 1(1) [OF p [symmetric] refl _ g [symmetric] refl refl refl h [symmetric] refl refl refl _ refl rs'(1)]) (use a in simp_all)
  then show ?case using 1(3) rs'(2) gettoken_word h a by auto
qed

lemma parse_args_words:
  "parse_args t args rs i = Parsed (args', rs') j \<Longrightarrow> \<forall>r \<in> set args. is_word t r \<Longrightarrow> \<forall>r \<in> set rs. is_word t (fst r) \<Longrightarrow>
   (\<forall>r \<in> set args'. is_word t r) \<and> (\<forall>r \<in> set rs'. is_word t (fst r))"
proof (induction t args rs i arbitrary: args' rs' j rule: parse_args.induct)
  case (1 t args rs i)
  obtain b i1 where p: "peek t i ''|)&;'' = (b, i1)" by force
  obtain tok q eq i2 where g: "gettoken t i1 = (tok, q, eq, i2)" by (metis prod_cases4)
  show ?case
  proof (cases "b \<or> tok = NUL")
    case True
    then show ?thesis using 1(2-4) p g by (cases b) (auto simp: parse_args.simps [of t args rs i])
  next
    case False
    then have a: "\<not> b" "tok \<noteq> NUL" "\<not> tok \<noteq> CHR ''a''" "\<not> MAXARGS \<le> length (args @ [(q, eq)])"
      using 1(2) p g by (auto simp: parse_args.simps [of t args rs i] split: if_splits)
    then obtain rs2 i3 where h: "parseredirs t i2 = Parsed rs2 i3" "parse_args t (args @ [(q, eq)]) (rs @ rs2) i3 = Parsed (args', rs') j"
      using 1(2) p g by (auto simp: parse_args.simps [of t args rs i] pbind_Parsed Let_def)
    show ?thesis
      by (rule 1(1) [OF p [symmetric] refl a(1) g [symmetric] refl refl refl a(2,3) refl a(4) h(1) h(2)])
        (use 1(3,4) a g gettoken_word parseredirs_words [OF h(1)] in auto)
  qed
qed

lemma set_wrap_redirs: "set_cmd (wrap_redirs c rs) = set_cmd c \<union> fst ` set rs"
  unfolding wrap_redirs_def by (induction rs arbitrary: c) auto

lemma set_parse_backs: "set_cmd (fst (parse_backs t c i)) = set_cmd c"
proof (induction t c i rule: parse_backs.induct)
  case (1 t c i)
  obtain b i1 where p: "peek t i ''&'' = (b, i1)" by force
  obtain tok q eq i2 where g: "gettoken t i1 = (tok, q, eq, i2)" by (metis prod_cases4)
  show ?case using 1 [OF p [symmetric] refl _ g [symmetric] refl refl refl] p g by (cases b) (simp_all add: parse_backs.simps [of t c i])
qed

lemma parse_words:
  "(\<forall>t i c j. parseline n t i = Parsed c j \<longrightarrow> (\<forall>r \<in> set_cmd c. is_word t r)) \<and> (\<forall>t i c j. parsepipe n t i = Parsed c j \<longrightarrow> (\<forall>r \<in> set_cmd c. is_word t r)) \<and>
   (\<forall>t i c j. parseblock n t i = Parsed c j \<longrightarrow> (\<forall>r \<in> set_cmd c. is_word t r)) \<and> (\<forall>t i c j. parseexec n t i = Parsed c j \<longrightarrow> (\<forall>r \<in> set_cmd c. is_word t r))"
proof (induction n)
  case 0
  show ?case by simp
next
  case (Suc n)
  have IH: "\<And>t i c j r. parseline n t i = Parsed c j \<Longrightarrow> r \<in> set_cmd c \<Longrightarrow> is_word t r" "\<And>t i c j r. parsepipe n t i = Parsed c j \<Longrightarrow> r \<in> set_cmd c \<Longrightarrow> is_word t r"
    "\<And>t i c j r. parseblock n t i = Parsed c j \<Longrightarrow> r \<in> set_cmd c \<Longrightarrow> is_word t r" "\<And>t i c j r. parseexec n t i = Parsed c j \<Longrightarrow> r \<in> set_cmd c \<Longrightarrow> is_word t r" using Suc.IH by blast+
  show ?case
  proof (intro conjI allI impI ballI)
    fix t i c j r assume "parseline (Suc n) t i = Parsed c j" and r: "r \<in> set_cmd c"
    then obtain c1 i1 c2 i2 b i3 where 1: "parsepipe n t i = Parsed c1 i1" "parse_backs t c1 i1 = (c2, i2)"
        "if b then \<exists>c3. parseline n t (snd (snd (snd (gettoken t i3)))) = Parsed c3 j \<and> c = LIST c2 c3 else c = c2 \<and> j = i3"
      unfolding parseline_returns by blast
    have "set_cmd c2 = set_cmd c1" using set_parse_backs [of t c1 i1] 1(2) by simp
    then show "is_word t r" using 1 r by (auto split: if_splits dest: IH(1,2))
  next
    fix t i c j r assume "parsepipe (Suc n) t i = Parsed c j" and "r \<in> set_cmd c"
    then show "is_word t r" unfolding parsepipe_returns by (auto split: if_splits dest: IH(2,4))
  next
    fix t i c j r assume "parseblock (Suc n) t i = Parsed c j" and "r \<in> set_cmd c"
    then show "is_word t r" unfolding parseblock_returns by (auto simp: set_wrap_redirs dest: IH(1) parseredirs_words)
  next
    fix t i c j r assume "parseexec (Suc n) t i = Parsed c j" and r: "r \<in> set_cmd c"
    then obtain b i1 where 1: "if b then parseblock n t i1 = Parsed c j
         else \<exists>rs i2 args rs'. parseredirs t i1 = Parsed rs i2 \<and> parse_args t [] rs i2 = Parsed (args, rs') j \<and> c = wrap_redirs (EXEC args) rs'"
      unfolding parseexec_returns by blast
    show "is_word t r"
    proof (cases b)
      case True
      then show ?thesis using 1 IH(3) r by simp
    next
      case False
      then obtain rs i2 args rs' where 2: "parseredirs t i1 = Parsed rs i2" "parse_args t [] rs i2 = Parsed (args, rs') j" "c = wrap_redirs (EXEC args) rs'" using 1 by auto
      have "(\<forall>r \<in> set args. is_word t r) \<and> (\<forall>r \<in> set rs'. is_word t (fst r))" using parse_args_words [OF 2(2)] parseredirs_words [OF 2(1)] by simp
      then show ?thesis using r 2(3) by (auto simp: set_wrap_redirs)
    qed
  qed
qed

text \<open>After \<^verbatim>\<open>nulterminate\<close> the string at the start of each word is the word.\<close>

definition cstr :: "string \<Rightarrow> nat \<Rightarrow> string" where
  "cstr buf q = takeWhile (\<lambda>c. c \<noteq> NUL) (drop q buf)"

definition word_text :: "string \<Rightarrow> word_range \<Rightarrow> string" where
  "word_text t r = take (snd r - fst r) (drop (fst r) t)"

lemma put_nuls_eq: "put_nuls ws buf = marked (map snd ws) NUL buf"
  unfolding put_nuls_def by (induction ws arbitrary: buf) auto

lemma length_put_nuls [simp]: "length (put_nuls ws buf) = length buf"
  by (simp add: put_nuls_eq)

lemma nth_put_nuls: "j < length buf \<Longrightarrow> put_nuls ws buf ! j = (if j \<in> snd ` set ws then NUL else buf ! j)"
  by (simp add: put_nuls_eq nth_marked)

lemma length_nulterminate [simp]: "length (nulterminate c buf) = length buf"
  by (induction c arbitrary: buf) simp_all

lemma nth_nulterminate: "j < length buf \<Longrightarrow> nulterminate c buf ! j = (if j \<in> snd ` set_cmd c then NUL else buf ! j)"
  by (induction c arbitrary: buf) (auto simp: nth_put_nuls image_Un)

lemma takeWhile_drop_eq:
  assumes "q < e" "e < length xs" "xs ! e = x" "\<And>j. q \<le> j \<Longrightarrow> j < e \<Longrightarrow> xs ! j \<noteq> x"
  shows "takeWhile (\<lambda>c. c \<noteq> x) (drop q xs) = take (e - q) (drop q xs)"
  by (rule takeWhile_eq_take_P_nth [of "e - q"]) (use assms in \<open>auto simp: less_diff_conv add.commute\<close>)

lemma nulterminate_word:
  assumes nn: "NUL \<notin> set t" and w: "\<forall>r \<in> set_cmd c. is_word t r" and r: "r \<in> set_cmd c"
  shows "cstr (nulterminate c (t @ [NUL])) (fst r) = word_text t r"
proof -
  obtain q e where re: "r = (q, e)" by (cases r)
  let ?b = "nulterminate c (t @ [NUL])"
  have is_word: "q < e" "e \<le> length t" "\<And>j. q \<le> j \<Longrightarrow> j < e \<Longrightarrow> word_char (t ! j)" using w r by (auto simp: is_word_def re)
  have keep: "?b ! j = t ! j \<and> t ! j \<noteq> NUL" if j: "q \<le> j" "j < e" for j
  proof -
    have jt: "j < length t" using j is_word(2) by simp
    have "j \<notin> snd ` set_cmd c" using w is_word(3) [OF j] jt by (force simp: is_word_def)
    moreover have "t ! j \<noteq> NUL" using nn nth_mem [OF jt] by metis
    ultimately show ?thesis using jt by (auto simp: nth_nulterminate nth_append)
  qed
  have "?b ! e = NUL" using r is_word(2) by (auto simp: nth_nulterminate re image_iff)
  then have "cstr ?b q = take (e - q) (drop q ?b)"
    unfolding cstr_def using is_word keep by (intro takeWhile_drop_eq) auto
  also have "\<dots> = take (e - q) (drop q t)"
    by (rule nth_equalityI) (use is_word keep in \<open>auto simp: less_diff_conv add.commute\<close>)
  finally show ?thesis by (simp add: word_text_def re)
qed

lemma parsecmd_words:
  assumes "NUL \<notin> set t" and "parsecmd t = Parsed (c, buf) j"
  shows "map_cmd (\<lambda>r. cstr buf (fst r)) c = map_cmd (word_text t) c" and "\<forall>r \<in> set_cmd c. is_word t r"
proof -
  obtain i where c: "parseline (parse_fuel t) t 0 = Parsed c i" "buf = nulterminate c (t @ [NUL])"
    using assms(2) by (auto simp: parsecmd_def pbind_Parsed Let_def split_beta split: if_splits)
  show w: "\<forall>r \<in> set_cmd c. is_word t r" using parse_words [of "parse_fuel t"] c(1) by blast
  show "map_cmd (\<lambda>r. cstr buf (fst r)) c = map_cmd (word_text t) c"
    unfolding c(2) by (rule cmd.map_cong0) (rule nulterminate_word [OF assms(1) w])
qed

end
