(* ===== verification/ShPrint.thy ===== *)
theory ShPrint
  imports ShSpec
begin

text \<open>
  A printer of commands, with parentheses where the grammar needs them, and the proof that the
  shell's parser reads every printed command back.
\<close>

section \<open>Printing\<close>

type_synonym tredir = "string \<times> int \<times> int"

definition show_redir :: "tredir \<Rightarrow> string" where
  "show_redir r = (case r of (f, mode, fd) \<Rightarrow>
     (if mode = 0x000 then '' <'' else if mode = 0x601 then '' >'' else '' >>'') @ '' '' @ f)"

definition show_words :: "string list \<Rightarrow> string" where
  "show_words ws = concat (map (\<lambda>w. '' '' @ w) ws)"

definition parens :: "bool \<Rightarrow> string \<Rightarrow> string" where
  "parens b s = (if b then '' ('' @ s @ '' )'' else s)"

text \<open>The level says what may come without parentheses: 0 a line, 1 a pipeline with \<open>&\<close>s, 2 a pipeline, 3 a command.\<close>

primrec show_cmd :: "string cmd \<Rightarrow> nat \<Rightarrow> string" where
  "show_cmd (EXEC ws) k = show_words ws"
| "show_cmd (REDIR c f mode fd) k = show_cmd c 3 @ show_redir (f, mode, fd)"
| "show_cmd (PIPE c c') k = parens (2 < k) (show_cmd c 3 @ '' |'' @ show_cmd c' 2)"
| "show_cmd (LIST c c') k = parens (0 < k) (show_cmd c 1 @ '' ;'' @ show_cmd c' 0)"
| "show_cmd (BACK c) k = parens (1 < k) (show_cmd c 1 @ '' &'')"

definition valid_word :: "string \<Rightarrow> bool" where
  "valid_word w = (w \<noteq> [] \<and> list_all (\<lambda>c. word_char c \<and> c \<noteq> NUL) w)"

definition valid_redir :: "tredir \<Rightarrow> bool" where
  "valid_redir r = (case r of (f, m) \<Rightarrow> valid_word f \<and> m \<in> {(0x000, 0), (0x601, 1), (0x201, 1)})"

primrec valid_cmd :: "string cmd \<Rightarrow> bool" where
  "valid_cmd (EXEC ws) = (length ws < MAXARGS \<and> list_all valid_word ws)"
| "valid_cmd (REDIR c f mode fd) = (valid_cmd c \<and> valid_redir (f, mode, fd))"
| "valid_cmd (PIPE c c') = (valid_cmd c \<and> valid_cmd c')"
| "valid_cmd (LIST c c') = (valid_cmd c \<and> valid_cmd c')"
| "valid_cmd (BACK c) = valid_cmd c"

section \<open>Tokens of a suffix\<close>

lemma strchr_in_iff [simp]: "strchr_in s c \<longleftrightarrow> c \<in> set s"
  by (induction s) auto

lemma skip_while_eq: "i \<le> length t \<Longrightarrow> skip_while P t i = i + length (takeWhile P (drop i t))"
proof (induction P t i rule: skip_while.induct)
  case (1 P t i)
  show ?case
  proof (cases "i < length t \<and> P (t ! i)")
    case True
    then have d: "takeWhile P (drop i t) = t ! i # takeWhile P (drop (Suc i) t)" by (simp add: Cons_nth_drop_Suc [symmetric])
    have "skip_while P t i = skip_while P t (Suc i)" using True by (intro skip_while_step(1)) auto
    also have "\<dots> = Suc i + length (takeWhile P (drop (Suc i) t))" by (rule 1(1) [OF True]) (use True in simp)
    finally show ?thesis unfolding d by simp
  next
    case False
    then have e: "skip_while P t i = i" by (rule skip_while_step(2))
    have "takeWhile P (drop i t) = []"
      using False by (cases "i < length t") (simp_all add: Cons_nth_drop_Suc [symmetric])
    then show ?thesis using e by simp
  qed
qed

definition trim :: "string \<Rightarrow> string" where
  "trim u = dropWhile (\<lambda>c. c \<in> set whitespace) u"

lemma strchr_in_ws: "strchr_in whitespace = (\<lambda>c. c \<in> set whitespace)"
  by (simp add: fun_eq_iff)

lemma drop_skip_ws:
  assumes "i \<le> length t"
  shows "drop (skip_ws t i) t = trim (drop i t) \<and> skip_ws t i \<le> length t"
proof
  let ?w = "\<lambda>c. c \<in> set whitespace"
  have e: "skip_ws t i = length (takeWhile ?w (drop i t)) + i"
    using skip_while_eq [OF assms, of ?w] unfolding skip_ws_def strchr_in_ws by simp
  show "drop (skip_ws t i) t = trim (drop i t)"
    unfolding e trim_def dropWhile_eq_drop drop_drop ..
  show "skip_ws t i \<le> length t" unfolding skip_ws_def by (rule skip_while_bound [OF assms])
qed

lemma char_at_drop: "i \<le> length t \<Longrightarrow> char_at t i = (case drop i t of [] \<Rightarrow> NUL | c # v \<Rightarrow> c)"
  by (cases "i < length t") (simp_all add: char_at_def Cons_nth_drop_Suc [symmetric])

lemma peek_eq:
  assumes "i \<le> length t" and "trim (drop i t) = u"
  shows "\<exists>j. peek t i toks = (case u of [] \<Rightarrow> False | c # v \<Rightarrow> c \<noteq> NUL \<and> c \<in> set toks, j) \<and> drop j t = u \<and> j \<le> length t"
  using drop_skip_ws [OF assms(1)] assms(2) char_at_drop [of "skip_ws t i" t]
  by (intro exI [of _ "skip_ws t i"]) (auto simp: peek_def Let_def split: list.splits)

lemma not_space_symbol: "c \<in> set symbol_chars \<Longrightarrow> c \<notin> set whitespace \<and> c \<noteq> NUL"
  by (auto simp: symbol_chars_def whitespace_def)

text \<open>A symbol of one character, and a word.\<close>

lemma gettoken_symbol:
  assumes i: "i \<le> length t" and u: "trim (drop i t) = c # v" and c: "c \<in> set ''|();&<''"
  shows "\<exists>q e j. gettoken t i = (c, q, e, j) \<and> drop j t = trim v \<and> j \<le> length t"
proof -
  let ?p = "skip_ws t i"
  have p: "drop ?p t = c # v" "?p \<le> length t" using drop_skip_ws [OF i] u by auto
  have l: "?p < length t" using p by (metis drop_all list.simps(3) not_le)
  have d: "drop (Suc ?p) t = v" using p by (simp add: drop_Suc tl_drop [symmetric])
  have "char_at t ?p = c" using char_at_drop [OF p(2)] p(1) by simp
  moreover have "c \<noteq> NUL" using c by auto
  ultimately have "gettoken t i = (c, ?p, Suc ?p, skip_ws t (Suc ?p))" using c by (simp add: gettoken_def Let_def)
  then show ?thesis using drop_skip_ws [of "Suc ?p" t] d l by auto
qed

lemma gettoken_greater:
  assumes i: "i \<le> length t" and u: "trim (drop i t) = CHR ''>'' # v" and n: "v = [] \<or> hd v \<noteq> CHR ''>''"
  shows "\<exists>q e j. gettoken t i = (CHR ''>'', q, e, j) \<and> drop j t = trim v \<and> j \<le> length t"
proof -
  let ?p = "skip_ws t i"
  have p: "drop ?p t = CHR ''>'' # v" "?p \<le> length t" using drop_skip_ws [OF i] u by auto
  have l: "?p < length t" using p by (metis drop_all list.simps(3) not_le)
  have d: "drop (Suc ?p) t = v" using p by (simp add: drop_Suc tl_drop [symmetric])
  have "char_at t ?p = CHR ''>''" "char_at t (Suc ?p) \<noteq> CHR ''>''"
    using char_at_drop [OF p(2)] char_at_drop [of "Suc ?p" t] p(1) l d n by (auto split: list.splits)
  then have "gettoken t i = (CHR ''>'', ?p, Suc ?p, skip_ws t (Suc ?p))" by (simp add: gettoken_def Let_def)
  then show ?thesis using drop_skip_ws [of "Suc ?p" t] d l by auto
qed

lemma gettoken_append:
  assumes i: "i \<le> length t" and u: "trim (drop i t) = CHR ''>'' # CHR ''>'' # v"
  shows "\<exists>q e j. gettoken t i = (CHR ''+'', q, e, j) \<and> drop j t = trim v \<and> j \<le> length t"
proof -
  let ?p = "skip_ws t i"
  have p: "drop ?p t = CHR ''>'' # CHR ''>'' # v" "?p \<le> length t" using drop_skip_ws [OF i] u by auto
  have l: "Suc ?p < length t" using arg_cong [OF p(1), of length] by simp
  have d: "drop (Suc ?p) t = CHR ''>'' # v" "drop (Suc (Suc ?p)) t = v" using p by (simp_all add: drop_Suc tl_drop [symmetric])
  have "char_at t ?p = CHR ''>''" "char_at t (Suc ?p) = CHR ''>''"
    using char_at_drop [OF p(2)] char_at_drop [of "Suc ?p" t] p(1) l d by auto
  then have "gettoken t i = (CHR ''+'', ?p, Suc (Suc ?p), skip_ws t (Suc (Suc ?p)))" by (simp add: gettoken_def Let_def)
  then show ?thesis using drop_skip_ws [of "Suc (Suc ?p)" t] d l by auto
qed

lemma gettoken_valid_word:
  assumes i: "i \<le> length t" and u: "trim (drop i t) = w @ v" and w: "valid_word w" and v: "v = [] \<or> \<not> word_char (hd v)"
  shows "\<exists>q e j. gettoken t i = (CHR ''a'', q, e, j) \<and> word_text t (q, e) = w \<and> drop j t = trim v \<and> j \<le> length t"
proof -
  let ?p = "skip_ws t i"
  have p: "drop ?p t = w @ v" "?p \<le> length t" using drop_skip_ws [OF i] u by auto
  obtain c w' where cw: "w = c # w'" "word_char c" "c \<noteq> NUL" using w by (cases w) (auto simp: valid_word_def)
  have tw: "takeWhile word_char (w @ v) = w" using w v by (cases v) (auto simp: valid_word_def takeWhile_append2 list_all_iff)
  have e: "skip_while word_char t ?p = ?p + length w" using p tw by (simp add: skip_while_eq)
  have "char_at t ?p = c" using char_at_drop [OF p(2)] p(1) cw by simp
  moreover have "c \<notin> set ''|();&<''" "c \<noteq> CHR ''>''" using cw by (auto simp: word_char_def symbol_chars_def)
  ultimately have g: "gettoken t i = (CHR ''a'', ?p, ?p + length w, skip_ws t (?p + length w))" using cw e by (simp add: gettoken_def Let_def)
  have d: "drop (?p + length w) t = v" using p by (metis append_eq_conv_conj add.commute drop_drop)
  have l: "?p + length w \<le> length t" using arg_cong [OF p(1), of length] p(2) by simp
  show ?thesis using g drop_skip_ws [OF l] d p by (auto simp: word_text_def)
qed

lemma gettoken_end:
  assumes "i \<le> length t" and "trim (drop i t) = []"
  shows "\<exists>q e j. gettoken t i = (NUL, q, e, j) \<and> drop j t = [] \<and> j \<le> length t"
proof -
  have p: "drop (skip_ws t i) t = []" "skip_ws t i \<le> length t" using drop_skip_ws [OF assms(1)] assms(2) by auto
  have "char_at t (skip_ws t i) = NUL" using char_at_drop [OF p(2)] p(1) by simp
  then have "gettoken t i = (NUL, skip_ws t i, skip_ws t i, skip_ws t i)" by (simp add: gettoken_def Let_def skip_ws_idem)
  then show ?thesis using p by simp
qed

lemma trim_simps [simp]: "trim (CHR '' '' # u) = trim u" "trim [] = []" "c \<notin> set whitespace \<Longrightarrow> trim (c # u) = c # u" "trim (trim u) = trim u"
  by (simp_all add: trim_def whitespace_def)

lemma trim_word: "valid_word w \<Longrightarrow> trim (w @ v) = w @ v"
  by (cases w) (auto simp: valid_word_def word_char_def)

section \<open>Redirections and words\<close>

text \<open>What may come after a printed command: white space only, or a blank and one of the symbols.\<close>

definition follow :: "string \<Rightarrow> string \<Rightarrow> bool" where
  "follow F rest \<longleftrightarrow> list_all (\<lambda>c. c \<in> set whitespace) rest \<or> (\<exists>c v. rest = CHR '' '' # c # v \<and> c \<in> set F)"

definition text_redir :: "string \<Rightarrow> redir \<Rightarrow> tredir" where
  "text_redir t r = (word_text t (fst r), snd r)"

definition show_redirs :: "tredir list \<Rightarrow> string" where
  "show_redirs rs = concat (map show_redir rs)"

lemma show_redirs_simps [simp]: "show_redirs [] = []" "show_redirs (r # rs) = show_redir r @ show_redirs rs"
  by (simp_all add: show_redirs_def)

lemma show_words_simps [simp]: "show_words [] = []" "show_words (w # ws) = CHR '' '' # w @ show_words ws"
  by (simp_all add: show_words_def)

lemma blank_next:
  assumes "follow F rest"
  shows "show_redirs rs @ rest = [] \<or> \<not> word_char (hd (show_redirs rs @ rest))"
proof -
  have sp: "\<not> word_char (CHR '' '')" by (simp add: word_char_def whitespace_def)
  show ?thesis
  proof (cases rs)
    case Nil
    then show ?thesis using assms sp by (cases rest) (auto simp: follow_def word_char_def)
  next
    case (Cons r rs')
    then show ?thesis using sp by (cases r) (simp add: show_redir_def)
  qed
qed

lemma follow_trim:
  assumes "follow F rest" and "set F \<subseteq> set symbol_chars"
  shows "trim rest = [] \<or> (\<exists>c v. trim rest = c # v \<and> c \<in> set F \<and> c \<noteq> NUL)"
proof -
  have "trim rest = []" if "list_all (\<lambda>c. c \<in> set whitespace) rest" using that by (simp add: trim_def list_all_iff)
  then show ?thesis using assms not_space_symbol by (force simp: follow_def)
qed

lemma parseredirs_none:
  assumes "i \<le> length t" and "trim (drop i t) = u" and "u = [] \<or> hd u \<notin> set ''<>''"
  shows "\<exists>j. parseredirs t i = Parsed [] j \<and> drop j t = u \<and> j \<le> length t"
proof -
  obtain j where "peek t i ''<>'' = (case u of [] \<Rightarrow> False | c # v \<Rightarrow> c \<noteq> NUL \<and> c \<in> set ''<>'', j)" "drop j t = u" "j \<le> length t"
    using peek_eq [OF assms(1,2)] by blast
  then show ?thesis using assms(3) by (subst parseredirs.simps) (cases u; auto)
qed

lemma parseredirs_show:
  assumes "i \<le> length t" and "trim (drop i t) = trim (show_redirs rs @ rest)" and "list_all valid_redir rs" and "follow ''|)&;'' rest"
  shows "\<exists>rs' j. parseredirs t i = Parsed rs' j \<and> map (text_redir t) rs' = rs \<and> drop j t = trim rest \<and> j \<le> length t"
  using assms
proof (induction rs arbitrary: i)
  case Nil
  have "trim rest = [] \<or> hd (trim rest) \<notin> set ''<>''"
    using follow_trim [OF Nil(4)] by (force simp: symbol_chars_def)
  then show ?case using parseredirs_none [OF Nil(1) refl] Nil(2) by auto
next
  case (Cons r rs)
  obtain f m fd where r: "r = (f, m, fd)" by (cases r)
  let ?rest = "show_redirs rs @ rest"
  have w: "valid_word f" and mfd: "(m, fd) = (0x000, 0) \<or> (m, fd) = (0x601, 1) \<or> (m, fd) = (0x201, 1)"
    using Cons.prems(3) by (auto simp: r valid_redir_def)
  have nw: "CHR ''<'' \<notin> set whitespace" "CHR ''>'' \<notin> set whitespace" by (auto simp: whitespace_def)
  let ?op = "if m = 0 then ''<'' else if m = 0x601 then ''>'' else ''>>''"
  have u: "trim (drop i t) = ?op @ CHR '' '' # f @ ?rest" using Cons.prems(2) nw by (simp add: r show_redir_def)
  obtain i1 where p: "peek t i ''<>'' = (True, i1)" "drop i1 t = ?op @ CHR '' '' # f @ ?rest" "i1 \<le> length t"
    using peek_eq [OF Cons.prems(1) u, of "''<>''"] by (auto split: if_splits)
  have p': "trim (drop i1 t) = ?op @ CHR '' '' # f @ ?rest" using p(2) nw by auto
  obtain tok q1 e1 i2 where g: "gettoken t i1 = (tok, q1, e1, i2)" "trim (drop i2 t) = f @ ?rest" "i2 \<le> length t"
      "tok = (if m = 0 then CHR ''<'' else if m = 0x601 then CHR ''>'' else CHR ''+'')"
  proof -
    have tf: "trim (CHR '' '' # f @ ?rest) = f @ ?rest" using trim_word [OF w] by simp
    consider "m = 0" | "m = 0x601" | "m = 0x201" using mfd by auto
    then show ?thesis
    proof cases
      case 1
      then show ?thesis using gettoken_symbol [OF p(3), of "CHR ''<''"] p' tf that by auto
    next
      case 2
      then show ?thesis using gettoken_greater [OF p(3)] p' tf that by auto
    next
      case 3
      then show ?thesis using gettoken_append [OF p(3)] p' tf that by auto
    qed
  qed
  obtain q e i3 where h: "gettoken t i2 = (CHR ''a'', q, e, i3)" "word_text t (q, e) = f" "drop i3 t = trim ?rest" "i3 \<le> length t"
    using gettoken_valid_word [OF g(3,2) w blank_next [OF Cons.prems(4)]] by blast
  obtain rs' j where rs': "parseredirs t i3 = Parsed rs' j" "map (text_redir t) rs' = rs" "drop j t = trim rest" "j \<le> length t"
    using Cons.IH [OF h(4)] h(3) Cons.prems by auto
  have "parseredirs t i = Parsed (((q, e), m, fd) # rs') j"
    using p(1) g(1,4) h(1) rs'(1) mfd by (subst parseredirs.simps) auto
  moreover have "text_redir t ((q, e), m, fd) = r" by (simp add: text_redir_def r h(2))
  ultimately show ?case using rs' by simp
qed

lemma parse_args_show:
  assumes "i \<le> length t" and "trim (drop i t) = trim (show_words ws @ show_redirs rs @ rest)" and "list_all valid_word ws" "list_all valid_redir rs"
    and "follow ''|)&;'' rest" and "ws = [] \<longrightarrow> rs = []" and "length args + length ws < MAXARGS"
  shows "\<exists>args' rs' j. parse_args t args rs0 i = Parsed (args @ args', rs0 @ rs') j \<and> map (word_text t) args' = ws \<and>
    map (text_redir t) rs' = rs \<and> drop j t = trim rest \<and> j \<le> length t"
  using assms
proof (induction ws arbitrary: i args rs0 rs)
  case Nil
  have u: "trim (drop i t) = trim rest" using Nil by simp
  obtain i1 where p: "peek t i ''|)&;'' = (case trim rest of [] \<Rightarrow> False | c # v \<Rightarrow> c \<noteq> NUL \<and> c \<in> set ''|)&;'', i1)" "drop i1 t = trim rest" "i1 \<le> length t"
    using peek_eq [OF Nil(1) u] by blast
  show ?case
  proof (cases "trim rest = []")
    case True
    obtain q e j where "gettoken t i1 = (NUL, q, e, j)" "drop j t = []" "j \<le> length t" using gettoken_end [OF p(3)] p(2) True by auto
    then show ?thesis using p True Nil by (subst parse_args.simps) simp
  next
    case False
    then have "peek t i ''|)&;'' = (True, i1)" using p(1) follow_trim [OF Nil(5)] by (auto simp: symbol_chars_def)
    then show ?thesis using p Nil by (subst parse_args.simps) simp
  qed
next
  case (Cons w ws)
  let ?rest = "show_words ws @ show_redirs rs @ rest"
  have w: "valid_word w" using Cons.prems by simp
  obtain c w' where cw: "w = c # w'" "word_char c" "c \<noteq> NUL" using w by (cases w) (auto simp: valid_word_def)
  have u: "trim (drop i t) = w @ ?rest" using Cons.prems(2) trim_word [OF w] by simp
  have nx: "?rest = [] \<or> \<not> word_char (hd ?rest)"
    using blank_next [OF Cons.prems(5), of rs] by (cases ws) (auto simp: word_char_def whitespace_def)
  have "c \<notin> set ''|)&;''" using cw(2) by (auto simp: word_char_def symbol_chars_def)
  then obtain i1 where p: "peek t i ''|)&;'' = (False, i1)" "drop i1 t = w @ ?rest" "i1 \<le> length t"
    using peek_eq [OF Cons.prems(1) u, of "''|)&;''"] cw(1) by auto
  have "trim (drop i1 t) = w @ ?rest" using p(2) trim_word [OF w] by simp
  then obtain q e i2 where g: "gettoken t i1 = (CHR ''a'', q, e, i2)" "word_text t (q, e) = w" "drop i2 t = trim ?rest" "i2 \<le> length t"
    using gettoken_valid_word [OF p(3) _ w nx] by blast
  let ?rs = "if ws = [] then [] else rs"
  obtain rs1 i3 where h: "parseredirs t i2 = Parsed rs1 i3" "map (text_redir t) rs1 = (if ws = [] then rs else [])"
      "drop i3 t = trim (show_words ws @ show_redirs ?rs @ rest)" "i3 \<le> length t"
  proof (cases ws)
    case Nil
    then show ?thesis using parseredirs_show [OF g(4), of rs rest] g(3) Cons.prems that by auto
  next
    case (Cons w2 ws2)
    have w2: "valid_word w2" using Cons.prems(3) Cons by simp
    have t2: "trim ?rest = w2 @ show_words ws2 @ show_redirs rs @ rest" using Cons trim_word [OF w2] by simp
    have "hd (trim ?rest) \<notin> set ''<>''"
      using w2 unfolding t2 by (cases w2) (auto simp: valid_word_def word_char_def symbol_chars_def)
    then show ?thesis using parseredirs_none [OF g(4), of "trim ?rest"] g(3) Cons that by auto
  qed
  have "list_all valid_redir ?rs" using Cons.prems(4) by simp
  then obtain args' rs' j where k: "parse_args t (args @ [(q, e)]) (rs0 @ rs1) i3 = Parsed ((args @ [(q, e)]) @ args', (rs0 @ rs1) @ rs') j"
      "map (word_text t) args' = ws" "map (text_redir t) rs' = ?rs" "drop j t = trim rest" "j \<le> length t"
    using Cons.IH [OF h(4), of ?rs "args @ [(q, e)]" "rs0 @ rs1"] h(3) Cons.prems by auto
  have "parse_args t args rs0 i = Parsed (args @ (q, e) # args', rs0 @ rs1 @ rs') j"
    using p(1) g(1) h(1) k(1) Cons.prems(7) by (subst parse_args.simps) simp
  then show ?case using k g(2) h(2) by (intro exI [of _ "(q, e) # args'"] exI [of _ "rs1 @ rs'"] exI [of _ j]) auto
qed

section \<open>The round trip\<close>

abbreviation (input) text_cmd :: "string \<Rightarrow> word_range cmd \<Rightarrow> string cmd" where
  "text_cmd t \<equiv> map_cmd (word_text t)"

lemma text_wrap: "text_cmd t (wrap_redirs c rs) = wrap_redirs (text_cmd t c) (map (text_redir t) rs)"
  unfolding wrap_redirs_def by (induction rs arbitrary: c) (auto simp: text_redir_def)

text \<open>What each parser function does on a printed command, with enough fuel.\<close>

definition reads_exec :: "string cmd \<Rightarrow> bool" where
  "reads_exec c \<longleftrightarrow> (\<forall>t i n rs rest. i \<le> length t \<longrightarrow> trim (drop i t) = trim (show_cmd c 3 @ show_redirs rs @ rest) \<longrightarrow>
     list_all valid_redir rs \<longrightarrow> follow ''|)&;'' rest \<longrightarrow> 4 * (length t - i) + 2 \<le> n \<longrightarrow>
     (\<exists>c' j. parseexec n t i = Parsed c' j \<and> text_cmd t c' = wrap_redirs c rs \<and> drop j t = trim rest \<and> j \<le> length t))"

definition reads_pipe :: "string cmd \<Rightarrow> bool" where
  "reads_pipe c \<longleftrightarrow> (\<forall>t i n rest. i \<le> length t \<longrightarrow> trim (drop i t) = trim (show_cmd c 2 @ rest) \<longrightarrow>
     follow '')&;'' rest \<longrightarrow> 4 * (length t - i) + 3 \<le> n \<longrightarrow>
     (\<exists>c' j. parsepipe n t i = Parsed c' j \<and> text_cmd t c' = c \<and> drop j t = trim rest \<and> j \<le> length t))"

definition reads_back :: "string cmd \<Rightarrow> bool" where
  "reads_back c \<longleftrightarrow> (\<forall>t i n rest. i \<le> length t \<longrightarrow> trim (drop i t) = trim (show_cmd c 1 @ rest) \<longrightarrow>
     follow '')&;'' rest \<longrightarrow> 4 * (length t - i) + 3 \<le> n \<longrightarrow>
     (\<exists>c0 i0 c' j. parsepipe n t i = Parsed c0 i0 \<and> parse_backs t c0 i0 = parse_backs t c' j \<and> text_cmd t c' = c \<and>
        drop j t = trim rest \<and> j \<le> length t))"

definition reads_line :: "string cmd \<Rightarrow> bool" where
  "reads_line c \<longleftrightarrow> (\<forall>t i n rest. i \<le> length t \<longrightarrow> trim (drop i t) = trim (show_cmd c 0 @ rest) \<longrightarrow>
     follow '')'' rest \<longrightarrow> 4 * (length t - i) + 4 \<le> n \<longrightarrow>
     (\<exists>c' j. parseline n t i = Parsed c' j \<and> text_cmd t c' = c \<and> drop j t = trim rest \<and> j \<le> length t))"

lemma reads_execD:
  "\<lbrakk>reads_exec c; i \<le> length t; trim (drop i t) = trim (show_cmd c 3 @ show_redirs rs @ rest); list_all valid_redir rs;
    follow ''|)&;'' rest; 4 * (length t - i) + 2 \<le> n\<rbrakk> \<Longrightarrow>
   \<exists>c' j. parseexec n t i = Parsed c' j \<and> text_cmd t c' = wrap_redirs c rs \<and> drop j t = trim rest \<and> j \<le> length t"
  unfolding reads_exec_def by simp

lemma reads_pipeD:
  "\<lbrakk>reads_pipe c; i \<le> length t; trim (drop i t) = trim (show_cmd c 2 @ rest); follow '')&;'' rest; 4 * (length t - i) + 3 \<le> n\<rbrakk> \<Longrightarrow>
   \<exists>c' j. parsepipe n t i = Parsed c' j \<and> text_cmd t c' = c \<and> drop j t = trim rest \<and> j \<le> length t"
  unfolding reads_pipe_def by simp

lemma reads_backD:
  "\<lbrakk>reads_back c; i \<le> length t; trim (drop i t) = trim (show_cmd c 1 @ rest); follow '')&;'' rest; 4 * (length t - i) + 3 \<le> n\<rbrakk> \<Longrightarrow>
   \<exists>c0 i0 c' j. parsepipe n t i = Parsed c0 i0 \<and> parse_backs t c0 i0 = parse_backs t c' j \<and> text_cmd t c' = c \<and> drop j t = trim rest \<and> j \<le> length t"
  unfolding reads_back_def by simp

lemma reads_lineD:
  "\<lbrakk>reads_line c; i \<le> length t; trim (drop i t) = trim (show_cmd c 0 @ rest); follow '')'' rest; 4 * (length t - i) + 4 \<le> n\<rbrakk> \<Longrightarrow>
   \<exists>c' j. parseline n t i = Parsed c' j \<and> text_cmd t c' = c \<and> drop j t = trim rest \<and> j \<le> length t"
  unfolding reads_line_def by simp

lemma follow_mono: "follow F rest \<Longrightarrow> set F \<subseteq> set G \<Longrightarrow> follow G rest"
  by (auto simp: follow_def)

text \<open>A symbol that does not come next is not seen.\<close>

lemma peek_not:
  assumes "i \<le> length t" and "drop i t = trim rest" and "follow F rest" and "set F \<subseteq> set symbol_chars" and "set F \<inter> set toks = {}"
  shows "\<exists>j. peek t i toks = (False, j) \<and> drop j t = trim rest \<and> j \<le> length t"
proof -
  have u: "trim (drop i t) = trim rest" using assms(2) by simp
  obtain j where "peek t i toks = (case trim rest of [] \<Rightarrow> False | c # v \<Rightarrow> c \<noteq> NUL \<and> c \<in> set toks, j)" "drop j t = trim rest" "j \<le> length t"
    using peek_eq [OF assms(1) u] by blast
  then show ?thesis using follow_trim [OF assms(3,4)] assms(5) by auto
qed

text \<open>A symbol that comes next is seen and taken.\<close>

lemma peek_take:
  assumes "i \<le> length t" and "trim (drop i t) = c # v" and "c \<in> set ''|();&''" and "c \<in> set toks"
  shows "\<exists>i1 tok q e j. peek t i toks = (True, i1) \<and> gettoken t i1 = (tok, q, e, j) \<and> drop j t = trim v \<and> j \<le> length t \<and> i < j"
proof -
  have cs: "c \<in> set symbol_chars" using assms(3) by (auto simp: symbol_chars_def)
  then have nw: "c \<notin> set whitespace" "c \<noteq> NUL" using not_space_symbol by auto
  obtain i1 where p: "peek t i toks = (True, i1)" "drop i1 t = c # v" "i1 \<le> length t"
    using peek_eq [OF assms(1,2), of toks] assms(4) nw by auto
  have "trim (drop i1 t) = c # v" using p(2) nw by simp
  then obtain q e j where g: "gettoken t i1 = (c, q, e, j)" "drop j t = trim v" "j \<le> length t"
    using gettoken_symbol [OF p(3)] assms(3) by auto
  have "i < j" using peek_gettoken [OF p(1) g(1)] by simp
  then show ?thesis using p(1) g by blast
qed

lemma reads_pipe_lift: "reads_exec c \<Longrightarrow> show_cmd c 2 = show_cmd c 3 \<Longrightarrow> reads_pipe c"
  unfolding reads_pipe_def
proof (intro allI impI)
  fix t i n rest
  assume e: "reads_exec c" "show_cmd c 2 = show_cmd c 3" and i: "i \<le> length t" and u: "trim (drop i t) = trim (show_cmd c 2 @ rest)"
    and f: "follow '')&;'' rest" and n: "4 * (length t - i) + 3 \<le> n"
  obtain m where m: "n = Suc m" "4 * (length t - i) + 2 \<le> m" using n by (cases n) auto
  have f': "follow ''|)&;'' rest" by (rule follow_mono [OF f]) auto
  obtain c' j where 1: "parseexec m t i = Parsed c' j" "text_cmd t c' = c" "drop j t = trim rest" "j \<le> length t"
    using reads_execD [OF e(1) i, of "[]" rest m] u f' m(2) by (auto simp: wrap_redirs_def e(2))
  obtain k where "peek t j ''|'' = (False, k)" "drop k t = trim rest" "k \<le> length t"
    using peek_not [OF 1(4,3) f, of "''|''"] by (auto simp: symbol_chars_def)
  then show "\<exists>c' j. parsepipe n t i = Parsed c' j \<and> text_cmd t c' = c \<and> drop j t = trim rest \<and> j \<le> length t"
    using 1 m(1) by auto
qed

lemma reads_back_lift: "reads_pipe c \<Longrightarrow> show_cmd c 1 = show_cmd c 2 \<Longrightarrow> reads_back c"
  unfolding reads_back_def using reads_pipeD by fastforce

lemma parse_backs_stop:
  assumes "i \<le> length t" and "drop i t = trim rest" and "follow '');'' rest"
  shows "\<exists>j. parse_backs t c i = (c, j) \<and> drop j t = trim rest \<and> j \<le> length t"
proof -
  obtain j where "peek t i ''&'' = (False, j)" "drop j t = trim rest" "j \<le> length t"
    using peek_not [OF assms, of "''&''"] by (auto simp: symbol_chars_def)
  then show ?thesis by (subst parse_backs.simps) simp
qed

lemma reads_line_lift: "reads_back c \<Longrightarrow> show_cmd c 0 = show_cmd c 1 \<Longrightarrow> reads_line c"
  unfolding reads_line_def
proof (intro allI impI)
  fix t i n rest
  assume e: "reads_back c" "show_cmd c 0 = show_cmd c 1" and i: "i \<le> length t" and u: "trim (drop i t) = trim (show_cmd c 0 @ rest)"
    and f: "follow '')'' rest" and n: "4 * (length t - i) + 4 \<le> n"
  obtain m where m: "n = Suc m" "4 * (length t - i) + 3 \<le> m" using n by (cases n) auto
  have f1: "follow '')&;'' rest" and f2: "follow '');'' rest" by (rule follow_mono [OF f], auto)+
  obtain c0 i0 c' j where 1: "parsepipe m t i = Parsed c0 i0" "parse_backs t c0 i0 = parse_backs t c' j" "text_cmd t c' = c" "drop j t = trim rest" "j \<le> length t"
    using reads_backD [OF e(1) i u [unfolded e(2)] f1 m(2)] by blast
  obtain k where 2: "parse_backs t c' j = (c', k)" "drop k t = trim rest" "k \<le> length t" using parse_backs_stop [OF 1(5,4) f2] by blast
  obtain l where "peek t k '';'' = (False, l)" "drop l t = trim rest" "l \<le> length t"
    using peek_not [OF 2(3,2) f, of "'';''"] by (auto simp: symbol_chars_def)
  then show "\<exists>c' j. parseline n t i = Parsed c' j \<and> text_cmd t c' = c \<and> drop j t = trim rest \<and> j \<le> length t"
    using 1 2 m(1) by auto
qed

lemma reads_exec_block:
  assumes e: "reads_line c" "show_cmd c 3 = parens True (show_cmd c 0)"
  shows "reads_exec c"
  unfolding reads_exec_def
proof (intro allI impI)
  fix t i n rs rest
  assume i: "i \<le> length t" and u: "trim (drop i t) = trim (show_cmd c 3 @ show_redirs rs @ rest)"
    and v: "list_all valid_redir rs" and f: "follow ''|)&;'' rest" and n: "4 * (length t - i) + 2 \<le> n"
  let ?rest = "show_redirs rs @ rest"
  have nw: "CHR ''('' \<notin> set whitespace" "CHR '')'' \<notin> set whitespace" by (simp_all add: whitespace_def)
  have u1: "trim (drop i t) = CHR ''('' # show_cmd c 0 @ '' )'' @ ?rest" using u nw by (simp add: e(2) parens_def)
  obtain i1 where p0: "peek t i ''('' = (True, i1)" "drop i1 t = CHR ''('' # show_cmd c 0 @ '' )'' @ ?rest" "i1 \<le> length t"
    using peek_eq [OF i u1, of "''(''"] by auto
  have i1: "i \<le> i1" using peek_le [OF p0(1)] by simp
  obtain i2 tok q e' i3 where p: "peek t i1 ''('' = (True, i2)" "gettoken t i2 = (tok, q, e', i3)" "drop i3 t = trim (show_cmd c 0 @ '' )'' @ ?rest)"
      "i3 \<le> length t" "i1 < i3"
    using peek_take [OF p0(3), of "CHR ''(''" _ "''(''"] p0(2) nw by auto
  obtain m where m: "n = Suc (Suc m)" "4 * (length t - i3) + 4 \<le> m" using n p(4,5) i1 by (cases n; cases "n - 1") auto
  have "follow '')'' ('' )'' @ ?rest)" by (simp add: follow_def)
  then obtain c' j where l: "parseline m t i3 = Parsed c' j" "text_cmd t c' = c" "drop j t = trim ('' )'' @ ?rest)" "j \<le> length t"
    using reads_lineD [OF e(1) p(4), of "'' )'' @ ?rest" m] p(3) m(2) by auto
  obtain j1 tok' q' e'' j2 where r: "peek t j '')'' = (True, j1)" "gettoken t j1 = (tok', q', e'', j2)" "drop j2 t = trim ?rest" "j2 \<le> length t"
    using peek_take [OF l(4), of "CHR '')''" ?rest "'')''"] l(3) nw by auto
  obtain rs' k where "parseredirs t j2 = Parsed rs' k" "map (text_redir t) rs' = rs" "drop k t = trim rest" "k \<le> length t"
    using parseredirs_show [OF r(4), of rs rest] r(3) v f by auto
  then show "\<exists>c' j. parseexec n t i = Parsed c' j \<and> text_cmd t c' = wrap_redirs c rs \<and> drop j t = trim rest \<and> j \<le> length t"
    using p0(1) p(1,2) l(1,2) r(1,2) m(1) by (auto simp: text_wrap)
qed

lemma reads_exec_words:
  assumes "valid_cmd (EXEC ws)"
  shows "reads_exec (EXEC ws)"
  unfolding reads_exec_def
proof (intro allI impI)
  fix t i n rs rest
  assume i: "i \<le> length t" and u: "trim (drop i t) = trim (show_cmd (EXEC ws) 3 @ show_redirs rs @ rest)"
    and v: "list_all valid_redir rs" and f: "follow ''|)&;'' rest" and n: "4 * (length t - i) + 2 \<le> n"
  obtain m where m: "n = Suc m" using n by (cases n) auto
  let ?u = "trim (drop i t)"
  have first: "?u = [] \<or> hd ?u \<noteq> CHR ''('' \<and> (ws \<noteq> [] \<longrightarrow> hd ?u \<notin> set ''<>'')"
  proof (cases ws)
    case (Cons w ws')
    then have w: "valid_word w" using assms by simp
    have "?u = w @ show_words ws' @ show_redirs rs @ rest" using u Cons trim_word [OF w] by simp
    then show ?thesis using w by (cases w) (auto simp: valid_word_def word_char_def symbol_chars_def)
  next
    case Nil
    show ?thesis
    proof (cases rs)
      case (Cons r rs')
      have nw: "CHR ''<'' \<notin> set whitespace" "CHR ''>'' \<notin> set whitespace" by (simp_all add: whitespace_def)
      obtain a b d where r: "r = (a, b, d)" by (cases r)
      have "?u = (if b = 0 then ''<'' else if b = 0x601 then ''>'' else ''>>'') @ CHR '' '' # a @ show_redirs rs' @ rest"
        using u Nil Cons nw by (simp add: r show_redir_def)
      then show ?thesis using Nil by auto
    next
      case rs: Nil
      have "?u = trim rest" using u Nil rs by simp
      then show ?thesis using Nil follow_trim [OF f] by (auto simp: symbol_chars_def)
    qed
  qed
  obtain i1 where p: "peek t i ''('' = (False, i1)" "drop i1 t = ?u" "i1 \<le> length t"
    using peek_eq [OF i refl, of "''(''"] first by (cases ?u) auto
  obtain rs1 i2 where r: "parseredirs t i1 = Parsed rs1 i2" "map (text_redir t) rs1 = (if ws = [] then rs else [])"
      "drop i2 t = trim (show_words ws @ show_redirs (if ws = [] then [] else rs) @ rest)" "i2 \<le> length t"
  proof (cases "ws = []")
    case True
    then show ?thesis using parseredirs_show [OF p(3), of rs rest] p(2) u v f that by auto
  next
    case False
    then show ?thesis using parseredirs_none [OF p(3), of ?u] p(2) u first that by auto
  qed
  have vr: "list_all valid_redir (if ws = [] then [] else rs)" using v by simp
  obtain args rs2 j where a: "parse_args t [] rs1 i2 = Parsed ([] @ args, rs1 @ rs2) j" "map (word_text t) args = ws"
      "map (text_redir t) rs2 = (if ws = [] then [] else rs)" "drop j t = trim rest" "j \<le> length t"
    using parse_args_show [OF r(4) _ _ vr f, of ws "[]" rs1] r(3) assms by auto
  have "parseexec n t i = Parsed (wrap_redirs (EXEC args) (rs1 @ rs2)) j" using p(1) r(1) a(1) m by simp
  moreover have "text_cmd t (wrap_redirs (EXEC args) (rs1 @ rs2)) = wrap_redirs (EXEC ws) rs" using a(2,3) r(2) by (simp add: text_wrap)
  ultimately show "\<exists>c' j. parseexec n t i = Parsed c' j \<and> text_cmd t c' = wrap_redirs (EXEC ws) rs \<and> drop j t = trim rest \<and> j \<le> length t"
    using a(4,5) by blast
qed

lemma reads_exec_redir:
  assumes e: "reads_exec c" and r: "valid_redir (f, m, fd)"
  shows "reads_exec (REDIR c f m fd)"
  unfolding reads_exec_def
proof (intro allI impI)
  fix t i n rs rest
  assume i: "i \<le> length t" and u: "trim (drop i t) = trim (show_cmd (REDIR c f m fd) 3 @ show_redirs rs @ rest)"
    and v: "list_all valid_redir rs" and fo: "follow ''|)&;'' rest" and n: "4 * (length t - i) + 2 \<le> n"
  have "trim (drop i t) = trim (show_cmd c 3 @ show_redirs ((f, m, fd) # rs) @ rest)" using u by simp
  from reads_execD [OF e i this _ fo n] r v
  show "\<exists>c' j. parseexec n t i = Parsed c' j \<and> text_cmd t c' = wrap_redirs (REDIR c f m fd) rs \<and> drop j t = trim rest \<and> j \<le> length t"
    by (simp add: wrap_redirs_def)
qed

lemma reads_pipe_PIPE:
  assumes "reads_exec c" and "reads_pipe c2"
  shows "reads_pipe (PIPE c c2)"
  unfolding reads_pipe_def
proof (intro allI impI)
  fix t i n rest
  assume i: "i \<le> length t" and u: "trim (drop i t) = trim (show_cmd (PIPE c c2) 2 @ rest)"
    and f: "follow '')&;'' rest" and n: "4 * (length t - i) + 3 \<le> n"
  let ?rest = "'' |'' @ show_cmd c2 2 @ rest"
  obtain m where m: "n = Suc m" "4 * (length t - i) + 2 \<le> m" using n by (cases n) auto
  have "follow ''|)&;'' ?rest" by (simp add: follow_def)
  then obtain c' j where 1: "parseexec m t i = Parsed c' j" "text_cmd t c' = c" "drop j t = trim ?rest" "j \<le> length t"
    using reads_execD [OF assms(1) i, of "[]" ?rest m] u m(2) by (auto simp: parens_def wrap_redirs_def)
  have nw: "CHR ''|'' \<notin> set whitespace" by (simp add: whitespace_def)
  obtain j1 tok q e j2 where 2: "peek t j ''|'' = (True, j1)" "gettoken t j1 = (tok, q, e, j2)" "drop j2 t = trim (show_cmd c2 2 @ rest)" "j2 \<le> length t" "j < j2"
    using peek_take [OF 1(4), of "CHR ''|''" _ "''|''"] 1(3) nw by auto
  have "i \<le> j" using parse_le [of m] 1(1) by blast
  then have "4 * (length t - j2) + 3 \<le> m" using m(2) 2(4,5) by linarith
  then obtain c2' k where "parsepipe m t j2 = Parsed c2' k" "text_cmd t c2' = c2" "drop k t = trim rest" "k \<le> length t"
    using reads_pipeD [OF assms(2) 2(4) _ f, of m] 2(3) by auto
  then show "\<exists>c' j. parsepipe n t i = Parsed c' j \<and> text_cmd t c' = PIPE c c2 \<and> drop j t = trim rest \<and> j \<le> length t"
    using 1(1,2) 2(1,2) m(1) by auto
qed

lemma reads_back_BACK:
  assumes "reads_back c"
  shows "reads_back (BACK c)"
  unfolding reads_back_def
proof (intro allI impI)
  fix t i n rest
  assume i: "i \<le> length t" and u: "trim (drop i t) = trim (show_cmd (BACK c) 1 @ rest)"
    and f: "follow '')&;'' rest" and n: "4 * (length t - i) + 3 \<le> n"
  let ?rest = "'' &'' @ rest"
  have "follow '')&;'' ?rest" by (simp add: follow_def)
  then obtain c0 i0 c' j where 1: "parsepipe n t i = Parsed c0 i0" "parse_backs t c0 i0 = parse_backs t c' j" "text_cmd t c' = c" "drop j t = trim ?rest" "j \<le> length t"
    using reads_backD [OF assms i, of ?rest n] u n by (auto simp: parens_def)
  have nw: "CHR ''&'' \<notin> set whitespace" by (simp add: whitespace_def)
  obtain j1 tok q e j2 where 2: "peek t j ''&'' = (True, j1)" "gettoken t j1 = (tok, q, e, j2)" "drop j2 t = trim rest" "j2 \<le> length t"
    using peek_take [OF 1(5), of "CHR ''&''" _ "''&''"] 1(4) nw by auto
  have "parse_backs t c' j = parse_backs t (BACK c') j2" using 2(1,2) by (subst parse_backs.simps) simp
  then show "\<exists>c0 i0 c' j. parsepipe n t i = Parsed c0 i0 \<and> parse_backs t c0 i0 = parse_backs t c' j \<and> text_cmd t c' = BACK c \<and> drop j t = trim rest \<and> j \<le> length t"
    using 1(1,2,3) 2(3,4) by (intro exI [of _ c0] exI [of _ i0] exI [of _ "BACK c'"] exI [of _ j2]) simp
qed

lemma reads_line_LIST:
  assumes "reads_back c" and "reads_line c2"
  shows "reads_line (LIST c c2)"
  unfolding reads_line_def
proof (intro allI impI)
  fix t i n rest
  assume i: "i \<le> length t" and u: "trim (drop i t) = trim (show_cmd (LIST c c2) 0 @ rest)"
    and f: "follow '')'' rest" and n: "4 * (length t - i) + 4 \<le> n"
  let ?rest = "'' ;'' @ show_cmd c2 0 @ rest"
  obtain m where m: "n = Suc m" "4 * (length t - i) + 3 \<le> m" using n by (cases n) auto
  have fo: "follow '')&;'' ?rest" "follow '');'' ?rest" by (simp_all add: follow_def)
  obtain c0 i0 c' j where 1: "parsepipe m t i = Parsed c0 i0" "parse_backs t c0 i0 = parse_backs t c' j" "text_cmd t c' = c" "drop j t = trim ?rest" "j \<le> length t"
    using reads_backD [OF assms(1) i, of ?rest m] u m(2) fo(1) by (auto simp: parens_def)
  obtain k where 2: "parse_backs t c' j = (c', k)" "drop k t = trim ?rest" "k \<le> length t" using parse_backs_stop [OF 1(5,4) fo(2)] by blast
  have nw: "CHR '';'' \<notin> set whitespace" by (simp add: whitespace_def)
  obtain j1 tok q e j2 where 3: "peek t k '';'' = (True, j1)" "gettoken t j1 = (tok, q, e, j2)" "drop j2 t = trim (show_cmd c2 0 @ rest)" "j2 \<le> length t" "k < j2"
    using peek_take [OF 2(3), of "CHR '';''" _ "'';''"] 2(2) nw by auto
  have "i \<le> i0" using parse_le [of m] 1(1) by blast
  moreover have "i0 \<le> k" using parse_backs_le [of t c0 i0 c' k] 1(2) 2(1) by simp
  ultimately have "4 * (length t - j2) + 4 \<le> m" using m(2) 3(4,5) by linarith
  then obtain c2' l where "parseline m t j2 = Parsed c2' l" "text_cmd t c2' = c2" "drop l t = trim rest" "l \<le> length t"
    using reads_lineD [OF assms(2) 3(4) _ f, of m] 3(3) by auto
  then show "\<exists>c' j. parseline n t i = Parsed c' j \<and> text_cmd t c' = LIST c c2 \<and> drop j t = trim rest \<and> j \<le> length t"
    using 1(1,2,3) 2(1) 3(1,2) m(1) by auto
qed

lemma reads_all: "valid_cmd c \<Longrightarrow> reads_exec c \<and> reads_pipe c \<and> reads_back c \<and> reads_line c"
proof (induction c)
  case (EXEC ws)
  then show ?case using reads_exec_words reads_pipe_lift reads_back_lift reads_line_lift by simp
next
  case (REDIR c f m fd)
  then have "reads_exec (REDIR c f m fd)" by (intro reads_exec_redir) auto
  then show ?case using reads_pipe_lift reads_back_lift reads_line_lift by simp
next
  case (PIPE c c2)
  then have 2: "reads_pipe (PIPE c c2)" by (intro reads_pipe_PIPE) auto
  then have 1: "reads_back (PIPE c c2)" by (rule reads_back_lift) (simp add: parens_def)
  then have 0: "reads_line (PIPE c c2)" by (rule reads_line_lift) (simp add: parens_def)
  then have "reads_exec (PIPE c c2)" by (rule reads_exec_block) (simp add: parens_def)
  then show ?case using 0 1 2 by blast
next
  case (LIST c c2)
  then have 0: "reads_line (LIST c c2)" by (intro reads_line_LIST) auto
  then have 3: "reads_exec (LIST c c2)" by (rule reads_exec_block) (simp add: parens_def)
  then have 2: "reads_pipe (LIST c c2)" by (rule reads_pipe_lift) (simp add: parens_def)
  then have "reads_back (LIST c c2)" by (rule reads_back_lift) (simp add: parens_def)
  then show ?case using 0 2 3 by blast
next
  case (BACK c)
  then have 1: "reads_back (BACK c)" by (intro reads_back_BACK) auto
  then have 0: "reads_line (BACK c)" by (rule reads_line_lift) (simp add: parens_def)
  then have 3: "reads_exec (BACK c)" by (rule reads_exec_block) (simp add: parens_def)
  then have "reads_pipe (BACK c)" by (rule reads_pipe_lift) (simp add: parens_def)
  then show ?case using 0 1 3 by blast
qed

lemma show_cmd_no_nul: "valid_cmd c \<Longrightarrow> NUL \<notin> set (show_cmd c k)"
proof (induction c arbitrary: k)
  case (EXEC ws)
  then show ?case by (auto simp: show_words_def valid_word_def list_all_iff)
next
  case (REDIR c f m fd)
  then show ?case by (auto simp: show_redir_def valid_redir_def valid_word_def list_all_iff)
qed (auto simp: parens_def)

lemma parsecmd_show:
  assumes "valid_cmd c" and w: "list_all (\<lambda>c. c \<in> set whitespace) rest"
  shows "\<exists>c' buf j. parsecmd (show_cmd c 0 @ rest) = Parsed (c', buf) j \<and> map_cmd (\<lambda>r. cstr buf (fst r)) c' = c"
proof -
  let ?t = "show_cmd c 0 @ rest"
  have r: "reads_line c" using reads_all [OF assms(1)] by blast
  have tr: "trim rest = []" using w by (simp add: trim_def list_all_iff)
  obtain c' j where 1: "parseline (parse_fuel ?t) ?t 0 = Parsed c' j" "text_cmd ?t c' = c" "drop j ?t = []" "j \<le> length ?t"
    using reads_lineD [OF r, of 0 ?t rest "parse_fuel ?t"] w tr by (auto simp: follow_def parse_fuel_def)
  then have j: "j = length ?t" by (metis drop_eq_Nil le_antisym)
  have "skip_ws ?t j = j" unfolding skip_ws_def by (rule skip_while_step(2)) (simp add: j)
  then obtain b where "peek ?t j [] = (b, j)" by (metis peek_le surj_pair)
  then have p: "parsecmd ?t = Parsed (c', nulterminate c' (?t @ [NUL])) j"
    by (simp only: parsecmd_def 1(1) pbind.simps Let_def split_conv j if_False simp_thms)
  have "NUL \<notin> set whitespace" by (simp add: whitespace_def)
  then have "NUL \<notin> set rest" using w unfolding list_all_iff by blast
  then have "NUL \<notin> set ?t" using show_cmd_no_nul [OF assms(1)] by simp
  then show ?thesis using parsecmd_words(1) [OF _ p] p 1(2) by auto
qed

section \<open>Properties\<close>

text \<open>C23. The shell reads back what is printed: every command with valid words and at most nine arguments per program,
  however nested, is parsed from its text (and white space after it) to itself, with the strings that \<^verbatim>\<open>nulterminate\<close> leaves in the line.\<close>

theorem sh_round_trip:
  assumes "valid_cmd c" and "list_all (\<lambda>c. c \<in> set whitespace) rest"
  shows "\<exists>c' buf j. parsecmd (show_cmd c 0 @ rest) = Parsed (c', buf) j \<and> map_cmd (\<lambda>r. cstr buf (fst r)) c' = c"
  using assms by (rule parsecmd_show)

theorem sh_round_trip_witness:
  "\<exists>c' buf j. parsecmd '' ls | wc & ; ( echo hi ; cat ) > out '' = Parsed (c', buf) j \<and>
     map_cmd (\<lambda>r. cstr buf (fst r)) c' = LIST (BACK (PIPE (EXEC [''ls'']) (EXEC [''wc''])))
       (REDIR (LIST (EXEC [''echo'', ''hi'']) (EXEC [''cat''])) ''out'' 0x601 1)"
  using sh_round_trip [of "LIST (BACK (PIPE (EXEC [''ls'']) (EXEC [''wc''])))
       (REDIR (LIST (EXEC [''echo'', ''hi'']) (EXEC [''cat''])) ''out'' 0x601 1)" "'' ''"]
  by (simp add: valid_word_def valid_redir_def word_char_def whitespace_def symbol_chars_def show_words_def show_redir_def parens_def)

text \<open>C24. The parser of the shell ends on every line, with a command or with a message: the four mutually recursive
  functions never need more nested calls than four for each character and four more.\<close>

theorem sh_parse_terminates: "parsecmd t \<noteq> Unfinished"
  by (rule parsecmd_finishes)

text \<open>C25. \<^verbatim>\<open>nulterminate\<close> ends every word of the command where it ends in the line: the string at its start is the word,
  no other word is cut, and the words are the longest runs of characters that are neither blank nor special.\<close>

theorem sh_words:
  assumes "NUL \<notin> set t" and "parsecmd t = Parsed (c, buf) j"
  shows "map_cmd (\<lambda>r. cstr buf (fst r)) c = map_cmd (word_text t) c \<and> (\<forall>r. r \<in> set_cmd c \<longrightarrow> is_word t r)"
  using parsecmd_words [OF assms] by blast

theorem sh_words_witness: "\<exists>c buf j. parsecmd ''cat<in>out'' = Parsed (c, buf) j \<and> map_cmd (\<lambda>r. cstr buf (fst r)) c = map_cmd (word_text ''cat<in>out'') c"
proof -
  have "parsecmd ''cat<in>out'' = Parsed (REDIR (REDIR (EXEC [(0, 3)]) (4, 6) 0 0) (7, 10) 0x601 1, ''cat'' @ [NUL] @ ''in'' @ [NUL] @ ''out'' @ [NUL]) 10"
    by code_simp
  with sh_words [OF _ this] show ?thesis by auto
qed

end
