(* ===== verification/ShRunSpec.thy ===== *)
theory ShRunSpec
  imports ShRun ShPrint Sysfile
begin

text \<open>
  The plumbing of the shell: a reference for what a command's processes get as standard input and output, and the proof
  that \<^verbatim>\<open>runcmd\<close>'s sequence of \<^verbatim>\<open>close\<close>, \<^verbatim>\<open>dup\<close>, \<^verbatim>\<open>open\<close> and \<^verbatim>\<open>pipe\<close> gives exactly this, without a
  descriptor left over.  The lowest free number, on which it relies, is what the kernel's \<^verbatim>\<open>fdalloc\<close> takes.
\<close>

section \<open>The lowest free descriptor\<close>

lemma fd_scan_eq: "fd_scan n fd t = (case lowest_free (take n (drop fd t)) of None \<Rightarrow> None | Some i \<Rightarrow> Some (fd + i))"
  if "fd + n \<le> length t" for t :: "nat option list"
  using that
proof (induction n arbitrary: fd)
  case (Suc n)
  then have d: "take (Suc n) (drop fd t) = t ! fd # take n (drop (Suc fd) t)"
    by (simp add: Cons_nth_drop_Suc [symmetric])
  show ?case unfolding d using Suc by (cases "t ! fd") (auto split: option.splits)
qed simp

text \<open>The kernel gives a process the lowest free descriptor.\<close>

lemma fdalloc_lowest:
  assumes "length (ofile (procs s p)) = NOFILE"
  shows "fst (fdalloc p f s) = lowest_free (ofile (procs s p))"
proof -
  have "fd_scan NOFILE 0 (ofile (procs s p)) = lowest_free (ofile (procs s p))"
    using fd_scan_eq [of 0 NOFILE "ofile (procs s p)"] assms by (simp split: option.splits)
  then show ?thesis by (simp add: fdalloc_def split: option.splits)
qed

section \<open>The reference\<close>

primrec plumb :: "sh_env \<Rightarrow> string cmd \<Rightarrow> nat list \<Rightarrow> fds \<Rightarrow> ptree" where
  "plumb e (EXEC argv) me t =
     (if argv = [] then Quits 1
      else if exec_ok e (hd argv) argv then Execs (hd argv) argv t
      else Says (''exec '' @ hd argv @ '' failed'') (Quits 0))"
| "plumb e (REDIR c f mode fd) me t =
     (if open_ok e f mode then plumb e c me (t[nat fd := Some (File f mode)])
      else Says (''open '' @ f @ '' failed'') (Quits 1))"
| "plumb e (LIST c c') me t = fork1 e (me @ [0]) (plumb e c (me @ [0]) t) (Waits t (plumb e c' me t))"
| "plumb e (PIPE c c') me t =
     (if \<not> pipe_ok e me then panic_exit ''pipe''
      else fork1 e (me @ [0]) (plumb e c (me @ [0]) (t[1 := Some (PipeW me)]))
        (fork1 e (me @ [1]) (plumb e c' (me @ [1]) (t[0 := Some (PipeR me)])) (Waits t (Waits t (Quits 0)))))"
| "plumb e (BACK c) me t = fork1 e (me @ [0]) (plumb e c (me @ [0]) t) (Quits 0)"

text \<open>The three standard descriptors are open and two more are free.\<close>

definition std_fds :: "fds \<Rightarrow> bool" where
  "std_fds t \<longleftrightarrow> 3 \<le> length t \<and> list_all (\<lambda>x. x \<noteq> None) (take 3 t) \<and> 2 \<le> free_count t"

lemma std_fdsD: "std_fds t \<Longrightarrow> i < 3 \<Longrightarrow> i < length t \<and> t ! i \<noteq> None"
  by (auto simp: std_fds_def list_all_length)

lemma free_count_upd: "i < length t \<Longrightarrow> t ! i \<noteq> None \<Longrightarrow> free_count (t[i := Some y]) = free_count t"
  unfolding free_count_def
proof (induction t arbitrary: i)
  case (Cons a t)
  then show ?case by (cases i) auto
qed simp

lemma std_fds_upd: "std_fds t \<Longrightarrow> i < 3 \<Longrightarrow> std_fds (t[i := Some x])"
  using std_fdsD [of t i] free_count_upd [of i t x]
  by (auto simp: std_fds_def list_all_length nth_list_update)

lemma lowest_free_exists: "1 \<le> free_count t \<Longrightarrow> \<exists>i. lowest_free t = Some i"
  unfolding free_count_def by (induction t) (auto split: option.splits)

lemma lowest_free_None: "lowest_free t = None \<longleftrightarrow> None \<notin> set t"
  by (induction t) (auto split: option.splits)

text \<open>Closing a standard descriptor and taking a new one puts it in the same place.\<close>

lemma close_new: "std_fds t \<Longrightarrow> i < 3 \<Longrightarrow> lowest_free (t[i := None]) = Some i"
  using std_fdsD [of t] by (auto simp: lowest_free_Some nth_list_update)

lemma fd_pipe_std:
  assumes "std_fds t" and "pipe_ok e me"
  shows "\<exists>p0 p1. fd_pipe e me t = Some (int p0, int p1, t[p0 := Some (PipeR me), p1 := Some (PipeW me)]) \<and>
    3 \<le> p0 \<and> 3 \<le> p1 \<and> p0 \<noteq> p1 \<and> p0 < length t \<and> p1 < length t \<and> t ! p0 = None \<and> t ! p1 = None"
proof -
  have "1 \<le> free_count t" using assms(1) by (simp add: std_fds_def)
  then obtain p0 where p0: "lowest_free t = Some p0" using lowest_free_exists by blast
  then have a: "p0 < length t" "t ! p0 = None" by (simp_all add: lowest_free_Some)
  have "1 \<le> free_count (t[p0 := Some (PipeR me)])" using assms(1) free_count_take [OF a(2,1), of "PipeR me"] by (simp add: std_fds_def)
  then obtain p1 where p1: "lowest_free (t[p0 := Some (PipeR me)]) = Some p1" using lowest_free_exists by blast
  then have b: "p1 < length t" "p1 \<noteq> p0" "t ! p1 = None" using a by (auto simp: lowest_free_Some nth_list_update split: if_splits)
  have "3 \<le> p0" "3 \<le> p1" using std_fdsD [OF assms(1)] a b by (meson not_le)+
  then show ?thesis using p0 p1 a b assms(2) by (intro exI [of _ p0] exI [of _ p1]) (simp add: fd_pipe_def fd_new_def)
qed

lemma list_upd_restore: "t ! i = None \<Longrightarrow> t[i := None] = t"
  by (metis list_update_id)

text \<open>The child of a pipe: its end is moved to the standard descriptor and both numbers of the pipe are closed.\<close>

lemma pipe_child:
  assumes s: "std_fds t" and i: "i < 3" and p: "3 \<le> a" "3 \<le> b" "a \<noteq> b" "a < length t" "b < length t" "t ! a = None" "t ! b = None"
    and q: "q = a \<and> x = xa \<or> q = b \<and> x = xb"
  shows "(let t = fd_close (int i) (t[a := Some xa, b := Some xb]); (_, t) = fd_dup (int q) t; t = fd_close (int a) t; t = fd_close (int b) t in t) = t[i := Some x]"
proof -
  let ?t = "t[a := Some xa, b := Some xb, i := None]"
  have il: "i < length t" using std_fdsD [OF s i] by simp
  have ne: "i \<noteq> a" "i \<noteq> b" using i p by simp_all
  have q': "q < length t" "?t ! q = Some x" using q p ne by (auto simp: nth_list_update)
  have low: "lowest_free ?t = Some i"
    using il std_fdsD [OF s] i p by (auto simp: lowest_free_Some nth_list_update)
  have "t[a := Some xa, b := Some xb, i := None, i := Some x, a := None, b := None] = t[i := Some x]"
    by (rule nth_equalityI) (use p ne il in \<open>auto simp: nth_list_update\<close>)
  then show ?thesis using il q' low p by (simp add: fd_close_def fd_dup_def fd_new_def)
qed

text \<open>The parent of a pipe closes both its ends.\<close>

lemma pipe_parent:
  assumes p: "a \<noteq> b" "a < length t" "b < length t" "t ! a = None" "t ! b = None"
  shows "(let t = fd_close (int a) (t[a := Some xa, b := Some xb]); t = fd_close (int b) t in t) = t"
proof -
  have "t[a := Some xa, b := Some xb, a := None, b := None] = t"
    by (rule nth_equalityI) (use p in \<open>auto simp: nth_list_update\<close>)
  then show ?thesis using p by (simp add: fd_close_def)
qed

lemma runcmd_plumb:
  assumes "valid_cmd c" and "std_fds t"
  shows "runcmd e c me t = plumb e c me t"
  using assms
proof (induction c arbitrary: me t)
  case (REDIR c f mode fd)
  then have fd: "fd = 0 \<or> fd = 1" by (auto simp: valid_redir_def)
  then have n: "nat fd < 3" "0 \<le> fd" by auto
  have l: "nat fd < length t" using std_fdsD [OF REDIR.prems(2) n(1)] by simp
  have "lowest_free (t[nat fd := None]) = Some (nat fd)" by (rule close_new [OF REDIR.prems(2) n(1)])
  then show ?case using REDIR n l std_fds_upd [OF REDIR.prems(2) n(1)] by (simp add: fd_close_def fd_open_def fd_new_def)
next
  case (PIPE c c')
  show ?case
  proof (cases "pipe_ok e me")
    case False
    then show ?thesis by (simp add: fd_pipe_def)
  next
    case True
    obtain a b where p: "fd_pipe e me t = Some (int a, int b, t[a := Some (PipeR me), b := Some (PipeW me)])"
      and ab: "3 \<le> a" "3 \<le> b" "a \<noteq> b" "a < length t" "b < length t" "t ! a = None" "t ! b = None"
      using fd_pipe_std [OF PIPE.prems(2) True] by blast
    note w = pipe_child [OF PIPE.prems(2) _ ab, of 1 b "PipeW me" "PipeR me" "PipeW me", simplified]
    note r = pipe_child [OF PIPE.prems(2) _ ab, of 0 a "PipeR me" "PipeR me" "PipeW me", simplified]
    note q = pipe_parent [OF ab(3-7), of "PipeR me" "PipeW me"]
    show ?thesis using PIPE p True w r q std_fds_upd [OF PIPE.prems(2)] by (simp add: split_beta Let_def)
  qed
qed (simp_all split: list.splits)

section \<open>The main loop\<close>

text \<open>The console takes the place of the standard descriptors that are not open.\<close>

definition with_console :: "fds \<Rightarrow> fds" where
  "with_console t = map (\<lambda>x. if x = None then Some (File ''console'' 0x002) else x) (take 3 t) @ drop 3 t"

lemma length_with_console [simp]: "length (with_console t) = length t"
  by (simp add: with_console_def)

lemma with_console_nth: "i < length t \<Longrightarrow>
    with_console t ! i = (if i < 3 \<and> t ! i = None then Some (File ''console'' 0x002) else t ! i)"
  by (auto simp: with_console_def nth_append)

lemma with_console_idem:
  assumes "\<And>j. j < length t \<Longrightarrow> j < 3 \<Longrightarrow> t ! j \<noteq> None"
  shows "with_console t = t"
  by (rule nth_equalityI) (use assms in \<open>auto simp: with_console_nth\<close>)

lemma open_console_eq:
  assumes "open_ok e ''console'' 0x002"
  shows "open_console e t = with_console t"
  using assms
proof (induction e t rule: open_console.induct)
  case (1 e t)
  let ?C = "File ''console'' 0x002"
  consider (full) "lowest_free t = None" | (std) i where "lowest_free t = Some i" "i < 3" | (high) i where "lowest_free t = Some i" "3 \<le> i"
    by (cases "lowest_free t") (use not_le in blast)+
  then show ?case
  proof cases
    case full
    then have "t ! j \<noteq> None" if "j < length t" for j using nth_mem [OF that] by (metis lowest_free_None)
    then show ?thesis using 1(2) full by (simp add: open_console.simps [of e t] fd_open_def fd_new_def with_console_idem)
  next
    case std
    then have t: "i < length t" "t ! i = None" by (simp_all add: lowest_free_Some)
    have o: "fd_open e ''console'' 0x002 t = (int i, t[i := Some ?C])" using std 1(2) by (simp add: fd_open_def fd_new_def)
    have "with_console (t[i := Some ?C]) = with_console t"
      by (rule nth_equalityI) (use t std in \<open>auto simp: with_console_nth nth_list_update\<close>)
    moreover have "open_console e (t[i := Some ?C]) = with_console (t[i := Some ?C])"
      by (rule 1(1) [OF o [symmetric] refl _ _ 1(2)]) (use std in simp_all)
    ultimately show ?thesis using o std by (simp add: open_console.simps [of e t])
  next
    case high
    then have t: "i < length t" "t ! i = None" "\<forall>j<i. t ! j \<noteq> None" by (simp_all add: lowest_free_Some)
    then have "with_console t = t" using high by (intro with_console_idem) auto
    moreover have "t[i := None] = t" using list_upd_restore [OF t(2)] .
    ultimately show ?thesis using high t 1(2) by (simp add: open_console.simps [of e t] fd_open_def fd_new_def fd_close_def)
  qed
qed

lemma with_console_std:
  assumes "3 \<le> length t" and "2 \<le> free_count (drop 3 t)"
  shows "std_fds (with_console t)"
  using assms by (auto simp: std_fds_def with_console_def free_count_def list_all_iff)

text \<open>What a session does: a child for every command, one after the other.\<close>

primrec session :: "sh_env \<Rightarrow> nat \<Rightarrow> fds \<Rightarrow> string cmd list \<Rightarrow> ptree" where
  "session e n t [] = Quits 0"
| "session e n t (c # cs) = fork1 e [n] (plumb e c [n] t) (Waits t (session e (Suc n) t cs))"

lemma gets_loop_line:
  assumes "CHR 0x0A \<notin> set l" and "CHR 0x0D \<notin> set l" and "length l < n"
  shows "gets_loop n (l @ CHR 0x0A # inp) = (l @ [CHR 0x0A], inp)"
  using assms
proof (induction l arbitrary: n)
  case Nil
  then show ?case by (cases n) auto
next
  case (Cons c l)
  then show ?case by (cases n) auto
qed

lemma blank_append: "u = [] \<or> hd u = CHR '' '' \<Longrightarrow> hd (u @ CHR '' '' # v) = CHR '' ''"
  by (cases u) auto

lemma show_cmd_start: "show_cmd c k = [] \<or> hd (show_cmd c k) = CHR '' ''"
proof (induction c arbitrary: k)
  case (EXEC ws)
  then show ?case by (cases ws) (simp_all add: show_words_def)
next
  case (REDIR c f mode fd)
  then show ?case by (simp add: show_redir_def blank_append)
qed (simp_all add: parens_def blank_append)

lemma show_cmd_no_newline: "valid_cmd c \<Longrightarrow> x \<in> {CHR 0x0A, CHR 0x0D} \<Longrightarrow> x \<notin> set (show_cmd c k)"
proof (induction c arbitrary: k)
  case (EXEC ws)
  then show ?case by (auto simp: show_words_def valid_word_def list_all_iff word_char_def whitespace_def)
next
  case (REDIR c f m fd)
  then show ?case by (auto simp: show_redir_def valid_redir_def valid_word_def list_all_iff word_char_def whitespace_def)
qed (auto simp: parens_def)

lemma sh_child_show:
  assumes "valid_cmd c" and "std_fds t"
  shows "sh_child e me t (show_cmd c 0 @ [CHR 0x0A]) = plumb e c me t"
proof -
  have "list_all (\<lambda>c. c \<in> set whitespace) [CHR 0x0A]" by (simp add: whitespace_def)
  from parsecmd_show [OF assms(1) this] obtain c' buf j where
    p: "parsecmd (show_cmd c 0 @ [CHR 0x0A]) = Parsed (c', buf) j" and m: "map_cmd (\<lambda>r. cstr buf (fst r)) c' = c" by blast
  show ?thesis unfolding sh_child_def p parse.case prod.case cstr_def [symmetric] m by (rule runcmd_plumb [OF assms])
qed

lemma sh_loop_session:
  assumes "list_all (\<lambda>c. valid_cmd c \<and> length (show_cmd c 0) \<le> 98) cs" and "std_fds t"
  shows "sh_loop e n t (concat (map (\<lambda>c. show_cmd c 0 @ [CHR 0x0A]) cs)) = session e n t cs"
  using assms(1)
proof (induction cs arbitrary: n)
  case Nil
  have "gets_loop 99 [] = ([], [])" by (rule gets_loop.simps(2) [of 98, simplified])
  then show ?case by (subst sh_loop.simps) (simp add: getcmd_def gets_def)
next
  case (Cons c cs)
  let ?l = "show_cmd c 0" let ?r = "concat (map (\<lambda>c. show_cmd c 0 @ [CHR 0x0A]) cs)"
  have v: "valid_cmd c" "length ?l \<le> 98" using Cons.prems by simp_all
  have g: "gets 100 (?l @ CHR 0x0A # ?r) = (?l @ [CHR 0x0A], ?r)"
    unfolding gets_def by (rule gets_loop_line) (use v show_cmd_no_newline [OF v(1)] in auto)
  have w: "takeWhile (\<lambda>c. c \<noteq> NUL) (?l @ [CHR 0x0A]) = ?l @ [CHR 0x0A]"
    using show_cmd_no_nul [OF v(1), of 0] by (auto simp: takeWhile_eq_all_conv)
  have c: "getcmd (?l @ CHR 0x0A # ?r) = (Some (?l @ [CHR 0x0A]), ?r)" unfolding getcmd_def g by (simp add: w)
  have n: "take 3 (?l @ [CHR 0x0A]) \<noteq> ''cd ''" using show_cmd_start [of c 0] by (cases ?l) auto
  show ?case using Cons c n sh_child_show [OF v(1) assms(2)] by (subst sh_loop.simps) simp
qed

section \<open>Properties\<close>

text \<open>C22. The plumbing of a command: with the three standard descriptors open and two free, \<^verbatim>\<open>runcmd\<close>'s calls of
  \<^verbatim>\<open>close\<close>, \<^verbatim>\<open>dup\<close>, \<^verbatim>\<open>open\<close> and \<^verbatim>\<open>pipe\<close> give every program of the command exactly the descriptors
  that the reference \<open>plumb\<close> gives it (a redirection's file or a pipe's end in the place of a standard one), and
  neither a program nor a waiting parent is left with an end of a pipe open besides.\<close>

theorem sh_plumbing:
  assumes "valid_cmd c" and "std_fds t"
  shows "runcmd e c me t = plumb e c me t"
  using assms by (rule runcmd_plumb)

definition all_ok :: sh_env where
  "all_ok = \<lparr>open_ok = \<lambda>_ _. True, pipe_ok = \<lambda>_. True, fork_ok = \<lambda>_. True, exec_ok = \<lambda>_ _. True, chdir_ok = \<lambda>_. True\<rparr>"

theorem sh_plumbing_witness:
  "runcmd all_ok (PIPE (EXEC [''ls'']) (REDIR (EXEC [''wc'']) ''out'' 0x601 1)) [] (map Some [Given 0, Given 1, Given 2] @ [None, None]) =
     Forks (Execs ''ls'' [''ls''] [Some (Given 0), Some (PipeW []), Some (Given 2), None, None])
       (Forks (Execs ''wc'' [''wc''] [Some (PipeR []), Some (File ''out'' 0x601), Some (Given 2), None, None])
         (Waits (map Some [Given 0, Given 1, Given 2] @ [None, None]) (Waits (map Some [Given 0, Given 1, Given 2] @ [None, None]) (Quits 0))))"
  using sh_plumbing [of "PIPE (EXEC [''ls'']) (REDIR (EXEC [''wc'']) ''out'' 0x601 1)" "map Some [Given 0, Given 1, Given 2] @ [None, None]" all_ok "[]"]
  by (simp add: valid_word_def valid_redir_def word_char_def whitespace_def symbol_chars_def std_fds_def free_count_def all_ok_def fork1_def)

text \<open>C21. A session of the shell: started with descriptors of which the standard ones may be closed, on the text of any
  list of commands that fit its buffer, it opens the console where needed, runs each command in a child of its
  own with the plumbing of the reference, waits for it, and ends with the input.\<close>

theorem sh_session:
  assumes "list_all (\<lambda>c. valid_cmd c \<and> length (show_cmd c 0) \<le> 98) cs" and "open_ok e ''console'' 0x002"
    and "3 \<le> length t" and "2 \<le> free_count (drop 3 t)"
  shows "sh_main e t (concat (map (\<lambda>c. show_cmd c 0 @ [CHR 0x0A]) cs)) = session e 0 (with_console t) cs"
  unfolding sh_main_def open_console_eq [OF assms(2)] by (rule sh_loop_session [OF assms(1) with_console_std [OF assms(3,4)]])

theorem sh_session_witness:
  "sh_main all_ok (replicate 16 None) ('' ls | wc'' @ [CHR 0x0A]) =
     session all_ok 0 (replicate 3 (Some (File ''console'' 2)) @ replicate 13 None) [PIPE (EXEC [''ls'']) (EXEC [''wc''])]"
  using sh_session [of "[PIPE (EXEC [''ls'']) (EXEC [''wc''])]" all_ok "replicate 16 None"]
  by (simp add: valid_word_def valid_redir_def word_char_def whitespace_def symbol_chars_def free_count_def all_ok_def show_words_def parens_def
      with_console_def)

end
