(* ===== verification/Grep.thy ===== *)
theory Grep
  imports Prelude
begin

text \<open>
  The pattern search of \<^verbatim>\<open>user/grep.c\<close>: the matcher of patterns with \<open>^ . * $\<close>, and the loop that reads a file in
  pieces, cuts it into lines and writes those that match.  A C string is the list of its characters
  before the NUL.  A file is the pieces in which \<^verbatim>\<open>read\<close> delivers it: a read takes at most as many bytes
  as it asks for from the first piece.
\<close>

section \<open>The matcher\<close>

text \<open>\<^verbatim>\<open>re[1]\<close> and \<^verbatim>\<open>*text\<close> at the end of a string are the NUL.\<close>

fun matchhere :: "string \<Rightarrow> string \<Rightarrow> bool"
  and matchstar :: "char \<Rightarrow> string \<Rightarrow> string \<Rightarrow> bool" where
  "matchhere [] t = True"
| "matchhere (r # re) t =
     (if re \<noteq> [] \<and> hd re = CHR ''*'' then matchstar r (tl re) t
      else if r = CHR ''$'' \<and> re = [] then t = []
      else case t of [] \<Rightarrow> False | c # t \<Rightarrow> (r = CHR ''.'' \<or> r = c) \<and> matchhere re t)"
| "matchstar c re t =
     (matchhere re t \<or> (case t of [] \<Rightarrow> False | x # t \<Rightarrow> (x = c \<or> c = CHR ''.'') \<and> matchstar c re t))"

declare matchstar.simps [simp del]

fun match_from :: "string \<Rightarrow> string \<Rightarrow> bool" where
  "match_from re t = (matchhere re t \<or> (case t of [] \<Rightarrow> False | _ # t \<Rightarrow> match_from re t))"

declare match_from.simps [simp del]

definition match :: "string \<Rightarrow> string \<Rightarrow> bool" where
  "match re t = (if re \<noteq> [] \<and> hd re = CHR ''^'' then matchhere (tl re) t else match_from re t)"

section \<open>Lines\<close>

text \<open>\<^verbatim>\<open>strchr(p, '\n')\<close>, as the distance: it does not look past a NUL.\<close>

primrec strchr_nl :: "string \<Rightarrow> nat option" where
  "strchr_nl [] = None"
| "strchr_nl (c # p) = (if c = CHR 0x00 then None else if c = CHR 0x0A then Some 0 else map_option Suc (strchr_nl p))"

lemma strchr_nl_less: "strchr_nl p = Some k \<Longrightarrow> k < length p"
  by (induction p arbitrary: k) (auto split: if_splits)

text \<open>The inner loop on the filled part of \<^verbatim>\<open>buf\<close>: what it writes, and what is left from \<^verbatim>\<open>p\<close> on.\<close>

function grep_lines :: "string \<Rightarrow> string \<Rightarrow> string \<times> string" where
  "grep_lines pattern p =
     (case strchr_nl p of
        None \<Rightarrow> ([], p)
      | Some k \<Rightarrow>
          let out = (if match pattern (take k p) then take (k + 1) p else []);
              (out', p) = grep_lines pattern (drop (k + 1) p)
          in (out @ out', p))"
  by pat_completeness auto

termination grep_lines
  by (relation "measure (\<lambda>(re, p). length p)") (auto dest: strchr_nl_less)

declare grep_lines.simps [simp del]

definition read_piece :: "nat \<Rightarrow> string list \<Rightarrow> string \<times> string list" where
  "read_piece n f =
     (case f of [] \<Rightarrow> ([], []) | x # f \<Rightarrow> (take n x, if length x \<le> n then f else drop n x # f))"

lemma read_piece_rest: "read_piece n f = (x, f') \<Longrightarrow> x \<noteq> [] \<Longrightarrow> sum_list (map length f') < sum_list (map length f)"
  by (cases f) (auto simp: read_piece_def split: if_splits)

text \<open>The outer loop: \<open>b\<close> is what is left in \<^verbatim>\<open>buf\<close>, whose size is 1024.\<close>

function grep_loop :: "string \<Rightarrow> string \<Rightarrow> string list \<Rightarrow> string" where
  "grep_loop pattern b f =
     (let (x, f') = read_piece (1024 - length b - 1) f
      in if x = [] then []
         else let (out, b') = grep_lines pattern (b @ x)
              in out @ grep_loop pattern b' f')"
  by pat_completeness auto

termination grep_loop
  by (relation "measure (\<lambda>(re, b, f). sum_list (map length f))") (auto dest: read_piece_rest [OF sym])

declare grep_loop.simps [simp del]

definition grep :: "string \<Rightarrow> string list \<Rightarrow> string" where
  "grep pattern f = grep_loop pattern [] f"

text \<open>\<^verbatim>\<open>main\<close>: the exit status and what was written to the descriptors 1 and 2.  \<open>open_file\<close> is what \<^verbatim>\<open>open\<close> gives.\<close>

primrec grep_files :: "(string \<Rightarrow> string list option) \<Rightarrow> string \<Rightarrow> string list \<Rightarrow> int \<times> string" where
  "grep_files open_file pattern [] = (0, [])"
| "grep_files open_file pattern (f # fs) =
     (case open_file f of
        None \<Rightarrow> (1, ''grep: cannot open '' @ f @ [CHR 0x0A])
      | Some pieces \<Rightarrow> let (r, out) = grep_files open_file pattern fs in (r, grep pattern pieces @ out))"

definition grep_main :: "(string \<Rightarrow> string list option) \<Rightarrow> string list \<Rightarrow> string list \<Rightarrow> int \<times> string \<times> string" where
  "grep_main open_file stdin argv =
     (if length argv \<le> 1 then (1, [], ''usage: grep pattern [file ...]'' @ [CHR 0x0A])
      else let pattern = argv ! 1
           in if length argv \<le> 2 then (0, grep pattern stdin, [])
              else let (r, out) = grep_files open_file pattern (drop 2 argv) in (r, out, []))"

section \<open>The language of a pattern\<close>

text \<open>A pattern is a sequence of single characters and stars of single characters, where \<open>.\<close> stands for any
  character, and may be anchored at both ends.\<close>

datatype item = One char | Star char

definition fits :: "char \<Rightarrow> char \<Rightarrow> bool" where
  "fits r c \<longleftrightarrow> r = CHR ''.'' \<or> r = c"

primrec lang :: "item list \<Rightarrow> string set" where
  "lang [] = {[]}"
| "lang (i # is) =
     (case i of
        One r \<Rightarrow> {c # w | c w. fits r c \<and> w \<in> lang is}
      | Star r \<Rightarrow> {u @ w | u w. list_all (fits r) u \<and> w \<in> lang is})"

fun items :: "string \<Rightarrow> item list \<times> bool" where
  "items [] = ([], False)"
| "items (r # re) =
     (if re \<noteq> [] \<and> hd re = CHR ''*'' then apfst (Cons (Star r)) (items (tl re))
      else if r = CHR ''$'' \<and> re = [] then ([], True)
      else apfst (Cons (One r)) (items re))"

definition anchored :: "string \<Rightarrow> bool" where
  "anchored re \<longleftrightarrow> re \<noteq> [] \<and> hd re = CHR ''^''"

definition body :: "string \<Rightarrow> string" where
  "body re = (if anchored re then tl re else re)"

text \<open>A match is a piece of the text in the language of the pattern, at the start or the end where it is anchored.\<close>

definition accepts :: "string \<Rightarrow> string \<Rightarrow> bool" where
  "accepts re t \<longleftrightarrow>
     (\<exists>u v w. t = u @ v @ w \<and> v \<in> lang (fst (items (body re))) \<and> (anchored re \<longrightarrow> u = []) \<and> (snd (items (body re)) \<longrightarrow> w = []))"

definition accepts_here :: "string \<Rightarrow> string \<Rightarrow> bool" where
  "accepts_here re t \<longleftrightarrow> (\<exists>v w. t = v @ w \<and> v \<in> lang (fst (items re)) \<and> (snd (items re) \<longrightarrow> w = []))"

lemma matchstar_iff:
  assumes "\<And>t. matchhere re t \<longleftrightarrow> P t"
  shows "matchstar c re t \<longleftrightarrow> (\<exists>u v. t = u @ v \<and> list_all (fits c) u \<and> P v)"
proof (induction t)
  case Nil
  then show ?case using assms by (subst matchstar.simps) auto
next
  case (Cons x t)
  have "(\<exists>u v. x # t = u @ v \<and> list_all (fits c) u \<and> P v) \<longleftrightarrow>
      P (x # t) \<or> fits c x \<and> (\<exists>u v. t = u @ v \<and> list_all (fits c) u \<and> P v)" (is "?l \<longleftrightarrow> ?r")
  proof
    assume ?l
    then obtain u v where "x # t = u @ v" "list_all (fits c) u" "P v" by blast
    then show ?r by (cases u) auto
  next
    assume r: ?r
    show ?l
    proof (cases "P (x # t)")
      case True
      then show ?thesis by (intro exI [of _ "[]"] exI [of _ "x # t"]) simp
    next
      case False
      then obtain u v where "fits c x" "t = u @ v" "list_all (fits c) u" "P v" using r by blast
      then show ?thesis by (intro exI [of _ "x # u"] exI [of _ v]) simp
    qed
  qed
  moreover have "x = c \<or> c = CHR ''.'' \<longleftrightarrow> fits c x" by (auto simp: fits_def)
  ultimately show ?case unfolding matchstar.simps [of c re "x # t"] by (simp add: Cons assms)
qed

lemma accepts_here_One:
  assumes "items re' = apfst (Cons (One r)) (items re)"
  shows "accepts_here re' t \<longleftrightarrow> (\<exists>c t'. t = c # t' \<and> fits r c \<and> accepts_here re t')"
proof
  assume "accepts_here re' t"
  then obtain c v w where "t = (c # v) @ w" "fits r c" "v \<in> lang (fst (items re))" "snd (items re) \<longrightarrow> w = []"
    unfolding accepts_here_def using assms by auto blast+
  then show "\<exists>c t'. t = c # t' \<and> fits r c \<and> accepts_here re t'"
    by (intro exI [of _ c] exI [of _ "v @ w"]) (auto simp: accepts_here_def)
next
  assume "\<exists>c t'. t = c # t' \<and> fits r c \<and> accepts_here re t'"
  then obtain c v w where "t = c # v @ w" "fits r c" "v \<in> lang (fst (items re))" "snd (items re) \<longrightarrow> w = []"
    by (auto simp: accepts_here_def)
  then show "accepts_here re' t"
    unfolding accepts_here_def using assms by (intro exI [of _ "c # v"] exI [of _ w]) simp
qed

lemma matchhere_iff: "matchhere re t \<longleftrightarrow> accepts_here re t"
proof (induction re arbitrary: t rule: items.induct)
  case 1
  then show ?case by (simp add: accepts_here_def)
next
  case (2 r re)
  consider (star) "re \<noteq> [] \<and> hd re = CHR ''*''" | (dollar) "\<not> (re \<noteq> [] \<and> hd re = CHR ''*'')" "r = CHR ''$'' \<and> re = []"
    | (one) "\<not> (re \<noteq> [] \<and> hd re = CHR ''*'')" "\<not> (r = CHR ''$'' \<and> re = [])" by blast
  then show ?case
  proof cases
    case star
    have "matchhere (r # re) t = matchstar r (tl re) t" using star by simp
    also have "\<dots> \<longleftrightarrow> (\<exists>u v. t = u @ v \<and> list_all (fits r) u \<and> accepts_here (tl re) v)"
      by (rule matchstar_iff) (rule 2(1) [OF star])
    also have "\<dots> \<longleftrightarrow> accepts_here (r # re) t"
      using star by (auto simp: accepts_here_def) (metis append.assoc append_Nil2)+
    finally show ?thesis .
  next
    case dollar
    then show ?thesis by (auto simp: accepts_here_def)
  next
    case one
    have m: "matchhere re t' = accepts_here re t'" for t' by (rule 2(2) [OF one])
    have "items (r # re) = apfst (Cons (One r)) (items re)" using one by auto
    note accepts_here_One [OF this, of t]
    moreover have "matchhere (r # re) t = (case t of [] \<Rightarrow> False | c # t \<Rightarrow> fits r c \<and> matchhere re t)"
      using one by (auto simp: fits_def split: list.splits)
    ultimately show ?thesis by (cases t) (simp_all add: m)
  qed
qed

lemma match_from_iff: "match_from re t \<longleftrightarrow> (\<exists>u v. t = u @ v \<and> accepts_here re v)"
proof (induction t)
  case Nil
  then show ?case by (subst match_from.simps) (simp add: matchhere_iff)
next
  case (Cons c t)
  then show ?case by (subst match_from.simps) (auto simp: matchhere_iff Cons_eq_append_conv)
qed

lemma match_iff: "match re t \<longleftrightarrow> accepts re t"
  by (auto simp: match_def accepts_def body_def anchored_def matchhere_iff match_from_iff accepts_here_def)

section \<open>Lines do not depend on the reads\<close>

text \<open>The lines of a text, each with its newline, and the rest after the last newline.\<close>

fun split_lines :: "string \<Rightarrow> string list \<times> string" where
  "split_lines [] = ([], [])"
| "split_lines (c # t) =
     (let (ls, r) = split_lines t
      in if c = CHR 0x0A then ([] # ls, r) else case ls of [] \<Rightarrow> ([], c # r) | l # ls \<Rightarrow> ((c # l) # ls, r))"

definition selected :: "string \<Rightarrow> string list \<Rightarrow> string" where
  "selected pattern ls = concat (map (\<lambda>l. l @ [CHR 0x0A]) (filter (match pattern) ls))"

lemma strchr_nl_append: "CHR 0x00 \<notin> set l \<Longrightarrow> CHR 0x0A \<notin> set l \<Longrightarrow> strchr_nl (l @ CHR 0x0A # t) = Some (length l)"
  by (induction l) auto

lemma strchr_nl_None: "CHR 0x0A \<notin> set t \<Longrightarrow> strchr_nl t = None"
  by (induction t) auto

lemma split_lines_line: "CHR 0x0A \<notin> set l \<Longrightarrow> split_lines (l @ CHR 0x0A # t) = (l # fst (split_lines t), snd (split_lines t))"
  by (induction l) (auto simp: split_beta)

lemma split_lines_rest: "CHR 0x0A \<notin> set t \<Longrightarrow> split_lines t = ([], t)"
  by (induction t) auto

lemma line_cases:
  obtains (rest) "CHR 0x0A \<notin> set t" | (line) l t' where "t = l @ CHR 0x0A # t'" "CHR 0x0A \<notin> set l"
  using split_list_first [of "CHR 0x0A" t] by blast

lemma grep_lines_eq: "CHR 0x00 \<notin> set t \<Longrightarrow>
    grep_lines pattern t = (selected pattern (fst (split_lines t)), snd (split_lines t))"
proof (induction "length t" arbitrary: t rule: less_induct)
  case less
  show ?case
  proof (cases t rule: line_cases)
    case rest
    then show ?thesis by (subst grep_lines.simps) (simp add: strchr_nl_None split_lines_rest selected_def)
  next
    case (line l t')
    have "strchr_nl t = Some (length l)" using line less.prems by (simp add: strchr_nl_append)
    moreover have "grep_lines pattern t' = (selected pattern (fst (split_lines t')), snd (split_lines t'))"
      by (rule less.hyps) (use line less.prems in simp_all)
    ultimately show ?thesis using line by (subst grep_lines.simps) (simp add: split_lines_line selected_def)
  qed
qed

lemma split_lines_append: "split_lines (s @ t) =
    (fst (split_lines s) @ fst (split_lines (snd (split_lines s) @ t)), snd (split_lines (snd (split_lines s) @ t)))"
proof (induction "length s" arbitrary: s rule: less_induct)
  case less
  show ?case
  proof (cases s rule: line_cases)
    case rest
    then show ?thesis by (simp add: split_lines_rest)
  next
    case (line l t')
    then show ?thesis using less(1) [of t'] by (simp add: split_lines_line)
  qed
qed

text \<open>Every line with its newline, and the rest, fit the buffer.\<close>

definition short_lines :: "string \<Rightarrow> bool" where
  "short_lines t \<longleftrightarrow> (\<forall>l\<in>set (fst (split_lines t)). length l < 1023) \<and> length (snd (split_lines t)) < 1023"

lemma short_rest: "short_lines (s @ t) \<Longrightarrow> short_lines (snd (split_lines s) @ t)"
  by (simp add: short_lines_def split_lines_append [of s])

lemma short_prefix: "short_lines (b @ t) \<Longrightarrow> CHR 0x0A \<notin> set b \<Longrightarrow> length b < 1023"
proof (cases t rule: line_cases)
  case rest
  assume "short_lines (b @ t)" "CHR 0x0A \<notin> set b"
  then show ?thesis using rest by (simp add: short_lines_def split_lines_rest)
next
  case (line l t')
  assume "short_lines (b @ t)" "CHR 0x0A \<notin> set b"
  then show ?thesis using line split_lines_line [of "b @ l" t'] by (auto simp: short_lines_def)
qed

lemma split_rest_no_nl: "CHR 0x0A \<notin> set (snd (split_lines t))"
  by (induction t) (auto simp: split_beta split: list.splits)

lemma set_split_rest: "set (snd (split_lines t)) \<subseteq> set t"
  by (induction t) (auto simp: split_beta split: list.splits)

lemma read_piece_append: "read_piece n f = (x, f') \<Longrightarrow> concat f = x @ concat f'"
  by (auto simp: read_piece_def split: list.splits if_splits)

lemma grep_loop_eq:
  assumes "short_lines (b @ concat f)" and "CHR 0x00 \<notin> set (b @ concat f)" and "CHR 0x0A \<notin> set b" and "[] \<notin> set f"
  shows "grep_loop pattern b f = selected pattern (fst (split_lines (b @ concat f)))"
  using assms
proof (induction pattern b f rule: grep_loop.induct)
  case (1 pattern b f)
  obtain x f' where r: "read_piece (1024 - length b - 1) f = (x, f')" by force
  have b: "length b < 1023" by (rule short_prefix [OF 1(2,4)])
  show ?case
  proof (cases f)
    case Nil
    then have "x = []" using r by (simp add: read_piece_def)
    then show ?thesis using r Nil 1(4) by (subst grep_loop.simps) (simp add: split_lines_rest selected_def)
  next
    case (Cons p ps)
    then have x: "x \<noteq> []" "[] \<notin> set f'" using r b 1(5) by (auto simp: read_piece_def split: if_splits)
    have c: "concat f = x @ concat f'" by (rule read_piece_append [OF r])
    have g: "grep_lines pattern (b @ x) = (selected pattern (fst (split_lines (b @ x))), snd (split_lines (b @ x)))"
      using 1(3) c by (intro grep_lines_eq) simp
    let ?b = "snd (split_lines (b @ x))"
    have "grep_loop pattern ?b f' = selected pattern (fst (split_lines (?b @ concat f')))"
    proof (rule 1(1) [OF r [symmetric] refl x(1) g [symmetric] refl])
      show "short_lines (?b @ concat f')" using short_rest [of "b @ x" "concat f'"] 1(2) c by simp
      show "CHR 0x00 \<notin> set (?b @ concat f')" using set_split_rest [of "b @ x"] 1(3) c by auto
    qed (rule split_rest_no_nl, rule x(2))
    then show ?thesis using r x g c split_lines_append [of "b @ x" "concat f'"]
      by (subst grep_loop.simps) (simp add: selected_def)
  qed
qed

section \<open>Properties\<close>

text \<open>C26. The matcher of \<^verbatim>\<open>grep\<close> decides the language of its pattern: it accepts a line exactly when a piece of it, at the start
  after \<open>^\<close> and at the end before \<open>$\<close>, is a sequence of characters and repetitions as the pattern says.\<close>

theorem grep_match: "match re t \<longleftrightarrow> accepts re t"
  by (rule match_iff)

text \<open>C27. Whatever the pieces in which a file is read, \<^verbatim>\<open>grep\<close> writes the lines that match, in order, provided no line
  fills the buffer of 1024 bytes and the file has no NUL; a last line without a newline is not looked at.\<close>

theorem grep_lines_spec:
  assumes "short_lines (concat f)" and "CHR 0x00 \<notin> set (concat f)" and "[] \<notin> set f"
  shows "grep pattern f = concat (map (\<lambda>l. l @ [CHR 0x0A]) (filter (accepts pattern) (fst (split_lines (concat f)))))"
  using grep_loop_eq [of "[]" f pattern] assms match_iff by (simp add: grep_def selected_def cong: filter_cong)

theorem grep_lines_spec_witness:
  "grep ''^a.*d$'' [''ab'', ''cd'' @ [CHR 0x0A] @ ''bcd'' @ [CHR 0x0A] @ ''ad''] = ''abcd'' @ [CHR 0x0A]"
proof -
  let ?f = "[''ab'', ''cd'' @ [CHR 0x0A] @ ''bcd'' @ [CHR 0x0A] @ ''ad'']"
  have "match ''^a.*d$'' ''abcd''" "\<not> match ''^a.*d$'' ''bcd''" by code_simp+
  then have "accepts ''^a.*d$'' ''abcd''" "\<not> accepts ''^a.*d$'' ''bcd''" by (simp_all add: match_iff)
  then show ?thesis using grep_lines_spec [of ?f "''^a.*d$''"] by (simp add: short_lines_def)
qed

end
