(* ===== verification/Spec2Isabelle.thy ===== *)
theory Spec2Isabelle
  imports VmCopy LogSpec Syscall PipeSpec ConsoleSpec Reap FsPath FsCrash VirtioDisk ShRunSpec Grep
begin

text \<open>
  \<^bold>\<open>xv7: a verified model of a small RISC-V Unix.\<close>

  The program is a kernel (\<^verbatim>\<open>src/kernel\<close>), user programs that run on it (\<^verbatim>\<open>src/user\<close>) and the tool that makes
  the file system image (\<^verbatim>\<open>src/mkfs\<close>).  From the bottom up the kernel has a page allocator, page tables, spin
  and sleep locks, a disk driver, a buffer cache, a write-ahead log, a file system, pipes, a console, an open
  file table, processes with a lottery scheduler, program loading, system calls and traps.  A system
  call enters through a trap, is dispatched by number, fetches its arguments from user memory through the
  page table, and acts on processes, files or memory; a call that changes the file system does so in a
  transaction of the log, over the buffer cache, over the disk driver.

  \<^bold>\<open>How the code is modelled.\<close>  C structures are records, enumerations and tagged unions are datatypes, machine
  integers are words of their width (or integers where the code cannot overflow them), and a pointer into a
  fixed table is an index.  Physical memory is a function from 64-bit addresses to bytes; page tables, the
  free list, trap frames and user pages are bytes in it.  A C function is a function on an explicit state.
  A call that may not return has an option type: \<open>None\<close> is a call that panics, loops forever or
  sleeps with nobody to wake it.  The states are records that extend each other in the order of
  the layers: \<open>bcache\<close> (buffer cache), \<open>log\<close>, \<open>fs\<close>, \<open>kern\<close>, \<open>vkern\<close> (with the driver and the device).
  Loops are recursive functions, with a termination proof where the recursion is not structural.

  \<^bold>\<open>Concurrency.\<close>  \<open>Locks\<close> interleaves the atomic actions of \<^verbatim>\<open>acquire\<close> and \<^verbatim>\<open>release\<close> on all CPUs and proves mutual
  exclusion; on this ground the body of a spin-locked function is one step elsewhere.  The disk driver is modelled as a
  transition system of processes, interrupts and device.  Above it a call that goes to sleep is
  either cut at the sleep (pipes, console, \<^verbatim>\<open>wait\<close>) or does not return (buffer locks, the log).

  \<^bold>\<open>Theories and sources.\<close>
  \<^item> \<open>Prelude\<close>: machine integers, calls that may not return, little-endian words, shared facts on lists and words.
  \<^item> \<open>Layout\<close>: \<^verbatim>\<open>param.h\<close>, \<^verbatim>\<open>riscv.h\<close>, \<^verbatim>\<open>memlayout.h\<close>.  \<open>Memory\<close>: physical memory and \<^verbatim>\<open>string.c\<close>.
  \<^item> \<open>Kalloc\<close>: \<^verbatim>\<open>kalloc.c\<close>; the locale \<open>page_pool\<close> is what page tables, pipes and processes rely on.
  \<^item> \<open>Vm\<close>, \<open>VmTables\<close>, \<open>VmSpec\<close>, \<open>VmCopy\<close>: \<^verbatim>\<open>vm.c\<close>; the invariant of three-level tables, mapping, unmapping and the
    copies between kernel and user space.  \<open>VmFree\<close>: \<^verbatim>\<open>freewalk\<close> and \<^verbatim>\<open>uvm_free\<close> return every page of an address space to the
    pool.
  \<^item> \<open>Locks\<close>: \<^verbatim>\<open>spinlock.c\<close>, \<^verbatim>\<open>sleeplock.c\<close>.
  \<^item> \<open>Bufcache\<close>, \<open>Blocks\<close>: \<^verbatim>\<open>buffer-io.c\<close>; the linked list of buffers is a list in order of use, and the cache is
    a store of blocks (locale \<open>block_cache\<close>).
  \<^item> \<open>Virtio\<close>, \<open>VirtioSpec\<close>, \<open>VirtioDisk\<close>: \<^verbatim>\<open>virtio_disk.c\<close>; invariant, simulation by an atomic disk, progress.
  \<^item> \<open>Log\<close>, \<open>LogSpec\<close>: \<^verbatim>\<open>log.c\<close>; commits are atomic under a crash at any disk write.
  \<^item> \<open>Fs\<close>, \<open>FsTx\<close>, \<open>FsSpec\<close>, \<open>FsFile\<close>: \<^verbatim>\<open>fs.c\<close>; blocks, inodes, file contents inside a transaction.  \<open>FsDir\<close>:
    directories as maps from names to inodes.  \<open>FsPath\<close>: path names.  \<open>FsCrash\<close>: \<^verbatim>\<open>filewrite\<close> of \<^verbatim>\<open>file.c\<close> through all
    layers, with a crash at any disk write, and what the log admits.
  \<^item> \<open>Ring\<close>: ring buffers and the locale \<open>bounded_queue\<close>, interpreted for pipes and for the UART.
  \<^item> \<open>Kern\<close>, \<open>KernSpec\<close>: the state of the kernel, \<^verbatim>\<open>wakeup\<close>, \<^verbatim>\<open>kill\<close>, \<^verbatim>\<open>sleep\<close> of \<^verbatim>\<open>proc.c\<close>.
  \<^item> \<open>Console\<close>, \<open>ConsoleSpec\<close>: \<^verbatim>\<open>printf.c\<close>, \<^verbatim>\<open>uart.c\<close>, \<^verbatim>\<open>console.c\<close>.  \<open>Pipe\<close>, \<open>PipeSpec\<close>: \<^verbatim>\<open>pipe.c\<close>.
  \<^item> \<open>File\<close>: \<^verbatim>\<open>file.c\<close>.  \<open>Proc\<close>, \<open>ProcSpec\<close>: \<^verbatim>\<open>proc.c\<close>, \<^verbatim>\<open>rand.h\<close>.  \<open>Reap\<close>: \<^verbatim>\<open>wait\<close> and \<^verbatim>\<open>freeproc\<close>.  \<open>Exec\<close>: \<^verbatim>\<open>exec.c\<close>.
  \<^item> \<open>Sysfile\<close>: \<^verbatim>\<open>sysfile.c\<close> and the arguments of \<^verbatim>\<open>syscall.c\<close>.  \<open>Syscall\<close>: \<^verbatim>\<open>sysproc.c\<close>, \<^verbatim>\<open>syscall.c\<close>, \<^verbatim>\<open>trap.c\<close>.
  \<^item> \<open>Sh\<close>, \<open>ShSpec\<close>, \<open>ShPrint\<close>, \<open>ShRun\<close>, \<open>ShRunSpec\<close>: the shell, \<^verbatim>\<open>user/sh.c\<close>, with \<^verbatim>\<open>gets\<close> and \<^verbatim>\<open>strchr\<close>
    of \<^verbatim>\<open>user/ulib.c\<close>.  \<open>Grep\<close>: \<^verbatim>\<open>user/grep.c\<close>.

  \<^bold>\<open>What the theorems show.\<close>
  \<^item> Memory: the allocator hands out the first free page, cleared, and its initialisation links every eighth page; mapping
    and unmapping change exactly the entries of their range; copies to and from user space touch exactly the
    accessible bytes; a reaped process leaves none of its pages behind.
  \<^item> Locks and disk: a spin lock has one owner in every interleaving, and it is known which calls panic; the disk driver, under every
    interleaving with the device, is an atomic disk whose requests can always finish, and it panics only on a failed request.
  \<^item> File system: the cache returns the current contents of a block and evicts in order of use; a commit, and a
    whole \<^verbatim>\<open>filewrite\<close>, are atomic under crashes and change no other file; directories and paths resolve to the
    inodes that the disk names.
  \<^item> Processes, pipes, console: slots are set up and taken down completely, orphans go to init, the odds of
    the lottery are counted, a pipe is a queue for any sequence of calls, the console is a line editor.
  \<^item> User programs: the parser of the shell inverts printing and always ends, its commands get the
    descriptors they should, and \<^verbatim>\<open>grep\<close> prints the lines in the language of its pattern.

  \<^bold>\<open>Bounds and fuel.\<close>  Loops over tables run for the size of the table.  The shell's parser has the fuel
    \<open>parse_fuel\<close>, four for each character and four more, and \<open>sh_parse_terminates\<close> shows that it is never used up.
    Loops that follow pointers in memory (\<^verbatim>\<open>freewalk\<close>, the copies, the lists of buffers) are partial functions or
    have a measure; the properties show that they return.

  \<^bold>\<open>Parameters.\<close>  The device behind the disk driver serves requests by a function that is an argument; the addresses of the
    linker's symbols, the results of the system calls that the shell makes, and the pieces in which \<^verbatim>\<open>read\<close> delivers a file to
    \<^verbatim>\<open>grep\<close> are arguments too.

  \<^bold>\<open>Not modelled.\<close>  Assembly (\<^verbatim>\<open>entry.S\<close>, \<^verbatim>\<open>kernelvec.S\<close>, \<^verbatim>\<open>trampoline.S\<close>, \<^verbatim>\<open>swtch.S\<close>, \<^verbatim>\<open>initcode.S\<close>) and the control
    registers set in \<^verbatim>\<open>start.c\<close>; \<^verbatim>\<open>main.c\<close>, a sequence of initialisation calls; \<^verbatim>\<open>plic.c\<close> and the initialisation of the UART,
    stores to device registers; \<^verbatim>\<open>ramdisk.c\<close>, which is not built; \<^verbatim>\<open>mkfs.c\<close>, a host program, whose layout of the disk is a
    hypothesis of the file-system properties; the remaining user programs and tests, which only make system calls.
\<close>

end
